(* ===== verification/Mulle_Prelude.thy ===== *)
theory Mulle_Prelude
  imports Main "HOL-Library.Word" "HOL-Library.Monad_Syntax"
begin

text \<open>
  Shared vocabulary of the development: the C integer types of a 64-bit build as words, the
  collections of rewrite rules the component theories feed, and generic lemmas on words, lists
  and options that several components use.
\<close>

unbundle bit_operations_syntax

section \<open>C integer types\<close>

text \<open>
  The library is modelled for an LP64 target: \<open>size_t\<close>, \<open>uintptr_t\<close> and \<open>intptr_t\<close> have 64 bits.
  Unsigned arithmetic wraps, as \<open>+\<close>, \<open>-\<close> and \<open>*\<close> on words do. A signed value is the same word read
  with \<open>sint\<close>.
\<close>

type_synonym uintptr_t = "64 word"
type_synonym size_t = "64 word"
type_synonym pointer = "64 word"
type_synonym uint8_t = "8 word"
type_synonym uint16_t = "16 word"
type_synonym uint32_t = "32 word"
type_synonym uint64_t = "64 word"

text \<open>What is found in new memory, which need not be the same for two allocations.\<close>

type_synonym junk = "uintptr_t \<Rightarrow> nat \<Rightarrow> pointer"

section \<open>Collections\<close>

named_theorems word_unat \<open>facts that move a goal about words to naturals\<close>
named_theorems range_simps \<open>the bounds of a range, as naturals\<close>
named_theorems codec_simps \<open>evaluation of encoders and decoders on one character\<close>

section \<open>Words as naturals\<close>

lemmas word_order_unat [word_unat] = word_less_nat_alt word_le_nat_alt

lemma unat_eq_iff [word_unat]: "(a :: 'a::len word) = b \<longleftrightarrow> unat a = unat b"
  by (simp add: word_unat_eq_iff)

lemma unat64_less: "unat (a :: 64 word) < 2 ^ 64"
  using unsigned_less [of a] by simp

lemma unat64_add:
  "unat (a :: 64 word) + unat b < 2 ^ 64 \<Longrightarrow> unat (a + b) = unat a + unat b"
  by (simp add: unat_word_ariths)

lemma unat64_add_wrap:
  "2 ^ 64 \<le> unat (a :: 64 word) + unat b \<Longrightarrow> unat (a + b) = unat a + unat b - 2 ^ 64"
  using unat64_less [of a] unat64_less [of b]
  by (simp add: unat_word_ariths mod_if)

lemma unat64_sub:
  "unat (b :: 64 word) \<le> unat a \<Longrightarrow> unat (a - b) = unat a - unat b"
  by (simp add: unat_sub word_le_nat_alt)

lemma unat64_sub_wrap:
  assumes "unat (a :: 64 word) < unat b"
  shows "unat (a - b) = 2 ^ 64 + unat a - unat b"
proof -
  have "unat (a - b + b) = unat a" by simp
  then have "unat (a - b) + unat b = unat a + 2 ^ 64"
    using assms unat64_add [of "a - b" b] unat64_add_wrap [of "a - b" b]
    by (cases "unat (a - b) + unat b < 2 ^ 64") simp_all
  then show ?thesis by simp
qed

lemma unat64_minus_one: "unat (-1 :: 64 word) = 2 ^ 64 - 1"
  by (simp add: unsigned_minus_1_eq_mask mask_eq_exp_minus_1)

lemma unat_eq_of_nat: "unat (w :: 64 word) = n \<Longrightarrow> of_nat n = w"
  by auto

lemma unat64_of_nat: "n < 2 ^ 64 \<Longrightarrow> unat (of_nat n :: 64 word) = n"
  by (simp add: unat_of_nat)

lemma of_nat64_neq_minus_one: "n < 2 ^ 64 - 1 \<Longrightarrow> of_nat n \<noteq> (-1 :: 64 word)"
  using unat64_of_nat [of n] unat64_minus_one by auto

lemma of_nat64_neq_0: "0 < n \<Longrightarrow> n < 2 ^ 64 \<Longrightarrow> of_nat n \<noteq> (0 :: 64 word)"
  using unat64_of_nat [of n] by auto

lemma unat32_less: "unat (c :: 32 word) < 2 ^ 32"
  and unat16_less: "unat (d :: 16 word) < 2 ^ 16"
  and unat8_less: "unat (e :: 8 word) < 2 ^ 8"
  using unsigned_less [of c, where 'a = nat] unsigned_less [of d, where 'a = nat]
    unsigned_less [of e, where 'a = nat] by simp_all

lemma unat32_of_nat: "n < 2 ^ 32 \<Longrightarrow> unat (of_nat n :: 32 word) = n"
  by (simp add: unat_of_nat)

lemma unat_ucast_32_64: "unat (ucast (a :: 32 word) :: 64 word) = unat a"
  using unat32_less [of a] by (simp add: unsigned_ucast_eq take_bit_eq_mod)

lemma unat_ucast_16_64: "unat (ucast (a :: 16 word) :: 64 word) = unat a"
  using unat16_less [of a] by (simp add: unsigned_ucast_eq take_bit_eq_mod)

section \<open>Lists as C arrays\<close>

text \<open>
  Reading and writing an array element. An access outside of the array is undefined behaviour in C
  and has no result here, so an operation that returns \<open>Some\<close> stays within its arrays.
\<close>

definition slot :: "'a list \<Rightarrow> size_t \<Rightarrow> 'a option" where
  "slot xs i = (if unat i < length xs then Some (xs ! unat i) else None)"

definition set_slot :: "'a list \<Rightarrow> size_t \<Rightarrow> 'a \<Rightarrow> 'a list option" where
  "set_slot xs i x = (if unat i < length xs then Some (xs[unat i := x]) else None)"

lemma slot_Some: "unat i < length xs \<Longrightarrow> slot xs i = Some (xs ! unat i)"
  by (simp add: slot_def)

lemma set_slot_Some: "unat i < length xs \<Longrightarrow> set_slot xs i x = Some (xs[unat i := x])"
  by (simp add: set_slot_def)

lemma split_at_index:
  assumes "i < length xs"
  obtains as x bs where "xs = as @ x # bs" and "length as = i" and "x = xs ! i"
  using assms by (metis id_take_nth_drop length_take less_imp_le min.absorb2)

lemma nth_length_append [simp]: "(as @ x # bs) ! length as = x"
  by (fact nth_append_length)

lemma nth_pred_append:
  "as \<noteq> [] \<Longrightarrow> (as @ bs) ! (length as - 1) = last as"
  by (simp add: nth_append last_conv_nth)

lemma update_length_append [simp]: "(as @ x # bs)[length as := y] = as @ y # bs"
  by simp

section \<open>Loops that do not end\<close>

text \<open>
  Where a loop has no result because it never ends, and not because an access fails, the steps tell: a
  step is \<open>None\<close> for a failing access, goes on with the next state or ends with a result. A loop that does
  not end goes on after any number of steps.
\<close>

fun loop_run :: "('s \<Rightarrow> ('s + 'r) option) \<Rightarrow> nat \<Rightarrow> 's \<Rightarrow> ('s + 'r) option" where
  "loop_run step 0 s = Some (Inl s)"
| "loop_run step (Suc n) s =
     Option.bind (step s) (\<lambda>r. case r of Inl s' \<Rightarrow> loop_run step n s' | Inr x \<Rightarrow> Some (Inr x))"

definition runs_forever :: "('s \<Rightarrow> ('s + 'r) option) \<Rightarrow> 's \<Rightarrow> bool" where
  "runs_forever step s \<longleftrightarrow> (\<forall>n. \<exists>s'. loop_run step n s = Some (Inl s'))"

lemma runs_forever_invariant:
  assumes "I s" and step: "\<And>s. I s \<Longrightarrow> \<exists>s'. step s = Some (Inl s') \<and> I s'"
  shows "runs_forever step s"
proof -
  have "\<exists>s'. loop_run step n s = Some (Inl s')" for n
    using assms(1)
  proof (induction n arbitrary: s)
    case (Suc n)
    from step [OF Suc.prems] obtain s' where "step s = Some (Inl s')" "I s'" by blast
    with Suc.IH show ?case by simp
  qed simp
  then show ?thesis by (simp add: runs_forever_def)
qed

section \<open>Comparison functions\<close>

text \<open>What a comparison function promises: it is the sign of a total preorder.\<close>

definition compare_ok :: "('a \<Rightarrow> 'a \<Rightarrow> int) \<Rightarrow> bool" where
  "compare_ok cmp \<longleftrightarrow> (\<forall>x y. cmp x y \<le> 0 \<longleftrightarrow> 0 \<le> cmp y x) \<and>
     (\<forall>x y z. cmp x y \<le> 0 \<longrightarrow> cmp y z \<le> 0 \<longrightarrow> cmp x z \<le> 0)"

lemma compare_okD:
  assumes "compare_ok cmp"
  shows "cmp x y \<le> 0 \<Longrightarrow> cmp y z \<le> 0 \<Longrightarrow> cmp x z \<le> 0" and "0 \<le> cmp x y \<Longrightarrow> cmp y x \<le> 0"
    and "cmp x x = 0"
  using assms unfolding compare_ok_def by (blast, blast, metis order_antisym linear)

end
