(* ===== verification/Container_Math.thy ===== *)
theory Container_Math
  imports Mulle_Prelude
begin

text \<open>
  Model of \<open>mulle-container-math.h\<close>: the bit-twiddling power-of-two helpers every hash container
  sizes its storage with, and of the checked size arithmetic of \<open>mulle-allocator.h\<close>. The lemmas
  show that the smearing code computes the power of two its callers expect, and where it does not.
\<close>

section \<open>Definitions\<close>

definition mulle_is_pow2 :: "size_t \<Rightarrow> bool" where
  "mulle_is_pow2 x \<longleftrightarrow> (x AND (NOT x + 1)) = x"

definition mulle_pow2roundup_32 :: "uint32_t \<Rightarrow> uint32_t" where
  "mulle_pow2roundup_32 v =
     (let v = v - 1;
          v = v OR drop_bit 1 v;
          v = v OR drop_bit 2 v;
          v = v OR drop_bit 4 v;
          v = v OR drop_bit 8 v;
          v = v OR drop_bit 16 v;
          v = v + 1
      in if v \<noteq> 0 then v else 1)"

definition mulle_pow2roundup_64 :: "uint64_t \<Rightarrow> uint64_t" where
  "mulle_pow2roundup_64 v =
     (let v = v - 1;
          v = v OR drop_bit 1 v;
          v = v OR drop_bit 2 v;
          v = v OR drop_bit 4 v;
          v = v OR drop_bit 8 v;
          v = v OR drop_bit 16 v;
          v = v OR drop_bit 32 v;
          v = v + 1
      in if v \<noteq> 0 then v else 1)"

text \<open>\<open>sizeof( size_t) >= sizeof( uint64_t)\<close> holds on the modelled target.\<close>

definition mulle_pow2roundup :: "size_t \<Rightarrow> size_t" where
  "mulle_pow2roundup v = mulle_pow2roundup_64 v"

definition mulle_pow2rounddown_32 :: "uint32_t \<Rightarrow> uint32_t" where
  "mulle_pow2rounddown_32 v =
     (let r = v;
          r = r OR drop_bit 1 r;
          r = r OR drop_bit 2 r;
          r = r OR drop_bit 4 r;
          r = r OR drop_bit 8 r;
          r = r OR drop_bit 16 r
      in r - drop_bit 1 r)"

definition mulle_pow2rounddown_64 :: "uint64_t \<Rightarrow> uint64_t" where
  "mulle_pow2rounddown_64 v =
     (let r = v;
          r = r OR drop_bit 1 r;
          r = r OR drop_bit 2 r;
          r = r OR drop_bit 4 r;
          r = r OR drop_bit 8 r;
          r = r OR drop_bit 16 r;
          r = r OR drop_bit 32 r
      in r - drop_bit 1 r)"

definition mulle_pow2rounddown :: "size_t \<Rightarrow> size_t" where
  "mulle_pow2rounddown v = mulle_pow2rounddown_64 v"

definition mulle_pow2round :: "size_t \<Rightarrow> size_t" where
  "mulle_pow2round v = mulle_pow2roundup v"

text \<open>
  Checked size arithmetic. An overflow calls the allocator's \<open>fail\<close> vector, which does not return:
  that is \<open>None\<close> here and in every operation that allocates.
\<close>

definition mulle_allocator_size_multiply :: "size_t \<Rightarrow> size_t \<Rightarrow> size_t option" where
  "mulle_allocator_size_multiply a b =
     (if a \<noteq> 0 \<and> b > (- 1) div a then None else Some (a * b))"

definition mulle_allocator_size_add :: "size_t \<Rightarrow> size_t \<Rightarrow> size_t option" where
  "mulle_allocator_size_add a b =
     (let total = a + b in if total < a then None else Some total)"

text \<open>
  The default allocation functions, as the number of bytes they hand out. A request for nothing counts
  as an error of the program and ends it, too.
\<close>

definition v_reallocarray :: "size_t \<Rightarrow> size_t \<Rightarrow> size_t option" where
  "v_reallocarray n sz = (if n = 0 \<or> sz = 0 then None else mulle_allocator_size_multiply n sz)"

definition v_calloc :: "size_t \<Rightarrow> size_t \<Rightarrow> size_t option" where
  "v_calloc n sz =
     (if n = 0 \<or> sz = 0 then None else if sz > (- 1) div n then None else Some (n * sz))"

section \<open>Smearing\<close>

text \<open>\<open>smeared m v w\<close>: bit \<open>n\<close> of \<open>w\<close> is set when one of the bits \<open>n .. n + m - 1\<close> of \<open>v\<close> is.\<close>

definition smeared :: "nat \<Rightarrow> 'a::len word \<Rightarrow> 'a word \<Rightarrow> bool" where
  "smeared m v w \<longleftrightarrow> (\<forall>n. bit w n \<longleftrightarrow> (\<exists>k<m. bit v (n + k)))"

lemma smeared_1: "smeared 1 v v"
  by (simp add: smeared_def)

lemma smeared_double:
  assumes "smeared m v w"
  shows "smeared (m + m) v (w OR drop_bit m w)"
proof -
  have "(\<exists>k<m + m. bit v (n + k)) \<longleftrightarrow> (\<exists>k<m. bit v (n + k)) \<or> (\<exists>k<m. bit v (m + n + k))" for n
  proof
    assume "\<exists>k<m + m. bit v (n + k)"
    then obtain k where k: "k < m + m" "bit v (n + k)" by blast
    show "(\<exists>k<m. bit v (n + k)) \<or> (\<exists>k<m. bit v (m + n + k))"
    proof (cases "k < m")
      case True
      with k show ?thesis by blast
    next
      case False
      with k have "k - m < m" "bit v (m + n + (k - m))" by (auto simp: add.commute)
      then show ?thesis by blast
    qed
  next
    assume "(\<exists>k<m. bit v (n + k)) \<or> (\<exists>k<m. bit v (m + n + k))"
    then show "\<exists>k<m + m. bit v (n + k)"
    proof
      assume "\<exists>k<m. bit v (n + k)"
      then show ?thesis using trans_less_add1 by blast
    next
      assume "\<exists>k<m. bit v (m + n + k)"
      then obtain k where "k < m" "bit v (n + (m + k))" by (auto simp: ac_simps)
      then show ?thesis by (metis add_less_cancel_left)
    qed
  qed
  with assms show ?thesis
    by (simp add: smeared_def bit_or_iff bit_drop_bit_eq)
qed

lemma smeared_step: "smeared m v w \<Longrightarrow> n = m + m \<Longrightarrow> smeared n v (w OR drop_bit m w)"
  by (simp add: smeared_double)

lemma bit_unat: "bit (unat (v :: 'a::len word)) n \<longleftrightarrow> bit v n"
  by (auto simp: bit_unsigned_iff dest: bit_imp_le_length)

lemma top_bit_unat:
  assumes "2 ^ h \<le> unat (v :: 'a::len word)" "unat v < 2 ^ Suc h"
  shows "bit v h" and "h < n \<Longrightarrow> \<not> bit v n"
proof -
  have "unat v div 2 ^ h = 1"
    using assms by (metis One_nat_def div_nat_eqI mult.commute mult_1 power_Suc Suc_1)
  then show "bit v h" by (simp flip: bit_unat add: bit_iff_odd)
next
  assume "h < n"
  then have "(2::nat) ^ Suc h \<le> 2 ^ n" by (intro power_increasing) auto
  with assms have "unat v div 2 ^ n = 0" by simp
  then show "\<not> bit v n" by (simp flip: bit_unat add: bit_iff_odd)
qed

lemma smeared_mask:
  assumes "smeared LENGTH('a) (v :: 'a::len word) w" "2 ^ h \<le> unat v" "unat v < 2 ^ Suc h"
  shows "w = mask (Suc h)"
proof (rule bit_word_eqI)
  fix n assume "n < LENGTH('a)"
  have h: "h < LENGTH('a)" using top_bit_unat(1) [OF assms(2,3)] by (rule bit_imp_le_length)
  show "bit w n \<longleftrightarrow> bit (mask (Suc h) :: 'a word) n"
  proof (cases "n \<le> h")
    case True
    with h top_bit_unat(1) [OF assms(2,3)] have "h - n < LENGTH('a)" "bit v (n + (h - n))" by auto
    with assms(1) True \<open>n < LENGTH('a)\<close> show ?thesis
      by (auto simp: smeared_def bit_mask_iff)
  next
    case False
    then have "\<not> bit v (n + k)" for k using top_bit_unat(2) [OF assms(2,3)] by simp
    with assms(1) False show ?thesis by (auto simp: smeared_def bit_mask_iff)
  qed
qed

lemma unat_top: "(v :: 'a::len word) \<noteq> 0 \<Longrightarrow> \<exists>h. 2 ^ h \<le> unat v \<and> unat v < 2 ^ Suc h"
  using ex_power_ivl1 [of 2 "unat v"] by (simp add: unat_gt_0 Suc_le_eq)

definition smear_64 :: "64 word \<Rightarrow> 64 word" where
  "smear_64 r =
     (let r = r OR drop_bit 1 r; r = r OR drop_bit 2 r; r = r OR drop_bit 4 r;
          r = r OR drop_bit 8 r; r = r OR drop_bit 16 r in r OR drop_bit 32 r)"

definition smear_32 :: "32 word \<Rightarrow> 32 word" where
  "smear_32 r =
     (let r = r OR drop_bit 1 r; r = r OR drop_bit 2 r; r = r OR drop_bit 4 r;
          r = r OR drop_bit 8 r in r OR drop_bit 16 r)"

lemma smeared_smear_64: "smeared 64 v (smear_64 v)"
  unfolding smear_64_def Let_def
  by (rule smeared_step smeared_1 | simp (no_asm))+

lemma smeared_smear_32: "smeared 32 v (smear_32 v)"
  unfolding smear_32_def Let_def
  by (rule smeared_step smeared_1 | simp (no_asm))+

lemma smear_64_mask: "2 ^ h \<le> unat v \<Longrightarrow> unat v < 2 ^ Suc h \<Longrightarrow> smear_64 v = mask (Suc h)"
  using smeared_mask [of v "smear_64 v" h] smeared_smear_64 [of v] by simp

lemma smear_32_mask: "2 ^ h \<le> unat v \<Longrightarrow> unat v < 2 ^ Suc h \<Longrightarrow> smear_32 v = mask (Suc h)"
  using smeared_mask [of v "smear_32 v" h] smeared_smear_32 [of v] by simp

lemma smear_zero [simp]: "smear_64 0 = 0" "smear_32 0 = 0"
  by (simp_all add: smear_64_def smear_32_def)

section \<open>Rounding\<close>

lemma roundup_smear:
  "mulle_pow2roundup_64 v = (let w = smear_64 (v - 1) + 1 in if w \<noteq> 0 then w else 1)"
  "mulle_pow2roundup_32 u = (let w = smear_32 (u - 1) + 1 in if w \<noteq> 0 then w else 1)"
  unfolding mulle_pow2roundup_64_def mulle_pow2roundup_32_def smear_64_def smear_32_def Let_def
  by (rule refl)+

lemma rounddown_smear:
  "mulle_pow2rounddown_64 v = (let w = smear_64 v in w - drop_bit 1 w)"
  "mulle_pow2rounddown_32 u = (let w = smear_32 u in w - drop_bit 1 w)"
  unfolding mulle_pow2rounddown_64_def mulle_pow2rounddown_32_def smear_64_def smear_32_def Let_def
  by (rule refl)+

lemma unat_exp: "k < LENGTH('a) \<Longrightarrow> unat (2 ^ k :: 'a::len word) = 2 ^ k"
  using unat_of_nat [where 'a = 'a, of "2 ^ k"] by simp

lemma mask_Suc_plus_1: "(mask (Suc h) :: 'a::len word) + 1 = 2 ^ Suc h"
  by (simp add: mask_eq_exp_minus_1)

lemma pow2roundup_64_eq:
  assumes "2 ^ h < unat v" "unat v \<le> 2 ^ Suc h" "h < 63"
  shows "mulle_pow2roundup_64 v = 2 ^ Suc h"
proof -
  have "0 < unat v" using assms(1) by (cases "unat v") auto
  then have "unat (v - 1) = unat v - 1" by (simp add: unat64_sub)
  with assms have "smear_64 (v - 1) = mask (Suc h)"
    by (intro smear_64_mask) auto
  moreover have "(2 ^ Suc h :: 64 word) \<noteq> 0" using assms(3) by (simp del: power_Suc)
  ultimately show ?thesis
    by (simp add: roundup_smear mask_Suc_plus_1 Let_def del: power_Suc)
qed

lemma pow2roundup_64_overflow:
  assumes "2 ^ 63 < unat v"
  shows "mulle_pow2roundup_64 v = 1"
proof -
  have "unat (v - 1) = unat v - 1" using assms by (simp add: unat64_sub)
  with assms unat64_less [of v] have "smear_64 (v - 1) = mask (Suc 63)"
    by (intro smear_64_mask) auto
  moreover have "mask (Suc 63) + 1 = (0 :: 64 word)" by (simp only: mask_Suc_plus_1) simp
  ultimately show ?thesis by (simp add: roundup_smear)
qed

lemma pow2roundup_64_0: "mulle_pow2roundup_64 0 = 1" "mulle_pow2roundup_64 1 = 1"
  by (simp_all add: mulle_pow2roundup_64_def)

lemma pow2rounddown_64_eq:
  assumes "2 ^ h \<le> unat v" "unat v < 2 ^ Suc h"
  shows "mulle_pow2rounddown_64 v = 2 ^ h"
proof -
  have "drop_bit 1 (mask (Suc h) :: 64 word) = mask h"
    using top_bit_unat(1) [OF assms, THEN bit_imp_le_length]
    by (auto intro!: bit_word_eqI simp: bit_drop_bit_eq bit_mask_iff)
  with smear_64_mask [OF assms] show ?thesis
    by (simp add: rounddown_smear mask_eq_exp_minus_1)
qed

lemma unat64_uminus: "x \<noteq> 0 \<Longrightarrow> unat (- x :: 64 word) = 2 ^ 64 - unat x"
  using unat64_sub_wrap [of 0 x] by (simp add: unat_gt_0)

lemma bit_uminus_top:
  assumes "2 ^ h < unat (x :: 64 word)" "unat x < 2 ^ Suc h"
  shows "\<not> bit (- x) h"
proof -
  have h: "h < 64" using top_bit_unat(1) [of h x, THEN bit_imp_le_length] assms by simp
  define c :: nat where "c = 2 ^ (63 - h)"
  have c: "2 ^ 64 = 2 * c * 2 ^ h"
    using h by (simp add: c_def flip: power_add power_Suc)
  have "c \<ge> 1" by (simp add: c_def)
  then obtain d where d: "c = Suc d" by (cases c) auto
  from assms have "x \<noteq> 0" by (auto simp: unat_gt_0)
  then have "unat (- x) = 2 * c * 2 ^ h - unat x" using c unat64_uminus by simp
  moreover from assms have "unat x = 2 ^ h + (unat x - 2 ^ h)" "0 < unat x - 2 ^ h" "unat x - 2 ^ h < 2 ^ h"
    by auto
  ultimately have "unat (- x) div 2 ^ h = 2 * d"
    using d by (intro div_nat_eqI) (auto simp: algebra_simps)
  then show ?thesis by (simp flip: bit_unat add: bit_iff_odd)
qed

lemma bit_uminus_exp:
  assumes "k < 64"
  shows "bit (- (2 ^ k) :: 64 word) k"
proof -
  have "(2 ^ k :: 64 word) \<noteq> 0" using assms by simp
  with assms have "unat (- (2 ^ k) :: 64 word) = 2 ^ 64 - 2 ^ k"
    using unat_exp [where 'a = 64, of k] by (simp add: unat64_uminus)
  also have "\<dots> = (2 ^ (64 - k) - 1) * 2 ^ k"
    using assms by (simp add: algebra_simps flip: power_add)
  finally show ?thesis using assms by (simp flip: bit_unat add: bit_iff_odd)
qed

section \<open>Rounding and checked sizes, for the clients\<close>

lemma roundup_cases [case_names zero overflow one between]:
  fixes v :: "64 word"
  obtains "v = 0" | "2 ^ 63 < unat v" | "v = 1"
    | h where "h < 63" "2 ^ h < unat v" "unat v \<le> 2 ^ Suc h"
proof (cases "unat v \<le> 1 \<or> 2 ^ 63 < unat v")
  case True
  then have "v = 0 \<or> v = 1 \<or> 2 ^ 63 < unat v"
    by (metis le_Suc_eq le_zero_eq One_nat_def unat_eq_0 unat_1 word_unat_eq_iff)
  with that(1-3) show thesis by blast
next
  case False
  then obtain h where h: "2 ^ h < unat v" "unat v \<le> 2 ^ Suc h"
    using ex_power_ivl2 [of 2 "unat v"] by auto
  with False have "(2::nat) ^ h < 2 ^ 63" by linarith
  then have "h < 63" by (rule power_less_imp_less_exp [rotated]) simp
  with h that(4) show thesis by blast
qed

lemma pow2round_bounds:
  assumes "unat n \<le> 2 ^ k" "k < 64"
  shows "unat n \<le> unat (mulle_pow2round n) \<and> 0 < unat (mulle_pow2round n) \<and>
    unat (mulle_pow2round n) \<le> 2 ^ k"
proof (cases n rule: roundup_cases)
  case overflow
  have "(2::nat) ^ k \<le> 2 ^ 63" using assms(2) by (intro power_increasing) auto
  with overflow assms(1) show ?thesis by linarith
next
  case (between h)
  then have "(2::nat) ^ h < 2 ^ k" using assms(1) by linarith
  then have "Suc h \<le> k" by simp
  then have "(2::nat) ^ Suc h \<le> 2 ^ k" by (rule power_increasing) simp
  moreover have "unat (mulle_pow2round n) = 2 ^ Suc h"
    using between unat_exp [where 'a = 64, of "Suc h"]
    by (simp add: mulle_pow2round_def mulle_pow2roundup_def pow2roundup_64_eq)
  ultimately show ?thesis using between by simp
qed (simp_all add: mulle_pow2round_def mulle_pow2roundup_def pow2roundup_64_0)

lemma pow2round_power:
  assumes "unat n \<le> 2 ^ 63"
  obtains k where "unat (mulle_pow2round n) = 2 ^ k" "k < 64"
proof (cases n rule: roundup_cases)
  case overflow
  with assms show thesis by linarith
next
  case (between h)
  with that [of "Suc h"] unat_exp [where 'a = 64, of "Suc h"] show thesis
    by (simp add: mulle_pow2round_def mulle_pow2roundup_def pow2roundup_64_eq)
qed (use that [of 0] in \<open>simp_all add: mulle_pow2round_def mulle_pow2roundup_def pow2roundup_64_0\<close>)

lemma size_multiply_eq:
  "mulle_allocator_size_multiply a b = (if 2 ^ 64 \<le> unat a * unat b then None else Some (a * b))"
proof (cases "a = 0")
  case True
  then show ?thesis by (simp add: mulle_allocator_size_multiply_def)
next
  case False
  have "unat (- 1 :: 64 word) = 2 ^ 64 - 1" using unat64_uminus [of 1] by simp
  then have "b \<le> (- 1) div a \<longleftrightarrow> unat b \<le> (2 ^ 64 - 1) div unat a"
    by (simp add: word_le_nat_alt unat_div)
  also have "\<dots> \<longleftrightarrow> unat b * unat a \<le> 2 ^ 64 - 1"
    using False by (simp add: less_eq_div_iff_mult_less_eq unat_gt_0)
  finally have "b > (- 1) div a \<longleftrightarrow> 2 ^ 64 \<le> unat a * unat b"
    by (auto simp: not_le [symmetric] mult.commute)
  then show ?thesis using False by (simp add: mulle_allocator_size_multiply_def)
qed

text \<open>An array of \<open>n\<close> elements can be had when it is neither empty nor too large.\<close>

lemma alloc_array:
  assumes "0 < unat n" "0 < unat sz" "unat n * unat sz < 2 ^ 64"
  shows "Option.bind (mulle_allocator_size_multiply n sz) (v_reallocarray 1) = Some (n * sz)"
    and "v_calloc n sz = Some (n * sz)"
proof -
  have m: "mulle_allocator_size_multiply n sz = Some (n * sz)" using assms(3) by (simp add: size_multiply_eq)
  have "unat (n * sz) = unat n * unat sz" using assms(3) unat_mult_lem [of n sz] by simp
  then have "n * sz \<noteq> 0" using assms(1,2) by (metis mult_is_0 not_less0 unat_0)
  then have "v_reallocarray 1 (n * sz) = Some (n * sz)"
    using unat64_less [of "n * sz"] by (simp add: v_reallocarray_def size_multiply_eq)
  with m show "Option.bind (mulle_allocator_size_multiply n sz) (v_reallocarray 1) = Some (n * sz)" by simp
  have "n \<noteq> 0" "sz \<noteq> 0" using assms(1,2) by auto
  with m show "v_calloc n sz = Some (n * sz)"
    by (auto simp: v_calloc_def mulle_allocator_size_multiply_def split: if_splits)
qed

lemma alloc_nothing:
  "Option.bind (mulle_allocator_size_multiply 0 sz) (v_reallocarray 1) = None" "v_calloc 0 sz = None"
  by (simp_all add: size_multiply_eq v_reallocarray_def v_calloc_def)

section \<open>Properties\<close>

text \<open>
  \<open>mulle_pow2roundup\<close> rounds up to the least power of two that is not smaller than its argument;
  zero and everything above \<open>2 ^ 63\<close>, where no such power fits into 64 bits, give 1.
\<close>

theorem mulle_pow2roundup_spec:
  "mulle_pow2roundup v =
     (if v = 0 \<or> 2 ^ 63 < unat v then 1 else 2 ^ (LEAST k. unat v \<le> 2 ^ k))"
proof (cases v rule: roundup_cases)
  case (between h)
  have "(LEAST k. unat v \<le> 2 ^ k) = Suc h"
  proof (rule Least_equality)
    fix k assume "unat v \<le> 2 ^ k"
    with between have "(2::nat) ^ h < 2 ^ k" by linarith
    then show "Suc h \<le> k" by simp
  qed (fact between)
  moreover have "(2::nat) ^ Suc h \<le> 2 ^ 63" using between(1) by (intro power_increasing) auto
  ultimately show ?thesis using between
    by (auto simp: mulle_pow2roundup_def pow2roundup_64_eq simp del: power_Suc)
qed (simp_all add: mulle_pow2roundup_def pow2roundup_64_0 pow2roundup_64_overflow)

text \<open>
  The one-instruction test \<open>(x & (~x + 1)) == x\<close> of \<open>mulle_is_pow2\<close> accepts exactly zero and
  the 64 powers of two of the word.
\<close>

theorem mulle_is_pow2_iff: "mulle_is_pow2 x \<longleftrightarrow> x = 0 \<or> (\<exists>k<64. x = 2 ^ k)"
proof (cases "x = 0")
  case True
  then show ?thesis by (simp add: mulle_is_pow2_def)
next
  case False
  then obtain h where h: "2 ^ h \<le> unat x" "unat x < 2 ^ Suc h" using unat_top by blast
  then have bit: "bit x h" "h < 64" using top_bit_unat(1) [of h x] bit_imp_le_length [of x h] by auto
  have minus: "NOT x + 1 = - x" by (simp add: minus_eq_not_plus_1)
  show ?thesis
  proof (cases "x = 2 ^ h")
    case True
    have "bit (x AND - x) n = bit x n" if "n < 64" for n
      using bit_uminus_exp [OF bit(2)] True by (auto simp: bit_and_iff bit_exp_iff)
    then have "x AND - x = x" by (auto intro: bit_word_eqI)
    with True bit(2) minus show ?thesis by (auto simp: mulle_is_pow2_def)
  next
    case not_exp: False
    have "unat x \<noteq> 2 ^ h"
      using not_exp unat_exp [where 'a = 64, of h] bit(2) by (auto simp: word_unat_eq_iff)
    with h have "\<not> bit (- x) h" by (intro bit_uminus_top) auto
    then have "\<not> bit (x AND - x) h" by (simp add: bit_and_iff)
    with bit(1) have "x AND - x \<noteq> x" by metis
    moreover have "x \<noteq> 2 ^ k" for k
    proof
      assume "x = 2 ^ k"
      with bit(1) have "k = h" by (simp add: bit_exp_iff)
      with not_exp \<open>x = 2 ^ k\<close> show False by simp
    qed
    ultimately show ?thesis using False minus by (simp add: mulle_is_pow2_def)
  qed
qed

text \<open>
  The checked multiplication aborts exactly when the product does not fit into a \<open>size_t\<close>, and
  otherwise returns the product.
\<close>

theorem mulle_allocator_size_multiply_spec:
  "case mulle_allocator_size_multiply a b of
     None \<Rightarrow> 2 ^ 64 \<le> unat a * unat b
   | Some c \<Rightarrow> unat a * unat b < 2 ^ 64 \<and> unat c = unat a * unat b"
  using unat_mult_lem [of a b] by (auto simp: size_multiply_eq)

end
