(* ===== verification/Range.thy ===== *)
theory Range
  imports Mulle_Prelude
begin

text \<open>
  Model of \<open>mulle-range.h\<close> and \<open>mulle-range.c\<close>: the half-open range of 64-bit locations, its
  queries, the set operations on two ranges and the three binary searches over a sorted array of
  ranges. \<open>assert\<close> is compiled out, as in a release build; the lemmas on validity are what the
  asserts check. An array of \<open>n\<close> ranges is a list of length \<open>n\<close> (the null buffer, which every
  search answers like an empty one, is the empty list), a pointer into it is an index, and a null
  result is \<open>None\<close>. A leading underscore of a C name is written \<open>u_\<close>, two are written \<open>uu_\<close>.
\<close>

section \<open>The range and its queries\<close>

record mulle_range =
  location :: uintptr_t
  range_length :: uintptr_t

text \<open>\<open>(uintptr_t) INTPTR_MAX\<close>\<close>

definition mulle_not_found_e :: uintptr_t where
  "mulle_not_found_e = 0x7FFFFFFFFFFFFFFF"

definition mulle_range_location_max :: uintptr_t where
  "mulle_range_location_max = mulle_not_found_e - 1"

definition mulle_range_make :: "uintptr_t \<Rightarrow> uintptr_t \<Rightarrow> mulle_range" where
  "mulle_range_make loc len = \<lparr>location = loc, range_length = len\<rparr>"

definition mulle_range_zero :: mulle_range where
  "mulle_range_zero = \<lparr>location = 0, range_length = 0\<rparr>"

definition mulle_range_make_locations :: "uintptr_t \<Rightarrow> uintptr_t \<Rightarrow> mulle_range" where
  "mulle_range_make_locations loc loc2 =
     (if loc < loc2 then mulle_range_make loc (loc2 - loc + 1)
      else mulle_range_make loc2 (loc - loc2 + 1))"

definition mulle_range_make_all :: mulle_range where
  "mulle_range_make_all = \<lparr>location = 0, range_length = - 1\<rparr>"

definition mulle_range_make_invalid :: mulle_range where
  "mulle_range_make_invalid = \<lparr>location = mulle_not_found_e, range_length = 0\<rparr>"

definition mulle_range_equals :: "mulle_range \<Rightarrow> mulle_range \<Rightarrow> bool" where
  "mulle_range_equals rng other \<longleftrightarrow>
     location rng = location other \<and> range_length rng = range_length other"

definition mulle_range_is_valid :: "mulle_range \<Rightarrow> bool" where
  "mulle_range_is_valid rng =
     (if location rng > mulle_range_location_max then False
      else if range_length rng = 0 then True
      else let end = location rng + range_length rng
           in end > location rng \<and> end \<le> mulle_range_location_max + 1)"

definition mulle_range_get_min :: "mulle_range \<Rightarrow> uintptr_t" where
  "mulle_range_get_min rng = location rng"

definition u_mulle_range_get_max :: "mulle_range \<Rightarrow> uintptr_t" where
  "u_mulle_range_get_max rng = location rng + range_length rng"

definition mulle_range_get_max :: "mulle_range \<Rightarrow> uintptr_t" where
  "mulle_range_get_max rng = location rng + range_length rng"

definition mulle_range_get_first_location :: "mulle_range \<Rightarrow> uintptr_t" where
  "mulle_range_get_first_location rng =
     (if range_length rng = 0 then mulle_not_found_e else location rng)"

definition mulle_range_get_last_location :: "mulle_range \<Rightarrow> uintptr_t" where
  "mulle_range_get_last_location rng =
     (if range_length rng = 0 then mulle_not_found_e
      else location rng + range_length rng - 1)"

definition mulle_range_contains_location :: "mulle_range \<Rightarrow> uintptr_t \<Rightarrow> bool" where
  "mulle_range_contains_location rng loc \<longleftrightarrow> loc - location rng < range_length rng"

definition mulle_range_less_than_or_equal_to_location :: "mulle_range \<Rightarrow> uintptr_t \<Rightarrow> bool" where
  "mulle_range_less_than_or_equal_to_location rng loc =
     (if range_length rng = 0 then False else mulle_range_get_last_location rng \<le> loc)"

definition mulle_range_less_than_location :: "mulle_range \<Rightarrow> uintptr_t \<Rightarrow> bool" where
  "mulle_range_less_than_location rng loc =
     (if range_length rng = 0 then False else mulle_range_get_last_location rng < loc)"

definition mulle_range_greater_than_or_equal_to_location :: "mulle_range \<Rightarrow> uintptr_t \<Rightarrow> bool" where
  "mulle_range_greater_than_or_equal_to_location rng loc =
     (if range_length rng = 0 then False else location rng \<ge> loc)"

definition mulle_range_greater_than_location :: "mulle_range \<Rightarrow> uintptr_t \<Rightarrow> bool" where
  "mulle_range_greater_than_location rng loc =
     (if range_length rng = 0 then False else location rng > loc)"

definition mulle_range_equal_to_location :: "mulle_range \<Rightarrow> uintptr_t \<Rightarrow> bool" where
  "mulle_range_equal_to_location rng loc =
     (if range_length rng = 0 then False else location rng = loc)"

definition mulle_range_distance_to_location :: "mulle_range \<Rightarrow> uintptr_t \<Rightarrow> uintptr_t" where
  "mulle_range_distance_to_location rng loc =
     (if range_length rng = 0 then - 1
      else if loc \<ge> location rng then
        (if loc < mulle_range_get_max rng then 0
         else loc - mulle_range_get_last_location rng)
      else location rng - loc)"

definition mulle_range_validate_against_length :: "mulle_range \<Rightarrow> uintptr_t \<Rightarrow> mulle_range" where
  "mulle_range_validate_against_length rng len =
     (let rng = (if range_length rng = - 1
                   then mulle_range_make (location rng) (len - location rng) else rng);
          end = location rng + range_length rng
      in if end > len \<or> end < location rng then mulle_range_make_invalid else rng)"

definition mulle_range_contains :: "mulle_range \<Rightarrow> mulle_range \<Rightarrow> bool" where
  "mulle_range_contains big_range small_range =
     (if \<not> mulle_range_contains_location big_range (location small_range) then False
      else if range_length small_range = 0 then True
      else mulle_range_contains_location big_range (mulle_range_get_max small_range - 1))"

section \<open>Set operations on two ranges\<close>

definition mulle_range_intersects :: "mulle_range \<Rightarrow> mulle_range \<Rightarrow> bool" where
  "mulle_range_intersects rng other =
     (let end1 = mulle_range_get_max rng;
          end2 = mulle_range_get_max other;
          min = (if end1 < end2 then end1 else end2);
          loc = (if location rng > location other then location rng else location other)
      in min > loc)"

definition mulle_range_intersection :: "mulle_range \<Rightarrow> mulle_range \<Rightarrow> mulle_range" where
  "mulle_range_intersection rng other =
     (let end1 = mulle_range_get_max rng;
          end2 = mulle_range_get_max other;
          min = (if end1 < end2 then end1 else end2);
          loc = (if location rng > location other then location rng else location other)
      in if min < loc then \<lparr>location = 0, range_length = 0\<rparr>
         else \<lparr>location = loc, range_length = min - loc\<rparr>)"

definition mulle_range_intersect :: "mulle_range \<Rightarrow> mulle_range \<Rightarrow> mulle_range" where
  "mulle_range_intersect rng other = mulle_range_intersection rng other"

definition mulle_range_union :: "mulle_range \<Rightarrow> mulle_range \<Rightarrow> mulle_range" where
  "mulle_range_union rng other =
     (if range_length other = 0 then rng
      else if range_length rng = 0 then other
      else let end1 = mulle_range_get_max rng;
               end2 = mulle_range_get_max other;
               end = (if end1 > end2 then end1 else end2);
               loc = (if location rng < location other then location rng else location other)
           in \<lparr>location = loc, range_length = end - loc\<rparr>)"

definition mulle_range_subtract :: "mulle_range \<Rightarrow> mulle_range \<Rightarrow> mulle_range \<times> mulle_range" where
  "mulle_range_subtract a b =
     (if range_length (mulle_range_intersect a b) = 0 then (a, mulle_range_zero)
      else let a_end = mulle_range_get_max a;
               b_end = mulle_range_get_max b
           in if location b \<le> location a \<and> b_end \<ge> a_end then (mulle_range_zero, mulle_range_zero)
              else if location a < location b \<and> a_end > b_end
              then (mulle_range_make (location a) (location b - location a),
                    mulle_range_make b_end (a_end - b_end))
              else if a_end > b_end then (mulle_range_zero, mulle_range_make b_end (a_end - b_end))
              else (mulle_range_make (location a) (location b - location a), mulle_range_zero))"

definition mulle_range_subtract_location ::
    "mulle_range \<Rightarrow> uintptr_t \<Rightarrow> mulle_range \<times> mulle_range" where
  "mulle_range_subtract_location a loc = mulle_range_subtract a (mulle_range_make loc 1)"

text \<open>\<open>None\<close> is the return value 0, where the result array is left untouched.\<close>

definition mulle_range_insert ::
    "mulle_range \<Rightarrow> mulle_range \<Rightarrow> (mulle_range \<times> mulle_range) option" where
  "mulle_range_insert a b =
     (if \<not> mulle_range_is_valid a then None
      else if range_length b = 0 then None
      else let a_end = u_mulle_range_get_max a;
               b_end = u_mulle_range_get_max b
           in if location b > a_end \<or> b_end < location a then None
              else if location b \<ge> location a
              then Some (mulle_range_make (location a) (location b - location a),
                         mulle_range_make b_end (a_end - location b))
              else Some (mulle_range_zero, mulle_range_make b_end (range_length a)))"

section \<open>Binary searches over an array of ranges\<close>

text \<open>
  The loops of the three searches. \<open>first_i\<close>, \<open>last_i\<close> and \<open>middle\<close> are \<open>intptr_t\<close> values between
  \<open>-1\<close> and \<open>n\<close>; \<open>middle\<close> is computed where the loop condition \<open>first_i <= last_i\<close> holds, so the
  truncating division of C is \<open>div\<close>.
\<close>

function hole_bsearch_loop :: "mulle_range list \<Rightarrow> uintptr_t \<Rightarrow> int \<Rightarrow> int \<Rightarrow> nat" where
  "hole_bsearch_loop buf search_location first_i last_i =
     (if first_i \<le> last_i then
        (let middle = (first_i + last_i) div 2; p = nat middle
         in if location (buf ! p) < search_location then
              (if middle = last_i \<or> location (buf ! (p + 1)) > search_location then p + 1
               else hole_bsearch_loop buf search_location (middle + 1) last_i)
            else hole_bsearch_loop buf search_location first_i (middle - 1))
      else nat (last_i + 1))"
  by pat_completeness auto
termination
  by (relation "measure (\<lambda>(buf, loc, first_i, last_i). nat (last_i - first_i + 1))") auto

definition u_mulle_range_hole_bsearch :: "mulle_range list \<Rightarrow> uintptr_t \<Rightarrow> nat" where
  "u_mulle_range_hole_bsearch buf search_location =
     (if buf = [] then 0 else hole_bsearch_loop buf search_location 0 (int (length buf) - 1))"

function contains_bsearch_loop :: "mulle_range list \<Rightarrow> mulle_range \<Rightarrow> int \<Rightarrow> int \<Rightarrow> nat option" where
  "contains_bsearch_loop buf search first_i last_i =
     (if first_i \<le> last_i then
        (let middle = (first_i + last_i) div 2; p = nat middle
         in if location (buf ! p) \<le> location search then
              (if mulle_range_contains (buf ! p) search then Some p
               else contains_bsearch_loop buf search (middle + 1) last_i)
            else contains_bsearch_loop buf search first_i (middle - 1))
      else None)"
  by pat_completeness auto
termination
  by (relation "measure (\<lambda>(buf, r, first_i, last_i). nat (last_i - first_i + 1))") auto

definition mulle_range_contains_bsearch :: "mulle_range list \<Rightarrow> mulle_range \<Rightarrow> nat option" where
  "mulle_range_contains_bsearch buf search =
     (if \<not> mulle_range_is_valid search then None
      else contains_bsearch_loop buf search 0 (int (length buf) - 1))"

function intersects_bsearch_loop ::
    "mulle_range list \<Rightarrow> mulle_range \<Rightarrow> int \<Rightarrow> int \<Rightarrow> nat option" where
  "intersects_bsearch_loop buf search first_i last_i =
     (if first_i \<le> last_i then
        (let middle = (first_i + last_i) div 2; p = nat middle
         in if location (buf ! p) < mulle_range_get_max search then
              (if range_length (mulle_range_intersect (buf ! p) search) \<noteq> 0 then Some p
               else intersects_bsearch_loop buf search (middle + 1) last_i)
            else intersects_bsearch_loop buf search first_i (middle - 1))
      else None)"
  by pat_completeness auto
termination
  by (relation "measure (\<lambda>(buf, r, first_i, last_i). nat (last_i - first_i + 1))") auto

definition mulle_range_intersects_bsearch :: "mulle_range list \<Rightarrow> mulle_range \<Rightarrow> nat option" where
  "mulle_range_intersects_bsearch buf search =
     (if \<not> mulle_range_is_valid search then None
      else if buf = [] \<or> range_length search = 0 then None
      else intersects_bsearch_loop buf search 0 (int (length buf) - 1))"

declare hole_bsearch_loop.simps [simp del]
declare contains_bsearch_loop.simps [simp del]
declare intersects_bsearch_loop.simps [simp del]

section \<open>Ranges as sets of naturals\<close>

definition lo :: "mulle_range \<Rightarrow> nat" where
  "lo r = unat (location r)"

definition hi :: "mulle_range \<Rightarrow> nat" where
  "hi r = unat (location r) + unat (range_length r)"

definition rset :: "mulle_range \<Rightarrow> nat set" where
  "rset r = {lo r ..< hi r}"

definition nonempty :: "mulle_range \<Rightarrow> bool" where
  "nonempty r \<longleftrightarrow> range_length r \<noteq> 0"

text \<open>The locations a valid range may reach: one less than \<open>INTPTR_MAX\<close>.\<close>

abbreviation range_top :: nat where
  "range_top \<equiv> 9223372036854775807"

lemma in_rset [simp]: "x \<in> rset r \<longleftrightarrow> lo r \<le> x \<and> x < hi r"
  by (simp add: rset_def)

lemma lo_le_hi: "lo r \<le> hi r"
  by (simp add: lo_def hi_def)

lemma nonempty_iff [range_simps]: "nonempty r \<longleftrightarrow> lo r < hi r"
  by (simp add: nonempty_def lo_def hi_def word_unat)

lemma length_eq_0_iff: "range_length r = 0 \<longleftrightarrow> hi r = lo r"
  by (simp add: lo_def hi_def word_unat)

lemma unat_not_found [simp]: "unat mulle_not_found_e = range_top"
  by (simp add: mulle_not_found_e_def)

lemma unat_location_max [simp]: "unat mulle_range_location_max = range_top - 1"
  by (simp add: mulle_range_location_max_def mulle_not_found_e_def)

lemma location_max_plus_1: "mulle_range_location_max + 1 = mulle_not_found_e"
  by (simp add: mulle_range_location_max_def)

lemma valid_iff [range_simps]:
  "mulle_range_is_valid r \<longleftrightarrow> lo r < range_top \<and> hi r \<le> range_top"
proof (cases "unat (location r) + unat (range_length r) < 2 ^ 64")
  case True
  then show ?thesis
    by (auto simp: mulle_range_is_valid_def lo_def hi_def word_unat location_max_plus_1
        unat64_add Let_def)
next
  case False
  then show ?thesis
    using unat64_less [of "range_length r"]
    by (auto simp: mulle_range_is_valid_def lo_def hi_def word_unat location_max_plus_1
        unat64_add_wrap Let_def)
qed

lemma unat_get_max [simp]:
  "mulle_range_is_valid r \<Longrightarrow> unat (mulle_range_get_max r) = hi r"
  "mulle_range_is_valid r \<Longrightarrow> unat (u_mulle_range_get_max r) = hi r"
  by (simp_all add: range_simps mulle_range_get_max_def u_mulle_range_get_max_def hi_def lo_def unat64_add)

lemma lo_make [simp]: "lo (mulle_range_make a n) = unat a" "lo \<lparr>location = a, range_length = n\<rparr> = unat a"
  by (simp_all add: mulle_range_make_def lo_def)

lemma hi_make [simp]: "hi (mulle_range_make a n) = unat a + unat n"
  "hi \<lparr>location = a, range_length = n\<rparr> = unat a + unat n"
  by (simp_all add: mulle_range_make_def hi_def)

lemma lo_zero [simp]: "lo mulle_range_zero = 0" "hi mulle_range_zero = 0"
  by (simp_all add: mulle_range_zero_def)

lemma lo_invalid [simp]: "lo mulle_range_make_invalid = range_top" "hi mulle_range_make_invalid = range_top"
  by (simp_all add: mulle_range_make_invalid_def)

lemma rset_zero [simp]: "rset mulle_range_zero = {}"
  by (simp add: rset_def)

lemma range_eqI: "lo r = lo s \<Longrightarrow> hi r = hi s \<Longrightarrow> r = (s :: mulle_range)"
  by (cases r; cases s) (simp add: lo_def hi_def word_unat)

lemma unat_range_length [simp]: "unat (range_length r) = hi r - lo r"
  by (simp add: lo_def hi_def)

lemma unat_location [simp]: "unat (location r) = lo r"
  by (simp add: lo_def)

section \<open>The queries, on sets\<close>

lemma contains_location_iff:
  assumes "mulle_range_is_valid r"
  shows "mulle_range_contains_location r x \<longleftrightarrow> unat x \<in> rset r"
proof (cases "lo r \<le> unat x")
  case True
  then show ?thesis
    by (auto simp: mulle_range_contains_location_def word_unat unat64_sub)
next
  case False
  with assms show ?thesis
    by (auto simp: mulle_range_contains_location_def word_unat unat64_sub_wrap
        range_simps)
qed

lemma contains_iff:
  assumes "mulle_range_is_valid b" "mulle_range_is_valid s" "nonempty s"
  shows "mulle_range_contains b s \<longleftrightarrow> lo b \<le> lo s \<and> hi s \<le> hi b"
proof -
  from assms have "unat (mulle_range_get_max s - 1) = hi s - 1"
    by (simp add: unat64_sub range_simps)
  with assms show ?thesis
    by (auto simp: mulle_range_contains_def contains_location_iff range_simps length_eq_0_iff)
qed

definition overlap :: "mulle_range \<Rightarrow> mulle_range \<Rightarrow> bool" where
  "overlap a b \<longleftrightarrow> max (lo a) (lo b) < min (hi a) (hi b)"

lemma overlap_iff_rset: "overlap a b \<longleftrightarrow> rset a \<inter> rset b \<noteq> {}"
  by (auto simp: overlap_def rset_def)

lemma intersects_iff:
  assumes "mulle_range_is_valid a" "mulle_range_is_valid b"
  shows "mulle_range_intersects a b \<longleftrightarrow> overlap a b"
  using assms by (auto simp: mulle_range_intersects_def overlap_def word_unat Let_def)

lemma intersection_bounds:
  assumes "mulle_range_is_valid a" "mulle_range_is_valid b" "max (lo a) (lo b) \<le> min (hi a) (hi b)"
  shows "lo (mulle_range_intersection a b) = max (lo a) (lo b)"
    and "hi (mulle_range_intersection a b) = min (hi a) (hi b)"
  using assms lo_le_hi [of a] lo_le_hi [of b]
  by (auto simp: mulle_range_intersection_def word_unat Let_def unat64_sub)

lemma intersection_empty:
  assumes "mulle_range_is_valid a" "mulle_range_is_valid b" "\<not> max (lo a) (lo b) \<le> min (hi a) (hi b)"
  shows "mulle_range_intersection a b = mulle_range_zero"
  using assms lo_le_hi [of a] lo_le_hi [of b]
  by (auto simp: mulle_range_intersection_def mulle_range_zero_def word_unat Let_def)

lemma intersection_valid:
  assumes "mulle_range_is_valid a" "mulle_range_is_valid b"
  shows "mulle_range_is_valid (mulle_range_intersection a b)"
  using assms intersection_bounds [OF assms] intersection_empty [OF assms]
  by (cases "max (lo a) (lo b) \<le> min (hi a) (hi b)") (auto simp: range_simps)

lemma rset_intersection:
  assumes "mulle_range_is_valid a" "mulle_range_is_valid b"
  shows "rset (mulle_range_intersection a b) = rset a \<inter> rset b"
  using intersection_bounds [OF assms] intersection_empty [OF assms]
  by (cases "max (lo a) (lo b) \<le> min (hi a) (hi b)") auto

lemma intersect_length_iff:
  assumes "mulle_range_is_valid a" "mulle_range_is_valid b"
  shows "range_length (mulle_range_intersect a b) = 0 \<longleftrightarrow> \<not> overlap a b"
proof (cases "max (lo a) (lo b) \<le> min (hi a) (hi b)")
  case True
  show ?thesis
    unfolding mulle_range_intersect_def length_eq_0_iff intersection_bounds [OF assms True] overlap_def
    using True by linarith
next
  case False
  then have "\<not> overlap a b" unfolding overlap_def by linarith
  then show ?thesis
    by (simp add: mulle_range_intersect_def intersection_empty [OF assms False] length_eq_0_iff)
qed

lemma union_bounds:
  assumes "mulle_range_is_valid a" "mulle_range_is_valid b" "nonempty a" "nonempty b"
  shows "lo (mulle_range_union a b) = min (lo a) (lo b)"
    and "hi (mulle_range_union a b) = max (hi a) (hi b)"
  using assms by (auto simp: mulle_range_union_def word_unat Let_def unat64_sub nonempty_iff)

lemma unat_get_last [simp]:
  assumes "mulle_range_is_valid r" "nonempty r"
  shows "unat (mulle_range_get_last_location r) = hi r - 1"
proof -
  have "unat (location r + range_length r - 1) = hi r - 1"
    using assms unat_get_max(1) [OF assms(1)]
    by (simp add: mulle_range_get_max_def unat64_sub nonempty_iff)
  with assms(2) show ?thesis by (simp add: mulle_range_get_last_location_def nonempty_def)
qed

lemma distance_to_location:
  assumes "mulle_range_is_valid r" "nonempty r"
  shows "unat (mulle_range_distance_to_location r x) =
    (if unat x < lo r then lo r - unat x else if unat x < hi r then 0 else unat x - (hi r - 1))"
  using assms by (auto simp: mulle_range_distance_to_location_def word_unat unat64_sub nonempty_iff)

section \<open>Sorted arrays of ranges\<close>

text \<open>
  What a range set keeps of its array: valid, non-empty ranges in ascending order that do not
  overlap. Neighbours may touch.
\<close>

definition ranges_wf :: "mulle_range list \<Rightarrow> bool" where
  "ranges_wf rs \<longleftrightarrow> sorted_wrt (\<lambda>a b. hi a \<le> lo b) rs \<and>
     (\<forall>r \<in> set rs. mulle_range_is_valid r \<and> nonempty r)"

lemma ranges_wf_Nil [simp]: "ranges_wf []"
  by (simp add: ranges_wf_def)

lemma ranges_wf_nth:
  assumes "ranges_wf rs" "i < length rs"
  shows "mulle_range_is_valid (rs ! i)" "nonempty (rs ! i)" "lo (rs ! i) < hi (rs ! i)"
  using assms by (auto simp: ranges_wf_def range_simps)

lemma ranges_wf_order:
  "ranges_wf rs \<Longrightarrow> i < j \<Longrightarrow> j < length rs \<Longrightarrow> hi (rs ! i) \<le> lo (rs ! j)"
  by (auto simp: ranges_wf_def dest: sorted_wrt_nth_less)

lemma ranges_wf_lo_mono:
  "ranges_wf rs \<Longrightarrow> i < j \<Longrightarrow> j < length rs \<Longrightarrow> lo (rs ! i) < lo (rs ! j)"
  using ranges_wf_order [of rs i j] ranges_wf_nth(3) [of rs i] by simp

text \<open>
  The two looking-up loops are instances of one search: \<open>below p\<close> sends it to the right of \<open>p\<close>
  unless \<open>p\<close> is a hit. Its window always holds every index that could still be a hit.
\<close>

function window_search :: "(nat \<Rightarrow> bool) \<Rightarrow> (nat \<Rightarrow> bool) \<Rightarrow> int \<Rightarrow> int \<Rightarrow> nat option" where
  "window_search below hit i k =
     (if i \<le> k then
        (let m = (i + k) div 2; p = nat m
         in if below p then (if hit p then Some p else window_search below hit (m + 1) k)
            else window_search below hit i (m - 1))
      else None)"
  by pat_completeness auto
termination
  by (relation "measure (\<lambda>(below, hit, i, k). nat (k - i + 1))") auto

declare window_search.simps [simp del]

lemma intersects_loop_window:
  "intersects_bsearch_loop buf s i k =
     window_search (\<lambda>p. location (buf ! p) < mulle_range_get_max s)
       (\<lambda>p. range_length (mulle_range_intersect (buf ! p) s) \<noteq> 0) i k"
proof (induction buf s i k rule: intersects_bsearch_loop.induct)
  case (1 buf s i k)
  show ?case
    by (subst intersects_bsearch_loop.simps, subst window_search.simps) (simp add: Let_def "1.IH")
qed

lemma contains_loop_window:
  "contains_bsearch_loop buf s i k =
     window_search (\<lambda>p. location (buf ! p) \<le> location s) (\<lambda>p. mulle_range_contains (buf ! p) s) i k"
proof (induction buf s i k rule: contains_bsearch_loop.induct)
  case (1 buf s i k)
  show ?case
    by (subst contains_bsearch_loop.simps, subst window_search.simps) (simp add: Let_def "1.IH")
qed

lemma window_search_correct:
  assumes right: "\<And>p j. p < n \<Longrightarrow> below p \<Longrightarrow> \<not> hit p \<Longrightarrow> j \<le> p \<Longrightarrow> \<not> hit j"
    and left: "\<And>p j. p < n \<Longrightarrow> \<not> below p \<Longrightarrow> p \<le> j \<Longrightarrow> j < n \<Longrightarrow> \<not> hit j"
    and "0 \<le> i" "k < int n" "\<forall>j<n. hit j \<longrightarrow> i \<le> int j \<and> int j \<le> k"
  shows "case window_search below hit i k of
      None \<Rightarrow> \<forall>j<n. \<not> hit j
    | Some p \<Rightarrow> p < n \<and> hit p"
  using assms(3-)
proof (induction "nat (k - i + 1)" arbitrary: i k rule: less_induct)
  case less
  show ?case
  proof (cases "i \<le> k")
    case False
    with less.prems(3) show ?thesis by (subst window_search.simps) force
  next
    case True
    define m where "m = (i + k) div 2"
    define p where "p = nat m"
    from True less.prems(1,2) have m: "i \<le> m" "m \<le> k" "p < n" "m = int p"
      by (auto simp: m_def p_def)
    have unfold: "window_search below hit i k =
        (if below p then (if hit p then Some p else window_search below hit (m + 1) k)
         else window_search below hit i (m - 1))"
      using True by (subst window_search.simps) (simp add: Let_def m_def p_def)
    consider (hit) "below p" "hit p" | (right) "below p" "\<not> hit p" | (left) "\<not> below p" by blast
    then show ?thesis
    proof cases
      case hit
      with m show ?thesis by (simp add: unfold)
    next
      case right
      have "\<forall>j<n. hit j \<longrightarrow> m + 1 \<le> int j \<and> int j \<le> k"
        using assms(1) [OF m(3) right] less.prems(3) m(4) by (metis not_le of_nat_less_iff zless_imp_add1_zle)
      with less.hyps [of k "m + 1"] less.prems m right show ?thesis by (simp add: unfold)
    next
      case left
      have "\<forall>j<n. hit j \<longrightarrow> i \<le> int j \<and> int j \<le> m - 1"
        using assms(2) [OF m(3) left] less.prems(3) m(4) by (metis not_le of_nat_less_iff zle_diff1_eq)
      with less.hyps [of "m - 1" i] less.prems m left show ?thesis by (simp add: unfold)
    qed
  qed
qed

lemma intersects_bsearch_correct:
  assumes wf: "ranges_wf buf" and s: "mulle_range_is_valid s" "nonempty s"
  shows "case mulle_range_intersects_bsearch buf s of
      None \<Rightarrow> \<forall>j<length buf. \<not> overlap (buf ! j) s
    | Some p \<Rightarrow> p < length buf \<and> overlap (buf ! p) s"
proof -
  let ?below = "\<lambda>p. location (buf ! p) < mulle_range_get_max s"
    and ?hit = "\<lambda>p. range_length (mulle_range_intersect (buf ! p) s) \<noteq> 0"
  have hit: "?hit p \<longleftrightarrow> overlap (buf ! p) s" if "p < length buf" for p
    using ranges_wf_nth(1) [OF wf that] s by (simp add: intersect_length_iff)
  have "case window_search ?below ?hit 0 (int (length buf) - 1) of
      None \<Rightarrow> \<forall>j<length buf. \<not> ?hit j | Some p \<Rightarrow> p < length buf \<and> ?hit p"
  proof (rule window_search_correct)
    fix p j assume *: "p < length buf" "?below p" "\<not> ?hit p" "j \<le> p"
    then have "hi (buf ! p) \<le> lo s"
      using hit [OF *(1)] ranges_wf_nth(3) [OF wf *(1)] s
      by (simp add: overlap_def word_order_unat nonempty_iff)
    moreover have "hi (buf ! j) \<le> hi (buf ! p)"
      using * ranges_wf_order [OF wf _ *(1), of j] ranges_wf_nth(3) [OF wf *(1)]
      by (cases "j = p") auto
    ultimately show "\<not> ?hit j" using hit * by (simp add: overlap_def)
  next
    fix p j assume *: "p < length buf" "\<not> ?below p" "p \<le> j" "j < length buf"
    then have "hi s \<le> lo (buf ! p)" using s by (auto simp: word_unat)
    moreover have "lo (buf ! p) \<le> lo (buf ! j)"
      using * ranges_wf_lo_mono [OF wf _ *(4), of p] by (cases "j = p") auto
    ultimately show "\<not> ?hit j" using hit [of j] *(4) by (simp add: overlap_def)
  qed auto
  then show ?thesis
    using s hit by (auto simp: mulle_range_intersects_bsearch_def intersects_loop_window
        nonempty_def split: option.splits)
qed

lemma contains_bsearch_correct:
  assumes wf: "ranges_wf buf" and s: "mulle_range_is_valid s" "nonempty s"
  shows "case mulle_range_contains_bsearch buf s of
      None \<Rightarrow> \<forall>j<length buf. \<not> rset s \<subseteq> rset (buf ! j)
    | Some p \<Rightarrow> p < length buf \<and> rset s \<subseteq> rset (buf ! p)"
proof -
  let ?below = "\<lambda>p. location (buf ! p) \<le> location s"
    and ?hit = "\<lambda>p. mulle_range_contains (buf ! p) s"
  have hit: "?hit p \<longleftrightarrow> lo (buf ! p) \<le> lo s \<and> hi s \<le> hi (buf ! p)" if "p < length buf" for p
    using ranges_wf_nth(1) [OF wf that] s by (simp add: contains_iff)
  have sub: "rset s \<subseteq> rset (buf ! p) \<longleftrightarrow> lo (buf ! p) \<le> lo s \<and> hi s \<le> hi (buf ! p)" for p
    using s(2) by (auto simp: rset_def nonempty_iff)
  have "case window_search ?below ?hit 0 (int (length buf) - 1) of
      None \<Rightarrow> \<forall>j<length buf. \<not> ?hit j | Some p \<Rightarrow> p < length buf \<and> ?hit p"
  proof (rule window_search_correct)
    fix p j assume *: "p < length buf" "?below p" "\<not> ?hit p" "j \<le> p"
    then have "hi (buf ! p) < hi s" using hit by (auto simp: word_unat)
    moreover have "hi (buf ! j) \<le> hi (buf ! p)"
      using * ranges_wf_order [OF wf _ *(1), of j] ranges_wf_nth(3) [OF wf *(1)]
      by (cases "j = p") auto
    ultimately show "\<not> ?hit j" using hit * by simp
  next
    fix p j assume *: "p < length buf" "\<not> ?below p" "p \<le> j" "j < length buf"
    then have "lo s < lo (buf ! p)" by (auto simp: word_unat)
    moreover have "lo (buf ! p) \<le> lo (buf ! j)"
      using * ranges_wf_lo_mono [OF wf _ *(4), of p] by (cases "j = p") auto
    ultimately show "\<not> ?hit j" using hit [of j] *(4) by simp
  qed auto
  then show ?thesis
    using s hit sub by (auto simp: mulle_range_contains_bsearch_def contains_loop_window
        split: option.splits)
qed

lemma hole_bsearch_loop_correct:
  assumes "ranges_wf buf" "0 \<le> i" "k < int (length buf)" "i \<le> k + 1"
    and "\<forall>j<length buf. int j < i \<longrightarrow> lo (buf ! j) < unat s"
    and "\<forall>j<length buf. k < int j \<longrightarrow> unat s \<le> lo (buf ! j)"
  shows "hole_bsearch_loop buf s i k \<le> length buf \<and>
    (\<forall>j<length buf. lo (buf ! j) < unat s \<longleftrightarrow> j < hole_bsearch_loop buf s i k)"
  using assms
proof (induction buf s i k rule: hole_bsearch_loop.induct)
  case (1 buf s i k)
  note wf = \<open>ranges_wf buf\<close>
  show ?case
  proof (cases "i \<le> k")
    case False
    with "1.prems" have "hole_bsearch_loop buf s i k = nat (k + 1)" "i = k + 1"
      by (auto simp: hole_bsearch_loop.simps [of buf s i k])
    with "1.prems" show ?thesis by (auto simp: not_less nat_le_iff le_nat_iff)
  next
    case True
    define m where "m = (i + k) div 2"
    define p where "p = nat m"
    from True "1.prems"(2,3) have m: "i \<le> m" "m \<le> k" "p < length buf" "m = int p"
      by (auto simp: m_def p_def)
    have unfold: "hole_bsearch_loop buf s i k =
        (if location (buf ! p) < s then
           (if m = k \<or> location (buf ! (p + 1)) > s then p + 1 else hole_bsearch_loop buf s (m + 1) k)
         else hole_bsearch_loop buf s i (m - 1))"
      using True by (subst hole_bsearch_loop.simps) (simp add: Let_def m_def p_def)
    have below: "lo (buf ! j) < unat s" if "lo (buf ! p) < unat s" "j \<le> p" for j
      using that ranges_wf_lo_mono [OF wf _ m(3), of j] by (cases "j = p") auto
    have above: "unat s \<le> lo (buf ! j)" if "unat s \<le> lo (buf ! q)" "q \<le> j" "j < length buf" for j q
      using that ranges_wf_lo_mono [OF wf _ that(3), of q] by (cases "j = q") auto
    consider (stop) "lo (buf ! p) < unat s" "m = k \<or> unat s < lo (buf ! (p + 1))"
      | (right) "lo (buf ! p) < unat s" "m \<noteq> k" "\<not> unat s < lo (buf ! (p + 1))"
      | (left) "\<not> lo (buf ! p) < unat s" by blast
    then show ?thesis
    proof cases
      case stop
      have "lo (buf ! j) < unat s \<longleftrightarrow> j < p + 1" if "j < length buf" for j
        using stop below [of j] above [of "p + 1" j] that "1.prems"(6) m(4)
        by (cases "j \<le> p") (auto simp: not_less)
      with stop m(3) show ?thesis by (simp add: unfold word_unat)
    next
      case right
      have "\<forall>j<length buf. int j < m + 1 \<longrightarrow> lo (buf ! j) < unat s"
        using below [OF right(1)] m(4) by auto
      then show ?thesis
        using "1.IH"(1) [OF True m_def p_def _ _ wf _ "1.prems"(3) _ _ "1.prems"(6)] right m "1.prems"(2)
        by (simp add: unfold word_order_unat)
    next
      case left
      then have "\<forall>j<length buf. m - 1 < int j \<longrightarrow> unat s \<le> lo (buf ! j)"
        using above [of p] m(4) by auto
      then show ?thesis
        using "1.IH"(2) [OF True m_def p_def _ wf "1.prems"(2) _ _ "1.prems"(5)] left m "1.prems"(3)
        by (simp add: unfold word_order_unat)
    qed
  qed
qed

lemma hole_bsearch_correct:
  assumes "ranges_wf buf"
  shows "u_mulle_range_hole_bsearch buf s \<le> length buf \<and>
    (\<forall>j<length buf. lo (buf ! j) < unat s \<longleftrightarrow> j < u_mulle_range_hole_bsearch buf s)"
  using hole_bsearch_loop_correct [OF assms, of 0 "int (length buf) - 1" s]
  by (simp add: u_mulle_range_hole_bsearch_def)

section \<open>The interface of a range search\<close>

text \<open>
  What the range set relies on when it looks a range up in its array: a hit is an index of an
  element that satisfies the search's criterion, a miss means there is none.
\<close>

locale range_search =
  fixes search :: "mulle_range list \<Rightarrow> mulle_range \<Rightarrow> nat option"
    and hit :: "mulle_range \<Rightarrow> mulle_range \<Rightarrow> bool"
  assumes search_hit:
      "ranges_wf rs \<Longrightarrow> mulle_range_is_valid r \<Longrightarrow> nonempty r \<Longrightarrow> search rs r = Some i \<Longrightarrow>
       i < length rs \<and> hit (rs ! i) r"
    and search_miss:
      "ranges_wf rs \<Longrightarrow> mulle_range_is_valid r \<Longrightarrow> nonempty r \<Longrightarrow> search rs r = None \<Longrightarrow>
       x \<in> set rs \<Longrightarrow> \<not> hit x r"
begin

lemma found_iff:
  assumes "ranges_wf rs" "mulle_range_is_valid r" "nonempty r"
  shows "search rs r \<noteq> None \<longleftrightarrow> (\<exists>x \<in> set rs. hit x r)"
  using search_hit [OF assms] search_miss [OF assms] by (cases "search rs r") force+

lemma found_split:
  assumes "ranges_wf rs" "mulle_range_is_valid r" "nonempty r" "search rs r = Some i"
  obtains as x bs where "rs = as @ x # bs" "length as = i" "hit x r"
  using search_hit [OF assms] split_at_index [of i rs] by metis

end

interpretation ib: range_search mulle_range_intersects_bsearch overlap
  by unfold_locales (use intersects_bsearch_correct in \<open>force simp: in_set_conv_nth\<close>)+

interpretation cb: range_search mulle_range_contains_bsearch "\<lambda>x r. rset r \<subseteq> rset x"
  by unfold_locales (use contains_bsearch_correct in \<open>force simp: in_set_conv_nth\<close>)+

section \<open>Properties\<close>

text \<open>
  The sentinel \<open>mulle_not_found_e\<close> is out of band: the first and the last location of a valid,
  non-empty range are members of the range and below the sentinel, and only an empty range answers
  with it.
\<close>

theorem mulle_range_sentinel_out_of_band:
  assumes "mulle_range_is_valid r"
  shows "if range_length r = 0
    then mulle_range_get_first_location r = mulle_not_found_e \<and>
         mulle_range_get_last_location r = mulle_not_found_e
    else unat (mulle_range_get_first_location r) = Min (rset r) \<and>
         unat (mulle_range_get_last_location r) = Max (rset r) \<and>
         mulle_range_get_last_location r < mulle_not_found_e"
proof (cases "range_length r = 0")
  case True
  then show ?thesis
    by (simp add: mulle_range_get_first_location_def mulle_range_get_last_location_def)
next
  case False
  then have ne: "nonempty r" by (simp add: nonempty_def)
  then have "Min (rset r) = lo r" "Max (rset r) = hi r - 1"
    by (auto simp: rset_def nonempty_iff intro!: Min_eqI Max_eqI)
  with False ne assms unat_get_last [OF assms ne] show ?thesis
    by (auto simp: mulle_range_get_first_location_def word_less_nat_alt range_simps)
qed

theorem mulle_range_sentinel_out_of_band_witness:
  "mulle_range_is_valid (mulle_range_make 3 4) \<and>
   unat (mulle_range_get_last_location (mulle_range_make 3 4)) = Max (rset (mulle_range_make 3 4))"
proof -
  have v: "mulle_range_is_valid (mulle_range_make 3 4)" by (simp add: valid_iff)
  have "range_length (mulle_range_make 3 4) \<noteq> 0" by (simp add: mulle_range_make_def)
  with v mulle_range_sentinel_out_of_band [OF v] show ?thesis by simp
qed

text \<open>
  On valid ranges \<open>mulle_range_intersection\<close> computes the intersection of the two sets of
  locations, the result is valid again, and \<open>mulle_range_intersects\<close> tells whether it is inhabited.
\<close>

theorem mulle_range_intersection_spec:
  assumes "mulle_range_is_valid a" "mulle_range_is_valid b"
  shows "mulle_range_is_valid (mulle_range_intersection a b) \<and>
    rset (mulle_range_intersection a b) = rset a \<inter> rset b \<and>
    (mulle_range_intersects a b \<longleftrightarrow> rset a \<inter> rset b \<noteq> {})"
  using intersection_valid [OF assms] rset_intersection [OF assms] intersects_iff [OF assms]
  by (simp add: overlap_iff_rset)

theorem mulle_range_intersection_spec_witness:
  "rset (mulle_range_intersection (mulle_range_make 0 10) (mulle_range_make 4 20)) = {4..<10}"
proof -
  have "mulle_range_is_valid (mulle_range_make 0 10)" "mulle_range_is_valid (mulle_range_make 4 20)"
    by (simp_all add: valid_iff)
  from mulle_range_intersection_spec [OF this] show ?thesis by (auto simp: rset_def)
qed

text \<open>
  \<open>mulle_range_subtract\<close> splits \<open>a\<close> without \<open>b\<close> into a prefix and a suffix: together they hold
  exactly the remaining locations, both are valid, the first starts where \<open>a\<close> starts and lies below
  the second.
\<close>

theorem mulle_range_subtract_spec:
  assumes "mulle_range_is_valid a" "mulle_range_is_valid b"
  shows "case mulle_range_subtract a b of (r, s) \<Rightarrow>
    rset r \<union> rset s = rset a - rset b \<and> rset r \<inter> rset s = {} \<and>
    mulle_range_is_valid r \<and> mulle_range_is_valid s \<and>
    (nonempty r \<longrightarrow> location r = location a) \<and>
    (nonempty r \<longrightarrow> nonempty s \<longrightarrow> hi r \<le> lo s)"
proof (cases "overlap a b")
  case False
  then show ?thesis using assms
    by (auto simp: mulle_range_subtract_def intersect_length_iff overlap_iff_rset range_simps)
next
  case True
  then have o: "lo a < hi b" "lo b < hi a" "lo a < hi a" "lo b < hi b"
    by (auto simp: overlap_def)
  let ?prefix = "mulle_range_make (location a) (location b - location a)"
    and ?suffix = "mulle_range_make (mulle_range_get_max b) (mulle_range_get_max a - mulle_range_get_max b)"
  have prefix: "lo ?prefix = lo a" "hi ?prefix = lo b" if "lo a < lo b"
    using that by (simp_all add: unat64_sub)
  have suffix: "lo ?suffix = hi b" "hi ?suffix = hi a" if "hi b < hi a"
    using that assms by (simp_all add: unat64_sub)
  have loc: "location ?prefix = location a" by (simp add: mulle_range_make_def)
  have eq: "mulle_range_subtract a b =
    (if lo b \<le> lo a \<and> hi a \<le> hi b then (mulle_range_zero, mulle_range_zero)
     else if lo a < lo b \<and> hi b < hi a then (?prefix, ?suffix)
     else if hi b < hi a then (mulle_range_zero, ?suffix) else (?prefix, mulle_range_zero))"
    using assms True by (simp add: mulle_range_subtract_def intersect_length_iff word_order_unat Let_def)
  consider "lo b \<le> lo a" "hi a \<le> hi b" | "lo a < lo b" "hi b < hi a"
    | "lo b \<le> lo a" "hi b < hi a" | "lo a < lo b" "hi a \<le> hi b"
    by linarith
  then show ?thesis
    by cases (use assms o prefix suffix loc eq in \<open>auto simp: range_simps\<close>)
qed

theorem mulle_range_subtract_spec_witness:
  "\<exists>r s. mulle_range_subtract (mulle_range_make 10 10) (mulle_range_make 12 3) = (r, s) \<and>
     rset r \<union> rset s = {10, 11} \<union> {15..<20}"
proof -
  let ?a = "mulle_range_make 10 10" and ?b = "mulle_range_make 12 3"
  have "mulle_range_is_valid ?a" "mulle_range_is_valid ?b"
    by (simp_all add: valid_iff)
  note spec = mulle_range_subtract_spec [OF this]
  obtain r s where rs: "mulle_range_subtract ?a ?b = (r, s)" by fastforce
  with spec have "rset r \<union> rset s = rset ?a - rset ?b" by simp
  also have "\<dots> = {10, 11} \<union> {15..<20}" unfolding rset_def by (simp, force)
  finally show ?thesis using rs by blast
qed

text \<open>
  \<open>mulle_range_insert\<close> on valid ranges: it refuses exactly when \<open>b\<close> is empty or neither meets nor
  touches \<open>a\<close>; where \<open>b\<close> starts inside \<open>a\<close> it returns the part of \<open>a\<close> below \<open>b\<close> in place and the
  part from \<open>b\<close> on moved up by the length of \<open>b\<close>; where \<open>b\<close> starts below \<open>a\<close>, all of \<open>a\<close> moved to the
  end of \<open>b\<close>.
\<close>

theorem mulle_range_insert_spec:
  assumes "mulle_range_is_valid a" "mulle_range_is_valid b"
  shows "case mulle_range_insert a b of
      None \<Rightarrow> range_length b = 0 \<or> hi a < lo b \<or> hi b < lo a
    | Some (r, s) \<Rightarrow>
        if lo a \<le> lo b
        then rset r = {x \<in> rset a. x < lo b} \<and>
             rset s = (\<lambda>x. x + unat (range_length b)) ` {x \<in> rset a. lo b \<le> x}
        else rset r = {} \<and> rset s = (\<lambda>x. x + (hi b - lo a)) ` rset a"
proof -
  have img: "(\<lambda>x. x + h - l) ` {i..<j} = {i + h - l..<j + h - l}" if "l \<le> h" for h l i j :: nat
  proof -
    have "(\<lambda>x. x + h - l) = (\<lambda>x. x + (h - l))" using that by auto
    then have "(\<lambda>x. x + h - l) ` {i..<j} = {i + (h - l)..<j + (h - l)}"
      by (simp only: image_add_atLeastLessThan')
    then show ?thesis using that by simp
  qed
  consider (none) "range_length b = 0 \<or> hi a < lo b \<or> hi b < lo a"
    | (inside) "nonempty b" "lo a \<le> lo b" "lo b \<le> hi a"
    | (before) "nonempty b" "lo b < lo a" "lo a \<le> hi b"
    unfolding nonempty_def by linarith
  then show ?thesis
  proof cases
    case none
    then show ?thesis using assms
      by (auto simp: mulle_range_insert_def word_order_unat Let_def)
  next
    case inside
    then have "mulle_range_insert a b =
        Some (mulle_range_make (location a) (location b - location a),
              mulle_range_make (u_mulle_range_get_max b) (u_mulle_range_get_max a - location b))"
      using assms lo_le_hi [of a] lo_le_hi [of b]
      by (auto simp: mulle_range_insert_def word_order_unat Let_def nonempty_def)
    moreover have "{x \<in> rset a. x < lo b} = {lo a..<lo b}" "{x \<in> rset a. lo b \<le> x} = {lo b..<hi a}"
      using inside by auto
    ultimately show ?thesis
      using inside assms lo_le_hi [of b]
      by (simp add: rset_def [of "mulle_range_make _ _"] img unat64_sub add.commute del: in_rset)
  next
    case before
    then have "mulle_range_insert a b =
        Some (mulle_range_zero, mulle_range_make (u_mulle_range_get_max b) (range_length a))"
      using assms lo_le_hi [of a] lo_le_hi [of b]
      by (auto simp: mulle_range_insert_def word_order_unat Let_def nonempty_def)
    with before assms lo_le_hi [of a] show ?thesis by (simp add: rset_def img add.commute)
  qed
qed

theorem mulle_range_insert_spec_witness:
  "\<exists>r s. mulle_range_insert (mulle_range_make 0 9) (mulle_range_make 2 3) = Some (r, s) \<and>
     rset r = {x \<in> rset (mulle_range_make 0 9). x < 2}"
proof -
  let ?a = "mulle_range_make 0 9" and ?b = "mulle_range_make 2 3"
  have "mulle_range_is_valid ?a" "mulle_range_is_valid ?b" by (simp_all add: valid_iff)
  note spec = mulle_range_insert_spec [OF this]
  have "range_length ?b \<noteq> 0" by (simp add: mulle_range_make_def)
  with spec show ?thesis by (cases "mulle_range_insert ?a ?b") auto
qed

text \<open>
  C38. On a sorted array of disjoint ranges the three binary searches agree with a linear scan:
  the intersection search hits an element that meets the searched range or none does, the
  containment search hits an element that includes it or none does, and the hole search returns the
  number of elements that start below the location.
\<close>

theorem mulle_range_bsearch_spec:
  assumes "ranges_wf buf" "mulle_range_is_valid r" "range_length r \<noteq> 0"
  shows "(case mulle_range_intersects_bsearch buf r of
            None \<Rightarrow> \<forall>x \<in> set buf. rset x \<inter> rset r = {}
          | Some p \<Rightarrow> p < length buf \<and> rset (buf ! p) \<inter> rset r \<noteq> {}) \<and>
         (case mulle_range_contains_bsearch buf r of
            None \<Rightarrow> \<forall>x \<in> set buf. \<not> rset r \<subseteq> rset x
          | Some p \<Rightarrow> p < length buf \<and> rset r \<subseteq> rset (buf ! p)) \<and>
         u_mulle_range_hole_bsearch buf loc = length (filter (\<lambda>x. location x < loc) buf)"
proof -
  have ne: "nonempty r" using assms(3) by (simp add: nonempty_def)
  let ?h = "u_mulle_range_hole_bsearch buf loc"
  note hole = hole_bsearch_correct [OF assms(1), of loc]
  have "filter (\<lambda>x. location x < loc) (take ?h buf) = take ?h buf"
    using hole by (auto simp: filter_id_conv in_set_conv_nth word_less_nat_alt)
  moreover have "filter (\<lambda>x. location x < loc) (drop ?h buf) = []"
    using hole by (auto simp: filter_empty_conv in_set_conv_nth word_less_nat_alt)
  ultimately have "filter (\<lambda>x. location x < loc) (take ?h buf @ drop ?h buf) = take ?h buf"
    by (simp only: filter_append append_Nil2)
  then have "?h = length (filter (\<lambda>x. location x < loc) buf)" using hole by simp
  moreover note ib.search_hit [OF assms(1,2) ne] ib.search_miss [OF assms(1,2) ne]
    cb.search_hit [OF assms(1,2) ne] cb.search_miss [OF assms(1,2) ne]
  ultimately show ?thesis
    by (auto simp: overlap_iff_rset split: option.splits)
qed

theorem mulle_range_bsearch_spec_witness:
  "\<exists>p. mulle_range_intersects_bsearch [mulle_range_make 0 5, mulle_range_make 10 5] (mulle_range_make 12 9) = Some p
     \<and> p < 2"
proof -
  let ?buf = "[mulle_range_make 0 5, mulle_range_make 10 5]" and ?r = "mulle_range_make 12 9"
  have wf: "ranges_wf ?buf" by (simp add: ranges_wf_def range_simps)
  have v: "mulle_range_is_valid ?r" "range_length ?r \<noteq> 0"
    by (simp_all add: valid_iff, simp add: mulle_range_make_def)
  have "12 \<in> rset (mulle_range_make 10 5) \<inter> rset ?r" by simp
  then have "rset (mulle_range_make 10 5) \<inter> rset ?r \<noteq> {}" by blast
  with mulle_range_bsearch_spec [OF wf v, of 0] show ?thesis
    by (cases "mulle_range_intersects_bsearch ?buf ?r") (simp_all del: in_rset)
qed

end
