(* ===== verification/Rangeset.thy ===== *)
theory Rangeset
  imports Container_Math Range
begin

text \<open>
  Model of \<open>mulle--rangeset.c\<close> and of the inline functions of \<open>mulle--rangeset.h\<close>: a set of
  locations kept as a sorted array of disjoint ranges. \<open>rs_ranges\<close> is the used part of the array
  \<open>_ranges\<close>, so that \<open>_length\<close> is its length, \<open>rs_size\<close> is the capacity \<open>_size\<close>, and \<open>rs_static\<close>
  says that \<open>_ranges\<close> still is the \<open>_initial_storage\<close> of the caller. Pointers into the array are
  indices. An operation that can allocate returns \<open>None\<close> where the allocator's checked size
  arithmetic aborts (a request for memory that fails does not return either).
\<close>

section \<open>The range set and its capacity\<close>

record mulle__rangeset =
  rs_ranges :: "mulle_range list"
  rs_static :: bool
  rs_size :: size_t

definition sizeof_mulle_range :: size_t where
  "sizeof_mulle_range = 16"

definition u_mulle__rangeset_init :: "size_t \<Rightarrow> mulle__rangeset option" where
  "u_mulle__rangeset_init capacity =
     (if capacity > 0 then
        (case mulle_allocator_size_multiply capacity sizeof_mulle_range of
           None \<Rightarrow> None
         | Some _ \<Rightarrow> Some \<lparr>rs_ranges = [], rs_static = False, rs_size = capacity\<rparr>)
      else Some \<lparr>rs_ranges = [], rs_static = False, rs_size = 0\<rparr>)"

definition u_mulle__rangeset_init_with_static_ranges :: "size_t \<Rightarrow> mulle__rangeset" where
  "u_mulle__rangeset_init_with_static_ranges capacity =
     \<lparr>rs_ranges = [], rs_static = True, rs_size = capacity\<rparr>"

definition u_mulle__rangeset_get_first :: "mulle__rangeset \<Rightarrow> uintptr_t" where
  "u_mulle__rangeset_get_first p =
     (if rs_ranges p \<noteq> [] then location (rs_ranges p ! 0) else mulle_not_found_e)"

definition u_mulle__rangeset_get :: "mulle__rangeset \<Rightarrow> nat \<Rightarrow> mulle_range" where
  "u_mulle__rangeset_get p i =
     (if i < length (rs_ranges p) then rs_ranges p ! i else mulle_range_make_invalid)"

definition u_mulle__rangeset_get_last :: "mulle__rangeset \<Rightarrow> uintptr_t" where
  "u_mulle__rangeset_get_last p =
     (if rs_ranges p \<noteq> []
      then mulle_range_get_max (rs_ranges p ! (length (rs_ranges p) - 1)) - 1
      else mulle_not_found_e)"

definition u_mulle__rangeset_get_rangecount :: "mulle__rangeset \<Rightarrow> nat" where
  "u_mulle__rangeset_get_rangecount p = length (rs_ranges p)"

definition u_mulle__rangeset_get_range :: "mulle__rangeset \<Rightarrow> nat \<Rightarrow> mulle_range" where
  "u_mulle__rangeset_get_range p i =
     (if i \<ge> length (rs_ranges p) then mulle_range_make mulle_not_found_e 0 else rs_ranges p ! i)"

definition u_mulle__rangeset_sum_lengths :: "mulle__rangeset \<Rightarrow> uintptr_t" where
  "u_mulle__rangeset_sum_lengths p = fold (\<lambda>cur len. len + range_length cur) (rs_ranges p) 0"

definition u_mulle__rangeset_shrink_to_fit :: "mulle__rangeset \<Rightarrow> mulle__rangeset" where
  "u_mulle__rangeset_shrink_to_fit p =
     (if of_nat (length (rs_ranges p)) < rs_size p \<and> \<not> rs_static p
      then p\<lparr>rs_size := of_nat (length (rs_ranges p))\<rparr> else p)"

definition u_mulle__rangeset_grow :: "mulle__rangeset \<Rightarrow> mulle__rangeset option" where
  "u_mulle__rangeset_grow p =
     (let new_size = rs_size p * 2;
          new_size = mulle_pow2round new_size;
          new_size = (if new_size = 0 then 2 else new_size)
      in case mulle_allocator_size_multiply new_size sizeof_mulle_range of
           None \<Rightarrow> None
         | Some _ \<Rightarrow> Some (p\<lparr>rs_static := False, rs_size := new_size\<rparr>))"

partial_function (option) u_mulle__rangeset_reserve ::
    "mulle__rangeset \<Rightarrow> uintptr_t \<Rightarrow> mulle__rangeset option" where
  "u_mulle__rangeset_reserve p additional =
     (if of_nat (length (rs_ranges p)) + additional \<le> rs_size p then Some p
      else Option.bind (u_mulle__rangeset_grow p) (\<lambda>p. u_mulle__rangeset_reserve p additional))"

declare u_mulle__rangeset_reserve.simps [code]

text \<open>The \<open>do\<close> loop of the shrinking: halve while more than the minimum and enough remains.\<close>

function rangeset_shrink_loop :: "nat \<Rightarrow> size_t \<Rightarrow> size_t" where
  "rangeset_shrink_loop len new_size =
     (let size = new_size div 2
      in if size > 2 \<and> size \<ge> of_nat len then rangeset_shrink_loop len size else new_size)"
  by pat_completeness auto
termination
proof (relation "measure (\<lambda>(len, s). unat s)")
  fix len new_size size
  assume "size = new_size div 2" "2 < size \<and> of_nat len \<le> (size :: size_t)"
  then have "unat size = unat new_size div 2" "2 < unat size"
    by (auto simp: unat_div word_less_nat_alt)
  then show "((len, size), len, new_size) \<in> measure (\<lambda>(len, s). unat s)" by simp
qed simp

declare rangeset_shrink_loop.simps [simp del]

definition u_mulle__rangeset_shrink :: "mulle__rangeset \<Rightarrow> mulle__rangeset" where
  "u_mulle__rangeset_shrink p =
     (let new_size = rangeset_shrink_loop (length (rs_ranges p)) (rs_size p)
      in if new_size \<ge> rs_size p then p
         else if \<not> rs_static p then p\<lparr>rs_size := new_size\<rparr> else p)"

definition u_mulle__rangeset_reset :: "mulle__rangeset \<Rightarrow> mulle__rangeset" where
  "u_mulle__rangeset_reset p = u_mulle__rangeset_shrink (p\<lparr>rs_ranges := []\<rparr>)"

section \<open>Queries\<close>

definition u_mulle__rangeset_contains :: "mulle__rangeset \<Rightarrow> mulle_range \<Rightarrow> bool" where
  "u_mulle__rangeset_contains p rng =
     (if range_length rng = 0 then False
      else if rs_ranges p = [] then False
      else mulle_range_contains_bsearch (rs_ranges p) rng \<noteq> None)"

definition u_mulle__rangeset_intersects :: "mulle__rangeset \<Rightarrow> mulle_range \<Rightarrow> bool" where
  "u_mulle__rangeset_intersects p rng =
     (if range_length rng = 0 then False
      else if rs_ranges p = [] then False
      else mulle_range_intersects_bsearch (rs_ranges p) rng \<noteq> None)"

section \<open>Insertion\<close>

definition uu_mulle__rangeset_move_down_pointer ::
    "mulle__rangeset \<Rightarrow> nat \<Rightarrow> mulle__rangeset" where
  "uu_mulle__rangeset_move_down_pointer p cur =
     p\<lparr>rs_ranges := take cur (rs_ranges p) @ drop (Suc cur) (rs_ranges p)\<rparr>"

text \<open>
  The slot opened at \<open>index\<close> keeps its old content (at the end of the array it is not initialised,
  here the zero range) until the caller stores into it.
\<close>

definition uu_mulle__rangeset_move_up :: "mulle__rangeset \<Rightarrow> nat \<Rightarrow> mulle__rangeset option" where
  "uu_mulle__rangeset_move_up p index =
     Option.bind (u_mulle__rangeset_reserve p 1) (\<lambda>p.
       Some (p\<lparr>rs_ranges := take index (rs_ranges p) @
         (if index < length (rs_ranges p) then rs_ranges p ! index else mulle_range_zero) #
         drop index (rs_ranges p)\<rparr>))"

definition uu_mulle__rangeset_insert_known_absent ::
    "mulle__rangeset \<Rightarrow> mulle_range \<Rightarrow> mulle__rangeset option" where
  "uu_mulle__rangeset_insert_known_absent p rng =
     (if range_length rng = 0 then Some p
      else
        let rs = rs_ranges p;
            index = u_mulle_range_hole_bsearch rs (location rng);
            coalesce_prev = (rs \<noteq> [] \<and> index \<noteq> 0 \<and>
              mulle_range_get_max (rs ! (index - 1)) = location rng);
            rs = (if coalesce_prev
                  then rs[index - 1 := (rs ! (index - 1))
                         \<lparr>range_length := range_length (rs ! (index - 1)) + range_length rng\<rparr>]
                  else rs);
            p = p\<lparr>rs_ranges := rs\<rparr>
        in if rs \<noteq> [] \<and> index < length rs \<and> mulle_range_get_max rng = location (rs ! index)
           then (if coalesce_prev \<and> mulle_range_get_max (rs ! (index - 1)) = location (rs ! index)
                 then Some (uu_mulle__rangeset_move_down_pointer
                   (p\<lparr>rs_ranges := rs[index - 1 := (rs ! (index - 1))
                     \<lparr>range_length := range_length (rs ! (index - 1)) + range_length (rs ! index)\<rparr>]\<rparr>)
                   (index - 1 + 1))
                 else Some (p\<lparr>rs_ranges := rs[index :=
                   \<lparr>location = location (rs ! index) - range_length rng,
                    range_length = range_length (rs ! index) + range_length rng\<rparr>]\<rparr>))
           else if coalesce_prev then Some p
           else Option.bind (uu_mulle__rangeset_move_up p index) (\<lambda>p.
             Some (p\<lparr>rs_ranges := (rs_ranges p)[index := rng]\<rparr>)))"

text \<open>
  The two loops of the insertion into an array that already meets the range: \<open>loop_2\<close> lets the
  predecessors of \<open>cur\<close> that meet the range swallow it, \<open>loop_3\<close> lets \<open>cur\<close> swallow its
  successors. \<open>loop_2\<close> also returns the new position of \<open>found\<close>, which follows \<open>cur\<close>.
\<close>

fun rangeset_insert_loop_2 ::
    "mulle__rangeset \<Rightarrow> mulle_range \<Rightarrow> nat \<Rightarrow> mulle__rangeset \<times> nat" where
  "rangeset_insert_loop_2 p rng cur =
     (let rs = rs_ranges p; c = rs ! cur; prev = rs ! (cur - 1)
      in if cur = 0 \<or> range_length (mulle_range_intersect prev rng) = 0
         then ((if location rng < location c
                then p\<lparr>rs_ranges := rs[cur :=
                  \<lparr>location = location rng,
                   range_length = range_length c + (location c - location rng)\<rparr>]\<rparr>
                else p), cur)
         else rangeset_insert_loop_2
           (uu_mulle__rangeset_move_down_pointer
             (p\<lparr>rs_ranges := rs[cur - 1 := prev\<lparr>range_length :=
               range_length prev + (location c - mulle_range_get_max prev + range_length c)\<rparr>]\<rparr>)
             cur)
           rng (cur - 1))"

function rangeset_insert_loop_3 :: "mulle__rangeset \<Rightarrow> mulle_range \<Rightarrow> nat \<Rightarrow> mulle__rangeset" where
  "rangeset_insert_loop_3 p rng cur =
     (let rs = rs_ranges p; c = rs ! cur; next = rs ! (cur + 1)
      in if cur + 1 \<ge> length rs \<or> range_length (mulle_range_intersect next rng) = 0
         then (let len = mulle_range_get_max rng - location c
               in if len > range_length c
                  then p\<lparr>rs_ranges := rs[cur := c\<lparr>range_length := len\<rparr>]\<rparr> else p)
         else rangeset_insert_loop_3
           (uu_mulle__rangeset_move_down_pointer
             (p\<lparr>rs_ranges := rs[cur := c\<lparr>range_length := mulle_range_get_max next - location c\<rparr>]\<rparr>)
             (cur + 1))
           rng cur)"
  by pat_completeness auto
termination
  by (relation "measure (\<lambda>(p, rng, cur). length (rs_ranges p) - cur)")
    (auto simp: uu_mulle__rangeset_move_down_pointer_def)

declare rangeset_insert_loop_2.simps [simp del]
declare rangeset_insert_loop_3.simps [simp del]

definition uu_mulle__rangeset_insert ::
    "mulle__rangeset \<Rightarrow> mulle_range \<Rightarrow> mulle__rangeset option" where
  "uu_mulle__rangeset_insert p rng =
     (if range_length rng = 0 then Some p
      else if \<not> mulle_range_is_valid rng then Some p
      else (case mulle_range_intersects_bsearch (rs_ranges p) rng of
          None \<Rightarrow> uu_mulle__rangeset_insert_known_absent p rng
        | Some found \<Rightarrow>
            if mulle_range_contains (rs_ranges p ! found) rng then Some p
            else
              let (p, found) =
                    (if location rng < location (rs_ranges p ! found)
                     then rangeset_insert_loop_2 p rng found else (p, found))
              in Some (if mulle_range_get_max rng > mulle_range_get_max (rs_ranges p ! found)
                       then rangeset_insert_loop_3 p rng found else p)))"

definition u_mulle__rangeset_insert ::
    "mulle__rangeset \<Rightarrow> mulle_range \<Rightarrow> mulle__rangeset option" where
  "u_mulle__rangeset_insert p rng =
     (if range_length rng = 0 then Some p
      else if \<not> mulle_range_is_valid rng then Some p
      else uu_mulle__rangeset_insert p rng)"

fun u_mulle__rangeset_insert_ranges ::
    "mulle__rangeset \<Rightarrow> mulle_range list \<Rightarrow> mulle__rangeset option" where
  "u_mulle__rangeset_insert_ranges p [] = Some p"
| "u_mulle__rangeset_insert_ranges p (cur # ranges) =
     Option.bind (uu_mulle__rangeset_insert p cur) (\<lambda>p. u_mulle__rangeset_insert_ranges p ranges)"

definition u_mulle__rangeset_insert_rangeset ::
    "mulle__rangeset \<Rightarrow> mulle__rangeset \<Rightarrow> mulle__rangeset option" where
  "u_mulle__rangeset_insert_rangeset p other = u_mulle__rangeset_insert_ranges p (rs_ranges other)"

section \<open>Removal\<close>

partial_function (option) rangeset_remove_loop ::
    "mulle__rangeset \<Rightarrow> mulle_range \<Rightarrow> mulle__rangeset option" where
  "rangeset_remove_loop p rng =
     (case mulle_range_intersects_bsearch (rs_ranges p) rng of
        None \<Rightarrow> Some p
      | Some i \<Rightarrow>
          let rs = rs_ranges p; found = rs ! i
          in if mulle_range_contains rng found
             then rangeset_remove_loop (uu_mulle__rangeset_move_down_pointer p i) rng
             else
               let found_end = mulle_range_get_max found;
                   range_end = mulle_range_get_max rng
               in if location rng > location found \<and> range_end < found_end
                  then Option.bind
                    (uu_mulle__rangeset_insert_known_absent
                      (p\<lparr>rs_ranges := rs[i := found\<lparr>range_length := location rng - location found\<rparr>]\<rparr>)
                      (mulle_range_make range_end (found_end - range_end)))
                    (\<lambda>p. rangeset_remove_loop p rng)
                  else if range_end < found_end
                  then rangeset_remove_loop
                    (p\<lparr>rs_ranges := rs[i := \<lparr>location = range_end, range_length = found_end - range_end\<rparr>]\<rparr>)
                    rng
                  else rangeset_remove_loop
                    (p\<lparr>rs_ranges := rs[i := found\<lparr>range_length := location rng - location found\<rparr>]\<rparr>)
                    rng)"

declare rangeset_remove_loop.simps [code]

definition uu_mulle__rangeset_remove ::
    "mulle__rangeset \<Rightarrow> mulle_range \<Rightarrow> mulle__rangeset option" where
  "uu_mulle__rangeset_remove p rng =
     (if range_length rng = 0 then Some p
      else if \<not> mulle_range_is_valid rng then Some p
      else rangeset_remove_loop p rng)"

definition u_mulle__rangeset_remove ::
    "mulle__rangeset \<Rightarrow> mulle_range \<Rightarrow> mulle__rangeset option" where
  "u_mulle__rangeset_remove p rng =
     (if range_length rng = 0 then Some p
      else if \<not> mulle_range_is_valid rng then Some p
      else uu_mulle__rangeset_remove p rng)"

fun rangeset_remove_ranges_loop ::
    "mulle__rangeset \<Rightarrow> mulle_range list \<Rightarrow> mulle__rangeset option" where
  "rangeset_remove_ranges_loop p [] = Some p"
| "rangeset_remove_ranges_loop p (cur # ranges) =
     Option.bind (uu_mulle__rangeset_remove p cur) (\<lambda>p. rangeset_remove_ranges_loop p ranges)"

definition u_mulle__rangeset_remove_ranges ::
    "mulle__rangeset \<Rightarrow> mulle_range list \<Rightarrow> mulle__rangeset option" where
  "u_mulle__rangeset_remove_ranges p ranges =
     map_option u_mulle__rangeset_shrink (rangeset_remove_ranges_loop p ranges)"

definition u_mulle__rangeset_remove_rangeset ::
    "mulle__rangeset \<Rightarrow> mulle__rangeset \<Rightarrow> mulle__rangeset option" where
  "u_mulle__rangeset_remove_rangeset p other = u_mulle__rangeset_remove_ranges p (rs_ranges other)"

section \<open>Searching\<close>

definition u_mulle__rangeset_search_exact :: "mulle__rangeset \<Rightarrow> uintptr_t \<Rightarrow> mulle_range" where
  "u_mulle__rangeset_search_exact p loc =
     (case mulle_range_intersects_bsearch (rs_ranges p) (mulle_range_make loc 1) of
        Some cur \<Rightarrow> rs_ranges p ! cur
      | None \<Rightarrow> mulle_range_make_invalid)"

definition u_mulle__rangeset_search_nearest_p :: "mulle__rangeset \<Rightarrow> uintptr_t \<Rightarrow> nat option" where
  "u_mulle__rangeset_search_nearest_p p loc =
     (let rs = rs_ranges p
      in case mulle_range_intersects_bsearch rs (mulle_range_make loc 1) of
           Some cur \<Rightarrow> Some cur
         | None \<Rightarrow>
             if rs = [] then None
             else let index = u_mulle_range_hole_bsearch rs loc;
                      index = (if index = length rs then index - 1 else index)
                  in if index \<noteq> 0 \<and>
                        mulle_range_distance_to_location (rs ! index) loc >
                        mulle_range_distance_to_location (rs ! (index - 1)) loc
                     then Some (index - 1) else Some index)"

definition u_mulle__rangeset_search_nearest :: "mulle__rangeset \<Rightarrow> uintptr_t \<Rightarrow> mulle_range" where
  "u_mulle__rangeset_search_nearest p loc =
     (case u_mulle__rangeset_search_nearest_p p loc of
        Some cur \<Rightarrow> rs_ranges p ! cur
      | None \<Rightarrow> mulle_range_make_invalid)"

text \<open>The flags of \<open>enum mulle_rangeset_searchoperation\<close>.\<close>

definition mulle_rangeset_equal :: uint32_t where
  "mulle_rangeset_equal = 1"

definition mulle_rangeset_less_than :: uint32_t where
  "mulle_rangeset_less_than = 2"

definition mulle_rangeset_greater_than :: uint32_t where
  "mulle_rangeset_greater_than = 4"

definition u_mulle__rangeset_search_range ::
    "mulle__rangeset \<Rightarrow> uintptr_t \<Rightarrow> uint32_t \<Rightarrow> mulle_range" where
  "u_mulle__rangeset_search_range p loc op =
     (case u_mulle__rangeset_search_nearest_p p loc of
        None \<Rightarrow> mulle_range_make_invalid
      | Some cur \<Rightarrow>
          let rs = rs_ranges p
          in if op AND mulle_rangeset_equal \<noteq> 0 \<and> mulle_range_contains_location (rs ! cur) loc
             then rs ! cur
             else
               let op = (if op AND mulle_rangeset_equal \<noteq> 0
                         then op AND NOT mulle_rangeset_equal else op)
               in if op = mulle_rangeset_less_than \<and> loc \<noteq> 0 then
                    (if mulle_range_greater_than_or_equal_to_location (rs ! cur) loc
                     then (if cur = 0 then mulle_range_make_invalid else rs ! (cur - 1))
                     else rs ! cur)
                  else if op = mulle_rangeset_greater_than \<and> loc < mulle_range_location_max then
                    (if mulle_range_less_than_or_equal_to_location (rs ! cur) loc
                     then (if cur + 1 = length rs then mulle_range_make_invalid else rs ! (cur + 1))
                     else rs ! cur)
                  else mulle_range_make_invalid)"

definition u_mulle__rangeset_search_location ::
    "mulle__rangeset \<Rightarrow> uintptr_t \<Rightarrow> uint32_t \<Rightarrow> uintptr_t" where
  "u_mulle__rangeset_search_location p loc op =
     (let rng = u_mulle__rangeset_search_range p loc op
      in if \<not> mulle_range_is_valid rng then mulle_not_found_e
         else if op AND mulle_rangeset_equal \<noteq> 0 \<and> mulle_range_contains_location rng loc then loc
         else
           let op = (if op AND mulle_rangeset_equal \<noteq> 0
                     then op AND NOT mulle_rangeset_equal else op)
           in if op = mulle_rangeset_less_than \<and> loc \<noteq> 0 then
                (if mulle_range_contains_location rng (loc - 1) then loc - 1
                 else mulle_range_get_last_location rng)
              else if op = mulle_rangeset_greater_than \<and> loc < mulle_range_location_max then
                (if mulle_range_contains_location rng (loc + 1) then loc + 1
                 else mulle_range_get_min rng)
              else mulle_not_found_e)"

section \<open>Shifting and summing\<close>

definition u_mulle__rangeset_deltashift ::
    "mulle__rangeset \<Rightarrow> nat \<Rightarrow> uintptr_t \<Rightarrow> mulle__rangeset" where
  "u_mulle__rangeset_deltashift p cur delta =
     p\<lparr>rs_ranges := take cur (rs_ranges p) @
       map (\<lambda>r. r\<lparr>location := location r + delta\<rparr>) (drop cur (rs_ranges p))\<rparr>"

text \<open>\<open>delta\<close> and \<open>to_remove\<close> are \<open>intptr_t\<close>, read with \<open>sint\<close>.\<close>

definition u_mulle__rangeset_shift ::
    "mulle__rangeset \<Rightarrow> uintptr_t \<Rightarrow> uintptr_t \<Rightarrow> mulle__rangeset option" where
  "u_mulle__rangeset_shift p loc delta =
     (if rs_ranges p = [] \<or> delta = 0 then Some p
      else
        let to_remove = loc + delta;
            delta' = (if sint delta < 0 then delta
                      else if delta > mulle_range_location_max + 1
                      then mulle_range_location_max + 1 else delta)
        in Option.bind
          (if sint delta < 0
           then (if sint to_remove < 0
                 then uu_mulle__rangeset_remove p (mulle_range_make loc (- to_remove))
                 else Some p)
           else uu_mulle__rangeset_remove p
             (mulle_range_make (mulle_range_location_max + 1 - delta') delta'))
          (\<lambda>p. case u_mulle__rangeset_search_nearest_p p loc of
             None \<Rightarrow> Some p
           | Some found \<Rightarrow>
               let rs = rs_ranges p; f = rs ! found
               in if mulle_range_contains_location f loc \<and> location f < loc
                  then
                    let p = u_mulle__rangeset_deltashift p (found + 1) delta';
                        found_end = mulle_range_get_max f;
                        p = p\<lparr>rs_ranges :=
                              (rs_ranges p)[found := f\<lparr>range_length := loc - location f\<rparr>]\<rparr>
                    in uu_mulle__rangeset_insert p (mulle_range_make (loc + delta') (found_end - loc))
                  else
                    let p = u_mulle__rangeset_deltashift p found delta'; rs = rs_ranges p
                    in if sint delta' < 0 \<and> found \<noteq> 0 \<and>
                          mulle_range_get_max (rs ! (found - 1)) = location (rs ! found)
                       then Some (uu_mulle__rangeset_move_down_pointer
                         (p\<lparr>rs_ranges := rs[found - 1 := (rs ! (found - 1))
                           \<lparr>range_length := range_length (rs ! (found - 1)) + range_length (rs ! found)\<rparr>]\<rparr>)
                         found)
                       else Some p))"

fun rangeset_sum_loop :: "mulle_range list \<Rightarrow> mulle_range \<Rightarrow> uintptr_t \<Rightarrow> uintptr_t" where
  "rangeset_sum_loop [] rng tot = tot"
| "rangeset_sum_loop (cur # rs) rng tot =
     (let len = range_length (mulle_range_intersect cur rng)
      in if len = 0 then tot else rangeset_sum_loop rs rng (tot + len))"

definition u_mulle__rangeset_sum_lengths_range ::
    "mulle__rangeset \<Rightarrow> mulle_range \<Rightarrow> uintptr_t" where
  "u_mulle__rangeset_sum_lengths_range p rng =
     (case u_mulle__rangeset_search_nearest_p p (location rng) of
        None \<Rightarrow> 0
      | Some cur \<Rightarrow> rangeset_sum_loop (drop cur (rs_ranges p)) rng 0)"


section \<open>The set of locations and the invariant\<close>

definition ranges_set :: "mulle_range list \<Rightarrow> nat set" where
  "ranges_set rs = (\<Union>r \<in> set rs. rset r)"

abbreviation rs_set :: "mulle__rangeset \<Rightarrow> nat set" where
  "rs_set p \<equiv> ranges_set (rs_ranges p)"

definition rangeset_inv :: "mulle__rangeset \<Rightarrow> bool" where
  "rangeset_inv p \<longleftrightarrow> ranges_wf (rs_ranges p) \<and> length (rs_ranges p) \<le> unat (rs_size p)"

lemma ranges_set_simps [simp]:
  "ranges_set [] = {}" "ranges_set (r # rs) = rset r \<union> ranges_set rs"
  "ranges_set (xs @ ys) = ranges_set xs \<union> ranges_set ys"
  by (auto simp: ranges_set_def)

lemma ranges_wf_append:
  "ranges_wf (xs @ ys) \<longleftrightarrow>
     ranges_wf xs \<and> ranges_wf ys \<and> (\<forall>a \<in> set xs. \<forall>b \<in> set ys. hi a \<le> lo b)"
  by (auto simp: ranges_wf_def sorted_wrt_append)

lemma ranges_wf_Cons:
  "ranges_wf (r # rs) \<longleftrightarrow>
     mulle_range_is_valid r \<and> nonempty r \<and> ranges_wf rs \<and> (\<forall>b \<in> set rs. hi r \<le> lo b)"
  by (auto simp: ranges_wf_def)

lemmas ranges_wf_split = ranges_wf_append ranges_wf_Cons ball_Un

text \<open>The bounds of a range whose fields are assigned.\<close>

lemma lo_hi_update [simp]:
  "lo (r\<lparr>range_length := n\<rparr>) = lo r" "hi (r\<lparr>range_length := n\<rparr>) = lo r + unat n"
  by (simp_all add: lo_def hi_def del: unat_location unat_range_length)

lemma get_max_unfold: "range_length r = mulle_range_get_max r - location r"
  by (simp add: mulle_range_get_max_def)

lemma gap_closed:
  fixes a c :: mulle_range
  shows "range_length a + (location c - mulle_range_get_max a + range_length c)
    = mulle_range_get_max c - location a"
  by (simp add: mulle_range_get_max_def)

section \<open>Capacity\<close>

lemma grow_spec:
  assumes "unat (rs_size p) \<le> 2 ^ 58"
  shows "\<exists>p'. u_mulle__rangeset_grow p = Some p' \<and> rs_ranges p' = rs_ranges p \<and>
    2 * unat (rs_size p) \<le> unat (rs_size p') \<and> unat (rs_size p) < unat (rs_size p') \<and>
    unat (rs_size p') \<le> 2 ^ 59 \<and> \<not> rs_static p'"
proof -
  let ?n = "mulle_pow2round (rs_size p * 2)"
  have "unat (rs_size p * 2) = 2 * unat (rs_size p)"
    using assms by (simp add: unat_word_ariths)
  then have n: "2 * unat (rs_size p) \<le> unat ?n" "0 < unat ?n" "unat ?n \<le> 2 ^ 59"
    using pow2round_bounds [of "rs_size p * 2" 59] assms by simp_all
  then have "mulle_allocator_size_multiply ?n sizeof_mulle_range \<noteq> None"
    by (simp add: size_multiply_eq sizeof_mulle_range_def)
  with n show ?thesis
    by (auto simp: u_mulle__rangeset_grow_def Let_def)
qed

lemma reserve_spec:
  assumes "length (rs_ranges p) + unat additional \<le> 2 ^ 58"
  shows "\<exists>p'. u_mulle__rangeset_reserve p additional = Some p' \<and> rs_ranges p' = rs_ranges p \<and>
    length (rs_ranges p) + unat additional \<le> unat (rs_size p') \<and>
    unat (rs_size p) \<le> unat (rs_size p')"
  using assms
proof (induction "2 ^ 58 - unat (rs_size p)" arbitrary: p rule: less_induct)
  case less
  have sum: "unat (of_nat (length (rs_ranges p)) + additional) = length (rs_ranges p) + unat additional"
    using less.prems by (simp add: unat64_add unat64_of_nat)
  show ?case
  proof (cases "length (rs_ranges p) + unat additional \<le> unat (rs_size p)")
    case True
    with sum show ?thesis
      by (subst u_mulle__rangeset_reserve.simps) (simp add: word_le_nat_alt)
  next
    case False
    with less.prems have "unat (rs_size p) \<le> 2 ^ 58" by linarith
    from grow_spec [OF this] obtain q where q: "u_mulle__rangeset_grow p = Some q"
      "rs_ranges q = rs_ranges p" "unat (rs_size p) < unat (rs_size q)" by blast
    with False less.prems have "2 ^ 58 - unat (rs_size q) < 2 ^ 58 - unat (rs_size p)" by linarith
    from less.hyps [OF this] q less.prems False sum show ?thesis
      by (subst u_mulle__rangeset_reserve.simps) (force simp: word_le_nat_alt)
  qed
qed

section \<open>Correctness of the insertion\<close>

lemma known_absent_list:
  assumes wf: "ranges_wf rs" and r: "mulle_range_is_valid r" "nonempty r"
    and absent: "\<forall>x \<in> set rs. \<not> overlap x r"
  obtains as bs where "rs = as @ bs" "length as = u_mulle_range_hole_bsearch rs (location r)"
    "\<forall>x \<in> set as. hi x \<le> lo r" "\<forall>x \<in> set bs. hi r \<le> lo x"
proof -
  let ?h = "u_mulle_range_hole_bsearch rs (location r)"
  note hole = hole_bsearch_correct [OF wf, of "location r"]
  show thesis
  proof (rule that [of "take ?h rs" "drop ?h rs"])
    show "\<forall>x \<in> set (take ?h rs). hi x \<le> lo r"
    proof
      fix x assume x: "x \<in> set (take ?h rs)"
      then have "lo x < lo r" using hole by (auto simp: in_set_conv_nth)
      moreover have "x \<in> set rs" using x by (rule in_set_takeD)
      ultimately show "hi x \<le> lo r"
        using absent r wf by (force simp: overlap_def nonempty_iff ranges_wf_def)
    qed
    show "\<forall>x \<in> set (drop ?h rs). hi r \<le> lo x"
    proof
      fix x assume x: "x \<in> set (drop ?h rs)"
      then obtain i where "x = rs ! (?h + i)" "?h + i < length rs"
        by (auto simp: in_set_conv_nth)
      then have "lo r \<le> lo x" using hole by (simp add: not_less [symmetric])
      moreover have "x \<in> set rs" using x by (rule in_set_dropD)
      ultimately show "hi r \<le> lo x"
        using absent r wf by (force simp: overlap_def nonempty_iff ranges_wf_def)
    qed
  qed (use hole in auto)
qed

text \<open>
  The four outcomes of the insertion of an absent range into the hole between \<open>as\<close> and \<open>bs\<close>.
\<close>

lemma glue_prev:
  assumes "mulle_range_is_valid x" "mulle_range_is_valid r" "mulle_range_get_max x = location r"
  shows "hi x = lo r" "lo (x\<lparr>range_length := range_length x + range_length r\<rparr>) = lo x"
    "hi (x\<lparr>range_length := range_length x + range_length r\<rparr>) = hi r"
proof -
  show eq: "hi x = lo r" using assms(3) unat_get_max(1) [OF assms(1)] by simp
  have "range_length x + range_length r = mulle_range_get_max r - location x"
    using assms(3) by (simp add: mulle_range_get_max_def algebra_simps)
  then have "unat (range_length x + range_length r) = hi r - lo x"
    using assms(2) eq lo_le_hi [of x] lo_le_hi [of r] by (simp add: unat64_sub)
  then show "hi (x\<lparr>range_length := range_length x + range_length r\<rparr>) = hi r"
    using eq lo_le_hi [of x] lo_le_hi [of r] by simp
qed simp

lemma glue_next:
  assumes "mulle_range_is_valid y" "mulle_range_is_valid r" "mulle_range_get_max r = location y"
  shows "hi r = lo y"
    "lo \<lparr>location = location y - range_length r, range_length = range_length y + range_length r\<rparr> = lo r"
    "hi \<lparr>location = location y - range_length r, range_length = range_length y + range_length r\<rparr> = hi y"
proof -
  show eq: "hi r = lo y" using assms(3) unat_get_max(1) [OF assms(2)] by simp
  have loc: "location y - range_length r = location r"
    using assms(3) by (simp add: mulle_range_get_max_def algebra_simps)
  have "range_length y + range_length r = mulle_range_get_max y - location r"
    using assms(3) by (simp add: mulle_range_get_max_def algebra_simps)
  then have "unat (range_length y + range_length r) = hi y - lo r"
    using assms(1) eq lo_le_hi [of y] lo_le_hi [of r] by (simp add: unat64_sub)
  then show "hi \<lparr>location = location y - range_length r, range_length = range_length y + range_length r\<rparr> = hi y"
    using eq lo_le_hi [of y] lo_le_hi [of r] by (simp add: loc)
  show "lo \<lparr>location = location y - range_length r, range_length = range_length y + range_length r\<rparr> = lo r"
    by (simp add: loc)
qed

lemma insert_known_absent_spec:
  assumes inv: "rangeset_inv p" and room: "length (rs_ranges p) < 2 ^ 58"
    and r: "mulle_range_is_valid r" "nonempty r"
    and absent: "\<forall>x \<in> set (rs_ranges p). \<not> overlap x r"
  shows "\<exists>p'. uu_mulle__rangeset_insert_known_absent p r = Some p' \<and> rangeset_inv p' \<and>
    rs_set p' = rs_set p \<union> rset r \<and> length (rs_ranges p') \<le> length (rs_ranges p) + 1"
proof -
  let ?rs = "rs_ranges p"
  have wf: "ranges_wf ?rs" using inv by (simp add: rangeset_inv_def)
  obtain as bs where split: "?rs = as @ bs"
    and len: "length as = u_mulle_range_hole_bsearch ?rs (location r)"
    and below: "\<forall>x \<in> set as. hi x \<le> lo r" and above: "\<forall>x \<in> set bs. hi r \<le> lo x"
    using known_absent_list [OF wf r absent] .
  consider (both) as' x y bs' where "as = as' @ [x]" "bs = y # bs'"
      "mulle_range_get_max x = location r" "mulle_range_get_max r = location y"
    | (prev) as' x where "as = as' @ [x]" "mulle_range_get_max x = location r"
      "\<And>y bs'. bs = y # bs' \<Longrightarrow> mulle_range_get_max r \<noteq> location y"
    | (succ) y bs' where "bs = y # bs'" "mulle_range_get_max r = location y"
      "\<And>as' x. as = as' @ [x] \<Longrightarrow> mulle_range_get_max x \<noteq> location r"
    | (none) "\<And>y bs'. bs = y # bs' \<Longrightarrow> mulle_range_get_max r \<noteq> location y"
      "\<And>as' x. as = as' @ [x] \<Longrightarrow> mulle_range_get_max x \<noteq> location r"
    by (metis list.exhaust)
  then show ?thesis
  proof cases
    case both
    note g = glue_prev [OF _ r(1) both(3)] glue_next [OF _ r(1) both(4)]
    let ?x = "x\<lparr>range_length := range_length x + range_length r\<rparr>"
    let ?z = "?x\<lparr>range_length := range_length ?x + range_length y\<rparr>"
    have v: "mulle_range_is_valid x" "mulle_range_is_valid y" "nonempty x" "nonempty y"
      using wf split both by (auto simp: ranges_wf_split)
    have touch: "mulle_range_get_max ?x = location y"
      using both(3,4) by (simp add: mulle_range_get_max_def add.assoc [symmetric])
    have vx: "mulle_range_is_valid ?x" using v r g by (simp add: valid_iff del: lo_hi_update)
    have z: "lo ?z = lo x" "hi ?z = hi y"
      using glue_prev [OF vx v(2) touch] by (simp_all del: lo_hi_update(2))
    have hole: "u_mulle_range_hole_bsearch (as' @ x # y # bs') (location r) = Suc (length as')"
      using len split both by simp
    have res: "uu_mulle__rangeset_insert_known_absent p r = Some (p\<lparr>rs_ranges := as' @ ?z # bs'\<rparr>)"
      using r(2) both split touch hole
      by (simp add: uu_mulle__rangeset_insert_known_absent_def nonempty_def Let_def nth_append
          uu_mulle__rangeset_move_down_pointer_def)
    have "rset ?z = rset x \<union> rset r \<union> rset y" using v r z g by (auto simp: nonempty_iff)
    moreover have "ranges_wf (as' @ ?z # bs')"
      using wf split both v z by (auto simp: ranges_wf_split range_simps)
    ultimately show ?thesis using inv res split both by (auto simp: rangeset_inv_def)
  next
    case prev
    let ?x = "x\<lparr>range_length := range_length x + range_length r\<rparr>"
    have v: "mulle_range_is_valid x" "nonempty x" using wf split prev by (auto simp: ranges_wf_split)
    note g = glue_prev [OF v(1) r(1) prev(2)]
    have hole: "u_mulle_range_hole_bsearch (as' @ x # bs) (location r) = Suc (length as')"
      using len split prev(1) by simp
    have res: "uu_mulle__rangeset_insert_known_absent p r = Some (p\<lparr>rs_ranges := as' @ ?x # bs\<rparr>)"
      using r(2) prev split hole
      by (cases bs) (simp_all add: uu_mulle__rangeset_insert_known_absent_def nonempty_def Let_def nth_append)
    have "rset ?x = rset x \<union> rset r" using v r g by (auto simp: nonempty_iff)
    moreover have "ranges_wf (as' @ ?x # bs)"
      using wf split prev v r g above by (auto simp: ranges_wf_split range_simps)
    ultimately show ?thesis using inv res split prev by (auto simp: rangeset_inv_def)
  next
    case succ
    let ?y = "\<lparr>location = location y - range_length r, range_length = range_length y + range_length r\<rparr>"
    have v: "mulle_range_is_valid y" "nonempty y" using wf split succ by (auto simp: ranges_wf_split)
    note g = glue_next [OF v(1) r(1) succ(2)]
    have "\<not> (as \<noteq> [] \<and> mulle_range_get_max (?rs ! (length as - 1)) = location r)"
      using succ(3) split by (cases as rule: rev_cases) (auto simp: nth_append)
    then have res: "uu_mulle__rangeset_insert_known_absent p r = Some (p\<lparr>rs_ranges := as @ ?y # bs'\<rparr>)"
      using r(2) succ(1,2) split len [unfolded split, symmetric]
      by (auto simp: uu_mulle__rangeset_insert_known_absent_def nonempty_def Let_def)
    have "rset ?y = rset y \<union> rset r" using v r g by (auto simp: nonempty_iff)
    moreover have "ranges_wf (as @ ?y # bs')"
      using wf split succ v r g below by (auto simp: ranges_wf_split range_simps)
    ultimately show ?thesis using inv res split succ by (auto simp: rangeset_inv_def)
  next
    case none
    have "unat (1 :: 64 word) = 1" by simp
    then obtain q where q: "u_mulle__rangeset_reserve p 1 = Some q" "rs_ranges q = ?rs"
      "length ?rs + 1 \<le> unat (rs_size q)"
      using reserve_spec [of p 1] room by auto
    have "(?rs \<noteq> [] \<and> length as \<noteq> 0 \<and>
        mulle_range_get_max (?rs ! (length as - 1)) = location r) = False"
      using none(2) split by (cases as rule: rev_cases) (auto simp: nth_append)
    moreover have "(?rs \<noteq> [] \<and> length as < length ?rs \<and>
        mulle_range_get_max r = location (?rs ! length as)) = False"
      using none(1) split by (cases bs) auto
    ultimately have "uu_mulle__rangeset_insert_known_absent p r =
        Option.bind (uu_mulle__rangeset_move_up (p\<lparr>rs_ranges := ?rs\<rparr>) (length as))
          (\<lambda>p. Some (p\<lparr>rs_ranges := (rs_ranges p)[length as := r]\<rparr>))"
      using r(2) unfolding uu_mulle__rangeset_insert_known_absent_def len [symmetric] nonempty_def Let_def
      by (simp only: if_False)
    moreover have "p\<lparr>rs_ranges := as @ bs\<rparr> = p" using split by (cases p) simp
    ultimately have res: "uu_mulle__rangeset_insert_known_absent p r = Some (q\<lparr>rs_ranges := as @ r # bs\<rparr>)"
      using q split by (simp add: uu_mulle__rangeset_move_up_def)
    have "ranges_wf (as @ r # bs)"
      using wf split r below above by (auto simp: ranges_wf_split)
    with res q split show ?thesis by (auto simp: rangeset_inv_def)
  qed
qed

subsection \<open>The two coalescing loops\<close>

lemma insert_loop_2_stop:
  assumes rs: "rs_ranges p = as @ c # bs" and wf: "ranges_wf (as @ c # bs)" and "overlap c r"
    and r: "mulle_range_is_valid r" "nonempty r" and stop: "as = [] \<or> \<not> overlap (last as) r"
  shows "\<exists>c'. rangeset_insert_loop_2 p r (length as) =
      (p\<lparr>rs_ranges := as @ c' # bs\<rparr>, length as) \<and> ranges_wf (as @ c' # bs) \<and>
    lo c' \<le> lo r \<and> overlap c' r \<and>
    ranges_set (as @ c' # bs) \<union> rset r = ranges_set (as @ c # bs) \<union> rset r"
proof -
  have v: "mulle_range_is_valid c" "lo c < hi c" "lo r < hi r"
    using wf r by (auto simp: ranges_wf_split nonempty_iff)
  have o: "lo c < hi r" "lo r < hi c" using \<open>overlap c r\<close> by (auto simp: overlap_def)
  let ?c = "\<lparr>location = location r, range_length = range_length c + (location c - location r)\<rparr>"
  have "as = [] \<or> range_length (mulle_range_intersect ((as @ c # bs) ! (length as - 1)) r) = 0"
    using stop wf r by (cases as rule: rev_cases) (auto simp: nth_append intersect_length_iff ranges_wf_split)
  then have step: "rangeset_insert_loop_2 p r (length as) =
      ((if lo r < lo c then p\<lparr>rs_ranges := as @ ?c # bs\<rparr> else p), length as)"
    by (subst rangeset_insert_loop_2.simps) (auto simp: rs Let_def word_less_nat_alt)
  show ?thesis
  proof (cases "lo r < lo c")
    case True
    have "range_length c + (location c - location r) = mulle_range_get_max c - location r"
      by (simp add: mulle_range_get_max_def)
    then have "unat (range_length c + (location c - location r)) = hi c - lo r"
      unfolding \<open>range_length c + _ = _\<close> using v o by (simp add: unat64_sub)
    then have c': "lo ?c = lo r" "hi ?c = hi c" using o by simp_all
    have "\<forall>a \<in> set as. hi a \<le> lo r"
    proof (cases as rule: rev_cases)
      case (snoc as' x)
      then have "hi x \<le> lo r" using stop wf v o by (auto simp: overlap_def ranges_wf_split nonempty_iff)
      with snoc wf show ?thesis by (force simp: ranges_wf_split nonempty_iff)
    qed simp
    then have "ranges_wf (as @ ?c # bs)" using wf v r c' o by (auto simp: ranges_wf_split range_simps)
    moreover have "rset ?c \<union> rset r = rset c \<union> rset r" using c' o v True by auto
    ultimately show ?thesis using step True c' o v by (intro exI [of _ ?c]) (auto simp: overlap_def)
  next
    case False
    moreover have "p = p\<lparr>rs_ranges := as @ c # bs\<rparr>" using rs by (cases p) simp
    ultimately show ?thesis using step wf \<open>overlap c r\<close> by (intro exI [of _ c]) auto
  qed
qed

lemma insert_loop_2_step:
  assumes rs: "rs_ranges p = as @ x # c # bs" and wf: "ranges_wf (as @ x # c # bs)"
    and r: "mulle_range_is_valid r" "nonempty r" and "overlap c r" "overlap x r"
  shows "\<exists>x'. rangeset_insert_loop_2 p r (Suc (length as)) =
      rangeset_insert_loop_2 (p\<lparr>rs_ranges := as @ x' # bs\<rparr>) r (length as) \<and>
    ranges_wf (as @ x' # bs) \<and> overlap x' r \<and>
    ranges_set (as @ x' # bs) \<union> rset r = ranges_set (as @ x # c # bs) \<union> rset r"
proof -
  let ?x = "x\<lparr>range_length := mulle_range_get_max c - location x\<rparr>"
  have v: "mulle_range_is_valid c" "mulle_range_is_valid x" "lo c < hi c" "lo x < hi x" "hi x \<le> lo c"
    using wf by (auto simp: ranges_wf_split nonempty_iff)
  have o: "lo c < hi r" "lo r < hi c" "lo x < hi r" "lo r < hi x" "lo r < hi r"
    using assms(5,6) by (auto simp: overlap_def)
  have "range_length (mulle_range_intersect x r) \<noteq> 0"
    using assms v by (simp add: intersect_length_iff)
  then have "rangeset_insert_loop_2 p r (Suc (length as)) =
      rangeset_insert_loop_2 (p\<lparr>rs_ranges := as @ ?x # bs\<rparr>) r (length as)"
    by (subst rangeset_insert_loop_2.simps)
      (simp add: rs Let_def nth_append gap_closed uu_mulle__rangeset_move_down_pointer_def)
  moreover have x': "lo ?x = lo x" "hi ?x = hi c" using v by (simp_all add: unat64_sub)
  moreover have "ranges_wf (as @ ?x # bs)"
    using wf v x' by (auto simp: ranges_wf_split range_simps)
  moreover have "rset ?x \<union> rset r = rset x \<union> rset c \<union> rset r" using x' o v by auto
  ultimately show ?thesis using o v by (intro exI [of _ ?x]) (auto simp: overlap_def)
qed

lemma insert_loop_2_spec:
  assumes "rs_ranges p = as @ c # bs" "ranges_wf (as @ c # bs)" "overlap c r"
    "mulle_range_is_valid r" "nonempty r"
  shows "\<exists>as' c'. rangeset_insert_loop_2 p r (length as) =
      (p\<lparr>rs_ranges := as' @ c' # bs\<rparr>, length as') \<and> ranges_wf (as' @ c' # bs) \<and>
    lo c' \<le> lo r \<and> overlap c' r \<and> length as' \<le> length as \<and>
    ranges_set (as' @ c' # bs) \<union> rset r = ranges_set (as @ c # bs) \<union> rset r"
  using assms
proof (induction as arbitrary: p c rule: rev_induct)
  case Nil
  then show ?case using insert_loop_2_stop [of p "[]" c bs r] by fastforce
next
  case (snoc x as)
  show ?case
  proof (cases "overlap x r")
    case False
    with snoc.prems insert_loop_2_stop [of p "as @ [x]" c bs r] show ?thesis by fastforce
  next
    case True
    with snoc.prems obtain x' where x': "rangeset_insert_loop_2 p r (Suc (length as)) =
        rangeset_insert_loop_2 (p\<lparr>rs_ranges := as @ x' # bs\<rparr>) r (length as)"
      "ranges_wf (as @ x' # bs)" "overlap x' r"
      "ranges_set (as @ x' # bs) \<union> rset r = ranges_set (as @ x # c # bs) \<union> rset r"
      using insert_loop_2_step [of p as x c bs r] by auto
    obtain as' c' where "rangeset_insert_loop_2 (p\<lparr>rs_ranges := as @ x' # bs\<rparr>) r (length as) =
        (p\<lparr>rs_ranges := as' @ c' # bs\<rparr>, length as')" "ranges_wf (as' @ c' # bs)"
      "lo c' \<le> lo r" "overlap c' r" "length as' \<le> length as"
      "ranges_set (as' @ c' # bs) \<union> rset r = ranges_set (as @ x' # bs) \<union> rset r"
      using snoc.IH [OF _ x'(2,3) snoc.prems(4,5), of "p\<lparr>rs_ranges := as @ x' # bs\<rparr>"] by auto
    with x'(1,4) show ?thesis by (intro exI [of _ as'] exI [of _ c']) simp
  qed
qed

lemma insert_loop_3_stop:
  assumes rs: "rs_ranges p = as @ c # bs" and wf: "ranges_wf (as @ c # bs)"
    and "overlap c r" "lo c \<le> lo r" and r: "mulle_range_is_valid r" "nonempty r"
    and stop: "bs = [] \<or> \<not> overlap (hd bs) r"
  shows "\<exists>c'. rangeset_insert_loop_3 p r (length as) = p\<lparr>rs_ranges := as @ c' # bs\<rparr> \<and>
    ranges_wf (as @ c' # bs) \<and> ranges_set (as @ c' # bs) = ranges_set (as @ c # bs) \<union> rset r"
proof -
  have v: "mulle_range_is_valid c" "lo c < hi c" "lo r < hi r"
    using wf r by (auto simp: ranges_wf_split nonempty_iff)
  have o: "lo c < hi r" "lo r < hi c" using \<open>overlap c r\<close> by (auto simp: overlap_def)
  let ?len = "mulle_range_get_max r - location c"
  let ?c = "c\<lparr>range_length := ?len\<rparr>"
  have len: "unat ?len = hi r - lo c" using o r by (simp add: unat64_sub)
  have "bs = [] \<or> range_length (mulle_range_intersect ((as @ c # bs) ! (length as + 1)) r) = 0"
    using stop wf r by (cases bs) (auto simp: nth_append intersect_length_iff ranges_wf_split)
  then have step: "rangeset_insert_loop_3 p r (length as) =
      (if hi c < hi r then p\<lparr>rs_ranges := as @ ?c # bs\<rparr> else p)"
    using len o v by (subst rangeset_insert_loop_3.simps) (auto simp: rs Let_def word_less_nat_alt)
  show ?thesis
  proof (cases "hi c < hi r")
    case True
    have c': "lo ?c = lo c" "hi ?c = hi r" using len o by simp_all
    have "\<forall>b \<in> set bs. hi r \<le> lo b"
    proof (cases bs)
      case (Cons y bs')
      then have "hi r \<le> lo y"
        using stop wf v o by (auto simp: overlap_def ranges_wf_split nonempty_iff)
      with Cons wf show ?thesis by (force simp: ranges_wf_split nonempty_iff)
    qed simp
    then have "ranges_wf (as @ ?c # bs)" using wf v r c' o by (auto simp: ranges_wf_split range_simps)
    moreover have "rset ?c = rset c \<union> rset r" using c' o v True \<open>lo c \<le> lo r\<close> by auto
    ultimately show ?thesis using step True by (intro exI [of _ ?c]) auto
  next
    case False
    moreover have "p = p\<lparr>rs_ranges := as @ c # bs\<rparr>" using rs by (cases p) simp
    moreover have "rset r \<subseteq> rset c" using False \<open>lo c \<le> lo r\<close> by auto
    ultimately show ?thesis using step wf by (intro exI [of _ c]) auto
  qed
qed

lemma insert_loop_3_step:
  assumes rs: "rs_ranges p = as @ c # y # bs" and wf: "ranges_wf (as @ c # y # bs)"
    and r: "mulle_range_is_valid r" "nonempty r" and "overlap c r" "overlap y r" "lo c \<le> lo r"
  shows "\<exists>c'. rangeset_insert_loop_3 p r (length as) =
      rangeset_insert_loop_3 (p\<lparr>rs_ranges := as @ c' # bs\<rparr>) r (length as) \<and>
    ranges_wf (as @ c' # bs) \<and> overlap c' r \<and> lo c' \<le> lo r \<and>
    ranges_set (as @ c' # bs) \<union> rset r = ranges_set (as @ c # y # bs) \<union> rset r"
proof -
  let ?c = "c\<lparr>range_length := mulle_range_get_max y - location c\<rparr>"
  have v: "mulle_range_is_valid c" "mulle_range_is_valid y" "lo c < hi c" "lo y < hi y" "hi c \<le> lo y"
    using wf by (auto simp: ranges_wf_split nonempty_iff)
  have o: "lo c < hi r" "lo r < hi c" "lo y < hi r" "lo r < hi y" "lo r < hi r"
    using assms(5,6) by (auto simp: overlap_def)
  have "range_length (mulle_range_intersect y r) \<noteq> 0"
    using assms v by (simp add: intersect_length_iff)
  then have "rangeset_insert_loop_3 p r (length as) =
      rangeset_insert_loop_3 (p\<lparr>rs_ranges := as @ ?c # bs\<rparr>) r (length as)"
    by (subst rangeset_insert_loop_3.simps)
      (simp add: rs Let_def nth_append uu_mulle__rangeset_move_down_pointer_def)
  moreover have c': "lo ?c = lo c" "hi ?c = hi y" using v by (simp_all add: unat64_sub)
  moreover have "ranges_wf (as @ ?c # bs)"
    using wf v c' by (auto simp: ranges_wf_split range_simps)
  moreover have "rset ?c \<union> rset r = rset c \<union> rset y \<union> rset r" using c' o v by auto
  ultimately show ?thesis using o v assms(7) by (intro exI [of _ ?c]) (auto simp: overlap_def)
qed

lemma insert_loop_3_spec:
  assumes "rs_ranges p = as @ c # bs" "ranges_wf (as @ c # bs)" "overlap c r" "lo c \<le> lo r"
    "mulle_range_is_valid r" "nonempty r"
  shows "\<exists>c' bs'. rangeset_insert_loop_3 p r (length as) = p\<lparr>rs_ranges := as @ c' # bs'\<rparr> \<and>
    ranges_wf (as @ c' # bs') \<and> length bs' \<le> length bs \<and>
    ranges_set (as @ c' # bs') = ranges_set (as @ c # bs) \<union> rset r"
  using assms
proof (induction bs arbitrary: p c)
  case Nil
  then show ?case using insert_loop_3_stop [of p as c "[]" r] by fastforce
next
  case (Cons y bs)
  show ?case
  proof (cases "overlap y r")
    case False
    with Cons.prems insert_loop_3_stop [of p as c "y # bs" r] show ?thesis by fastforce
  next
    case True
    with Cons.prems obtain x' where x': "rangeset_insert_loop_3 p r (length as) =
        rangeset_insert_loop_3 (p\<lparr>rs_ranges := as @ x' # bs\<rparr>) r (length as)"
      "ranges_wf (as @ x' # bs)" "overlap x' r" "lo x' \<le> lo r"
      "ranges_set (as @ x' # bs) \<union> rset r = ranges_set (as @ c # y # bs) \<union> rset r"
      using insert_loop_3_step [of p as c y bs r] by auto
    obtain c' bs' where "rangeset_insert_loop_3 (p\<lparr>rs_ranges := as @ x' # bs\<rparr>) r (length as) =
        p\<lparr>rs_ranges := as @ c' # bs'\<rparr>" "ranges_wf (as @ c' # bs')" "length bs' \<le> length bs"
      "ranges_set (as @ c' # bs') = ranges_set (as @ x' # bs) \<union> rset r"
      using Cons.IH [OF _ x'(2-4) Cons.prems(5,6), of "p\<lparr>rs_ranges := as @ x' # bs\<rparr>"] by auto
    with x'(1,5) show ?thesis by (intro exI [of _ c'] exI [of _ bs']) simp
  qed
qed

lemma insert_spec:
  assumes inv: "rangeset_inv p" and room: "length (rs_ranges p) < 2 ^ 58"
    and r: "mulle_range_is_valid r" "nonempty r"
  shows "\<exists>p'. uu_mulle__rangeset_insert p r = Some p' \<and> rangeset_inv p' \<and>
    rs_set p' = rs_set p \<union> rset r \<and> length (rs_ranges p') \<le> length (rs_ranges p) + 1"
proof (cases "mulle_range_intersects_bsearch (rs_ranges p) r")
  case None
  have wf: "ranges_wf (rs_ranges p)" using inv by (simp add: rangeset_inv_def)
  show ?thesis
    using insert_known_absent_spec [OF inv room r] ib.search_miss [OF wf r None] r None
    by (simp add: uu_mulle__rangeset_insert_def nonempty_def)
next
  case (Some i)
  have wf: "ranges_wf (rs_ranges p)" using inv by (simp add: rangeset_inv_def)
  obtain as c bs where split: "rs_ranges p = as @ c # bs" "length as = i" and o: "overlap c r"
    using ib.found_split [OF wf r Some] .
  have wfs: "ranges_wf (as @ c # bs)" using wf split by simp
  then have vc: "mulle_range_is_valid c" by (simp add: ranges_wf_split)
  show ?thesis
  proof (cases "mulle_range_contains c r")
    case True
    with r vc have "rset r \<subseteq> rset c" by (auto simp: contains_iff)
    with True Some split inv r show ?thesis
      by (auto simp: uu_mulle__rangeset_insert_def nonempty_def)
  next
    case False
    obtain as' c' where 2: "(if location r < location c
          then rangeset_insert_loop_2 p r (length as) else (p, length as)) =
        (p\<lparr>rs_ranges := as' @ c' # bs\<rparr>, length as')" "ranges_wf (as' @ c' # bs)"
      "lo c' \<le> lo r" "overlap c' r" "length as' \<le> length as"
      "ranges_set (as' @ c' # bs) \<union> rset r = ranges_set (as @ c # bs) \<union> rset r"
    proof (cases "location r < location c")
      case True
      with insert_loop_2_spec [OF split(1) wfs o r] that show thesis by auto
    next
      case False
      moreover have "p = p\<lparr>rs_ranges := as @ c # bs\<rparr>" using split by (cases p) simp
      ultimately show thesis using that [of as c] wfs o by (simp add: word_less_nat_alt)
    qed
    let ?p = "p\<lparr>rs_ranges := as' @ c' # bs\<rparr>"
    have res: "uu_mulle__rangeset_insert p r =
        Some (if hi c' < hi r then rangeset_insert_loop_3 ?p r (length as') else ?p)"
    proof -
      have "rs_ranges p ! i = c" "mulle_range_is_valid c'" using split 2(2) by (auto simp: ranges_wf_split)
      moreover note Some False r 2(1) [unfolded split(2)]
      ultimately show ?thesis
        by (simp add: uu_mulle__rangeset_insert_def nonempty_def Let_def word_less_nat_alt del: if_split)
    qed
    show ?thesis
    proof (cases "hi c' < hi r")
      case True
      obtain c'' bs' where 3: "rangeset_insert_loop_3 ?p r (length as') = ?p\<lparr>rs_ranges := as' @ c'' # bs'\<rparr>"
        "ranges_wf (as' @ c'' # bs')" "length bs' \<le> length bs"
        "ranges_set (as' @ c'' # bs') = ranges_set (as' @ c' # bs) \<union> rset r"
        using insert_loop_3_spec [OF _ 2(2,4,3) r, of ?p] by auto
      from res True 3(1) have "uu_mulle__rangeset_insert p r = Some (p\<lparr>rs_ranges := as' @ c'' # bs'\<rparr>)"
        by simp
      with 3 2(5,6) split inv show ?thesis by (simp add: rangeset_inv_def)
    next
      case False
      then have "rset r \<subseteq> rset c'" using 2(3) by auto
      with False 2(2,5,6) res split inv show ?thesis by (auto simp: rangeset_inv_def)
    qed
  qed
qed

section \<open>Correctness of the removal\<close>

text \<open>
  One round of the loop: the element that meets the range loses what it shares with the range, and
  the removal goes on with what is left.
\<close>

lemma remove_loop_none:
  "mulle_range_intersects_bsearch (rs_ranges p) r = None \<Longrightarrow> rangeset_remove_loop p r = Some p"
  by (subst rangeset_remove_loop.simps) simp

lemma remove_loop_round:
  assumes inv: "rangeset_inv p" and room: "length (rs_ranges p) < 2 ^ 58"
    and r: "mulle_range_is_valid r" "nonempty r"
    and found: "mulle_range_intersects_bsearch (rs_ranges p) r = Some i"
  obtains q where "rangeset_remove_loop p r = rangeset_remove_loop q r" "rangeset_inv q"
    "rs_set q = rs_set p - (rset (rs_ranges p ! i) \<inter> rset r)"
    "length (rs_ranges q) \<le> length (rs_ranges p) + 1"
    "rset r \<inter> rs_set q \<noteq> {} \<longrightarrow> length (rs_ranges q) \<le> length (rs_ranges p)"
proof -
  have wf: "ranges_wf (rs_ranges p)" using inv by (simp add: rangeset_inv_def)
  obtain as c bs where split: "rs_ranges p = as @ c # bs" "length as = i" and o: "overlap c r"
    using ib.found_split [OF wf r found] .
  have nth: "rs_ranges p ! i = c" using split by auto
  have wfs: "ranges_wf (as @ c # bs)" using wf split by simp
  then have v: "mulle_range_is_valid c" "lo c < hi c" by (auto simp: ranges_wf_split nonempty_iff)
  have o': "lo c < hi r" "lo r < hi c" "lo r < hi r" using o by (auto simp: overlap_def)
  have others: "rset r \<inter> ranges_set (as @ bs) = {}" if "lo c \<le> lo r" "hi r \<le> hi c"
    using wfs that by (force simp: ranges_set_def ranges_wf_split)
  have disj: "rset c \<inter> ranges_set (as @ bs) = {}"
    using wfs by (force simp: ranges_set_def ranges_wf_split)
  let ?front = "c\<lparr>range_length := location r - location c\<rparr>"
    and ?rear = "\<lparr>location = mulle_range_get_max r, range_length = mulle_range_get_max c - mulle_range_get_max r\<rparr>"
  have front_bounds: "lo ?front = lo c" "hi ?front = lo r" if "lo c < lo r"
    using that by (simp_all add: unat64_sub)
  have rear_bounds: "lo ?rear = hi r" "hi ?rear = hi c" if "hi r < hi c"
    using that v r by (simp_all add: unat64_sub)
  have front_wf: "ranges_wf (as @ ?front # bs)" if "lo c < lo r"
    using wfs front_bounds [OF that] that v o' by (force simp: ranges_wf_split range_simps)
  have unfold: "rangeset_remove_loop p r =
    (if lo r \<le> lo c \<and> hi c \<le> hi r then rangeset_remove_loop (p\<lparr>rs_ranges := as @ bs\<rparr>) r
     else if lo c < lo r \<and> hi r < hi c
     then Option.bind (uu_mulle__rangeset_insert_known_absent (p\<lparr>rs_ranges := as @ ?front # bs\<rparr>) ?rear)
       (\<lambda>p. rangeset_remove_loop p r)
     else if hi r < hi c then rangeset_remove_loop (p\<lparr>rs_ranges := as @ ?rear # bs\<rparr>) r
     else rangeset_remove_loop (p\<lparr>rs_ranges := as @ ?front # bs\<rparr>) r)"
    using found [unfolded split(1) split(2) [symmetric]] v r
    by (subst rangeset_remove_loop.simps)
      (simp add: split(1) contains_iff nonempty_iff Let_def word_less_nat_alt mulle_range_make_def
        uu_mulle__rangeset_move_down_pointer_def)
  consider (all) "lo r \<le> lo c" "hi c \<le> hi r" | (hole) "lo c < lo r" "hi r < hi c"
    | (rear) "lo r \<le> lo c" "hi r < hi c" | (front) "lo c < lo r" "hi c \<le> hi r" by linarith
  then show thesis
  proof cases
    case all
    moreover have "rset c \<subseteq> rset r" using all by auto
    ultimately show ?thesis using unfold disj inv split nth wfs
      by (intro that [of "p\<lparr>rs_ranges := as @ bs\<rparr>"]) (auto simp: rangeset_inv_def ranges_wf_split)
  next
    case hole
    let ?p = "p\<lparr>rs_ranges := as @ ?front # bs\<rparr>"
    from front_wf [OF hole(1)] inv split have inv': "rangeset_inv ?p" by (simp add: rangeset_inv_def)
    have "\<forall>x \<in> set (rs_ranges ?p). \<not> overlap x ?rear"
      using wfs front_bounds rear_bounds hole o' by (fastforce simp: overlap_def ranges_wf_split)
    then obtain q where q: "uu_mulle__rangeset_insert_known_absent ?p ?rear = Some q" "rangeset_inv q"
      "rs_set q = rs_set ?p \<union> rset ?rear" "length (rs_ranges q) \<le> length (rs_ranges p) + 1"
      using insert_known_absent_spec [OF inv', of ?rear] room split rear_bounds hole v
      by (auto simp: range_simps)
    have "rset c - rset c \<inter> rset r = rset ?front \<union> rset ?rear"
      using front_bounds rear_bounds hole o' by auto
    with q(3) split nth disj have set: "rs_set q = rs_set p - (rset (rs_ranges p ! i) \<inter> rset r)"
      by auto
    moreover have "rset r \<inter> rs_set q = {}"
      using set others hole split nth by auto
    ultimately show ?thesis using unfold q hole by (intro that [of q]) auto
  next
    case rear
    have "rset c - rset c \<inter> rset r = rset ?rear" using rear_bounds rear o' by auto
    moreover have "ranges_wf (as @ ?rear # bs)"
      using wfs rear_bounds rear v o' by (auto simp: ranges_wf_split range_simps)
    ultimately show ?thesis using unfold disj inv split nth rear
      by (intro that [of "p\<lparr>rs_ranges := as @ ?rear # bs\<rparr>"]) (auto simp: rangeset_inv_def)
  next
    case front
    have "rset c - rset c \<inter> rset r = rset ?front" using front_bounds front o' by auto
    moreover note front_wf [OF front(1)]
    ultimately show ?thesis using unfold disj inv split nth front
      by (intro that [of "p\<lparr>rs_ranges := as @ ?front # bs\<rparr>"]) (auto simp: rangeset_inv_def)
  qed
qed

lemma remove_loop_spec:
  assumes "rangeset_inv p" "length (rs_ranges p) < 2 ^ 58"
    and r: "mulle_range_is_valid r" "nonempty r"
  shows "\<exists>p'. rangeset_remove_loop p r = Some p' \<and> rangeset_inv p' \<and>
    rs_set p' = rs_set p - rset r \<and> length (rs_ranges p') \<le> length (rs_ranges p) + 1"
  using assms(1,2)
proof (induction "card (rs_set p \<inter> rset r)" arbitrary: p rule: less_induct)
  case less
  have wf: "ranges_wf (rs_ranges p)" using less.prems by (simp add: rangeset_inv_def)
  show ?case
  proof (cases "mulle_range_intersects_bsearch (rs_ranges p) r")
    case None
    then have "rs_set p \<inter> rset r = {}"
      using ib.search_miss [OF wf r None] by (auto simp: ranges_set_def overlap_iff_rset)
    then show ?thesis using less.prems remove_loop_none [OF None] by auto
  next
    case (Some i)
    obtain q where q: "rangeset_remove_loop p r = rangeset_remove_loop q r" "rangeset_inv q"
      "rs_set q = rs_set p - (rset (rs_ranges p ! i) \<inter> rset r)"
      "length (rs_ranges q) \<le> length (rs_ranges p) + 1"
      "rset r \<inter> rs_set q \<noteq> {} \<longrightarrow> length (rs_ranges q) \<le> length (rs_ranges p)"
      using remove_loop_round [OF less.prems r Some] .
    from q(3) have minus: "rs_set q - rset r = rs_set p - rset r" by blast
    have wfq: "ranges_wf (rs_ranges q)" using q(2) by (simp add: rangeset_inv_def)
    show ?thesis
    proof (cases "rset r \<inter> rs_set q = {}")
      case True
      then have "mulle_range_intersects_bsearch (rs_ranges q) r = None"
        using ib.found_iff [OF wfq r] by (auto simp: overlap_iff_rset ranges_set_def)
      then show ?thesis using q remove_loop_none minus True by auto
    next
      case False
      have "rset (rs_ranges p ! i) \<inter> rset r \<noteq> {}" "i < length (rs_ranges p)"
        using ib.search_hit [OF wf r Some] by (simp_all add: overlap_iff_rset)
      then have "rset (rs_ranges p ! i) \<inter> rset r \<noteq> {}" "rset (rs_ranges p ! i) \<subseteq> rs_set p"
        by (auto simp: ranges_set_def simp del: in_rset)
      then have "rs_set q \<inter> rset r \<subset> rs_set p \<inter> rset r" unfolding q(3) by blast
      then have "card (rs_set q \<inter> rset r) < card (rs_set p \<inter> rset r)"
        by (intro psubset_card_mono) (auto simp: rset_def)
      from less.hyps [OF this q(2)] q(1) q(5) False less.prems(2) minus show ?thesis
        by fastforce
    qed
  qed
qed

lemma remove_spec:
  assumes "rangeset_inv p" "length (rs_ranges p) < 2 ^ 58" "mulle_range_is_valid r"
  shows "\<exists>p'. u_mulle__rangeset_remove p r = Some p' \<and> rangeset_inv p' \<and>
    rs_set p' = rs_set p - rset r \<and> length (rs_ranges p') \<le> length (rs_ranges p) + 1"
proof (cases "nonempty r")
  case True
  with remove_loop_spec [OF assms True] assms(3) show ?thesis
    by (simp add: u_mulle__rangeset_remove_def uu_mulle__rangeset_remove_def nonempty_def)
next
  case False
  then have "rset r = {}" by (auto simp: nonempty_iff)
  with False assms show ?thesis by (simp add: u_mulle__rangeset_remove_def nonempty_def)
qed

section \<open>Bulk operations\<close>

text \<open>
  The bulk operations fold a single-range operation over an array. The interface names what they
  rely on: a step that succeeds while there is room, keeps the invariant, has the effect \<open>eff\<close> on
  the abstract set and adds at most one array element.
\<close>

locale bulk_update =
  fixes step :: "'s \<Rightarrow> 'r \<Rightarrow> 's option"
    and bulk :: "'s \<Rightarrow> 'r list \<Rightarrow> 's option"
    and inv :: "'s \<Rightarrow> bool"
    and used :: "'s \<Rightarrow> nat"
    and abst :: "'s \<Rightarrow> 'a set"
    and eff :: "'r \<Rightarrow> 'a set \<Rightarrow> 'a set"
    and cap :: nat
  assumes step_law:
      "inv p \<Longrightarrow> used p < cap \<Longrightarrow>
       \<exists>p'. step p r = Some p' \<and> inv p' \<and> abst p' = eff r (abst p) \<and> used p' \<le> used p + 1"
    and bulk_Nil: "bulk p [] = Some p"
    and bulk_Cons: "bulk p (r # rs) = Option.bind (step p r) (\<lambda>p. bulk p rs)"
begin

lemma bulk_spec:
  assumes "inv p" "used p + length rs \<le> cap"
  shows "\<exists>p'. bulk p rs = Some p' \<and> inv p' \<and> abst p' = fold eff rs (abst p) \<and>
    used p' \<le> used p + length rs"
  using assms
proof (induction rs arbitrary: p)
  case Nil
  then show ?case by (simp add: bulk_Nil)
next
  case (Cons r rs)
  then obtain q where q: "step p r = Some q" "inv q" "abst q = eff r (abst p)" "used q \<le> used p + 1"
    using step_law [of p r] by auto
  with Cons.IH [of q] Cons.prems show ?case by (fastforce simp: bulk_Cons)
qed

end

definition range_add :: "mulle_range \<Rightarrow> nat set \<Rightarrow> nat set" where
  "range_add r A = (if mulle_range_is_valid r then A \<union> rset r else A)"

definition range_sub :: "mulle_range \<Rightarrow> nat set \<Rightarrow> nat set" where
  "range_sub r A = (if mulle_range_is_valid r then A - rset r else A)"

abbreviation rs_used :: "mulle__rangeset \<Rightarrow> nat" where
  "rs_used p \<equiv> length (rs_ranges p)"

lemma insert_any_spec:
  assumes "rangeset_inv p" "rs_used p < 2 ^ 58"
  shows "\<exists>p'. uu_mulle__rangeset_insert p r = Some p' \<and> rangeset_inv p' \<and>
    rs_set p' = range_add r (rs_set p) \<and> rs_used p' \<le> rs_used p + 1"
proof (cases "nonempty r \<and> mulle_range_is_valid r")
  case True
  with insert_spec [OF assms] show ?thesis by (simp add: range_add_def)
next
  case False
  then have "rset r = {}" if "mulle_range_is_valid r" using that by (auto simp: nonempty_iff)
  with False assms show ?thesis
    by (auto simp: uu_mulle__rangeset_insert_def range_add_def nonempty_def)
qed

lemma remove_any_spec:
  assumes "rangeset_inv p" "rs_used p < 2 ^ 58"
  shows "\<exists>p'. uu_mulle__rangeset_remove p r = Some p' \<and> rangeset_inv p' \<and>
    rs_set p' = range_sub r (rs_set p) \<and> rs_used p' \<le> rs_used p + 1"
proof (cases "nonempty r \<and> mulle_range_is_valid r")
  case True
  with remove_loop_spec [OF assms] show ?thesis
    by (simp add: uu_mulle__rangeset_remove_def range_sub_def nonempty_def)
next
  case False
  then have "rset r = {}" if "mulle_range_is_valid r" using that by (auto simp: nonempty_iff)
  with False assms show ?thesis
    by (auto simp: uu_mulle__rangeset_remove_def range_sub_def nonempty_def)
qed

interpretation bi: bulk_update uu_mulle__rangeset_insert u_mulle__rangeset_insert_ranges
    rangeset_inv rs_used rs_set range_add "2 ^ 58"
  by unfold_locales (use insert_any_spec in blast, simp_all)

interpretation br: bulk_update uu_mulle__rangeset_remove rangeset_remove_ranges_loop
    rangeset_inv rs_used rs_set range_sub "2 ^ 58"
  by unfold_locales (use remove_any_spec in blast, simp_all)

lemma fold_range_add: "ranges_wf rs \<Longrightarrow> fold range_add rs A = A \<union> ranges_set rs"
  by (induction rs arbitrary: A) (auto simp: range_add_def ranges_wf_Cons)

lemma fold_range_sub: "ranges_wf rs \<Longrightarrow> fold range_sub rs A = A - ranges_set rs"
  by (induction rs arbitrary: A) (auto simp: range_sub_def ranges_wf_Cons)

subsection \<open>Shrinking\<close>

lemma shrink_loop_bounds:
  "len \<le> unat s \<Longrightarrow> len \<le> unat (rangeset_shrink_loop len s) \<and> rangeset_shrink_loop len s \<le> s"
proof (induction len s rule: rangeset_shrink_loop.induct)
  case (1 len s)
  have half: "s div 2 \<le> s" by (simp add: word_le_nat_alt unat_div)
  show ?case
  proof (cases "s div 2 > 2 \<and> s div 2 \<ge> of_nat len")
    case True
    have "unat (of_nat len :: 64 word) = len"
      using 1(2) unat64_less [of s] by (simp add: unat64_of_nat)
    with True have "len \<le> unat (s div 2)" by (simp add: word_le_nat_alt)
    with 1(1) [OF refl True] half True show ?thesis
      by (subst (1 2) rangeset_shrink_loop.simps) (auto simp: Let_def)
  next
    case False
    with 1(2) show ?thesis by (subst (1 2) rangeset_shrink_loop.simps) (auto simp: Let_def)
  qed
qed

lemma shrink_spec:
  assumes "rangeset_inv p"
  shows "rangeset_inv (u_mulle__rangeset_shrink p) \<and>
    rs_ranges (u_mulle__rangeset_shrink p) = rs_ranges p \<and>
    rs_size (u_mulle__rangeset_shrink p) \<le> rs_size p"
  using assms shrink_loop_bounds [of "rs_used p" "rs_size p"]
  by (auto simp: u_mulle__rangeset_shrink_def rangeset_inv_def Let_def)

section \<open>Searching\<close>

text \<open>
  A location splits the array: \<open>as\<close> lies below it, \<open>bs\<close> above, and at most one range in between
  holds it.
\<close>

lemma nearest_cases:
  assumes wf: "ranges_wf (rs_ranges p)" and loc: "loc \<le> mulle_range_location_max"
  obtains (empty) "rs_ranges p = []" "u_mulle__rangeset_search_nearest_p p loc = None"
  | (inside) as c bs where "rs_ranges p = as @ c # bs" "unat loc \<in> rset c"
      "u_mulle__rangeset_search_nearest_p p loc = Some (length as)"
  | (below) as c bs where "rs_ranges p = as @ c # bs" "hi c \<le> unat loc" "\<forall>x \<in> set bs. unat loc < lo x"
      "u_mulle__rangeset_search_nearest_p p loc = Some (length as)"
  | (above) as c bs where "rs_ranges p = as @ c # bs" "unat loc < lo c" "\<forall>x \<in> set as. hi x \<le> unat loc"
      "u_mulle__rangeset_search_nearest_p p loc = Some (length as)"
proof -
  let ?rs = "rs_ranges p" and ?r = "mulle_range_make loc 1"
  have r: "mulle_range_is_valid ?r" "nonempty ?r"
    using loc by (simp_all add: valid_iff nonempty_iff word_le_nat_alt)
  have one: "overlap x ?r \<longleftrightarrow> unat loc \<in> rset x" for x by (auto simp: overlap_def)
  show thesis
  proof (cases "mulle_range_intersects_bsearch ?rs ?r")
    case (Some i)
    then obtain as c bs where "?rs = as @ c # bs" "length as = i" "overlap c ?r"
      using ib.found_split [OF wf r] by metis
    with inside Some one show thesis
      by (auto simp: u_mulle__rangeset_search_nearest_p_def Let_def)
  next
    case None
    note miss = ib.search_miss [OF wf r None]
    show thesis
    proof (cases "?rs = []")
      case True
      with empty None show thesis by (simp add: u_mulle__rangeset_search_nearest_p_def)
    next
      case False
      obtain as bs where split: "?rs = as @ bs" "length as = u_mulle_range_hole_bsearch ?rs loc"
        "\<forall>x \<in> set as. hi x \<le> unat loc" "\<forall>x \<in> set bs. unat loc < lo x"
        using known_absent_list [OF wf r] miss by (auto simp: mulle_range_make_def Suc_le_eq)
      let ?i = "if bs = [] then length as - 1 else length as"
      have near: "u_mulle__rangeset_search_nearest_p p loc =
          (if ?i \<noteq> 0 \<and> mulle_range_distance_to_location (?rs ! ?i) loc >
             mulle_range_distance_to_location (?rs ! (?i - 1)) loc then Some (?i - 1) else Some ?i)"
        using None False split(2) [symmetric] split(1)
        by (simp add: u_mulle__rangeset_search_nearest_p_def Let_def)
      show thesis
      proof (cases bs)
        case Nil
        with False split obtain as' c where as: "as = as' @ [c]" by (cases as rule: rev_cases) auto
        have "\<not> mulle_range_distance_to_location (?rs ! ?i) loc >
            mulle_range_distance_to_location (?rs ! (?i - 1)) loc" if ne: "as' \<noteq> []"
        proof -
          obtain as'' x where "as' = as'' @ [x]" using ne by (cases as' rule: rev_cases) auto
          with wf split Nil as show ?thesis
            by (auto simp: word_less_nat_alt distance_to_location ranges_wf_split nth_append nonempty_iff)
        qed
        then have "u_mulle__rangeset_search_nearest_p p loc = Some (length as')"
          using near Nil as by auto
        with below [of as' c "[]"] split Nil as show thesis by auto
      next
        case (Cons y bs')
        show thesis
        proof (cases as rule: rev_cases)
          case Nil
          with above [of "[]" y bs'] near split Cons show thesis by auto
        next
          case (snoc as' x)
          with below [of as' x "y # bs'"] above [of as y bs'] near split Cons show thesis
            by (auto split: if_splits)
        qed
      qed
    qed
  qed
qed

text \<open>The ranges next to a location, as the least upper and greatest lower members of the set.\<close>

lemma Max_below:
  assumes "ranges_wf (as @ c # bs)" "lo c < l" "\<forall>x \<in> set bs. l \<le> lo x"
  shows "Max {x \<in> ranges_set (as @ c # bs). x < l} = min (l - 1) (hi c - 1)"
    "{x \<in> ranges_set (as @ c # bs). x < l} \<noteq> {}"
proof -
  have c: "lo c < hi c" "\<forall>a \<in> set as. hi a \<le> lo c" using assms(1) by (auto simp: ranges_wf_split nonempty_iff)
  have fin: "finite {x \<in> ranges_set (as @ c # bs). x < l}" by simp
  have mem: "min (l - 1) (hi c - 1) \<in> {x \<in> ranges_set (as @ c # bs). x < l}"
    using c assms(2) by auto
  have "x \<le> min (l - 1) (hi c - 1)" if "x \<in> {x \<in> ranges_set (as @ c # bs). x < l}" for x
    using that c assms(3) by (force simp: ranges_set_def)
  then show "Max {x \<in> ranges_set (as @ c # bs). x < l} = min (l - 1) (hi c - 1)"
    using Max_eqI [OF fin _ mem] by blast
  show "{x \<in> ranges_set (as @ c # bs). x < l} \<noteq> {}" using mem by blast
qed

lemma Min_above:
  assumes "ranges_wf (as @ c # bs)" "l + 1 < hi c" "\<forall>x \<in> set as. hi x \<le> l + 1"
  shows "Min {x \<in> ranges_set (as @ c # bs). l < x} = max (l + 1) (lo c)"
    "{x \<in> ranges_set (as @ c # bs). l < x} \<noteq> {}"
proof -
  have c: "lo c < hi c" "\<forall>b \<in> set bs. hi c \<le> lo b" using assms(1) by (auto simp: ranges_wf_split nonempty_iff)
  have fin: "finite {x \<in> ranges_set (as @ c # bs). l < x}"
    by (rule finite_subset [of _ "ranges_set (as @ c # bs)"]) (auto simp: ranges_set_def rset_def)
  have mem: "max (l + 1) (lo c) \<in> {x \<in> ranges_set (as @ c # bs). l < x}"
    using c assms(2) by auto
  have "max (l + 1) (lo c) \<le> x" if "x \<in> {x \<in> ranges_set (as @ c # bs). l < x}" for x
    using that c assms(3) by (force simp: ranges_set_def)
  then show "Min {x \<in> ranges_set (as @ c # bs). l < x} = max (l + 1) (lo c)"
    using Min_eqI [OF fin _ mem] by blast
  show "{x \<in> ranges_set (as @ c # bs). l < x} \<noteq> {}" using mem by blast
qed

lemma search_range_less:
  assumes wf: "ranges_wf (rs_ranges p)" and loc: "loc \<le> mulle_range_location_max" "loc \<noteq> 0"
  obtains (none) "\<forall>x \<in> set (rs_ranges p). unat loc \<le> lo x"
      "u_mulle__rangeset_search_range p loc mulle_rangeset_less_than = mulle_range_make_invalid"
  | (some) as c bs where "rs_ranges p = as @ c # bs" "lo c < unat loc" "\<forall>x \<in> set bs. unat loc \<le> lo x"
      "u_mulle__rangeset_search_range p loc mulle_rangeset_less_than = c"
proof -
  let ?rs = "rs_ranges p"
  have ev: "u_mulle__rangeset_search_range p loc mulle_rangeset_less_than =
      (case u_mulle__rangeset_search_nearest_p p loc of None \<Rightarrow> mulle_range_make_invalid
       | Some cur \<Rightarrow> if unat loc \<le> lo (?rs ! cur) \<and> range_length (?rs ! cur) \<noteq> 0
           then (if cur = 0 then mulle_range_make_invalid else ?rs ! (cur - 1)) else ?rs ! cur)"
    using loc(2) by (simp add: u_mulle__rangeset_search_range_def mulle_rangeset_less_than_def
        mulle_rangeset_equal_def mulle_range_greater_than_or_equal_to_location_def word_le_nat_alt
        Let_def split: option.split)
  from wf loc(1) show thesis
  proof (cases rule: nearest_cases)
    case empty
    with ev show thesis by (intro none) auto
  next
    case (below as c bs)
    with wf have "lo c < unat loc" by (auto simp: ranges_wf_split nonempty_iff)
    with below ev show thesis by (intro some [of as c bs]) auto
  next
    case (inside as c bs)
    have bs: "\<forall>x \<in> set bs. unat loc \<le> lo x"
      using wf inside by (auto simp: ranges_wf_split)
    show thesis
    proof (cases "lo c < unat loc")
      case True
      with inside bs ev show thesis by (intro some [of as c bs]) auto
    next
      case False
      then have eq: "lo c = unat loc" using inside by simp
      have ne: "range_length c \<noteq> 0" using wf inside by (auto simp: ranges_wf_split nonempty_def)
      show thesis
      proof (cases as rule: rev_cases)
        case Nil
        with inside bs eq ne ev show thesis by (intro none) auto
      next
        case (snoc as' y)
        with wf inside have "lo y < unat loc" "\<forall>x \<in> set (c # bs). unat loc \<le> lo x"
          using eq bs by (auto simp: ranges_wf_split nonempty_iff)
        with snoc inside eq ne ev show thesis by (intro some [of as' y "c # bs"]) (auto simp: nth_append)
      qed
    qed
  next
    case (above as c bs)
    have ne: "range_length c \<noteq> 0" using wf above by (auto simp: ranges_wf_split nonempty_def)
    have bs: "\<forall>x \<in> set (c # bs). unat loc \<le> lo x"
      using wf above lo_le_hi [of c] by (force simp: ranges_wf_split)
    show thesis
    proof (cases as rule: rev_cases)
      case Nil
      with above bs ne ev show thesis by (intro none) auto
    next
      case (snoc as' y)
      with wf above have "lo y < unat loc" by (auto simp: ranges_wf_split nonempty_iff)
      with snoc above ne bs ev show thesis by (intro some [of as' y "c # bs"]) (auto simp: nth_append)
    qed
  qed
qed

lemma search_less_spec:
  assumes wf: "ranges_wf (rs_ranges p)" and loc: "loc \<le> mulle_range_location_max"
  shows "if {x \<in> rs_set p. x < unat loc} = {}
    then u_mulle__rangeset_search_location p loc mulle_rangeset_less_than = mulle_not_found_e
    else unat (u_mulle__rangeset_search_location p loc mulle_rangeset_less_than) =
      Max {x \<in> rs_set p. x < unat loc}"
proof (cases "loc = 0")
  case True
  then show ?thesis
    by (auto simp: u_mulle__rangeset_search_location_def mulle_rangeset_less_than_def
        mulle_rangeset_equal_def mulle_rangeset_greater_than_def Let_def)
next
  case False
  then have pred: "unat (loc - 1) = unat loc - 1" "0 < unat loc"
    by (simp_all add: unat_minus_one unat_gt_0)
  from wf loc False show ?thesis
  proof (cases rule: search_range_less)
    case none
    then have "{x \<in> rs_set p. x < unat loc} = {}" by (force simp: ranges_set_def)
    with none show ?thesis
      by (simp add: u_mulle__rangeset_search_location_def valid_iff)
  next
    case (some as c bs)
    have c: "mulle_range_is_valid c" "nonempty c" "lo c < hi c"
      using wf some by (auto simp: ranges_wf_split nonempty_iff)
    have "u_mulle__rangeset_search_location p loc mulle_rangeset_less_than =
        (if unat loc - 1 < hi c then loc - 1 else mulle_range_get_last_location c)"
      using some c pred False
      by (auto simp: u_mulle__rangeset_search_location_def contains_location_iff
          mulle_rangeset_less_than_def mulle_rangeset_equal_def)
    then have "unat (u_mulle__rangeset_search_location p loc mulle_rangeset_less_than) =
        min (unat loc - 1) (hi c - 1)"
      using c pred by auto
    with Max_below [of as c bs "unat loc"] some wf show ?thesis by auto
  qed
qed

lemma search_range_greater:
  assumes wf: "ranges_wf (rs_ranges p)" and loc: "loc < mulle_range_location_max"
  obtains (none) "\<forall>x \<in> set (rs_ranges p). hi x \<le> unat loc + 1"
      "u_mulle__rangeset_search_range p loc mulle_rangeset_greater_than = mulle_range_make_invalid"
  | (some) as c bs where "rs_ranges p = as @ c # bs" "unat loc + 1 < hi c"
      "\<forall>x \<in> set as. hi x \<le> unat loc + 1"
      "u_mulle__rangeset_search_range p loc mulle_rangeset_greater_than = c"
proof -
  let ?rs = "rs_ranges p"
  have ev: "u_mulle__rangeset_search_range p loc mulle_rangeset_greater_than =
      (case u_mulle__rangeset_search_nearest_p p loc of None \<Rightarrow> mulle_range_make_invalid
       | Some cur \<Rightarrow> if mulle_range_less_than_or_equal_to_location (?rs ! cur) loc
           then (if cur + 1 = length ?rs then mulle_range_make_invalid else ?rs ! (cur + 1)) else ?rs ! cur)"
    using loc by (simp add: u_mulle__rangeset_search_range_def mulle_rangeset_greater_than_def
        mulle_rangeset_equal_def mulle_rangeset_less_than_def split: option.split)
  have le: "mulle_range_less_than_or_equal_to_location c loc \<longleftrightarrow> hi c \<le> unat loc + 1"
    if "c \<in> set ?rs" for c
    using wf that by (auto simp: mulle_range_less_than_or_equal_to_location_def ranges_wf_def
        word_le_nat_alt nonempty_def)
  have loc': "loc \<le> mulle_range_location_max" using loc by simp
  have up: thesis if s: "?rs = as @ c # bs" "hi c \<le> unat loc + 1" "\<forall>x \<in> set bs. unat loc < lo x"
    "u_mulle__rangeset_search_nearest_p p loc = Some (length as)" for as c bs
  proof (cases bs)
    case Nil
    have "\<forall>x \<in> set ?rs. hi x \<le> unat loc + 1"
      using wf s Nil lo_le_hi [of c] by (force simp: ranges_wf_split)
    with s Nil ev le [of c] show thesis by (intro none) auto
  next
    case (Cons y bs')
    have "\<forall>x \<in> set (as @ [c]). hi x \<le> unat loc + 1"
      using wf s lo_le_hi [of c] by (force simp: ranges_wf_split)
    moreover have "unat loc + 1 < hi y" using wf s Cons by (auto simp: ranges_wf_split nonempty_iff)
    ultimately show thesis using s Cons ev le [of c]
      by (intro some [of "as @ [c]" y bs']) (auto simp: nth_append)
  qed
  from wf loc' show thesis
  proof (cases rule: nearest_cases)
    case empty
    with ev show thesis by (intro none) auto
  next
    case (below as c bs)
    then show thesis by (intro up [of as c bs]) auto
  next
    case (inside as c bs)
    show thesis
    proof (cases "hi c \<le> unat loc + 1")
      case True
      then have "\<forall>x \<in> set bs. unat loc < lo x"
        using wf inside by (force simp: ranges_wf_split)
      with True inside show thesis by (intro up [of as c bs]) auto
    next
      case False
      moreover have "\<forall>x \<in> set as. hi x \<le> unat loc + 1"
        using wf inside by (force simp: ranges_wf_split)
      ultimately show thesis using inside ev le [of c] by (intro some [of as c bs]) auto
    qed
  next
    case (above as c bs)
    then have "unat loc + 1 < hi c" using wf by (auto simp: ranges_wf_split nonempty_iff)
    with above ev le [of c] show thesis by (intro some [of as c bs]) auto
  qed
qed

lemma search_greater_spec:
  assumes wf: "ranges_wf (rs_ranges p)" and loc: "loc \<le> mulle_range_location_max"
  shows "if {x \<in> rs_set p. unat loc < x} = {}
    then u_mulle__rangeset_search_location p loc mulle_rangeset_greater_than = mulle_not_found_e
    else unat (u_mulle__rangeset_search_location p loc mulle_rangeset_greater_than) =
      Min {x \<in> rs_set p. unat loc < x}"
proof (cases "loc < mulle_range_location_max")
  case False
  then have "unat loc = range_top - 1" using loc by (simp add: word_order_unat)
  then have "{x \<in> rs_set p. unat loc < x} = {}"
    using wf by (force simp: ranges_set_def ranges_wf_def valid_iff)
  then show ?thesis using False
    by (auto simp: u_mulle__rangeset_search_location_def mulle_rangeset_greater_than_def
        mulle_rangeset_equal_def mulle_rangeset_less_than_def Let_def)
next
  case True
  then have "unat loc < range_top - 1" by (simp add: word_less_nat_alt)
  then have succ: "unat (loc + 1) = unat loc + 1" by (simp add: unat64_add)
  from wf True show ?thesis
  proof (cases rule: search_range_greater)
    case none
    then have "{x \<in> rs_set p. unat loc < x} = {}" by (force simp: ranges_set_def)
    with none show ?thesis
      by (simp add: u_mulle__rangeset_search_location_def valid_iff)
  next
    case (some as c bs)
    have c: "mulle_range_is_valid c" using wf some by (auto simp: ranges_wf_split)
    have "u_mulle__rangeset_search_location p loc mulle_rangeset_greater_than =
        (if lo c \<le> unat loc + 1 then loc + 1 else location c)"
      using some c succ True
      by (auto simp: u_mulle__rangeset_search_location_def contains_location_iff
          mulle_rangeset_less_than_def mulle_rangeset_greater_than_def mulle_rangeset_equal_def
          mulle_range_get_min_def)
    then have "unat (u_mulle__rangeset_search_location p loc mulle_rangeset_greater_than) =
        max (unat loc + 1) (lo c)"
      using succ by auto
    with Min_above [of as c bs "unat loc"] some wf show ?thesis by auto
  qed
qed

lemma nearest_less:
  assumes "ranges_wf (rs_ranges p)" "loc \<le> mulle_range_location_max"
    and near: "u_mulle__rangeset_search_nearest_p p loc = Some cur"
  shows "cur < length (rs_ranges p)"
  using assms(1,2) by (cases rule: nearest_cases) (use near in auto)

lemma nearest_member:
  assumes wf: "ranges_wf (rs_ranges p)" and loc: "loc \<le> mulle_range_location_max"
    and mem: "unat loc \<in> rs_set p"
  obtains cur where "u_mulle__rangeset_search_nearest_p p loc = Some cur" "cur < length (rs_ranges p)"
    "unat loc \<in> rset (rs_ranges p ! cur)"
  using wf loc
proof (cases rule: nearest_cases)
  case empty
  with mem show thesis by simp
next
  case (inside as c bs)
  with that show thesis by simp
next
  case (below as c bs)
  have "\<forall>x \<in> set as. hi x \<le> lo c" using wf below(1) by (simp add: ranges_wf_split)
  then have "unat loc \<notin> rs_set p"
    using below(1-3) lo_le_hi [of c] unfolding ranges_set_def by fastforce
  with mem show thesis by blast
next
  case (above as c bs)
  have "\<forall>x \<in> set bs. hi c \<le> lo x" using wf above(1) by (simp add: ranges_wf_split)
  then have "unat loc \<notin> rs_set p"
    using above(1-3) lo_le_hi [of c] unfolding ranges_set_def by fastforce
  with mem show thesis by blast
qed

lemma if_memI: "(b \<Longrightarrow> x \<in> S) \<Longrightarrow> (\<not> b \<Longrightarrow> y \<in> S) \<Longrightarrow> (if b then x else y) \<in> S"
  by simp

lemma search_range_mem:
  assumes wf: "ranges_wf (rs_ranges p)" and loc: "loc \<le> mulle_range_location_max"
  shows "u_mulle__rangeset_search_range p loc op \<in> insert mulle_range_make_invalid (set (rs_ranges p))"
proof (cases "u_mulle__rangeset_search_nearest_p p loc")
  case None
  then show ?thesis by (simp add: u_mulle__rangeset_search_range_def)
next
  case (Some cur)
  have "cur < length (rs_ranges p)" using nearest_less [OF assms Some] .
  then have "rs_ranges p ! cur \<in> set (rs_ranges p)" "rs_ranges p ! (cur - 1) \<in> set (rs_ranges p)"
    "cur + 1 \<noteq> length (rs_ranges p) \<Longrightarrow> rs_ranges p ! (cur + 1) \<in> set (rs_ranges p)"
    by simp_all
  then show ?thesis
    unfolding u_mulle__rangeset_search_range_def Some option.case Let_def by (intro if_memI) simp_all
qed

lemma search_equal_bit:
  assumes wf: "ranges_wf (rs_ranges p)" and loc: "loc \<le> mulle_range_location_max"
    and op: "op AND mulle_rangeset_equal \<noteq> 0"
  shows "u_mulle__rangeset_search_location p loc op =
    (if unat loc \<in> rs_set p then loc
     else u_mulle__rangeset_search_location p loc (op AND NOT mulle_rangeset_equal))"
proof -
  let ?rs = "rs_ranges p"
  have off: "(op AND NOT mulle_rangeset_equal) AND mulle_rangeset_equal = 0"
    by (simp add: and.assoc)
  have valid: "mulle_range_is_valid x" if "x \<in> set ?rs" for x using wf that by (simp add: ranges_wf_def)
  show ?thesis
  proof (cases "unat loc \<in> rs_set p")
    case True
    obtain cur where "u_mulle__rangeset_search_nearest_p p loc = Some cur" "cur < length ?rs"
      "unat loc \<in> rset (?rs ! cur)"
      using nearest_member [OF wf loc True] .
    with op valid [of "?rs ! cur"] True show ?thesis
      by (simp add: u_mulle__rangeset_search_location_def u_mulle__rangeset_search_range_def
          contains_location_iff Let_def)
  next
    case False
    then have no: "\<not> mulle_range_contains_location x loc" if "x \<in> set ?rs" for x
      using that valid by (auto simp: contains_location_iff ranges_set_def)
    have inv: "\<not> mulle_range_is_valid mulle_range_make_invalid" by (simp add: valid_iff)
    have "u_mulle__rangeset_search_range p loc op =
        u_mulle__rangeset_search_range p loc (op AND NOT mulle_rangeset_equal)"
      using op off no nearest_less [OF wf loc]
      by (cases "u_mulle__rangeset_search_nearest_p p loc")
        (simp_all add: u_mulle__rangeset_search_range_def Let_def split del: if_split)
    moreover have "\<not> mulle_range_contains_location
        (u_mulle__rangeset_search_range p loc (op AND NOT mulle_rangeset_equal)) loc"
      if "mulle_range_is_valid (u_mulle__rangeset_search_range p loc (op AND NOT mulle_rangeset_equal))"
      using search_range_mem [OF wf loc, of "op AND NOT mulle_rangeset_equal"] no inv that by auto
    ultimately show ?thesis using False op off
      by (cases "mulle_range_is_valid (u_mulle__rangeset_search_range p loc (op AND NOT mulle_rangeset_equal))")
        (simp_all add: u_mulle__rangeset_search_location_def Let_def split del: if_split)
  qed
qed

lemma search_nothing: "u_mulle__rangeset_search_location p loc 0 = mulle_not_found_e"
  by (simp add: u_mulle__rangeset_search_location_def Let_def mulle_rangeset_less_than_def
      mulle_rangeset_greater_than_def)

section \<open>Totals\<close>

lemma sum_lengths_fold:
  "ranges_wf rs \<Longrightarrow> unat a + card (ranges_set rs) < 2 ^ 64 \<Longrightarrow>
   unat (fold (\<lambda>cur len. len + range_length cur) rs a) = unat a + card (ranges_set rs)"
proof (induction rs arbitrary: a)
  case (Cons r rs)
  have fin: "finite (ranges_set rs)" by (auto simp: ranges_set_def rset_def)
  have "rset r \<inter> ranges_set rs = {}" using Cons.prems(1) by (force simp: ranges_wf_Cons ranges_set_def)
  then have card: "card (ranges_set (r # rs)) = (hi r - lo r) + card (ranges_set rs)"
    using fin by (simp add: card_Un_disjoint rset_def)
  then have "unat (a + range_length r) = unat a + (hi r - lo r)"
    using Cons.prems(2) by (simp add: unat64_add)
  with Cons.IH [of "a + range_length r"] Cons.prems card show ?case
    by (simp add: ranges_wf_Cons)
qed simp

lemma rs_set_bounded:
  assumes "ranges_wf rs" shows "ranges_set rs \<subseteq> {..<range_top}"
  using assms by (force simp: ranges_set_def ranges_wf_def valid_iff)

section \<open>Properties\<close>

text \<open>
  C12. Inserting a valid range into a well-formed range set succeeds, keeps the array sorted, disjoint
  and within its capacity, and adds exactly the locations of the range, however many stored ranges
  it touches, swallows or bridges. An empty or invalid range changes nothing.
\<close>

theorem mulle__rangeset_insert_spec:
  assumes "rangeset_inv p" "length (rs_ranges p) < 2 ^ 58"
  shows "\<exists>p'. u_mulle__rangeset_insert p r = Some p' \<and> rangeset_inv p' \<and>
    rs_set p' = (if mulle_range_is_valid r then rs_set p \<union> rset r else rs_set p) \<and>
    length (rs_ranges p') \<le> length (rs_ranges p) + 1"
proof (cases "range_length r = 0 \<or> \<not> mulle_range_is_valid r")
  case True
  then have "rset r = {}" if "mulle_range_is_valid r" using that by (auto simp: length_eq_0_iff)
  with True assms show ?thesis by (auto simp: u_mulle__rangeset_insert_def)
next
  case False
  with insert_any_spec [OF assms, of r] show ?thesis
    by (simp add: u_mulle__rangeset_insert_def range_add_def)
qed

theorem mulle__rangeset_insert_spec_witness:
  "\<exists>p'. u_mulle__rangeset_insert
      \<lparr>rs_ranges = [mulle_range_make 0 5, mulle_range_make 10 5], rs_static = False, rs_size = 2\<rparr>
      (mulle_range_make 3 9) = Some p' \<and> rs_set p' = {0..<15}"
proof -
  let ?p = "\<lparr>rs_ranges = [mulle_range_make 0 5, mulle_range_make 10 5], rs_static = False, rs_size = 2\<rparr>"
    and ?r = "mulle_range_make 3 9"
  have "rangeset_inv ?p" "length (rs_ranges ?p) < 2 ^ 58"
    by (simp_all add: rangeset_inv_def ranges_wf_def range_simps)
  note spec = mulle__rangeset_insert_spec [OF this, of ?r]
  have "mulle_range_is_valid ?r" by (simp add: valid_iff)
  moreover have "rset (mulle_range_make 0 5) \<union> (rset (mulle_range_make 10 5)) \<union> rset ?r = {0..<15}"
    by auto
  ultimately show ?thesis using spec by (simp add: Un_assoc, blast)
qed

text \<open>
  C13. The removal loop returns, and the range set then holds exactly the locations that were not in
  the removed range: elements inside it disappear, elements at its borders are trimmed, and an
  element around it is split in two. The invariant of the array is kept.
\<close>

theorem mulle__rangeset_remove_spec:
  assumes "rangeset_inv p" "length (rs_ranges p) < 2 ^ 58" "mulle_range_is_valid r"
  shows "\<exists>p'. u_mulle__rangeset_remove p r = Some p' \<and> rangeset_inv p' \<and>
    rs_set p' = rs_set p - rset r \<and> length (rs_ranges p') \<le> length (rs_ranges p) + 1"
  using remove_spec [OF assms] .

theorem mulle__rangeset_remove_spec_witness:
  "\<exists>p'. u_mulle__rangeset_remove
      \<lparr>rs_ranges = [mulle_range_make 0 9], rs_static = False, rs_size = 1\<rparr>
      (mulle_range_make 3 2) = Some p' \<and> rs_set p' = {0..<3} \<union> {5..<9}"
proof -
  let ?p = "\<lparr>rs_ranges = [mulle_range_make 0 9], rs_static = False, rs_size = 1\<rparr>"
  have "rangeset_inv ?p" "length (rs_ranges ?p) < 2 ^ 58" "mulle_range_is_valid (mulle_range_make 3 2)"
    by (simp_all add: rangeset_inv_def ranges_wf_def range_simps)
  from mulle__rangeset_remove_spec [OF this]
  obtain p' where "u_mulle__rangeset_remove ?p (mulle_range_make 3 2) = Some p'"
    "rs_set p' = rset (mulle_range_make 0 9) - rset (mulle_range_make 3 2)" by auto
  moreover have "rset (mulle_range_make 0 9) - rset (mulle_range_make 3 2) = {0..<3} \<union> {5..<9}" by auto
  ultimately show ?thesis by auto
qed

text \<open>
  C15. The bulk operations are set union and set difference: adding the ranges of another range set
  or removing them, with the shrinking of the storage that follows the removal.
\<close>

theorem mulle__rangeset_bulk_spec:
  assumes "rangeset_inv p" "rangeset_inv other"
    "length (rs_ranges p) + length (rs_ranges other) \<le> 2 ^ 58"
  shows "\<exists>q d. u_mulle__rangeset_insert_rangeset p other = Some q \<and>
    rangeset_inv q \<and> rs_set q = rs_set p \<union> rs_set other \<and>
    u_mulle__rangeset_remove_rangeset p other = Some d \<and>
    rangeset_inv d \<and> rs_set d = rs_set p - rs_set other"
proof -
  have wf: "ranges_wf (rs_ranges other)" using assms(2) by (simp add: rangeset_inv_def)
  obtain q where "u_mulle__rangeset_insert_ranges p (rs_ranges other) = Some q" "rangeset_inv q"
    "rs_set q = rs_set p \<union> rs_set other"
    using bi.bulk_spec [OF assms(1,3)] fold_range_add [OF wf] by auto
  moreover obtain d where "rangeset_remove_ranges_loop p (rs_ranges other) = Some d" "rangeset_inv d"
    "rs_set d = rs_set p - rs_set other"
    using br.bulk_spec [OF assms(1,3)] fold_range_sub [OF wf] by auto
  ultimately show ?thesis
    using shrink_spec [of d] by (simp add: u_mulle__rangeset_insert_rangeset_def
        u_mulle__rangeset_remove_rangeset_def u_mulle__rangeset_remove_ranges_def)
qed

theorem mulle__rangeset_bulk_spec_witness:
  "\<exists>d. u_mulle__rangeset_remove_rangeset
      \<lparr>rs_ranges = [mulle_range_make 0 9], rs_static = True, rs_size = 8\<rparr>
      \<lparr>rs_ranges = [mulle_range_make 2 2, mulle_range_make 6 9], rs_static = False, rs_size = 2\<rparr> = Some d
    \<and> rs_set d = {0, 1, 4, 5}"
proof -
  let ?p = "\<lparr>rs_ranges = [mulle_range_make 0 9], rs_static = True, rs_size = 8\<rparr>"
    and ?o = "\<lparr>rs_ranges = [mulle_range_make 2 2, mulle_range_make 6 9], rs_static = False, rs_size = 2\<rparr>"
  have "rangeset_inv ?p" "rangeset_inv ?o" "length (rs_ranges ?p) + length (rs_ranges ?o) \<le> 2 ^ 58"
    by (simp_all add: rangeset_inv_def ranges_wf_def range_simps)
  note mulle__rangeset_bulk_spec [OF this]
  moreover have "rs_set ?p - rs_set ?o = {0, 1, 4, 5}" by auto
  ultimately show ?thesis by metis
qed

text \<open>
  C17. On a well-formed range set \<open>_mulle__rangeset_intersects\<close> tells whether any location of the
  range is in the set, and \<open>_mulle__rangeset_contains\<close> whether all of them lie in one stored range,
  which implies that all are in the set.
\<close>

theorem mulle__rangeset_query_spec:
  assumes "rangeset_inv p" "mulle_range_is_valid r" "range_length r \<noteq> 0"
  shows "(u_mulle__rangeset_intersects p r \<longleftrightarrow> rs_set p \<inter> rset r \<noteq> {}) \<and>
    (u_mulle__rangeset_contains p r \<longleftrightarrow> (\<exists>x \<in> set (rs_ranges p). rset r \<subseteq> rset x)) \<and>
    (u_mulle__rangeset_contains p r \<longrightarrow> rset r \<subseteq> rs_set p)"
proof -
  have wf: "ranges_wf (rs_ranges p)" and ne: "nonempty r"
    using assms by (auto simp: rangeset_inv_def nonempty_def)
  show ?thesis
    using ib.found_iff [OF wf assms(2) ne] cb.found_iff [OF wf assms(2) ne] assms(3)
    by (auto simp: u_mulle__rangeset_intersects_def u_mulle__rangeset_contains_def overlap_iff_rset
        ranges_set_def simp del: in_rset)
qed

theorem mulle__rangeset_query_spec_witness:
  "u_mulle__rangeset_intersects
     \<lparr>rs_ranges = [mulle_range_make 2 4, mulle_range_make 20 4], rs_static = False, rs_size = 4\<rparr>
     (mulle_range_make 5 9)"
proof -
  let ?p = "\<lparr>rs_ranges = [mulle_range_make 2 4, mulle_range_make 20 4], rs_static = False, rs_size = 4\<rparr>"
    and ?r = "mulle_range_make 5 9"
  have "rangeset_inv ?p" "mulle_range_is_valid ?r"
    by (simp_all add: rangeset_inv_def ranges_wf_def range_simps)
  moreover have "range_length ?r \<noteq> 0" by (simp add: mulle_range_make_def)
  ultimately have "u_mulle__rangeset_intersects ?p ?r \<longleftrightarrow> rs_set ?p \<inter> rset ?r \<noteq> {}"
    using mulle__rangeset_query_spec [of ?p ?r] by blast
  moreover have "5 \<in> rs_set ?p \<inter> rset ?r" by simp
  ultimately show ?thesis by blast
qed

text \<open>
  C16. The five searches of \<open>_mulle__rangeset_search_location\<close> return the location itself, the
  greatest member below it or the least member above it, and \<open>mulle_not_found_e\<close> exactly when there
  is no such member.
\<close>

theorem mulle__rangeset_search_location_spec:
  assumes "rangeset_inv p" "loc \<le> mulle_range_location_max"
    "(op, A) \<in> {(1, {x \<in> rs_set p. x = unat loc}),
      (2, {x \<in> rs_set p. x < unat loc}), (3, {x \<in> rs_set p. x \<le> unat loc}),
      (4, {x \<in> rs_set p. x > unat loc}), (5, {x \<in> rs_set p. x \<ge> unat loc})}"
  shows "if A = {} then u_mulle__rangeset_search_location p loc op = mulle_not_found_e
    else unat (u_mulle__rangeset_search_location p loc op) = (if op \<in> {4, 5} then Min A else Max A)"
proof -
  have wf: "ranges_wf (rs_ranges p)" using assms(1) by (simp add: rangeset_inv_def)
  have fin: "finite (rs_set p)" by (auto simp: ranges_set_def rset_def)
  note less = search_less_spec [OF wf assms(2), unfolded mulle_rangeset_less_than_def]
    and greater = search_greater_spec [OF wf assms(2), unfolded mulle_rangeset_greater_than_def]
    and equal = search_equal_bit [OF wf assms(2), unfolded mulle_rangeset_equal_def]
  show ?thesis
  proof (cases "unat loc \<in> rs_set p")
    case True
    then have "Max {x \<in> rs_set p. x \<le> unat loc} = unat loc" "Min {x \<in> rs_set p. x \<ge> unat loc} = unat loc"
      "{x \<in> rs_set p. x = unat loc} = {unat loc}"
      "{x \<in> rs_set p. x \<le> unat loc} \<noteq> {}" "{x \<in> rs_set p. x \<ge> unat loc} \<noteq> {}"
      using fin by (auto intro: Max_eqI Min_eqI)
    with True equal [of 1] equal [of 3] equal [of 5] show ?thesis using assms(3)
      by (elim insertE emptyE; cases "A = {}"; use less greater in \<open>simp del: Collect_empty_eq empty_Collect_eq\<close>)
  next
    case False
    then have "{x \<in> rs_set p. x \<le> unat loc} = {x \<in> rs_set p. x < unat loc}"
      "{x \<in> rs_set p. x \<ge> unat loc} = {x \<in> rs_set p. x > unat loc}" "{x \<in> rs_set p. x = unat loc} = {}"
      using le_less by fastforce+
    with False equal [of 1] equal [of 3] equal [of 5] search_nothing [of p loc] show ?thesis using assms(3)
      by (elim insertE emptyE; cases "A = {}"; use less greater in \<open>simp del: Collect_empty_eq empty_Collect_eq\<close>)
  qed
qed

theorem mulle__rangeset_search_location_spec_witness:
  "unat (u_mulle__rangeset_search_location
     \<lparr>rs_ranges = [mulle_range_make 2 4, mulle_range_make 20 4], rs_static = False, rs_size = 4\<rparr> 9 4) =
   Min {x \<in> rset (mulle_range_make 2 4) \<union> rset (mulle_range_make 20 4). x > 9}"
proof -
  let ?p = "\<lparr>rs_ranges = [mulle_range_make 2 4, mulle_range_make 20 4], rs_static = False, rs_size = 4\<rparr>"
  have "rangeset_inv ?p" by (simp add: rangeset_inv_def ranges_wf_def range_simps)
  moreover have "(9 :: 64 word) \<le> mulle_range_location_max" by (simp add: word_le_nat_alt)
  ultimately have "if {x \<in> rs_set ?p. x > unat (9 :: 64 word)} = {}
      then u_mulle__rangeset_search_location ?p 9 4 = mulle_not_found_e
      else unat (u_mulle__rangeset_search_location ?p 9 4) =
        (if (4 :: uint32_t) \<in> {4, 5} then Min {x \<in> rs_set ?p. x > unat (9 :: 64 word)}
         else Max {x \<in> rs_set ?p. x > unat (9 :: 64 word)})"
    by (rule mulle__rangeset_search_location_spec) simp
  moreover have "20 \<in> {x \<in> rs_set ?p. x > unat (9 :: 64 word)}" by simp
  then have "{x \<in> rs_set ?p. x > unat (9 :: 64 word)} \<noteq> {}" by blast
  ultimately show ?thesis by (simp add: Un_assoc del: Collect_empty_eq in_rset split del: if_split)
qed

text \<open>
  The accessors summarise the set: the sum of the stored lengths is the number of members, which
  does not wrap, and the first and last location are the least and the greatest member.
\<close>

theorem mulle__rangeset_summary_spec:
  assumes "rangeset_inv p"
  shows "unat (u_mulle__rangeset_sum_lengths p) = card (rs_set p) \<and>
    (if rs_set p = {}
     then u_mulle__rangeset_get_first p = mulle_not_found_e \<and> u_mulle__rangeset_get_last p = mulle_not_found_e
     else unat (u_mulle__rangeset_get_first p) = Min (rs_set p) \<and>
          unat (u_mulle__rangeset_get_last p) = Max (rs_set p))"
proof
  have wf: "ranges_wf (rs_ranges p)" using assms by (simp add: rangeset_inv_def)
  have "card (rs_set p) \<le> range_top" using card_mono [OF _ rs_set_bounded [OF wf]] by simp
  then show "unat (u_mulle__rangeset_sum_lengths p) = card (rs_set p)"
    using sum_lengths_fold [OF wf, of 0] by (simp add: u_mulle__rangeset_sum_lengths_def)
  have fin: "finite (rs_set p)" by (auto simp: ranges_set_def rset_def)
  show "if rs_set p = {}
     then u_mulle__rangeset_get_first p = mulle_not_found_e \<and> u_mulle__rangeset_get_last p = mulle_not_found_e
     else unat (u_mulle__rangeset_get_first p) = Min (rs_set p) \<and>
          unat (u_mulle__rangeset_get_last p) = Max (rs_set p)"
  proof (cases "rs_ranges p = []")
    case True
    then show ?thesis by (simp add: u_mulle__rangeset_get_first_def u_mulle__rangeset_get_last_def)
  next
    case False
    then obtain x xs ys y where x: "rs_ranges p = x # xs" and y: "rs_ranges p = ys @ [y]"
      by (metis neq_Nil_conv rev_exhaust)
    have "lo x \<in> rs_set p" "\<forall>z \<in> rs_set p. lo x \<le> z"
      using wf x by (force simp: ranges_wf_Cons nonempty_iff ranges_set_def)+
    moreover have "hi y - 1 \<in> rs_set p" "\<forall>z \<in> rs_set p. z \<le> hi y - 1"
      using wf y by (force simp: ranges_wf_split nonempty_iff ranges_set_def)+
    moreover have "mulle_range_is_valid y" "0 < hi y"
      using wf y by (auto simp: ranges_wf_split nonempty_iff)
    moreover have "unat (mulle_range_get_max y - 1) = hi y - 1"
      using calculation by (simp add: unat64_sub)
    moreover have "u_mulle__rangeset_get_last p = mulle_range_get_max y - 1"
      using y by (simp add: u_mulle__rangeset_get_last_def)
    moreover have "u_mulle__rangeset_get_first p = location x"
      using x by (simp add: u_mulle__rangeset_get_first_def)
    ultimately show ?thesis using fin
      by (auto intro!: Min_eqI [symmetric] Max_eqI [symmetric])
  qed
qed

theorem mulle__rangeset_summary_spec_witness:
  "unat (u_mulle__rangeset_sum_lengths
     \<lparr>rs_ranges = [mulle_range_make 2 4, mulle_range_make 20 4], rs_static = False, rs_size = 4\<rparr>) =
   card (rset (mulle_range_make 2 4) \<union> rset (mulle_range_make 20 4))"
proof -
  have "rangeset_inv \<lparr>rs_ranges = [mulle_range_make 2 4, mulle_range_make 20 4], rs_static = False, rs_size = 4\<rparr>"
    by (simp add: rangeset_inv_def ranges_wf_def range_simps)
  from mulle__rangeset_summary_spec [OF this] show ?thesis by simp
qed

text \<open>
  \<open>_mulle__rangeset_reserve\<close> ends: while the request stays within the allocator's limit it
  returns with enough capacity for the additional ranges and with the contents unchanged.
\<close>

theorem mulle__rangeset_reserve_spec:
  assumes "rangeset_inv p" "length (rs_ranges p) + unat additional \<le> 2 ^ 58"
  shows "\<exists>p'. u_mulle__rangeset_reserve p additional = Some p' \<and> rangeset_inv p' \<and>
    rs_ranges p' = rs_ranges p \<and> length (rs_ranges p) + unat additional \<le> unat (rs_size p')"
  using reserve_spec [OF assms(2)] assms(1) by (auto simp: rangeset_inv_def)

theorem mulle__rangeset_reserve_spec_witness:
  "\<exists>p'. u_mulle__rangeset_reserve \<lparr>rs_ranges = [], rs_static = False, rs_size = 0\<rparr> 9 = Some p' \<and>
     9 \<le> unat (rs_size p')"
proof -
  let ?p = "\<lparr>rs_ranges = [], rs_static = False, rs_size = 0\<rparr> :: mulle__rangeset"
  have "rangeset_inv ?p" "length (rs_ranges ?p) + unat (9 :: 64 word) \<le> 2 ^ 58"
    by (simp_all add: rangeset_inv_def)
  from mulle__rangeset_reserve_spec [OF this] show ?thesis by auto
qed

text \<open>
  The strategy "to not have adjacent ranges" that the header states is not kept: inserting
  \<open>[3, 10)\<close> into \<open>{[0, 5), [10, 15)}\<close> leaves the adjacent ranges \<open>[0, 10)\<close> and \<open>[10, 15)\<close>, and the
  containment query for \<open>[8, 12)\<close> then fails although every location of it is in the set.
\<close>

theorem mulle__rangeset_adjacent_ranges_remain:
  "\<exists>p'. u_mulle__rangeset_insert
      \<lparr>rs_ranges = [mulle_range_make 0 5, mulle_range_make 10 5], rs_static = False, rs_size = 2\<rparr>
      (mulle_range_make 3 7) = Some p' \<and>
    rs_ranges p' = [mulle_range_make 0 10, mulle_range_make 10 5] \<and>
    rset (mulle_range_make 8 4) \<subseteq> rs_set p' \<and> \<not> u_mulle__rangeset_contains p' (mulle_range_make 8 4)"
proof -
  let ?p' = "\<lparr>rs_ranges = [mulle_range_make 0 10, mulle_range_make 10 5], rs_static = False, rs_size = 2\<rparr>"
  have "u_mulle__rangeset_insert
      \<lparr>rs_ranges = [mulle_range_make 0 5, mulle_range_make 10 5], rs_static = False, rs_size = 2\<rparr>
      (mulle_range_make 3 7) = Some ?p'" by code_simp
  moreover have "\<not> u_mulle__rangeset_contains ?p' (mulle_range_make 8 4)" by code_simp
  moreover have "rset (mulle_range_make 8 4) \<subseteq> rs_set ?p'" by auto
  ultimately show ?thesis by (intro exI [of _ ?p']) simp
qed

text \<open>
  \<open>_mulle__rangeset_sum_lengths_range\<close> starts at the stored range nearest to the start of its
  argument; when that one lies wholly before the argument the loop ends at once, so the function
  answers 0 although a later stored range lies inside the argument.
\<close>

theorem mulle__rangeset_sum_lengths_range_misses:
  "rangeset_inv \<lparr>rs_ranges = [mulle_range_make 0 5, mulle_range_make 20 5], rs_static = False, rs_size = 2\<rparr> \<and>
   u_mulle__rangeset_sum_lengths_range
     \<lparr>rs_ranges = [mulle_range_make 0 5, mulle_range_make 20 5], rs_static = False, rs_size = 2\<rparr>
     (mulle_range_make 6 24) = 0 \<and>
   rset (mulle_range_make 20 5) \<subseteq> rset (mulle_range_make 6 24)"
proof (intro conjI)
  show "u_mulle__rangeset_sum_lengths_range
     \<lparr>rs_ranges = [mulle_range_make 0 5, mulle_range_make 20 5], rs_static = False, rs_size = 2\<rparr>
     (mulle_range_make 6 24) = 0" by code_simp
qed (auto simp: rangeset_inv_def ranges_wf_def range_simps)

text \<open>
  \<open>_mulle__rangeset_shift\<close> with a location in a hole moves the nearest stored range even when
  that range lies below the location: shifting from 7 by 3 moves \<open>[0, 5)\<close>. With a negative delta the
  moved range can end up over its predecessor, so that the array is not well-formed any more.
\<close>

theorem mulle__rangeset_shift_deviates:
  "map_option rs_ranges (u_mulle__rangeset_shift
     \<lparr>rs_ranges = [mulle_range_make 0 5, mulle_range_make 20 10], rs_static = False, rs_size = 2\<rparr> 7 3) =
     Some [mulle_range_make 3 5, mulle_range_make 23 10] \<and>
   map_option rs_ranges (u_mulle__rangeset_shift
     \<lparr>rs_ranges = [mulle_range_make 0 5, mulle_range_make 6 4], rs_static = False, rs_size = 2\<rparr> 6 (- 3)) =
     Some [mulle_range_make 0 5, mulle_range_make 3 4] \<and>
   \<not> ranges_wf [mulle_range_make 0 5, mulle_range_make 3 4]"
proof (intro conjI)
  show "map_option rs_ranges (u_mulle__rangeset_shift
     \<lparr>rs_ranges = [mulle_range_make 0 5, mulle_range_make 20 10], rs_static = False, rs_size = 2\<rparr> 7 3) =
     Some [mulle_range_make 3 5, mulle_range_make 23 10]" by code_simp
  show "map_option rs_ranges (u_mulle__rangeset_shift
     \<lparr>rs_ranges = [mulle_range_make 0 5, mulle_range_make 6 4], rs_static = False, rs_size = 2\<rparr> 6 (- 3)) =
     Some [mulle_range_make 0 5, mulle_range_make 3 4]" by code_simp
qed (simp add: ranges_wf_def)

end
