(* ===== verification/Probing.thy ===== *)
theory Probing
  imports Mulle_Prelude "HOL-Library.Multiset"
begin

text \<open>
  Open addressing with linear probing, shared by the hash containers: a table is an array of keys
  in which \<open>nk\<close> marks a free slot, a key is searched from its home slot on, cyclically, up to the
  first free slot. The locale names what the tables rely on: an equality of keys that the home
  slots respect. Its lemmas are the three facts the containers need: a search that stops at a free
  slot means the key is absent, storing at that slot keeps every key reachable, and the removal
  that closes the gap by moving later keys back keeps every key reachable.
\<close>

section \<open>Cyclic distance\<close>

lemma mod_less_two [simp]: "2 \<le> (n :: nat) \<Longrightarrow> a mod n < n"
  by simp

definition cdist :: "nat \<Rightarrow> nat \<Rightarrow> nat \<Rightarrow> nat" where
  "cdist n a b = (if a \<le> b then b - a else n - a + b)"

lemma cdist_less: "a < n \<Longrightarrow> b < n \<Longrightarrow> cdist n a b < n"
  by (auto simp: cdist_def)

lemma cdist_refl [simp]: "cdist n a a = 0"
  by (simp add: cdist_def)

lemma cdist_eq_0_iff: "a < n \<Longrightarrow> b < n \<Longrightarrow> cdist n a b = 0 \<longleftrightarrow> a = b"
  by (auto simp: cdist_def)

lemma cdist_add: "a < n \<Longrightarrow> d < n \<Longrightarrow> cdist n a ((a + d) mod n) = d"
  by (auto simp: cdist_def mod_if)

lemma add_cdist: "a < n \<Longrightarrow> b < n \<Longrightarrow> (a + cdist n a b) mod n = b"
  by (auto simp: cdist_def mod_if)

lemma cdist_inj: "a < n \<Longrightarrow> b < n \<Longrightarrow> c < n \<Longrightarrow> cdist n a b = cdist n a c \<Longrightarrow> b = c"
  by (metis add_cdist)

lemma cdist_Suc:
  assumes "a < n" "b < n" "Suc b mod n \<noteq> a"
  shows "cdist n a (Suc b mod n) = Suc (cdist n a b)"
  using assms by (auto simp: cdist_def mod_if split: if_splits)

lemma cdist_pred:
  assumes "b < n" "e < n" "b \<noteq> e"
  shows "cdist n (Suc b mod n) e < cdist n b e"
  using assms by (auto simp: cdist_def mod_if split: if_splits)

lemma cdist_after:
  assumes "a < n" "i < n" "j < n" "Suc i mod n < n" "Suc i mod n \<noteq> a" "Suc i mod n \<noteq> j"
    "cdist n a i < cdist n a j"
  shows "cdist n a (Suc i mod n) < cdist n a j"
proof -
  have "cdist n a (Suc i mod n) = Suc (cdist n a i)" using cdist_Suc assms by blast
  moreover have "cdist n a (Suc i mod n) \<noteq> cdist n a j" using cdist_inj assms by blast
  ultimately show ?thesis using assms(7) by linarith
qed

text \<open>The slots of a search path: \<open>c\<close> lies on the way from \<open>h\<close> to \<open>j\<close>, \<open>j\<close> excluded.\<close>

definition on_path :: "nat \<Rightarrow> nat \<Rightarrow> nat \<Rightarrow> nat \<Rightarrow> bool" where
  "on_path n h j c \<longleftrightarrow> c < n \<and> cdist n h c < cdist n h j"

lemma on_path_irrefl [simp]: "\<not> on_path n h j j"
  by (simp add: on_path_def)

lemma on_path_between:
  assumes "h < n" "j < n" "a < n" "i < n" "on_path n h j a" "cdist n a i < cdist n a j"
  shows "on_path n h j i"
  using assms by (auto simp: on_path_def cdist_def split: if_splits)

lemma on_path_prefix:
  assumes "h < n" "j < n" "on_path n h j a" "on_path n h a c"
  shows "on_path n h j c"
  using assms by (auto simp: on_path_def)

lemma not_on_path_iff:
  assumes "h < n" "j < n" "a < n" "a \<noteq> j"
  shows "\<not> on_path n h j a \<longleftrightarrow> 0 < cdist n a h \<and> cdist n a h \<le> cdist n a j"
  using assms by (auto simp: on_path_def cdist_def split: if_splits)

lemma on_path_step:
  assumes "h < n" "d < n" "on_path n h ((h + d) mod n) c"
  obtains e where "e < d" "c = (h + e) mod n"
  using assms cdist_add [OF assms(1,2)] add_cdist [of h n c] that [of "cdist n h c"]
  by (auto simp: on_path_def)

section \<open>Tables\<close>

definition used_slots :: "'k \<Rightarrow> 'k list \<Rightarrow> 'k multiset" where
  "used_slots nk t = filter_mset (\<lambda>x. x \<noteq> nk) (mset t)"

lemma used_slots_replicate [simp]: "used_slots nk (replicate n nk) = {#}"
  by (simp add: used_slots_def filter_empty_conv flip: mset_filter)

lemma used_slots_simps [simp]:
  "used_slots nk [] = {#}"
  "used_slots nk (x # xs) = (if x = nk then used_slots nk xs else add_mset x (used_slots nk xs))"
  by (simp_all add: used_slots_def)

lemma used_slots_store:
  assumes "i < length t" "t ! i = nk" "x \<noteq> nk"
  shows "used_slots nk (t[i := x]) = add_mset x (used_slots nk t)"
  using assms by (simp add: used_slots_def mset_update)

lemma used_slots_clear:
  assumes "i < length t" "t ! i \<noteq> nk"
  shows "used_slots nk (t[i := nk]) = used_slots nk t - {#t ! i#}"
  using assms by (simp add: used_slots_def mset_update)

lemma used_slots_replace:
  assumes "i < length t" "t ! i \<noteq> nk" "x \<noteq> nk"
  shows "used_slots nk (t[i := x]) = add_mset x (used_slots nk t - {#t ! i#})"
  using assms by (simp add: used_slots_def mset_update)

lemma in_used_slots: "x \<in># used_slots nk t \<longleftrightarrow> x \<noteq> nk \<and> (\<exists>i<length t. t ! i = x)"
  by (auto simp: used_slots_def in_set_conv_nth)

lemma nth_in_used_slots: "i < length t \<Longrightarrow> t ! i \<noteq> nk \<Longrightarrow> t ! i \<in># used_slots nk t"
  by (auto simp: in_used_slots)

lemma size_used_slots: "size (used_slots nk t) = length (filter (\<lambda>x. x \<noteq> nk) t)"
  by (simp add: used_slots_def flip: mset_filter)

lemma free_slot:
  assumes "size (used_slots nk t) < length t"
  obtains e where "e < length t" "t ! e = nk"
proof -
  have "\<not> (\<forall>x \<in> set t. x \<noteq> nk)"
  proof
    assume "\<forall>x \<in> set t. x \<noteq> nk"
    then have "filter (\<lambda>x. x \<noteq> nk) t = t" by (rule filter_True)
    with assms show False by (simp add: size_used_slots)
  qed
  then show thesis using that by (auto simp: in_set_conv_nth)
qed

section \<open>Probing\<close>

locale probing =
  fixes nk :: 'k
    and eq :: "'k \<Rightarrow> 'k \<Rightarrow> bool"
    and home :: "nat \<Rightarrow> 'k \<Rightarrow> nat"
  assumes eq_refl: "x \<noteq> nk \<Longrightarrow> eq x x"
    and eq_sym: "x \<noteq> nk \<Longrightarrow> y \<noteq> nk \<Longrightarrow> eq x y \<Longrightarrow> eq y x"
    and eq_trans: "x \<noteq> nk \<Longrightarrow> y \<noteq> nk \<Longrightarrow> z \<noteq> nk \<Longrightarrow> eq x y \<Longrightarrow> eq y z \<Longrightarrow> eq x z"
    and home_less: "2 \<le> n \<Longrightarrow> home n x < n"
    and home_eq: "x \<noteq> nk \<Longrightarrow> y \<noteq> nk \<Longrightarrow> eq x y \<Longrightarrow> home n x = home n y"
begin

definition reachable :: "'k list \<Rightarrow> bool" where
  "reachable t \<longleftrightarrow> (\<forall>j<length t. t ! j \<noteq> nk \<longrightarrow>
     (\<forall>c. on_path (length t) (home (length t) (t ! j)) j c \<longrightarrow> t ! c \<noteq> nk))"

definition unequal :: "'k list \<Rightarrow> bool" where
  "unequal t \<longleftrightarrow> (\<forall>i<length t. \<forall>j<length t.
     t ! i \<noteq> nk \<longrightarrow> t ! j \<noteq> nk \<longrightarrow> eq (t ! i) (t ! j) \<longrightarrow> i = j)"

definition table :: "'k list \<Rightarrow> bool" where
  "table t \<longleftrightarrow> 2 \<le> length t \<and> reachable t \<and> unequal t"

lemma tableD: "table t \<Longrightarrow> 2 \<le> length t \<and> reachable t \<and> unequal t"
  by (simp add: table_def)

lemma table_path:
  assumes "table t" "j < length t" "t ! j \<noteq> nk" "on_path (length t) (home (length t) (t ! j)) j c"
  shows "t ! c \<noteq> nk"
  using assms unfolding table_def reachable_def by blast

lemma table_replicate: "2 \<le> n \<Longrightarrow> table (replicate n nk)"
  by (simp add: table_def reachable_def unequal_def)

text \<open>Where a search ends: at the first slot on its path that is free or holds an equal key.\<close>

lemma search_ends:
  assumes t: "table t" and free: "size (used_slots nk t) < length t"
  obtains d where "d < length t"
    "t ! ((home (length t) p + d) mod length t) = nk \<or> eq p (t ! ((home (length t) p + d) mod length t))"
    "\<forall>e<d. t ! ((home (length t) p + e) mod length t) \<noteq> nk \<and>
       \<not> eq p (t ! ((home (length t) p + e) mod length t))"
proof -
  let ?n = "length t" and ?h = "home (length t) p"
  let ?stop = "\<lambda>d. t ! ((?h + d) mod ?n) = nk \<or> eq p (t ! ((?h + d) mod ?n))"
  obtain e where e: "e < ?n" "t ! e = nk" using free free_slot by metis
  have h: "?h < ?n" using t home_less by (simp add: table_def)
  have "?stop (cdist ?n ?h e)" using e add_cdist [OF h e(1)] by simp
  then obtain d where d: "?stop d" "\<forall>e<d. \<not> ?stop e" "d \<le> cdist ?n ?h e"
    using exists_least_iff [of ?stop] by (metis not_le)
  have "d < ?n" using d(3) cdist_less [OF h e(1)] by linarith
  with d(1,2) show thesis by (intro that [of d]) blast+
qed

lemma absent_at_free_slot:
  assumes t: "table t" and p: "p \<noteq> nk" and d: "d < length t"
    and free: "t ! ((home (length t) p + d) mod length t) = nk"
    and before: "\<forall>e<d. \<not> eq p (t ! ((home (length t) p + e) mod length t))"
    and j: "j < length t" "t ! j \<noteq> nk"
  shows "\<not> eq p (t ! j)"
proof
  let ?n = "length t" and ?h = "home (length t) p"
  assume eq: "eq p (t ! j)"
  have h: "?h < ?n" using t home_less by (simp add: table_def)
  have same: "home ?n (t ! j) = ?h" using home_eq [OF p j(2) eq] by simp
  have "\<not> cdist ?n ?h j < d"
    using before eq add_cdist [OF h j(1)] by auto
  moreover have "cdist ?n ?h j \<noteq> d" using add_cdist [OF h j(1)] free j(2) by auto
  ultimately have "on_path ?n ?h j ((?h + d) mod ?n)"
    using cdist_add [OF h d] t by (simp add: on_path_def table_def)
  then show False using t j same free by (auto simp: table_def reachable_def)
qed

lemma store_at_free_slot:
  assumes t: "table t" and p: "p \<noteq> nk" and d: "d < length t"
    and free: "t ! ((home (length t) p + d) mod length t) = nk"
    and before: "\<forall>e<d. t ! ((home (length t) p + e) mod length t) \<noteq> nk"
    and absent: "\<forall>j<length t. t ! j \<noteq> nk \<longrightarrow> \<not> eq p (t ! j)"
  shows "table (t[(home (length t) p + d) mod length t := p])"
proof -
  let ?n = "length t" and ?h = "home (length t) p"
  let ?i = "(?h + d) mod ?n"
  have h: "?h < ?n" and i: "?i < ?n" using t home_less by (auto simp: table_def)
  have "reachable (t[?i := p])"
    unfolding reachable_def length_list_update
  proof (intro allI impI)
    fix j c assume j: "j < ?n" "t[?i := p] ! j \<noteq> nk" and c: "on_path ?n (home ?n (t[?i := p] ! j)) j c"
    show "t[?i := p] ! c \<noteq> nk"
    proof (cases "j = ?i")
      case True
      with c i have "on_path ?n ?h ?i c" by simp
      with h d obtain e where "e < d" "c = (?h + e) mod ?n" by (rule on_path_step)
      with before p i show ?thesis by (cases "c = ?i") simp_all
    next
      case False
      then have "t ! c \<noteq> nk" using t j c by (auto simp: table_def reachable_def)
      then show ?thesis using p i by (cases "c = ?i") simp_all
    qed
  qed
  moreover have "unequal (t[?i := p])"
    unfolding unequal_def length_list_update
  proof (intro allI impI)
    fix a b assume ab: "a < ?n" "b < ?n" "t[?i := p] ! a \<noteq> nk" "t[?i := p] ! b \<noteq> nk"
      "eq (t[?i := p] ! a) (t[?i := p] ! b)"
    show "a = b"
    proof (cases "a = ?i"; cases "b = ?i")
      assume "a \<noteq> ?i" "b \<noteq> ?i"
      with ab t show ?thesis by (auto simp: table_def unequal_def)
    next
      assume "a = ?i" "b \<noteq> ?i"
      with ab absent i show ?thesis by auto
    next
      assume "a \<noteq> ?i" "b = ?i"
      with ab absent p i eq_sym [of "t ! a" p] show ?thesis by auto
    qed simp
  qed
  ultimately show ?thesis using t by (simp add: table_def)
qed

lemma replace_equal:
  assumes t: "table t" and i: "i < length t" "t ! i \<noteq> nk" and p: "p \<noteq> nk" "eq p (t ! i)"
  shows "table (t[i := p])"
proof -
  let ?n = "length t"
  have eqs: "eq p y \<longleftrightarrow> eq (t ! i) y" "eq y p \<longleftrightarrow> eq y (t ! i)" if "y \<noteq> nk" for y
    using eq_trans [of p "t ! i" y] eq_trans [of "t ! i" p y] eq_trans [of y "t ! i" p]
      eq_trans [of y p "t ! i"] eq_sym [OF p(1) i(2) p(2)] that i(2) p by blast+
  have same: "home ?n p = home ?n (t ! i)" using home_eq i p by blast
  have "reachable (t[i := p])"
    unfolding reachable_def length_list_update
  proof (intro allI impI)
    fix j c assume j: "j < ?n" "t[i := p] ! j \<noteq> nk" and c: "on_path ?n (home ?n (t[i := p] ! j)) j c"
    have "t ! j \<noteq> nk" "on_path ?n (home ?n (t ! j)) j c"
      using j c i same by (cases "j = i"; simp)+
    then have "t ! c \<noteq> nk" using table_path [OF t j(1)] by blast
    then show "t[i := p] ! c \<noteq> nk" using p i by (cases "c = i") simp_all
  qed
  moreover have "unequal (t[i := p])"
    unfolding unequal_def length_list_update
  proof (intro allI impI)
    fix a b assume ab: "a < ?n" "b < ?n" "t[i := p] ! a \<noteq> nk" "t[i := p] ! b \<noteq> nk"
      "eq (t[i := p] ! a) (t[i := p] ! b)"
    then have "eq (t ! a) (t ! b)" "t ! a \<noteq> nk" "t ! b \<noteq> nk"
      using i eqs eq_refl by (auto simp: nth_list_update split: if_splits)
    with ab t show "a = b" by (auto simp: table_def unequal_def)
  qed
  ultimately show ?thesis using t by (simp add: table_def)
qed

subsection \<open>Closing the gap of a removal\<close>

text \<open>
  While the gap at \<open>dst\<close> travels, \<open>i\<close> is the last slot looked at. A key may be cut off by the gap
  only if it lies behind \<open>i\<close>.
\<close>

definition gap_inv :: "'k list \<Rightarrow> nat \<Rightarrow> nat \<Rightarrow> bool" where
  "gap_inv t dst i \<longleftrightarrow> 2 \<le> length t \<and> dst < length t \<and> i < length t \<and> t ! dst \<noteq> nk \<and>
     (\<forall>j<length t. j \<noteq> dst \<longrightarrow> t ! j \<noteq> nk \<longrightarrow>
        (\<forall>c. on_path (length t) (home (length t) (t ! j)) j c \<longrightarrow>
          t ! c \<noteq> nk \<and> (c = dst \<longrightarrow> cdist (length t) dst i < cdist (length t) dst j)))"

lemma gap_inv_path:
  assumes "gap_inv t dst i" "j < length t" "j \<noteq> dst" "t ! j \<noteq> nk"
    "on_path (length t) (home (length t) (t ! j)) j c"
  shows "t ! c \<noteq> nk" "c = dst \<Longrightarrow> cdist (length t) dst i < cdist (length t) dst j"
  using assms unfolding gap_inv_def by blast+

lemma gap_start:
  assumes "table t" "i < length t" "t ! i \<noteq> nk"
  shows "gap_inv t i i"
  using assms cdist_eq_0_iff [of i "length t"]
  by (auto simp: gap_inv_def table_def reachable_def intro: gr0I)

lemma gap_end:
  assumes g: "gap_inv t dst i" and free: "t ! (Suc i mod length t) = nk"
  shows "reachable (t[dst := nk])"
  unfolding reachable_def length_list_update
proof (intro allI impI)
  let ?n = "length t" and ?i = "Suc i mod length t"
  fix j c assume j: "j < ?n" "t[dst := nk] ! j \<noteq> nk" and c: "on_path ?n (home ?n (t[dst := nk] ! j)) j c"
  have b: "dst < ?n" "i < ?n" "t ! dst \<noteq> nk" "2 \<le> ?n" "?i < ?n"
    using g by (auto simp: gap_inv_def)
  have jd: "j \<noteq> dst" "t ! j \<noteq> nk" using j b by (auto simp: nth_list_update split: if_splits)
  then have c': "on_path ?n (home ?n (t ! j)) j c" using c by simp
  have all: "t ! c \<noteq> nk \<and> (c = dst \<longrightarrow> cdist ?n dst i < cdist ?n dst j)"
    if "on_path ?n (home ?n (t ! j)) j c" for c
    using g j(1) jd that by (auto simp: gap_inv_def)
  have "c \<noteq> dst"
  proof
    assume "c = dst"
    with all c' have lt: "cdist ?n dst i < cdist ?n dst j" and p: "on_path ?n (home ?n (t ! j)) j dst"
      by auto
    have "?i \<noteq> dst" "?i \<noteq> j" using free b jd by auto
    then have "cdist ?n dst ?i < cdist ?n dst j" using cdist_after lt b j(1) by blast
    then have "on_path ?n (home ?n (t ! j)) j ?i"
      using on_path_between [OF _ j(1) _ _ p] home_less b by auto
    with all free show False by blast
  qed
  with all c' show "t[dst := nk] ! c \<noteq> nk" by simp
qed

lemma gap_keep:
  assumes g: "gap_inv t dst i" and q: "t ! (Suc i mod length t) \<noteq> nk" and ne: "Suc i mod length t \<noteq> dst"
    and stay: "\<not> on_path (length t) (home (length t) (t ! (Suc i mod length t))) (Suc i mod length t) dst"
  shows "gap_inv t dst (Suc i mod length t)"
proof -
  let ?n = "length t" and ?i = "Suc i mod length t"
  have b: "dst < ?n" "i < ?n" "?i < ?n" using g by (auto simp: gap_inv_def)
  have "cdist ?n dst ?i < cdist ?n dst j"
    if "j < ?n" "j \<noteq> dst" "t ! j \<noteq> nk" "on_path ?n (home ?n (t ! j)) j dst" for j
  proof -
    have "cdist ?n dst i < cdist ?n dst j" using gap_inv_path(2) [OF g that] by simp
    moreover have "j \<noteq> ?i" using stay that by auto
    ultimately show ?thesis using cdist_after b that(1) ne by blast
  qed
  with g b show ?thesis unfolding gap_inv_def by blast
qed

lemma gap_move:
  assumes g: "gap_inv t dst i" and q: "t ! (Suc i mod length t) \<noteq> nk" and ne: "Suc i mod length t \<noteq> dst"
    and move: "on_path (length t) (home (length t) (t ! (Suc i mod length t))) (Suc i mod length t) dst"
  shows "gap_inv (t[dst := t ! (Suc i mod length t)]) (Suc i mod length t) (Suc i mod length t)"
  unfolding gap_inv_def length_list_update
proof (intro conjI allI impI)
  let ?n = "length t" and ?i = "Suc i mod length t"
  let ?q = "t ! ?i"
  have b: "dst < ?n" "i < ?n" "t ! dst \<noteq> nk" "2 \<le> ?n" "?i < ?n" using g by (auto simp: gap_inv_def)
  then show "2 \<le> ?n" "?i < ?n" "?i < ?n" by auto
  show "t[dst := ?q] ! ?i \<noteq> nk" using q ne by simp
  fix j c assume j: "j < ?n" "j \<noteq> ?i" "t[dst := ?q] ! j \<noteq> nk"
    and c: "on_path ?n (home ?n (t[dst := ?q] ! j)) j c"
  have "t ! c \<noteq> nk"
  proof (cases "j = dst")
    case True
    then have "on_path ?n (home ?n ?q) dst c" using c b by simp
    then have "on_path ?n (home ?n ?q) ?i c"
      using on_path_prefix [OF _ b(5) move] home_less b by auto
    then show ?thesis using gap_inv_path(1) [OF g b(5) ne q] by blast
  next
    case False
    then have "t ! j \<noteq> nk" "on_path ?n (home ?n (t ! j)) j c" using j(3) c by simp_all
    then show ?thesis using gap_inv_path(1) [OF g j(1) False] by blast
  qed
  then show "t[dst := ?q] ! c \<noteq> nk" using q b by (cases "c = dst") simp_all
  show "cdist ?n ?i ?i < cdist ?n ?i j" using cdist_eq_0_iff [OF b(5) j(1)] j(2) by simp
qed

lemma unequal_Cons:
  assumes "unequal (x # xs)"
  shows "unequal xs" "x \<noteq> nk \<Longrightarrow> y \<in># used_slots nk xs \<Longrightarrow> \<not> eq x y"
proof -
  have all: "i = j" if "i < Suc (length xs)" "j < Suc (length xs)" "(x # xs) ! i \<noteq> nk"
    "(x # xs) ! j \<noteq> nk" "eq ((x # xs) ! i) ((x # xs) ! j)" for i j
    using assms that unfolding unequal_def length_Cons by blast
  show "unequal xs"
    unfolding unequal_def using all [of "Suc _" "Suc _"] by simp
  show "\<not> eq x y" if "x \<noteq> nk" "y \<in># used_slots nk xs"
    using that all [of 0 "Suc _"] by (auto simp: in_used_slots)
qed

lemma unequal_clear:
  "unequal t \<Longrightarrow> unequal (t[i := nk])"
  by (cases "i < length t") (auto simp: unequal_def nth_list_update split: if_splits)

lemma unequal_move:
  assumes "unequal (t[dst := nk])" "dst < length t" "i < length t" "i \<noteq> dst"
  shows "unequal (t[dst := t ! i, i := nk])"
  unfolding unequal_def length_list_update
proof (intro allI impI)
  let ?u = "t[dst := t ! i, i := nk]" and ?v = "t[dst := nk]"
  fix a b assume ab: "a < length t" "b < length t" "?u ! a \<noteq> nk" "?u ! b \<noteq> nk" "eq (?u ! a) (?u ! b)"
  define f where "f k = (if k = dst then i else k)" for k
  have f: "?u ! k = ?v ! f k" "f k < length t" if "k < length t" "?u ! k \<noteq> nk" for k
    using that assms(2-4) by (auto simp: f_def nth_list_update split: if_splits)
  have "f a = f b" using f [OF ab(1,3)] f [OF ab(2,4)] ab assms(1) by (auto simp: unequal_def)
  then show "a = b" using ab assms(2-4) by (auto simp: f_def nth_list_update split: if_splits)
qed

end

end
