(* ===== verification/Pointerset.thy ===== *)
theory Pointerset
  imports Container_Math Range Probing
begin

text \<open>
  Model of the hash set of pointers: \<open>mulle--pointerset-generic.c\<close>, \<open>mulle--pointerset-generic.h\<close>,
  \<open>mulle--pointerset-struct.c\<close>, \<open>mulle--pointerset-struct.h\<close>, \<open>mulle--pointerset.h\<close>, the parts of
  \<open>mulle--set.c\<close> that build on it, and the pointer hash of \<open>mulle-hash.h\<close>.

  \<open>ps_storage\<close> is the first \<open>_size\<close> slots of \<open>_storage\<close>, \<open>ps_static\<close> says that they are the
  \<open>_initial_storage\<close> of the caller, and \<open>ps_events\<close>, which is not in the C struct, records the
  calls of the retain and release callbacks made for the set. The callbacks are parameters: a
  record of their functions, with what the set relies on in \<open>keycallback_ok\<close>. \<open>None\<close> stands for an
  allocation that aborts, a loop that does not end and an access outside of the storage; the
  theorems show that none of these happens to a well-formed set.
\<close>

section \<open>Callbacks and the set\<close>

record mulle_container_keycallback =
  kc_hash :: "pointer \<Rightarrow> uintptr_t"
  kc_is_equal :: "pointer \<Rightarrow> pointer \<Rightarrow> bool"
  kc_retain :: "pointer \<Rightarrow> pointer"
  kc_releases :: bool
  kc_notakey :: pointer

datatype key_event = Retain pointer | Release pointer

record mulle__pointerset =
  ps_storage :: "pointer list"
  ps_static :: bool
  ps_count :: size_t
  ps_size :: size_t
  ps_n_mutations :: uintptr_t
  ps_events :: "key_event list"

datatype mulle_container_write_mode =
  mulle_container_insert_e | mulle_container_overwrite_e | mulle_container_update_e

definition pointerset_zero :: mulle__pointerset where
  "pointerset_zero = \<lparr>ps_storage = [], ps_static = False, ps_count = 0, ps_size = 0,
     ps_n_mutations = 0, ps_events = []\<rparr>"

definition mulle__pointerset_hash_for_size :: "uintptr_t \<Rightarrow> size_t \<Rightarrow> size_t" where
  "mulle__pointerset_hash_for_size hash sz = hash AND (sz - 2)"

definition u_mulle__pointerset_is_full :: "mulle__pointerset \<Rightarrow> bool" where
  "u_mulle__pointerset_is_full pset \<longleftrightarrow> ps_count pset \<ge> ps_size pset - drop_bit 2 (ps_size pset)"

definition u_mulle__pointerset_is_sparse_size :: "mulle__pointerset \<Rightarrow> size_t \<Rightarrow> bool" where
  "u_mulle__pointerset_is_sparse_size pset sz \<longleftrightarrow>
     ps_count pset < sz div 2 - drop_bit 2 (sz div 2)"

definition u_mulle__pointerset_is_sparse :: "mulle__pointerset \<Rightarrow> bool" where
  "u_mulle__pointerset_is_sparse pset = u_mulle__pointerset_is_sparse_size pset (ps_size pset)"

section \<open>Storage\<close>

definition u_mulle__pointerset_init_storage_generic ::
    "pointer list \<Rightarrow> size_t \<Rightarrow> pointer \<Rightarrow> pointer list option" where
  "u_mulle__pointerset_init_storage_generic buf n notakey =
     (if unat n \<le> length buf then Some (replicate (unat n) notakey @ drop (unat n) buf) else None)"

text \<open>What the memory held before does not matter, all slots are overwritten.\<close>

definition u_mulle__pointerset_allocate_storage_generic ::
    "size_t \<Rightarrow> pointer \<Rightarrow> pointer list option" where
  "u_mulle__pointerset_allocate_storage_generic n notakey =
     (if notakey = 0 then map_option (\<lambda>_. replicate (unat n) 0) (v_calloc n 8)
      else
        Option.bind (Option.bind (mulle_allocator_size_multiply n 8) (v_reallocarray 1)) (\<lambda>_.
          u_mulle__pointerset_init_storage_generic (replicate (unat n) 0) n notakey))"

definition u_mulle__pointerset_reset_generic ::
    "mulle__pointerset \<Rightarrow> pointer \<Rightarrow> mulle__pointerset" where
  "u_mulle__pointerset_reset_generic pset notakey =
     pset\<lparr>ps_storage := map (\<lambda>_. notakey) (ps_storage pset), ps_count := 0,
       ps_n_mutations := ps_n_mutations pset + 1\<rparr>"

partial_function (option) store_pointer_generic ::
    "pointer list \<Rightarrow> size_t \<Rightarrow> size_t \<Rightarrow> pointer \<Rightarrow> pointer \<Rightarrow> pointer list option" where
  "store_pointer_generic data sz i p notakey =
     Option.bind (slot data i) (\<lambda>q.
       if q \<noteq> notakey
       then (let i = i + 1
             in store_pointer_generic data sz (if i < sz then i else 0) p notakey)
       else set_slot data i p)"

declare store_pointer_generic.simps [code]

fun copy_storage_generic ::
    "pointer list \<Rightarrow> size_t \<Rightarrow> pointer list \<Rightarrow> mulle_container_keycallback \<Rightarrow> pointer list option" where
  "copy_storage_generic dst dst_size [] callback = Some dst"
| "copy_storage_generic dst dst_size (p # src) callback =
     (if p = kc_notakey callback then copy_storage_generic dst dst_size src callback
      else
        let hash = kc_hash callback p;
            i = mulle__pointerset_hash_for_size hash dst_size
        in Option.bind (store_pointer_generic dst dst_size i p (kc_notakey callback)) (\<lambda>dst.
             copy_storage_generic dst dst_size src callback))"

definition pointerset_rehash ::
    "mulle__pointerset \<Rightarrow> size_t \<Rightarrow> mulle_container_keycallback \<Rightarrow> mulle__pointerset option" where
  "pointerset_rehash pset new_size callback =
     Option.bind (u_mulle__pointerset_allocate_storage_generic new_size (kc_notakey callback)) (\<lambda>buf.
     Option.bind (copy_storage_generic buf new_size (ps_storage pset) callback) (\<lambda>buf.
       Some (pset\<lparr>ps_storage := buf, ps_static := False, ps_size := new_size,
         ps_n_mutations := ps_n_mutations pset + 1\<rparr>)))"

definition grow_generic ::
    "mulle__pointerset \<Rightarrow> mulle_container_keycallback \<Rightarrow> mulle__pointerset option" where
  "grow_generic pset callback =
     (let new_size = ps_size pset * 2
      in if new_size < ps_size pset then None
         else pointerset_rehash pset (if new_size = 0 then 4 else new_size) callback)"

section \<open>Searching and writing\<close>

text \<open>\<open>Inr\<close> is the index of a match, \<open>Inl\<close> the index of the hole where the search ended.\<close>

partial_function (option) u_find_index_generic ::
    "pointer list \<Rightarrow> size_t \<Rightarrow> pointer \<Rightarrow> pointer \<Rightarrow> size_t \<Rightarrow> mulle_container_keycallback \<Rightarrow>
     (size_t + size_t) option" where
  "u_find_index_generic storage sz p q i callback =
     (if kc_is_equal callback p q then Some (Inr i)
      else
        let i = (i + 1) AND (sz - 1)
        in Option.bind (slot storage i) (\<lambda>q.
             if q \<noteq> kc_notakey callback then u_find_index_generic storage sz p q i callback
             else Some (Inl i)))"

declare u_find_index_generic.simps [code]

definition find_index_generic ::
    "pointer list \<Rightarrow> size_t \<Rightarrow> pointer \<Rightarrow> uintptr_t \<Rightarrow> mulle_container_keycallback \<Rightarrow>
     (size_t + size_t) option" where
  "find_index_generic storage sz p hash callback =
     (let i = mulle__pointerset_hash_for_size hash sz
      in Option.bind (slot storage i) (\<lambda>q.
           if q = kc_notakey callback then Some (Inl i)
           else u_find_index_generic storage sz p q i callback))"

text \<open>
  \<open>_mulle__pointerset_write_generic\<close> in three pieces: filling the hole that a search found, growing
  and storing, and the whole. Its result is the overwritten or present key, or \<open>notakey\<close>.
\<close>

definition pointerset_fill ::
    "mulle__pointerset \<Rightarrow> pointer \<Rightarrow> size_t \<Rightarrow> mulle_container_keycallback \<Rightarrow>
     (mulle__pointerset \<times> pointer) option" where
  "pointerset_fill pset p i callback =
     (let p = kc_retain callback p
      in Option.bind (set_slot (ps_storage pset) i p) (\<lambda>storage.
           Some (pset\<lparr>ps_storage := storage, ps_count := ps_count pset + 1,
             ps_n_mutations := ps_n_mutations pset + 1, ps_events := ps_events pset @ [Retain p]\<rparr>,
             kc_notakey callback)))"

definition pointerset_append ::
    "mulle__pointerset \<Rightarrow> pointer \<Rightarrow> uintptr_t \<Rightarrow> mulle_container_keycallback \<Rightarrow>
     (mulle__pointerset \<times> pointer) option" where
  "pointerset_append pset p hash callback =
     Option.bind (if u_mulle__pointerset_is_full pset then grow_generic pset callback else Some pset) (\<lambda>pset.
       let i = mulle__pointerset_hash_for_size hash (ps_size pset);
           p = kc_retain callback p
       in Option.bind (store_pointer_generic (ps_storage pset) (ps_size pset) i p (kc_notakey callback))
            (\<lambda>storage.
              Some (pset\<lparr>ps_storage := storage, ps_count := ps_count pset + 1,
                ps_n_mutations := ps_n_mutations pset + 1, ps_events := ps_events pset @ [Retain p]\<rparr>,
                kc_notakey callback)))"

definition u_mulle__pointerset_write_generic ::
    "mulle__pointerset \<Rightarrow> pointer \<Rightarrow> mulle_container_write_mode \<Rightarrow> mulle_container_keycallback \<Rightarrow>
     (mulle__pointerset \<times> pointer) option" where
  "u_mulle__pointerset_write_generic pset p mode callback =
     (let hash = kc_hash callback p;
          absent = (\<lambda>hole_index.
            if \<not> u_mulle__pointerset_is_full pset then pointerset_fill pset p hole_index callback
            else pointerset_append pset p hash callback)
      in if ps_count pset \<noteq> 0 then
           Option.bind (find_index_generic (ps_storage pset) (ps_size pset) p hash callback) (\<lambda>r.
             case r of
               Inl hole_index \<Rightarrow> absent hole_index
             | Inr i \<Rightarrow>
                 Option.bind (slot (ps_storage pset) i) (\<lambda>q.
                   case mode of
                     mulle_container_overwrite_e \<Rightarrow>
                       if p = q then Some (pset, kc_notakey callback)
                       else
                         let p = kc_retain callback p
                         in Option.bind (set_slot (ps_storage pset) i p) (\<lambda>storage.
                              Some (pset\<lparr>ps_storage := storage,
                                ps_n_mutations := ps_n_mutations pset + 1,
                                ps_events := ps_events pset @ [Retain p, Release q]\<rparr>, q))
                   | mulle_container_insert_e \<Rightarrow> Some (pset, q)
                   | mulle_container_update_e \<Rightarrow> absent 0xfeedface))
         else pointerset_append pset p hash callback)"

definition u_mulle__pointerset_set_generic ::
    "mulle__pointerset \<Rightarrow> pointer \<Rightarrow> mulle_container_keycallback \<Rightarrow> mulle__pointerset option" where
  "u_mulle__pointerset_set_generic pset p callback =
     map_option fst (u_mulle__pointerset_write_generic pset p mulle_container_overwrite_e callback)"

definition u_mulle__pointerset_insert_generic ::
    "mulle__pointerset \<Rightarrow> pointer \<Rightarrow> mulle_container_keycallback \<Rightarrow>
     (mulle__pointerset \<times> bool) option" where
  "u_mulle__pointerset_insert_generic pset p callback =
     map_option (\<lambda>(pset, old). (pset, old = kc_notakey callback))
       (u_mulle__pointerset_write_generic pset p mulle_container_insert_e callback)"

definition u_mulle__pointerset_register_generic ::
    "mulle__pointerset \<Rightarrow> pointer \<Rightarrow> mulle_container_keycallback \<Rightarrow>
     (mulle__pointerset \<times> pointer) option" where
  "u_mulle__pointerset_register_generic pset p callback =
     map_option (\<lambda>(pset, old). (pset, if old \<noteq> kc_notakey callback then old else p))
       (u_mulle__pointerset_write_generic pset p mulle_container_insert_e callback)"

definition u_mulle__pointerset_pointerequalitysearch_generic ::
    "mulle__pointerset \<Rightarrow> pointer \<Rightarrow> pointer \<Rightarrow> pointer" where
  "u_mulle__pointerset_pointerequalitysearch_generic pset key notakey =
     (if List.member (ps_storage pset) key then key else notakey)"

text \<open>One round of the search for a key, at the index \<open>i\<close>: the next index, or the slot that ends it.\<close>

definition pointerset_get_step ::
    "pointer list \<Rightarrow> size_t \<Rightarrow> pointer \<Rightarrow> mulle_container_keycallback \<Rightarrow> size_t \<Rightarrow> (size_t + pointer) option" where
  "pointerset_get_step storage sz key callback i =
     map_option (\<lambda>found.
       if found = kc_notakey callback \<or> key = found \<or> kc_is_equal callback found key then Inr found
       else Inl ((i + 1) AND (sz - 1))) (slot storage i)"

partial_function (option) pointerset_get_loop ::
    "pointer list \<Rightarrow> size_t \<Rightarrow> pointer \<Rightarrow> size_t \<Rightarrow> mulle_container_keycallback \<Rightarrow> pointer option" where
  "pointerset_get_loop storage sz key i callback =
     Option.bind (pointerset_get_step storage sz key callback i) (\<lambda>r.
       case r of
         Inl i \<Rightarrow> pointerset_get_loop storage sz key i callback
       | Inr found \<Rightarrow> Some found)"

declare pointerset_get_loop.simps [code]

definition u_mulle__pointerset__get_generic ::
    "mulle__pointerset \<Rightarrow> pointer \<Rightarrow> mulle_container_keycallback \<Rightarrow> pointer option" where
  "u_mulle__pointerset__get_generic pset key callback =
     pointerset_get_loop (ps_storage pset) (ps_size pset) key
       (mulle__pointerset_hash_for_size (kc_hash callback key) (ps_size pset)) callback"

definition u_mulle__pointerset_get_generic ::
    "mulle__pointerset \<Rightarrow> pointer \<Rightarrow> mulle_container_keycallback \<Rightarrow> pointer option" where
  "u_mulle__pointerset_get_generic pset key callback =
     (if ps_count pset = 0 then Some (kc_notakey callback)
      else
        let value = (if ps_size pset \<le> 32
              then u_mulle__pointerset_pointerequalitysearch_generic pset key (kc_notakey callback)
              else kc_notakey callback)
        in if value \<noteq> kc_notakey callback then Some value
           else u_mulle__pointerset__get_generic pset key callback)"

definition u_mulle__pointerset_member_generic ::
    "mulle__pointerset \<Rightarrow> pointer \<Rightarrow> mulle_container_keycallback \<Rightarrow> bool option" where
  "u_mulle__pointerset_member_generic pset p callback =
     map_option (\<lambda>q. q \<noteq> kc_notakey callback) (u_mulle__pointerset_get_generic pset p callback)"

section \<open>Shrinking and removing\<close>

function pointerset_shrink_loop :: "mulle__pointerset \<Rightarrow> size_t \<Rightarrow> size_t" where
  "pointerset_shrink_loop pset new_size =
     (if u_mulle__pointerset_is_sparse_size pset new_size
      then (let new_size = new_size div 2
            in if new_size < 4 then new_size else pointerset_shrink_loop pset new_size)
      else new_size)"
  by pat_completeness auto
termination
proof (relation "measure (\<lambda>(pset, s). unat s)")
  fix pset :: mulle__pointerset and new_size new_size' :: "64 word"
  assume "u_mulle__pointerset_is_sparse_size pset new_size" "new_size' = new_size div 2" "\<not> new_size' < 4"
  then have "unat new_size' = unat new_size div 2" "4 \<le> unat new_size'"
    by (auto simp: unat_div word_less_nat_alt not_less)
  then show "((pset, new_size'), pset, new_size) \<in> measure (\<lambda>(pset, s). unat s)" by simp
qed simp

declare pointerset_shrink_loop.simps [simp del]

definition u_mulle__pointerset_shrink_generic ::
    "mulle__pointerset \<Rightarrow> mulle_container_keycallback \<Rightarrow> mulle__pointerset option" where
  "u_mulle__pointerset_shrink_generic pset callback =
     (let new_size = pointerset_shrink_loop pset (ps_size pset div 2);
          new_size = (if new_size < 4 then 4 else new_size)
      in if new_size \<ge> ps_size pset then Some pset else pointerset_rehash pset new_size callback)"

text \<open>
  The loop of the removal that closes the gap at \<open>dst_index\<close>: a key that would not be found behind
  the gap moves into it, and the gap moves to where the key was.
\<close>

definition pointerset_stays :: "size_t \<Rightarrow> size_t \<Rightarrow> size_t \<Rightarrow> bool" where
  "pointerset_stays search_start i dst_index =
     (if search_start > i then dst_index > i \<and> search_start > dst_index
      else dst_index > i \<or> search_start > dst_index)"

partial_function (option) pointerset_remove_loop ::
    "pointer list \<Rightarrow> size_t \<Rightarrow> size_t \<Rightarrow> size_t \<Rightarrow> mulle_container_keycallback \<Rightarrow> pointer list option" where
  "pointerset_remove_loop storage sz dst_index i callback =
     (let i = (i + 1) AND (sz - 1)
      in Option.bind (slot storage i) (\<lambda>q.
           if q = kc_notakey callback then set_slot storage dst_index (kc_notakey callback)
           else if pointerset_stays
               (mulle__pointerset_hash_for_size (kc_hash callback q) sz) i dst_index
           then pointerset_remove_loop storage sz dst_index i callback
           else Option.bind (set_slot storage dst_index q) (\<lambda>storage.
             pointerset_remove_loop storage sz i i callback)))"

declare pointerset_remove_loop.simps [code]

definition u_mulle__pointerset_remove_generic ::
    "mulle__pointerset \<Rightarrow> pointer \<Rightarrow> mulle_container_keycallback \<Rightarrow>
     (mulle__pointerset \<times> bool) option" where
  "u_mulle__pointerset_remove_generic pset p callback =
     (if ps_count pset = 0 then Some (pset, False)
      else
        Option.bind (find_index_generic (ps_storage pset) (ps_size pset) p (kc_hash callback p) callback)
          (\<lambda>r. case r of
             Inl _ \<Rightarrow> Some (pset, False)
           | Inr i \<Rightarrow>
               Option.bind (slot (ps_storage pset) i) (\<lambda>q.
               Option.bind (pointerset_remove_loop (ps_storage pset) (ps_size pset) i i callback) (\<lambda>storage.
                 Some (pset\<lparr>ps_storage := storage, ps_count := ps_count pset - 1,
                   ps_n_mutations := ps_n_mutations pset + 1,
                   ps_events := ps_events pset @ [Release q]\<rparr>, True)))))"

section \<open>Enumeration and set operations\<close>

text \<open>
  The enumerator walks the slots, \<open>en_curr\<close> is what lies ahead of its pointer. None of the loops
  that enumerate changes the set it enumerates, so a loop is modelled as a fold over the items.
\<close>

record mulle__genericpointersetenumerator =
  en_curr :: "pointer list"
  en_left :: size_t
  en_notakey :: pointer

definition u_mulle__pointerset_enumerate_generic ::
    "mulle__pointerset \<Rightarrow> mulle_container_keycallback \<Rightarrow> mulle__genericpointersetenumerator" where
  "u_mulle__pointerset_enumerate_generic pset callback =
     \<lparr>en_curr = ps_storage pset, en_left = ps_count pset, en_notakey = kc_notakey callback\<rparr>"

definition u_mulle__genericpointersetenumerator_next ::
    "mulle__genericpointersetenumerator \<Rightarrow>
     (mulle__genericpointersetenumerator \<times> pointer option) option" where
  "u_mulle__genericpointersetenumerator_next rover =
     (if en_left rover = 0 then Some (rover, None)
      else (case dropWhile (\<lambda>p. p = en_notakey rover) (en_curr rover) of
              [] \<Rightarrow> None
            | p # curr' \<Rightarrow> Some (rover\<lparr>en_curr := curr', en_left := en_left rover - 1\<rparr>, Some p)))"

partial_function (option) pointerset_items_loop ::
    "mulle__genericpointersetenumerator \<Rightarrow> pointer list option" where
  "pointerset_items_loop rover =
     Option.bind (u_mulle__genericpointersetenumerator_next rover) (\<lambda>(rover, item).
       case item of
         None \<Rightarrow> Some []
       | Some p \<Rightarrow> Option.bind (pointerset_items_loop rover) (\<lambda>ps. Some (p # ps)))"

declare pointerset_items_loop.simps [code]

definition pointerset_items ::
    "mulle__pointerset \<Rightarrow> mulle_container_keycallback \<Rightarrow> pointer list option" where
  "pointerset_items pset callback =
     pointerset_items_loop (u_mulle__pointerset_enumerate_generic pset callback)"

definition u_mulle__pointerset_release_all_generic ::
    "mulle__pointerset \<Rightarrow> mulle_container_keycallback \<Rightarrow> mulle__pointerset option" where
  "u_mulle__pointerset_release_all_generic pset callback =
     (if kc_releases callback
      then Option.bind (pointerset_items pset callback) (\<lambda>items.
        Some (pset\<lparr>ps_events := ps_events pset @ map Release items\<rparr>))
      else Some pset)"

fun pointerset_copy_loop ::
    "mulle__pointerset \<Rightarrow> pointer list \<Rightarrow> mulle_container_keycallback \<Rightarrow> mulle__pointerset option" where
  "pointerset_copy_loop dst [] callback = Some dst"
| "pointerset_copy_loop dst (item # items) callback =
     Option.bind (u_mulle__pointerset_set_generic dst item callback) (\<lambda>dst.
       pointerset_copy_loop dst items callback)"

definition u_mulle__pointerset_copy_items_generic ::
    "mulle__pointerset \<Rightarrow> mulle__pointerset \<Rightarrow> mulle_container_keycallback \<Rightarrow>
     mulle__pointerset option" where
  "u_mulle__pointerset_copy_items_generic dst src callback =
     Option.bind (pointerset_items src callback) (\<lambda>items. pointerset_copy_loop dst items callback)"

fun pointerset_intersect_loop ::
    "mulle__pointerset \<Rightarrow> mulle__pointerset \<Rightarrow> pointer list \<Rightarrow> mulle_container_keycallback \<Rightarrow>
     mulle__pointerset option" where
  "pointerset_intersect_loop tmp b [] callback = Some tmp"
| "pointerset_intersect_loop tmp b (item # items) callback =
     Option.bind (u_mulle__pointerset_get_generic b item callback) (\<lambda>found.
     Option.bind (if found \<noteq> kc_notakey callback
                  then u_mulle__pointerset_set_generic tmp item callback else Some tmp) (\<lambda>tmp.
       pointerset_intersect_loop tmp b items callback))"

text \<open>
  The end of both operations: \<open>dst\<close> gives up its keys and its storage and takes over \<open>tmp\<close>.
\<close>

definition pointerset_replace ::
    "mulle__pointerset \<Rightarrow> mulle__pointerset \<Rightarrow> mulle_container_keycallback \<Rightarrow>
     mulle__pointerset option" where
  "pointerset_replace dst tmp callback =
     Option.bind (u_mulle__pointerset_release_all_generic
         (dst\<lparr>ps_events := ps_events dst @ ps_events tmp\<rparr>) callback) (\<lambda>dst.
       Some (tmp\<lparr>ps_n_mutations := ps_n_mutations dst + 1, ps_events := ps_events dst\<rparr>))"

definition u_mulle__pointerset_intersect_generic ::
    "mulle__pointerset \<Rightarrow> mulle__pointerset option \<Rightarrow> mulle__pointerset option \<Rightarrow>
     mulle_container_keycallback \<Rightarrow> mulle__pointerset option" where
  "u_mulle__pointerset_intersect_generic dst a b callback =
     Option.bind (case (a, b) of
         (Some a, Some b) \<Rightarrow>
           Option.bind (u_mulle__pointerset_allocate_storage_generic (ps_size a) (kc_notakey callback))
             (\<lambda>storage. Option.bind (pointerset_items a callback) (\<lambda>items.
               pointerset_intersect_loop
                 (pointerset_zero\<lparr>ps_size := ps_size a, ps_storage := storage\<rparr>) b items callback))
       | _ \<Rightarrow> Some pointerset_zero)
       (\<lambda>tmp. pointerset_replace dst tmp callback)"

definition u_mulle__pointerset_union_generic ::
    "mulle__pointerset \<Rightarrow> mulle__pointerset option \<Rightarrow> mulle__pointerset option \<Rightarrow>
     mulle_container_keycallback \<Rightarrow> mulle__pointerset option" where
  "u_mulle__pointerset_union_generic dst a b callback =
     Option.bind
       (if a \<noteq> None \<or> b \<noteq> None
        then
          let sz = mulle_pow2round ((case a of Some a \<Rightarrow> ps_count a | None \<Rightarrow> 0) +
                                      (case b of Some b \<Rightarrow> ps_count b | None \<Rightarrow> 0));
              tmp = pointerset_zero\<lparr>ps_size := sz\<rparr>
          in if sz \<noteq> 0
             then Option.bind
               (u_mulle__pointerset_allocate_storage_generic sz (kc_notakey callback)) (\<lambda>storage.
               Option.bind (case a of
                   Some a \<Rightarrow> u_mulle__pointerset_copy_items_generic (tmp\<lparr>ps_storage := storage\<rparr>) a callback
                 | None \<Rightarrow> Some (tmp\<lparr>ps_storage := storage\<rparr>)) (\<lambda>tmp.
                 case b of
                   Some b \<Rightarrow> u_mulle__pointerset_copy_items_generic tmp b callback
                 | None \<Rightarrow> Some tmp))
             else Some tmp
        else Some pointerset_zero)
       (\<lambda>tmp. pointerset_replace dst tmp callback)"

section \<open>Sets of plain pointers\<close>

definition mulle_hash_avalanche64 :: "uint64_t \<Rightarrow> uint64_t" where
  "mulle_hash_avalanche64 h =
     (let h = h XOR drop_bit 33 h;
          h = h * 0xff51afd7ed558ccd;
          h = h XOR drop_bit 33 h;
          h = h * 0xc4ceb9fe1a85ec53;
          h = h XOR drop_bit 33 h
      in h)"

definition mulle_pointer_hash :: "pointer \<Rightarrow> uintptr_t" where
  "mulle_pointer_hash p = mulle_hash_avalanche64 p"

text \<open>\<open>(void *) INTPTR_MIN\<close>\<close>

definition mulle_not_a_pointer :: pointer where
  "mulle_not_a_pointer = 0x8000000000000000"

definition mulle_container_keycallback_nonowned_pointer_or_null :: mulle_container_keycallback where
  "mulle_container_keycallback_nonowned_pointer_or_null =
     \<lparr>kc_hash = mulle_pointer_hash, kc_is_equal = (\<lambda>a b. a = b), kc_retain = (\<lambda>p. p),
      kc_releases = False, kc_notakey = mulle_not_a_pointer\<rparr>"

definition pointerset_initial_size :: "size_t \<Rightarrow> size_t" where
  "pointerset_initial_size capacity =
     (if capacity \<ge> 4 then mulle_pow2round (capacity + drop_bit 2 capacity) else 4)"

definition u_mulle__pointerset_init :: "size_t \<Rightarrow> mulle__pointerset option" where
  "u_mulle__pointerset_init capacity =
     (if capacity \<noteq> 0 then
        let sz = pointerset_initial_size capacity
        in Option.bind (u_mulle__pointerset_allocate_storage_generic sz mulle_not_a_pointer)
             (\<lambda>storage. Some (pointerset_zero\<lparr>ps_size := sz, ps_storage := storage\<rparr>))
      else Some pointerset_zero)"

text \<open>
  A capacity below 4 makes the code fill the null pointer it has just set as initial storage.
\<close>

definition u_mulle__pointerset_init_with_static_pointers ::
    "pointer list \<Rightarrow> size_t \<Rightarrow> mulle__pointerset option" where
  "u_mulle__pointerset_init_with_static_pointers storage capacity =
     (let sz = mulle_pow2rounddown capacity
      in if sz < 4 then (if capacity = 0 then Some pointerset_zero else None)
         else Option.bind
           (u_mulle__pointerset_init_storage_generic storage capacity mulle_not_a_pointer) (\<lambda>storage.
             Some (pointerset_zero\<lparr>ps_storage := take (unat sz) storage, ps_static := True,
               ps_size := sz\<rparr>)))"

definition u_mulle__pointerset_reset :: "mulle__pointerset \<Rightarrow> mulle__pointerset" where
  "u_mulle__pointerset_reset pset = u_mulle__pointerset_reset_generic pset mulle_not_a_pointer"

definition u_mulle__pointerset_set ::
    "mulle__pointerset \<Rightarrow> pointer \<Rightarrow> mulle__pointerset option" where
  "u_mulle__pointerset_set pset p =
     u_mulle__pointerset_set_generic pset p mulle_container_keycallback_nonowned_pointer_or_null"

definition u_mulle__pointerset_insert ::
    "mulle__pointerset \<Rightarrow> pointer \<Rightarrow> (mulle__pointerset \<times> bool) option" where
  "u_mulle__pointerset_insert pset p =
     u_mulle__pointerset_insert_generic pset p mulle_container_keycallback_nonowned_pointer_or_null"

definition u_mulle__pointerset_register ::
    "mulle__pointerset \<Rightarrow> pointer \<Rightarrow> (mulle__pointerset \<times> pointer) option" where
  "u_mulle__pointerset_register pset p =
     u_mulle__pointerset_register_generic pset p mulle_container_keycallback_nonowned_pointer_or_null"

definition u_mulle__pointerset_shrink :: "mulle__pointerset \<Rightarrow> mulle__pointerset option" where
  "u_mulle__pointerset_shrink pset =
     u_mulle__pointerset_shrink_generic pset mulle_container_keycallback_nonowned_pointer_or_null"

definition u_mulle__pointerset_shrink_if_needed :: "mulle__pointerset \<Rightarrow> mulle__pointerset option" where
  "u_mulle__pointerset_shrink_if_needed pset =
     (if u_mulle__pointerset_is_sparse pset then u_mulle__pointerset_shrink pset else Some pset)"

definition u_mulle__pointerset_remove ::
    "mulle__pointerset \<Rightarrow> pointer \<Rightarrow> (mulle__pointerset \<times> bool) option" where
  "u_mulle__pointerset_remove pset p =
     u_mulle__pointerset_remove_generic pset p mulle_container_keycallback_nonowned_pointer_or_null"

partial_function (option) pointerset_plain_get_loop ::
    "pointer list \<Rightarrow> size_t \<Rightarrow> pointer \<Rightarrow> size_t \<Rightarrow> pointer option" where
  "pointerset_plain_get_loop storage sz key i =
     Option.bind (slot storage i) (\<lambda>found.
       if found = mulle_not_a_pointer \<or> key = found then Some found
       else pointerset_plain_get_loop storage sz key ((i + 1) AND (sz - 1)))"

declare pointerset_plain_get_loop.simps [code]

definition u_mulle__pointerset__get :: "mulle__pointerset \<Rightarrow> pointer \<Rightarrow> pointer option" where
  "u_mulle__pointerset__get pset key =
     pointerset_plain_get_loop (ps_storage pset) (ps_size pset) key
       (mulle__pointerset_hash_for_size (mulle_pointer_hash key) (ps_size pset))"

text \<open>The result 0 is the null pointer.\<close>

definition u_mulle__pointerset_get :: "mulle__pointerset \<Rightarrow> pointer \<Rightarrow> pointer option" where
  "u_mulle__pointerset_get pset key =
     (if ps_count pset = 0 then Some 0
      else Option.bind (u_mulle__pointerset__get pset key) (\<lambda>value.
        Some (if value = mulle_not_a_pointer then 0 else value)))"

definition u_mulle__pointerset_copy_items ::
    "mulle__pointerset \<Rightarrow> mulle__pointerset \<Rightarrow> mulle__pointerset option" where
  "u_mulle__pointerset_copy_items dst src =
     u_mulle__pointerset_copy_items_generic dst src mulle_container_keycallback_nonowned_pointer_or_null"

definition u_mulle__pointerset_copy :: "mulle__pointerset \<Rightarrow> mulle__pointerset option" where
  "u_mulle__pointerset_copy pset =
     Option.bind (u_mulle__pointerset_init (ps_count pset)) (\<lambda>other.
       u_mulle__pointerset_copy_items_generic other pset
         mulle_container_keycallback_nonowned_pointer_or_null)"

section \<open>Sets with callbacks\<close>

definition u_mulle__set_init ::
    "size_t \<Rightarrow> mulle_container_keycallback \<Rightarrow> mulle__pointerset option" where
  "u_mulle__set_init capacity callback =
     (let sz = pointerset_initial_size capacity
      in Option.bind (u_mulle__pointerset_allocate_storage_generic sz (kc_notakey callback))
           (\<lambda>storage. Some (pointerset_zero\<lparr>ps_size := sz, ps_storage := storage\<rparr>)))"

definition u_mulle__set_reset ::
    "mulle__pointerset \<Rightarrow> mulle_container_keycallback \<Rightarrow> mulle__pointerset option" where
  "u_mulle__set_reset pset callback =
     Option.bind (u_mulle__pointerset_release_all_generic pset callback) (\<lambda>pset.
       Some (u_mulle__pointerset_reset_generic pset (kc_notakey callback)))"

definition u_mulle__set_copy ::
    "mulle__pointerset \<Rightarrow> mulle_container_keycallback \<Rightarrow> mulle__pointerset option" where
  "u_mulle__set_copy pset callback =
     Option.bind (u_mulle__set_init (ps_count pset) callback) (\<lambda>other.
       u_mulle__pointerset_copy_items_generic other pset callback)"

section \<open>What the set relies on and what it keeps\<close>

text \<open>
  The callbacks: the equality is an equivalence on keys, equal keys have the same hash, and
  retaining a key gives an equal key. \<open>notakey\<close> is not a key.
\<close>

definition keycallback_ok :: "mulle_container_keycallback \<Rightarrow> bool" where
  "keycallback_ok cb \<longleftrightarrow>
     (\<forall>x. x \<noteq> kc_notakey cb \<longrightarrow> kc_is_equal cb x x) \<and>
     (\<forall>x y. x \<noteq> kc_notakey cb \<longrightarrow> y \<noteq> kc_notakey cb \<longrightarrow> kc_is_equal cb x y \<longrightarrow> kc_is_equal cb y x) \<and>
     (\<forall>x y z. x \<noteq> kc_notakey cb \<longrightarrow> y \<noteq> kc_notakey cb \<longrightarrow> z \<noteq> kc_notakey cb \<longrightarrow>
        kc_is_equal cb x y \<longrightarrow> kc_is_equal cb y z \<longrightarrow> kc_is_equal cb x z) \<and>
     (\<forall>x y. x \<noteq> kc_notakey cb \<longrightarrow> y \<noteq> kc_notakey cb \<longrightarrow> kc_is_equal cb x y \<longrightarrow>
        kc_hash cb x = kc_hash cb y) \<and>
     (\<forall>x. x \<noteq> kc_notakey cb \<longrightarrow> kc_retain cb x \<noteq> kc_notakey cb \<and> kc_is_equal cb (kc_retain cb x) x)"

definition ps_home :: "mulle_container_keycallback \<Rightarrow> nat \<Rightarrow> pointer \<Rightarrow> nat" where
  "ps_home cb n x = unat (mulle__pointerset_hash_for_size (kc_hash cb x) (of_nat n))"

abbreviation ps_keys :: "mulle_container_keycallback \<Rightarrow> mulle__pointerset \<Rightarrow> pointer multiset" where
  "ps_keys cb s \<equiv> used_slots (kc_notakey cb) (ps_storage s)"

text \<open>
  The invariant: the storage has \<open>_size\<close> slots, zero or a power of two from 4 on, \<open>_count\<close> of them
  are used and at most three quarters, every key is reachable by probing and no two are equal.
\<close>

definition pointerset_inv :: "mulle_container_keycallback \<Rightarrow> mulle__pointerset \<Rightarrow> bool" where
  "pointerset_inv cb s \<longleftrightarrow>
     length (ps_storage s) = unat (ps_size s) \<and>
     unat (ps_count s) = size (ps_keys cb s) \<and>
     (ps_size s \<noteq> 0 \<longrightarrow>
        (\<exists>k\<ge>2. unat (ps_size s) = 2 ^ k) \<and>
        probing.table (kc_notakey cb) (kc_is_equal cb) (ps_home cb) (ps_storage s) \<and>
        unat (ps_count s) \<le> 3 * (unat (ps_size s) div 4))"

locale callback_table =
  fixes cb :: mulle_container_keycallback
  assumes callbacks: "keycallback_ok cb"
begin

lemma retain_key:
  "x \<noteq> kc_notakey cb \<Longrightarrow> kc_retain cb x \<noteq> kc_notakey cb"
  "x \<noteq> kc_notakey cb \<Longrightarrow> kc_is_equal cb (kc_retain cb x) x"
  using callbacks by (auto simp: keycallback_ok_def)

end

lemma get_step_bind:
  "Option.bind (pointerset_get_step t sz key cb i) (\<lambda>r. case r of Inl i \<Rightarrow> f i | Inr found \<Rightarrow> Some found) =
   Option.bind (slot t i) (\<lambda>found.
     if found = kc_notakey cb \<or> key = found \<or> kc_is_equal cb found key then Some found
     else f ((i + 1) AND (sz - 1)))"
  by (cases "slot t i") (simp_all add: pointerset_get_step_def)

lemma get_loop_unfold:
  "pointerset_get_loop t sz key i cb =
   Option.bind (slot t i) (\<lambda>found.
     if found = kc_notakey cb \<or> key = found \<or> kc_is_equal cb found key then Some found
     else pointerset_get_loop t sz key ((i + 1) AND (sz - 1)) cb)"
  by (subst pointerset_get_loop.simps) (rule get_step_bind)

text \<open>The search returns when some number of its rounds ends it; otherwise a read fails or it runs forever.\<close>

lemma get_loop_run:
  "loop_run (pointerset_get_step t sz key cb) n i = Some (Inr q) \<Longrightarrow>
   pointerset_get_loop t sz key i cb = Some q"
proof (induction n arbitrary: i)
  case (Suc n)
  then show ?case
    by (subst pointerset_get_loop.simps) (auto simp: bind_eq_Some_conv split: sum.splits)
qed simp

lemma get_loop_returns:
  assumes "pointerset_get_loop t sz key i cb = Some q"
  shows "\<exists>n. loop_run (pointerset_get_step t sz key cb) n i = Some (Inr q)"
proof (rule pointerset_get_loop.raw_induct [OF _ assms, where P = "\<lambda>t sz key i cb q.
    \<exists>n. loop_run (pointerset_get_step t sz key cb) n i = Some (Inr q)"])
  fix loop t sz key i cb q
  assume IH: "\<And>t sz key i cb q. loop t sz key i cb = Some q \<Longrightarrow>
      \<exists>n. loop_run (pointerset_get_step t sz key cb) n i = Some (Inr q)"
    and body: "Option.bind (pointerset_get_step t sz key cb i) (\<lambda>r.
        case r of Inl i \<Rightarrow> loop t sz key i cb | Inr found \<Rightarrow> Some found) = Some q"
  from body obtain r where r: "pointerset_get_step t sz key cb i = Some r" by (auto simp: bind_eq_Some_conv)
  show "\<exists>n. loop_run (pointerset_get_step t sz key cb) n i = Some (Inr q)"
  proof (cases r)
    case (Inl j)
    with body r have "loop t sz key j cb = Some q" by simp
    from IH [OF this] obtain n where "loop_run (pointerset_get_step t sz key cb) n j = Some (Inr q)" by blast
    with r Inl show ?thesis by (intro exI [of _ "Suc n"]) simp
  next
    case (Inr x)
    with body r show ?thesis by (intro exI [of _ 1]) simp
  qed
qed

lemma get_loop_forever:
  assumes "runs_forever (pointerset_get_step t sz key cb) i"
  shows "pointerset_get_loop t sz key i cb = None"
proof (cases "pointerset_get_loop t sz key i cb")
  case (Some q)
  then obtain n where n: "loop_run (pointerset_get_step t sz key cb) n i = Some (Inr q)"
    using get_loop_returns by blast
  obtain j where "loop_run (pointerset_get_step t sz key cb) n i = Some (Inl j)"
    using assms unfolding runs_forever_def by blast
  with n show ?thesis by simp
qed

lemma allocate_storage:
  assumes "0 < unat n" "unat n \<le> 2 ^ 60"
  shows "u_mulle__pointerset_allocate_storage_generic n notakey = Some (replicate (unat n) notakey)"
proof -
  have "unat n * unat (8 :: size_t) < 2 ^ 64" using assms(2) by simp
  from alloc_array [OF assms(1) _ this] show ?thesis
    by (simp add: u_mulle__pointerset_allocate_storage_generic_def
        u_mulle__pointerset_init_storage_generic_def)
qed

lemma allocate_nothing: "u_mulle__pointerset_allocate_storage_generic 0 notakey = None"
  by (simp only: u_mulle__pointerset_allocate_storage_generic_def alloc_nothing bind.bind_lzero
      option.map if_cancel)

lemma hash_for_size_less:
  assumes "2 \<le> n"
  shows "unat (mulle__pointerset_hash_for_size h (of_nat n)) < n"
proof (cases "n < 2 ^ 64")
  case True
  have "unat (mulle__pointerset_hash_for_size h (of_nat n)) \<le> unat (of_nat n - 2 :: 64 word)"
    unfolding mulle__pointerset_hash_for_size_def by (simp add: word_and_le1 flip: word_le_nat_alt)
  also have "\<dots> = n - 2" using True assms by (simp add: unat64_sub unat64_of_nat)
  finally show ?thesis using assms by linarith
next
  case False
  then show ?thesis using unat64_less [of "mulle__pointerset_hash_for_size h (of_nat n)"] by linarith
qed

sublocale callback_table \<subseteq> probing "kc_notakey cb" "kc_is_equal cb" "ps_home cb"
proof
  fix n :: nat and x assume "2 \<le> n"
  then show "ps_home cb n x < n" by (simp add: ps_home_def hash_for_size_less)
next
  fix x y n assume "x \<noteq> kc_notakey cb" "y \<noteq> kc_notakey cb" "kc_is_equal cb x y"
  then have "kc_hash cb x = kc_hash cb y" using callbacks unfolding keycallback_ok_def by blast
  then show "ps_home cb n x = ps_home cb n y" by (simp add: ps_home_def)
qed (use callbacks in \<open>unfold keycallback_ok_def, blast+\<close>)

section \<open>Steps of a probing loop\<close>

lemma mask_step:
  assumes "unat sz = 2 ^ k" "unat (i :: 64 word) < 2 ^ k"
  shows "unat ((i + 1) AND (sz - 1)) = Suc (unat i) mod 2 ^ k"
proof -
  have k: "k < 64" using assms(1) unat64_less [of sz] by (intro power_less_imp_less_exp [of 2]) auto
  have "sz = 2 ^ k" using assms(1) unat_exp [where 'a = 64, of k] k by (simp add: word_unat_eq_iff)
  then have "(i + 1) AND (sz - 1) = take_bit k (i + 1)"
    by (simp add: take_bit_eq_mask mask_eq_exp_minus_1)
  moreover have "(2::nat) ^ k \<le> 2 ^ 63" using k by (intro power_increasing) auto
  with assms(2) have "unat (i + 1) = Suc (unat i)" by (simp add: unat64_add)
  ultimately have "unat ((i + 1) AND (sz - 1)) = take_bit k (Suc (unat i))"
    by (simp only: unsigned_take_bit_eq)
  then show ?thesis by (simp add: take_bit_eq_mod)
qed

lemma wrap_step:
  assumes "unat sz = n" "unat (i :: 64 word) < n"
  shows "unat (if i + 1 < sz then i + 1 else 0) = Suc (unat i) mod n"
proof -
  have "unat (i + 1) = Suc (unat i)" using assms unat64_less [of sz] by (simp add: unat64_add)
  then show ?thesis using assms by (auto simp: word_less_nat_alt mod_if)
qed

lemma Suc_add_mod: "Suc ((a + b) mod n) mod n = (a + Suc b) mod n"
  by (simp add: mod_Suc_eq)

lemma home_start:
  assumes "unat sz = n"
  shows "unat (mulle__pointerset_hash_for_size (kc_hash cb p) sz) = ps_home cb n p"
proof -
  have "of_nat n = sz" using assms by auto
  then show ?thesis by (simp add: ps_home_def)
qed

section \<open>The loops\<close>

context callback_table
begin

abbreviation nk :: pointer where
  "nk \<equiv> kc_notakey cb"

abbreviation path :: "pointer list \<Rightarrow> pointer \<Rightarrow> nat \<Rightarrow> nat" where
  "path t p d \<equiv> (ps_home cb (length t) p + d) mod length t"

lemma find_loop:
  assumes sz: "unat sz = 2 ^ k" "length t = 2 ^ k"
    and before: "\<forall>e<d. t ! path t p e \<noteq> nk \<and> \<not> kc_is_equal cb p (t ! path t p e)"
    and stop: "t ! path t p d = nk \<or> kc_is_equal cb p (t ! path t p d)"
    and i: "e \<le> d" "unat i = path t p e" "t ! unat i \<noteq> nk"
  shows "u_find_index_generic t sz p (t ! unat i) i cb =
    Some ((if t ! path t p d = nk then Inl else Inr) (of_nat (path t p d)))"
  using i
proof (induction "d - e" arbitrary: e i)
  case 0
  then have "unat i = path t p d" "t ! path t p d \<noteq> nk" by auto
  moreover from this(1) have "of_nat (path t p d) = i" by (rule unat_eq_of_nat)
  ultimately show ?case using stop by (subst u_find_index_generic.simps) simp
next
  case (Suc m)
  let ?j = "(i + 1) AND (sz - 1)"
  have e: "e < d" using Suc.hyps(2) by linarith
  have less: "unat i < 2 ^ k" using Suc.prems(2) sz(2) by (simp add: mod_less_divisor)
  have j: "unat ?j = path t p (Suc e)"
    using mask_step [OF sz(1) less] Suc.prems(2) sz(2) by (simp only: Suc_add_mod)
  then have "unat ?j < length t" using sz(2) by (simp add: mod_less_divisor)
  then have slot: "slot t ?j = Some (t ! unat ?j)" by (rule slot_Some)
  have unf: "u_find_index_generic t sz p (t ! unat i) i cb =
      (if t ! unat ?j \<noteq> nk then u_find_index_generic t sz p (t ! unat ?j) ?j cb else Some (Inl ?j))"
    using before e Suc.prems(2) slot by (subst u_find_index_generic.simps) (simp add: Let_def)
  show ?case
  proof (cases "t ! unat ?j = nk")
    case True
    then have "Suc e = d" using before j e by (metis Suc_leI le_neq_implies_less)
    with True j unf unat_eq_of_nat [OF j] show ?thesis by simp
  next
    case False
    with Suc.hyps(1) [of "Suc e" ?j] Suc.hyps(2) j e unf show ?thesis by simp
  qed
qed

lemma path_less: "length t = 2 ^ k \<Longrightarrow> path t p d < length t"
  by (simp add: mod_less_divisor)

text \<open>What a search finds: the slot of an equal key, or the free slot where the search path ends.\<close>

lemma find_index_cases:
  assumes sz: "unat sz = 2 ^ k" "length t = 2 ^ k" and t: "table t"
    and free: "size (used_slots nk t) < length t" and p: "p \<noteq> nk"
  obtains (found) i where "find_index_generic t sz p (kc_hash cb p) cb = Some (Inr i)"
      "unat i < length t" "t ! unat i \<noteq> nk" "kc_is_equal cb p (t ! unat i)"
  | (hole) i d where "find_index_generic t sz p (kc_hash cb p) cb = Some (Inl i)"
      "unat i = path t p d" "d < length t" "t ! unat i = nk" "\<forall>e<d. t ! path t p e \<noteq> nk"
      "\<forall>j<length t. t ! j \<noteq> nk \<longrightarrow> \<not> kc_is_equal cb p (t ! j)"
proof -
  obtain d where d: "d < length t" "t ! path t p d = nk \<or> kc_is_equal cb p (t ! path t p d)"
    "\<forall>e<d. t ! path t p e \<noteq> nk \<and> \<not> kc_is_equal cb p (t ! path t p e)"
    using search_ends [OF t free, of p] .
  let ?i = "mulle__pointerset_hash_for_size (kc_hash cb p) sz"
  have i: "unat ?i = path t p 0"
    using home_start [of sz "length t" cb p] sz home_less [of "length t" p] t
    by (simp add: table_def)
  have less: "unat ?i < length t" unfolding i by (rule path_less [OF sz(2)])
  let ?j = "of_nat (path t p d) :: 64 word"
  have j: "unat ?j = path t p d"
    using path_less [OF sz(2), of p d] sz unat64_less [of sz] by (intro unat64_of_nat) linarith
  have res: "find_index_generic t sz p (kc_hash cb p) cb =
      Some ((if t ! path t p d = nk then Inl else Inr) ?j)"
  proof (cases "t ! unat ?i = nk")
    case True
    then have "d = 0" using d(3) i by (metis gr0I)
    then have "path t p d = unat ?i" using i by simp
    then show ?thesis using True less
      by (simp only: find_index_generic_def Let_def slot_Some [OF less]) simp
  next
    case False
    with find_loop [OF sz d(3,2) _ i] slot_Some [OF less] show ?thesis
      by (simp add: find_index_generic_def Let_def)
  qed
  show thesis
  proof (cases "t ! path t p d = nk")
    case True
    have "\<forall>j<length t. t ! j \<noteq> nk \<longrightarrow> \<not> kc_is_equal cb p (t ! j)"
      using absent_at_free_slot [OF t p d(1) True] d(3) by blast
    with True res j d show thesis by (intro hole [of ?j d]) simp_all
  next
    case False
    with res j d path_less [OF sz(2), of p d] show thesis by (intro found [of ?j]) simp_all
  qed
qed

lemma store_loop:
  assumes sz: "unat sz = length t" and before: "\<forall>e<d. t ! path t p e \<noteq> nk"
    and free: "t ! path t p d = nk" and pos: "0 < length t"
    and i: "e \<le> d" "unat i = path t p e"
  shows "store_pointer_generic t sz i x nk = Some (t[path t p d := x])"
  using i
proof (induction "d - e" arbitrary: e i)
  case 0
  then have "unat i = path t p d" by simp
  with free pos show ?case
    by (subst store_pointer_generic.simps) (simp add: slot_def set_slot_def)
next
  case (Suc m)
  let ?j = "if i + 1 < sz then i + 1 else 0"
  have e: "e < d" using Suc.hyps(2) by linarith
  have less: "unat i < length t" using Suc.prems(2) pos by simp
  have "unat ?j = Suc (path t p e) mod length t"
    using wrap_step [OF sz less] unfolding Suc.prems(2) .
  then have j: "unat ?j = path t p (Suc e)" by (simp only: Suc_add_mod)
  have "store_pointer_generic t sz i x nk = store_pointer_generic t sz ?j x nk"
    using before e Suc.prems(2) slot_Some [OF less]
    by (subst store_pointer_generic.simps) (simp add: Let_def)
  with Suc.hyps(1) [of "Suc e" ?j] Suc.hyps(2) j e show ?case by simp
qed

lemma store_spec:
  assumes sz: "unat sz = length t" and t: "table t" and free: "size (used_slots nk t) < length t"
    and x: "x \<noteq> nk" and p: "kc_hash cb p = kc_hash cb x"
    and absent: "\<forall>j<length t. t ! j \<noteq> nk \<longrightarrow> \<not> kc_is_equal cb x (t ! j)"
  shows "\<exists>t'. store_pointer_generic t sz (mulle__pointerset_hash_for_size (kc_hash cb p) sz) x nk = Some t' \<and>
    length t' = length t \<and> table t' \<and> used_slots nk t' = add_mset x (used_slots nk t)"
proof -
  let ?free = "\<lambda>d. t ! path t x d = nk"
  have n: "2 \<le> length t" using t by (simp add: table_def)
  have h: "ps_home cb (length t) x < length t" using n by (rule home_less)
  obtain e where e: "e < length t" "t ! e = nk" using free free_slot by metis
  then have "?free (cdist (length t) (ps_home cb (length t) x) e)" using add_cdist [OF h e(1)] by simp
  then obtain d where d: "?free d" "\<forall>e<d. \<not> ?free e"
    "d \<le> cdist (length t) (ps_home cb (length t) x) e"
    using exists_least_iff [of ?free] by (metis not_le)
  have dn: "d < length t" using d(3) cdist_less [OF h e(1)] by linarith
  have i: "unat (mulle__pointerset_hash_for_size (kc_hash cb p) sz) = path t x 0"
    using home_start [OF sz, of cb x] h p by simp
  have pos: "0 < length t" using n by linarith
  have res: "store_pointer_generic t sz (mulle__pointerset_hash_for_size (kc_hash cb p) sz) x nk =
      Some (t[path t x d := x])"
    by (rule store_loop [OF sz _ d(1) pos _ i]) (use d(2) in auto)
  have "table (t[path t x d := x])"
    using store_at_free_slot [OF t x dn d(1) _ absent] d(2) by blast
  moreover have "used_slots nk (t[path t x d := x]) = add_mset x (used_slots nk t)"
    using used_slots_store [of "path t x d" t nk x] d(1) x n by simp
  ultimately show ?thesis using res by simp
qed

lemma get_loop:
  assumes sz: "unat sz = 2 ^ k" "length t = 2 ^ k"
    and before: "\<forall>e<d. t ! path t p e \<noteq> nk \<and> \<not> kc_is_equal cb p (t ! path t p e)"
    and stop: "t ! path t p d = nk \<or> kc_is_equal cb p (t ! path t p d)"
    and p: "p \<noteq> nk" and i: "e \<le> d" "unat i = path t p e"
  shows "pointerset_get_loop t sz p i cb = Some (t ! path t p d)"
  using i
proof (induction "d - e" arbitrary: e i)
  case 0
  then have "unat i = path t p d" "unat i < length t" using path_less [OF sz(2)] by auto
  moreover have "kc_is_equal cb (t ! path t p d) p" if "t ! path t p d \<noteq> nk"
    using stop that p eq_sym by blast
  ultimately show ?case by (subst get_loop_unfold) (auto simp: slot_def)
next
  case (Suc m)
  let ?j = "(i + 1) AND (sz - 1)"
  have e: "e < d" using Suc.hyps(2) by linarith
  have less: "unat i < length t" unfolding Suc.prems(2) by (rule path_less [OF sz(2)])
  then have less_k: "unat i < 2 ^ k" by (simp only: sz(2))
  have j: "unat ?j = path t p (Suc e)"
    using mask_step [OF sz(1) less_k] Suc.prems(2) sz(2) by (simp only: Suc_add_mod)
  have "t ! unat i \<noteq> nk" "\<not> kc_is_equal cb p (t ! unat i)" using before e Suc.prems(2) by auto
  moreover from this have "\<not> kc_is_equal cb (t ! unat i) p" "p \<noteq> t ! unat i"
    using p eq_sym eq_refl by blast+
  ultimately have "pointerset_get_loop t sz p i cb = pointerset_get_loop t sz p ?j cb"
    using slot_Some [OF less] by (subst get_loop_unfold) simp
  with Suc.hyps(1) [of "Suc e" ?j] Suc.hyps(2) j e show ?case by simp
qed

lemma get_loop_spec:
  assumes sz: "unat sz = 2 ^ k" "length t = 2 ^ k" and t: "table t"
    and free: "size (used_slots nk t) < length t" and p: "p \<noteq> nk"
  shows "\<exists>q. pointerset_get_loop t sz p (mulle__pointerset_hash_for_size (kc_hash cb p) sz) cb = Some q \<and>
    (if \<exists>x \<in># used_slots nk t. kc_is_equal cb p x
     then q \<in># used_slots nk t \<and> kc_is_equal cb p q else q = nk)"
proof -
  obtain d where d: "d < length t" "t ! path t p d = nk \<or> kc_is_equal cb p (t ! path t p d)"
    "\<forall>e<d. t ! path t p e \<noteq> nk \<and> \<not> kc_is_equal cb p (t ! path t p e)"
    using search_ends [OF t free, of p] .
  have i: "unat (mulle__pointerset_hash_for_size (kc_hash cb p) sz) = path t p 0"
    using home_start [of sz "length t" cb p] sz home_less [of "length t" p] t
    by (simp add: table_def)
  have res: "pointerset_get_loop t sz p (mulle__pointerset_hash_for_size (kc_hash cb p) sz) cb =
      Some (t ! path t p d)"
    using get_loop [OF sz d(3,2) p _ i] by simp
  show ?thesis
  proof (cases "t ! path t p d = nk")
    case True
    have "\<not> (\<exists>x \<in># used_slots nk t. kc_is_equal cb p x)"
      using absent_at_free_slot [OF t p d(1) True] d(3) by (auto simp: in_used_slots)
    with True res show ?thesis by auto
  next
    case False
    then have "t ! path t p d \<in># used_slots nk t" using path_less [OF sz(2)] by (auto simp: in_used_slots)
    with False res d(2) show ?thesis by auto
  qed
qed

text \<open>The gap of a removal travels to the free slot \<open>f\<close>, without passing it.\<close>

lemma stays_iff:
  assumes "unat s < n" "unat i < n" "unat dst < n" "dst \<noteq> i"
  shows "pointerset_stays s i dst \<longleftrightarrow> \<not> on_path n (unat s) (unat i) (unat dst)"
proof -
  have "unat dst \<noteq> unat i" using assms(4) by (simp add: word_unat_eq_iff)
  then show ?thesis using assms(1-3)
    by (auto simp: not_on_path_iff pointerset_stays_def cdist_def word_less_nat_alt)
qed

lemma remove_loop:
  assumes sz: "unat sz = 2 ^ k" "length t = 2 ^ k"
    and g: "gap_inv t (unat dst) (unat i)" and u: "unequal (t[unat dst := nk])"
    and f: "f < length t" "t ! f = nk"
    and ahead: "cdist (length t) (unat dst) (unat i) < cdist (length t) (unat dst) f"
  shows "\<exists>t'. pointerset_remove_loop t sz dst i cb = Some t' \<and> length t' = length t \<and> table t' \<and>
    used_slots nk t' = used_slots nk t - {#t ! unat dst#}"
  using assms(2-)
proof (induction "cdist (length t) (unat i) f" arbitrary: t i dst rule: less_induct)
  case less
  let ?n = "length t" and ?j = "(i + 1) AND (sz - 1)"
  have b: "unat dst < ?n" "unat i < ?n" "2 \<le> ?n" "t ! unat dst \<noteq> nk"
    using less.prems(2) by (auto simp: gap_inv_def)
  have j: "unat ?j = Suc (unat i) mod ?n"
    using mask_step [OF sz(1), of i] b(2) less.prems(1) by simp
  then have jn: "unat ?j < ?n" using b(3) by simp
  have slot: "slot t ?j = Some (t ! unat ?j)" using jn by (rule slot_Some)
  show ?case
  proof (cases "t ! unat ?j = nk")
    case True
    then have "pointerset_remove_loop t sz dst i cb = Some (t[unat dst := nk])"
      using slot b(1) by (subst pointerset_remove_loop.simps) (simp add: Let_def set_slot_def)
    moreover have "reachable (t[unat dst := nk])"
      using gap_end [OF less.prems(2)] True j by simp
    ultimately show ?thesis
      using less.prems(3) b used_slots_clear [OF b(1,4)] by (simp add: table_def)
  next
    case False
    then have ne: "unat ?j \<noteq> f" "unat i \<noteq> f" using less.prems(4-6) by auto
    have nd: "unat ?j \<noteq> unat dst"
    proof
      assume "unat ?j = unat dst"
      then have "cdist ?n (unat dst) (unat i) = ?n - 1"
        using j b by (auto simp: cdist_def mod_if split: if_splits)
      with less.prems(6) cdist_less [OF b(1) less.prems(4)] show False by linarith
    qed
    have dec: "cdist ?n (unat ?j) f < cdist ?n (unat i) f"
      using cdist_pred [OF b(2) less.prems(4) ne(2)] j by simp
    let ?s = "mulle__pointerset_hash_for_size (kc_hash cb (t ! unat ?j)) sz"
    have s: "unat ?s = ps_home cb ?n (t ! unat ?j)"
      using home_start [of sz ?n cb "t ! unat ?j"] sz(1) less.prems(1) by simp
    have sn: "unat ?s < ?n" using s home_less [OF b(3)] by simp
    have stays: "pointerset_stays ?s ?j dst \<longleftrightarrow>
        \<not> on_path ?n (ps_home cb ?n (t ! unat ?j)) (unat ?j) (unat dst)"
      using stays_iff [OF sn jn b(1)] nd s by auto
    show ?thesis
    proof (cases "pointerset_stays ?s ?j dst")
      case True
      then have eq: "pointerset_remove_loop t sz dst i cb = pointerset_remove_loop t sz dst ?j cb"
        using slot False by (subst pointerset_remove_loop.simps) (simp add: Let_def)
      have "gap_inv t (unat dst) (unat ?j)"
        using gap_keep [OF less.prems(2)] False nd True stays j by simp
      moreover have "cdist ?n (unat dst) (unat ?j) < cdist ?n (unat dst) f"
        using cdist_after [of "unat dst" ?n "unat i" f] b less.prems(4,6) jn nd ne j by simp
      ultimately show ?thesis
        using less.hyps [OF dec less.prems(1) _ less.prems(3-5)] eq by simp
    next
      case move: False
      let ?t = "t[unat dst := t ! unat ?j]"
      have eq: "pointerset_remove_loop t sz dst i cb = pointerset_remove_loop ?t sz ?j ?j cb"
        using slot False move b(1)
        by (subst pointerset_remove_loop.simps) (simp add: Let_def set_slot_def)
      have "gap_inv ?t (unat ?j) (unat ?j)"
        using gap_move [OF less.prems(2)] False nd move stays j by simp
      moreover have "unequal (?t[unat ?j := nk])"
        using unequal_move [OF less.prems(3) b(1) jn nd] by simp
      moreover have "?t ! f = nk" using less.prems(5) b(4) by (cases "f = unat dst") simp_all
      moreover have "cdist ?n (unat ?j) (unat ?j) < cdist ?n (unat ?j) f"
        using cdist_eq_0_iff [OF jn less.prems(4)] ne by simp
      ultimately obtain t' where t': "pointerset_remove_loop ?t sz ?j ?j cb = Some t'"
        "length t' = ?n" "table t'" "used_slots nk t' = used_slots nk ?t - {#?t ! unat ?j#}"
        using less.hyps [of ?t ?j ?j] dec less.prems(1,4) by auto
      have "used_slots nk ?t - {#?t ! unat ?j#} = used_slots nk t - {#t ! unat dst#}"
        using used_slots_replace [OF b(1,4) False] nd by simp
      with eq t' show ?thesis by auto
    qed
  qed
qed

end

section \<open>Rehashing\<close>

context callback_table
begin

lemma copy_storage_spec:
  assumes "unat sz = length dst" "table dst" "unequal src"
    "\<forall>x \<in># used_slots nk src. \<forall>y \<in># used_slots nk dst. \<not> kc_is_equal cb x y"
    "size (used_slots nk dst) + size (used_slots nk src) < length dst"
  shows "\<exists>t'. copy_storage_generic dst sz src cb = Some t' \<and> length t' = length dst \<and> table t' \<and>
    used_slots nk t' = used_slots nk dst + used_slots nk src"
  using assms
proof (induction src arbitrary: dst)
  case Nil
  then show ?case by simp
next
  case (Cons p src)
  note un = unequal_Cons [OF Cons.prems(3)]
  show ?case
  proof (cases "p = nk")
    case True
    with Cons.IH [OF Cons.prems(1,2) un(1)] Cons.prems(4,5) show ?thesis by simp
  next
    case False
    have "\<forall>j<length dst. dst ! j \<noteq> nk \<longrightarrow> \<not> kc_is_equal cb p (dst ! j)"
      using Cons.prems(4) False nth_in_used_slots [of _ dst nk] by auto
    then obtain t where t: "store_pointer_generic dst sz (mulle__pointerset_hash_for_size (kc_hash cb p) sz) p nk = Some t"
      "length t = length dst" "table t" "used_slots nk t = add_mset p (used_slots nk dst)"
      using store_spec [OF Cons.prems(1,2) _ False refl] Cons.prems(5) by auto
    have "\<forall>x \<in># used_slots nk src. \<forall>y \<in># used_slots nk t. \<not> kc_is_equal cb x y"
    proof (intro ballI)
      fix x y assume x: "x \<in># used_slots nk src" and y: "y \<in># used_slots nk t"
      have "x \<noteq> nk" using x by (simp add: in_used_slots)
      then have "\<not> kc_is_equal cb x p" using un(2) [OF False x] eq_sym False by blast
      then show "\<not> kc_is_equal cb x y" using Cons.prems(4) False x y t(4) by auto
    qed
    with Cons.IH [of t] Cons.prems(1,5) un(1) t False show ?thesis by auto
  qed
qed

lemma rehash_spec:
  assumes "unequal (ps_storage s)" "unat sz = 2 ^ k" "2 \<le> k" "k \<le> 60"
    "size (ps_keys cb s) < 2 ^ k"
  shows "\<exists>t'. pointerset_rehash s sz cb = Some (s\<lparr>ps_storage := t', ps_static := False, ps_size := sz,
      ps_n_mutations := ps_n_mutations s + 1\<rparr>) \<and>
    length t' = 2 ^ k \<and> table t' \<and> used_slots nk t' = ps_keys cb s"
proof -
  have four: "(4::nat) \<le> 2 ^ k" using assms(3) power_increasing [of 2 k "2::nat"] by simp
  have "(2::nat) ^ k \<le> 2 ^ 60" using assms(4) by (intro power_increasing) auto
  then have "u_mulle__pointerset_allocate_storage_generic sz nk = Some (replicate (2 ^ k) nk)"
    using assms(2) allocate_storage [of sz nk] by simp
  moreover have "table (replicate (2 ^ k) nk)" using four by (intro table_replicate) linarith
  then obtain t' where "copy_storage_generic (replicate (2 ^ k) nk) sz (ps_storage s) cb = Some t'"
    "length t' = 2 ^ k" "table t'" "used_slots nk t' = ps_keys cb s"
    using copy_storage_spec [of sz "replicate (2 ^ k) nk" "ps_storage s"] assms by auto
  ultimately show ?thesis by (intro exI [of _ t']) (simp add: pointerset_rehash_def)
qed

lemma inv_unequal: "pointerset_inv cb s \<Longrightarrow> unequal (ps_storage s)"
  by (cases "ps_size s = 0") (auto simp: pointerset_inv_def table_def unequal_def)

lemma inv_table:
  assumes "pointerset_inv cb s" "ps_size s \<noteq> 0"
  obtains k where "2 \<le> k" "unat (ps_size s) = 2 ^ k" "length (ps_storage s) = 2 ^ k"
    "table (ps_storage s)" "size (ps_keys cb s) < length (ps_storage s)" "4 dvd unat (ps_size s)"
proof -
  obtain k where k: "2 \<le> k" "unat (ps_size s) = 2 ^ k" using assms by (auto simp: pointerset_inv_def)
  then obtain m where m: "k = m + 2" using le_Suc_ex by (metis add.commute)
  have "unat (ps_size s) = 4 * 2 ^ m" using k(2) m by simp
  moreover have "0 < (2::nat) ^ m" by simp
  ultimately have "3 * (unat (ps_size s) div 4) < unat (ps_size s)" "4 dvd unat (ps_size s)" by simp_all
  with k assms that show thesis by (auto simp: pointerset_inv_def)
qed

lemma inv_dvd:
  assumes "pointerset_inv cb s"
  shows "4 dvd unat (ps_size s)"
proof (cases "ps_size s = 0")
  case False
  then show ?thesis using inv_table [OF assms] by metis
qed simp

lemma full_iff:
  assumes "pointerset_inv cb s"
  shows "u_mulle__pointerset_is_full s \<longleftrightarrow> 3 * (unat (ps_size s) div 4) \<le> size (ps_keys cb s)"
proof -
  have "unat (drop_bit 2 (ps_size s)) = unat (ps_size s) div 4"
    by (simp add: drop_bit_eq_div unat_div)
  then have "unat (ps_size s - drop_bit 2 (ps_size s)) = unat (ps_size s) - unat (ps_size s) div 4"
    by (simp add: unat64_sub)
  also have "\<dots> = 3 * (unat (ps_size s) div 4)" using inv_dvd [OF assms] by (auto elim!: dvdE)
  finally show ?thesis
    using assms by (simp add: u_mulle__pointerset_is_full_def word_le_nat_alt pointerset_inv_def)
qed

lemma table_grow:
  assumes inv: "pointerset_inv cb s" and lim: "unat (ps_size s) \<le> 2 ^ 59"
  shows "\<exists>s'. grow_generic s cb = Some s' \<and> pointerset_inv cb s' \<and> ps_keys cb s' = ps_keys cb s \<and>
    ps_count s' = ps_count s \<and> ps_events s' = ps_events s \<and>
    ps_size s' \<noteq> 0 \<and> size (ps_keys cb s) < 3 * (unat (ps_size s') div 4) \<and>
    unat (ps_size s') \<le> 4 + 2 * unat (ps_size s)"
proof -
  obtain k where k: "2 \<le> k" "k \<le> 60" "2 ^ k \<le> 4 + 2 * unat (ps_size s)"
    "unat (if ps_size s * 2 = 0 then 4 else ps_size s * 2) = 2 ^ k" "\<not> ps_size s * 2 < ps_size s"
    "size (ps_keys cb s) < 3 * (2 ^ k div 4)"
  proof (cases "ps_size s = 0")
    case True
    then have "ps_storage s = []" using inv by (simp add: pointerset_inv_def)
    with True show thesis by (intro that [of 2]) simp_all
  next
    case False
    then obtain j where j: "2 \<le> j" "unat (ps_size s) = 2 ^ j" "4 dvd unat (ps_size s)"
      using inv_table [OF inv] by metis
    have "(2::nat) ^ j \<le> 2 ^ 59" using lim j(2) by simp
    then have j59: "j \<le> 59" by (rule power_le_imp_le_exp [rotated]) simp
    have dbl: "unat (ps_size s * 2) = 2 ^ Suc j"
      using lim j(2) by (simp add: unat_word_ariths)
    then have nz: "ps_size s * 2 \<noteq> 0" by (metis power_not_zero unat_eq_0 zero_neq_numeral)
    have "size (ps_keys cb s) \<le> 3 * (2 ^ j div 4)" using inv False j(2) by (simp add: pointerset_inv_def)
    moreover have "0 < (2::nat) ^ j div 4"
      using j(1) power_increasing [of 2 j "2::nat"] by (simp add: div_greater_zero_iff)
    moreover have "(2::nat) ^ Suc j div 4 = 2 * (2 ^ j div 4)" using j(2,3) by (auto elim!: dvdE)
    ultimately show thesis using j j59 dbl nz
      by (intro that [of "Suc j"]) (auto simp: word_less_nat_alt)
  qed
  have "(2::nat) ^ k div 4 * 3 < 2 ^ k"
    using k(1) power_increasing [of 2 k "2::nat"] by (simp add: div_greater_zero_iff)
  then have "size (ps_keys cb s) < 2 ^ k" using k(6) by linarith
  then obtain t' where "grow_generic s cb = Some (s\<lparr>ps_storage := t', ps_static := False,
        ps_size := (if ps_size s * 2 = 0 then 4 else ps_size s * 2),
        ps_n_mutations := ps_n_mutations s + 1\<rparr>)"
    "length t' = 2 ^ k" "table t'" "used_slots nk t' = ps_keys cb s"
    using rehash_spec [OF inv_unequal [OF inv] k(4,1,2)] k(5) unfolding grow_generic_def Let_def by auto
  moreover have "(if ps_size s * 2 = 0 then 4 else ps_size s * 2) \<noteq> 0" by simp
  ultimately show ?thesis using inv k
    by (intro exI [of _ "s\<lparr>ps_storage := t', ps_static := False,
        ps_size := (if ps_size s * 2 = 0 then 4 else ps_size s * 2),
        ps_n_mutations := ps_n_mutations s + 1\<rparr>"])
      (simp add: pointerset_inv_def split del: if_split, blast?)
qed

end

section \<open>The operations\<close>

context callback_table
begin

abbreviation present :: "mulle__pointerset \<Rightarrow> pointer \<Rightarrow> bool" where
  "present s p \<equiv> \<exists>q \<in># ps_keys cb s. kc_is_equal cb p q"

lemma retain_eq_iff:
  "p \<noteq> nk \<Longrightarrow> q \<noteq> nk \<Longrightarrow> kc_is_equal cb (kc_retain cb p) q \<longleftrightarrow> kc_is_equal cb p q"
  using retain_key [of p] eq_sym [of "kc_retain cb p" p] eq_trans [of "kc_retain cb p" p q]
    eq_trans [of p "kc_retain cb p" q] by blast

lemma retain_hash: "p \<noteq> nk \<Longrightarrow> kc_hash cb p = kc_hash cb (kc_retain cb p)"
  using callbacks retain_key [of p] unfolding keycallback_ok_def by metis

lemma absent_slots:
  assumes "\<not> present s p" "p \<noteq> nk"
  shows "\<forall>j<length (ps_storage s). ps_storage s ! j \<noteq> nk \<longrightarrow>
    \<not> kc_is_equal cb (kc_retain cb p) (ps_storage s ! j)"
  using assms retain_eq_iff nth_in_used_slots [of _ "ps_storage s" nk] by blast

text \<open>A set after a new key was stored.\<close>

definition added :: "mulle__pointerset \<Rightarrow> pointer \<Rightarrow> mulle__pointerset \<Rightarrow> bool" where
  "added s p s' \<longleftrightarrow> pointerset_inv cb s' \<and>
     ps_keys cb s' = add_mset (kc_retain cb p) (ps_keys cb s) \<and>
     ps_events s' = ps_events s @ [Retain (kc_retain cb p)] \<and>
     unat (ps_size s') \<le> max (unat (ps_size s)) (4 * (size (ps_keys cb s) + 1))"

lemma inv_store:
  assumes inv: "pointerset_inv cb s" and nz: "ps_size s \<noteq> 0"
    and room: "size (ps_keys cb s) < 3 * (unat (ps_size s) div 4)"
    and t: "length t = length (ps_storage s)" "table t" "used_slots nk t = add_mset x (ps_keys cb s)"
  shows "pointerset_inv cb (s\<lparr>ps_storage := t, ps_count := ps_count s + 1, ps_n_mutations := m,
    ps_events := ev\<rparr>)"
proof -
  have "unat (ps_count s) < 3 * (unat (ps_size s) div 4)"
    using inv room by (simp add: pointerset_inv_def)
  moreover have "3 * (unat (ps_size s) div 4) \<le> unat (ps_size s)" by simp
  ultimately have "unat (ps_count s + 1) = Suc (unat (ps_count s))"
    using unat64_less [of "ps_size s"] by (simp add: unat64_add)
  with inv nz room t show ?thesis by (simp add: pointerset_inv_def Suc_le_eq)
qed

lemma append_spec:
  assumes inv: "pointerset_inv cb s" and lim: "unat (ps_size s) \<le> 2 ^ 59" and p: "p \<noteq> nk"
    and absent: "\<not> present s p"
  shows "\<exists>s'. pointerset_append s p (kc_hash cb p) cb = Some (s', nk) \<and> added s p s'"
proof -
  obtain s1 where s1: "(if u_mulle__pointerset_is_full s then grow_generic s cb else Some s) = Some s1"
    "pointerset_inv cb s1" "ps_keys cb s1 = ps_keys cb s" "ps_events s1 = ps_events s"
    "ps_size s1 \<noteq> 0" "size (ps_keys cb s) < 3 * (unat (ps_size s1) div 4)"
    "unat (ps_size s1) \<le> max (unat (ps_size s)) (4 * (size (ps_keys cb s) + 1))"
  proof (cases "u_mulle__pointerset_is_full s")
    case True
    then have "3 * (unat (ps_size s) div 4) \<le> size (ps_keys cb s)" using full_iff [OF inv] by simp
    moreover obtain m where "unat (ps_size s) = 4 * m" using inv_dvd [OF inv] by (rule dvdE)
    ultimately have "4 + 2 * unat (ps_size s) \<le> 4 * (size (ps_keys cb s) + 1)" by simp
    with True table_grow [OF inv lim] that show thesis by fastforce
  next
    case False
    then have "ps_size s \<noteq> 0" using full_iff [OF inv] by auto
    with False that [of s] inv full_iff [OF inv] show thesis by simp
  qed
  obtain k where k: "unat (ps_size s1) = length (ps_storage s1)" "table (ps_storage s1)"
    "size (ps_keys cb s1) < length (ps_storage s1)"
    using inv_table [OF s1(2,5)] by metis
  have "\<not> present s1 p" using absent s1(3) by simp
  from store_spec [OF k retain_key(1) [OF p] retain_hash [OF p] absent_slots [OF this p]]
  obtain t' where t': "store_pointer_generic (ps_storage s1) (ps_size s1)
      (mulle__pointerset_hash_for_size (kc_hash cb p) (ps_size s1)) (kc_retain cb p) nk = Some t'"
    "length t' = length (ps_storage s1)" "table t'"
    "used_slots nk t' = add_mset (kc_retain cb p) (ps_keys cb s1)" by auto
  have "pointerset_append s p (kc_hash cb p) cb = Some (s1\<lparr>ps_storage := t', ps_count := ps_count s1 + 1,
      ps_n_mutations := ps_n_mutations s1 + 1, ps_events := ps_events s1 @ [Retain (kc_retain cb p)]\<rparr>, nk)"
    unfolding pointerset_append_def s1(1) by (simp add: Let_def t'(1))
  moreover note inv_store [OF s1(2,5) _ t'(2-4)]
  ultimately show ?thesis using s1 t' by (simp add: added_def)
qed

lemma fill_spec:
  assumes inv: "pointerset_inv cb s" and nz: "ps_size s \<noteq> 0" and p: "p \<noteq> nk" and absent: "\<not> present s p"
    and room: "\<not> u_mulle__pointerset_is_full s"
    and i: "unat i = path (ps_storage s) p d" "d < length (ps_storage s)" "ps_storage s ! unat i = nk"
    and before: "\<forall>e<d. ps_storage s ! path (ps_storage s) p e \<noteq> nk"
  shows "\<exists>s'. pointerset_fill s p i cb = Some (s', nk) \<and> added s p s'"
proof -
  let ?t = "ps_storage s" and ?x = "kc_retain cb p"
  obtain k where k: "length ?t = 2 ^ k" "table ?t" using inv_table [OF inv nz] by metis
  have less: "unat i < length ?t" unfolding i(1) by (rule path_less [OF k(1)])
  have same: "path ?t ?x e = path ?t p e" for e
    using retain_hash [OF p] by (simp add: ps_home_def)
  have "table (?t[unat i := ?x])"
    using store_at_free_slot [OF k(2) retain_key(1) [OF p] i(2) _ _ absent_slots [OF absent p]] i before
    by (simp add: same)
  moreover have "used_slots nk (?t[unat i := ?x]) = add_mset ?x (ps_keys cb s)"
    using used_slots_store [OF less i(3) retain_key(1) [OF p]] .
  moreover note inv_store [OF inv nz, of "?t[unat i := ?x]" ?x]
  ultimately show ?thesis using full_iff [OF inv] room less
    by (simp add: pointerset_fill_def Let_def set_slot_Some added_def)
qed

lemma present_found:
  assumes inv: "pointerset_inv cb s" and nz: "ps_count s \<noteq> 0" and p: "p \<noteq> nk"
  obtains (found) i where "find_index_generic (ps_storage s) (ps_size s) p (kc_hash cb p) cb = Some (Inr i)"
      "unat i < length (ps_storage s)" "ps_storage s ! unat i \<noteq> nk"
      "kc_is_equal cb p (ps_storage s ! unat i)" "ps_storage s ! unat i \<in># ps_keys cb s" "present s p"
  | (hole) i d where "find_index_generic (ps_storage s) (ps_size s) p (kc_hash cb p) cb = Some (Inl i)"
      "unat i = path (ps_storage s) p d" "d < length (ps_storage s)" "ps_storage s ! unat i = nk"
      "\<forall>e<d. ps_storage s ! path (ps_storage s) p e \<noteq> nk" "\<not> present s p"
proof -
  have sz: "ps_size s \<noteq> 0"
    using inv nz by (auto simp: pointerset_inv_def unat_eq_0 [symmetric] simp del: unat_eq_0)
  obtain k where k: "unat (ps_size s) = 2 ^ k" "length (ps_storage s) = 2 ^ k" "table (ps_storage s)"
    "size (ps_keys cb s) < length (ps_storage s)"
    using inv_table [OF inv sz] by metis
  from k p show thesis
  proof (cases rule: find_index_cases)
    case (found i)
    with that(1) nth_in_used_slots [OF found(2,3)] show thesis by blast
  next
    case (hole i d)
    then have "\<not> present s p" by (auto simp: in_used_slots)
    with that(2) hole(1-5) show thesis by blast
  qed
qed

lemma insert_mode_spec:
  assumes inv: "pointerset_inv cb s" and lim: "unat (ps_size s) \<le> 2 ^ 59" and p: "p \<noteq> nk"
  shows "\<exists>s' old. u_mulle__pointerset_write_generic s p mulle_container_insert_e cb = Some (s', old) \<and>
    pointerset_inv cb s' \<and>
    (if present s p then s' = s \<and> old \<in># ps_keys cb s \<and> kc_is_equal cb p old
     else old = nk \<and> added s p s')"
proof (cases "ps_count s = 0")
  case True
  then have "\<not> present s p" using inv by (simp add: pointerset_inv_def)
  with append_spec [OF inv lim p] True show ?thesis
    by (auto simp: u_mulle__pointerset_write_generic_def added_def)
next
  case False
  from inv False p show ?thesis
  proof (cases rule: present_found)
    case (found i)
    with False inv show ?thesis
      by (simp add: u_mulle__pointerset_write_generic_def slot_Some Let_def)
  next
    case (hole i d)
    have nz: "ps_size s \<noteq> 0" using hole(3) inv by (auto simp: pointerset_inv_def)
    show ?thesis
      using False hole append_spec [OF inv lim p hole(6)] fill_spec [OF inv nz p hole(6) _ hole(2-5)]
      by (auto simp: u_mulle__pointerset_write_generic_def Let_def added_def)
  qed
qed

lemma overwrite_mode_spec:
  assumes inv: "pointerset_inv cb s" and lim: "unat (ps_size s) \<le> 2 ^ 59" and p: "p \<noteq> nk"
  shows "\<exists>s' old. u_mulle__pointerset_write_generic s p mulle_container_overwrite_e cb = Some (s', old) \<and>
    pointerset_inv cb s' \<and>
    unat (ps_size s') \<le> max (unat (ps_size s)) (4 * (size (ps_keys cb s) + 1)) \<and>
    (if p \<in># ps_keys cb s then s' = s \<and> old = nk
     else if present s p
     then old \<in># ps_keys cb s \<and> kc_is_equal cb p old \<and>
       ps_keys cb s' = add_mset (kc_retain cb p) (ps_keys cb s - {#old#}) \<and>
       ps_events s' = ps_events s @ [Retain (kc_retain cb p), Release old]
     else old = nk \<and> added s p s')"
proof (cases "ps_count s = 0")
  case True
  then have "ps_keys cb s = {#}" using inv by (simp add: pointerset_inv_def)
  with append_spec [OF inv lim p] True show ?thesis
    by (auto simp: u_mulle__pointerset_write_generic_def added_def)
next
  case False
  have self: "present s p" if "p \<in># ps_keys cb s" using that p eq_refl by blast
  from inv False p show ?thesis
  proof (cases rule: present_found)
    case (found i)
    let ?t = "ps_storage s" and ?x = "kc_retain cb p"
    have eq_i: "p \<in># ps_keys cb s \<longleftrightarrow> p = ?t ! unat i"
    proof
      assume "p \<in># ps_keys cb s"
      then obtain j where j: "j < length ?t" "?t ! j = p" by (auto simp: in_used_slots)
      with inv_unequal [OF inv] found(2-4) p have "j = unat i" unfolding unequal_def by blast
      with j show "p = ?t ! unat i" by simp
    qed (use found(5) in simp)
    have eq: "u_mulle__pointerset_write_generic s p mulle_container_overwrite_e cb =
        (if p = ?t ! unat i then Some (s, nk)
         else Some (s\<lparr>ps_storage := ?t[unat i := ?x], ps_n_mutations := ps_n_mutations s + 1,
           ps_events := ps_events s @ [Retain ?x, Release (?t ! unat i)]\<rparr>, ?t ! unat i))"
      using False found(1,2)
      by (simp add: u_mulle__pointerset_write_generic_def slot_Some set_slot_Some Let_def)
    have x: "?x \<noteq> nk" "kc_is_equal cb ?x (?t ! unat i)"
      using retain_key(1) [OF p] retain_eq_iff [OF p found(3)] found(4) by auto
    have nz: "ps_size s \<noteq> 0" using found(2) inv by (auto simp: pointerset_inv_def)
    then have "table ?t" using inv by (simp add: pointerset_inv_def)
    then have tab: "table (?t[unat i := ?x])" using replace_equal found(2,3) x by blast
    have keys: "used_slots nk (?t[unat i := ?x]) = add_mset ?x (ps_keys cb s - {#?t ! unat i#})"
      using used_slots_replace [OF found(2,3) x(1)] .
    then have "size (used_slots nk (?t[unat i := ?x])) = size (ps_keys cb s)"
      using found(5) by (simp add: size_Suc_Diff1)
    then have "pointerset_inv cb (s\<lparr>ps_storage := ?t[unat i := ?x], ps_n_mutations := ps_n_mutations s + 1,
           ps_events := ps_events s @ [Retain ?x, Release (?t ! unat i)]\<rparr>)"
      using inv tab by (auto simp: pointerset_inv_def)
    with eq eq_i keys found inv show ?thesis by simp
  next
    case (hole i d)
    have nz: "ps_size s \<noteq> 0" using hole(3) inv by (auto simp: pointerset_inv_def)
    have "p \<notin># ps_keys cb s" using self hole(6) by blast
    then show ?thesis
      using False hole append_spec [OF inv lim p hole(6)] fill_spec [OF inv nz p hole(6) _ hole(2-5)]
      by (auto simp: u_mulle__pointerset_write_generic_def Let_def added_def)
  qed
qed

lemma get_spec:
  assumes inv: "pointerset_inv cb s" and p: "p \<noteq> nk"
  shows "\<exists>q. u_mulle__pointerset_get_generic s p cb = Some q \<and>
    (if present s p then q \<in># ps_keys cb s \<and> kc_is_equal cb p q else q = nk)"
proof (cases "ps_count s = 0")
  case True
  then show ?thesis using inv by (simp add: pointerset_inv_def u_mulle__pointerset_get_generic_def)
next
  case False
  then have sz: "ps_size s \<noteq> 0"
    using inv by (auto simp: pointerset_inv_def unat_eq_0 [symmetric] simp del: unat_eq_0)
  obtain k where k: "unat (ps_size s) = 2 ^ k" "length (ps_storage s) = 2 ^ k" "table (ps_storage s)"
    "size (ps_keys cb s) < length (ps_storage s)"
    using inv_table [OF inv sz] by metis
  show ?thesis
  proof (cases "ps_size s \<le> 32 \<and> p \<in> set (ps_storage s)")
    case True
    then have "p \<in># ps_keys cb s" using p by (simp add: used_slots_def)
    moreover have "u_mulle__pointerset_get_generic s p cb = Some p"
      using True False p by (simp add: u_mulle__pointerset_get_generic_def
          u_mulle__pointerset_pointerequalitysearch_generic_def)
    ultimately show ?thesis using eq_refl [OF p] by auto
  next
    case neg: False
    then have "u_mulle__pointerset_get_generic s p cb = u_mulle__pointerset__get_generic s p cb"
      using False by (auto simp: u_mulle__pointerset_get_generic_def Let_def
          u_mulle__pointerset_pointerequalitysearch_generic_def)
    with get_loop_spec [OF k p] show ?thesis by (simp add: u_mulle__pointerset__get_generic_def)
  qed
qed

lemma table_remove:
  assumes inv: "pointerset_inv cb s" and p: "p \<noteq> nk"
  shows "if present s p
    then \<exists>s' q. u_mulle__pointerset_remove_generic s p cb = Some (s', True) \<and> pointerset_inv cb s' \<and>
      q \<in># ps_keys cb s \<and> kc_is_equal cb p q \<and> ps_keys cb s' = ps_keys cb s - {#q#} \<and>
      ps_events s' = ps_events s @ [Release q]
    else u_mulle__pointerset_remove_generic s p cb = Some (s, False)"
proof (cases "ps_count s = 0")
  case True
  then show ?thesis using inv by (simp add: pointerset_inv_def u_mulle__pointerset_remove_generic_def)
next
  case False
  from inv False p show ?thesis
  proof (cases rule: present_found)
    case (hole i d)
    then show ?thesis using False by (simp add: u_mulle__pointerset_remove_generic_def)
  next
    case (found i)
    let ?t = "ps_storage s"
    have sz: "ps_size s \<noteq> 0" using found(2) inv by (auto simp: pointerset_inv_def)
    obtain k where k: "unat (ps_size s) = 2 ^ k" "length ?t = 2 ^ k" "table ?t"
      "size (ps_keys cb s) < length ?t"
      using inv_table [OF inv sz] by metis
    obtain f where f: "f < length ?t" "?t ! f = nk" using k(4) free_slot by metis
    have "unat i \<noteq> f" using f found(3) by auto
    then have ahead: "cdist (length ?t) (unat i) (unat i) < cdist (length ?t) (unat i) f"
      using cdist_eq_0_iff [OF found(2) f(1)] by simp
    have un: "unequal (?t[unat i := nk])" using k(3) unequal_clear by (simp add: table_def)
    obtain t' where t': "pointerset_remove_loop ?t (ps_size s) i i cb = Some t'" "length t' = length ?t"
      "table t'" "used_slots nk t' = ps_keys cb s - {#?t ! unat i#}"
      using remove_loop [OF k(1,2) gap_start [OF k(3) found(2,3)] un f ahead] by auto
    have "0 < unat (ps_count s)" using False by (simp add: unat_gt_0)
    then have "unat (ps_count s - 1) = unat (ps_count s) - 1" by (simp add: unat64_sub)
    then have "pointerset_inv cb (s\<lparr>ps_storage := t', ps_count := ps_count s - 1,
        ps_n_mutations := ps_n_mutations s + 1, ps_events := ps_events s @ [Release (?t ! unat i)]\<rparr>)"
      using inv t'(2-4) found(5) sz by (auto simp: pointerset_inv_def size_Diff_singleton)
    with False found t' show ?thesis
      by (auto simp: u_mulle__pointerset_remove_generic_def slot_Some)
  qed
qed

end

section \<open>Shrinking, enumeration and set operations\<close>

lemma sparse_iff:
  "u_mulle__pointerset_is_sparse_size s x \<longleftrightarrow>
     unat (ps_count s) < unat x div 2 - unat x div 2 div 4"
proof -
  have "unat (drop_bit 2 (x div 2)) = unat x div 2 div 4" by (simp add: drop_bit_eq_div unat_div)
  then have "unat (x div 2 - drop_bit 2 (x div 2)) = unat x div 2 - unat x div 2 div 4"
    by (simp add: unat64_sub unat_div)
  then show ?thesis by (simp add: u_mulle__pointerset_is_sparse_size_def word_less_nat_alt)
qed

lemma shrink_loop_power:
  assumes "unat x = 2 ^ j" "unat (ps_count s) < 2 ^ j - 2 ^ j div 4"
  shows "\<exists>i\<le>j. unat (pointerset_shrink_loop s x) = 2 ^ i \<and> unat (ps_count s) < 2 ^ i - 2 ^ i div 4"
  using assms
proof (induction j arbitrary: x)
  case 0
  then have "\<not> u_mulle__pointerset_is_sparse_size s x" by (simp add: sparse_iff)
  with 0 show ?case by (subst (1) pointerset_shrink_loop.simps) simp
next
  case (Suc j)
  have half: "unat (x div 2) = 2 ^ j" using Suc.prems(1) by (simp add: unat_div)
  show ?case
  proof (cases "u_mulle__pointerset_is_sparse_size s x")
    case False
    with Suc.prems show ?thesis
      by (intro exI [of _ "Suc j"]) (subst (1) pointerset_shrink_loop.simps, simp)
  next
    case True
    then have less: "unat (ps_count s) < 2 ^ j - 2 ^ j div 4" using Suc.prems(1) by (simp add: sparse_iff)
    show ?thesis
    proof (cases "x div 2 < 4")
      case small: True
      with True half less show ?thesis
        by (intro exI [of _ j]) (subst (1) pointerset_shrink_loop.simps, simp add: Let_def)
    next
      case False
      with True have "pointerset_shrink_loop s x = pointerset_shrink_loop s (x div 2)"
        by (subst (1) pointerset_shrink_loop.simps) (simp add: Let_def)
      with Suc.IH [OF half less] show ?thesis by (metis le_SucI)
    qed
  qed
qed

context callback_table
begin

lemma table_shrink:
  assumes inv: "pointerset_inv cb s" and sparse: "u_mulle__pointerset_is_sparse s"
    and lim: "unat (ps_size s) \<le> 2 ^ 59"
  shows "\<exists>s'. u_mulle__pointerset_shrink_generic s cb = Some s' \<and> pointerset_inv cb s' \<and>
    ps_keys cb s' = ps_keys cb s \<and> ps_events s' = ps_events s \<and> ps_size s' \<le> ps_size s"
proof -
  have nz: "ps_size s \<noteq> 0"
    using sparse by (auto simp: u_mulle__pointerset_is_sparse_def sparse_iff)
  obtain j where j: "unat (ps_size s) = 2 ^ Suc j"
    using inv_table [OF inv nz] by (metis Suc_le_D Suc_1)
  have "unat (ps_size s div 2) = 2 ^ j" using j by (simp add: unat_div)
  moreover have "unat (ps_count s) < 2 ^ j - 2 ^ j div 4"
    using sparse j by (simp add: u_mulle__pointerset_is_sparse_def sparse_iff)
  ultimately obtain i where i: "i \<le> j" "unat (pointerset_shrink_loop s (ps_size s div 2)) = 2 ^ i"
    "unat (ps_count s) < 2 ^ i - 2 ^ i div 4"
    using shrink_loop_power by blast
  let ?r = "pointerset_shrink_loop s (ps_size s div 2)"
  let ?n = "if ?r < 4 then 4 else ?r"
  obtain k where k: "2 \<le> k" "unat ?n = 2 ^ k" "unat (ps_count s) \<le> 3 * (2 ^ k div 4)"
  proof (cases "?r < 4")
    case True
    then have "(2::nat) ^ i < 4" using i(2) by (simp add: word_less_nat_alt)
    then have "unat (ps_count s) \<le> 3" using i(3) by linarith
    with True show thesis by (intro that [of 2]) simp_all
  next
    case False
    then have "(4::nat) \<le> 2 ^ i" using i(2) by (simp add: word_less_nat_alt)
    then have "(2::nat) ^ 2 \<le> 2 ^ i" by simp
    then have i2: "2 \<le> i" by (rule power_le_imp_le_exp [rotated]) simp
    then obtain m where "i = m + 2" by (metis add.commute le_Suc_ex)
    then have "(2::nat) ^ i - 2 ^ i div 4 = 3 * (2 ^ i div 4)" by simp
    with False i i2 show thesis by (intro that [of i]) simp_all
  qed
  show ?thesis
  proof (cases "?n \<ge> ps_size s")
    case True
    then show ?thesis using inv by (simp add: u_mulle__pointerset_shrink_generic_def Let_def)
  next
    case False
    have "unat ?n < unat (ps_size s)" using False by (simp only: not_le word_less_nat_alt)
    then have "2 ^ k < unat (ps_size s)" by (simp only: k(2))
    then have "(2::nat) ^ k < 2 ^ 60" using lim by simp
    then have k60: "k \<le> 60" using power_less_imp_less_exp [of "2::nat" k 60] by simp
    have pos: "0 < (2::nat) ^ k div 4" using k(1) power_increasing [of 2 k "2::nat"] by (simp add: div_greater_zero_iff)
    then have "size (ps_keys cb s) < 2 ^ k" using k(3) inv by (simp add: pointerset_inv_def)
    then obtain t' where "pointerset_rehash s ?n cb = Some (s\<lparr>ps_storage := t', ps_static := False,
        ps_size := ?n, ps_n_mutations := ps_n_mutations s + 1\<rparr>)"
      "length t' = 2 ^ k" "table t'" "used_slots nk t' = ps_keys cb s"
      using rehash_spec [OF inv_unequal [OF inv] k(2,1) k60] by auto
    moreover have "pointerset_inv cb (s\<lparr>ps_storage := t', ps_static := False,
        ps_size := ?n, ps_n_mutations := ps_n_mutations s + 1\<rparr>)"
      using calculation inv k by (auto simp: pointerset_inv_def split del: if_split)
    ultimately show ?thesis using False
      by (simp add: u_mulle__pointerset_shrink_generic_def Let_def split del: if_split)
  qed
qed

end

lemma items_loop:
  assumes "unat (en_left r) = length (filter (\<lambda>x. x \<noteq> en_notakey r) (en_curr r))"
  shows "pointerset_items_loop r = Some (filter (\<lambda>x. x \<noteq> en_notakey r) (en_curr r))"
  using assms
proof (induction "unat (en_left r)" arbitrary: r)
  case 0
  then have "en_left r = 0" by (simp add: unat_eq_0)
  with 0 show ?case
    by (subst pointerset_items_loop.simps) (simp add: u_mulle__genericpointersetenumerator_next_def)
next
  case (Suc n)
  let ?nk = "en_notakey r"
  obtain p curr' where drop: "dropWhile (\<lambda>p. p = ?nk) (en_curr r) = p # curr'"
  proof (cases "dropWhile (\<lambda>p. p = ?nk) (en_curr r)")
    case Nil
    then have "filter (\<lambda>x. x \<noteq> ?nk) (en_curr r) = []" by (auto simp: filter_empty_conv)
    with Suc show thesis by simp
  qed (use that in blast)
  then have p: "p \<noteq> ?nk" using hd_dropWhile [of "\<lambda>p. p = ?nk" "en_curr r"] by force
  have "filter (\<lambda>x. x \<noteq> ?nk) (en_curr r) =
      filter (\<lambda>x. x \<noteq> ?nk) (takeWhile (\<lambda>p. p = ?nk) (en_curr r) @ dropWhile (\<lambda>p. p = ?nk) (en_curr r))"
    by simp
  also have "\<dots> = p # filter (\<lambda>x. x \<noteq> ?nk) curr'"
    using p unfolding drop by (auto simp: filter_empty_conv dest: set_takeWhileD)
  finally have fil: "filter (\<lambda>x. x \<noteq> ?nk) (en_curr r) = p # filter (\<lambda>x. x \<noteq> ?nk) curr'" .
  let ?r = "r\<lparr>en_curr := curr', en_left := en_left r - 1\<rparr>"
  have nz: "en_left r \<noteq> 0" using Suc.hyps(2) by auto
  have left: "unat (en_left r - 1) = n" using Suc.hyps(2) by (simp add: unat64_sub)
  have "pointerset_items_loop ?r = Some (filter (\<lambda>x. x \<noteq> ?nk) curr')"
    using Suc.hyps(1) [of ?r] left fil Suc.prems Suc.hyps(2) by simp
  with nz drop fil show ?case
    by (subst pointerset_items_loop.simps) (simp add: u_mulle__genericpointersetenumerator_next_def)
qed

lemma items_spec:
  assumes "pointerset_inv cb s"
  shows "pointerset_items s cb = Some (filter (\<lambda>x. x \<noteq> kc_notakey cb) (ps_storage s))"
  using items_loop [of "u_mulle__pointerset_enumerate_generic s cb"] assms
  by (simp add: pointerset_items_def u_mulle__pointerset_enumerate_generic_def pointerset_inv_def
      size_used_slots)

definition ps_member :: "mulle_container_keycallback \<Rightarrow> mulle__pointerset \<Rightarrow> pointer \<Rightarrow> bool" where
  "ps_member cb s x \<longleftrightarrow> (\<exists>q \<in># ps_keys cb s. kc_is_equal cb x q)"

definition ps_room :: "mulle_container_keycallback \<Rightarrow> mulle__pointerset \<Rightarrow> nat \<Rightarrow> bool" where
  "ps_room cb s n \<longleftrightarrow> unat (ps_size s) \<le> 2 ^ 59 \<and> size (ps_keys cb s) + n \<le> 2 ^ 57"

lemma filter_storage_mset: "mset (filter (\<lambda>x. x \<noteq> nk) t) = used_slots nk t"
  by (simp add: used_slots_def)

context callback_table
begin

lemma set_spec:
  assumes inv: "pointerset_inv cb s" and room: "ps_room cb s (Suc n)" and p: "p \<noteq> nk"
  shows "\<exists>s'. u_mulle__pointerset_set_generic s p cb = Some s' \<and> pointerset_inv cb s' \<and>
    ps_room cb s' n \<and> (\<forall>x. x \<noteq> nk \<longrightarrow> ps_member cb s' x \<longleftrightarrow> ps_member cb s x \<or> kc_is_equal cb x p)"
proof -
  have lim: "unat (ps_size s) \<le> 2 ^ 59" and cnt: "size (ps_keys cb s) + Suc n \<le> 2 ^ 57"
    using room by (simp_all add: ps_room_def)
  let ?x = "kc_retain cb p"
  obtain s' old where s': "u_mulle__pointerset_write_generic s p mulle_container_overwrite_e cb = Some (s', old)"
    "pointerset_inv cb s'" "unat (ps_size s') \<le> max (unat (ps_size s)) (4 * (size (ps_keys cb s) + 1))"
    and cases: "if p \<in># ps_keys cb s then s' = s \<and> old = nk
     else if present s p
     then old \<in># ps_keys cb s \<and> kc_is_equal cb p old \<and>
       ps_keys cb s' = add_mset ?x (ps_keys cb s - {#old#}) \<and>
       ps_events s' = ps_events s @ [Retain ?x, Release old]
     else old = nk \<and> added s p s'"
    using overwrite_mode_spec [OF inv lim p] by blast
  have small: "unat (ps_size s') \<le> 2 ^ 59" using s'(3) lim cnt by simp
  have eq_x: "kc_is_equal cb y ?x \<longleftrightarrow> kc_is_equal cb y p" if "y \<noteq> nk" for y
    using retain_key [OF p] retain_eq_iff [OF p that] eq_sym that p by metis
  have key: "q \<noteq> nk" if "q \<in># ps_keys cb s" for q using that by (simp add: in_used_slots)
  have "size (ps_keys cb s') \<le> Suc (size (ps_keys cb s)) \<and>
    (\<forall>x. x \<noteq> nk \<longrightarrow> ps_member cb s' x \<longleftrightarrow> ps_member cb s x \<or> kc_is_equal cb x p)"
  proof (cases "p \<in># ps_keys cb s")
    case True
    with cases show ?thesis by (auto simp: ps_member_def)
  next
    case absent: False
    show ?thesis
    proof (cases "present s p")
      case True
      with cases absent have old: "old \<in># ps_keys cb s" "kc_is_equal cb p old"
        "ps_keys cb s' = add_mset ?x (ps_keys cb s - {#old#})" by auto
      have "ps_member cb s' x \<longleftrightarrow> ps_member cb s x \<or> kc_is_equal cb x p" if x: "x \<noteq> nk" for x
      proof -
        have "kc_is_equal cb x old \<longleftrightarrow> kc_is_equal cb x p"
          using eq_trans [OF x p key [OF old(1)]] eq_trans [OF x key [OF old(1)] p]
            eq_sym [OF p key [OF old(1)] old(2)] old(2) by blast
        moreover have "ps_keys cb s = add_mset old (ps_keys cb s - {#old#})" using old(1) by simp
        then have "ps_member cb s x \<longleftrightarrow> kc_is_equal cb x old \<or> (\<exists>q \<in># ps_keys cb s - {#old#}. kc_is_equal cb x q)"
          unfolding ps_member_def by (metis union_single_eq_member add_mset_add_single insert_noteq_member in_diffD insert_DiffM)
        ultimately show ?thesis using old(3) eq_x [OF x] by (auto simp: ps_member_def)
      qed
      moreover have "size (ps_keys cb s') = size (ps_keys cb s)" using old(1,3) by (simp add: size_Suc_Diff1)
      ultimately show ?thesis by simp
    next
      case False
      with cases absent have "ps_keys cb s' = add_mset ?x (ps_keys cb s)" by (simp add: added_def)
      then show ?thesis using eq_x by (auto simp: ps_member_def)
    qed
  qed
  with s' small cnt show ?thesis
    by (auto simp: u_mulle__pointerset_set_generic_def ps_room_def)
qed

lemma copy_loop_spec:
  assumes "pointerset_inv cb s" "ps_room cb s (length items + n)" "nk \<notin> set items"
  shows "\<exists>s'. pointerset_copy_loop s items cb = Some s' \<and> pointerset_inv cb s' \<and> ps_room cb s' n \<and>
    (\<forall>x. x \<noteq> nk \<longrightarrow> ps_member cb s' x \<longleftrightarrow> ps_member cb s x \<or> (\<exists>p \<in> set items. kc_is_equal cb x p))"
  using assms
proof (induction items arbitrary: s)
  case (Cons p items)
  then obtain s1 where s1: "u_mulle__pointerset_set_generic s p cb = Some s1" "pointerset_inv cb s1"
    "ps_room cb s1 (length items + n)"
    "\<forall>x. x \<noteq> nk \<longrightarrow> ps_member cb s1 x \<longleftrightarrow> ps_member cb s x \<or> kc_is_equal cb x p"
    using set_spec [of s "length items + n" p] by auto
  with Cons.IH [of s1] Cons.prems(3) show ?case by auto
qed simp

lemma copy_items_spec:
  assumes "pointerset_inv cb dst" "pointerset_inv cb src"
    "ps_room cb dst (size (ps_keys cb src) + n)"
  shows "\<exists>s'. u_mulle__pointerset_copy_items_generic dst src cb = Some s' \<and> pointerset_inv cb s' \<and>
    ps_room cb s' n \<and>
    (\<forall>x. x \<noteq> nk \<longrightarrow> ps_member cb s' x \<longleftrightarrow> ps_member cb dst x \<or> ps_member cb src x)"
proof -
  let ?items = "filter (\<lambda>x. x \<noteq> nk) (ps_storage src)"
  have "length ?items = size (ps_keys cb src)" by (simp add: size_used_slots)
  moreover have "(\<exists>p \<in> set ?items. kc_is_equal cb x p) \<longleftrightarrow> ps_member cb src x" for x
    unfolding ps_member_def filter_storage_mset [symmetric] by simp
  ultimately show ?thesis
    using copy_loop_spec [OF assms(1), of ?items n] assms(3) items_spec [OF assms(2)]
    by (simp add: u_mulle__pointerset_copy_items_generic_def)
qed

lemma intersect_loop_spec:
  assumes "pointerset_inv cb s" "pointerset_inv cb b" "ps_room cb s (length items)" "nk \<notin> set items"
  shows "\<exists>s'. pointerset_intersect_loop s b items cb = Some s' \<and> pointerset_inv cb s' \<and>
    (\<forall>x. x \<noteq> nk \<longrightarrow> ps_member cb s' x \<longleftrightarrow>
       ps_member cb s x \<or> (\<exists>p \<in> set items. kc_is_equal cb x p \<and> ps_member cb b p))"
  using assms(1,3,4)
proof (induction items arbitrary: s)
  case (Cons p items)
  then have p: "p \<noteq> nk" by auto
  from get_spec [OF assms(2) p] obtain q where q: "u_mulle__pointerset_get_generic b p cb = Some q"
    "q \<noteq> nk \<longleftrightarrow> ps_member cb b p"
    by (auto simp: ps_member_def in_used_slots split: if_splits)
  obtain s1 where s1: "(if q \<noteq> nk then u_mulle__pointerset_set_generic s p cb else Some s) = Some s1"
    "pointerset_inv cb s1" "ps_room cb s1 (length items)"
    "\<forall>x. x \<noteq> nk \<longrightarrow> ps_member cb s1 x \<longleftrightarrow> ps_member cb s x \<or> kc_is_equal cb x p \<and> ps_member cb b p"
  proof (cases "q = nk")
    case True
    with Cons.prems q that [of s] show thesis by (simp add: ps_room_def)
  next
    case False
    with set_spec [of s "length items" p] Cons.prems p q that show thesis by auto
  qed
  with Cons.IH [of s1] Cons.prems(3) q(1) show ?case by auto
qed simp

lemma replace_spec:
  assumes "pointerset_inv cb dst" "pointerset_inv cb tmp"
  shows "\<exists>s'. pointerset_replace dst tmp cb = Some s' \<and> pointerset_inv cb s' \<and>
    ps_storage s' = ps_storage tmp"
proof -
  have "pointerset_items (dst\<lparr>ps_events := ev\<rparr>) cb = pointerset_items dst cb" for ev
    by (simp add: pointerset_items_def u_mulle__pointerset_enumerate_generic_def)
  with items_spec [OF assms(1)] assms(2) show ?thesis
    by (auto simp: pointerset_replace_def u_mulle__pointerset_release_all_generic_def pointerset_inv_def)
qed

end

text \<open>Fresh tables, as the initialisers and the set operations make them.\<close>

lemma fresh_storage:
  assumes "unat sz = 2 ^ k" "k \<le> 60"
  shows "u_mulle__pointerset_allocate_storage_generic sz nk = Some (replicate (2 ^ k) nk)"
proof -
  have "(2::nat) ^ k \<le> 2 ^ 60" using assms(2) by (intro power_increasing) auto
  with assms(1) allocate_storage [of sz nk] show ?thesis by simp
qed

context callback_table
begin

lemma fresh_inv:
  assumes "unat sz = 2 ^ k" "2 \<le> k"
  shows "pointerset_inv cb (pointerset_zero\<lparr>ps_size := sz, ps_storage := replicate (2 ^ k) nk\<rparr>)"
proof -
  have "(2::nat) \<le> 2 ^ k" using assms(2) power_increasing [of 1 k "2::nat"] by simp
  then show ?thesis using assms table_replicate
    by (auto simp: pointerset_inv_def pointerset_zero_def)
qed

lemma zero_inv: "pointerset_inv cb pointerset_zero"
  by (simp add: pointerset_inv_def pointerset_zero_def)

lemma member_zero: "\<not> ps_member cb pointerset_zero x"
  by (simp add: ps_member_def pointerset_zero_def)

lemma member_fresh: "\<not> ps_member cb (s\<lparr>ps_storage := replicate n nk\<rparr>) x"
  by (simp add: ps_member_def)

lemma key_not_nk: "q \<in># ps_keys cb s \<Longrightarrow> q \<noteq> nk"
  by (simp add: in_used_slots)

lemma member_eq:
  assumes "x \<noteq> nk" "y \<noteq> nk" "kc_is_equal cb x y"
  shows "ps_member cb s x \<longleftrightarrow> ps_member cb s y"
proof -
  have "kc_is_equal cb x q \<longleftrightarrow> kc_is_equal cb y q" if "q \<noteq> nk" for q
    using eq_trans [of x y q] eq_trans [of y x q] eq_sym [of x y] assms that by blast
  then show ?thesis unfolding ps_member_def using key_not_nk by metis
qed

lemma intersect_spec:
  assumes "pointerset_inv cb dst" "pointerset_inv cb a" "pointerset_inv cb b"
    and small: "size (ps_keys cb a) \<le> 2 ^ 57" "unat (ps_size a) \<le> 2 ^ 59"
    and nz: "ps_size a \<noteq> 0"
  shows "\<exists>s'. u_mulle__pointerset_intersect_generic dst (Some a) (Some b) cb = Some s' \<and>
    pointerset_inv cb s' \<and>
    (\<forall>x. x \<noteq> nk \<longrightarrow> ps_member cb s' x \<longleftrightarrow> ps_member cb a x \<and> ps_member cb b x)"
proof -
  let ?items = "filter (\<lambda>x. x \<noteq> nk) (ps_storage a)"
  let ?st = "replicate (unat (ps_size a)) nk"
  let ?tmp = "pointerset_zero\<lparr>ps_size := ps_size a, ps_storage := ?st\<rparr>"
  have alloc: "u_mulle__pointerset_allocate_storage_generic (ps_size a) nk = Some ?st"
    and tmp: "pointerset_inv cb ?tmp"
  proof -
    show "u_mulle__pointerset_allocate_storage_generic (ps_size a) nk = Some ?st"
      using small(2) nz by (intro allocate_storage) (auto simp: unat_gt_0)
    show "pointerset_inv cb ?tmp"
    proof -
      obtain k where "2 \<le> k" "unat (ps_size a) = 2 ^ k" using inv_table [OF assms(2) nz] by metis
      then show ?thesis using fresh_inv [of "ps_size a" k] by simp
    qed
  qed
  have "ps_room cb ?tmp (length ?items)"
    using small by (simp add: ps_room_def size_used_slots)
  then obtain s1 where s1: "pointerset_intersect_loop ?tmp b ?items cb = Some s1" "pointerset_inv cb s1"
    "\<forall>x. x \<noteq> nk \<longrightarrow> ps_member cb s1 x \<longleftrightarrow>
       ps_member cb ?tmp x \<or> (\<exists>p \<in> set ?items. kc_is_equal cb x p \<and> ps_member cb b p)"
    using intersect_loop_spec [OF tmp assms(3), of ?items] by auto
  obtain s2 where s2: "pointerset_replace dst s1 cb = Some s2" "pointerset_inv cb s2"
    "ps_storage s2 = ps_storage s1" using replace_spec [OF assms(1) s1(2)] by blast
  have "ps_member cb s2 x \<longleftrightarrow> ps_member cb a x \<and> ps_member cb b x" if x: "x \<noteq> nk" for x
  proof -
    have "ps_member cb s2 x \<longleftrightarrow> (\<exists>p \<in># ps_keys cb a. kc_is_equal cb x p \<and> ps_member cb b p)"
      using s1(3) s2(3) x member_fresh by (simp add: ps_member_def flip: filter_storage_mset)
    also have "\<dots> \<longleftrightarrow> (\<exists>p \<in># ps_keys cb a. kc_is_equal cb x p) \<and> ps_member cb b x"
      using member_eq [OF x] key_not_nk by blast
    finally show ?thesis by (simp add: ps_member_def)
  qed
  with s1 s2 alloc items_spec [OF assms(2)] show ?thesis
    by (simp add: u_mulle__pointerset_intersect_generic_def)
qed

lemma intersect_nothing:
  "ps_size a = 0 \<Longrightarrow> u_mulle__pointerset_intersect_generic dst (Some a) (Some b) cb = None"
  by (simp add: u_mulle__pointerset_intersect_generic_def allocate_nothing)

lemma union_spec:
  assumes "pointerset_inv cb dst" "pointerset_inv cb a" "pointerset_inv cb b"
    and small: "size (ps_keys cb a) + size (ps_keys cb b) \<le> 2 ^ 57"
    and three: "3 \<le> size (ps_keys cb a) + size (ps_keys cb b)"
  shows "\<exists>s'. u_mulle__pointerset_union_generic dst (Some a) (Some b) cb = Some s' \<and>
    pointerset_inv cb s' \<and>
    (\<forall>x. x \<noteq> nk \<longrightarrow> ps_member cb s' x \<longleftrightarrow> ps_member cb a x \<or> ps_member cb b x)"
proof -
  let ?c = "ps_count a + ps_count b"
  let ?n = "mulle_pow2round ?c"
  have c: "unat ?c = size (ps_keys cb a) + size (ps_keys cb b)"
    using assms(2,3) small by (simp add: pointerset_inv_def unat64_add)
  obtain k where k: "unat ?n = 2 ^ k" using pow2round_power [of ?c] c small by auto
  have b: "unat ?c \<le> unat ?n" "unat ?n \<le> 2 ^ 57" using pow2round_bounds [of ?c 57] c small by simp_all
  have "(2::nat) ^ k \<le> 2 ^ 57" using b(2) k by simp
  then have k57: "k \<le> 57" by (rule power_le_imp_le_exp [rotated]) simp
  have "(2::nat) ^ 1 < 2 ^ k" using b(1) k c three by simp
  then have k2: "2 \<le> k" using power_less_imp_less_exp [of "2::nat" 1 k] by simp
  let ?tmp = "pointerset_zero\<lparr>ps_size := ?n, ps_storage := replicate (2 ^ k) nk\<rparr>"
  have room: "ps_room cb ?tmp (size (ps_keys cb a) + (size (ps_keys cb b) + 0))"
    using small b(2) by (simp add: ps_room_def)
  obtain s1 where s1: "u_mulle__pointerset_copy_items_generic ?tmp a cb = Some s1" "pointerset_inv cb s1"
    "ps_room cb s1 (size (ps_keys cb b) + 0)"
    "\<forall>x. x \<noteq> nk \<longrightarrow> ps_member cb s1 x \<longleftrightarrow> ps_member cb ?tmp x \<or> ps_member cb a x"
    using copy_items_spec [OF fresh_inv [OF k k2] assms(2) room] by blast
  obtain s2 where s2: "u_mulle__pointerset_copy_items_generic s1 b cb = Some s2" "pointerset_inv cb s2"
    "\<forall>x. x \<noteq> nk \<longrightarrow> ps_member cb s2 x \<longleftrightarrow> ps_member cb s1 x \<or> ps_member cb b x"
    using copy_items_spec [OF s1(2) assms(3) s1(3)] by blast
  obtain s3 where s3: "pointerset_replace dst s2 cb = Some s3" "pointerset_inv cb s3"
    "ps_storage s3 = ps_storage s2" using replace_spec [OF assms(1) s2(2)] by blast
  have "u_mulle__pointerset_union_generic dst (Some a) (Some b) cb = Some s3"
    using fresh_storage [OF k, of nk] k57 k s1(1) s2(1) s3(1)
    by (auto simp: u_mulle__pointerset_union_generic_def Let_def)
  moreover have "ps_member cb s3 x \<longleftrightarrow> ps_member cb a x \<or> ps_member cb b x" if "x \<noteq> nk" for x
    using that s1(4) s2(3) s3(3) member_fresh by (simp add: ps_member_def)
  ultimately show ?thesis using s3(2) by blast
qed

end

section \<open>Sets of plain pointers and the ownership ledger\<close>

lemma plain_callbacks: "keycallback_ok mulle_container_keycallback_nonowned_pointer_or_null"
  by (simp add: keycallback_ok_def mulle_container_keycallback_nonowned_pointer_or_null_def)

interpretation plain: callback_table mulle_container_keycallback_nonowned_pointer_or_null
  by unfold_locales (rule plain_callbacks)

abbreviation plain_cb :: mulle_container_keycallback where
  "plain_cb \<equiv> mulle_container_keycallback_nonowned_pointer_or_null"

lemma plain_cb_simps [simp]:
  "kc_notakey plain_cb = mulle_not_a_pointer" "kc_is_equal plain_cb p q \<longleftrightarrow> p = q"
  "kc_retain plain_cb p = p" "kc_hash plain_cb p = mulle_pointer_hash p"
  by (simp_all add: mulle_container_keycallback_nonowned_pointer_or_null_def)

lemma plain_get_loop:
  assumes "pointerset_get_loop t sz key i plain_cb = Some q"
  shows "pointerset_plain_get_loop t sz key i = Some q"
proof -
  have "plain_cb = plain_cb \<longrightarrow> pointerset_plain_get_loop t sz key i = Some q"
  proof (rule pointerset_get_loop.raw_induct [OF _ assms,
      where P = "\<lambda>t sz key i cb q. cb = plain_cb \<longrightarrow> pointerset_plain_get_loop t sz key i = Some q"])
    fix loop t sz key i cb q
    assume IH: "\<And>t sz key i cb q. loop t sz key i cb = Some q \<Longrightarrow>
        cb = plain_cb \<longrightarrow> pointerset_plain_get_loop t sz key i = Some q"
      and "Option.bind (pointerset_get_step t sz key cb i) (\<lambda>r.
        case r of Inl i \<Rightarrow> loop t sz key i cb | Inr found \<Rightarrow> Some found) = Some q"
    then have body: "Option.bind (slot t i) (\<lambda>found.
        if found = kc_notakey cb \<or> key = found \<or> kc_is_equal cb found key then Some found
        else loop t sz key ((i + 1) AND (sz - 1)) cb) = Some q" by (simp only: get_step_bind)
    from body obtain y where "slot t i = Some y" by (auto simp: bind_eq_Some_conv)
    with body IH [of t sz key "(i + 1) AND (sz - 1)" cb q]
    show "cb = plain_cb \<longrightarrow> pointerset_plain_get_loop t sz key i = Some q"
      by (subst pointerset_plain_get_loop.simps) (auto split: if_splits)
  qed
  then show ?thesis by simp
qed

primrec retained :: "key_event list \<Rightarrow> pointer multiset" where
  "retained [] = {#}"
| "retained (e # es) = (case e of Retain p \<Rightarrow> {#p#} | Release _ \<Rightarrow> {#}) + retained es"

primrec released :: "key_event list \<Rightarrow> pointer multiset" where
  "released [] = {#}"
| "released (e # es) = (case e of Retain _ \<Rightarrow> {#} | Release p \<Rightarrow> {#p#}) + released es"

lemma ledger_append [simp]:
  "retained (es @ fs) = retained es + retained fs" "released (es @ fs) = released es + released fs"
  by (induction es) (simp_all split: key_event.split)

text \<open>Every key in the set was retained once more often than it was released, every other key as often.\<close>

definition ps_balanced :: "mulle_container_keycallback \<Rightarrow> mulle__pointerset \<Rightarrow> bool" where
  "ps_balanced cb s \<longleftrightarrow> retained (ps_events s) = released (ps_events s) + ps_keys cb s"

lemma one_key: "\<exists>s. pointerset_inv plain_cb s \<and> ps_keys plain_cb s = {#7#} \<and> unat (ps_size s) \<le> 4"
proof -
  have "(7 :: pointer) \<noteq> kc_notakey plain_cb" by (simp add: mulle_not_a_pointer_def)
  moreover have "unat (ps_size pointerset_zero) \<le> 2 ^ 59" by (simp add: pointerset_zero_def)
  ultimately show ?thesis
    using plain.insert_mode_spec [OF plain.zero_inv] by (fastforce simp: plain.added_def pointerset_zero_def)
qed

section \<open>Properties\<close>

text \<open>
  C3. Inserting a key into a well-formed set returns: if an equal key is present the set is unchanged
  and that key is the result, otherwise the retained key is added, growing the table where three
  quarters of it are used. The table stays well-formed.
\<close>

theorem mulle__pointerset_insert_spec:
  assumes "keycallback_ok cb" "pointerset_inv cb s" "unat (ps_size s) \<le> 2 ^ 59" "p \<noteq> kc_notakey cb"
  shows "\<exists>s' old. u_mulle__pointerset_write_generic s p mulle_container_insert_e cb = Some (s', old) \<and>
    pointerset_inv cb s' \<and>
    (if ps_member cb s p
     then s' = s \<and> old \<in># ps_keys cb s \<and> kc_is_equal cb p old
     else old = kc_notakey cb \<and> ps_keys cb s' = add_mset (kc_retain cb p) (ps_keys cb s) \<and>
       unat (ps_size s') \<le> max (unat (ps_size s)) (4 * (size (ps_keys cb s) + 1)))"
proof -
  have t: "callback_table cb" using assms(1) by (rule callback_table.intro)
  obtain s' old where w: "u_mulle__pointerset_write_generic s p mulle_container_insert_e cb = Some (s', old)"
    "pointerset_inv cb s'"
    "if ps_member cb s p then s' = s \<and> old \<in># ps_keys cb s \<and> kc_is_equal cb p old
     else old = kc_notakey cb \<and> callback_table.added cb s p s'"
    using callback_table.insert_mode_spec [OF t assms(2-4)] unfolding ps_member_def by blast
  then show ?thesis
    by (cases "ps_member cb s p") (auto simp: callback_table.added_def [OF t])
qed

theorem mulle__pointerset_insert_spec_witness:
  "\<exists>s' old. u_mulle__pointerset_write_generic pointerset_zero 1 mulle_container_insert_e plain_cb =
     Some (s', old) \<and> ps_keys plain_cb s' = {#1#}"
proof -
  have "(1 :: pointer) \<noteq> kc_notakey plain_cb" "unat (ps_size pointerset_zero) \<le> 2 ^ 59"
    by (simp_all add: mulle_not_a_pointer_def pointerset_zero_def)
  moreover note plain.member_zero [of 1]
  moreover have "ps_keys plain_cb pointerset_zero = {#}" by (simp add: pointerset_zero_def)
  ultimately show ?thesis
    using mulle__pointerset_insert_spec [OF plain_callbacks plain.zero_inv, of 1] by auto
qed

text \<open>
  C4. The lookup returns on every well-formed set, through the pointer comparison of small sets or
  the probing, with a stored key equal to the argument exactly when there is one and with \<open>notakey\<close>
  otherwise.
\<close>

theorem mulle__pointerset_get_spec:
  assumes "keycallback_ok cb" "pointerset_inv cb s" "p \<noteq> kc_notakey cb"
  shows "\<exists>q. u_mulle__pointerset_get_generic s p cb = Some q \<and>
    (if ps_member cb s p then q \<in># ps_keys cb s \<and> kc_is_equal cb p q else q = kc_notakey cb)"
  using callback_table.get_spec [OF callback_table.intro [OF assms(1)] assms(2,3)]
  unfolding ps_member_def .

theorem mulle__pointerset_get_spec_witness:
  "\<exists>s q. ps_keys plain_cb s = {#7#} \<and> u_mulle__pointerset_get_generic s 7 plain_cb = Some q \<and> q = 7"
proof -
  have seven: "(7 :: pointer) \<noteq> kc_notakey plain_cb" by (simp add: mulle_not_a_pointer_def)
  obtain s where s: "pointerset_inv plain_cb s" "ps_keys plain_cb s = {#7#}" using one_key by blast
  moreover have "ps_member plain_cb s 7" using s(2) by (simp add: ps_member_def)
  ultimately show ?thesis
    using mulle__pointerset_get_spec [OF plain_callbacks s(1) seven] by auto
qed

text \<open>
  C2. Removing a key returns: if an equal key is present exactly that key is deleted and released,
  and the keys behind it are moved so that every remaining key is still found; otherwise nothing
  changes.
\<close>

theorem mulle__pointerset_remove_spec:
  assumes "keycallback_ok cb" "pointerset_inv cb s" "p \<noteq> kc_notakey cb"
  shows "if ps_member cb s p
    then \<exists>s' q. u_mulle__pointerset_remove_generic s p cb = Some (s', True) \<and> pointerset_inv cb s' \<and>
      q \<in># ps_keys cb s \<and> kc_is_equal cb p q \<and> ps_keys cb s' = ps_keys cb s - {#q#} \<and>
      ps_events s' = ps_events s @ [Release q]
    else u_mulle__pointerset_remove_generic s p cb = Some (s, False)"
  using callback_table.table_remove [OF callback_table.intro [OF assms(1)] assms(2,3)]
  unfolding ps_member_def .

theorem mulle__pointerset_remove_spec_witness:
  "\<exists>s s'. ps_keys plain_cb s = {#7#} \<and> u_mulle__pointerset_remove_generic s 7 plain_cb = Some (s', True) \<and>
     ps_keys plain_cb s' = {#}"
proof -
  have seven: "(7 :: pointer) \<noteq> kc_notakey plain_cb" by (simp add: mulle_not_a_pointer_def)
  obtain s where s: "pointerset_inv plain_cb s" "ps_keys plain_cb s = {#7#}" using one_key by blast
  moreover have "ps_member plain_cb s 7" using s(2) by (simp add: ps_member_def)
  ultimately show ?thesis
    using mulle__pointerset_remove_spec [OF plain_callbacks s(1) seven] by auto
qed

text \<open>
  Setting a key keeps the set well-formed and makes exactly the keys equal to it members, besides
  those that were.
\<close>

theorem mulle__pointerset_set_spec:
  assumes "keycallback_ok cb" "pointerset_inv cb s" "ps_room cb s 1" "p \<noteq> kc_notakey cb"
  shows "\<exists>s'. u_mulle__pointerset_set_generic s p cb = Some s' \<and> pointerset_inv cb s' \<and>
    (\<forall>x. x \<noteq> kc_notakey cb \<longrightarrow> ps_member cb s' x \<longleftrightarrow> ps_member cb s x \<or> kc_is_equal cb x p)"
  using callback_table.set_spec [OF callback_table.intro [OF assms(1)] assms(2), of 0 p] assms(3,4) by auto

theorem mulle__pointerset_set_spec_witness:
  "\<exists>s'. u_mulle__pointerset_set_generic pointerset_zero 3 plain_cb = Some s' \<and> ps_member plain_cb s' 3"
proof -
  have "ps_room plain_cb pointerset_zero 1" "(3 :: pointer) \<noteq> kc_notakey plain_cb"
    by (simp_all add: ps_room_def pointerset_zero_def mulle_not_a_pointer_def)
  from mulle__pointerset_set_spec [OF plain_callbacks plain.zero_inv this] show ?thesis
    by (auto simp: mulle_not_a_pointer_def)
qed

text \<open>
  Shrinking a sparse set keeps its keys and the invariant: the loop that picks the new size never
  picks one that the keys would overfill.
\<close>

theorem mulle__pointerset_shrink_spec:
  assumes "keycallback_ok cb" "pointerset_inv cb s" "u_mulle__pointerset_is_sparse s"
    "unat (ps_size s) \<le> 2 ^ 59"
  shows "\<exists>s'. u_mulle__pointerset_shrink_generic s cb = Some s' \<and> pointerset_inv cb s' \<and>
    ps_keys cb s' = ps_keys cb s \<and> ps_size s' \<le> ps_size s"
  using callback_table.table_shrink [OF callback_table.intro [OF assms(1)] assms(2-4)] by blast

theorem mulle__pointerset_shrink_spec_witness:
  "\<exists>s'. u_mulle__pointerset_shrink_generic
      (pointerset_zero\<lparr>ps_size := 16, ps_storage := replicate 16 mulle_not_a_pointer\<rparr>) plain_cb = Some s' \<and>
    ps_keys plain_cb s' = {#}"
proof -
  let ?s = "pointerset_zero\<lparr>ps_size := 16, ps_storage := replicate 16 mulle_not_a_pointer\<rparr>"
  have "pointerset_inv plain_cb ?s" using plain.fresh_inv [of 16 4] by simp
  moreover have "u_mulle__pointerset_is_sparse ?s"
    by (simp add: u_mulle__pointerset_is_sparse_def sparse_iff pointerset_zero_def)
  moreover have "unat (ps_size ?s) \<le> 2 ^ 59" by simp
  ultimately show ?thesis using mulle__pointerset_shrink_spec [OF plain_callbacks, of ?s] by auto
qed

text \<open>
  C36. The intersection of two sets, into any third one, has exactly the members that both have. It
  ends the program, however, where the first set has no storage yet.
\<close>

theorem mulle__pointerset_intersect_spec:
  assumes "keycallback_ok cb" "pointerset_inv cb dst" "pointerset_inv cb a" "pointerset_inv cb b"
    "size (ps_keys cb a) \<le> 2 ^ 57" "unat (ps_size a) \<le> 2 ^ 59"
  shows "if ps_size a = 0
    then u_mulle__pointerset_intersect_generic dst (Some a) (Some b) cb = None
    else \<exists>s'. u_mulle__pointerset_intersect_generic dst (Some a) (Some b) cb = Some s' \<and>
      pointerset_inv cb s' \<and>
      (\<forall>x. x \<noteq> kc_notakey cb \<longrightarrow> ps_member cb s' x \<longleftrightarrow> ps_member cb a x \<and> ps_member cb b x)"
proof -
  have t: "callback_table cb" using assms(1) by (rule callback_table.intro)
  show ?thesis
    using callback_table.intersect_spec [OF t assms(2-)] callback_table.intersect_nothing [OF t, of a dst]
    by (cases "ps_size a = 0") simp_all
qed

theorem mulle__pointerset_intersect_spec_witness:
  "\<exists>s s'. u_mulle__pointerset_intersect_generic pointerset_zero (Some s) (Some s) plain_cb = Some s' \<and>
    ps_member plain_cb s' 7"
proof -
  obtain s where s: "pointerset_inv plain_cb s" "ps_keys plain_cb s = {#7#}" "unat (ps_size s) \<le> 4"
    using one_key by blast
  have m: "ps_member plain_cb s 7" using s(2) by (simp add: ps_member_def)
  have "size (ps_keys plain_cb s) \<le> 2 ^ 57" "unat (ps_size s) \<le> 2 ^ 59" using s(2,3) by simp_all
  moreover have "ps_size s \<noteq> 0" using s(1,2) by (auto simp: pointerset_inv_def)
  ultimately show ?thesis
    using mulle__pointerset_intersect_spec [OF plain_callbacks plain.zero_inv s(1) s(1)] m
    by (fastforce simp: mulle_not_a_pointer_def)
qed

text \<open>
  C37. The union of two sets that together hold at least three keys has exactly the members that one
  of them has.
\<close>

theorem mulle__pointerset_union_spec:
  assumes "keycallback_ok cb" "pointerset_inv cb dst" "pointerset_inv cb a" "pointerset_inv cb b"
    "size (ps_keys cb a) + size (ps_keys cb b) \<le> 2 ^ 57" "3 \<le> size (ps_keys cb a) + size (ps_keys cb b)"
  shows "\<exists>s'. u_mulle__pointerset_union_generic dst (Some a) (Some b) cb = Some s' \<and>
    pointerset_inv cb s' \<and>
    (\<forall>x. x \<noteq> kc_notakey cb \<longrightarrow> ps_member cb s' x \<longleftrightarrow> ps_member cb a x \<or> ps_member cb b x)"
  using callback_table.union_spec [OF callback_table.intro [OF assms(1)] assms(2-)] .

theorem mulle__pointerset_union_spec_witness:
  "\<exists>a s'. ps_member plain_cb a 1 \<and> ps_member plain_cb a 2 \<and> ps_member plain_cb a 3 \<and>
     u_mulle__pointerset_union_generic pointerset_zero (Some a) (Some pointerset_zero) plain_cb = Some s' \<and>
     ps_member plain_cb s' 2"
proof -
  have "ps_room plain_cb pointerset_zero (length [1, 2, 3 :: pointer] + 0)"
    "kc_notakey plain_cb \<notin> set [1, 2, 3 :: pointer]"
    by (simp_all add: ps_room_def pointerset_zero_def mulle_not_a_pointer_def)
  from plain.copy_loop_spec [OF plain.zero_inv this] obtain a where a: "pointerset_inv plain_cb a"
    "ps_room plain_cb a 0"
    "\<And>x. x \<noteq> mulle_not_a_pointer \<Longrightarrow> ps_member plain_cb a x \<longleftrightarrow> x = 1 \<or> x = 2 \<or> x = 3"
    using plain.member_zero by (auto simp: ps_member_def)
  have mem: "ps_member plain_cb a 1" "ps_member plain_cb a 2" "ps_member plain_cb a 3"
    using a(3) by (simp_all add: mulle_not_a_pointer_def)
  then have "{1, 2, 3} \<subseteq> set_mset (ps_keys plain_cb a)" by (simp add: ps_member_def)
  then have "card {1, 2, 3 :: pointer} \<le> card (set_mset (ps_keys plain_cb a))"
    by (intro card_mono) simp_all
  then have "3 \<le> card (set_mset (ps_keys plain_cb a))" by simp
  also have "\<dots> \<le> size (ps_keys plain_cb a)"
    unfolding size_multiset_overloaded_eq by (metis card_eq_sum count_greater_eq_one_iff sum_mono)
  finally have "3 \<le> size (ps_keys plain_cb a)" .
  moreover have "size (ps_keys plain_cb a) \<le> 2 ^ 57" using a(2) by (simp add: ps_room_def)
  ultimately show ?thesis
    using mulle__pointerset_union_spec [OF plain_callbacks plain.zero_inv a(1) plain.zero_inv] mem
    by (auto simp: pointerset_zero_def mulle_not_a_pointer_def)
qed

text \<open>
  C11. No key leaks and none is released twice: writing in either mode and removing keep the ledger of
  the callbacks balanced against the stored keys.
\<close>

theorem mulle__pointerset_ownership:
  assumes "keycallback_ok cb" "pointerset_inv cb s" "unat (ps_size s) \<le> 2 ^ 59" "p \<noteq> kc_notakey cb"
    "ps_balanced cb s"
  shows "\<exists>s1 o1 s2 o2 s3 r. u_mulle__pointerset_write_generic s p mulle_container_insert_e cb = Some (s1, o1) \<and>
    u_mulle__pointerset_write_generic s p mulle_container_overwrite_e cb = Some (s2, o2) \<and>
    u_mulle__pointerset_remove_generic s p cb = Some (s3, r) \<and>
    ps_balanced cb s1 \<and> ps_balanced cb s2 \<and> ps_balanced cb s3"
proof -
  have t: "callback_table cb" using assms(1) by (rule callback_table.intro)
  obtain s1 o1 where "u_mulle__pointerset_write_generic s p mulle_container_insert_e cb = Some (s1, o1)"
    "ps_balanced cb s1"
    using callback_table.insert_mode_spec [OF t assms(2-4)] assms(5)
    by (auto simp: ps_balanced_def callback_table.added_def [OF t] split: if_splits)
  moreover obtain s2 o2 where "u_mulle__pointerset_write_generic s p mulle_container_overwrite_e cb = Some (s2, o2)"
    "ps_balanced cb s2"
    using callback_table.overwrite_mode_spec [OF t assms(2-4)] assms(5)
    by (auto simp: ps_balanced_def callback_table.added_def [OF t] split: if_splits)
  moreover obtain s3 r where "u_mulle__pointerset_remove_generic s p cb = Some (s3, r)" "ps_balanced cb s3"
    using callback_table.table_remove [OF t assms(2,4)] assms(5)
    by (auto simp: ps_balanced_def split: if_splits)
  ultimately show ?thesis by blast
qed

theorem mulle__pointerset_ownership_witness:
  "\<exists>s1 o1. u_mulle__pointerset_write_generic pointerset_zero 9 mulle_container_insert_e plain_cb = Some (s1, o1) \<and>
     ps_balanced plain_cb s1"
proof -
  have "unat (ps_size pointerset_zero) \<le> 2 ^ 59" "(9 :: pointer) \<noteq> kc_notakey plain_cb"
    "ps_balanced plain_cb pointerset_zero"
    by (simp_all add: ps_balanced_def pointerset_zero_def mulle_not_a_pointer_def)
  from mulle__pointerset_ownership [OF plain_callbacks plain.zero_inv this] show ?thesis by blast
qed

text \<open>
  The getter that is specialised for plain pointers agrees with the generic one: it returns the
  pointer itself when it is stored and the null pointer otherwise.
\<close>

theorem mulle__pointerset_plain_get_spec:
  assumes "pointerset_inv plain_cb s" "p \<noteq> mulle_not_a_pointer"
  shows "u_mulle__pointerset_get s p = Some (if p \<in># ps_keys plain_cb s then p else 0)"
proof (cases "ps_count s = 0")
  case True
  then show ?thesis using assms(1) by (simp add: u_mulle__pointerset_get_def pointerset_inv_def)
next
  case False
  then have sz: "ps_size s \<noteq> 0"
    using assms(1) by (auto simp: pointerset_inv_def unat_eq_0 [symmetric] simp del: unat_eq_0)
  obtain k where k: "unat (ps_size s) = 2 ^ k" "length (ps_storage s) = 2 ^ k"
    "plain.table (ps_storage s)" "size (ps_keys plain_cb s) < length (ps_storage s)"
    using plain.inv_table [OF assms(1) sz] by metis
  have "p \<noteq> kc_notakey plain_cb" using assms(2) by simp
  from plain.get_loop_spec [OF k this] obtain q where
    q: "pointerset_plain_get_loop (ps_storage s) (ps_size s) p
        (mulle__pointerset_hash_for_size (mulle_pointer_hash p) (ps_size s)) = Some q"
    "if p \<in># ps_keys plain_cb s then q = p else q = mulle_not_a_pointer"
    using plain_get_loop by (auto split: if_splits)
  with False assms(2) show ?thesis
    by (simp add: u_mulle__pointerset_get_def u_mulle__pointerset__get_def split: if_splits)
qed

theorem mulle__pointerset_plain_get_spec_witness:
  "u_mulle__pointerset_get
     (pointerset_zero\<lparr>ps_size := 16, ps_storage := replicate 16 mulle_not_a_pointer\<rparr>) 4 = Some 0"
proof -
  let ?s = "pointerset_zero\<lparr>ps_size := 16, ps_storage := replicate 16 mulle_not_a_pointer\<rparr>"
  have "pointerset_inv plain_cb ?s" using plain.fresh_inv [of 16 4] by simp
  moreover have "(4 :: pointer) \<noteq> mulle_not_a_pointer" by (simp add: mulle_not_a_pointer_def)
  ultimately show ?thesis using mulle__pointerset_plain_get_spec [of ?s 4] by simp
qed

section \<open>Unions of one or two keys\<close>

lemma single_item:
  assumes "pointerset_inv cb a" "ps_keys cb a = {#p#}"
  shows "pointerset_items a cb = Some [p]" "ps_count a = 1" "p \<noteq> kc_notakey cb"
proof -
  have "mset (filter (\<lambda>x. x \<noteq> kc_notakey cb) (ps_storage a)) = {#p#}"
    using assms(2) by (simp add: used_slots_def)
  then have "filter (\<lambda>x. x \<noteq> kc_notakey cb) (ps_storage a) = [p]"
    by (simp only: mset_single_iff)
  then show "pointerset_items a cb = Some [p]" using items_spec [OF assms(1)] by simp
  have "p \<in># ps_keys cb a" using assms(2) by simp
  then show "p \<noteq> kc_notakey cb" unfolding in_used_slots by (rule conjunct1)
  show "ps_count a = 1" using assms by (simp add: pointerset_inv_def word_unat_eq_iff)
qed

lemma round_small: "mulle_pow2round 1 = 1" "mulle_pow2round 2 = 2"
  using pow2roundup_64_eq [of 0 2]
  by (simp_all add: mulle_pow2round_def mulle_pow2roundup_def pow2roundup_64_0)

lemma release_all:
  assumes "pointerset_inv cb s"
  shows "\<exists>s'. u_mulle__pointerset_release_all_generic (s\<lparr>ps_events := ev\<rparr>) cb = Some s'"
proof -
  have "pointerset_items (s\<lparr>ps_events := ev\<rparr>) cb = pointerset_items s cb"
    by (simp add: pointerset_items_def u_mulle__pointerset_enumerate_generic_def)
  with items_spec [OF assms] show ?thesis
    by (auto simp: u_mulle__pointerset_release_all_generic_def)
qed

text \<open>
  C39. The union of a set of one key and no other set is built in a table of one slot. The home slot
  of the key is then its whole hash. If that is zero, the union is the set of the key. Otherwise the
  slot at which the key is to be stored is outside of the storage: the model, in which such a
  store has no result, returns nothing.
\<close>

theorem mulle__pointerset_union_small_overrun:
  assumes "pointerset_inv cb dst" "pointerset_inv cb a" "ps_keys cb a = {#p#}"
  shows "\<exists>t. mulle_pow2round (ps_count a) = 1 \<and>
    u_mulle__pointerset_allocate_storage_generic 1 (kc_notakey cb) = Some t \<and> length t = 1 \<and>
    mulle__pointerset_hash_for_size (kc_hash cb p) 1 = kc_hash cb p \<and>
    (if kc_hash cb p = 0
     then \<exists>s'. u_mulle__pointerset_union_generic dst (Some a) None cb = Some s' \<and>
       ps_storage s' = [kc_retain cb p]
     else slot t (kc_hash cb p) = None \<and>
       store_pointer_generic t 1 (kc_hash cb p) (kc_retain cb p) (kc_notakey cb) = None \<and>
       u_mulle__pointerset_union_generic dst (Some a) None cb = None)"
proof -
  let ?nk = "kc_notakey cb" and ?h = "kc_hash cb p" and ?q = "kc_retain cb p"
  let ?t = "pointerset_zero\<lparr>ps_size := 1, ps_storage := [?nk]\<rparr>"
  note a = single_item [OF assms(2,3)]
  have alloc: "u_mulle__pointerset_allocate_storage_generic 1 ?nk = Some [?nk]"
    using fresh_storage [of 1 0] by simp
  have home: "mulle__pointerset_hash_for_size ?h 1 = ?h" by (simp add: mulle__pointerset_hash_for_size_def)
  have union: "u_mulle__pointerset_union_generic dst (Some a) None cb =
      Option.bind (u_mulle__pointerset_set_generic ?t p cb) (\<lambda>tmp. pointerset_replace dst tmp cb)"
    using a(1,2) alloc by (simp add: u_mulle__pointerset_union_generic_def round_small
        u_mulle__pointerset_copy_items_generic_def)
  have store: "u_mulle__pointerset_set_generic ?t p cb =
      map_option (\<lambda>st. ?t\<lparr>ps_storage := st, ps_count := 1, ps_n_mutations := 1, ps_events := [Retain ?q]\<rparr>)
        (store_pointer_generic [?nk] 1 ?h ?q ?nk)"
    by (cases "store_pointer_generic [?nk] 1 ?h ?q ?nk")
      (simp_all add: u_mulle__pointerset_set_generic_def u_mulle__pointerset_write_generic_def home
        pointerset_append_def u_mulle__pointerset_is_full_def pointerset_zero_def Let_def)
  show ?thesis
  proof (cases "?h = 0")
    case True
    then have "store_pointer_generic [?nk] 1 ?h ?q ?nk = Some [?q]"
      by (subst store_pointer_generic.simps) (simp add: slot_def set_slot_def)
    moreover obtain s' where "u_mulle__pointerset_release_all_generic
        (dst\<lparr>ps_events := ps_events dst @ [Retain ?q]\<rparr>) cb = Some s'"
      using release_all [OF assms(1)] by blast
    ultimately show ?thesis using True alloc a(2) union store
      by (simp add: home [unfolded True] round_small pointerset_replace_def)
  next
    case False
    then have "0 < unat ?h" by (simp add: unat_gt_0)
    then have "slot [?nk] ?h = None" by (simp add: slot_def)
    moreover from this have "store_pointer_generic [?nk] 1 ?h ?q ?nk = None"
      by (subst store_pointer_generic.simps) simp
    ultimately show ?thesis using False alloc a(2) union store
      by (simp add: home round_small)
  qed
qed

theorem mulle__pointerset_union_small_overrun_witness:
  "\<exists>a. ps_keys plain_cb a = {#7#} \<and> slot [mulle_not_a_pointer] (kc_hash plain_cb 7) = None \<and>
     u_mulle__pointerset_union_generic pointerset_zero (Some a) None plain_cb = None"
proof -
  obtain a where a: "pointerset_inv plain_cb a" "ps_keys plain_cb a = {#7#}" using one_key by blast
  have h: "kc_hash plain_cb 7 \<noteq> 0" by (simp add: mulle_pointer_hash_def mulle_hash_avalanche64_def)
  then have "slot [mulle_not_a_pointer] (kc_hash plain_cb 7) = None" by (simp add: slot_def unat_gt_0)
  with mulle__pointerset_union_small_overrun [OF plain.zero_inv a] a(2) h
  show ?thesis by auto
qed

text \<open>
  C40. The union of two sets of one key each is built in a table of two slots, which counts as full
  only when both are used. The search for any third pointer then never ends: it goes on after any
  number of rounds, with every slot it reads in the storage.
\<close>

theorem mulle__pointerset_union_small_loops:
  assumes "pointerset_inv plain_cb a" "ps_keys plain_cb a = {#x#}"
    "pointerset_inv plain_cb b" "ps_keys plain_cb b = {#y#}"
    "x \<noteq> y" "z \<notin> {x, y}" "z \<noteq> mulle_not_a_pointer"
  shows "\<exists>s'. u_mulle__pointerset_union_generic pointerset_zero (Some a) (Some b) plain_cb = Some s' \<and>
    ps_storage s' = [x, y] \<and> ps_size s' = 2 \<and>
    u_mulle__pointerset_get_generic s' z plain_cb = pointerset_get_loop [x, y] 2 z 0 plain_cb \<and>
    runs_forever (pointerset_get_step [x, y] 2 z plain_cb) 0 \<and>
    u_mulle__pointerset_get_generic s' z plain_cb = None"
proof -
  note a = single_item [OF assms(1,2)] and b = single_item [OF assms(3,4)]
  let ?nk = mulle_not_a_pointer
  let ?t = "pointerset_zero\<lparr>ps_size := 2, ps_storage := [?nk, ?nk]\<rparr>"
  have rep: "replicate (2 :: nat) ?nk = [?nk, ?nk]" by (simp add: numeral_2_eq_2)
  have alloc: "u_mulle__pointerset_allocate_storage_generic 2 ?nk = Some [?nk, ?nk]"
    using fresh_storage [of 2 1 ?nk] rep by simp
  have first: "u_mulle__pointerset_set_generic ?t x plain_cb = Some (?t\<lparr>ps_storage := [x, ?nk],
      ps_count := 1, ps_n_mutations := 1, ps_events := [Retain x]\<rparr>)"
    by (simp add: u_mulle__pointerset_set_generic_def u_mulle__pointerset_write_generic_def
        pointerset_append_def u_mulle__pointerset_is_full_def pointerset_zero_def
        mulle__pointerset_hash_for_size_def store_pointer_generic.simps slot_def set_slot_def)
  have second: "u_mulle__pointerset_set_generic (?t\<lparr>ps_storage := [x, ?nk], ps_count := 1,
      ps_n_mutations := 1, ps_events := [Retain x]\<rparr>) y plain_cb = Some (?t\<lparr>ps_storage := [x, y],
      ps_count := 2, ps_n_mutations := 2, ps_events := [Retain x, Retain y]\<rparr>)"
    using a(3) assms(5)
    by (simp add: u_mulle__pointerset_set_generic_def u_mulle__pointerset_write_generic_def Let_def
        pointerset_fill_def u_mulle__pointerset_is_full_def pointerset_zero_def find_index_generic_def word_le_nat_alt
        u_find_index_generic.simps mulle__pointerset_hash_for_size_def slot_def set_slot_def)
  let ?s = "pointerset_zero\<lparr>ps_size := 2, ps_storage := [x, y], ps_count := 2, ps_n_mutations := 1,
    ps_events := [Retain x, Retain y]\<rparr>"
  have "u_mulle__pointerset_union_generic pointerset_zero (Some a) (Some b) plain_cb = Some ?s"
    using a(1,2) b(1,2) alloc first second
    by (simp add: u_mulle__pointerset_union_generic_def round_small pointerset_replace_def
        u_mulle__pointerset_copy_items_generic_def u_mulle__pointerset_release_all_generic_def
        mulle_container_keycallback_nonowned_pointer_or_null_def pointerset_zero_def)
  moreover have forever: "runs_forever (pointerset_get_step [x, y] 2 z plain_cb) 0"
    using a(3) b(3) assms(6)
    by (intro runs_forever_invariant [where I = "\<lambda>i. i = 0 \<or> i = 1"])
      (auto simp: pointerset_get_step_def slot_def)
  moreover have "u_mulle__pointerset_get_generic ?s z plain_cb = pointerset_get_loop [x, y] 2 z 0 plain_cb"
    using assms(6,7) by (simp add: u_mulle__pointerset_get_generic_def Let_def pointerset_zero_def
        u_mulle__pointerset_pointerequalitysearch_generic_def u_mulle__pointerset__get_generic_def
        mulle__pointerset_hash_for_size_def)
  ultimately show ?thesis using get_loop_forever [OF forever] by (intro exI [of _ ?s]) simp
qed

theorem mulle__pointerset_union_small_loops_witness:
  "\<exists>a b s'. ps_keys plain_cb a = {#1#} \<and> ps_keys plain_cb b = {#2#} \<and>
     u_mulle__pointerset_union_generic pointerset_zero (Some a) (Some b) plain_cb = Some s' \<and>
     runs_forever (pointerset_get_step (ps_storage s') 2 3 plain_cb) 0"
proof -
  have lim: "unat (ps_size pointerset_zero) \<le> 2 ^ 59" by (simp add: pointerset_zero_def)
  have n: "(1 :: pointer) \<noteq> kc_notakey plain_cb" "(2 :: pointer) \<noteq> kc_notakey plain_cb"
    "(3 :: pointer) \<noteq> mulle_not_a_pointer"
    by (simp_all add: mulle_not_a_pointer_def)
  obtain a where a: "pointerset_inv plain_cb a" "ps_keys plain_cb a = {#1#}"
    using plain.insert_mode_spec [OF plain.zero_inv lim n(1)]
    by (auto simp: plain.added_def pointerset_zero_def)
  obtain b where b: "pointerset_inv plain_cb b" "ps_keys plain_cb b = {#2#}"
    using plain.insert_mode_spec [OF plain.zero_inv lim n(2)]
    by (auto simp: plain.added_def pointerset_zero_def)
  from mulle__pointerset_union_small_loops [OF a b _ _ n(3)] obtain s' where
    "u_mulle__pointerset_union_generic pointerset_zero (Some a) (Some b) plain_cb = Some s'"
    "ps_storage s' = [1, 2]" "runs_forever (pointerset_get_step [1, 2] 2 3 plain_cb) 0" by auto
  with a(2) b(2) show ?thesis by (intro exI [of _ a] exI [of _ b] exI [of _ s']) simp
qed

end
