(* ===== verification/Pointermap.thy ===== *)
theory Pointermap
  imports Pointerset
begin

text \<open>
  Model of the hash map of pointers: \<open>mulle--pointermap-generic.c\<close>, \<open>.h\<close>, \<open>mulle--pointermap-struct.c\<close>,
  \<open>.h\<close>, \<open>mulle--pointermap.h\<close>, and the map with callbacks of \<open>mulle--map.c\<close>, \<open>.h\<close>, whose struct is the
  same one.

  The storage of the code is twice \<open>_size\<close> slots, keys in the first half and the value of the key at
  slot \<open>i\<close> in slot \<open>i + _size\<close>. \<open>pm_keys\<close> and \<open>pm_values\<close> are the two halves. \<open>pm_events\<close>, which is
  not in the C struct, records the calls of the retain and release callbacks. The values of a fresh
  storage are what the memory happens to hold, unless \<open>notakey\<close> is the null pointer, in which case the
  memory is cleared; \<open>junk m\<close> is what an allocation finds when the mutation count is \<open>m\<close>.
\<close>

section \<open>Callbacks, pairs and the map\<close>

record mulle_container_valuecallback =
  vc_retain :: "pointer \<Rightarrow> pointer"
  vc_releases :: bool

record mulle_container_keyvaluecallback =
  kv_key :: mulle_container_keycallback
  kv_value :: mulle_container_valuecallback

record mulle_pointerpair =
  pp_key :: pointer
  pp_value :: pointer

datatype map_event =
  Key_Retain pointer | Key_Release pointer | Value_Retain pointer | Value_Release pointer

record mulle__pointermap =
  pm_keys :: "pointer list"
  pm_values :: "pointer list"
  pm_count :: size_t
  pm_size :: size_t
  pm_n_mutations :: uintptr_t
  pm_events :: "map_event list"

definition mulle_pointerpair_make :: "pointer \<Rightarrow> pointer \<Rightarrow> mulle_pointerpair" where
  "mulle_pointerpair_make key value = \<lparr>pp_key = key, pp_value = value\<rparr>"

definition mulle_pointerpair_make_invalid :: mulle_pointerpair where
  "mulle_pointerpair_make_invalid = \<lparr>pp_key = mulle_not_a_pointer, pp_value = 0\<rparr>"

definition mulle_pointerpair_is_invalid :: "mulle_pointerpair \<Rightarrow> bool" where
  "mulle_pointerpair_is_invalid pair \<longleftrightarrow> pp_key pair = mulle_not_a_pointer"

definition pointermap_zero :: mulle__pointermap where
  "pointermap_zero = \<lparr>pm_keys = [], pm_values = [], pm_count = 0, pm_size = 0, pm_n_mutations = 0,
     pm_events = []\<rparr>"

definition mulle__pointermap_hash_for_size :: "uintptr_t \<Rightarrow> size_t \<Rightarrow> size_t" where
  "mulle__pointermap_hash_for_size hash sz = hash AND (sz - 2)"

definition u_mulle__pointermap_is_full :: "mulle__pointermap \<Rightarrow> bool" where
  "u_mulle__pointermap_is_full m \<longleftrightarrow>
     (let sz = pm_size m; sz = sz - drop_bit 2 sz in pm_count m \<ge> sz)"

definition u_mulle__pointermap_is_sparse_size :: "mulle__pointermap \<Rightarrow> size_t \<Rightarrow> bool" where
  "u_mulle__pointermap_is_sparse_size m sz \<longleftrightarrow>
     (let sz = sz div 2; sz = sz - drop_bit 2 sz in pm_count m < sz)"

definition u_mulle__pointermap_is_sparse :: "mulle__pointermap \<Rightarrow> bool" where
  "u_mulle__pointermap_is_sparse m = u_mulle__pointermap_is_sparse_size m (pm_size m)"

definition kv_releases :: "mulle_container_keyvaluecallback option \<Rightarrow> bool" where
  "kv_releases callback = (case callback of
     None \<Rightarrow> False
   | Some callback \<Rightarrow> kc_releases (kv_key callback) \<or> vc_releases (kv_value callback))"

section \<open>Storage\<close>

definition mulle__pointermap_allocate_storage_generic ::
    "size_t \<Rightarrow> pointer \<Rightarrow> (nat \<Rightarrow> pointer) \<Rightarrow> (pointer list \<times> pointer list) option" where
  "mulle__pointermap_allocate_storage_generic n notakey found =
     (if notakey = 0
      then map_option (\<lambda>_. (replicate (unat n) 0, replicate (unat n) 0)) (v_calloc n 16)
      else map_option (\<lambda>_. (replicate (unat n) notakey, map found [0..<unat n]))
        (Option.bind (mulle_allocator_size_multiply n 16) (v_reallocarray 1)))"

definition u_mulle__pointermap_reset_generic ::
    "mulle__pointermap \<Rightarrow> pointer \<Rightarrow> mulle__pointermap" where
  "u_mulle__pointermap_reset_generic m notakey =
     m\<lparr>pm_keys := map (\<lambda>_. notakey) (pm_keys m), pm_count := 0,
       pm_n_mutations := pm_n_mutations m + 1\<rparr>"

partial_function (option) store_key_value_generic ::
    "pointer list \<Rightarrow> pointer list \<Rightarrow> size_t \<Rightarrow> size_t \<Rightarrow> pointer \<Rightarrow> pointer \<Rightarrow> pointer \<Rightarrow>
     (pointer list \<times> pointer list) option" where
  "store_key_value_generic keys values sz i key value notakey =
     Option.bind (slot keys i) (\<lambda>q.
       if q \<noteq> notakey
       then (let i = i + 1
             in store_key_value_generic keys values sz (if i < sz then i else 0) key value notakey)
       else Option.bind (set_slot keys i key) (\<lambda>keys.
            Option.bind (set_slot values i value) (\<lambda>values.
              Some (keys, values))))"

declare store_key_value_generic.simps [code]

text \<open>The source of a copy is the list of its slots, each with its value.\<close>

fun pointermap_copy_storage ::
    "pointer list \<Rightarrow> pointer list \<Rightarrow> size_t \<Rightarrow> (pointer \<times> pointer) list \<Rightarrow>
     mulle_container_keycallback \<Rightarrow> (pointer list \<times> pointer list) option" where
  "pointermap_copy_storage keys values dst_size [] callback = Some (keys, values)"
| "pointermap_copy_storage keys values dst_size ((key, value) # src) callback =
     (if key \<noteq> kc_notakey callback then
        let hash = kc_hash callback key;
            i = mulle__pointermap_hash_for_size hash dst_size
        in Option.bind (store_key_value_generic keys values dst_size i key value (kc_notakey callback))
             (\<lambda>(keys, values). pointermap_copy_storage keys values dst_size src callback)
      else pointermap_copy_storage keys values dst_size src callback)"

text \<open>The common end of growing and shrinking.\<close>

definition pointermap_rehash ::
    "junk \<Rightarrow> mulle__pointermap \<Rightarrow> size_t \<Rightarrow> mulle_container_keycallback \<Rightarrow> mulle__pointermap option" where
  "pointermap_rehash junk m new_size callback =
     Option.bind (mulle__pointermap_allocate_storage_generic new_size (kc_notakey callback)
       (junk (pm_n_mutations m))) (\<lambda>(keys, values).
     Option.bind (pointermap_copy_storage keys values new_size (zip (pm_keys m) (pm_values m)) callback)
       (\<lambda>(keys, values).
         Some (m\<lparr>pm_keys := keys, pm_values := values, pm_size := new_size,
           pm_n_mutations := pm_n_mutations m + 1\<rparr>)))"

definition pointermap_grow ::
    "junk \<Rightarrow> mulle__pointermap \<Rightarrow> mulle_container_keycallback \<Rightarrow> mulle__pointermap option" where
  "pointermap_grow junk m callback =
     (let new_size = pm_size m * 2
      in if new_size < pm_size m then None
         else pointermap_rehash junk m (if new_size = 0 then 4 else new_size) callback)"

section \<open>Searching and writing\<close>

text \<open>\<open>Inr\<close> is the index of a match, \<open>Inl\<close> the index of the hole where the search ended.\<close>

partial_function (option) pointermap_find_loop ::
    "pointer list \<Rightarrow> size_t \<Rightarrow> pointer \<Rightarrow> pointer \<Rightarrow> size_t \<Rightarrow> mulle_container_keycallback \<Rightarrow>
     (size_t + size_t) option" where
  "pointermap_find_loop keys sz key q i callback =
     (if kc_is_equal callback key q then Some (Inr i)
      else
        let i = (i + 1) AND (sz - 1)
        in Option.bind (slot keys i) (\<lambda>q.
             if q \<noteq> kc_notakey callback then pointermap_find_loop keys sz key q i callback
             else Some (Inl i)))"

declare pointermap_find_loop.simps [code]

definition pointermap_find_index ::
    "pointer list \<Rightarrow> size_t \<Rightarrow> pointer \<Rightarrow> uintptr_t \<Rightarrow> mulle_container_keycallback \<Rightarrow>
     (size_t + size_t) option" where
  "pointermap_find_index keys sz key hash callback =
     (let i = mulle__pointermap_hash_for_size hash sz
      in Option.bind (slot keys i) (\<lambda>q.
           if q = kc_notakey callback then Some (Inl i)
           else pointermap_find_loop keys sz key q i callback))"

text \<open>
  \<open>_mulle__pointermap_write_pair_generic\<close> in four pieces: replacing the pair a search found, filling
  the hole it found, growing and storing, and the whole. Its result is an old value or \<open>NULL\<close>.
\<close>

definition pointermap_replace ::
    "mulle__pointermap \<Rightarrow> mulle_pointerpair \<Rightarrow> size_t \<Rightarrow> mulle_container_write_mode \<Rightarrow>
     mulle_container_keyvaluecallback \<Rightarrow> (mulle__pointermap \<times> pointer) option" where
  "pointermap_replace m pair i mode callback =
     Option.bind (slot (pm_keys m) i) (\<lambda>q.
     Option.bind (slot (pm_values m) i) (\<lambda>old_value.
       if mode = mulle_container_insert_e then Some (m, old_value)
       else if old_value = pp_value pair \<and> q = pp_key pair then Some (m, 0)
       else
         let key = kc_retain (kv_key callback) (pp_key pair);
             value = vc_retain (kv_value callback) (pp_value pair)
         in Option.bind (set_slot (pm_keys m) i key) (\<lambda>keys.
            Option.bind (set_slot (pm_values m) i value) (\<lambda>values.
              Some (m\<lparr>pm_keys := keys, pm_values := values, pm_n_mutations := pm_n_mutations m + 1,
                  pm_events := pm_events m @ [Key_Retain key, Value_Retain value,
                    Key_Release q, Value_Release old_value]\<rparr>,
                if mode = mulle_container_update_e then old_value else 0)))))"

definition pointermap_fill ::
    "mulle__pointermap \<Rightarrow> mulle_pointerpair \<Rightarrow> size_t \<Rightarrow> mulle_container_keyvaluecallback \<Rightarrow>
     (mulle__pointermap \<times> pointer) option" where
  "pointermap_fill m pair i callback =
     (let key = kc_retain (kv_key callback) (pp_key pair);
          value = vc_retain (kv_value callback) (pp_value pair)
      in Option.bind (set_slot (pm_keys m) i key) (\<lambda>keys.
         Option.bind (set_slot (pm_values m) i value) (\<lambda>values.
           Some (m\<lparr>pm_keys := keys, pm_values := values, pm_count := pm_count m + 1,
             pm_n_mutations := pm_n_mutations m + 1,
             pm_events := pm_events m @ [Key_Retain key, Value_Retain value]\<rparr>, 0))))"

definition pointermap_append ::
    "junk \<Rightarrow> mulle__pointermap \<Rightarrow> mulle_pointerpair \<Rightarrow> uintptr_t \<Rightarrow> mulle_container_keyvaluecallback \<Rightarrow>
     (mulle__pointermap \<times> pointer) option" where
  "pointermap_append junk m pair hash callback =
     Option.bind (if u_mulle__pointermap_is_full m then pointermap_grow junk m (kv_key callback)
                  else Some m) (\<lambda>m.
       let i = mulle__pointermap_hash_for_size hash (pm_size m);
           key = kc_retain (kv_key callback) (pp_key pair);
           value = vc_retain (kv_value callback) (pp_value pair)
       in Option.bind (store_key_value_generic (pm_keys m) (pm_values m) (pm_size m) i key value
              (kc_notakey (kv_key callback))) (\<lambda>(keys, values).
            Some (m\<lparr>pm_keys := keys, pm_values := values, pm_count := pm_count m + 1,
              pm_n_mutations := pm_n_mutations m + 1,
              pm_events := pm_events m @ [Key_Retain key, Value_Retain value]\<rparr>, 0)))"

definition u_mulle__pointermap_write_pair_generic ::
    "junk \<Rightarrow> mulle__pointermap \<Rightarrow> mulle_pointerpair \<Rightarrow> mulle_container_write_mode \<Rightarrow>
     mulle_container_keyvaluecallback \<Rightarrow> (mulle__pointermap \<times> pointer) option" where
  "u_mulle__pointermap_write_pair_generic junk m pair mode callback =
     (let hash = kc_hash (kv_key callback) (pp_key pair)
      in if pm_count m \<noteq> 0 then
           Option.bind (pointermap_find_index (pm_keys m) (pm_size m) (pp_key pair) hash (kv_key callback))
             (\<lambda>found. case found of
                Inr i \<Rightarrow> pointermap_replace m pair i mode callback
              | Inl hole_index \<Rightarrow>
                  if \<not> u_mulle__pointermap_is_full m then pointermap_fill m pair hole_index callback
                  else pointermap_append junk m pair hash callback)
         else pointermap_append junk m pair hash callback)"

definition u_mulle__pointermap_set_pair_generic ::
    "junk \<Rightarrow> mulle__pointermap \<Rightarrow> mulle_pointerpair \<Rightarrow> mulle_container_keyvaluecallback \<Rightarrow>
     mulle__pointermap option" where
  "u_mulle__pointermap_set_pair_generic junk m pair callback =
     map_option fst
       (u_mulle__pointermap_write_pair_generic junk m pair mulle_container_overwrite_e callback)"

definition u_mulle__pointermap_insert_pair_generic ::
    "junk \<Rightarrow> mulle__pointermap \<Rightarrow> mulle_pointerpair \<Rightarrow> mulle_container_keyvaluecallback \<Rightarrow>
     (mulle__pointermap \<times> bool) option" where
  "u_mulle__pointermap_insert_pair_generic junk m pair callback =
     (let old_count = pm_count m
      in Option.bind
           (u_mulle__pointermap_write_pair_generic junk m pair mulle_container_insert_e callback)
           (\<lambda>(m, _). Some (m, pm_count m \<noteq> old_count)))"

definition u_mulle__pointermap_update_pair_generic ::
    "junk \<Rightarrow> mulle__pointermap \<Rightarrow> mulle_pointerpair \<Rightarrow> mulle_container_keyvaluecallback \<Rightarrow>
     (mulle__pointermap \<times> pointer) option" where
  "u_mulle__pointermap_update_pair_generic junk m pair callback =
     u_mulle__pointermap_write_pair_generic junk m pair mulle_container_update_e callback"

section \<open>Lookups\<close>

text \<open>The loop of the lookups: the key found and its value, or \<open>None\<close> inside where the path ends.\<close>

partial_function (option) pointermap_get_loop ::
    "pointer list \<Rightarrow> pointer list \<Rightarrow> size_t \<Rightarrow> pointer \<Rightarrow> size_t \<Rightarrow> mulle_container_keycallback \<Rightarrow>
     mulle_pointerpair option option" where
  "pointermap_get_loop keys values sz key i callback =
     Option.bind (slot keys i) (\<lambda>found.
       if found = kc_notakey callback then Some None
       else if key = found \<or> kc_is_equal callback found key
       then Option.bind (slot values i) (\<lambda>value.
         Some (Some \<lparr>pp_key = found, pp_value = value\<rparr>))
       else pointermap_get_loop keys values sz key ((i + 1) AND (sz - 1)) callback)"

declare pointermap_get_loop.simps [code]

definition u_mulle__pointermap__get_pair_generic_knownhash ::
    "mulle__pointermap \<Rightarrow> pointer \<Rightarrow> uintptr_t \<Rightarrow> mulle_container_keyvaluecallback \<Rightarrow>
     mulle_pointerpair option option" where
  "u_mulle__pointermap__get_pair_generic_knownhash m key hash callback =
     (if pm_count m = 0 then Some None
      else pointermap_get_loop (pm_keys m) (pm_values m) (pm_size m) key
        (mulle__pointermap_hash_for_size hash (pm_size m)) (kv_key callback))"

definition u_mulle__pointermap__get_generic_knownhash ::
    "mulle__pointermap \<Rightarrow> pointer \<Rightarrow> uintptr_t \<Rightarrow> mulle_container_keyvaluecallback \<Rightarrow> pointer option" where
  "u_mulle__pointermap__get_generic_knownhash m key hash callback =
     (if pm_count m = 0 then Some 0
      else Option.bind (pointermap_get_loop (pm_keys m) (pm_values m) (pm_size m) key
          (mulle__pointermap_hash_for_size hash (pm_size m)) (kv_key callback)) (\<lambda>r.
        case r of None \<Rightarrow> Some 0 | Some pair \<Rightarrow> Some (pp_value pair)))"

definition u_mulle__pointermap__get_generic ::
    "mulle__pointermap \<Rightarrow> pointer \<Rightarrow> mulle_container_keyvaluecallback \<Rightarrow> pointer option" where
  "u_mulle__pointermap__get_generic m key callback =
     (let hash = kc_hash (kv_key callback) key
      in u_mulle__pointermap__get_generic_knownhash m key hash callback)"

definition u_mulle__pointermap__get_pair_generic ::
    "mulle__pointermap \<Rightarrow> pointer \<Rightarrow> mulle_container_keyvaluecallback \<Rightarrow>
     mulle_pointerpair option option" where
  "u_mulle__pointermap__get_pair_generic m key callback =
     (let hash = kc_hash (kv_key callback) key
      in u_mulle__pointermap__get_pair_generic_knownhash m key hash callback)"

definition u_mulle__pointermap_get_pair_generic ::
    "mulle__pointermap \<Rightarrow> pointer \<Rightarrow> mulle_container_keyvaluecallback \<Rightarrow>
     mulle_pointerpair option option" where
  "u_mulle__pointermap_get_pair_generic m key callback =
     (if key = kc_notakey (kv_key callback) then Some None
      else u_mulle__pointermap__get_pair_generic m key callback)"

partial_function (option) pointermap_any_loop ::
    "pointer list \<Rightarrow> pointer list \<Rightarrow> size_t \<Rightarrow> size_t \<Rightarrow> pointer \<Rightarrow> mulle_pointerpair option" where
  "pointermap_any_loop keys values sz i notakey =
     Option.bind (slot keys i) (\<lambda>found.
       if found \<noteq> notakey
       then Option.bind (slot values i) (\<lambda>value. Some \<lparr>pp_key = found, pp_value = value\<rparr>)
       else pointermap_any_loop keys values sz ((i + 1) AND (sz - 1)) notakey)"

declare pointermap_any_loop.simps [code]

definition u_mulle__pointermap_get_any_pair_generic ::
    "mulle__pointermap \<Rightarrow> mulle_container_keyvaluecallback \<Rightarrow> mulle_pointerpair option option" where
  "u_mulle__pointermap_get_any_pair_generic m callback =
     (if pm_count m = 0 then Some None
      else map_option Some (pointermap_any_loop (pm_keys m) (pm_values m) (pm_size m) 0
        (kc_notakey (kv_key callback))))"

definition u_mulle__pointermap_pointerequalitysearch :: "mulle__pointermap \<Rightarrow> pointer \<Rightarrow> pointer" where
  "u_mulle__pointermap_pointerequalitysearch m key =
     (case find (\<lambda>(q, _). key = q) (zip (pm_keys m) (pm_values m)) of
        Some (_, value) \<Rightarrow> value
      | None \<Rightarrow> 0)"

definition u_mulle__pointermap_get_generic_knownhash ::
    "mulle__pointermap \<Rightarrow> pointer \<Rightarrow> uintptr_t \<Rightarrow> mulle_container_keyvaluecallback \<Rightarrow> pointer option" where
  "u_mulle__pointermap_get_generic_knownhash m key hash callback =
     (if key = kc_notakey (kv_key callback) then Some 0
      else
        let value = (if pm_size m \<le> 32 then u_mulle__pointermap_pointerequalitysearch m key else 0)
        in if value \<noteq> 0 then Some value
           else u_mulle__pointermap__get_generic_knownhash m key hash callback)"

definition u_mulle__pointermap_get_generic ::
    "mulle__pointermap \<Rightarrow> pointer \<Rightarrow> mulle_container_keyvaluecallback \<Rightarrow> pointer option" where
  "u_mulle__pointermap_get_generic m key callback =
     (if key = kc_notakey (kv_key callback) then Some 0
      else
        let value = (if pm_size m \<le> 32 then u_mulle__pointermap_pointerequalitysearch m key else 0)
        in if value \<noteq> 0 then Some value
           else u_mulle__pointermap__get_generic m key callback)"

definition u_mulle__pointermap_register_pair_generic ::
    "junk \<Rightarrow> mulle__pointermap \<Rightarrow> mulle_pointerpair \<Rightarrow> mulle_container_keyvaluecallback \<Rightarrow>
     (mulle__pointermap \<times> pointer) option" where
  "u_mulle__pointermap_register_pair_generic junk m pair callback =
     (let old_count = pm_count m
      in Option.bind
           (u_mulle__pointermap_write_pair_generic junk m pair mulle_container_insert_e callback)
           (\<lambda>(m, _).
             if pm_count m \<noteq> old_count then Some (m, pp_value pair)
             else Option.bind (u_mulle__pointermap_get_generic m (pp_key pair) callback) (\<lambda>value.
               Some (m, value))))"

section \<open>Removing and shrinking\<close>

text \<open>
  The loop of the removal that closes the gap at \<open>dst_index\<close>: a pair that would not be found behind
  the gap moves into it, and the gap moves to where the pair was.
\<close>

definition pointermap_stays :: "size_t \<Rightarrow> size_t \<Rightarrow> size_t \<Rightarrow> bool" where
  "pointermap_stays search_start i dst_index =
     (if search_start > i then dst_index > i \<and> search_start > dst_index
      else dst_index > i \<or> search_start > dst_index)"

partial_function (option) pointermap_remove_loop ::
    "pointer list \<Rightarrow> pointer list \<Rightarrow> size_t \<Rightarrow> size_t \<Rightarrow> size_t \<Rightarrow> mulle_container_keycallback \<Rightarrow>
     (pointer list \<times> pointer list) option" where
  "pointermap_remove_loop keys values sz dst_index i callback =
     (let i = (i + 1) AND (sz - 1)
      in Option.bind (slot keys i) (\<lambda>q.
           if q = kc_notakey callback
           then Option.bind (set_slot keys dst_index q) (\<lambda>keys.
                Option.bind (set_slot values dst_index 0) (\<lambda>values.
                  Some (keys, values)))
           else if pointermap_stays
               (mulle__pointermap_hash_for_size (kc_hash callback q) sz) i dst_index
           then pointermap_remove_loop keys values sz dst_index i callback
           else Option.bind (slot values i) (\<lambda>value.
                Option.bind (set_slot keys dst_index q) (\<lambda>keys.
                Option.bind (set_slot values dst_index value) (\<lambda>values.
                  pointermap_remove_loop keys values sz i i callback)))))"

declare pointermap_remove_loop.simps [code]

definition u_mulle__pointermap_remove_generic ::
    "mulle__pointermap \<Rightarrow> pointer \<Rightarrow> mulle_container_keyvaluecallback \<Rightarrow>
     (mulle__pointermap \<times> bool) option" where
  "u_mulle__pointermap_remove_generic m key callback =
     (if pm_count m = 0 then Some (m, False)
      else
        let hash = kc_hash (kv_key callback) key
        in Option.bind (pointermap_find_index (pm_keys m) (pm_size m) key hash (kv_key callback)) (\<lambda>found.
             case found of
               Inl _ \<Rightarrow> Some (m, False)
             | Inr i \<Rightarrow>
                 Option.bind (slot (pm_keys m) i) (\<lambda>q.
                 Option.bind (slot (pm_values m) i) (\<lambda>value.
                 Option.bind (pointermap_remove_loop (pm_keys m) (pm_values m) (pm_size m) i i
                     (kv_key callback)) (\<lambda>(keys, values).
                   Some (m\<lparr>pm_keys := keys, pm_values := values, pm_count := pm_count m - 1,
                     pm_n_mutations := pm_n_mutations m + 1,
                     pm_events := pm_events m @ [Key_Release q, Value_Release value]\<rparr>, True))))))"

function pointermap_shrink_loop :: "mulle__pointermap \<Rightarrow> size_t \<Rightarrow> size_t" where
  "pointermap_shrink_loop m new_size =
     (if u_mulle__pointermap_is_sparse_size m new_size
      then (let new_size = new_size div 2
            in if new_size < 4 then new_size else pointermap_shrink_loop m new_size)
      else new_size)"
  by pat_completeness auto
termination
proof (relation "measure (\<lambda>(m, s). unat s)")
  fix m :: mulle__pointermap and new_size new_size' :: "64 word"
  assume "u_mulle__pointermap_is_sparse_size m new_size" "new_size' = new_size div 2" "\<not> new_size' < 4"
  then have "unat new_size' = unat new_size div 2" "4 \<le> unat new_size'"
    by (auto simp: unat_div word_less_nat_alt not_less)
  then show "((m, new_size'), m, new_size) \<in> measure (\<lambda>(m, s). unat s)" by simp
qed simp

declare pointermap_shrink_loop.simps [simp del]

definition u_mulle__pointermap_shrink_generic ::
    "junk \<Rightarrow> mulle__pointermap \<Rightarrow> mulle_container_keyvaluecallback \<Rightarrow> mulle__pointermap option" where
  "u_mulle__pointermap_shrink_generic junk m callback =
     (let new_size = pointermap_shrink_loop m (pm_size m div 2);
          new_size = (if new_size < 4 then 4 else new_size)
      in if new_size \<ge> pm_size m then Some m
         else pointermap_rehash junk m new_size (kv_key callback))"

section \<open>Enumeration and copying\<close>

text \<open>
  The enumerator walks the slots, \<open>pe_curr\<close> is what lies ahead of its pointer, each slot with its
  value. None of the loops that enumerate changes the map it enumerates, so a loop is modelled as a
  fold over the pairs.
\<close>

record mulle__pointermapenumerator =
  pe_curr :: "(pointer \<times> pointer) list"
  pe_left :: size_t

definition u_mulle__pointermap_enumerate :: "mulle__pointermap \<Rightarrow> mulle__pointermapenumerator" where
  "u_mulle__pointermap_enumerate m =
     \<lparr>pe_curr = zip (pm_keys m) (pm_values m), pe_left = pm_count m\<rparr>"

definition u_mulle__pointermapenumerator_next_pair_notakey ::
    "mulle__pointermapenumerator \<Rightarrow> pointer \<Rightarrow>
     (mulle__pointermapenumerator \<times> bool \<times> mulle_pointerpair) option" where
  "u_mulle__pointermapenumerator_next_pair_notakey rover notakey =
     (if pe_left rover = 0 then Some (rover, False, mulle_pointerpair_make_invalid)
      else (case dropWhile (\<lambda>(key, _). key = notakey) (pe_curr rover) of
              [] \<Rightarrow> None
            | (key, value) # curr' \<Rightarrow>
                Some (rover\<lparr>pe_curr := curr', pe_left := pe_left rover - 1\<rparr>, True,
                  \<lparr>pp_key = key, pp_value = value\<rparr>)))"

partial_function (option) pointermap_items_loop ::
    "mulle__pointermapenumerator \<Rightarrow> pointer \<Rightarrow> mulle_pointerpair list option" where
  "pointermap_items_loop rover notakey =
     Option.bind (u_mulle__pointermapenumerator_next_pair_notakey rover notakey) (\<lambda>(rover, ok, pair).
       if ok then Option.bind (pointermap_items_loop rover notakey) (\<lambda>pairs. Some (pair # pairs))
       else Some [])"

declare pointermap_items_loop.simps [code]

definition pointermap_items ::
    "mulle__pointermap \<Rightarrow> pointer \<Rightarrow> mulle_pointerpair list option" where
  "pointermap_items m notakey = pointermap_items_loop (u_mulle__pointermap_enumerate m) notakey"

fun pointermap_set_pairs ::
    "junk \<Rightarrow> mulle__pointermap \<Rightarrow> mulle_pointerpair list \<Rightarrow> mulle_container_keyvaluecallback \<Rightarrow>
     mulle__pointermap option" where
  "pointermap_set_pairs junk dst [] callback = Some dst"
| "pointermap_set_pairs junk dst (item # items) callback =
     Option.bind (u_mulle__pointermap_set_pair_generic junk dst item callback) (\<lambda>dst.
       pointermap_set_pairs junk dst items callback)"

definition u_mulle__pointermap_copy_items_generic ::
    "junk \<Rightarrow> mulle__pointermap \<Rightarrow> mulle__pointermap \<Rightarrow> mulle_container_keyvaluecallback \<Rightarrow>
     mulle__pointermap option" where
  "u_mulle__pointermap_copy_items_generic junk dst src callback =
     Option.bind (pointermap_items src (kc_notakey (kv_key callback))) (\<lambda>items.
       pointermap_set_pairs junk dst items callback)"

text \<open>The distances of the keys from where their search starts, and the number of keys at distance 0.\<close>

fun pointermap_collisions_loop ::
    "pointer list \<Rightarrow> size_t \<Rightarrow> size_t \<Rightarrow> mulle_container_keycallback \<Rightarrow> size_t \<times> size_t \<Rightarrow> size_t \<times> size_t" where
  "pointermap_collisions_loop [] sz i callback (collisions, perfects) = (collisions, perfects)"
| "pointermap_collisions_loop (key # curr') sz i callback (collisions, perfects) =
     pointermap_collisions_loop curr' sz (i + 1) callback
       (if key = kc_notakey callback then (collisions, perfects)
        else
          let search_start = mulle__pointermap_hash_for_size (kc_hash callback key) sz
          in if search_start \<le> i
             then (let distance = i - search_start
                   in (collisions + distance, if distance = 0 then perfects + 1 else perfects))
             else (let distance = sz - search_start + i in (collisions + distance, perfects)))"

definition u_mulle__pointermap_count_collisions_generic ::
    "mulle__pointermap \<Rightarrow> mulle_container_keyvaluecallback \<Rightarrow> size_t \<times> size_t" where
  "u_mulle__pointermap_count_collisions_generic m callback =
     pointermap_collisions_loop (pm_keys m) (pm_size m) 0 (kv_key callback) (0, 0)"

section \<open>Maps of plain pointers\<close>

definition mulle__pointermap_keyvaluecallback :: mulle_container_keyvaluecallback where
  "mulle__pointermap_keyvaluecallback =
     \<lparr>kv_key = \<lparr>kc_hash = mulle_pointer_hash, kc_is_equal = (\<lambda>a b. a = b), kc_retain = (\<lambda>p. p),
        kc_releases = False, kc_notakey = mulle_not_a_pointer\<rparr>,
      kv_value = \<lparr>vc_retain = (\<lambda>p. p), vc_releases = False\<rparr>\<rparr>"

definition pointermap_initial_size :: "size_t \<Rightarrow> size_t" where
  "pointermap_initial_size capacity =
     (if capacity \<ge> 4 then mulle_pow2round (capacity + drop_bit 2 capacity) else 4)"

definition u_mulle__pointermap_init :: "junk \<Rightarrow> size_t \<Rightarrow> mulle__pointermap option" where
  "u_mulle__pointermap_init junk capacity =
     (if capacity \<noteq> 0 then
        let sz = pointermap_initial_size capacity
        in Option.bind (mulle__pointermap_allocate_storage_generic sz mulle_not_a_pointer (junk 0))
             (\<lambda>(keys, values).
               Some (pointermap_zero\<lparr>pm_size := sz, pm_keys := keys, pm_values := values\<rparr>))
      else Some pointermap_zero)"

definition u_mulle__pointermap_reset :: "mulle__pointermap \<Rightarrow> mulle__pointermap" where
  "u_mulle__pointermap_reset m = u_mulle__pointermap_reset_generic m mulle_not_a_pointer"

partial_function (option) pointermap_plain_get_loop ::
    "pointer list \<Rightarrow> pointer list \<Rightarrow> size_t \<Rightarrow> pointer \<Rightarrow> size_t \<Rightarrow> pointer option" where
  "pointermap_plain_get_loop keys values sz key i =
     Option.bind (slot keys i) (\<lambda>found.
       if key = found then slot values i
       else if found = mulle_not_a_pointer then Some 0
       else pointermap_plain_get_loop keys values sz key ((i + 1) AND (sz - 1)))"

declare pointermap_plain_get_loop.simps [code]

definition u_mulle__pointermap_get :: "mulle__pointermap \<Rightarrow> pointer \<Rightarrow> pointer option" where
  "u_mulle__pointermap_get m key =
     (if pm_count m = 0 then Some 0
      else
        let hash = mulle_pointer_hash key
        in pointermap_plain_get_loop (pm_keys m) (pm_values m) (pm_size m) key
             (mulle__pointermap_hash_for_size hash (pm_size m)))"

definition u_mulle__pointermap_shrink_if_needed ::
    "junk \<Rightarrow> mulle__pointermap \<Rightarrow> mulle__pointermap option" where
  "u_mulle__pointermap_shrink_if_needed junk m =
     (if u_mulle__pointermap_is_sparse m
      then u_mulle__pointermap_shrink_generic junk m mulle__pointermap_keyvaluecallback
      else Some m)"

definition u_mulle__pointermap_copy :: "junk \<Rightarrow> mulle__pointermap \<Rightarrow> mulle__pointermap option" where
  "u_mulle__pointermap_copy junk m =
     Option.bind (u_mulle__pointermap_init junk (pm_count m)) (\<lambda>other.
       u_mulle__pointermap_copy_items_generic junk other m mulle__pointermap_keyvaluecallback)"

definition u_mulle__pointermap_set ::
    "junk \<Rightarrow> mulle__pointermap \<Rightarrow> pointer \<Rightarrow> pointer \<Rightarrow> mulle__pointermap option" where
  "u_mulle__pointermap_set junk m key value =
     u_mulle__pointermap_set_pair_generic junk m (mulle_pointerpair_make key value)
       mulle__pointermap_keyvaluecallback"

definition u_mulle__pointermap_insert ::
    "junk \<Rightarrow> mulle__pointermap \<Rightarrow> pointer \<Rightarrow> pointer \<Rightarrow> (mulle__pointermap \<times> bool) option" where
  "u_mulle__pointermap_insert junk m key value =
     u_mulle__pointermap_insert_pair_generic junk m (mulle_pointerpair_make key value)
       mulle__pointermap_keyvaluecallback"

definition u_mulle__pointermap_register ::
    "junk \<Rightarrow> mulle__pointermap \<Rightarrow> pointer \<Rightarrow> pointer \<Rightarrow> (mulle__pointermap \<times> pointer) option" where
  "u_mulle__pointermap_register junk m key value =
     u_mulle__pointermap_register_pair_generic junk m (mulle_pointerpair_make key value)
       mulle__pointermap_keyvaluecallback"

definition u_mulle__pointermap_update ::
    "junk \<Rightarrow> mulle__pointermap \<Rightarrow> pointer \<Rightarrow> pointer \<Rightarrow> (mulle__pointermap \<times> pointer) option" where
  "u_mulle__pointermap_update junk m key value =
     u_mulle__pointermap_update_pair_generic junk m (mulle_pointerpair_make key value)
       mulle__pointermap_keyvaluecallback"

definition u_mulle__pointermap_remove ::
    "mulle__pointermap \<Rightarrow> pointer \<Rightarrow> (mulle__pointermap \<times> bool) option" where
  "u_mulle__pointermap_remove m key =
     u_mulle__pointermap_remove_generic m key mulle__pointermap_keyvaluecallback"

section \<open>Maps with callbacks\<close>

definition u_mulle__map_init ::
    "junk \<Rightarrow> size_t \<Rightarrow> mulle_container_keyvaluecallback \<Rightarrow> mulle__pointermap option" where
  "u_mulle__map_init junk capacity callback =
     (if capacity \<noteq> 0 then
        let sz = pointermap_initial_size capacity
        in Option.bind (mulle__pointermap_allocate_storage_generic sz (kc_notakey (kv_key callback)) (junk 0))
             (\<lambda>(keys, values).
               Some (pointermap_zero\<lparr>pm_size := sz, pm_keys := keys, pm_values := values\<rparr>))
      else Some pointermap_zero)"

fun pointermap_release_pairs :: "mulle_pointerpair list \<Rightarrow> map_event list" where
  "pointermap_release_pairs [] = []"
| "pointermap_release_pairs (pair # pairs) =
     Key_Release (pp_key pair) # Value_Release (pp_value pair) # pointermap_release_pairs pairs"

definition u_mulle__map_release_all ::
    "mulle__pointermap \<Rightarrow> mulle_container_keyvaluecallback option \<Rightarrow> mulle__pointermap option" where
  "u_mulle__map_release_all m callback =
     (case callback of
        None \<Rightarrow> Some m
      | Some cb \<Rightarrow>
          if kv_releases callback
          then Option.bind (pointermap_items m (kc_notakey (kv_key cb))) (\<lambda>pairs.
            Some (m\<lparr>pm_events := pm_events m @ pointermap_release_pairs pairs\<rparr>))
          else Some m)"

text \<open>
  \<open>_mulle__map_done\<close> releases the pairs and frees the storage, \<open>_mulle__map_init\<close> then starts with
  an empty map again, and the mutation count goes on from the one before.
\<close>

definition u_mulle__map_reset ::
    "junk \<Rightarrow> mulle__pointermap \<Rightarrow> mulle_container_keyvaluecallback \<Rightarrow> mulle__pointermap option" where
  "u_mulle__map_reset junk m callback =
     (if pm_count m \<noteq> 0 then
        let memo = pm_n_mutations m
        in Option.bind (u_mulle__map_release_all m (Some callback)) (\<lambda>m.
           Option.bind (u_mulle__map_init junk 0 callback) (\<lambda>m'.
             Some (m'\<lparr>pm_n_mutations := memo + 1, pm_events := pm_events m\<rparr>)))
      else Some m)"

definition u_mulle__map_copy ::
    "junk \<Rightarrow> mulle__pointermap \<Rightarrow> mulle_container_keyvaluecallback \<Rightarrow> mulle__pointermap option" where
  "u_mulle__map_copy junk m callback =
     Option.bind (u_mulle__map_init junk (pm_count m) callback) (\<lambda>other.
       u_mulle__pointermap_copy_items_generic junk other m callback)"

text \<open>The keys and values of a variable argument list, in order, up to \<open>notakey\<close>.\<close>

fun u_mulle__map_insert_key_valuesv ::
    "junk \<Rightarrow> mulle__pointermap \<Rightarrow> pointer \<Rightarrow> pointer list \<Rightarrow> mulle_container_keyvaluecallback \<Rightarrow>
     mulle__pointermap option" where
  "u_mulle__map_insert_key_valuesv junk m key args callback =
     (if key = kc_notakey (kv_key callback) then Some m
      else (case args of
          value # key' # args' \<Rightarrow>
            Option.bind (u_mulle__pointermap_insert_pair_generic junk m
                \<lparr>pp_key = key, pp_value = value\<rparr> callback) (\<lambda>(m, _).
              u_mulle__map_insert_key_valuesv junk m key' args' callback)
        | _ \<Rightarrow> None))"

declare u_mulle__map_insert_key_valuesv.simps [simp del]

end
