(* ===== verification/Pointermap_Keys.thy ===== *)
theory Pointermap_Keys
  imports Pointermap
begin

text \<open>
  The hash map is the hash set of its keys with a value beside every key: the loops of the map take the
  steps of the loops of the set, so what the set guarantees of its keys carries over, and the pairs
  stay together. \<open>pm_lookup\<close> is the map as a function, which the operations are specified by.
\<close>

section \<open>The set of the keys\<close>

definition keyset :: "mulle__pointermap \<Rightarrow> mulle__pointerset" where
  "keyset m = \<lparr>ps_storage = pm_keys m, ps_static = False, ps_count = pm_count m, ps_size = pm_size m,
     ps_n_mutations = 0, ps_events = []\<rparr>"

lemma keyset_simps [simp]:
  "ps_storage (keyset m) = pm_keys m" "ps_count (keyset m) = pm_count m"
  "ps_size (keyset m) = pm_size m"
  by (simp_all add: keyset_def)

definition pair_slots :: "'k \<Rightarrow> 'k list \<Rightarrow> 'v list \<Rightarrow> ('k \<times> 'v) multiset" where
  "pair_slots nk ks vs = filter_mset (\<lambda>p. fst p \<noteq> nk) (mset (zip ks vs))"

abbreviation pm_pairs ::
    "mulle_container_keyvaluecallback \<Rightarrow> mulle__pointermap \<Rightarrow> (pointer \<times> pointer) multiset" where
  "pm_pairs kv m \<equiv> pair_slots (kc_notakey (kv_key kv)) (pm_keys m) (pm_values m)"

definition pointermap_inv :: "mulle_container_keyvaluecallback \<Rightarrow> mulle__pointermap \<Rightarrow> bool" where
  "pointermap_inv kv m \<longleftrightarrow>
     pointerset_inv (kv_key kv) (keyset m) \<and> length (pm_values m) = length (pm_keys m)"

text \<open>The value of the pair whose key equals \<open>x\<close>.\<close>

definition pm_lookup ::
    "mulle_container_keyvaluecallback \<Rightarrow> mulle__pointermap \<Rightarrow> pointer \<Rightarrow> pointer option" where
  "pm_lookup kv m x = map_option snd
     (find (\<lambda>(k, _). k \<noteq> kc_notakey (kv_key kv) \<and> kc_is_equal (kv_key kv) x k)
       (zip (pm_keys m) (pm_values m)))"

lemma pair_slots_keys:
  "length vs = length ks \<Longrightarrow> image_mset fst (pair_slots nk ks vs) = used_slots nk ks"
proof (induction ks arbitrary: vs)
  case (Cons k ks)
  then obtain v vs' where "vs = v # vs'" by (cases vs) auto
  with Cons show ?case by (auto simp: pair_slots_def)
qed (simp add: pair_slots_def)

lemma pair_slots_update:
  assumes "i < length ks" "length vs = length ks"
  shows "pair_slots nk (ks[i := k]) (vs[i := v]) =
    (if k = nk then {#} else {#(k, v)#}) +
    (pair_slots nk ks vs - (if ks ! i = nk then {#} else {#(ks ! i, vs ! i)#}))"
proof -
  have "zip (ks[i := k]) (vs[i := v]) = (zip ks vs)[i := (k, v)]" by (simp add: update_zip)
  with assms show ?thesis by (simp add: pair_slots_def mset_update)
qed

lemma in_pair_slots:
  "length vs = length ks \<Longrightarrow>
   p \<in># pair_slots nk ks vs \<longleftrightarrow> fst p \<noteq> nk \<and> (\<exists>i<length ks. p = (ks ! i, vs ! i))"
  by (auto simp: pair_slots_def in_set_zip)

lemma nth_pair:
  "length vs = length ks \<Longrightarrow> i < length ks \<Longrightarrow> ks ! i \<noteq> nk \<Longrightarrow> (ks ! i, vs ! i) \<in># pair_slots nk ks vs"
  by (auto simp: in_pair_slots)

lemma size_pair_slots:
  "length vs = length ks \<Longrightarrow> size (pair_slots nk ks vs) = size (used_slots nk ks)"
  by (metis pair_slots_keys size_image_mset)

section \<open>The loops of the map and of the set\<close>

lemma hash_for_size_map: "mulle__pointermap_hash_for_size = mulle__pointerset_hash_for_size"
  by (simp add: fun_eq_iff mulle__pointermap_hash_for_size_def mulle__pointerset_hash_for_size_def)

lemma stays_map: "pointermap_stays = pointerset_stays"
  by (simp add: fun_eq_iff pointermap_stays_def pointerset_stays_def)

lemma full_map: "u_mulle__pointermap_is_full m = u_mulle__pointerset_is_full (keyset m)"
  by (simp add: u_mulle__pointermap_is_full_def u_mulle__pointerset_is_full_def Let_def)

lemma sparse_size_map:
  "u_mulle__pointermap_is_sparse_size m n = u_mulle__pointerset_is_sparse_size (keyset m) n"
  by (simp add: u_mulle__pointermap_is_sparse_size_def u_mulle__pointerset_is_sparse_size_def Let_def)

lemma shrink_loop_map: "pointermap_shrink_loop m n = pointerset_shrink_loop (keyset m) n"
proof (induction m n rule: pointermap_shrink_loop.induct)
  case (1 m n)
  have "pointermap_shrink_loop m (n div 2) = pointerset_shrink_loop (keyset m) (n div 2)"
    if "u_mulle__pointermap_is_sparse_size m n" "\<not> n div 2 < 4"
    using 1 [OF that(1) refl that(2)] .
  then show ?case
    by (simp only: pointermap_shrink_loop.simps [of m n] pointerset_shrink_loop.simps [of "keyset m" n]
        sparse_size_map Let_def cong: if_cong) argo
qed

lemma find_loop_map:
  assumes "u_find_index_generic t sz p q i cb = Some r"
  shows "pointermap_find_loop t sz p q i cb = Some r"
proof (rule u_find_index_generic.raw_induct [OF _ assms])
  fix loop and t :: "pointer list" and sz p q i :: "64 word" and cb r
  assume IH: "\<And>t sz p q i cb r. loop t sz p q i cb = Some r \<Longrightarrow> pointermap_find_loop t sz p q i cb = Some r"
    and body: "(if kc_is_equal cb p q then Some (Inr i)
      else let i = (i + 1) AND (sz - 1)
        in Option.bind (slot t i) (\<lambda>q. if q \<noteq> kc_notakey cb then loop t sz p q i cb else Some (Inl i))) = Some r"
  show "pointermap_find_loop t sz p q i cb = Some r"
  proof (cases "kc_is_equal cb p q")
    case True
    with body show ?thesis by (subst pointermap_find_loop.simps) simp
  next
    case False
    with body obtain q' where q': "slot t ((i + 1) AND (sz - 1)) = Some q'"
      "(if q' \<noteq> kc_notakey cb then loop t sz p q' ((i + 1) AND (sz - 1)) cb
        else Some (Inl ((i + 1) AND (sz - 1)))) = Some r"
      by (auto simp: Let_def bind_eq_Some_conv)
    have "(if q' \<noteq> kc_notakey cb then pointermap_find_loop t sz p q' ((i + 1) AND (sz - 1)) cb
        else Some (Inl ((i + 1) AND (sz - 1)))) = Some r"
    proof (cases "q' = kc_notakey cb")
      case True
      with q'(2) show ?thesis by simp
    next
      case neq: False
      with q'(2) have "loop t sz p q' ((i + 1) AND (sz - 1)) cb = Some r" by simp
      from IH [OF this] neq show ?thesis by simp
    qed
    with False q'(1) show ?thesis by (subst pointermap_find_loop.simps) (simp add: Let_def)
  qed
qed

lemma find_index_map:
  "find_index_generic t sz p h cb = Some r \<Longrightarrow> pointermap_find_index t sz p h cb = Some r"
  by (auto simp: find_index_generic_def pointermap_find_index_def hash_for_size_map Let_def
      bind_eq_Some_conv find_loop_map split: if_splits)

lemma store_map:
  assumes "store_pointer_generic t sz i x nk = Some t'"
  shows "\<forall>vs v. length vs = length t \<longrightarrow> (\<exists>j<length t. t ! j = nk \<and> t' = t[j := x] \<and>
    store_key_value_generic t vs sz i x v nk = Some (t', vs[j := v]))"
proof (rule store_pointer_generic.raw_induct [OF _ assms, where P = "\<lambda>t sz i x nk t'.
    \<forall>vs v. length vs = length t \<longrightarrow> (\<exists>j<length t. t ! j = nk \<and> t' = t[j := x] \<and>
    store_key_value_generic t vs sz i x v nk = Some (t', vs[j := v]))"], intro allI impI)
  fix loop and t t' vs :: "pointer list" and sz i x nk v :: "64 word"
  assume IH: "\<And>t sz i x nk t'. loop t sz i x nk = Some t' \<Longrightarrow>
      \<forall>vs v. length vs = length t \<longrightarrow> (\<exists>j<length t. t ! j = nk \<and> t' = t[j := x] \<and>
        store_key_value_generic t vs sz i x v nk = Some (t', vs[j := v]))"
    and body: "Option.bind (slot t i) (\<lambda>q.
       if q \<noteq> nk then let i = i + 1 in loop t sz (if i < sz then i else 0) x nk
       else set_slot t i x) = Some t'"
    and len: "length vs = length t"
  from body have i: "unat i < length t" by (auto simp: bind_eq_Some_conv slot_def split: if_splits)
  show "\<exists>j<length t. t ! j = nk \<and> t' = t[j := x] \<and>
      store_key_value_generic t vs sz i x v nk = Some (t', vs[j := v])"
  proof (cases "t ! unat i = nk")
    case True
    with body i len show ?thesis
      by (subst store_key_value_generic.simps) (auto simp: slot_Some set_slot_Some)
  next
    case False
    with body i have "loop t sz (if i + 1 < sz then i + 1 else 0) x nk = Some t'"
      by (simp add: slot_Some Let_def)
    from IH [OF this] len False i show ?thesis
      by (subst store_key_value_generic.simps) (auto simp: slot_Some Let_def)
  qed
qed

lemma get_loop_map:
  assumes "pointerset_get_loop t sz key i cb = Some q"
  shows "\<forall>vs. length vs = length t \<longrightarrow> (\<exists>j<length t. q = t ! j \<and>
    pointermap_get_loop t vs sz key i cb =
      Some (if q = kc_notakey cb then None else Some \<lparr>pp_key = q, pp_value = vs ! j\<rparr>))"
proof (rule pointerset_get_loop.raw_induct [OF _ assms, where P = "\<lambda>t sz key i cb q.
    \<forall>vs. length vs = length t \<longrightarrow> (\<exists>j<length t. q = t ! j \<and>
    pointermap_get_loop t vs sz key i cb =
      Some (if q = kc_notakey cb then None else Some \<lparr>pp_key = q, pp_value = vs ! j\<rparr>))"], intro allI impI)
  fix loop and t vs :: "pointer list" and sz key i q :: "64 word" and cb
  assume IH: "\<And>t sz key i cb q. loop t sz key i cb = Some q \<Longrightarrow>
      \<forall>vs. length vs = length t \<longrightarrow> (\<exists>j<length t. q = t ! j \<and> pointermap_get_loop t vs sz key i cb =
        Some (if q = kc_notakey cb then None else Some \<lparr>pp_key = q, pp_value = vs ! j\<rparr>))"
    and "Option.bind (pointerset_get_step t sz key cb i) (\<lambda>r.
        case r of Inl i \<Rightarrow> loop t sz key i cb | Inr found \<Rightarrow> Some found) = Some q"
    and len: "length vs = length t"
  then have body: "Option.bind (slot t i) (\<lambda>found.
        if found = kc_notakey cb \<or> key = found \<or> kc_is_equal cb found key then Some found
        else loop t sz key ((i + 1) AND (sz - 1)) cb) = Some q" by (simp only: get_step_bind)
  from body have i: "unat i < length t" by (auto simp: bind_eq_Some_conv slot_def split: if_splits)
  show "\<exists>j<length t. q = t ! j \<and> pointermap_get_loop t vs sz key i cb =
      Some (if q = kc_notakey cb then None else Some \<lparr>pp_key = q, pp_value = vs ! j\<rparr>)"
  proof (cases "t ! unat i = kc_notakey cb \<or> key = t ! unat i \<or> kc_is_equal cb (t ! unat i) key")
    case True
    with body i have "q = t ! unat i" by (simp add: slot_Some)
    with True i len show ?thesis
      by (intro exI [of _ "unat i"]) (subst pointermap_get_loop.simps, auto simp: slot_Some)
  next
    case False
    with body i have "loop t sz key ((i + 1) AND (sz - 1)) cb = Some q" by (simp add: slot_Some)
    from IH [OF this] len False i show ?thesis
      by (subst pointermap_get_loop.simps) (simp add: slot_Some)
  qed
qed

text \<open>Closing the gap takes the pair of the gap away and keeps the others, whatever it moves.\<close>

lemma remove_map:
  assumes "pointerset_remove_loop t sz dst i cb = Some t'"
  shows "\<forall>vs. length vs = length t \<longrightarrow> t ! unat dst \<noteq> kc_notakey cb \<longrightarrow> unat dst < length t \<longrightarrow>
    (\<exists>vs'. pointermap_remove_loop t vs sz dst i cb = Some (t', vs') \<and> length vs' = length vs \<and>
      pair_slots (kc_notakey cb) t' vs' =
        pair_slots (kc_notakey cb) t vs - {#(t ! unat dst, vs ! unat dst)#})"
proof (rule pointerset_remove_loop.raw_induct [OF _ assms, where P = "\<lambda>t sz dst i cb t'.
    \<forall>vs. length vs = length t \<longrightarrow> t ! unat dst \<noteq> kc_notakey cb \<longrightarrow> unat dst < length t \<longrightarrow>
    (\<exists>vs'. pointermap_remove_loop t vs sz dst i cb = Some (t', vs') \<and> length vs' = length vs \<and>
      pair_slots (kc_notakey cb) t' vs' =
        pair_slots (kc_notakey cb) t vs - {#(t ! unat dst, vs ! unat dst)#})"], intro allI impI)
  fix loop and t t' vs :: "pointer list" and sz dst i :: "64 word" and cb :: mulle_container_keycallback
  let ?P = "\<lambda>t dst t' vs r. \<exists>vs'. r = Some (t', vs') \<and> length vs' = length vs \<and>
      pair_slots (kc_notakey cb) t' vs' =
        pair_slots (kc_notakey cb) t vs - {#(t ! unat dst, vs ! unat dst)#}"
  let ?j = "(i + 1) AND (sz - 1)"
  assume IH: "\<And>t sz dst i cb t'. loop t sz dst i cb = Some t' \<Longrightarrow>
      \<forall>vs. length vs = length t \<longrightarrow> t ! unat dst \<noteq> kc_notakey cb \<longrightarrow> unat dst < length t \<longrightarrow>
      (\<exists>vs'. pointermap_remove_loop t vs sz dst i cb = Some (t', vs') \<and> length vs' = length vs \<and>
        pair_slots (kc_notakey cb) t' vs' =
          pair_slots (kc_notakey cb) t vs - {#(t ! unat dst, vs ! unat dst)#})"
    and body: "(let i = (i + 1) AND (sz - 1)
      in Option.bind (slot t i) (\<lambda>q.
           if q = kc_notakey cb then set_slot t dst (kc_notakey cb)
           else if pointerset_stays
               (mulle__pointerset_hash_for_size (kc_hash cb q) sz) i dst
           then loop t sz dst i cb
           else Option.bind (set_slot t dst q) (\<lambda>storage. loop storage sz i i cb))) = Some t'"
    and len: "length vs = length t" and dst: "t ! unat dst \<noteq> kc_notakey cb" "unat dst < length t"
  from body have j: "unat ?j < length t"
    by (auto simp: bind_eq_Some_conv slot_def Let_def split: if_splits)
  note unfold = pointermap_remove_loop.simps [of t vs sz dst i cb]
  let ?q = "t ! unat ?j"
  let ?stays = "pointerset_stays (mulle__pointerset_hash_for_size (kc_hash cb ?q) sz) ?j dst"
  consider "?q = kc_notakey cb" | "?q \<noteq> kc_notakey cb" "?stays" | "?q \<noteq> kc_notakey cb" "\<not> ?stays" by blast
  then show "?P t dst t' vs (pointermap_remove_loop t vs sz dst i cb)"
  proof cases
    case 1
    with body j dst have "t' = t[unat dst := kc_notakey cb]"
      by (simp add: slot_Some set_slot_Some Let_def)
    moreover have "pointermap_remove_loop t vs sz dst i cb =
        Some (t[unat dst := kc_notakey cb], vs[unat dst := 0])"
      unfolding unfold using 1 j dst len by (simp add: slot_Some set_slot_Some Let_def)
    ultimately show ?thesis using pair_slots_update [OF dst(2) len, of "kc_notakey cb" "kc_notakey cb" 0] dst
      by simp
  next
    case 2
    with body j have "loop t sz dst ?j cb = Some t'" by (simp add: slot_Some Let_def)
    moreover have "pointermap_remove_loop t vs sz dst i cb = pointermap_remove_loop t vs sz dst ?j cb"
      unfolding unfold using 2 j by (simp add: slot_Some Let_def hash_for_size_map stays_map)
    ultimately show ?thesis using IH [of t sz dst ?j cb t'] len dst by simp
  next
    case 3
    let ?t = "t[unat dst := ?q]" and ?vs = "vs[unat dst := vs ! unat ?j]"
    from 3 body j dst have l: "loop ?t sz ?j ?j cb = Some t'"
      by (simp add: slot_Some set_slot_Some Let_def)
    have same: "?t ! unat ?j = ?q" "?vs ! unat ?j = vs ! unat ?j"
      using j len by (cases "unat ?j = unat dst"; simp)+
    have "?P ?t ?j t' ?vs (pointermap_remove_loop ?t ?vs sz ?j ?j cb)"
      by (rule IH [OF l, rule_format]) (use len j 3 in \<open>simp_all only: same length_list_update\<close>, simp_all)
    moreover have "pointermap_remove_loop t vs sz dst i cb = pointermap_remove_loop ?t ?vs sz ?j ?j cb"
      unfolding unfold using 3 j dst len
      by (simp add: slot_Some set_slot_Some Let_def hash_for_size_map stays_map)
    moreover have "pair_slots (kc_notakey cb) ?t ?vs - {#(?q, vs ! unat ?j)#} =
        pair_slots (kc_notakey cb) t vs - {#(t ! unat dst, vs ! unat dst)#}"
      using pair_slots_update [OF dst(2) len, of "kc_notakey cb" ?q "vs ! unat ?j"] 3 dst by simp
    ultimately show ?thesis unfolding same by simp
  qed
qed


section \<open>Storage\<close>

definition keys_agree :: "mulle__pointermap \<Rightarrow> mulle__pointerset \<Rightarrow> bool" where
  "keys_agree m s \<longleftrightarrow> pm_keys m = ps_storage s \<and> pm_count m = ps_count s \<and> pm_size m = ps_size s"

lemma keys_agree_keyset [simp]: "keys_agree m (keyset m)"
  by (simp add: keys_agree_def)

lemma keys_agree_inv:
  "keys_agree m s \<Longrightarrow> pointerset_inv (kv_key kv) s \<Longrightarrow> length (pm_values m) = length (pm_keys m) \<Longrightarrow>
   pointermap_inv kv m"
  by (auto simp: keys_agree_def pointermap_inv_def pointerset_inv_def)

lemma pair_slots_store:
  assumes "j < length t" "t ! j = nk" "length vs = length t" "x \<noteq> nk"
  shows "pair_slots nk (t[j := x]) (vs[j := v]) = add_mset (x, v) (pair_slots nk t vs)"
  using pair_slots_update [OF assms(1,3), of nk x v] assms(2,4) by simp

lemma copy_map:
  assumes "copy_storage_generic dst sz (map fst src) cb = Some t'" "length vs = length dst"
  shows "\<exists>vs'. pointermap_copy_storage dst vs sz src cb = Some (t', vs') \<and> length vs' = length t' \<and>
    pair_slots (kc_notakey cb) t' vs' =
      pair_slots (kc_notakey cb) dst vs + filter_mset (\<lambda>p. fst p \<noteq> kc_notakey cb) (mset src)"
  using assms
proof (induction src arbitrary: dst vs)
  case (Cons p src)
  obtain k v where p: "p = (k, v)" by (cases p)
  show ?case
  proof (cases "k = kc_notakey cb")
    case True
    with Cons p show ?thesis by simp
  next
    case False
    with Cons.prems(1) p obtain t where t: "store_pointer_generic dst sz
        (mulle__pointerset_hash_for_size (kc_hash cb k) sz) k (kc_notakey cb) = Some t"
      "copy_storage_generic t sz (map fst src) cb = Some t'"
      by (auto simp: Let_def bind_eq_Some_conv)
    obtain j where j: "j < length dst" "dst ! j = kc_notakey cb" "t = dst[j := k]"
      "store_key_value_generic dst vs sz (mulle__pointerset_hash_for_size (kc_hash cb k) sz) k v
        (kc_notakey cb) = Some (t, vs[j := v])"
      using store_map [OF t(1)] Cons.prems(2) by blast
    have "length (vs[j := v]) = length t" using j(3) Cons.prems(2) by simp
    from Cons.IH [OF t(2) this] pair_slots_store [OF j(1,2) Cons.prems(2) False, of v] show ?thesis
      using False p j(3,4) by (auto simp: Let_def hash_for_size_map)
  qed
qed simp

lemma zip_fst: "length vs = length ks \<Longrightarrow> map fst (zip ks vs) = ks"
  by simp

lemma allocate_pairs:
  assumes "0 < unat n" "unat n < 2 ^ 60"
  obtains vs where "mulle__pointermap_allocate_storage_generic n notakey found =
      Some (replicate (unat n) notakey, vs)" "length vs = unat n"
proof -
  have "unat n * unat (16 :: size_t) < 2 ^ 64" using assms(2) by simp
  from alloc_array [OF assms(1) _ this] that show ?thesis
    by (cases "notakey = 0") (simp_all add: mulle__pointermap_allocate_storage_generic_def)
qed

lemma allocate_storage_Some:
  assumes "u_mulle__pointerset_allocate_storage_generic n notakey = Some st"
  shows "0 < unat n" "st = replicate (unat n) notakey"
proof -
  have "n \<noteq> 0" using assms allocate_nothing by auto
  then show "0 < unat n" by (simp add: unat_gt_0)
  show "st = replicate (unat n) notakey" using assms
    by (auto simp: u_mulle__pointerset_allocate_storage_generic_def
        u_mulle__pointerset_init_storage_generic_def bind_eq_Some_conv split: if_splits)
qed

lemma rehash_map:
  assumes s: "pointerset_rehash (keyset m) sz cb = Some s'" and small: "unat sz < 2 ^ 60"
    and len: "length (pm_values m) = length (pm_keys m)"
  shows "\<exists>m'. pointermap_rehash junk m sz cb = Some m' \<and> keys_agree m' s' \<and>
    length (pm_values m') = length (pm_keys m') \<and> pm_events m' = pm_events m \<and>
    pair_slots (kc_notakey cb) (pm_keys m') (pm_values m') =
      pair_slots (kc_notakey cb) (pm_keys m) (pm_values m)"
proof -
  let ?buf = "replicate (unat sz) (kc_notakey cb)"
  obtain buf t' where t': "u_mulle__pointerset_allocate_storage_generic sz (kc_notakey cb) = Some buf"
    "copy_storage_generic buf sz (pm_keys m) cb = Some t'"
    "s' = (keyset m)\<lparr>ps_storage := t', ps_static := False, ps_size := sz,
       ps_n_mutations := ps_n_mutations (keyset m) + 1\<rparr>"
    using s unfolding pointerset_rehash_def bind_eq_Some_conv by auto
  note copied = t'(2) [unfolded allocate_storage_Some(2) [OF t'(1)]]
  obtain vs where vs: "mulle__pointermap_allocate_storage_generic sz (kc_notakey cb)
      (junk (pm_n_mutations m)) = Some (?buf, vs)" "length vs = length ?buf"
    using allocate_pairs [OF allocate_storage_Some(1) [OF t'(1)] small, of "kc_notakey cb"
        "junk (pm_n_mutations m)"] by auto
  from copied have "copy_storage_generic ?buf sz (map fst (zip (pm_keys m) (pm_values m))) cb = Some t'"
    using len by simp
  from copy_map [OF this vs(2)] obtain vs' where vs': "pointermap_copy_storage ?buf vs sz
      (zip (pm_keys m) (pm_values m)) cb = Some (t', vs')" "length vs' = length t'"
    "pair_slots (kc_notakey cb) t' vs' = pair_slots (kc_notakey cb) ?buf vs +
      filter_mset (\<lambda>p. fst p \<noteq> kc_notakey cb) (mset (zip (pm_keys m) (pm_values m)))"
    by blast
  have "pair_slots (kc_notakey cb) ?buf vs = {#}"
    using pair_slots_keys [OF vs(2), of "kc_notakey cb"] by simp
  with vs' vs(1) t'(3) show ?thesis
    by (simp add: pointermap_rehash_def keys_agree_def pair_slots_def)
qed

lemma grow_map:
  assumes s: "grow_generic (keyset m) cb = Some s'" and lim: "unat (pm_size m) \<le> 2 ^ 58"
    and len: "length (pm_values m) = length (pm_keys m)"
  shows "\<exists>m'. pointermap_grow junk m cb = Some m' \<and> keys_agree m' s' \<and>
    length (pm_values m') = length (pm_keys m') \<and> pm_events m' = pm_events m \<and>
    pair_slots (kc_notakey cb) (pm_keys m') (pm_values m') =
      pair_slots (kc_notakey cb) (pm_keys m) (pm_values m)"
proof -
  let ?n = "if pm_size m * 2 = 0 then 4 else pm_size m * 2"
  have s': "pointerset_rehash (keyset m) ?n cb = Some s'" "\<not> pm_size m * 2 < pm_size m"
    using s by (auto simp: grow_generic_def Let_def split: if_splits)
  have "unat (pm_size m * 2) = unat (pm_size m) * 2" using lim by (simp add: unat_word_ariths)
  then have "unat ?n < 2 ^ 60" using lim by simp
  from rehash_map [OF s'(1) this len, of junk] s'(2) show ?thesis
    by (simp add: pointermap_grow_def Let_def)
qed


section \<open>The map as a function\<close>

locale map_callbacks =
  fixes kv :: mulle_container_keyvaluecallback
  assumes key_callbacks: "keycallback_ok (kv_key kv)"

sublocale map_callbacks \<subseteq> callback_table "kv_key kv"
  by unfold_locales (rule key_callbacks)

context map_callbacks
begin

abbreviation eqk :: "pointer \<Rightarrow> pointer \<Rightarrow> bool" where
  "eqk \<equiv> kc_is_equal (kv_key kv)"

lemma map_inv_unequal: "pointermap_inv kv m \<Longrightarrow> unequal (pm_keys m)"
  using inv_unequal [of "keyset m"] by (simp add: pointermap_inv_def)

lemma pair_key: "pointermap_inv kv m \<Longrightarrow> (k, v) \<in># pm_pairs kv m \<Longrightarrow> k \<noteq> nk"
  by (simp add: pointermap_inv_def in_pair_slots)

lemma other_pairs:
  assumes inv: "pointermap_inv kv m" and q: "(q, w) \<in># pm_pairs kv m"
    and p: "(k, v) \<in># pm_pairs kv m - {#(q, w)#}"
  shows "\<not> eqk q k"
proof
  let ?ks = "pm_keys m" and ?vs = "pm_values m"
  assume eq: "eqk q k"
  have len: "length ?vs = length ?ks" using inv by (simp add: pointermap_inv_def)
  obtain i where i: "i < length ?ks" "q = ?ks ! i" "w = ?vs ! i" "q \<noteq> nk"
    using q len by (auto simp: in_pair_slots)
  have "(k, v) \<in># pair_slots nk (?ks[i := nk]) (?vs[i := v])"
    using pair_slots_update [OF i(1) len, of nk nk v] i p by simp
  moreover have "length (?vs[i := v]) = length (?ks[i := nk])" using len by simp
  ultimately obtain j where j: "k \<noteq> nk" "j < length ?ks" "k = ?ks[i := nk] ! j"
    by (auto simp: in_pair_slots)
  then have "j \<noteq> i" "?ks ! j = k" using i(1) by (cases "j = i"; simp)+
  with map_inv_unequal [OF inv] i j eq show False unfolding unequal_def by metis
qed

lemma same_pair:
  assumes inv: "pointermap_inv kv m" and p: "(k, v) \<in># pm_pairs kv m" "(k', v') \<in># pm_pairs kv m"
    and eq: "eqk k k'"
  shows "k' = k \<and> v' = v"
proof (rule ccontr)
  assume ne: "\<not> (k' = k \<and> v' = v)"
  have "(k', v') \<in># pm_pairs kv m - {#(k, v)#}" using p(2) ne by (auto simp: in_diff_count)
  with other_pairs [OF inv p(1), of k' v'] eq show False by simp
qed

lemma lookup_iff:
  assumes inv: "pointermap_inv kv m" and x: "x \<noteq> nk"
  shows "pm_lookup kv m x = Some v \<longleftrightarrow> (\<exists>k. (k, v) \<in># pm_pairs kv m \<and> eqk x k)"
proof -
  let ?P = "\<lambda>(k, _ :: pointer). k \<noteq> nk \<and> eqk x k" and ?z = "zip (pm_keys m) (pm_values m)"
  have len: "length (pm_values m) = length (pm_keys m)" using inv by (simp add: pointermap_inv_def)
  have found: "p \<in># pm_pairs kv m \<and> eqk x (fst p)" if "find ?P ?z = Some p" for p
  proof -
    from that obtain i where "i < length ?z" "?P (?z ! i)" "p = ?z ! i" by (auto simp: find_Some_iff)
    with len show ?thesis by (auto simp: in_pair_slots)
  qed
  show ?thesis
  proof
    assume "pm_lookup kv m x = Some v"
    then obtain k where "find ?P ?z = Some (k, v)" by (auto simp: pm_lookup_def)
    from found [OF this] show "\<exists>k. (k, v) \<in># pm_pairs kv m \<and> eqk x k" by auto
  next
    assume "\<exists>k. (k, v) \<in># pm_pairs kv m \<and> eqk x k"
    then obtain k where k: "(k, v) \<in># pm_pairs kv m" "eqk x k" by blast
    have knk: "k \<noteq> nk" using pair_key [OF inv k(1)] .
    have "find ?P ?z \<noteq> None"
      using k knk len by (auto simp: find_None_iff pair_slots_def)
    then obtain k' v' where f: "find ?P ?z = Some (k', v')" by auto
    from found [OF this] have p: "(k', v') \<in># pm_pairs kv m" "eqk x k'" by auto
    have "eqk k k'" using eq_trans [of k x k'] eq_sym [OF x knk k(2)] p x knk pair_key [OF inv p(1)] by blast
    from same_pair [OF inv k(1) p(1) this] f show "pm_lookup kv m x = Some v" by (simp add: pm_lookup_def)
  qed
qed

lemma lookup_None_iff:
  assumes "pointermap_inv kv m" "x \<noteq> nk"
  shows "pm_lookup kv m x = None \<longleftrightarrow> \<not> present (keyset m) x"
proof -
  have len: "length (pm_values m) = length (pm_keys m)" using assms by (simp add: pointermap_inv_def)
  have "present (keyset m) x \<longleftrightarrow> (\<exists>p \<in># pm_pairs kv m. eqk x (fst p))"
    unfolding keyset_simps pair_slots_keys [OF len, symmetric] by simp
  also have "\<dots> \<longleftrightarrow> (\<exists>v k. (k, v) \<in># pm_pairs kv m \<and> eqk x k)" by force
  also have "\<dots> \<longleftrightarrow> (\<exists>v. pm_lookup kv m x = Some v)" using lookup_iff [OF assms] by simp
  finally show ?thesis by auto
qed

text \<open>What a new pair \<open>(k, v)\<close> does to the function, where \<open>P\<close> are the pairs with other keys.\<close>

lemma lookup_add:
  assumes inv: "pointermap_inv kv m" "pointermap_inv kv m'" and k: "k \<noteq> nk"
    and pairs: "pm_pairs kv m' = add_mset (k, v) P" "P \<subseteq># pm_pairs kv m"
    and rest: "\<forall>p \<in># pm_pairs kv m. \<not> eqk k (fst p) \<longrightarrow> p \<in># P" "\<forall>p \<in># P. \<not> eqk k (fst p)"
    and x: "x \<noteq> nk"
  shows "pm_lookup kv m' x = (if eqk x k then Some v else pm_lookup kv m x)"
proof (cases "eqk x k")
  case True
  then have "\<exists>k. (k, v) \<in># pm_pairs kv m' \<and> eqk x k" unfolding pairs(1) by auto
  with lookup_iff [OF inv(2) x] True show ?thesis by simp
next
  case False
  have "pm_lookup kv m' x = Some w \<longleftrightarrow> pm_lookup kv m x = Some w" for w
  proof -
    have "(k', w) \<in># P" if "(k', w) \<in># pm_pairs kv m" "eqk x k'" for k'
    proof -
      have k': "k' \<noteq> nk" using pair_key [OF inv(1) that(1)] .
      have "\<not> eqk k k'" using False eq_trans [OF x k' k that(2)] eq_sym [OF k k'] by blast
      with rest(1) that(1) show ?thesis by auto
    qed
    moreover have "(k', w) \<in># pm_pairs kv m" if "(k', w) \<in># P" for k'
      using that pairs(2) by (rule mset_subset_eqD [rotated])
    ultimately show ?thesis
      using False unfolding lookup_iff [OF inv(1) x] lookup_iff [OF inv(2) x] pairs(1) by auto
  qed
  then have "pm_lookup kv m' x = pm_lookup kv m x" by (metis option.exhaust)
  with False show ?thesis by simp
qed

lemma lookup_insert:
  assumes inv: "pointermap_inv kv m" "pointermap_inv kv m'" and k: "k \<noteq> nk" and x: "x \<noteq> nk"
    and absent: "\<not> present (keyset m) k" and pairs: "pm_pairs kv m' = add_mset (k, v) (pm_pairs kv m)"
  shows "pm_lookup kv m' x = (if eqk x k then Some v else pm_lookup kv m x)"
proof (rule lookup_add [OF inv k pairs _ _ _ x])
  have len: "length (pm_values m) = length (pm_keys m)" using inv by (simp add: pointermap_inv_def)
  show "\<forall>p \<in># pm_pairs kv m. \<not> eqk k (fst p)"
    using absent unfolding keyset_simps pair_slots_keys [OF len, symmetric] by auto
qed auto

lemma lookup_replace:
  assumes inv: "pointermap_inv kv m" "pointermap_inv kv m'" and k: "k \<noteq> nk" and x: "x \<noteq> nk"
    and q: "(q, w) \<in># pm_pairs kv m" "eqk k q"
    and pairs: "pm_pairs kv m' = add_mset (k, v) (pm_pairs kv m - {#(q, w)#})"
  shows "pm_lookup kv m' x = (if eqk x k then Some v else pm_lookup kv m x)"
proof (rule lookup_add [OF inv k pairs _ _ _ x])
  show "\<forall>p \<in># pm_pairs kv m. \<not> eqk k (fst p) \<longrightarrow> p \<in># pm_pairs kv m - {#(q, w)#}"
    using q(2) by (auto simp: in_diff_count)
  show "\<forall>p \<in># pm_pairs kv m - {#(q, w)#}. \<not> eqk k (fst p)"
  proof
    fix p assume p: "p \<in># pm_pairs kv m - {#(q, w)#}"
    obtain k' v' where p': "p = (k', v')" by (cases p)
    have "(k', v') \<in># pm_pairs kv m" using in_diffD [OF p] p' by simp
    then have k': "k' \<noteq> nk" and qn: "q \<noteq> nk" using pair_key [OF inv(1)] q(1) by blast+
    have "\<not> eqk q k'" using other_pairs [OF inv(1) q(1)] p p' by simp
    then show "\<not> eqk k (fst p)" using p' eq_sym [OF k qn q(2)] eq_trans [OF qn k k'] by auto
  qed
qed simp

lemma lookup_delete:
  assumes inv: "pointermap_inv kv m" "pointermap_inv kv m'" and x: "x \<noteq> nk"
    and q: "(q, v) \<in># pm_pairs kv m" and pairs: "pm_pairs kv m' = pm_pairs kv m - {#(q, v)#}"
  shows "pm_lookup kv m' x = (if eqk x q then None else pm_lookup kv m x)"
proof -
  have qn: "q \<noteq> nk" using q by (rule pair_key [OF inv(1)])
  have "(k', w) \<in># pm_pairs kv m' \<and> eqk x k' \<longleftrightarrow> (k', w) \<in># pm_pairs kv m \<and> eqk x k' \<and> \<not> eqk x q" for k' w
  proof
    assume l: "(k', w) \<in># pm_pairs kv m' \<and> eqk x k'"
    then have "\<not> eqk q k'" "(k', w) \<in># pm_pairs kv m"
      using other_pairs [OF inv(1) q, of k' w] unfolding pairs by (auto dest: in_diffD)
    moreover from this(2) have "k' \<noteq> nk" by (rule pair_key [OF inv(1)])
    ultimately show "(k', w) \<in># pm_pairs kv m \<and> eqk x k' \<and> \<not> eqk x q"
      using l eq_sym [OF x qn] eq_trans [OF qn x] by blast
  next
    assume r: "(k', w) \<in># pm_pairs kv m \<and> eqk x k' \<and> \<not> eqk x q"
    then have "k' \<noteq> q" by auto
    with r show "(k', w) \<in># pm_pairs kv m' \<and> eqk x k'" unfolding pairs by (simp add: in_diff_count)
  qed
  then have "pm_lookup kv m' x = Some w \<longleftrightarrow> pm_lookup kv m x = Some w \<and> \<not> eqk x q" for w
    unfolding lookup_iff [OF inv(1) x] lookup_iff [OF inv(2) x] by blast
  then show ?thesis by (metis option.exhaust)
qed

end

end
