(* ===== verification/Pointermap_Write.thy ===== *)
theory Pointermap_Write
  imports Pointermap_Keys
begin

text \<open>
  What the operations of the hash map do, in terms of its pairs and of the function it stands for:
  writing in its three modes, lookups and removal.
\<close>

section \<open>Writing\<close>

context map_callbacks
begin

abbreviation new_key :: "mulle_pointerpair \<Rightarrow> pointer" where
  "new_key pair \<equiv> kc_retain (kv_key kv) (pp_key pair)"

abbreviation new_value :: "mulle_pointerpair \<Rightarrow> pointer" where
  "new_value pair \<equiv> vc_retain (kv_value kv) (pp_value pair)"

text \<open>A map after a pair with a new key was stored.\<close>

definition pair_added :: "mulle__pointermap \<Rightarrow> mulle_pointerpair \<Rightarrow> mulle__pointermap \<Rightarrow> bool" where
  "pair_added m pair m' \<longleftrightarrow> pointermap_inv kv m' \<and>
     pm_pairs kv m' = add_mset (new_key pair, new_value pair) (pm_pairs kv m) \<and>
     pm_events m' = pm_events m @ [Key_Retain (new_key pair), Value_Retain (new_value pair)] \<and>
     unat (pm_size m') \<le> max (unat (pm_size m)) (4 * (size (pm_pairs kv m) + 1))"

lemma inv_len: "pointermap_inv kv m \<Longrightarrow> length (pm_values m) = length (pm_keys m)"
  by (simp add: pointermap_inv_def)

lemma inv_keys: "pointermap_inv kv m \<Longrightarrow> pointerset_inv (kv_key kv) (keyset m)"
  by (simp add: pointermap_inv_def)

lemma size_pairs: "pointermap_inv kv m \<Longrightarrow> size (pm_pairs kv m) = size (used_slots nk (pm_keys m))"
  by (simp add: inv_len size_pair_slots)

lemma append_map:
  assumes inv: "pointermap_inv kv m" and lim: "unat (pm_size m) \<le> 2 ^ 58" and p: "pp_key pair \<noteq> nk"
    and absent: "\<not> present (keyset m) (pp_key pair)"
  shows "\<exists>m'. pointermap_append junk m pair (kc_hash (kv_key kv) (pp_key pair)) kv = Some (m', 0) \<and>
    pair_added m pair m'"
proof -
  let ?h = "kc_hash (kv_key kv) (pp_key pair)" and ?k = "new_key pair" and ?v = "new_value pair"
  note len = inv_len [OF inv]
  have "unat (ps_size (keyset m)) \<le> 2 ^ 59" using lim by simp
  from append_spec [OF inv_keys [OF inv] this p absent] obtain s' where
    app: "pointerset_append (keyset m) (pp_key pair) ?h (kv_key kv) = Some (s', nk)"
    and added: "added (keyset m) (pp_key pair) s'" by blast
  from app obtain s1 st where s1: "(if u_mulle__pointerset_is_full (keyset m)
      then grow_generic (keyset m) (kv_key kv) else Some (keyset m)) = Some s1"
    and st: "store_pointer_generic (ps_storage s1) (ps_size s1)
      (mulle__pointerset_hash_for_size ?h (ps_size s1)) ?k nk = Some st"
    and s': "ps_storage s' = st" "ps_count s' = ps_count s1 + 1" "ps_size s' = ps_size s1"
    by (auto simp: pointerset_append_def bind_eq_Some_conv Let_def)
  obtain m1 where m1: "(if u_mulle__pointermap_is_full m then pointermap_grow junk m (kv_key kv)
      else Some m) = Some m1" "keys_agree m1 s1" "length (pm_values m1) = length (pm_keys m1)"
    "pm_events m1 = pm_events m" "pm_pairs kv m1 = pm_pairs kv m"
  proof (cases "u_mulle__pointermap_is_full m")
    case True
    with s1 have "grow_generic (keyset m) (kv_key kv) = Some s1" by (simp add: full_map)
    from grow_map [OF this lim len, of junk] that True show thesis by auto
  next
    case False
    with s1 have "s1 = keyset m" by (simp add: full_map)
    with that [of m] False len show thesis by simp
  qed
  have k: "?k \<noteq> nk" using retain_key(1) [OF p] .
  obtain j where j: "j < length (pm_keys m1)" "pm_keys m1 ! j = nk" "st = (pm_keys m1)[j := ?k]"
    "store_key_value_generic (pm_keys m1) (pm_values m1) (pm_size m1)
      (mulle__pointermap_hash_for_size ?h (pm_size m1)) ?k ?v nk = Some (st, (pm_values m1)[j := ?v])"
    using store_map [OF st] m1(2,3) by (auto simp: keys_agree_def hash_for_size_map)
  let ?m' = "m1\<lparr>pm_keys := st, pm_values := (pm_values m1)[j := ?v], pm_count := pm_count m1 + 1,
     pm_n_mutations := pm_n_mutations m1 + 1,
     pm_events := pm_events m1 @ [Key_Retain ?k, Value_Retain ?v]\<rparr>"
  have "pointermap_append junk m pair ?h kv = Some (?m', 0)"
    using m1(1) j(4) by (simp add: pointermap_append_def Let_def)
  moreover have agree: "keys_agree ?m' s'" using m1(2) s' by (simp add: keys_agree_def)
  then have "pointermap_inv kv ?m'"
    using keys_agree_inv [OF agree] added j(3) m1(3) by (simp add: added_def)
  moreover have "pm_pairs kv ?m' = add_mset (?k, ?v) (pm_pairs kv m)"
    using pair_slots_store [OF j(1,2) m1(3) k, of ?v] m1(5) j(3) by simp
  moreover have "pm_size ?m' = ps_size s'" using agree by (simp add: keys_agree_def)
  ultimately show ?thesis using added m1(4) size_pairs [OF inv]
    by (intro exI [of _ ?m'] conjI) (simp_all add: pair_added_def added_def)
qed

lemma fill_map:
  assumes inv: "pointermap_inv kv m" and fill: "pointerset_fill (keyset m) (pp_key pair) i (kv_key kv) = Some (s', nk)"
    and added: "added (keyset m) (pp_key pair) s'" and i: "pm_keys m ! unat i = nk" and p: "pp_key pair \<noteq> nk"
  shows "\<exists>m'. pointermap_fill m pair i kv = Some (m', 0) \<and> pair_added m pair m'"
proof -
  let ?k = "new_key pair" and ?v = "new_value pair"
  note len = inv_len [OF inv]
  from fill have less: "unat i < length (pm_keys m)" and s': "ps_storage s' = (pm_keys m)[unat i := ?k]"
    "ps_count s' = pm_count m + 1" "ps_size s' = pm_size m"
    by (auto simp: pointerset_fill_def bind_eq_Some_conv Let_def set_slot_def split: if_splits)
  let ?m' = "m\<lparr>pm_keys := (pm_keys m)[unat i := ?k], pm_values := (pm_values m)[unat i := ?v],
     pm_count := pm_count m + 1, pm_n_mutations := pm_n_mutations m + 1,
     pm_events := pm_events m @ [Key_Retain ?k, Value_Retain ?v]\<rparr>"
  have "pointermap_fill m pair i kv = Some (?m', 0)"
    using less len by (simp add: pointermap_fill_def Let_def set_slot_Some)
  moreover have "keys_agree ?m' s'" using s' by (simp add: keys_agree_def)
  then have "pointermap_inv kv ?m'"
    using keys_agree_inv added len by (simp add: added_def)
  moreover have "pm_pairs kv ?m' = add_mset (?k, ?v) (pm_pairs kv m)"
    using pair_slots_store [OF less i len retain_key(1) [OF p], of ?v] by simp
  ultimately show ?thesis
    by (intro exI [of _ ?m'] conjI) (simp_all add: pair_added_def)
qed

text \<open>A map after the pair \<open>(q, old)\<close> was replaced.\<close>

definition pair_replaced ::
    "mulle__pointermap \<Rightarrow> mulle_pointerpair \<Rightarrow> pointer \<Rightarrow> pointer \<Rightarrow> mulle__pointermap \<Rightarrow> bool" where
  "pair_replaced m pair q old m' \<longleftrightarrow> pointermap_inv kv m' \<and>
     pm_pairs kv m' = add_mset (new_key pair, new_value pair) (pm_pairs kv m - {#(q, old)#}) \<and>
     pm_events m' = pm_events m @ [Key_Retain (new_key pair), Value_Retain (new_value pair),
       Key_Release q, Value_Release old] \<and>
     pm_size m' = pm_size m"

text \<open>What writing does where \<open>(q, old)\<close> is the pair with an equal key.\<close>

definition outcome ::
    "mulle__pointermap \<Rightarrow> mulle_pointerpair \<Rightarrow> mulle_container_write_mode \<Rightarrow> pointer \<Rightarrow> pointer \<Rightarrow>
     mulle__pointermap \<Rightarrow> pointer \<Rightarrow> bool" where
  "outcome m pair mode q old m' r \<longleftrightarrow>
     (if mode = mulle_container_insert_e then m' = m \<and> r = old
      else if pp_key pair = q \<and> pp_value pair = old then m' = m \<and> r = 0
      else pair_replaced m pair q old m' \<and> r = (if mode = mulle_container_update_e then old else 0))"

lemma replace_map:
  assumes inv: "pointermap_inv kv m" and p: "pp_key pair \<noteq> nk"
    and i: "unat i < length (pm_keys m)" "pm_keys m ! unat i \<noteq> nk" "eqk (pp_key pair) (pm_keys m ! unat i)"
  shows "\<exists>m' r. pointermap_replace m pair i mode kv = Some (m', r) \<and>
    outcome m pair mode (pm_keys m ! unat i) (pm_values m ! unat i) m' r"
proof -
  let ?k = "new_key pair" and ?v = "new_value pair"
  let ?ks = "pm_keys m" and ?vs = "pm_values m"
  note len = inv_len [OF inv]
  let ?m' = "m\<lparr>pm_keys := ?ks[unat i := ?k], pm_values := ?vs[unat i := ?v],
     pm_n_mutations := pm_n_mutations m + 1,
     pm_events := pm_events m @ [Key_Retain ?k, Value_Retain ?v, Key_Release (?ks ! unat i),
       Value_Release (?vs ! unat i)]\<rparr>"
  have eq: "pointermap_replace m pair i mode kv =
    Some (if mode = mulle_container_insert_e then (m, ?vs ! unat i)
      else if ?vs ! unat i = pp_value pair \<and> ?ks ! unat i = pp_key pair then (m, 0)
      else (?m', if mode = mulle_container_update_e then ?vs ! unat i else 0))"
    using i(1) len by (simp add: pointermap_replace_def slot_Some set_slot_Some Let_def)
  have x: "?k \<noteq> nk" "eqk ?k (?ks ! unat i)"
    using retain_key(1) [OF p] retain_eq_iff [OF p i(2)] i(3) by auto
  have sinv: "pointerset_inv (kv_key kv) (keyset m)" using inv_keys [OF inv] .
  have nz: "pm_size m \<noteq> 0" using i(1) sinv by (auto simp: pointerset_inv_def)
  then have "table ?ks" using sinv by (simp add: pointerset_inv_def)
  then have tab: "table (?ks[unat i := ?k])" using replace_equal i(1,2) x by blast
  have keys: "used_slots nk (?ks[unat i := ?k]) = add_mset ?k (used_slots nk ?ks - {#?ks ! unat i#})"
    using used_slots_replace [OF i(1,2) x(1)] .
  then have "size (used_slots nk (?ks[unat i := ?k])) = size (used_slots nk ?ks)"
    using nth_in_used_slots [OF i(1,2)] by (simp add: size_Suc_Diff1)
  then have "pointermap_inv kv ?m'"
    using sinv tab len by (auto simp: pointermap_inv_def pointerset_inv_def)
  moreover have "pm_pairs kv ?m' = add_mset (?k, ?v) (pm_pairs kv m - {#(?ks ! unat i, ?vs ! unat i)#})"
    using pair_slots_update [OF i(1) len, of nk ?k ?v] i(2) x(1) by simp
  ultimately have "pair_replaced m pair (?ks ! unat i) (?vs ! unat i) ?m'"
    by (simp add: pair_replaced_def)
  then show ?thesis unfolding eq outcome_def by auto
qed

end

context map_callbacks
begin

text \<open>What writing does, for each mode, and its effect on the function.\<close>

definition written ::
    "mulle__pointermap \<Rightarrow> mulle_pointerpair \<Rightarrow> mulle_container_write_mode \<Rightarrow> mulle__pointermap \<Rightarrow> pointer \<Rightarrow> bool" where
  "written m pair mode m' r \<longleftrightarrow>
     (if present (keyset m) (pp_key pair)
      then \<exists>q old. (q, old) \<in># pm_pairs kv m \<and> eqk (pp_key pair) q \<and>
        outcome m pair mode q old m' r
      else pair_added m pair m' \<and> r = 0)"

lemma map_hole:
  assumes inv: "pointermap_inv kv m" and lim: "unat (pm_size m) \<le> 2 ^ 58" and p: "pp_key pair \<noteq> nk"
    and nz: "pm_count m \<noteq> 0"
  obtains (found) i where
      "pointermap_find_index (pm_keys m) (pm_size m) (pp_key pair) (kc_hash (kv_key kv) (pp_key pair))
        (kv_key kv) = Some (Inr i)"
      "unat i < length (pm_keys m)" "pm_keys m ! unat i \<noteq> nk" "eqk (pp_key pair) (pm_keys m ! unat i)"
      "present (keyset m) (pp_key pair)"
  | (hole) i where
      "pointermap_find_index (pm_keys m) (pm_size m) (pp_key pair) (kc_hash (kv_key kv) (pp_key pair))
        (kv_key kv) = Some (Inl i)"
      "\<not> present (keyset m) (pp_key pair)"
      "\<not> u_mulle__pointermap_is_full m \<Longrightarrow> \<exists>m'. pointermap_fill m pair i kv = Some (m', 0) \<and> pair_added m pair m'"
proof -
  have sinv: "pointerset_inv (kv_key kv) (keyset m)" using inv_keys [OF inv] .
  have cnt: "ps_count (keyset m) \<noteq> 0" using nz by simp
  from sinv cnt p show thesis
  proof (cases rule: present_found)
    case (found i)
    with that(1) find_index_map [OF found(1)] show thesis by simp
  next
    case (hole i d)
    have sz: "ps_size (keyset m) \<noteq> 0" using hole(3) sinv by (auto simp: pointerset_inv_def)
    have "\<exists>m'. pointermap_fill m pair i kv = Some (m', 0) \<and> pair_added m pair m'"
      if "\<not> u_mulle__pointermap_is_full m"
    proof -
      have full: "\<not> u_mulle__pointerset_is_full (keyset m)" using that by (simp add: full_map)
      from fill_spec [OF sinv sz p hole(6) full hole(2-5)] obtain s' where
        s': "pointerset_fill (keyset m) (pp_key pair) i (kv_key kv) = Some (s', nk)"
          "added (keyset m) (pp_key pair) s'" by blast
      show ?thesis using fill_map [OF inv s' _ p] hole(4) by simp
    qed
    with that(2) find_index_map [OF hole(1)] hole(6) show thesis by simp
  qed
qed

lemma write_written:
  assumes inv: "pointermap_inv kv m" and lim: "unat (pm_size m) \<le> 2 ^ 58" and p: "pp_key pair \<noteq> nk"
  shows "\<exists>m' r. u_mulle__pointermap_write_pair_generic junk m pair mode kv = Some (m', r) \<and>
    written m pair mode m' r"
proof (cases "pm_count m = 0")
  case True
  then have "\<not> present (keyset m) (pp_key pair)" using inv_keys [OF inv] by (simp add: pointerset_inv_def)
  with append_map [OF inv lim p this, of junk] True show ?thesis
    by (auto simp: u_mulle__pointermap_write_pair_generic_def written_def Let_def)
next
  case False
  from inv lim p False show ?thesis
  proof (cases rule: map_hole)
    case (found i)
    have "u_mulle__pointermap_write_pair_generic junk m pair mode kv = pointermap_replace m pair i mode kv"
      using False found(1) by (simp add: u_mulle__pointermap_write_pair_generic_def Let_def)
    moreover have "(pm_keys m ! unat i, pm_values m ! unat i) \<in># pm_pairs kv m"
      using nth_pair [OF inv_len [OF inv] found(2,3)] .
    moreover obtain m' r where "pointermap_replace m pair i mode kv = Some (m', r)"
      "outcome m pair mode (pm_keys m ! unat i) (pm_values m ! unat i) m' r"
      using replace_map [OF inv p found(2-4), of mode] by blast
    ultimately show ?thesis
      using found(4,5) unfolding written_def by (intro exI [of _ m'] exI [of _ r]) auto
  next
    case (hole i)
    with False append_map [OF inv lim p hole(2), of junk] show ?thesis
      by (cases "u_mulle__pointermap_is_full m")
        (auto simp: u_mulle__pointermap_write_pair_generic_def written_def Let_def)
  qed
qed

lemma written_inv:
  assumes "pointermap_inv kv m" "written m pair mode m' r"
  shows "pointermap_inv kv m'"
    and "unat (pm_size m') \<le> max (unat (pm_size m)) (4 * (size (pm_pairs kv m) + 1))"
    and "size (pm_pairs kv m') \<le> Suc (size (pm_pairs kv m))"
  using assms unfolding written_def outcome_def pair_added_def pair_replaced_def
  by (auto simp: size_Suc_Diff1 split: if_splits)

text \<open>The value that a written key has then.\<close>

definition value_after ::
    "mulle__pointermap \<Rightarrow> mulle_pointerpair \<Rightarrow> mulle_container_write_mode \<Rightarrow> pointer" where
  "value_after m pair mode = (case pm_lookup kv m (pp_key pair) of
     None \<Rightarrow> new_value pair
   | Some old \<Rightarrow>
       if mode = mulle_container_insert_e \<or> (pp_key pair, pp_value pair) \<in># pm_pairs kv m then old
       else new_value pair)"

lemma new_key_eq:
  assumes "pp_key pair \<noteq> nk" "x \<noteq> nk"
  shows "eqk x (new_key pair) \<longleftrightarrow> eqk x (pp_key pair)"
  using retain_eq_iff [OF assms] eq_sym [of x] eq_sym [of _ x] retain_key(1) [OF assms(1)] assms by blast

lemma written_lookup:
  assumes inv: "pointermap_inv kv m" and w: "written m pair mode m' r" and p: "pp_key pair \<noteq> nk"
    and x: "x \<noteq> nk"
  shows "pm_lookup kv m' x =
    (if eqk x (pp_key pair) then Some (value_after m pair mode) else pm_lookup kv m x)"
proof (cases "present (keyset m) (pp_key pair)")
  case False
  with w have added: "pair_added m pair m'" by (simp add: written_def)
  have "\<not> present (keyset m) (new_key pair)"
    using absent_slots [OF False p] by (auto simp: in_used_slots)
  from lookup_insert [OF inv _ retain_key(1) [OF p] x this] added
  have "pm_lookup kv m' x = (if eqk x (new_key pair) then Some (new_value pair) else pm_lookup kv m x)"
    by (simp add: pair_added_def)
  moreover have "pm_lookup kv m (pp_key pair) = None" using lookup_None_iff [OF inv p] False by blast
  ultimately show ?thesis by (simp add: value_after_def new_key_eq [OF p x])
next
  case True
  with w obtain q old where q: "(q, old) \<in># pm_pairs kv m" "eqk (pp_key pair) q"
    and cases: "outcome m pair mode q old m' r"
    by (auto simp: written_def)
  have qn: "q \<noteq> nk" using q(1) by (rule pair_key [OF inv])
  have old: "pm_lookup kv m (pp_key pair) = Some old" using lookup_iff [OF inv p] q by blast
  have self: "pm_lookup kv m x = Some old" if "eqk x (pp_key pair)"
    using lookup_iff [OF inv x] q eq_trans [OF x p qn that] by blast
  have mem: "(pp_key pair, pp_value pair) \<in># pm_pairs kv m \<longleftrightarrow> pp_key pair = q \<and> pp_value pair = old"
    using same_pair [OF inv _ q(1), of "pp_key pair" "pp_value pair"] q by auto
  show ?thesis
  proof (cases "m' = m \<and> (mode = mulle_container_insert_e \<or> (pp_key pair, pp_value pair) \<in># pm_pairs kv m)")
    case True
    then show ?thesis using old self by (simp add: value_after_def)
  next
    case neg: False
    have no: "mode \<noteq> mulle_container_insert_e" "\<not> (pp_key pair = q \<and> pp_value pair = old)"
      using neg cases mem unfolding outcome_def by argo+
    then have rep: "pair_replaced m pair q old m'" using cases unfolding outcome_def by argo
    have "(pp_key pair, pp_value pair) \<notin># pm_pairs kv m" using mem no(2) by blast
    with old no(1) have v: "value_after m pair mode = new_value pair" by (simp add: value_after_def)
    have "eqk (new_key pair) q" using retain_eq_iff [OF p qn] q(2) by simp
    from lookup_replace [OF inv _ retain_key(1) [OF p] x q(1) this] rep
    have "pm_lookup kv m' x = (if eqk x (new_key pair) then Some (new_value pair) else pm_lookup kv m x)"
      by (simp add: pair_replaced_def)
    then show ?thesis using v by (simp add: new_key_eq [OF p x])
  qed
qed

end

section \<open>Lookups\<close>

context map_callbacks
begin

lemma get_loop_lookup:
  assumes inv: "pointermap_inv kv m" and nz: "pm_count m \<noteq> 0" and p: "p \<noteq> nk"
  shows "\<exists>r. pointermap_get_loop (pm_keys m) (pm_values m) (pm_size m) p
      (mulle__pointermap_hash_for_size (kc_hash (kv_key kv) p) (pm_size m)) (kv_key kv) = Some r \<and>
    map_option pp_value r = pm_lookup kv m p \<and>
    (\<forall>pair. r = Some pair \<longrightarrow> (pp_key pair, pp_value pair) \<in># pm_pairs kv m \<and> eqk p (pp_key pair))"
proof -
  have sinv: "pointerset_inv (kv_key kv) (keyset m)" using inv_keys [OF inv] .
  have "size (used_slots nk (pm_keys m)) \<noteq> 0"
    using sinv nz by (auto simp: pointerset_inv_def unat_eq_0 [symmetric] simp del: unat_eq_0)
  then have sz: "ps_size (keyset m) \<noteq> 0"
    using sinv by (auto simp: pointerset_inv_def)
  obtain k where k: "unat (ps_size (keyset m)) = 2 ^ k" "length (ps_storage (keyset m)) = 2 ^ k"
    "table (ps_storage (keyset m))" "size (ps_keys (kv_key kv) (keyset m)) < length (ps_storage (keyset m))"
    using inv_table [OF sinv sz] by metis
  from get_loop_spec [OF k p] obtain q where q: "pointerset_get_loop (pm_keys m) (pm_size m) p
      (mulle__pointermap_hash_for_size (kc_hash (kv_key kv) p) (pm_size m)) (kv_key kv) = Some q"
    "if present (keyset m) p then q \<in># used_slots nk (pm_keys m) \<and> eqk p q else q = nk"
    unfolding hash_for_size_map keyset_simps by blast
  from get_loop_map [OF q(1)] inv_len [OF inv] obtain j where j: "j < length (pm_keys m)" "q = pm_keys m ! j"
    "pointermap_get_loop (pm_keys m) (pm_values m) (pm_size m) p
      (mulle__pointermap_hash_for_size (kc_hash (kv_key kv) p) (pm_size m)) (kv_key kv) =
      Some (if q = nk then None else Some \<lparr>pp_key = q, pp_value = pm_values m ! j\<rparr>)"
    by blast
  show ?thesis
  proof (cases "present (keyset m) p")
    case True
    then have qq: "q \<noteq> nk" "eqk p q" using q(2) by (auto simp: in_used_slots)
    then have mem: "(q, pm_values m ! j) \<in># pm_pairs kv m"
      using nth_pair [OF inv_len [OF inv] j(1)] j(2) by simp
    then have "pm_lookup kv m p = Some (pm_values m ! j)" using lookup_iff [OF inv p] qq by blast
    with j(3) qq mem show ?thesis by simp
  next
    case False
    then have "q = nk" using q(2) by presburger
    moreover have "pm_lookup kv m p = None" using lookup_None_iff [OF inv p] False by blast
    ultimately show ?thesis using j(3) by simp
  qed
qed

lemma empty_lookup:
  assumes inv: "pointermap_inv kv m" and z: "pm_count m = 0" and p: "p \<noteq> nk"
  shows "pm_lookup kv m p = None"
proof -
  have "\<not> present (keyset m) p" using inv_keys [OF inv] z by (simp add: pointerset_inv_def)
  with lookup_None_iff [OF inv p] show ?thesis by blast
qed

lemma get_knownhash_spec:
  assumes inv: "pointermap_inv kv m" and p: "p \<noteq> nk"
  shows "u_mulle__pointermap__get_generic_knownhash m p (kc_hash (kv_key kv) p) kv =
    Some (case pm_lookup kv m p of None \<Rightarrow> 0 | Some v \<Rightarrow> v)"
proof (cases "pm_count m = 0")
  case True
  with empty_lookup [OF inv True p] show ?thesis
    by (simp add: u_mulle__pointermap__get_generic_knownhash_def)
next
  case False
  from get_loop_lookup [OF inv this p] obtain r where r: "pointermap_get_loop (pm_keys m) (pm_values m)
      (pm_size m) p (mulle__pointermap_hash_for_size (kc_hash (kv_key kv) p) (pm_size m)) (kv_key kv) = Some r"
    "map_option pp_value r = pm_lookup kv m p" by blast
  show ?thesis unfolding r(2) [symmetric] using False r(1)
    by (simp add: u_mulle__pointermap__get_generic_knownhash_def split: option.split)
qed

lemma equality_search:
  assumes inv: "pointermap_inv kv m" and p: "p \<noteq> nk" and nz: "u_mulle__pointermap_pointerequalitysearch m p \<noteq> 0"
  shows "pm_lookup kv m p = Some (u_mulle__pointermap_pointerequalitysearch m p)"
proof -
  let ?z = "zip (pm_keys m) (pm_values m)"
  obtain q v where f: "find (\<lambda>(q, _). p = q) ?z = Some (q, v)"
    using nz by (cases "find (\<lambda>(q, _). p = q) ?z") (auto simp: u_mulle__pointermap_pointerequalitysearch_def)
  then obtain i where "i < length ?z" "?z ! i = (p, v)" "q = p"
    by (auto simp: find_Some_iff)
  then have "(p, v) \<in># pm_pairs kv m"
    using p inv_len [OF inv] by (auto simp: in_pair_slots)
  then have "pm_lookup kv m p = Some v" using lookup_iff [OF inv p] eq_refl [OF p] by blast
  with f show ?thesis by (simp add: u_mulle__pointermap_pointerequalitysearch_def)
qed

lemma map_get_spec:
  assumes inv: "pointermap_inv kv m" and p: "p \<noteq> nk"
  shows "u_mulle__pointermap_get_generic m p kv =
    Some (case pm_lookup kv m p of None \<Rightarrow> 0 | Some v \<Rightarrow> v)"
    (is "_ = ?v")
proof (cases "pm_size m \<le> 32 \<and> u_mulle__pointermap_pointerequalitysearch m p \<noteq> 0")
  case True
  with equality_search [OF inv p] p show ?thesis
    by (simp add: u_mulle__pointermap_get_generic_def)
next
  case False
  then have "u_mulle__pointermap_get_generic m p kv = u_mulle__pointermap__get_generic m p kv"
    using p by (auto simp: u_mulle__pointermap_get_generic_def Let_def)
  with get_knownhash_spec [OF inv p] show ?thesis by (simp add: u_mulle__pointermap__get_generic_def)
qed

lemma map_get_pair_spec:
  assumes inv: "pointermap_inv kv m" and p: "p \<noteq> nk"
  shows "\<exists>r. u_mulle__pointermap_get_pair_generic m p kv = Some r \<and>
    map_option pp_value r = pm_lookup kv m p \<and>
    (\<forall>pair. r = Some pair \<longrightarrow> (pp_key pair, pp_value pair) \<in># pm_pairs kv m \<and> eqk p (pp_key pair))"
proof (cases "pm_count m = 0")
  case True
  with empty_lookup [OF inv True p] p show ?thesis
    by (simp add: u_mulle__pointermap_get_pair_generic_def u_mulle__pointermap__get_pair_generic_def
        u_mulle__pointermap__get_pair_generic_knownhash_def)
next
  case False
  with get_loop_lookup [OF inv False p] p show ?thesis
    by (simp add: u_mulle__pointermap_get_pair_generic_def u_mulle__pointermap__get_pair_generic_def
        u_mulle__pointermap__get_pair_generic_knownhash_def)
qed

section \<open>Removal\<close>

lemma map_remove_spec:
  assumes inv: "pointermap_inv kv m" and p: "p \<noteq> nk"
  shows "if present (keyset m) p
    then \<exists>m' q v. u_mulle__pointermap_remove_generic m p kv = Some (m', True) \<and> pointermap_inv kv m' \<and>
      (q, v) \<in># pm_pairs kv m \<and> eqk p q \<and> pm_pairs kv m' = pm_pairs kv m - {#(q, v)#} \<and>
      pm_size m' = pm_size m \<and> pm_events m' = pm_events m @ [Key_Release q, Value_Release v]
    else u_mulle__pointermap_remove_generic m p kv = Some (m, False)"
proof (cases "pm_count m = 0")
  case True
  then show ?thesis
    using inv_keys [OF inv] by (simp add: pointerset_inv_def u_mulle__pointermap_remove_generic_def)
next
  case False
  have sinv: "pointerset_inv (kv_key kv) (keyset m)" using inv_keys [OF inv] .
  have cnt: "ps_count (keyset m) \<noteq> 0" using False by simp
  from sinv cnt p show ?thesis
  proof (cases rule: present_found)
    case (hole i d)
    with find_index_map [OF hole(1)] False show ?thesis
      by (simp add: u_mulle__pointermap_remove_generic_def Let_def)
  next
    case (found i)
    note len = inv_len [OF inv]
    from table_remove [OF sinv p] found(6) obtain s' q where rem: "pointerset_inv (kv_key kv) s'"
      "u_mulle__pointerset_remove_generic (keyset m) p (kv_key kv) = Some (s', True)" by (auto split: if_splits)
    then obtain t' where t': "pointerset_remove_loop (pm_keys m) (pm_size m) i i (kv_key kv) = Some t'"
      "ps_storage s' = t'" "ps_count s' = pm_count m - 1" "ps_size s' = pm_size m"
      using False found(1,2)
      by (auto simp: u_mulle__pointerset_remove_generic_def bind_eq_Some_conv slot_Some)
    let ?q = "pm_keys m ! unat i" and ?v = "pm_values m ! unat i"
    have i: "unat i < length (pm_keys m)" "?q \<noteq> nk" "eqk p ?q" using found by simp_all
    obtain vs' where vs': "pointermap_remove_loop (pm_keys m) (pm_values m) (pm_size m) i i (kv_key kv) =
        Some (t', vs')" "length vs' = length (pm_values m)"
      "pair_slots nk t' vs' = pm_pairs kv m - {#(?q, ?v)#}"
      using remove_map [OF t'(1)] len i by blast
    let ?m' = "m\<lparr>pm_keys := t', pm_values := vs', pm_count := pm_count m - 1,
       pm_n_mutations := pm_n_mutations m + 1,
       pm_events := pm_events m @ [Key_Release ?q, Value_Release ?v]\<rparr>"
    have "length t' = length (pm_keys m)"
      using rem(1) sinv t'(2,4) by (simp add: pointerset_inv_def)
    then have l': "length vs' = length t'" using vs'(2) len by simp
    have "u_mulle__pointermap_remove_generic m p kv = Some (?m', True)"
      using False find_index_map [OF found(1)] i len vs'(1)
      by (simp add: u_mulle__pointermap_remove_generic_def slot_Some Let_def)
    moreover have "keys_agree ?m' s'" using t' by (simp add: keys_agree_def)
    then have "pointermap_inv kv ?m'" by (rule keys_agree_inv [OF _ rem(1)]) (simp add: l')
    moreover have "(?q, ?v) \<in># pm_pairs kv m" using nth_pair [OF len i(1,2)] .
    ultimately show ?thesis using found(6) i(3) vs'(3)
      by (intro if_P [THEN iffD2, rotated] exI [of _ ?m'] exI [of _ ?q] exI [of _ ?v]) simp_all
  qed
qed

end

end
