(* ===== verification/Pointermap_Copy.thy ===== *)
theory Pointermap_Copy
  imports Pointermap_Write
begin

text \<open>
  Shrinking, enumeration, initialisation and copying of the hash map, and the ledger of its retain and
  release calls.
\<close>

section \<open>Shrinking\<close>

context map_callbacks
begin

lemma lookup_pairs:
  assumes "pointermap_inv kv m" "pointermap_inv kv m'" "pm_pairs kv m' = pm_pairs kv m" "x \<noteq> nk"
  shows "pm_lookup kv m' x = pm_lookup kv m x"
proof -
  have "pm_lookup kv m' x = Some v \<longleftrightarrow> pm_lookup kv m x = Some v" for v
    unfolding lookup_iff [OF assms(1,4)] lookup_iff [OF assms(2,4)] assms(3) ..
  then show ?thesis by (metis option.exhaust)
qed

lemma map_shrink_spec:
  assumes inv: "pointermap_inv kv m" and sparse: "u_mulle__pointermap_is_sparse m"
    and lim: "unat (pm_size m) \<le> 2 ^ 59"
  shows "\<exists>m'. u_mulle__pointermap_shrink_generic junk m kv = Some m' \<and> pointermap_inv kv m' \<and>
    pm_pairs kv m' = pm_pairs kv m \<and> pm_events m' = pm_events m \<and> pm_size m' \<le> pm_size m"
proof -
  note sinv = inv_keys [OF inv] and len = inv_len [OF inv]
  have "u_mulle__pointerset_is_sparse (keyset m)"
    using sparse by (simp add: u_mulle__pointermap_is_sparse_def u_mulle__pointerset_is_sparse_def
        sparse_size_map)
  moreover have "unat (ps_size (keyset m)) \<le> 2 ^ 59" using lim by simp
  ultimately obtain s' where s': "u_mulle__pointerset_shrink_generic (keyset m) (kv_key kv) = Some s'"
    "pointerset_inv (kv_key kv) s'" "ps_size s' \<le> pm_size m"
    using table_shrink [OF sinv] by auto
  let ?r = "pointerset_shrink_loop (keyset m) (pm_size m div 2)"
  let ?n = "if ?r < 4 then 4 else ?r"
  have map_eq: "u_mulle__pointermap_shrink_generic junk m kv =
      (if ?n \<ge> pm_size m then Some m else pointermap_rehash junk m ?n (kv_key kv))"
    by (simp only: u_mulle__pointermap_shrink_generic_def Let_def shrink_loop_map)
  show ?thesis
  proof (cases "?n \<ge> pm_size m")
    case True
    with map_eq inv show ?thesis by simp
  next
    case False
    then have r: "pointerset_rehash (keyset m) ?n (kv_key kv) = Some s'"
      using s'(1) by (simp only: u_mulle__pointerset_shrink_generic_def Let_def keyset_simps if_False)
    have "unat ?n < unat (pm_size m)" using False by (simp only: not_le word_less_nat_alt)
    then have "unat ?n < 2 ^ 60" by (rule less_le_trans [OF _ order_trans [OF lim]]) simp
    from rehash_map [OF r this len, of junk] obtain m' where
      m': "pointermap_rehash junk m ?n (kv_key kv) = Some m'" "keys_agree m' s'"
        "length (pm_values m') = length (pm_keys m')" "pm_events m' = pm_events m"
        "pm_pairs kv m' = pm_pairs kv m" by blast
    have "pm_size m' \<le> pm_size m" using m'(2) s'(3) by (simp add: keys_agree_def)
    with m' keys_agree_inv [OF m'(2) s'(2) m'(3)] map_eq False show ?thesis by auto
  qed
qed

end

section \<open>Enumeration\<close>

abbreviation pair_of :: "pointer \<times> pointer \<Rightarrow> mulle_pointerpair" where
  "pair_of p \<equiv> \<lparr>pp_key = fst p, pp_value = snd p\<rparr>"

lemma map_items_loop:
  assumes "unat (pe_left r) = length (filter (\<lambda>p. fst p \<noteq> nk) (pe_curr r))"
  shows "pointermap_items_loop r nk = Some (map pair_of (filter (\<lambda>p. fst p \<noteq> nk) (pe_curr r)))"
  using assms
proof (induction "unat (pe_left r)" arbitrary: r)
  case 0
  then have "pe_left r = 0" by (simp add: unat_eq_0)
  with 0 show ?case
    by (subst pointermap_items_loop.simps) (simp add: u_mulle__pointermapenumerator_next_pair_notakey_def)
next
  case (Suc n)
  let ?drop = "dropWhile (\<lambda>(key, _). key = nk) (pe_curr r)"
  have eq: "dropWhile (\<lambda>p. \<not> fst p \<noteq> nk) xs = dropWhile (\<lambda>(key, _). key = nk) xs" for xs :: "(pointer \<times> pointer) list"
    by (induction xs) auto
  have fil: "filter (\<lambda>p. fst p \<noteq> nk) xs = (case dropWhile (\<lambda>(key, _). key = nk) xs of
      [] \<Rightarrow> [] | p # ps \<Rightarrow> p # filter (\<lambda>p. fst p \<noteq> nk) ps)" for xs :: "(pointer \<times> pointer) list"
    by (induction xs) auto
  obtain p curr' where drop: "?drop = p # curr'"
    using Suc fil [of "pe_curr r"] by (cases ?drop) auto
  let ?r = "r\<lparr>pe_curr := curr', pe_left := pe_left r - 1\<rparr>"
  have nz: "pe_left r \<noteq> 0" using Suc.hyps(2) by auto
  have left: "unat (pe_left r - 1) = n" using Suc.hyps(2) by (simp add: unat64_sub)
  have "pointermap_items_loop ?r nk = Some (map pair_of (filter (\<lambda>p. fst p \<noteq> nk) curr'))"
    using Suc.hyps(1) [of ?r] left fil [of "pe_curr r"] drop Suc.prems Suc.hyps(2) by simp
  with nz drop fil [of "pe_curr r"] show ?case
    by (subst pointermap_items_loop.simps)
      (simp add: u_mulle__pointermapenumerator_next_pair_notakey_def split_beta)
qed

lemma map_items_spec:
  assumes "pointermap_inv kv m"
  shows "pointermap_items m (kc_notakey (kv_key kv)) =
    Some (map pair_of (filter (\<lambda>p. fst p \<noteq> kc_notakey (kv_key kv)) (zip (pm_keys m) (pm_values m))))"
proof -
  let ?nk = "kc_notakey (kv_key kv)"
  have "length (filter (\<lambda>p. fst p \<noteq> ?nk) (zip (pm_keys m) (pm_values m))) = size (pm_pairs kv m)"
    by (simp add: pair_slots_def flip: mset_filter)
  also have "\<dots> = unat (pm_count m)"
    using assms by (simp add: pointermap_inv_def pointerset_inv_def size_pair_slots)
  finally show ?thesis
    using map_items_loop [of "u_mulle__pointermap_enumerate m" ?nk]
    by (simp add: pointermap_items_def u_mulle__pointermap_enumerate_def)
qed

section \<open>Fresh maps\<close>

context map_callbacks
begin

lemma zero_map_inv: "pointermap_inv kv pointermap_zero"
  by (simp add: pointermap_inv_def pointermap_zero_def pointerset_inv_def)

lemma zero_map_pairs [simp]: "pm_pairs kv pointermap_zero = {#}"
  by (simp add: pointermap_zero_def pair_slots_def)

lemma initial_size:
  assumes "unat capacity \<le> 2 ^ 56"
  obtains k where "unat (pointermap_initial_size capacity) = 2 ^ k" "2 \<le> k"
    "unat (pointermap_initial_size capacity) \<le> 2 ^ 57"
proof (cases "capacity \<ge> 4")
  case False
  then have "pointermap_initial_size capacity = 4" by (simp add: pointermap_initial_size_def)
  then show thesis by (intro that [of 2]) simp_all
next
  case True
  let ?c = "capacity + drop_bit 2 capacity"
  have d: "unat (drop_bit 2 capacity) = unat capacity div 4" by (simp add: drop_bit_eq_div unat_div)
  have c: "unat ?c = unat capacity + unat capacity div 4" using assms d by (simp add: unat64_add)
  have le: "unat ?c \<le> 2 ^ 57" using c assms by simp
  have four: "4 \<le> unat ?c" using c True by (simp add: word_le_nat_alt)
  obtain k where k: "unat (mulle_pow2round ?c) = 2 ^ k" using pow2round_power [of ?c] le by auto
  have b: "unat ?c \<le> unat (mulle_pow2round ?c)" "unat (mulle_pow2round ?c) \<le> 2 ^ 57"
    using pow2round_bounds [of ?c 57] le by simp_all
  have "(2::nat) ^ 2 \<le> 2 ^ k" using four b(1) k by simp
  then have "2 \<le> k" by (rule power_le_imp_le_exp [rotated]) simp
  with k b(2) True show thesis by (intro that [of k]) (simp_all add: pointermap_initial_size_def)
qed

lemma map_init_spec:
  assumes "unat capacity \<le> 2 ^ 56"
  shows "\<exists>m. u_mulle__map_init junk capacity kv = Some m \<and> pointermap_inv kv m \<and>
    pm_pairs kv m = {#} \<and> unat (pm_size m) \<le> 2 ^ 57 \<and> pm_events m = []"
proof (cases "capacity = 0")
  case True
  then have "u_mulle__map_init junk capacity kv = Some pointermap_zero"
    by (simp add: u_mulle__map_init_def)
  moreover have "pm_size pointermap_zero = 0" "pm_events pointermap_zero = []"
    by (simp_all add: pointermap_zero_def)
  ultimately show ?thesis using zero_map_inv by simp
next
  case False
  obtain k where k: "unat (pointermap_initial_size capacity) = 2 ^ k" "2 \<le> k"
    "unat (pointermap_initial_size capacity) \<le> 2 ^ 57"
    using initial_size [OF assms] .
  let ?sz = "pointermap_initial_size capacity"
  obtain vs where vs: "mulle__pointermap_allocate_storage_generic ?sz nk (junk 0) =
      Some (replicate (2 ^ k) nk, vs)" "length vs = 2 ^ k"
    using allocate_pairs [of ?sz nk "junk 0"] k by auto
  let ?m = "pointermap_zero\<lparr>pm_size := ?sz, pm_keys := replicate (2 ^ k) nk, pm_values := vs\<rparr>"
  have "keys_agree ?m (pointerset_zero\<lparr>ps_size := ?sz, ps_storage := replicate (2 ^ k) nk\<rparr>)"
    by (simp add: keys_agree_def pointermap_zero_def pointerset_zero_def)
  then have "pointermap_inv kv ?m" by (rule keys_agree_inv [OF _ fresh_inv [OF k(1,2)]]) (simp add: vs(2))
  moreover have "pm_pairs kv ?m = {#}"
    using pair_slots_keys [of vs "replicate (2 ^ k) nk" nk] vs(2) by simp
  moreover have "u_mulle__map_init junk capacity kv = Some ?m"
    using False vs(1) by (simp add: u_mulle__map_init_def Let_def)
  moreover have "pm_events ?m = []" by (simp add: pointermap_zero_def)
  ultimately show ?thesis using k(3) by simp
qed

section \<open>Copying\<close>

lemma unequal_pairs:
  assumes "unequal ks" "length vs = length ks"
  shows "sorted_wrt (\<lambda>p q. \<not> eqk (fst q) (fst p)) (filter (\<lambda>p. fst p \<noteq> nk) (zip ks vs))"
  using assms
proof (induction ks arbitrary: vs)
  case (Cons k ks)
  then obtain v vs' where vs: "vs = v # vs'" "length vs' = length ks" by (cases vs) auto
  note un = unequal_Cons [OF Cons.prems(1)]
  have "\<not> eqk (fst q) k" if "k \<noteq> nk" "q \<in> set (filter (\<lambda>p. fst p \<noteq> nk) (zip ks vs'))" for q
  proof -
    from that have "fst q \<in># used_slots nk ks" "fst q \<noteq> nk"
      by (cases q; auto simp: used_slots_def dest: set_zip_leftD)+
    with un(2) [OF that(1)] eq_sym [of "fst q" k] that(1) show ?thesis by blast
  qed
  with Cons.IH [OF un(1) vs(2)] vs(1) show ?case by auto
qed simp

lemma present_pairs:
  assumes "pointermap_inv kv m"
  shows "present (keyset m) x \<longleftrightarrow> (\<exists>p \<in># pm_pairs kv m. eqk x (fst p))"
  unfolding keyset_simps pair_slots_keys [OF inv_len [OF assms], symmetric] by simp

text \<open>The pair a map holds for a given one, and the callbacks that it made.\<close>

abbreviation held :: "mulle_pointerpair \<Rightarrow> pointer \<times> pointer" where
  "held pair \<equiv> (new_key pair, new_value pair)"

abbreviation retains :: "mulle_pointerpair \<Rightarrow> map_event list" where
  "retains pair \<equiv> [Key_Retain (new_key pair), Value_Retain (new_value pair)]"

lemma set_pairs_spec:
  assumes "pointermap_inv kv m" "unat (pm_size m) \<le> 2 ^ 58" "size (pm_pairs kv m) + length items \<le> 2 ^ 55"
    "\<forall>item \<in> set items. pp_key item \<noteq> nk \<and> \<not> present (keyset m) (pp_key item)"
    "sorted_wrt (\<lambda>a b. \<not> eqk (pp_key b) (pp_key a)) items"
  shows "\<exists>m'. pointermap_set_pairs junk m items kv = Some m' \<and> pointermap_inv kv m' \<and>
    pm_pairs kv m' = pm_pairs kv m + mset (map held items) \<and>
    pm_events m' = pm_events m @ concat (map retains items)"
  using assms
proof (induction items arbitrary: m)
  case Nil
  then show ?case by simp
next
  case (Cons item items)
  have k: "pp_key item \<noteq> nk" "\<not> present (keyset m) (pp_key item)" using Cons.prems(4) by auto
  from write_written [OF Cons.prems(1,2) k(1), of junk mulle_container_overwrite_e]
  obtain m1 r where w: "u_mulle__pointermap_write_pair_generic junk m item mulle_container_overwrite_e kv =
      Some (m1, r)" "written m item mulle_container_overwrite_e m1 r" by blast
  then have added: "pair_added m item m1" using k(2) by (simp add: written_def)
  then have m1: "pointermap_inv kv m1" "pm_pairs kv m1 = add_mset (held item) (pm_pairs kv m)"
    "pm_events m1 = pm_events m @ retains item"
    "unat (pm_size m1) \<le> max (unat (pm_size m)) (4 * (size (pm_pairs kv m) + 1))"
    by (simp_all add: pair_added_def)
  have small: "unat (pm_size m1) \<le> 2 ^ 58" using m1(4) Cons.prems(2,3) by simp
  have room: "size (pm_pairs kv m1) + length items \<le> 2 ^ 55" using Cons.prems(3) m1(2) by simp
  have rest: "\<forall>b \<in> set items. pp_key b \<noteq> nk \<and> \<not> present (keyset m1) (pp_key b)"
  proof
    fix b assume b: "b \<in> set items"
    then have bk: "pp_key b \<noteq> nk" "\<not> present (keyset m) (pp_key b)" "\<not> eqk (pp_key b) (pp_key item)"
      using Cons.prems(4,5) by auto
    then have "\<not> eqk (pp_key b) (new_key item)" using new_key_eq [OF k(1) bk(1)] by simp
    with bk show "pp_key b \<noteq> nk \<and> \<not> present (keyset m1) (pp_key b)"
      unfolding present_pairs [OF m1(1)] present_pairs [OF Cons.prems(1)] m1(2) by simp
  qed
  have "sorted_wrt (\<lambda>a b. \<not> eqk (pp_key b) (pp_key a)) items" using Cons.prems(5) by simp
  from Cons.IH [OF m1(1) small room rest this] w(1) m1(2,3) show ?case
    by (auto simp: u_mulle__pointermap_set_pair_generic_def)
qed

lemma copy_pairs_spec:
  assumes inv: "pointermap_inv kv m" "pointermap_inv kv src" and lim: "unat (pm_size m) \<le> 2 ^ 58"
    and room: "size (pm_pairs kv src) \<le> 2 ^ 55" and fresh: "pm_pairs kv m = {#}"
  shows "\<exists>m'. u_mulle__pointermap_copy_items_generic junk m src kv = Some m' \<and> pointermap_inv kv m' \<and>
    pm_pairs kv m' = image_mset (\<lambda>p. held (pair_of p)) (pm_pairs kv src) \<and>
    pm_events m' = pm_events m @ concat (map retains (map pair_of
      (filter (\<lambda>p. fst p \<noteq> nk) (zip (pm_keys src) (pm_values src)))))"
proof -
  let ?ps = "filter (\<lambda>p. fst p \<noteq> nk) (zip (pm_keys src) (pm_values src))"
  have mps: "mset ?ps = pm_pairs kv src" by (simp add: pair_slots_def)
  have "length ?ps = size (mset ?ps)" by (rule size_mset [symmetric])
  then have "length ?ps = size (pm_pairs kv src)" unfolding mps .
  then have "size (pm_pairs kv m) + length (map pair_of ?ps) \<le> 2 ^ 55"
    unfolding fresh length_map using room by simp
  moreover have "\<forall>item \<in> set (map pair_of ?ps). pp_key item \<noteq> nk \<and> \<not> present (keyset m) (pp_key item)"
    unfolding present_pairs [OF inv(1)] fresh by auto
  moreover have "sorted_wrt (\<lambda>a b. \<not> eqk (pp_key b) (pp_key a)) (map pair_of ?ps)"
    using unequal_pairs [OF map_inv_unequal [OF inv(2)] inv_len [OF inv(2)]] by (simp add: sorted_wrt_map)
  ultimately obtain m' where m': "pointermap_set_pairs junk m (map pair_of ?ps) kv = Some m'"
    "pointermap_inv kv m'" "pm_pairs kv m' = pm_pairs kv m + mset (map held (map pair_of ?ps))"
    "pm_events m' = pm_events m @ concat (map retains (map pair_of ?ps))"
    using set_pairs_spec [OF inv(1) lim, of "map pair_of ?ps" junk] by blast
  have "mset (map held (map pair_of ?ps)) = image_mset (\<lambda>p. held (pair_of p)) (mset ?ps)"
    by (simp only: mset_map multiset.map_comp comp_def)
  with m' fresh mps map_items_spec [OF inv(2)] show ?thesis
    by (simp add: u_mulle__pointermap_copy_items_generic_def)
qed

lemma map_copy_spec:
  assumes inv: "pointermap_inv kv src" and room: "size (pm_pairs kv src) \<le> 2 ^ 55"
  shows "\<exists>m'. u_mulle__map_copy junk src kv = Some m' \<and> pointermap_inv kv m' \<and>
    pm_pairs kv m' = image_mset (\<lambda>p. held (pair_of p)) (pm_pairs kv src) \<and>
    pm_events m' = concat (map retains (map pair_of
      (filter (\<lambda>p. fst p \<noteq> nk) (zip (pm_keys src) (pm_values src)))))"
proof -
  have "unat (pm_count src) = size (pm_pairs kv src)"
    using inv by (simp add: pointermap_inv_def pointerset_inv_def size_pair_slots)
  then have "unat (pm_count src) \<le> 2 ^ 56" using room by simp
  from map_init_spec [OF this, of junk] obtain m where m: "u_mulle__map_init junk (pm_count src) kv = Some m"
    "pointermap_inv kv m" "pm_pairs kv m = {#}" "unat (pm_size m) \<le> 2 ^ 57" "pm_events m = []" by blast
  have "unat (pm_size m) \<le> 2 ^ 58" using m(4) by simp
  from copy_pairs_spec [OF m(2) inv this room m(3), of junk] m(1,5) show ?thesis
    by (auto simp: u_mulle__map_copy_def)
qed

end

end
