(* ===== verification/Operation_Sequence.thy ===== *)
theory Operation_Sequence
  imports Main
begin

text \<open>
  The contract of a container whose operations are given as data: each operation answers what an
  abstract operation answers, and the container goes on standing for the abstract state. It then holds
  for all sequences. An operation may need a precondition in the abstract state, and it may use up some
  of the room that the container has left.
\<close>

fun run_ops :: "('s \<Rightarrow> 'p \<Rightarrow> ('s \<times> 'r) option) \<Rightarrow> 's \<Rightarrow> 'p list \<Rightarrow> ('s \<times> 'r list) option" where
  "run_ops step s [] = Some (s, [])"
| "run_ops step s (p # ps) =
     Option.bind (step s p) (\<lambda>(s, r). Option.bind (run_ops step s ps) (\<lambda>(s, rs). Some (s, r # rs)))"

fun run_spec :: "('a \<Rightarrow> 'p \<Rightarrow> 'a \<times> 'r) \<Rightarrow> 'a \<Rightarrow> 'p list \<Rightarrow> 'a \<times> 'r list" where
  "run_spec spec a [] = (a, [])"
| "run_spec spec a (p # ps) = (let (a, r) = spec a p; (a, rs) = run_spec spec a ps in (a, r # rs))"

fun all_allowed :: "('a \<Rightarrow> 'p \<Rightarrow> bool) \<Rightarrow> ('a \<Rightarrow> 'p \<Rightarrow> 'a \<times> 'r) \<Rightarrow> 'a \<Rightarrow> 'p list \<Rightarrow> bool" where
  "all_allowed allowed spec a [] \<longleftrightarrow> True"
| "all_allowed allowed spec a (p # ps) \<longleftrightarrow>
     allowed a p \<and> all_allowed allowed spec (fst (spec a p)) ps"

lemma all_allowed_True: "all_allowed (\<lambda>_ _. True) spec a ps"
  by (induction ps arbitrary: a) simp_all

locale operation_sequence =
  fixes rep :: "nat \<Rightarrow> 's \<Rightarrow> 'a \<Rightarrow> bool"
    and step :: "'s \<Rightarrow> 'p \<Rightarrow> ('s \<times> 'r) option"
    and spec :: "'a \<Rightarrow> 'p \<Rightarrow> 'a \<times> 'r"
    and allowed :: "'a \<Rightarrow> 'p \<Rightarrow> bool"
    and cost :: "'p \<Rightarrow> nat"
  assumes step_spec: "rep (cost p + n) s a \<Longrightarrow> allowed a p \<Longrightarrow>
    \<exists>s'. step s p = Some (s', snd (spec a p)) \<and> rep n s' (fst (spec a p))"
begin

lemma run_rep:
  "rep (sum_list (map cost ps) + n) s a \<Longrightarrow> all_allowed allowed spec a ps \<Longrightarrow>
   \<exists>s'. run_ops step s ps = Some (s', snd (run_spec spec a ps)) \<and> rep n s' (fst (run_spec spec a ps))"
proof (induction ps arbitrary: s a)
  case (Cons p ps)
  have "rep (cost p + (sum_list (map cost ps) + n)) s a" "allowed a p"
    using Cons.prems by (simp_all add: add.assoc)
  from step_spec [OF this] obtain s1 where s1: "step s p = Some (s1, snd (spec a p))"
    "rep (sum_list (map cost ps) + n) s1 (fst (spec a p))" by blast
  have "all_allowed allowed spec (fst (spec a p)) ps" using Cons.prems(2) by simp
  from Cons.IH [OF s1(2) this] s1(1) show ?case by (auto simp: split_beta Let_def)
qed simp

end

end
