(* ===== verification/Pointermap_Spec.thy ===== *)
theory Pointermap_Spec
  imports Pointermap_Copy Operation_Sequence
begin

text \<open>
  The ledger of the retain and release calls, maps of plain pointers, and the properties of the hash
  map: the specifications of its operations and the refinement of a function by any sequence of them.
\<close>

section \<open>The ledger\<close>

definition retained_keys :: "map_event list \<Rightarrow> pointer multiset" where
  "retained_keys es = mset (concat (map (\<lambda>e. case e of Key_Retain p \<Rightarrow> [p] | _ \<Rightarrow> []) es))"

definition released_keys :: "map_event list \<Rightarrow> pointer multiset" where
  "released_keys es = mset (concat (map (\<lambda>e. case e of Key_Release p \<Rightarrow> [p] | _ \<Rightarrow> []) es))"

definition retained_values :: "map_event list \<Rightarrow> pointer multiset" where
  "retained_values es = mset (concat (map (\<lambda>e. case e of Value_Retain p \<Rightarrow> [p] | _ \<Rightarrow> []) es))"

definition released_values :: "map_event list \<Rightarrow> pointer multiset" where
  "released_values es = mset (concat (map (\<lambda>e. case e of Value_Release p \<Rightarrow> [p] | _ \<Rightarrow> []) es))"

lemmas map_ledger_defs = retained_keys_def released_keys_def retained_values_def released_values_def

text \<open>
  Every key and every value in the map was retained once more often than it was released, all others
  as often.
\<close>

definition pm_balanced :: "mulle_container_keyvaluecallback \<Rightarrow> mulle__pointermap \<Rightarrow> bool" where
  "pm_balanced kv m \<longleftrightarrow>
     retained_keys (pm_events m) = released_keys (pm_events m) + image_mset fst (pm_pairs kv m) \<and>
     retained_values (pm_events m) = released_values (pm_events m) + image_mset snd (pm_pairs kv m)"

lemma release_pairs_ledger:
  "retained_keys (pointermap_release_pairs ps) = {#}" "retained_values (pointermap_release_pairs ps) = {#}"
  "released_keys (pointermap_release_pairs ps) = mset (map pp_key ps)"
  "released_values (pointermap_release_pairs ps) = mset (map pp_value ps)"
  by (induction ps) (simp_all add: map_ledger_defs)

lemma ledger_events_append [simp]:
  "retained_keys (es @ fs) = retained_keys es + retained_keys fs"
  "released_keys (es @ fs) = released_keys es + released_keys fs"
  "retained_values (es @ fs) = retained_values es + retained_values fs"
  "released_values (es @ fs) = released_values es + released_values fs"
  by (simp_all add: map_ledger_defs)

context map_callbacks
begin

lemma added_balanced:
  "pair_added m pair m' \<Longrightarrow> pm_balanced kv m \<Longrightarrow> pm_balanced kv m'"
  by (simp add: pair_added_def pm_balanced_def) (simp add: map_ledger_defs)

lemma replaced_balanced:
  assumes "pair_replaced m pair q old m'" "(q, old) \<in># pm_pairs kv m" "pm_balanced kv m"
  shows "pm_balanced kv m'"
proof -
  obtain P where P: "pm_pairs kv m = add_mset (q, old) P" using assms(2) by (metis insert_DiffM)
  with assms(1,3) show ?thesis
    by (simp add: pair_replaced_def pm_balanced_def) (simp add: map_ledger_defs)
qed

lemma written_balanced:
  assumes "written m pair mode m' r" "pm_balanced kv m"
  shows "pm_balanced kv m'"
  using assms added_balanced replaced_balanced unfolding written_def outcome_def
  by (metis (no_types, lifting))

lemma removed_balanced:
  assumes "pm_pairs kv m' = pm_pairs kv m - {#(q, v)#}" "(q, v) \<in># pm_pairs kv m" "pm_balanced kv m"
    "pm_events m' = pm_events m @ [Key_Release q, Value_Release v]"
  shows "pm_balanced kv m'"
proof -
  obtain P where P: "pm_pairs kv m = add_mset (q, v) P" using assms(2) by (metis insert_DiffM)
  with assms show ?thesis by (simp add: pm_balanced_def) (simp add: map_ledger_defs)
qed

lemma map_remove_lookup:
  assumes inv: "pointermap_inv kv m" and p: "p \<noteq> nk"
  shows "\<exists>m'. u_mulle__pointermap_remove_generic m p kv = Some (m', pm_lookup kv m p \<noteq> None) \<and>
    pointermap_inv kv m' \<and> (pm_balanced kv m \<longrightarrow> pm_balanced kv m') \<and>
    (\<forall>x. x \<noteq> nk \<longrightarrow> pm_lookup kv m' x = (if eqk x p then None else pm_lookup kv m x))"
proof (cases "present (keyset m) p")
  case False
  then have none: "pm_lookup kv m p = None" using lookup_None_iff [OF inv p] by blast
  have "u_mulle__pointermap_remove_generic m p kv = Some (m, False)"
    using map_remove_spec [OF inv p] False by (simp only: if_False)
  moreover have "pm_lookup kv m x = None" if x: "x \<noteq> nk" and eq: "eqk x p" for x
  proof -
    have "\<not> (\<exists>q \<in># pm_pairs kv m. eqk x (fst q))"
    proof
      assume "\<exists>q \<in># pm_pairs kv m. eqk x (fst q)"
      then obtain k v where q: "(k, v) \<in># pm_pairs kv m" "eqk x k" by auto
      have "k \<noteq> nk" using q(1) by (rule pair_key [OF inv])
      then have "eqk p k" using eq_trans [OF p x] eq_sym [OF x p eq] q(2) by blast
      with False q(1) show False unfolding present_pairs [OF inv] by auto
    qed
    then show ?thesis using lookup_None_iff [OF inv x] present_pairs [OF inv] by blast
  qed
  ultimately show ?thesis using inv none by auto
next
  case True
  then have some: "pm_lookup kv m p \<noteq> None" using lookup_None_iff [OF inv p] by blast
  obtain m' q v where m': "u_mulle__pointermap_remove_generic m p kv = Some (m', True)"
    "pointermap_inv kv m'" "(q, v) \<in># pm_pairs kv m" "eqk p q"
    "pm_pairs kv m' = pm_pairs kv m - {#(q, v)#}"
    "pm_events m' = pm_events m @ [Key_Release q, Value_Release v]"
    using map_remove_spec [OF inv p] True by auto
  have qn: "q \<noteq> nk" using m'(3) by (rule pair_key [OF inv])
  have "pm_lookup kv m' x = (if eqk x p then None else pm_lookup kv m x)" if x: "x \<noteq> nk" for x
  proof -
    have "eqk x q \<longleftrightarrow> eqk x p"
      using eq_trans [OF x p qn _ m'(4)] eq_trans [OF x qn p _ eq_sym [OF p qn m'(4)]] by blast
    with lookup_delete [OF inv m'(2) x m'(3,5)] show ?thesis by simp
  qed
  with m' some removed_balanced [OF m'(5,3) _ m'(6)] show ?thesis by auto
qed

lemma map_reset_spec:
  assumes inv: "pointermap_inv kv m"
  shows "\<exists>m'. u_mulle__map_reset junk m kv = Some m' \<and> pointermap_inv kv m' \<and> pm_pairs kv m' = {#} \<and>
    (kv_releases (Some kv) \<longrightarrow> pm_balanced kv m \<longrightarrow> pm_balanced kv m')"
proof (cases "pm_count m = 0")
  case True
  have "pm_pairs kv m = {#}"
    using inv_keys [OF inv] True pair_slots_keys [OF inv_len [OF inv], of nk]
    by (auto simp: pointerset_inv_def)
  with True inv show ?thesis by (simp add: u_mulle__map_reset_def)
next
  case False
  let ?ps = "map pair_of (filter (\<lambda>p. fst p \<noteq> nk) (zip (pm_keys m) (pm_values m)))"
  have keys: "mset (map pp_key ?ps) = image_mset fst (pm_pairs kv m)"
    and vals: "mset (map pp_value ?ps) = image_mset snd (pm_pairs kv m)"
    by (simp_all add: pair_slots_def multiset.map_comp comp_def)
  have init: "u_mulle__map_init junk 0 kv = Some pointermap_zero" by (simp add: u_mulle__map_init_def)
  have "u_mulle__map_release_all m (Some kv) = Some (if kv_releases (Some kv)
      then m\<lparr>pm_events := pm_events m @ pointermap_release_pairs ?ps\<rparr> else m)"
    using map_items_spec [OF inv] by (simp add: u_mulle__map_release_all_def)
  then have reset: "u_mulle__map_reset junk m kv = Some (pointermap_zero\<lparr>pm_n_mutations := pm_n_mutations m + 1,
      pm_events := (if kv_releases (Some kv) then pm_events m @ pointermap_release_pairs ?ps else pm_events m)\<rparr>)"
    using False init by (simp add: u_mulle__map_reset_def Let_def)
  have inv': "pointermap_inv kv (pointermap_zero\<lparr>pm_n_mutations := n, pm_events := es\<rparr>)" for n es
    by (simp add: pointermap_inv_def pointerset_inv_def pointermap_zero_def)
  have pairs': "pm_pairs kv (pointermap_zero\<lparr>pm_n_mutations := n, pm_events := es\<rparr>) = {#}" for n es
    using zero_map_pairs by simp
  have ev: "pm_events (pointermap_zero\<lparr>pm_n_mutations := n, pm_events := es\<rparr>) = es" for n es by simp
  have "pm_balanced kv (pointermap_zero\<lparr>pm_n_mutations := n,
      pm_events := pm_events m @ pointermap_release_pairs ?ps\<rparr>)" if "pm_balanced kv m" for n
    using that unfolding pm_balanced_def pairs' ev ledger_events_append release_pairs_ledger keys vals
    by simp
  with reset inv' pairs' show ?thesis by (intro exI [of _ "pointermap_zero\<lparr>pm_n_mutations := pm_n_mutations m + 1,
      pm_events := (if kv_releases (Some kv) then pm_events m @ pointermap_release_pairs ?ps else pm_events m)\<rparr>"])
      simp
qed

end

section \<open>Maps of plain pointers\<close>

abbreviation plain_kv :: mulle_container_keyvaluecallback where
  "plain_kv \<equiv> mulle__pointermap_keyvaluecallback"

lemma plain_kv_simps [simp]:
  "kv_key plain_kv = plain_cb" "vc_retain (kv_value plain_kv) v = v"
  by (simp_all add: mulle__pointermap_keyvaluecallback_def
      mulle_container_keycallback_nonowned_pointer_or_null_def)

interpretation plain_map: map_callbacks mulle__pointermap_keyvaluecallback
  by unfold_locales (simp add: plain_callbacks)

lemma plain_map_get_loop:
  assumes "pointermap_get_loop t vs sz key i plain_cb = Some r" "key \<noteq> mulle_not_a_pointer"
  shows "pointermap_plain_get_loop t vs sz key i = Some (case r of None \<Rightarrow> 0 | Some pair \<Rightarrow> pp_value pair)"
proof -
  let ?v = "\<lambda>r. case r of None \<Rightarrow> 0 | Some pair \<Rightarrow> pp_value pair"
  let ?P = "\<lambda>t vs sz key i cb r. cb = plain_cb \<longrightarrow> key \<noteq> mulle_not_a_pointer \<longrightarrow>
    pointermap_plain_get_loop t vs sz key i = Some (?v r)"
  have "?P t vs sz key i plain_cb r"
  proof (rule pointermap_get_loop.raw_induct [OF _ assms(1), where P = ?P], intro impI)
    fix loop and t vs :: "pointer list" and sz key i :: "64 word" and cb r
    assume IH: "\<And>t vs sz key i cb r. loop t vs sz key i cb = Some r \<Longrightarrow> ?P t vs sz key i cb r"
      and body: "Option.bind (slot t i) (\<lambda>found.
         if found = kc_notakey cb then Some None
         else if key = found \<or> kc_is_equal cb found key
         then Option.bind (slot vs i) (\<lambda>value. Some (Some \<lparr>pp_key = found, pp_value = value\<rparr>))
         else loop t vs sz key ((i + 1) AND (sz - 1)) cb) = Some r"
      and cb: "cb = plain_cb" and key: "key \<noteq> mulle_not_a_pointer"
    from body obtain q where q: "slot t i = Some q" by (auto simp: bind_eq_Some_conv)
    show "pointermap_plain_get_loop t vs sz key i = Some (?v r)"
    proof (cases "q = mulle_not_a_pointer \<or> q = key")
      case True
      with body q cb key show ?thesis
        by (subst pointermap_plain_get_loop.simps) (auto simp: bind_eq_Some_conv)
    next
      case False
      with body q cb have "loop t vs sz key ((i + 1) AND (sz - 1)) cb = Some r" by auto
      from IH [OF this] False q cb key show ?thesis
        by (subst pointermap_plain_get_loop.simps) auto
    qed
  qed
  with assms(2) show ?thesis by simp
qed

lemma plain_map_get:
  assumes inv: "pointermap_inv plain_kv m" and key: "key \<noteq> mulle_not_a_pointer"
  shows "u_mulle__pointermap_get m key = Some (case pm_lookup plain_kv m key of None \<Rightarrow> 0 | Some v \<Rightarrow> v)"
proof (cases "pm_count m = 0")
  case True
  with plain_map.empty_lookup [OF inv True] key show ?thesis by (simp add: u_mulle__pointermap_get_def)
next
  case False
  have "key \<noteq> kc_notakey (kv_key plain_kv)" using key by simp
  from plain_map.get_loop_lookup [OF inv False this] obtain r where
    r: "pointermap_get_loop (pm_keys m) (pm_values m) (pm_size m) key
      (mulle__pointermap_hash_for_size (mulle_pointer_hash key) (pm_size m)) plain_cb = Some r"
    "map_option pp_value r = pm_lookup plain_kv m key" by auto
  show ?thesis unfolding r(2) [symmetric] using plain_map_get_loop [OF r(1) key] False
    by (simp add: u_mulle__pointermap_get_def Let_def split: option.split)
qed

section \<open>Sequences of operations\<close>

text \<open>
  The operations of \<open>mulle--pointermap.h\<close> as data, what the code does for each, and what it does to a
  function from keys to values. A result is a value, or 1 or 0 for a truth value. A lookup answers 0
  for an absent key, and so does an update; an update that changes nothing answers 0, too.
\<close>

datatype map_op =
  Op_Set pointer pointer | Op_Insert pointer pointer | Op_Register pointer pointer
  | Op_Update pointer pointer | Op_Remove pointer | Op_Get pointer | Op_Shrink

fun op_key :: "map_op \<Rightarrow> pointer" where
  "op_key (Op_Set k v) = k"
| "op_key (Op_Insert k v) = k"
| "op_key (Op_Register k v) = k"
| "op_key (Op_Update k v) = k"
| "op_key (Op_Remove k) = k"
| "op_key (Op_Get k) = k"
| "op_key Op_Shrink = 0"

fun pointermap_op :: "junk \<Rightarrow> mulle__pointermap \<Rightarrow> map_op \<Rightarrow> (mulle__pointermap \<times> pointer) option" where
  "pointermap_op junk m (Op_Set k v) = map_option (\<lambda>m. (m, 0)) (u_mulle__pointermap_set junk m k v)"
| "pointermap_op junk m (Op_Insert k v) =
     map_option (\<lambda>(m, ok). (m, if ok then 1 else 0)) (u_mulle__pointermap_insert junk m k v)"
| "pointermap_op junk m (Op_Register k v) = u_mulle__pointermap_register junk m k v"
| "pointermap_op junk m (Op_Update k v) = u_mulle__pointermap_update junk m k v"
| "pointermap_op junk m (Op_Remove k) =
     map_option (\<lambda>(m, ok). (m, if ok then 1 else 0)) (u_mulle__pointermap_remove m k)"
| "pointermap_op junk m (Op_Get k) = map_option (\<lambda>v. (m, v)) (u_mulle__pointermap_get m k)"
| "pointermap_op junk m Op_Shrink =
     map_option (\<lambda>m. (m, 0)) (u_mulle__pointermap_shrink_if_needed junk m)"

fun function_op :: "(pointer \<rightharpoonup> pointer) \<Rightarrow> map_op \<Rightarrow> (pointer \<rightharpoonup> pointer) \<times> pointer" where
  "function_op f (Op_Set k v) = (f(k \<mapsto> v), 0)"
| "function_op f (Op_Insert k v) = (case f k of None \<Rightarrow> (f(k \<mapsto> v), 1) | Some w \<Rightarrow> (f, 0))"
| "function_op f (Op_Register k v) = (case f k of None \<Rightarrow> (f(k \<mapsto> v), v) | Some w \<Rightarrow> (f, w))"
| "function_op f (Op_Update k v) =
     (f(k \<mapsto> v), case f k of None \<Rightarrow> 0 | Some w \<Rightarrow> if w = v then 0 else w)"
| "function_op f (Op_Remove k) = (f(k := None), if f k = None then 0 else 1)"
| "function_op f (Op_Get k) = (f, case f k of None \<Rightarrow> 0 | Some w \<Rightarrow> w)"
| "function_op f Op_Shrink = (f, 0)"

text \<open>The map stands for the function, and \<open>n\<close> more pairs fit into it.\<close>

definition map_is :: "nat \<Rightarrow> mulle__pointermap \<Rightarrow> (pointer \<rightharpoonup> pointer) \<Rightarrow> bool" where
  "map_is n m f \<longleftrightarrow> pointermap_inv plain_kv m \<and> unat (pm_size m) \<le> 2 ^ 58 \<and>
     size (pm_pairs plain_kv m) + n \<le> 2 ^ 55 \<and>
     (\<forall>k. k \<noteq> mulle_not_a_pointer \<longrightarrow> pm_lookup plain_kv m k = f k)"

lemma map_isD:
  assumes "map_is n m f"
  shows "pointermap_inv plain_kv m" "unat (pm_size m) \<le> 2 ^ 58" "size (pm_pairs plain_kv m) + n \<le> 2 ^ 55"
    "k \<noteq> mulle_not_a_pointer \<Longrightarrow> pm_lookup plain_kv m k = f k"
  using assms by (simp_all add: map_is_def)

lemma map_is_Suc: "map_is (Suc n) m f \<Longrightarrow> map_is n m f"
  by (simp add: map_is_def)

lemma plain_count:
  assumes "pointermap_inv plain_kv m"
  shows "unat (pm_count m) = size (pm_pairs plain_kv m)"
  using assms by (simp add: pointermap_inv_def pointerset_inv_def size_pair_slots)

lemma plain_write:
  assumes m: "map_is (Suc n) m f" and k: "k \<noteq> mulle_not_a_pointer"
  shows "\<exists>m' r. u_mulle__pointermap_write_pair_generic junk m \<lparr>pp_key = k, pp_value = v\<rparr> mode plain_kv = Some (m', r) \<and>
    (if mode = mulle_container_insert_e \<and> f k \<noteq> None then m' = m else map_is n m' (f(k \<mapsto> v))) \<and>
    (pm_count m' \<noteq> pm_count m \<longleftrightarrow> f k = None) \<and>
    r = (case f k of None \<Rightarrow> 0 | Some w \<Rightarrow> if mode = mulle_container_insert_e then w
      else if w = v then 0 else if mode = mulle_container_update_e then w else 0)"
proof -
  let ?pair = "\<lparr>pp_key = k, pp_value = v\<rparr>"
  note inv = map_isD(1) [OF m] and lim = map_isD(2) [OF m] and room = map_isD(3) [OF m]
  have key: "pp_key ?pair \<noteq> kc_notakey (kv_key plain_kv)" using k by simp
  from plain_map.write_written [OF inv lim key, of junk mode] obtain m' r where
    w: "u_mulle__pointermap_write_pair_generic junk m ?pair mode plain_kv = Some (m', r)"
      "plain_map.written m ?pair mode m' r" by blast
  note inv' = plain_map.written_inv [OF inv w(2)]
  have look: "pm_lookup plain_kv m' x = (if x = k then Some (plain_map.value_after m ?pair mode)
      else f x)" if "x \<noteq> mulle_not_a_pointer" for x
    using plain_map.written_lookup [OF inv w(2) key, of x] that map_isD(4) [OF m that] by simp
  have small: "unat (pm_size m') \<le> 2 ^ 58" "size (pm_pairs plain_kv m') + n \<le> 2 ^ 55"
    using inv'(2,3) lim room by simp_all
  have fk: "pm_lookup plain_kv m k = f k" using map_isD(4) [OF m k] .
  have lessn: "size (pm_pairs plain_kv m) < 2 ^ 64 - 1" using room by simp
  show ?thesis
  proof (cases "f k")
    case None
    then have absent: "\<not> plain_map.present (keyset m) k"
      using plain_map.lookup_None_iff [OF inv, of k] k fk by simp
    then have added: "plain_map.pair_added m ?pair m'" "r = 0" using w(2) by (simp_all add: plain_map.written_def)
    have "size (pm_pairs plain_kv m') = Suc (size (pm_pairs plain_kv m))"
      using added(1) by (simp add: plain_map.pair_added_def)
    then have cnt: "pm_count m' \<noteq> pm_count m"
      using plain_count [OF inv] plain_count [OF inv'(1)] by auto
    have "plain_map.value_after m ?pair mode = v" using fk None by (simp add: plain_map.value_after_def)
    then have "map_is n m' (f(k \<mapsto> v))" using inv'(1) small look by (simp add: map_is_def)
    with w(1) None cnt added(2) show ?thesis by simp
  next
    case (Some old)
    then have "plain_map.present (keyset m) k"
      using plain_map.lookup_None_iff [OF inv, of k] k fk by auto
    with w(2) obtain q old' where q: "(q, old') \<in># pm_pairs plain_kv m" "k = q"
      "plain_map.outcome m ?pair mode q old' m' r" by (auto simp: plain_map.written_def)
    have "old' = old" using plain_map.lookup_iff [OF inv, of k old'] q(1,2) k fk Some by auto
    with q have mem: "(k, old) \<in># pm_pairs plain_kv m"
      and out: "plain_map.outcome m ?pair mode k old m' r" by simp_all
    have val: "mode \<noteq> mulle_container_insert_e \<Longrightarrow> plain_map.value_after m ?pair mode = v"
      using plain_map.same_pair [OF inv mem, of k v] fk Some by (auto simp: plain_map.value_after_def)
    have eq: "size (pm_pairs plain_kv m') = size (pm_pairs plain_kv m)"
      using out mem unfolding plain_map.outcome_def plain_map.pair_replaced_def
      by (auto simp: size_Suc_Diff1 split: if_splits)
    then have cnt: "pm_count m' = pm_count m"
      using plain_count [OF inv] plain_count [OF inv'(1)] by (simp add: word_unat_eq_iff)
    have "map_is n m' (f(k \<mapsto> v))" if "mode \<noteq> mulle_container_insert_e"
      using inv'(1) small look val [OF that] by (simp add: map_is_def)
    moreover have "r = (if mode = mulle_container_insert_e then old
      else if old = v then 0 else if mode = mulle_container_update_e then old else 0)"
      using out unfolding plain_map.outcome_def by (auto split: if_splits)
    moreover have "mode = mulle_container_insert_e \<Longrightarrow> m' = m"
      using out unfolding plain_map.outcome_def by simp
    ultimately show ?thesis using w(1) Some cnt by simp
  qed
qed

lemma plain_remove:
  assumes m: "map_is n m f" and k: "k \<noteq> mulle_not_a_pointer"
  shows "\<exists>m'. u_mulle__pointermap_remove m k = Some (m', f k \<noteq> None) \<and> map_is n m' (f(k := None))"
proof -
  note inv = map_isD(1) [OF m] and lim = map_isD(2) [OF m] and room = map_isD(3) [OF m]
  have key: "k \<noteq> kc_notakey (kv_key plain_kv)" using k by simp
  have pres: "plain_map.present (keyset m) k \<longleftrightarrow> f k \<noteq> None"
    using plain_map.lookup_None_iff [OF inv key] map_isD(4) [OF m k] by simp
  show ?thesis
  proof (cases "f k = None")
    case True
    then have "u_mulle__pointermap_remove_generic m k plain_kv = Some (m, False)"
      using plain_map.map_remove_spec [OF inv key] pres by (metis (no_types, lifting))
    moreover have "f(k := None) = f" using True by auto
    ultimately show ?thesis using m True by (simp add: u_mulle__pointermap_remove_def)
  next
    case False
    then obtain m' q v where m': "u_mulle__pointermap_remove_generic m k plain_kv = Some (m', True)"
      "pointermap_inv plain_kv m'" "(q, v) \<in># pm_pairs plain_kv m" "k = q"
      "pm_pairs plain_kv m' = pm_pairs plain_kv m - {#(q, v)#}" "pm_size m' = pm_size m"
      using plain_map.map_remove_spec [OF inv key] pres by (auto split: if_splits)
    have "size (pm_pairs plain_kv m') \<le> size (pm_pairs plain_kv m)"
      unfolding m'(5) by (rule size_mset_mono) simp
    moreover have "pm_lookup plain_kv m' x = (f(k := None)) x" if "x \<noteq> mulle_not_a_pointer" for x
      using plain_map.lookup_delete [OF inv m'(2) _ m'(3,5), of x] that m'(4) map_isD(4) [OF m that] by simp
    ultimately have "map_is n m' (f(k := None))" using m'(2,6) lim room by (simp add: map_is_def)
    with m'(1) False show ?thesis by (simp add: u_mulle__pointermap_remove_def)
  qed
qed

lemma plain_shrink:
  assumes m: "map_is n m f"
  shows "\<exists>m'. u_mulle__pointermap_shrink_if_needed junk m = Some m' \<and> map_is n m' f"
proof (cases "u_mulle__pointermap_is_sparse m")
  case False
  with m show ?thesis by (simp add: u_mulle__pointermap_shrink_if_needed_def)
next
  case True
  have "unat (pm_size m) \<le> 2 ^ 59" using map_isD(2) [OF m] by simp
  from plain_map.map_shrink_spec [OF map_isD(1) [OF m] True this, of junk] obtain m' where
    m': "u_mulle__pointermap_shrink_generic junk m plain_kv = Some m'" "pointermap_inv plain_kv m'"
      "pm_pairs plain_kv m' = pm_pairs plain_kv m" "pm_size m' \<le> pm_size m" by blast
  have "pm_lookup plain_kv m' x = f x" if "x \<noteq> mulle_not_a_pointer" for x
    using plain_map.lookup_pairs [OF map_isD(1) [OF m] m'(2,3), of x] that map_isD(4) [OF m that] by simp
  then have "map_is n m' f" using m' map_isD(2,3) [OF m] by (simp add: map_is_def word_le_nat_alt)
  with m'(1) True show ?thesis by (simp add: u_mulle__pointermap_shrink_if_needed_def)
qed

lemma pointermap_op_step:
  assumes m: "map_is (Suc n) m f" and p: "op_key p \<noteq> mulle_not_a_pointer"
  shows "\<exists>m'. pointermap_op junk m p = Some (m', snd (function_op f p)) \<and> map_is n m' (fst (function_op f p))"
proof (cases p)
  case (Op_Set k v)
  then have "k \<noteq> mulle_not_a_pointer" using p by simp
  from plain_write [OF m this, of junk v mulle_container_overwrite_e] obtain m' r where
    "u_mulle__pointermap_write_pair_generic junk m \<lparr>pp_key = k, pp_value = v\<rparr> mulle_container_overwrite_e
      plain_kv = Some (m', r)" "map_is n m' (f(k \<mapsto> v))" by auto
  then show ?thesis
    by (simp add: Op_Set u_mulle__pointermap_set_def u_mulle__pointermap_set_pair_generic_def
        mulle_pointerpair_make_def)
next
  case (Op_Insert k v)
  then have "k \<noteq> mulle_not_a_pointer" using p by simp
  from plain_write [OF m this, of junk v mulle_container_insert_e] obtain m' r where
    "u_mulle__pointermap_write_pair_generic junk m \<lparr>pp_key = k, pp_value = v\<rparr> mulle_container_insert_e
      plain_kv = Some (m', r)" "if f k \<noteq> None then m' = m else map_is n m' (f(k \<mapsto> v))"
    "pm_count m' \<noteq> pm_count m \<longleftrightarrow> f k = None" by auto
  then show ?thesis using map_is_Suc [OF m]
    by (cases "f k") (simp_all add: Op_Insert u_mulle__pointermap_insert_def
        u_mulle__pointermap_insert_pair_generic_def mulle_pointerpair_make_def)
next
  case (Op_Register k v)
  then have k: "k \<noteq> mulle_not_a_pointer" using p by simp
  have get: "u_mulle__pointermap_get_generic m k plain_kv = Some (case f k of None \<Rightarrow> 0 | Some v \<Rightarrow> v)"
    using plain_map.map_get_spec [OF map_isD(1) [OF m], of k] k map_isD(4) [OF m k] by simp
  from plain_write [OF m k, of junk v mulle_container_insert_e] obtain m' r where
    "u_mulle__pointermap_write_pair_generic junk m \<lparr>pp_key = k, pp_value = v\<rparr> mulle_container_insert_e
      plain_kv = Some (m', r)" "if f k \<noteq> None then m' = m else map_is n m' (f(k \<mapsto> v))"
    "pm_count m' \<noteq> pm_count m \<longleftrightarrow> f k = None" by auto
  then show ?thesis using map_is_Suc [OF m] get
    by (cases "f k") (simp_all add: Op_Register u_mulle__pointermap_register_def
        u_mulle__pointermap_register_pair_generic_def mulle_pointerpair_make_def)
next
  case (Op_Update k v)
  then have "k \<noteq> mulle_not_a_pointer" using p by simp
  from plain_write [OF m this, of junk v mulle_container_update_e] obtain m' r where
    "u_mulle__pointermap_write_pair_generic junk m \<lparr>pp_key = k, pp_value = v\<rparr> mulle_container_update_e
      plain_kv = Some (m', r)" "map_is n m' (f(k \<mapsto> v))"
    "r = (case f k of None \<Rightarrow> 0 | Some w \<Rightarrow> if w = v then 0 else w)"
    by (auto split: option.splits cong: if_cong)
  then show ?thesis
    by (simp add: Op_Update u_mulle__pointermap_update_def
        u_mulle__pointermap_update_pair_generic_def mulle_pointerpair_make_def)
next
  case (Op_Remove k)
  then have "k \<noteq> mulle_not_a_pointer" using p by simp
  from plain_remove [OF map_is_Suc [OF m] this] obtain m' where
    "u_mulle__pointermap_remove m k = Some (m', f k \<noteq> None)" "map_is n m' (f(k := None))" by blast
  then show ?thesis by (cases "f k") (simp_all add: Op_Remove)
next
  case (Op_Get k)
  then have k: "k \<noteq> mulle_not_a_pointer" using p by simp
  show ?thesis
    using plain_map_get [OF map_isD(1) [OF m] k] map_isD(4) [OF m k] map_is_Suc [OF m]
    by (simp add: Op_Get)
next
  case Op_Shrink
  from plain_shrink [OF map_is_Suc [OF m], of junk] obtain m' where
    "u_mulle__pointermap_shrink_if_needed junk m = Some m'" "map_is n m' f" by blast
  then show ?thesis by (simp add: Op_Shrink)
qed

abbreviation map_key_ok :: "(pointer \<rightharpoonup> pointer) \<Rightarrow> map_op \<Rightarrow> bool" where
  "map_key_ok f p \<equiv> op_key p \<noteq> mulle_not_a_pointer"

interpretation map_ops: operation_sequence map_is "pointermap_op junk" function_op map_key_ok "\<lambda>_. 1"
  for junk by unfold_locales (use pointermap_op_step in simp)

lemma all_keys_ok:
  "\<forall>p \<in> set ps. op_key p \<noteq> mulle_not_a_pointer \<Longrightarrow> all_allowed map_key_ok function_op f ps"
  by (induction ps arbitrary: f) simp_all

context map_callbacks
begin

lemma written_result:
  assumes inv: "pointermap_inv kv m" and w: "written m pair mode m' r" and p: "pp_key pair \<noteq> nk"
  shows "r = (case pm_lookup kv m (pp_key pair) of
      None \<Rightarrow> 0
    | Some old \<Rightarrow>
        if mode = mulle_container_insert_e then old
        else if (pp_key pair, pp_value pair) \<in># pm_pairs kv m then 0
        else if mode = mulle_container_update_e then old else 0)"
proof (cases "present (keyset m) (pp_key pair)")
  case False
  then have "pm_lookup kv m (pp_key pair) = None" using lookup_None_iff [OF inv p] by blast
  with False w show ?thesis by (simp add: written_def)
next
  case True
  with w obtain q old where q: "(q, old) \<in># pm_pairs kv m" "eqk (pp_key pair) q"
    and out: "outcome m pair mode q old m' r"
    by (auto simp: written_def)
  have "pm_lookup kv m (pp_key pair) = Some old" using lookup_iff [OF inv p] q by blast
  moreover have "(pp_key pair, pp_value pair) \<in># pm_pairs kv m \<longleftrightarrow> pp_key pair = q \<and> pp_value pair = old"
    using same_pair [OF inv _ q(1), of "pp_key pair" "pp_value pair"] q by auto
  ultimately show ?thesis using out unfolding outcome_def by (simp split: if_splits)
qed

lemma copy_balanced:
  assumes "pm_pairs kv m' = image_mset (\<lambda>p. held (pair_of p)) (pm_pairs kv src)"
    and "pm_events m' = concat (map retains (map pair_of
      (filter (\<lambda>p. fst p \<noteq> nk) (zip (pm_keys src) (pm_values src)))))"
  shows "pm_balanced kv m'"
proof -
  let ?es = "\<lambda>ps. concat (map retains (map pair_of ps))"
  have led: "retained_keys (?es ps) = mset (map (\<lambda>p. fst (held (pair_of p))) ps)"
    "retained_values (?es ps) = mset (map (\<lambda>p. snd (held (pair_of p))) ps)"
    "released_keys (?es ps) = {#}" "released_values (?es ps) = {#}" for ps
    by (induction ps) (simp_all add: map_ledger_defs)
  have fst: "image_mset fst (pm_pairs kv m') = mset (map (\<lambda>p. fst (held (pair_of p)))
      (filter (\<lambda>p. fst p \<noteq> nk) (zip (pm_keys src) (pm_values src))))"
    and snd: "image_mset snd (pm_pairs kv m') = mset (map (\<lambda>p. snd (held (pair_of p)))
      (filter (\<lambda>p. fst p \<noteq> nk) (zip (pm_keys src) (pm_values src))))"
    unfolding assms(1) by (simp_all add: pair_slots_def multiset.map_comp comp_def)
  show ?thesis unfolding pm_balanced_def fst snd assms(2) led by simp
qed

end

section \<open>Properties\<close>

text \<open>
  C5. Any sequence of operations on a map of plain pointers returns and answers what a function from keys
  to values answers, and afterwards the map holds this function: setting, inserting, registering,
  updating, removing and looking up keys, and shrinking, in any order, with the growth of the table
  that they cause.
\<close>

theorem mulle__pointermap_sequence:
  assumes "length ps \<le> 2 ^ 55" "\<forall>p \<in> set ps. op_key p \<noteq> mulle_not_a_pointer"
  shows "\<exists>m'. run_ops (pointermap_op junk) pointermap_zero ps = Some (m', snd (run_spec function_op Map.empty ps)) \<and>
    pointermap_inv mulle__pointermap_keyvaluecallback m' \<and>
    (\<forall>k. k \<noteq> mulle_not_a_pointer \<longrightarrow>
      pm_lookup mulle__pointermap_keyvaluecallback m' k = fst (run_spec function_op Map.empty ps) k)"
proof -
  have "pm_lookup plain_kv pointermap_zero k = None" for k
    by (simp add: pm_lookup_def pointermap_zero_def)
  moreover have "pm_size pointermap_zero = 0" by (simp add: pointermap_zero_def)
  ultimately have "map_is (sum_list (map (\<lambda>_. 1) ps) + 0) pointermap_zero Map.empty"
    using assms(1) plain_map.zero_map_inv plain_map.zero_map_pairs
    by (simp add: map_is_def sum_list_triv)
  from map_ops.run_rep [OF this all_keys_ok [OF assms(2)], of junk] show ?thesis by (auto simp: map_is_def)
qed

theorem mulle__pointermap_sequence_witness:
  "\<exists>m'. run_ops (pointermap_op (\<lambda>_ _. 99)) pointermap_zero
      [Op_Set 1 10, Op_Insert 2 20, Op_Insert 1 11, Op_Update 2 21, Op_Remove 1, Op_Get 2, Op_Get 1] =
    Some (m', [0, 1, 0, 20, 1, 21, 0])"
  using mulle__pointermap_sequence
    [of "[Op_Set 1 10, Op_Insert 2 20, Op_Insert 1 11, Op_Update 2 21, Op_Remove 1, Op_Get 2, Op_Get 1]"
      "\<lambda>_ _. 99"]
  by (auto simp: mulle_not_a_pointer_def)

lemma one_pair:
  "\<exists>m. pointermap_inv plain_kv m \<and> pm_pairs plain_kv m = {#(5, 6)#} \<and> pm_lookup plain_kv m 5 = Some 6"
proof -
  let ?pair = "\<lparr>pp_key = 5, pp_value = 6\<rparr>"
  have five: "pp_key ?pair \<noteq> kc_notakey (kv_key plain_kv)" "5 \<noteq> kc_notakey (kv_key plain_kv)"
    by (simp_all add: mulle_not_a_pointer_def)
  have small: "unat (pm_size pointermap_zero) \<le> 2 ^ 58" by (simp add: pointermap_zero_def)
  from plain_map.write_written [OF plain_map.zero_map_inv small five(1), of "\<lambda>_ _. 99" mulle_container_insert_e]
  obtain m r where w: "plain_map.written pointermap_zero ?pair mulle_container_insert_e m r" by blast
  have none: "pm_lookup plain_kv pointermap_zero 5 = None" by (simp add: pm_lookup_def pointermap_zero_def)
  have "pm_lookup plain_kv m 5 = Some 6"
    using plain_map.written_lookup [OF plain_map.zero_map_inv w five] none
    by (simp add: plain_map.value_after_def)
  moreover have "pm_pairs plain_kv m = {#(5, 6)#}"
    using w by (simp add: plain_map.written_def plain_map.pair_added_def pointermap_zero_def pair_slots_def)
  ultimately show ?thesis using plain_map.written_inv(1) [OF plain_map.zero_map_inv w] by blast
qed

text \<open>
  C6. Writing a pair returns in every mode, for any callbacks that respect equality: the map stays
  well-formed, the key has the value that the mode asks for, no other key changes, and what the map
  holds stays balanced by the retain and release calls. The result is the old value for an insertion of
  a present key and for an update, but null for an update with the very key and value that the map holds
  already, and otherwise null.
\<close>

theorem mulle__pointermap_write_spec:
  assumes "keycallback_ok (kv_key kv)" "pointermap_inv kv m" "unat (pm_size m) \<le> 2 ^ 58"
    "pp_key pair \<noteq> kc_notakey (kv_key kv)"
  shows "\<exists>m' r. u_mulle__pointermap_write_pair_generic junk m pair mode kv = Some (m', r) \<and>
    pointermap_inv kv m' \<and> (pm_balanced kv m \<longrightarrow> pm_balanced kv m') \<and>
    (\<forall>x. x \<noteq> kc_notakey (kv_key kv) \<longrightarrow> pm_lookup kv m' x =
      (if kc_is_equal (kv_key kv) x (pp_key pair)
       then Some (case pm_lookup kv m (pp_key pair) of
           None \<Rightarrow> vc_retain (kv_value kv) (pp_value pair)
         | Some old \<Rightarrow>
             if mode = mulle_container_insert_e \<or> (pp_key pair, pp_value pair) \<in># pm_pairs kv m then old
             else vc_retain (kv_value kv) (pp_value pair))
       else pm_lookup kv m x)) \<and>
    r = (case pm_lookup kv m (pp_key pair) of
        None \<Rightarrow> 0
      | Some old \<Rightarrow>
          if mode = mulle_container_insert_e then old
          else if (pp_key pair, pp_value pair) \<in># pm_pairs kv m then 0
          else if mode = mulle_container_update_e then old else 0)"
proof -
  have t: "map_callbacks kv" using assms(1) by (rule map_callbacks.intro)
  obtain m' r where w: "u_mulle__pointermap_write_pair_generic junk m pair mode kv = Some (m', r)"
    "map_callbacks.written kv m pair mode m' r"
    using map_callbacks.write_written [OF t assms(2-4)] by blast
  show ?thesis
    using w(1) map_callbacks.written_inv(1) [OF t assms(2) w(2)]
      map_callbacks.written_balanced [OF t w(2)] map_callbacks.written_lookup [OF t assms(2) w(2) assms(4)]
      map_callbacks.written_result [OF t assms(2) w(2) assms(4)]
    unfolding map_callbacks.value_after_def [OF t] by blast
qed

theorem mulle__pointermap_write_spec_witness:
  "\<exists>m' r. u_mulle__pointermap_write_pair_generic (\<lambda>_ _. 99) pointermap_zero \<lparr>pp_key = 5, pp_value = 6\<rparr>
      mulle_container_overwrite_e plain_kv = Some (m', r) \<and> pm_lookup plain_kv m' 5 = Some 6 \<and> r = 0"
proof -
  have ok: "keycallback_ok (kv_key plain_kv)" by (simp add: plain_callbacks)
  have five: "pp_key \<lparr>pp_key = 5, pp_value = 6\<rparr> \<noteq> kc_notakey (kv_key plain_kv)"
    by (simp add: mulle_not_a_pointer_def)
  have small: "unat (pm_size pointermap_zero) \<le> 2 ^ 58" by (simp add: pointermap_zero_def)
  have none: "pm_lookup plain_kv pointermap_zero k = None" for k
    by (simp add: pm_lookup_def pointermap_zero_def)
  from mulle__pointermap_write_spec [OF ok plain_map.zero_map_inv small five,
      of "\<lambda>_ _. 99" mulle_container_overwrite_e] none show ?thesis
    by (auto simp: mulle_not_a_pointer_def)
qed

text \<open>
  C7. Removing a key returns: exactly the pairs with an equal key are gone from the map, the answer says
  whether there was one, and its key and value are released.
\<close>

theorem mulle__pointermap_remove_spec:
  assumes "keycallback_ok (kv_key kv)" "pointermap_inv kv m" "key \<noteq> kc_notakey (kv_key kv)"
  shows "\<exists>m'. u_mulle__pointermap_remove_generic m key kv = Some (m', pm_lookup kv m key \<noteq> None) \<and>
    pointermap_inv kv m' \<and> (pm_balanced kv m \<longrightarrow> pm_balanced kv m') \<and>
    (\<forall>x. x \<noteq> kc_notakey (kv_key kv) \<longrightarrow> pm_lookup kv m' x =
      (if kc_is_equal (kv_key kv) x key then None else pm_lookup kv m x))"
proof -
  have t: "map_callbacks kv" using assms(1) by (rule map_callbacks.intro)
  show ?thesis by (rule map_callbacks.map_remove_lookup [OF t assms(2,3)])
qed

theorem mulle__pointermap_remove_spec_witness:
  "\<exists>m m'. pm_pairs plain_kv m = {#(5, 6)#} \<and>
     u_mulle__pointermap_remove_generic m 5 plain_kv = Some (m', True) \<and> pm_lookup plain_kv m' 5 = None"
proof -
  have ok: "keycallback_ok (kv_key plain_kv)" by (simp add: plain_callbacks)
  have five: "5 \<noteq> kc_notakey (kv_key plain_kv)" by (simp add: mulle_not_a_pointer_def)
  obtain m where m: "pointermap_inv plain_kv m" "pm_pairs plain_kv m = {#(5, 6)#}"
    "pm_lookup plain_kv m 5 = Some 6" using one_pair by blast
  from mulle__pointermap_remove_spec [OF ok m(1) five] five obtain m' where
    "u_mulle__pointermap_remove_generic m 5 plain_kv = Some (m', True)" "pm_lookup plain_kv m' 5 = None"
    unfolding m(3) by auto
  with m(2) show ?thesis by blast
qed

text \<open>
  C24. Copying a map with callbacks returns a map of the retained keys and values, balanced on its own; and
  a reset leaves an empty map that has released everything it held, where the callbacks release at all.
\<close>

theorem mulle__map_copy_reset_spec:
  assumes "keycallback_ok (kv_key kv)" "pointermap_inv kv m" "size (pm_pairs kv m) \<le> 2 ^ 55"
  shows "(\<exists>m'. u_mulle__map_copy junk m kv = Some m' \<and> pointermap_inv kv m' \<and> pm_balanced kv m' \<and>
      pm_pairs kv m' =
        image_mset (\<lambda>(k, v). (kc_retain (kv_key kv) k, vc_retain (kv_value kv) v)) (pm_pairs kv m)) \<and>
    (\<exists>m'. u_mulle__map_reset junk m kv = Some m' \<and> pointermap_inv kv m' \<and> pm_pairs kv m' = {#} \<and>
      (kv_releases (Some kv) \<longrightarrow> pm_balanced kv m \<longrightarrow> pm_balanced kv m'))"
proof
  have t: "map_callbacks kv" using assms(1) by (rule map_callbacks.intro)
  from map_callbacks.map_copy_spec [OF t assms(2,3), of junk] map_callbacks.copy_balanced [OF t]
  show "\<exists>m'. u_mulle__map_copy junk m kv = Some m' \<and> pointermap_inv kv m' \<and> pm_balanced kv m' \<and>
      pm_pairs kv m' =
        image_mset (\<lambda>(k, v). (kc_retain (kv_key kv) k, vc_retain (kv_value kv) v)) (pm_pairs kv m)"
    by (simp add: case_prod_unfold) blast
  show "\<exists>m'. u_mulle__map_reset junk m kv = Some m' \<and> pointermap_inv kv m' \<and> pm_pairs kv m' = {#} \<and>
      (kv_releases (Some kv) \<longrightarrow> pm_balanced kv m \<longrightarrow> pm_balanced kv m')"
    by (rule map_callbacks.map_reset_spec [OF t assms(2)])
qed

theorem mulle__map_copy_reset_spec_witness:
  "\<exists>m c r. pm_pairs plain_kv m = {#(5, 6)#} \<and>
     u_mulle__map_copy (\<lambda>_ _. 99) m plain_kv = Some c \<and> pm_pairs plain_kv c = {#(5, 6)#} \<and>
     u_mulle__map_reset (\<lambda>_ _. 99) m plain_kv = Some r \<and> pm_pairs plain_kv r = {#}"
proof -
  have ok: "keycallback_ok (kv_key plain_kv)" by (simp add: plain_callbacks)
  obtain m where m: "pointermap_inv plain_kv m" "pm_pairs plain_kv m = {#(5, 6)#}" using one_pair by blast
  have "size (pm_pairs plain_kv m) \<le> 2 ^ 55" unfolding m(2) by simp
  from mulle__map_copy_reset_spec [OF ok m(1) this, of "\<lambda>_ _. 99"] obtain c r where
    "u_mulle__map_copy (\<lambda>_ _. 99) m plain_kv = Some c" "pm_pairs plain_kv c =
       image_mset (\<lambda>(k, v). (kc_retain (kv_key plain_kv) k, vc_retain (kv_value plain_kv) v)) {#(5, 6)#}"
    "u_mulle__map_reset (\<lambda>_ _. 99) m plain_kv = Some r" "pm_pairs plain_kv r = {#}"
    unfolding m(2) by blast
  with m(2) show ?thesis by (intro exI [of _ m] exI [of _ c] exI [of _ r]) simp
qed

section \<open>A lookup of the key that marks free slots\<close>

text \<open>
  \<open>_mulle__pointermap_get\<close> compares the key of a slot with the key it looks for before it compares
  it with \<open>mulle_not_a_pointer\<close>. Asked for \<open>mulle_not_a_pointer\<close> it takes a free slot for a match and
  answers the value beside it, which in fresh storage is what the memory held.
\<close>

theorem mulle__pointermap_get_free_slot:
  "\<exists>m. u_mulle__pointermap_insert (\<lambda>_ _. 99) pointermap_zero 1 2 = Some (m, True) \<and>
     u_mulle__pointermap_get m mulle_not_a_pointer = Some 99 \<and>
     u_mulle__pointermap_get_generic m mulle_not_a_pointer plain_kv = Some 0"
proof -
  have "map_option (\<lambda>(m, ok). (ok, u_mulle__pointermap_get m mulle_not_a_pointer,
      u_mulle__pointermap_get_generic m mulle_not_a_pointer mulle__pointermap_keyvaluecallback))
      (u_mulle__pointermap_insert (\<lambda>_ _. 99) pointermap_zero 1 2) = Some (True, Some 99, Some 0)"
    by code_simp
  then show ?thesis by auto
qed

end
