(* ===== verification/Queue_Interface.thy ===== *)
theory Queue_Interface
  imports Main
begin

text \<open>
  The contract of a first-in first-out queue that the queues of the library share: what a sequence of
  pushes and pops answers on a list, what it answers on a queue with a state, and that the two agree for
  every queue that keeps the contract. \<open>null\<close> is the answer of an empty queue; a push that is refused has
  no result.
\<close>

datatype 'a queue_operation = Push 'a | Pop

fun fifo_run :: "'a \<Rightarrow> 'a list \<Rightarrow> 'a queue_operation list \<Rightarrow> 'a list \<times> 'a list" where
  "fifo_run null xs [] = ([], xs)"
| "fifo_run null xs (Push x # ops) = fifo_run null (xs @ [x]) ops"
| "fifo_run null xs (Pop # ops) =
     (let (outs, ys) = fifo_run null (tl xs) ops in ((case xs of [] \<Rightarrow> null | x # _ \<Rightarrow> x) # outs, ys))"

fun queue_run :: "('a \<Rightarrow> 's \<Rightarrow> 's option) \<Rightarrow> ('s \<Rightarrow> ('s \<times> 'a) option) \<Rightarrow> 's \<Rightarrow>
    'a queue_operation list \<Rightarrow> ('a list \<times> 's) option" where
  "queue_run push pop s [] = Some ([], s)"
| "queue_run push pop s (Push x # ops) = Option.bind (push x s) (\<lambda>s. queue_run push pop s ops)"
| "queue_run push pop s (Pop # ops) =
     Option.bind (pop s) (\<lambda>(s, x). map_option (\<lambda>(outs, s). (x # outs, s)) (queue_run push pop s ops))"

locale fifo_queue =
  fixes rep :: "'s \<Rightarrow> 'a list \<Rightarrow> bool" and push :: "'a \<Rightarrow> 's \<Rightarrow> 's option"
    and pop :: "'s \<Rightarrow> ('s \<times> 'a) option" and null :: 'a
  assumes push_rep: "rep s xs \<Longrightarrow> push x s = Some s' \<Longrightarrow> rep s' (xs @ [x])"
    and pop_rep: "rep s xs \<Longrightarrow> \<exists>s'. pop s = Some (s', case xs of [] \<Rightarrow> null | x # _ \<Rightarrow> x) \<and> rep s' (tl xs)"
begin

lemma run_fifo:
  "rep s xs \<Longrightarrow> queue_run push pop s ops = Some (outs, s') \<Longrightarrow>
     \<exists>ys. fifo_run null xs ops = (outs, ys) \<and> rep s' ys"
proof (induction ops arbitrary: s xs outs)
  case (Cons op ops)
  show ?case
  proof (cases op)
    case (Push x)
    with Cons.prems obtain s1 where "push x s = Some s1" "queue_run push pop s1 ops = Some (outs, s')"
      by (auto split: bind_splits)
    with Cons.IH [OF push_rep [OF Cons.prems(1)]] show ?thesis unfolding Push by simp
  next
    case Pop
    from pop_rep [OF Cons.prems(1)] obtain s1 where s1: "pop s = Some (s1, case xs of [] \<Rightarrow> null | x # _ \<Rightarrow> x)"
      "rep s1 (tl xs)" by blast
    with Cons.prems(2) Pop obtain outs1 where "queue_run push pop s1 ops = Some (outs1, s')"
      "outs = (case xs of [] \<Rightarrow> null | x # _ \<Rightarrow> x) # outs1" by auto
    with Cons.IH [OF s1(2)] show ?thesis unfolding Pop by fastforce
  qed
qed simp

end

end
