(* ===== verification/Pointerqueue.thy ===== *)
theory Pointerqueue
  imports Container_Math Queue_Interface
begin

text \<open>
  The first-in first-out queue of pointers of \<open>mulle--pointerqueue.h\<close> and \<open>mulle--pointerqueue.c\<close>: a
  chain of buckets in the heap, read at its front and written at its end, and a chain of spare buckets
  that are kept for reuse. The heap is explicit, an allocation is a parameter. The representation
  predicate relates a queue and its heap to the list of the queued pointers; it says that the heap
  holds the buckets of the two chains and nothing else, so that no bucket leaks and none is used after
  it was freed.
\<close>

section \<open>Data\<close>

record mulle__pointerqueuebucket =
  qb_next :: pointer
  qb_storage :: "pointer list"

type_synonym bucket_heap = "pointer \<rightharpoonup> mulle__pointerqueuebucket"

record mulle__pointerqueue =
  pq_spares :: pointer
  pq_read :: pointer
  pq_write :: pointer
  pq_count :: size_t
  pq_read_index :: size_t
  pq_write_index :: size_t
  pq_bucket_size :: uint16_t
  pq_spare_allowance :: uint16_t
  pq_n_mutations :: uintptr_t

text \<open>
  \<open>malloc h space\<close> is the address of a block of \<open>space\<close> bytes and what its bytes behind the link hold,
  as pointers; \<open>None\<close> is the failure of the allocator, which ends the program. An access to an address
  that is not in the heap has no result either.
\<close>

type_synonym bucket_malloc = "bucket_heap \<Rightarrow> size_t \<Rightarrow> (pointer \<times> pointer list) option"

definition u_mulle__pointerqueue_init :: "uint16_t \<Rightarrow> uint16_t \<Rightarrow> mulle__pointerqueue" where
  "u_mulle__pointerqueue_init bucket_size spare_allowance =
     (let bucket_size = (if bucket_size = 0 then 64 else bucket_size);
          bucket_size = (if bucket_size \<ge> 4 then bucket_size else 4)
      in \<lparr>pq_spares = 0, pq_read = 0, pq_write = 0, pq_count = 0,
          pq_read_index = ucast bucket_size, pq_write_index = ucast bucket_size,
          pq_bucket_size = bucket_size, pq_spare_allowance = spare_allowance, pq_n_mutations = 0\<rparr>)"

section \<open>Buckets\<close>

definition set_next :: "pointer \<Rightarrow> pointer \<Rightarrow> bucket_heap \<Rightarrow> bucket_heap option" where
  "set_next p nx h = map_option (\<lambda>b. h(p \<mapsto> b\<lparr>qb_next := nx\<rparr>)) (h p)"

definition heap_free :: "pointer \<Rightarrow> bucket_heap \<Rightarrow> bucket_heap option" where
  "heap_free p h = map_option (\<lambda>_. h(p := None)) (h p)"

definition u_mulle__pointerqueue_new_bucket ::
    "bucket_malloc \<Rightarrow> mulle__pointerqueue \<Rightarrow> bucket_heap \<Rightarrow> (pointer \<times> mulle__pointerqueue \<times> bucket_heap) option" where
  "u_mulle__pointerqueue_new_bucket malloc queue h =
     (let p = pq_spares queue
      in if p \<noteq> 0 then do {
           b \<leftarrow> h p;
           let queue = queue\<lparr>pq_spares := qb_next b, pq_spare_allowance := pq_spare_allowance queue + 1\<rparr>;
           h \<leftarrow> set_next p 0 h;
           Some (p, queue, h) }
         else do {
           n \<leftarrow> mulle_allocator_size_multiply (ucast (pq_bucket_size queue)) 8;
           space \<leftarrow> mulle_allocator_size_add (16 - 8) n;
           (p, storage) \<leftarrow> malloc h space;
           Some (p, queue, h(p \<mapsto> \<lparr>qb_next = 0, qb_storage = storage\<rparr>)) })"

definition mulle__pointerqueue_free_bucket ::
    "mulle__pointerqueue \<Rightarrow> pointer \<Rightarrow> bucket_heap \<Rightarrow> (mulle__pointerqueue \<times> bucket_heap) option" where
  "mulle__pointerqueue_free_bucket queue q h =
     (if pq_spare_allowance queue \<noteq> 0 then do {
        h \<leftarrow> set_next q (pq_spares queue) h;
        Some (queue\<lparr>pq_spares := q, pq_spare_allowance := pq_spare_allowance queue - 1\<rparr>, h) }
      else do { h \<leftarrow> heap_free q h; Some (queue, h) })"

definition u_mulle__pointerqueue_grow ::
    "bucket_malloc \<Rightarrow> mulle__pointerqueue \<Rightarrow> bucket_heap \<Rightarrow> (mulle__pointerqueue \<times> bucket_heap) option" where
  "u_mulle__pointerqueue_grow malloc queue h = do {
     (p, queue, h) \<leftarrow> u_mulle__pointerqueue_new_bucket malloc queue h;
     let q = pq_write queue;
     h \<leftarrow> (if q \<noteq> 0 then set_next q p h else Some h);
     let queue = queue\<lparr>pq_write := p, pq_write_index := 0\<rparr>;
     let queue = (if pq_read queue = 0
                  then queue\<lparr>pq_read := pq_write queue, pq_read_index := 0\<rparr> else queue);
     Some (queue\<lparr>pq_n_mutations := pq_n_mutations queue + 1\<rparr>, h) }"

definition u_mulle__pointerqueue_shrink ::
    "mulle__pointerqueue \<Rightarrow> bucket_heap \<Rightarrow> (mulle__pointerqueue \<times> bucket_heap) option" where
  "u_mulle__pointerqueue_shrink queue h =
     (let q = pq_read queue
      in if q = 0 then Some (queue, h)
         else do {
           b \<leftarrow> h q;
           let queue =
             (if qb_next b = 0
              then queue\<lparr>pq_read := 0, pq_write := 0,
                pq_read_index := ucast (pq_bucket_size queue), pq_write_index := ucast (pq_bucket_size queue)\<rparr>
              else queue\<lparr>pq_read := qb_next b, pq_read_index := 0\<rparr>);
           (queue, h) \<leftarrow> mulle__pointerqueue_free_bucket queue q h;
           Some (queue\<lparr>pq_n_mutations := pq_n_mutations queue + 1\<rparr>, h) })"

section \<open>Pushing and popping\<close>

definition u_mulle__pointerqueue_push ::
    "bucket_malloc \<Rightarrow> mulle__pointerqueue \<Rightarrow> pointer \<Rightarrow> bucket_heap \<Rightarrow> (mulle__pointerqueue \<times> bucket_heap) option" where
  "u_mulle__pointerqueue_push malloc queue p h = do {
     (queue, h) \<leftarrow> (if pq_write_index queue \<ge> ucast (pq_bucket_size queue)
                    then u_mulle__pointerqueue_grow malloc queue h else Some (queue, h));
     b \<leftarrow> h (pq_write queue);
     storage \<leftarrow> set_slot (qb_storage b) (pq_write_index queue) p;
     Some (queue\<lparr>pq_count := pq_count queue + 1, pq_write_index := pq_write_index queue + 1,
                  pq_n_mutations := pq_n_mutations queue + 1\<rparr>,
           h(pq_write queue \<mapsto> b\<lparr>qb_storage := storage\<rparr>)) }"

text \<open>The null pointer is the answer of an empty queue.\<close>

definition u_mulle__pointerqueue_pop_noshrink ::
    "mulle__pointerqueue \<Rightarrow> bucket_heap \<Rightarrow> (mulle__pointerqueue \<times> pointer) option" where
  "u_mulle__pointerqueue_pop_noshrink queue h =
     (if pq_read queue = pq_write queue \<and> pq_read_index queue = pq_write_index queue then Some (queue, 0)
      else do {
        b \<leftarrow> h (pq_read queue);
        p \<leftarrow> slot (qb_storage b) (pq_read_index queue);
        Some (queue\<lparr>pq_count := pq_count queue - 1, pq_n_mutations := pq_n_mutations queue + 1,
                     pq_read_index := pq_read_index queue + 1\<rparr>, p) })"

definition u_mulle__pointerqueue_pop ::
    "mulle__pointerqueue \<Rightarrow> bucket_heap \<Rightarrow> (mulle__pointerqueue \<times> bucket_heap \<times> pointer) option" where
  "u_mulle__pointerqueue_pop queue h = do {
     (queue, h) \<leftarrow> (if pq_read_index queue \<ge> ucast (pq_bucket_size queue)
                    then u_mulle__pointerqueue_shrink queue h else Some (queue, h));
     (queue, p) \<leftarrow> u_mulle__pointerqueue_pop_noshrink queue h;
     Some (queue, h, p) }"

definition u_mulle__pointerqueue_get_count :: "mulle__pointerqueue \<Rightarrow> size_t" where
  "u_mulle__pointerqueue_get_count queue = pq_count queue"

definition u_mulle__pointerqueue_get_bucketsize :: "mulle__pointerqueue \<Rightarrow> uint16_t" where
  "u_mulle__pointerqueue_get_bucketsize queue = pq_bucket_size queue"

section \<open>Releasing the buckets\<close>

partial_function (option) free_chained_buckets :: "pointer \<Rightarrow> bucket_heap \<Rightarrow> bucket_heap option" where
  "free_chained_buckets p h =
     (if p = 0 then Some h
      else do {
        b \<leftarrow> h p;
        h \<leftarrow> heap_free p h;
        free_chained_buckets (qb_next b) h })"

declare free_chained_buckets.simps [code]

function pointerqueue_reset_loop ::
    "mulle__pointerqueue \<Rightarrow> bucket_heap \<Rightarrow> (mulle__pointerqueue \<times> bucket_heap) option" where
  "pointerqueue_reset_loop queue h =
     (if pq_spare_allowance queue = 0 then Some (queue, h)
      else let p = pq_read queue
           in if p = 0 then Some (queue, h)
              else do {
                b \<leftarrow> h p;
                let queue = queue\<lparr>pq_read := qb_next b\<rparr>;
                h \<leftarrow> set_next p (pq_spares queue) h;
                pointerqueue_reset_loop
                  (queue\<lparr>pq_spares := p, pq_spare_allowance := pq_spare_allowance queue - 1\<rparr>) h })"
  by pat_completeness auto
termination
  by (relation "measure (\<lambda>(queue, _). unat (pq_spare_allowance queue))")
    (auto simp: unat_minus_one unat_gt_0)

declare pointerqueue_reset_loop.simps [simp del]

definition u_mulle__pointerqueue_reset ::
    "mulle__pointerqueue \<Rightarrow> bucket_heap \<Rightarrow> (mulle__pointerqueue \<times> bucket_heap) option" where
  "u_mulle__pointerqueue_reset queue h = do {
     (queue, h) \<leftarrow> pointerqueue_reset_loop queue h;
     h \<leftarrow> free_chained_buckets (pq_read queue) h;
     Some (queue\<lparr>pq_read := 0, pq_write := 0,
       pq_read_index := ucast (pq_bucket_size queue), pq_write_index := ucast (pq_bucket_size queue),
       pq_count := 0, pq_n_mutations := pq_n_mutations queue + 1\<rparr>, h) }"

definition u_mulle__pointerqueue_done ::
    "mulle__pointerqueue \<Rightarrow> bucket_heap \<Rightarrow> (mulle__pointerqueue \<times> bucket_heap) option" where
  "u_mulle__pointerqueue_done queue h = do {
     h \<leftarrow> free_chained_buckets (pq_read queue) h;
     h \<leftarrow> free_chained_buckets (pq_spares queue) h;
     Some (queue\<lparr>pq_n_mutations := pq_n_mutations queue + 1\<rparr>, h) }"

section \<open>Enumeration\<close>

text \<open>
  The enumerator has the queue it was made from; \<open>None\<close> is the null pointer of the empty enumerator.
  \<open>_mulle__pointerqueueenumerator_next\<close> and \<open>__mulle__pointerqueueenumerator_next\<close> call each other: the
  first is defined with the code of the second in place, the second by its own code over the first.
  A call answers \<open>Some (rover, Some item)\<close> where the code returns 1 and \<open>Some (rover, None)\<close> for 0.
\<close>

record mulle__pointerqueueenumerator =
  qe_queue :: "mulle__pointerqueue option"
  qe_curr :: pointer
  qe_index :: size_t

definition mulle__pointerqueueenumerator_empty :: mulle__pointerqueueenumerator where
  "mulle__pointerqueueenumerator_empty = \<lparr>qe_queue = None, qe_curr = 0, qe_index = 0\<rparr>"

definition u_mulle__pointerqueue_enumerate :: "mulle__pointerqueue \<Rightarrow> mulle__pointerqueueenumerator" where
  "u_mulle__pointerqueue_enumerate queue =
     \<lparr>qe_queue = Some queue, qe_curr = pq_read queue, qe_index = pq_read_index queue\<rparr>"

definition mulle__pointerqueue_enumerate :: "mulle__pointerqueue option \<Rightarrow> mulle__pointerqueueenumerator" where
  "mulle__pointerqueue_enumerate queue =
     (case queue of Some queue \<Rightarrow> u_mulle__pointerqueue_enumerate queue
      | None \<Rightarrow> mulle__pointerqueueenumerator_empty)"

partial_function (option) u_mulle__pointerqueueenumerator_next ::
    "mulle__pointerqueueenumerator \<Rightarrow> bucket_heap \<Rightarrow> (mulle__pointerqueueenumerator \<times> pointer option) option" where
  "u_mulle__pointerqueueenumerator_next rover h =
     (case qe_queue rover of
        None \<Rightarrow> Some (rover, None)
      | Some queue \<Rightarrow>
          let limit = (if qe_curr rover \<noteq> pq_write queue then ucast (pq_bucket_size queue) else pq_write_index queue)
          in if qe_index rover < limit then do {
               b \<leftarrow> h (qe_curr rover);
               item \<leftarrow> slot (qb_storage b) (qe_index rover);
               Some (rover\<lparr>qe_index := qe_index rover + 1\<rparr>, Some item) }
             else if qe_index rover \<noteq> ucast (pq_bucket_size queue) then Some (rover, None)
             else if qe_curr rover = 0 then Some (rover, None)
             else do {
               b \<leftarrow> h (qe_curr rover);
               let rover = rover\<lparr>qe_curr := qb_next b\<rparr>;
               if qe_curr rover = 0 then Some (rover, None)
               else u_mulle__pointerqueueenumerator_next (rover\<lparr>qe_index := 0\<rparr>) h })"

declare u_mulle__pointerqueueenumerator_next.simps [code]

definition uu_mulle__pointerqueueenumerator_next ::
    "mulle__pointerqueueenumerator \<Rightarrow> bucket_heap \<Rightarrow> (mulle__pointerqueueenumerator \<times> pointer option) option" where
  "uu_mulle__pointerqueueenumerator_next rover h = do {
     queue \<leftarrow> qe_queue rover;
     if qe_index rover \<noteq> ucast (pq_bucket_size queue) then Some (rover, None)
     else if qe_curr rover = 0 then Some (rover, None)
     else do {
       b \<leftarrow> h (qe_curr rover);
       let rover = rover\<lparr>qe_curr := qb_next b\<rparr>;
       if qe_curr rover = 0 then Some (rover, None)
       else u_mulle__pointerqueueenumerator_next (rover\<lparr>qe_index := 0\<rparr>) h } }"

text \<open>The items a loop written with \<open>mulle__pointerqueue_for\<close> visits, in their order.\<close>

partial_function (option) pointerqueue_for_loop ::
    "mulle__pointerqueueenumerator \<Rightarrow> bucket_heap \<Rightarrow> pointer list option" where
  "pointerqueue_for_loop rover h =
     Option.bind (u_mulle__pointerqueueenumerator_next rover h) (\<lambda>(rover, r).
       case r of None \<Rightarrow> Some []
       | Some item \<Rightarrow> Option.bind (pointerqueue_for_loop rover h) (\<lambda>items. Some (item # items)))"

declare pointerqueue_for_loop.simps [code]

definition mulle__pointerqueue_for :: "mulle__pointerqueue option \<Rightarrow> bucket_heap \<Rightarrow> pointer list option" where
  "mulle__pointerqueue_for queue h = pointerqueue_for_loop (mulle__pointerqueue_enumerate queue) h"

section \<open>Chains of buckets\<close>

fun bucket_chain :: "bucket_heap \<Rightarrow> pointer \<Rightarrow> pointer list \<Rightarrow> bool" where
  "bucket_chain h p [] = (p = 0)"
| "bucket_chain h p (a # as) =
     (p = a \<and> a \<noteq> 0 \<and> (case h a of None \<Rightarrow> False | Some b \<Rightarrow> bucket_chain h (qb_next b) as))"

definition bucket_storage :: "bucket_heap \<Rightarrow> pointer \<Rightarrow> pointer list" where
  "bucket_storage h a = (case h a of None \<Rightarrow> [] | Some b \<Rightarrow> qb_storage b)"

lemma bucket_storage_upd [simp]:
  "bucket_storage (h(a := x)) c = (if c = a then (case x of None \<Rightarrow> [] | Some b \<Rightarrow> qb_storage b) else bucket_storage h c)"
  by (simp add: bucket_storage_def)

lemma bucket_storage_Some: "h a = Some b \<Longrightarrow> bucket_storage h a = qb_storage b"
  by (simp add: bucket_storage_def)

lemma bucket_chain_upd [simp]: "a \<notin> set ps \<Longrightarrow> bucket_chain (h(a := x)) p ps = bucket_chain h p ps"
  by (induction ps arbitrary: p) (auto split: option.splits)

lemma bucket_chain_same_next:
  "h a = Some b \<Longrightarrow> qb_next c = qb_next b \<Longrightarrow> bucket_chain (h(a \<mapsto> c)) p ps = bucket_chain h p ps"
  by (induction ps arbitrary: p) (auto split: option.splits)

lemma bucket_chain_0 [simp]: "bucket_chain h 0 ps \<longleftrightarrow> ps = []"
  by (cases ps) auto

lemma bucket_chain_null: "bucket_chain h p ps \<Longrightarrow> p = 0 \<longleftrightarrow> ps = []"
  by (cases ps) auto

lemma bucket_chain_in_heap: "bucket_chain h p ps \<Longrightarrow> a \<in> set ps \<Longrightarrow> a \<noteq> 0 \<and> (\<exists>b. h a = Some b)"
  by (induction ps arbitrary: p) (auto split: option.splits)

lemma bucket_chain_Cons:
  assumes "bucket_chain h p ps" and "p \<noteq> 0"
  obtains b as where "ps = p # as" and "h p = Some b" and "bucket_chain h (qb_next b) as"
  using assms by (cases ps) (auto split: option.splits)

lemma bucket_chain_snoc:
  assumes "bucket_chain h p (bl @ [w])" and "h w = Some b" and "distinct (bl @ [w])"
    and "n \<notin> set (bl @ [w])" and "n \<noteq> 0" and "h n = Some c" and "qb_next c = 0"
  shows "bucket_chain (h(w \<mapsto> b\<lparr>qb_next := n\<rparr>)) p (bl @ [w, n])"
  using assms by (induction bl arbitrary: p) (auto split: option.splits)

lemma bucket_chain_last_next:
  "bucket_chain h p (bl @ [w]) \<Longrightarrow> h w = Some b \<Longrightarrow> qb_next b = 0"
  by (induction bl arbitrary: p) (auto split: option.splits)

section \<open>The representation of a queue\<close>

text \<open>
  \<open>rs\<close> are the buckets from the one that is read to the one that is written, \<open>ss\<close> the spare buckets.
  \<open>A\<close> is the number of spare buckets the queue was initialised to keep at most.
\<close>

definition pointerqueue_inv :: "nat \<Rightarrow> mulle__pointerqueue \<Rightarrow> bucket_heap \<Rightarrow> pointer list \<Rightarrow> pointer list \<Rightarrow> bool" where
  "pointerqueue_inv A q h rs ss \<longleftrightarrow>
     bucket_chain h (pq_read q) rs \<and> bucket_chain h (pq_spares q) ss \<and>
     distinct (rs @ ss) \<and> dom h = set (rs @ ss) \<and>
     (\<forall>a b. h a = Some b \<longrightarrow> length (qb_storage b) = unat (pq_bucket_size q)) \<and>
     4 \<le> unat (pq_bucket_size q) \<and> unat (pq_spare_allowance q) + length ss = A \<and> A < 2 ^ 16 \<and>
     (if rs = [] then pq_write q = 0 \<and> pq_read_index q = ucast (pq_bucket_size q) \<and>
        pq_write_index q = ucast (pq_bucket_size q)
      else pq_write q = last rs \<and> unat (pq_read_index q) \<le> unat (pq_bucket_size q) \<and>
        unat (pq_write_index q) \<le> unat (pq_bucket_size q) \<and>
        (length rs = 1 \<longrightarrow> unat (pq_read_index q) \<le> unat (pq_write_index q)))"

definition pointerqueue_items :: "mulle__pointerqueue \<Rightarrow> bucket_heap \<Rightarrow> pointer list \<Rightarrow> pointer list" where
  "pointerqueue_items q h rs =
     (if rs = [] then []
      else drop (unat (pq_read_index q))
        (concat (map (bucket_storage h) (butlast rs)) @
         take (unat (pq_write_index q)) (bucket_storage h (last rs))))"

definition pointerqueue_rep :: "nat \<Rightarrow> mulle__pointerqueue \<Rightarrow> bucket_heap \<Rightarrow> pointer list \<Rightarrow> bool" where
  "pointerqueue_rep A q h xs \<longleftrightarrow>
     (\<exists>rs ss. pointerqueue_inv A q h rs ss \<and> xs = pointerqueue_items q h rs) \<and>
     pq_count q = of_nat (length xs)"

text \<open>What an allocation promises: a fresh block that is not the null pointer, of the size asked for.\<close>

definition malloc_ok :: "bucket_malloc \<Rightarrow> bool" where
  "malloc_ok malloc \<longleftrightarrow>
     (\<forall>h space p storage. malloc h space = Some (p, storage) \<longrightarrow>
        p \<noteq> 0 \<and> h p = None \<and> length storage = (unat space - 8) div 8)"

lemma unat16_bound: "unat (w :: 16 word) < 65536"
  using unsigned_less [of w] by simp

lemma bucket_space:
  fixes w :: "16 word"
  shows "mulle_allocator_size_multiply (ucast w) 8 = Some (8 * ucast w)"
    and "mulle_allocator_size_add 8 (8 * ucast w) = Some (8 + 8 * ucast w)"
    and "unat (8 + 8 * ucast w :: 64 word) = 8 + 8 * unat w"
proof -
  have m: "unat (8 * ucast w :: 64 word) = 8 * unat w"
    using unat16_bound [of w] by (simp add: unat_word_ariths unat_ucast_16_64)
  show u: "unat (8 + 8 * ucast w :: 64 word) = 8 + 8 * unat w"
    using unat16_bound [of w] m by (subst unat64_add) simp_all
  show "mulle_allocator_size_multiply (ucast w) 8 = Some (8 * ucast w)"
    using unat16_bound [of w] by (simp add: size_multiply_eq unat_ucast_16_64 mult.commute)
  show "mulle_allocator_size_add 8 (8 * ucast w) = Some (8 + 8 * ucast w)"
    using u m by (simp add: mulle_allocator_size_add_def word_less_nat_alt)
qed

section \<open>Growing and shrinking\<close>

lemma pointerqueue_new_bucket:
  assumes inv: "pointerqueue_inv A q h rs ss" and ok: "malloc_ok malloc"
    and new: "u_mulle__pointerqueue_new_bucket malloc q h = Some (p, q', h')"
  shows "\<exists>s a ss' st. q' = q\<lparr>pq_spares := s, pq_spare_allowance := a\<rparr> \<and> bucket_chain h' s ss' \<and>
     unat a + length ss' = A \<and> p \<noteq> 0 \<and> distinct (p # rs @ ss') \<and> dom h' = insert p (set (rs @ ss')) \<and>
     h' p = Some \<lparr>qb_next = 0, qb_storage = st\<rparr> \<and> (\<forall>c. c \<noteq> p \<longrightarrow> h' c = h c) \<and>
     length st = unat (pq_bucket_size q)"
proof (cases "pq_spares q = 0")
  case True
  then obtain st where "malloc h (8 + 8 * ucast (pq_bucket_size q)) = Some (p, st)" and q: "q' = q"
    and h': "h' = h(p \<mapsto> \<lparr>qb_next = 0, qb_storage = st\<rparr>)"
    using new by (auto simp: u_mulle__pointerqueue_new_bucket_def bucket_space split: bind_splits)
  then have p: "p \<noteq> 0" "h p = None" "length st = unat (pq_bucket_size q)"
    using ok unfolding malloc_ok_def by (auto simp: bucket_space(3))
  have "ss = []" using inv True by (simp add: pointerqueue_inv_def)
  moreover have "p \<notin> set rs" using inv p(2) by (auto simp: pointerqueue_inv_def)
  ultimately show ?thesis using inv p h' q
    by (intro exI [of _ 0] exI [of _ "pq_spare_allowance q"] exI [of _ "[]"] exI [of _ st])
      (auto simp: pointerqueue_inv_def True)
next
  case False
  with inv obtain b as where ss: "ss = pq_spares q # as" "h (pq_spares q) = Some b" "bucket_chain h (qb_next b) as"
    by (auto simp: pointerqueue_inv_def elim: bucket_chain_Cons)
  with new False have p: "p = pq_spares q"
    and q: "q' = q\<lparr>pq_spares := qb_next b, pq_spare_allowance := pq_spare_allowance q + 1\<rparr>"
    and h': "h' = h(p \<mapsto> b\<lparr>qb_next := 0\<rparr>)"
    by (auto simp: u_mulle__pointerqueue_new_bucket_def Let_def set_next_def split: bind_splits)
  have a: "unat (pq_spare_allowance q + 1) + length as = A"
    using inv ss(1) by (subst unat_word_ariths) (simp add: pointerqueue_inv_def)
  show ?thesis using inv ss a False p q h'
    by (intro exI [of _ "qb_next b"] exI [of _ "pq_spare_allowance q + 1"] exI [of _ as] exI [of _ "qb_storage b"])
      (auto simp: pointerqueue_inv_def)
qed

lemma pointerqueue_items_snoc:
  "pointerqueue_items q h (bl @ [w]) = drop (unat (pq_read_index q))
     (concat (map (bucket_storage h) bl) @ take (unat (pq_write_index q)) (bucket_storage h w))"
  by (simp add: pointerqueue_items_def)

lemma pointerqueue_storage:
  assumes "pointerqueue_inv A q h rs ss" and "a \<in> set rs"
  obtains b where "h a = Some b" and "bucket_storage h a = qb_storage b"
    and "length (qb_storage b) = unat (pq_bucket_size q)"
proof -
  have "bucket_chain h (pq_read q) rs" "\<And>a b. h a = Some b \<Longrightarrow> length (qb_storage b) = unat (pq_bucket_size q)"
    using assms(1) by (auto simp: pointerqueue_inv_def)
  then show ?thesis using that bucket_chain_in_heap [OF _ assms(2)] bucket_storage_Some by blast
qed

lemma pointerqueue_storage_length:
  assumes "pointerqueue_inv A q h rs ss" and "set as \<subseteq> set rs"
  shows "length (concat (map (bucket_storage h) as)) = length as * unat (pq_bucket_size q)"
  using assms(2)
proof (induction as)
  case (Cons a as)
  from Cons.prems have "a \<in> set rs" by simp
  then have "length (bucket_storage h a) = unat (pq_bucket_size q)"
    using pointerqueue_storage [OF assms(1), of a] by metis
  with Cons show ?case by simp
qed simp

lemma pointerqueue_read_in_items:
  assumes inv: "pointerqueue_inv A q h (bl @ [w]) ss"
  shows "unat (pq_read_index q) \<le> length bl * unat (pq_bucket_size q) + unat (pq_write_index q)"
proof (cases bl)
  case Nil
  then show ?thesis using inv by (simp add: pointerqueue_inv_def)
next
  case (Cons b bs)
  then show ?thesis using inv by (simp add: pointerqueue_inv_def)
qed

lemma pointerqueue_grow:
  assumes inv: "pointerqueue_inv A q h rs ss" and ok: "malloc_ok malloc"
    and full: "pq_write_index q = ucast (pq_bucket_size q)"
    and grow: "u_mulle__pointerqueue_grow malloc q h = Some (q', h')"
  shows "\<exists>p ss'. pointerqueue_inv A q' h' (rs @ [p]) ss' \<and> pq_write_index q' = 0 \<and>
    pointerqueue_items q' h' (rs @ [p]) = pointerqueue_items q h rs \<and>
    pq_count q' = pq_count q \<and> pq_bucket_size q' = pq_bucket_size q"
proof -
  obtain p q1 h1 where new: "u_mulle__pointerqueue_new_bucket malloc q h = Some (p, q1, h1)"
    using grow by (auto simp: u_mulle__pointerqueue_grow_def split: bind_splits)
  from pointerqueue_new_bucket [OF inv ok new] obtain s a ss' st where
    q1: "q1 = q\<lparr>pq_spares := s, pq_spare_allowance := a\<rparr>" and
    ss': "bucket_chain h1 s ss'" "unat a + length ss' = A" "distinct (p # rs @ ss')" "p \<noteq> 0"
      "dom h1 = insert p (set (rs @ ss'))" and
    h1: "h1 p = Some \<lparr>qb_next = 0, qb_storage = st\<rparr>" "\<And>c. c \<noteq> p \<Longrightarrow> h1 c = h c"
      "length st = unat (pq_bucket_size q)" by blast
  have len1: "length (qb_storage b) = unat (pq_bucket_size q)" if "h1 c = Some b" for c b
    using that h1 inv by (cases "c = p") (auto simp: pointerqueue_inv_def)
  show ?thesis
  proof (cases rs rule: rev_cases)
    case Nil
    then have w: "pq_write q = 0" "pq_read q = 0" using inv by (simp_all add: pointerqueue_inv_def)
    then have "q' = q1\<lparr>pq_write := p, pq_write_index := 0, pq_read := p, pq_read_index := 0,
        pq_n_mutations := pq_n_mutations q1 + 1\<rparr>" "h' = h1"
      using grow new q1 by (simp_all add: u_mulle__pointerqueue_grow_def Let_def)
    then show ?thesis using inv ss' h1 q1 len1 Nil
      by (intro exI [of _ p] exI [of _ ss']) (auto simp: pointerqueue_inv_def pointerqueue_items_def)
  next
    case (snoc bl w)
    then obtain b where b: "h w = Some b" "bucket_storage h w = qb_storage b"
      "length (qb_storage b) = unat (pq_bucket_size q)"
      using pointerqueue_storage [OF inv, of w] by auto
    have pw: "pq_write q = w" "w \<noteq> 0" "pq_read q \<noteq> 0" "w \<noteq> p"
      using inv snoc ss'(3) bucket_chain_in_heap [of h "pq_read q" rs w] bucket_chain_null [of h "pq_read q" rs]
      by (auto simp: pointerqueue_inv_def)
    have h1w: "h1 w = Some b" using h1(2) pw(4) b(1) by auto
    have q': "q' = q1\<lparr>pq_write := p, pq_write_index := 0, pq_n_mutations := pq_n_mutations q1 + 1\<rparr>"
      "h' = h1(w \<mapsto> b\<lparr>qb_next := p\<rparr>)"
      using grow new q1 pw h1w by (simp_all add: u_mulle__pointerqueue_grow_def Let_def set_next_def)
    have "bucket_chain h1 (pq_read q) rs"
    proof -
      have "h1 = h(p := h1 p)" using h1(2) by auto
      then show ?thesis using inv ss'(3) bucket_chain_upd [of p rs h "h1 p" "pq_read q"]
        by (auto simp: pointerqueue_inv_def)
    qed
    then have "bucket_chain h' (pq_read q) (bl @ [w, p])"
      using h1(1) ss'(3,4) h1w snoc unfolding q'(2) by (intro bucket_chain_snoc) auto
    moreover have "bucket_chain h' s ss'" using ss'(1,3) snoc unfolding q'(2) by auto
    moreover have "dom h' = set ((rs @ [p]) @ ss')" using ss'(5) snoc unfolding q'(2) by auto
    moreover have "length (qb_storage c) = unat (pq_bucket_size q)" if "h' a = Some c" for a c
      using that len1 [of a c] b(3) unfolding q'(2) by (auto split: if_splits)
    ultimately have inv': "pointerqueue_inv A q' h' (rs @ [p]) ss'"
      using inv ss' q' q1 snoc by (auto simp: pointerqueue_inv_def)
    have "bucket_storage h' c = bucket_storage h c" if "c \<in> set rs" for c
    proof -
      have "h1 c = h c" using that ss'(3) by (intro h1(2)) auto
      then show ?thesis using b(1) unfolding q'(2) by (simp add: bucket_storage_def)
    qed
    then have same: "map (bucket_storage h') rs = map (bucket_storage h) rs" by simp
    have "pointerqueue_items q' h' (rs @ [p]) = drop (unat (pq_read_index q)) (concat (map (bucket_storage h) rs))"
      unfolding pointerqueue_items_snoc same using q' q1 by simp
    also have "\<dots> = pointerqueue_items q h rs"
      unfolding snoc pointerqueue_items_snoc using b(2,3) full by (simp add: unat_ucast_16_64)
    finally show ?thesis using inv' q' q1 by auto
  qed
qed

section \<open>Pushing\<close>

lemma concat_map_eq: "(\<And>x. x \<in> set xs \<Longrightarrow> f x = g x) \<Longrightarrow> concat (map f xs) = concat (map g xs)"
  by (simp cong: map_cong)

lemma pointerqueue_store:
  fixes x :: pointer
  assumes inv: "pointerqueue_inv A q h (bl @ [w]) ss" and b: "h w = Some b"
    and room: "unat (pq_write_index q) < unat (pq_bucket_size q)"
  defines "q' \<equiv> q\<lparr>pq_count := pq_count q + 1, pq_write_index := pq_write_index q + 1,
      pq_n_mutations := pq_n_mutations q + 1\<rparr>"
    and "h' \<equiv> h(w \<mapsto> b\<lparr>qb_storage := (qb_storage b)[unat (pq_write_index q) := x]\<rparr>)"
  shows "pointerqueue_inv A q' h' (bl @ [w]) ss"
    and "pointerqueue_items q' h' (bl @ [w]) = pointerqueue_items q h (bl @ [w]) @ [x]"
proof -
  have wi: "unat (pq_write_index q + 1) = Suc (unat (pq_write_index q))"
    using room unat16_bound [of "pq_bucket_size q"] by (simp add: unat64_add)
  have c: "bucket_chain h' p as = bucket_chain h p as" for p as
    unfolding h'_def by (rule bucket_chain_same_next [where b = b]) (simp_all add: b)
  have d: "dom h' = dom h" using b by (auto simp: h'_def)
  have l: "length (qb_storage b') = unat (pq_bucket_size q)" if "h' a = Some b'" for a b'
    using that inv b by (auto simp: h'_def pointerqueue_inv_def split: if_splits)
  show "pointerqueue_inv A q' h' (bl @ [w]) ss"
    using inv c d l room unfolding pointerqueue_inv_def by (auto simp: q'_def wi)
  have w: "w \<notin> set bl" using inv by (simp add: pointerqueue_inv_def)
  have lb: "length (qb_storage b) = unat (pq_bucket_size q)" using inv b by (simp add: pointerqueue_inv_def)
  have "concat (map (bucket_storage h') bl) = concat (map (bucket_storage h) bl)"
    using w by (intro concat_map_eq) (auto simp: h'_def)
  moreover have "take (unat (pq_write_index q + 1)) (bucket_storage h' w) =
      take (unat (pq_write_index q)) (bucket_storage h w) @ [x]"
    using room lb b by (simp add: h'_def wi take_Suc_conv_app_nth bucket_storage_Some)
  moreover have "length (bucket_storage h w) = unat (pq_bucket_size q)" using b lb by (simp add: bucket_storage_Some)
  then have "unat (pq_read_index q) \<le> length (concat (map (bucket_storage h) bl) @
      take (unat (pq_write_index q)) (bucket_storage h w))"
    using pointerqueue_read_in_items [OF inv] pointerqueue_storage_length [OF inv, of bl] room
    by (simp add: subset_insertI)
  ultimately show "pointerqueue_items q' h' (bl @ [w]) = pointerqueue_items q h (bl @ [w]) @ [x]"
    unfolding pointerqueue_items_snoc by (simp add: q'_def)
qed

lemma pointerqueue_push_rep:
  assumes rep: "pointerqueue_rep A q h xs" and ok: "malloc_ok malloc"
    and push: "u_mulle__pointerqueue_push malloc q x h = Some (q', h')"
  shows "pointerqueue_rep A q' h' (xs @ [x])"
proof -
  obtain rs ss where inv: "pointerqueue_inv A q h rs ss" and xs: "xs = pointerqueue_items q h rs"
    and cnt: "pq_count q = of_nat (length xs)" using rep by (auto simp: pointerqueue_rep_def)
  have store: "pointerqueue_rep A q' h' (xs @ [x])"
    if inv: "pointerqueue_inv A q1 h1 (bl @ [w]) ss1" and xs: "xs = pointerqueue_items q1 h1 (bl @ [w])"
      and room: "unat (pq_write_index q1) < unat (pq_bucket_size q1)" and cnt: "pq_count q1 = of_nat (length xs)"
      and eq: "Some (q', h') = do { b \<leftarrow> h1 (pq_write q1);
         storage \<leftarrow> set_slot (qb_storage b) (pq_write_index q1) x;
         Some (q1\<lparr>pq_count := pq_count q1 + 1, pq_write_index := pq_write_index q1 + 1,
                  pq_n_mutations := pq_n_mutations q1 + 1\<rparr>,
           h1(pq_write q1 \<mapsto> b\<lparr>qb_storage := storage\<rparr>)) }" for q1 h1 bl w ss1
  proof -
    have "pq_write q1 = w" using inv by (simp add: pointerqueue_inv_def)
    then obtain b where b: "h1 w = Some b" and eq': "(q', h') = (q1\<lparr>pq_count := pq_count q1 + 1, pq_write_index := pq_write_index q1 + 1,
        pq_n_mutations := pq_n_mutations q1 + 1\<rparr>, h1(w \<mapsto> b\<lparr>qb_storage := (qb_storage b)[unat (pq_write_index q1) := x]\<rparr>))"
      using eq by (auto simp: set_slot_def split: bind_splits if_splits)
    show ?thesis
      using pointerqueue_store [OF inv b room, of x] xs cnt eq' unfolding pointerqueue_rep_def by (auto simp: add.commute)
  qed
  show ?thesis
  proof (cases "pq_write_index q \<ge> ucast (pq_bucket_size q)")
    case True
    then have full: "pq_write_index q = ucast (pq_bucket_size q)"
      using inv by (cases "rs = []") (auto simp: pointerqueue_inv_def word_unat unat_ucast_16_64)
    from True push obtain q1 h1 where grow: "u_mulle__pointerqueue_grow malloc q h = Some (q1, h1)"
      by (auto simp: u_mulle__pointerqueue_push_def split: bind_splits)
    from pointerqueue_grow [OF inv ok full grow] obtain p ss1 where "pointerqueue_inv A q1 h1 (rs @ [p]) ss1"
      "pq_write_index q1 = 0" "pointerqueue_items q1 h1 (rs @ [p]) = xs" "pq_count q1 = pq_count q" "pq_bucket_size q1 = pq_bucket_size q"
      using xs by auto
    moreover from this have "4 \<le> unat (pq_bucket_size q1)" by (simp add: pointerqueue_inv_def)
    ultimately show ?thesis
      using store [of q1 h1 rs p ss1] push True grow cnt by (simp add: u_mulle__pointerqueue_push_def)
  next
    case False
    then have "rs \<noteq> []" using inv by (auto simp: pointerqueue_inv_def)
    then obtain bl w where "rs = bl @ [w]" by (cases rs rule: rev_cases) auto
    then show ?thesis
      using store [of q h bl w ss] push False inv cnt xs
      by (simp add: u_mulle__pointerqueue_push_def word_le_nat_alt unat_ucast_16_64)
  qed
qed

section \<open>Popping\<close>

lemma pointerqueue_shrink:
  assumes inv: "pointerqueue_inv A q h rs ss" and at_end: "pq_read_index q = ucast (pq_bucket_size q)"
  shows "\<exists>q' h' rs' ss'. u_mulle__pointerqueue_shrink q h = Some (q', h') \<and> pointerqueue_inv A q' h' rs' ss' \<and>
    pointerqueue_items q' h' rs' = pointerqueue_items q h rs \<and> pq_count q' = pq_count q \<and>
    pq_bucket_size q' = pq_bucket_size q \<and> (rs' \<noteq> [] \<longrightarrow> unat (pq_read_index q') < unat (pq_bucket_size q'))"
proof (cases rs)
  case Nil
  then have "u_mulle__pointerqueue_shrink q h = Some (q, h)" using inv
    by (simp add: pointerqueue_inv_def u_mulle__pointerqueue_shrink_def)
  then show ?thesis using inv Nil by blast
next
  case (Cons r rs')
  then obtain b where r: "pq_read q = r" "r \<noteq> 0" "h r = Some b" and ch: "bucket_chain h (qb_next b) rs'"
    using inv by (auto simp: pointerqueue_inv_def split: option.splits)
  have lb: "length (qb_storage b) = unat (pq_bucket_size q)" using inv r by (simp add: pointerqueue_inv_def)
  have r': "r \<notin> set rs'" "r \<notin> set ss" using inv Cons by (auto simp: pointerqueue_inv_def)
  have nx: "qb_next b = 0 \<longleftrightarrow> rs' = []" using bucket_chain_null [OF ch] .
  define q1 where "q1 = (if qb_next b = 0
      then q\<lparr>pq_read := 0, pq_write := 0, pq_read_index := ucast (pq_bucket_size q), pq_write_index := ucast (pq_bucket_size q)\<rparr>
      else q\<lparr>pq_read := qb_next b, pq_read_index := 0\<rparr>)"
  have items: "pointerqueue_items q2 h2 rs' = pointerqueue_items q h rs"
    if "pq_read_index q2 = pq_read_index q1" "pq_write_index q2 = pq_write_index q1" "\<And>a. a \<noteq> r \<Longrightarrow> bucket_storage h2 a = bucket_storage h a"
    for q2 h2
  proof (cases rs' rule: rev_cases)
    case Nil
    then show ?thesis using inv Cons at_end r(3)
      by (simp add: pointerqueue_items_def pointerqueue_inv_def unat_ucast_16_64 bucket_storage_Some)
  next
    case (snoc bl w)
    have "concat (map (bucket_storage h2) bl) = concat (map (bucket_storage h) bl)"
      "bucket_storage h2 w = bucket_storage h w"
      using r' snoc by (auto intro!: concat_map_eq that(3))
    moreover have "qb_next b \<noteq> 0" using nx snoc by simp
    ultimately show ?thesis using that(1,2) lb r(3) at_end snoc Cons pointerqueue_items_snoc [of q2 h2 bl w]
        pointerqueue_items_snoc [of q h "r # bl" w]
      by (simp add: q1_def bucket_storage_Some unat_ucast_16_64)
  qed
  define a where "a = pq_spare_allowance q"
  have part: "distinct (rs' @ ss)" "bucket_chain h (pq_read q1) rs'" "pq_spares q1 = pq_spares q"
    "pq_spare_allowance q1 = a" "pq_bucket_size q1 = pq_bucket_size q" "pq_count q1 = pq_count q"
    "if rs' = [] then pq_write q1 = 0 \<and> pq_read_index q1 = ucast (pq_bucket_size q) \<and> pq_write_index q1 = ucast (pq_bucket_size q)
     else pq_write q1 = last rs' \<and> pq_read_index q1 = 0 \<and> unat (pq_write_index q1) \<le> unat (pq_bucket_size q)"
    using inv Cons ch nx by (auto simp: pointerqueue_inv_def q1_def a_def)
  note old = inv [unfolded pointerqueue_inv_def, simplified Cons]
  show ?thesis
  proof (cases "a = 0")
    case True
    let ?q = "q1\<lparr>pq_n_mutations := pq_n_mutations q1 + 1\<rparr>" and ?h = "h(r := None)"
    have "u_mulle__pointerqueue_shrink q h = Some (?q, ?h)"
      using r True part(4) by (simp add: u_mulle__pointerqueue_shrink_def q1_def [symmetric]
        mulle__pointerqueue_free_bucket_def heap_free_def Let_def)
    moreover have "pointerqueue_inv A ?q ?h rs' ss"
      using old part r' True unfolding pointerqueue_inv_def by (auto simp: a_def)
    moreover have "pointerqueue_items ?q ?h rs' = pointerqueue_items q h rs" by (rule items) simp_all
    ultimately show ?thesis using part old by (intro exI [of _ ?q] exI [of _ ?h] exI [of _ rs'] exI [of _ ss]) auto
  next
    case False
    let ?q = "q1\<lparr>pq_spares := r, pq_spare_allowance := a - 1, pq_n_mutations := pq_n_mutations q1 + 1\<rparr>"
      and ?h = "h(r \<mapsto> b\<lparr>qb_next := pq_spares q\<rparr>)"
    have "u_mulle__pointerqueue_shrink q h = Some (?q, ?h)"
      using r False part(3,4) by (simp add: u_mulle__pointerqueue_shrink_def q1_def [symmetric]
        mulle__pointerqueue_free_bucket_def set_next_def Let_def)
    moreover have "unat (a - 1) + length (r # ss) = A"
    proof -
      have "0 < unat a" using False by (simp add: unat_gt_0)
      moreover have "unat a + length ss = A" using old by (simp add: a_def)
      ultimately show ?thesis using False by (simp add: unat_minus_one)
    qed
    then have "pointerqueue_inv A ?q ?h rs' (r # ss)"
      using old part r' r(2) lb unfolding pointerqueue_inv_def by (auto split: if_splits)
    moreover have "pointerqueue_items ?q ?h rs' = pointerqueue_items q h rs" by (rule items) simp_all
    ultimately show ?thesis using part old by (intro exI [of _ ?q] exI [of _ ?h] exI [of _ rs'] exI [of _ "r # ss"]) auto
  qed
qed

lemma pointerqueue_pop_noshrink:
  assumes inv: "pointerqueue_inv A q h rs ss" and cnt: "pq_count q = of_nat (length (pointerqueue_items q h rs))"
    and room: "rs \<noteq> [] \<longrightarrow> unat (pq_read_index q) < unat (pq_bucket_size q)"
  shows "\<exists>q'. u_mulle__pointerqueue_pop_noshrink q h =
      Some (q', case pointerqueue_items q h rs of [] \<Rightarrow> 0 | x # _ \<Rightarrow> x) \<and>
    pointerqueue_rep A q' h (tl (pointerqueue_items q h rs))"
proof (cases rs)
  case Nil
  then have "u_mulle__pointerqueue_pop_noshrink q h = Some (q, 0)" "pointerqueue_items q h rs = []"
    using inv by (simp_all add: u_mulle__pointerqueue_pop_noshrink_def pointerqueue_inv_def pointerqueue_items_def)
  then show ?thesis using inv cnt by (intro exI [of _ q]) (auto simp: pointerqueue_rep_def)
next
  case (Cons r rs')
  let ?L = "\<lambda>q :: mulle__pointerqueue. concat (map (bucket_storage h) (butlast rs)) @
      take (unat (pq_write_index q)) (bucket_storage h (last rs))"
  obtain b where b: "h r = Some b" "bucket_storage h r = qb_storage b" "length (qb_storage b) = unat (pq_bucket_size q)"
    using pointerqueue_storage [OF inv, of r] Cons by auto
  have items: "pointerqueue_items q h rs = drop (unat (pq_read_index q)) (?L q)" for q
    using Cons by (simp add: pointerqueue_items_def)
  have r: "pq_read q = r" "pq_write q = last rs" "distinct rs" using inv Cons by (auto simp: pointerqueue_inv_def)
  have empty: "pq_read q = pq_write q \<and> pq_read_index q = pq_write_index q \<longleftrightarrow> unat (pq_read_index q) = length (?L q)"
  proof (cases rs')
    case Nil
    then show ?thesis using r Cons b(2,3) inv by (auto simp: pointerqueue_inv_def unat_eq_iff)
  next
    case (Cons s ts)
    then have "r \<noteq> last rs" using r(3) \<open>rs = r # rs'\<close> by auto
    moreover have "unat (pq_read_index q) < length (?L q)" using Cons \<open>rs = r # rs'\<close> room b(2,3) by auto
    ultimately show ?thesis using r by simp
  qed
  show ?thesis
  proof (cases "unat (pq_read_index q) = length (?L q)")
    case True
    then have "u_mulle__pointerqueue_pop_noshrink q h = Some (q, 0)" "pointerqueue_items q h rs = []"
      using empty items by (simp_all add: u_mulle__pointerqueue_pop_noshrink_def)
    then show ?thesis using inv cnt by (intro exI [of _ q]) (auto simp: pointerqueue_rep_def)
  next
    case False
    have lt: "unat (pq_read_index q) < length (?L q)"
    proof -
      obtain bl w where rs: "rs = bl @ [w]" using Cons by (metis list.distinct(1) rev_exhaust)
      have "w \<in> set rs" using rs by simp
      then have "length (bucket_storage h w) = unat (pq_bucket_size q)"
        using pointerqueue_storage [OF inv, of w] by metis
      then have "unat (pq_write_index q) \<le> length (bucket_storage h w)"
        using inv rs by (simp add: pointerqueue_inv_def)
      then have "length (?L q) = length bl * unat (pq_bucket_size q) + unat (pq_write_index q)"
        using rs pointerqueue_storage_length [OF inv, of bl] by (simp add: subset_insertI)
      then show ?thesis using pointerqueue_read_in_items [of A q h bl w ss] inv rs False by simp
    qed
    have ri: "unat (pq_read_index q) < unat (pq_bucket_size q)" using room Cons by simp
    have hd: "?L q ! unat (pq_read_index q) = qb_storage b ! unat (pq_read_index q)"
      using lt ri b(2,3) Cons by (cases rs') (simp_all add: nth_append)
    let ?q = "q\<lparr>pq_count := pq_count q - 1, pq_n_mutations := pq_n_mutations q + 1, pq_read_index := pq_read_index q + 1\<rparr>"
    have ri': "unat (pq_read_index q + 1) = Suc (unat (pq_read_index q))"
      using ri unat16_bound [of "pq_bucket_size q"] by (simp add: unat64_add)
    have its: "pointerqueue_items q h rs = qb_storage b ! unat (pq_read_index q) # pointerqueue_items ?q h rs"
      unfolding items using Cons_nth_drop_Suc [OF lt] hd by (simp add: ri')
    have "u_mulle__pointerqueue_pop_noshrink q h = Some (?q, qb_storage b ! unat (pq_read_index q))"
      using empty False r(1) b ri by (auto simp: u_mulle__pointerqueue_pop_noshrink_def slot_def)
    moreover have "pointerqueue_inv A ?q h rs ss"
      using inv ri ri' lt Cons unfolding pointerqueue_inv_def by (cases rs') (auto split: if_splits)
    moreover have "pq_count q = 1 + of_nat (length (pointerqueue_items ?q h rs))" using cnt its by simp
    then have "pq_count q - 1 = of_nat (length (pointerqueue_items ?q h rs))" by (metis add_diff_cancel_left')
    then have "pq_count ?q = of_nat (length (pointerqueue_items ?q h rs))" by simp
    ultimately show ?thesis using its unfolding pointerqueue_rep_def by (intro exI [of _ ?q]) auto
  qed
qed

lemma pointerqueue_pop_rep:
  assumes rep: "pointerqueue_rep A q h xs"
  shows "\<exists>q' h'. u_mulle__pointerqueue_pop q h = Some (q', h', case xs of [] \<Rightarrow> 0 | x # _ \<Rightarrow> x) \<and>
    pointerqueue_rep A q' h' (tl xs)"
proof -
  obtain rs ss where inv: "pointerqueue_inv A q h rs ss" and xs: "xs = pointerqueue_items q h rs"
    and cnt: "pq_count q = of_nat (length xs)" using rep by (auto simp: pointerqueue_rep_def)
  show ?thesis
  proof (cases "pq_read_index q \<ge> ucast (pq_bucket_size q)")
    case True
    then have "pq_read_index q = ucast (pq_bucket_size q)"
      using inv by (cases "rs = []") (auto simp: pointerqueue_inv_def word_unat unat_ucast_16_64)
    from pointerqueue_shrink [OF inv this] obtain q1 h1 rs1 ss1 where
      s: "u_mulle__pointerqueue_shrink q h = Some (q1, h1)" "pointerqueue_inv A q1 h1 rs1 ss1"
        "pointerqueue_items q1 h1 rs1 = xs" "pq_count q1 = pq_count q"
        "rs1 \<noteq> [] \<longrightarrow> unat (pq_read_index q1) < unat (pq_bucket_size q1)" using xs by auto
    have "pq_count q1 = of_nat (length (pointerqueue_items q1 h1 rs1))" using s(3,4) cnt by simp
    from pointerqueue_pop_noshrink [OF s(2) this s(5)] show ?thesis
      using True s(1,3) by (auto simp: u_mulle__pointerqueue_pop_def)
  next
    case False
    then have "rs \<noteq> [] \<longrightarrow> unat (pq_read_index q) < unat (pq_bucket_size q)"
      by (simp add: word_le_nat_alt unat_ucast_16_64)
    from pointerqueue_pop_noshrink [OF inv _ this] cnt xs False show ?thesis
      by (auto simp: u_mulle__pointerqueue_pop_def)
  qed
qed

lemma pointerqueue_init_rep:
  "pointerqueue_rep (unat spare) (u_mulle__pointerqueue_init bucket spare) Map.empty []"
proof -
  let ?b = "if bucket = 0 then 64 else bucket"
  have "4 \<le> unat (if ?b \<ge> 4 then ?b else 4)" by (simp add: word_le_nat_alt)
  then show ?thesis
    using unat16_bound [of spare] unfolding pointerqueue_rep_def
    by (simp add: pointerqueue_inv_def pointerqueue_items_def u_mulle__pointerqueue_init_def Let_def)
qed

text \<open>A push fails only when a bucket has to be allocated and the allocation fails.\<close>

lemma pointerqueue_push_fails:
  assumes inv: "pointerqueue_inv A q h rs ss" and ok: "malloc_ok malloc"
    and none: "u_mulle__pointerqueue_push malloc q x h = None"
  shows "ucast (pq_bucket_size q) \<le> pq_write_index q \<and> ss = [] \<and>
    malloc h (8 + 8 * ucast (pq_bucket_size q)) = None"
proof -
  have stored: "\<exists>b storage. h1 (pq_write q1) = Some b \<and> set_slot (qb_storage b) (pq_write_index q1) x = Some storage"
    if inv: "pointerqueue_inv A q1 h1 rs1 ss1" and "rs1 \<noteq> []" and room: "unat (pq_write_index q1) < unat (pq_bucket_size q1)"
    for q1 h1 rs1 ss1
  proof -
    have "pq_write q1 \<in> set rs1" using inv \<open>rs1 \<noteq> []\<close> by (simp add: pointerqueue_inv_def)
    from pointerqueue_storage [OF inv this] obtain b where "h1 (pq_write q1) = Some b"
      "length (qb_storage b) = unat (pq_bucket_size q1)" by metis
    then show ?thesis using room by (simp add: set_slot_def)
  qed
  show ?thesis
  proof (cases "ucast (pq_bucket_size q) \<le> pq_write_index q")
    case False
    then have "rs \<noteq> []" using inv by (auto simp: pointerqueue_inv_def)
    then show ?thesis using stored [OF inv] False none
      by (auto simp: u_mulle__pointerqueue_push_def word_le_nat_alt unat_ucast_16_64)
  next
    case True
    then have full: "pq_write_index q = ucast (pq_bucket_size q)"
      using inv by (cases "rs = []") (auto simp: pointerqueue_inv_def word_unat unat_ucast_16_64)
    have "u_mulle__pointerqueue_grow malloc q h = None"
    proof (rule ccontr)
      assume "u_mulle__pointerqueue_grow malloc q h \<noteq> None"
      then obtain q1 h1 where grow: "u_mulle__pointerqueue_grow malloc q h = Some (q1, h1)" by auto
      from pointerqueue_grow [OF inv ok full this] obtain p ss1 where
        g: "pointerqueue_inv A q1 h1 (rs @ [p]) ss1" "pq_write_index q1 = 0" by blast
      then have "0 < unat (pq_bucket_size q1)" by (simp add: pointerqueue_inv_def)
      with stored [OF g(1)] g(2) True grow none show False
        by (auto simp: u_mulle__pointerqueue_push_def)
    qed
    then have "u_mulle__pointerqueue_new_bucket malloc q h = None"
    proof (rule contrapos_pp)
      assume "u_mulle__pointerqueue_new_bucket malloc q h \<noteq> None"
      then obtain p q1 h1 where new: "u_mulle__pointerqueue_new_bucket malloc q h = Some (p, q1, h1)" by auto
      from pointerqueue_new_bucket [OF inv ok this] have q1: "pq_write q1 = pq_write q"
        "pq_write q \<noteq> 0 \<Longrightarrow> h1 (pq_write q) \<noteq> None"
        using inv by (auto simp: pointerqueue_inv_def split: if_splits)
      then show "u_mulle__pointerqueue_grow malloc q h \<noteq> None"
        using new by (auto simp: u_mulle__pointerqueue_grow_def set_next_def Let_def)
    qed
    moreover have "pq_spares q = 0 \<longleftrightarrow> ss = []" and "pq_spares q \<noteq> 0 \<Longrightarrow> h (pq_spares q) \<noteq> None"
      using inv by (cases ss; auto simp: pointerqueue_inv_def split: option.splits)+
    ultimately show ?thesis using True
      by (auto simp: u_mulle__pointerqueue_new_bucket_def bucket_space set_next_def Let_def split: if_splits bind_splits)
  qed
qed

section \<open>Releasing\<close>

lemma free_chained_buckets_chain:
  "bucket_chain h p ps \<Longrightarrow> distinct ps \<Longrightarrow> free_chained_buckets p h = Some (h |` (- set ps))"
proof (induction ps arbitrary: p h)
  case Nil
  then show ?case by (subst free_chained_buckets.simps) (simp add: restrict_map_def)
next
  case (Cons a as)
  then obtain b where a: "p = a" "a \<noteq> 0" "h a = Some b" "bucket_chain h (qb_next b) as"
    by (auto split: option.splits)
  have "free_chained_buckets (qb_next b) (h(a := None)) = Some (h(a := None) |` (- set as))"
  proof (rule Cons.IH)
    show "bucket_chain (h(a := None)) (qb_next b) as" using a(4) Cons.prems(2) by (subst bucket_chain_upd) auto
  qed (use Cons.prems in simp)
  moreover have "h(a := None) |` (- set as) = h |` (- set (a # as))"
    by (auto simp: restrict_map_def fun_eq_iff)
  ultimately show ?case using a by (subst free_chained_buckets.simps) (simp add: heap_free_def)
qed

lemma pointerqueue_reset_loop_rep:
  assumes "bucket_chain h (pq_read q) rs" "bucket_chain h (pq_spares q) ss" "distinct (rs @ ss)" "dom h = set (rs @ ss)"
    and "\<forall>a b. h a = Some b \<longrightarrow> length (qb_storage b) = n" "unat (pq_spare_allowance q) + length ss = A"
  shows "\<exists>q' h' rs' ss'. pointerqueue_reset_loop q h = Some (q', h') \<and>
    bucket_chain h' (pq_read q') rs' \<and> bucket_chain h' (pq_spares q') ss' \<and> distinct (rs' @ ss') \<and>
    dom h' = set (rs' @ ss') \<and> (\<forall>a b. h' a = Some b \<longrightarrow> length (qb_storage b) = n) \<and>
    unat (pq_spare_allowance q') + length ss' = A \<and> (pq_spare_allowance q' = 0 \<or> rs' = []) \<and>
    pq_bucket_size q' = pq_bucket_size q"
  using assms
proof (induction rs arbitrary: q h ss)
  case Nil
  then have "pointerqueue_reset_loop q h = Some (q, h)" by (subst pointerqueue_reset_loop.simps) simp
  with Nil show ?case by blast
next
  case (Cons r rs)
  show ?case
  proof (cases "pq_spare_allowance q = 0")
    case True
    then have "pointerqueue_reset_loop q h = Some (q, h)" by (subst pointerqueue_reset_loop.simps) simp
    with Cons.prems True show ?thesis by blast
  next
    case False
    from Cons.prems(1) obtain b where b: "pq_read q = r" "r \<noteq> 0" "h r = Some b" "bucket_chain h (qb_next b) rs"
      by (auto split: option.splits)
    let ?q = "q\<lparr>pq_read := qb_next b, pq_spares := r, pq_spare_allowance := pq_spare_allowance q - 1\<rparr>"
      and ?h = "h(r \<mapsto> b\<lparr>qb_next := pq_spares q\<rparr>)"
    have "pointerqueue_reset_loop q h = pointerqueue_reset_loop ?q ?h"
      using b False by (subst pointerqueue_reset_loop.simps) (simp add: set_next_def Let_def)
    moreover have "0 < unat (pq_spare_allowance q)" using False by (simp add: unat_gt_0)
    then have "unat (pq_spare_allowance ?q) + length (r # ss) = A"
      using Cons.prems(6) False by (simp add: unat_minus_one)
    moreover have "bucket_chain ?h (pq_read ?q) rs" "bucket_chain ?h (pq_spares ?q) (r # ss)" "distinct (rs @ r # ss)"
      "dom ?h = set (rs @ r # ss)" "\<forall>a b. ?h a = Some b \<longrightarrow> length (qb_storage b) = n"
      using Cons.prems b by auto
    moreover have "pq_bucket_size ?q = pq_bucket_size q" by simp
    ultimately show ?thesis using Cons.IH [of ?h ?q "r # ss"] by presburger
  qed
qed

lemma pointerqueue_reset_rep:
  assumes rep: "pointerqueue_rep A q h xs"
  shows "\<exists>q' h'. u_mulle__pointerqueue_reset q h = Some (q', h') \<and> pointerqueue_rep A q' h' [] \<and> card (dom h') \<le> A"
proof -
  obtain rs ss where inv: "pointerqueue_inv A q h rs ss" using rep by (auto simp: pointerqueue_rep_def)
  then obtain q1 h1 rs1 ss1 where r: "pointerqueue_reset_loop q h = Some (q1, h1)"
    "bucket_chain h1 (pq_read q1) rs1" "bucket_chain h1 (pq_spares q1) ss1" "distinct (rs1 @ ss1)"
    "dom h1 = set (rs1 @ ss1)" "\<forall>a b. h1 a = Some b \<longrightarrow> length (qb_storage b) = unat (pq_bucket_size q)"
    "unat (pq_spare_allowance q1) + length ss1 = A" "pq_bucket_size q1 = pq_bucket_size q"
    using pointerqueue_reset_loop_rep [of h q rs ss] unfolding pointerqueue_inv_def by blast
  let ?h = "h1 |` (- set rs1)"
  let ?q = "q1\<lparr>pq_read := 0, pq_write := 0, pq_read_index := ucast (pq_bucket_size q1),
      pq_write_index := ucast (pq_bucket_size q1), pq_count := 0, pq_n_mutations := pq_n_mutations q1 + 1\<rparr>"
  have res: "u_mulle__pointerqueue_reset q h = Some (?q, ?h)"
    using r free_chained_buckets_chain [OF r(2)] by (simp add: u_mulle__pointerqueue_reset_def)
  have chain: "bucket_chain ?h p as" if "bucket_chain h1 p as" "set as \<inter> set rs1 = {}" for p as
    using that by (induction as arbitrary: p) (auto split: option.splits)
  have dom: "dom ?h = set ss1" using r(4,5) by auto
  have "bucket_chain ?h (pq_spares q1) ss1" using chain [OF r(3)] r(4) by auto
  then have "pointerqueue_inv A ?q ?h [] ss1"
    using inv r(4,6,7,8) dom unfolding pointerqueue_inv_def by (auto simp: restrict_map_def split: if_splits)
  then have "pointerqueue_rep A ?q ?h []"
    unfolding pointerqueue_rep_def by (auto simp: pointerqueue_items_def)
  moreover have "card (dom ?h) \<le> A" unfolding dom using r(4,7) by (simp add: distinct_card)
  ultimately show ?thesis using res by blast
qed

lemma pointerqueue_done_rep:
  assumes rep: "pointerqueue_rep A q h xs"
  shows "\<exists>q'. u_mulle__pointerqueue_done q h = Some (q', Map.empty)"
proof -
  obtain rs ss where inv: "pointerqueue_inv A q h rs ss" using rep by (auto simp: pointerqueue_rep_def)
  then have c: "bucket_chain h (pq_read q) rs" "bucket_chain h (pq_spares q) ss" "distinct (rs @ ss)" "dom h = set (rs @ ss)"
    by (auto simp: pointerqueue_inv_def)
  have "bucket_chain (h |` (- set rs)) p as" if "bucket_chain h p as" "set as \<inter> set rs = {}" for p as
    using that by (induction as arbitrary: p) (auto split: option.splits)
  then have "bucket_chain (h |` (- set rs)) (pq_spares q) ss" using c by auto
  then have "free_chained_buckets (pq_spares q) (h |` (- set rs)) = Some (h |` (- set rs) |` (- set ss))"
    using c(3) by (intro free_chained_buckets_chain) auto
  moreover have "h |` (- set rs) |` (- set ss) = Map.empty"
    using c(4) by (auto simp: restrict_map_def fun_eq_iff)
  ultimately show ?thesis
    using free_chained_buckets_chain [OF c(1)] c(3) by (simp add: u_mulle__pointerqueue_done_def)
qed

section \<open>Enumerating\<close>

lemma pointerqueue_for_loop_step:
  assumes "u_mulle__pointerqueueenumerator_next rover h = Some (rover', r)"
  shows "pointerqueue_for_loop rover h =
    (case r of None \<Rightarrow> Some [] | Some item \<Rightarrow> map_option ((#) item) (pointerqueue_for_loop rover' h))"
  by (subst pointerqueue_for_loop.simps, cases "pointerqueue_for_loop rover' h")
    (auto simp: assms split: option.splits)

text \<open>The items of one bucket, up to its limit.\<close>

lemma pointerqueue_for_bucket:
  assumes b: "h a = Some b" and lim: "unat limit \<le> length (qb_storage b)"
    and limit: "limit = (if a \<noteq> pq_write q then ucast (pq_bucket_size q) else pq_write_index q)"
    and len: "length (qb_storage b) = unat (pq_bucket_size q)" and idx: "unat idx \<le> unat limit"
  shows "pointerqueue_for_loop \<lparr>qe_queue = Some q, qe_curr = a, qe_index = idx\<rparr> h =
    map_option ((@) (drop (unat idx) (take (unat limit) (qb_storage b))))
      (pointerqueue_for_loop \<lparr>qe_queue = Some q, qe_curr = a, qe_index = limit\<rparr> h)"
  using idx
proof (induction "unat limit - unat idx" arbitrary: idx)
  case 0
  then have "idx = limit" by (simp add: unat_eq_iff)
  then show ?case by (simp add: option.map_id0 [unfolded id_def])
next
  case (Suc n)
  then have lt: "unat idx < unat limit" by simp
  then have i1: "unat (idx + 1) = Suc (unat idx)"
    using lim len unat16_bound [of "pq_bucket_size q"] by (subst unat64_add) simp_all
  have "u_mulle__pointerqueueenumerator_next \<lparr>qe_queue = Some q, qe_curr = a, qe_index = idx\<rparr> h =
      Some (\<lparr>qe_queue = Some q, qe_curr = a, qe_index = idx + 1\<rparr>, Some (qb_storage b ! unat idx))"
    using b lt lim limit [symmetric] by (subst u_mulle__pointerqueueenumerator_next.simps)
      (simp add: slot_def word_less_nat_alt)
  moreover have "drop (unat idx) (take (unat limit) (qb_storage b)) =
      qb_storage b ! unat idx # drop (Suc (unat idx)) (take (unat limit) (qb_storage b))"
    using lt lim Cons_nth_drop_Suc [of "unat idx" "take (unat limit) (qb_storage b)"] by simp
  ultimately show ?case using pointerqueue_for_loop_step Suc.hyps(1) [of "idx + 1"] Suc.hyps(2) lt
    by (cases "pointerqueue_for_loop \<lparr>qe_queue = Some q, qe_curr = a, qe_index = limit\<rparr> h")
      (simp_all add: i1 del: drop_take)
qed

lemma pointerqueue_for_chain:
  assumes "bucket_chain h c rs" and "rs \<noteq> []" and "last rs = pq_write q" and "distinct rs"
    and "\<forall>a b. h a = Some b \<longrightarrow> length (qb_storage b) = unat (pq_bucket_size q)"
    and "unat (pq_write_index q) \<le> unat (pq_bucket_size q)" and "unat idx \<le> unat (pq_bucket_size q)"
    and "length rs = 1 \<longrightarrow> unat idx \<le> unat (pq_write_index q)"
  shows "pointerqueue_for_loop \<lparr>qe_queue = Some q, qe_curr = c, qe_index = idx\<rparr> h =
    Some (drop (unat idx) (concat (map (bucket_storage h) (butlast rs)) @
      take (unat (pq_write_index q)) (bucket_storage h (last rs))))"
  using assms
proof (induction rs arbitrary: c idx)
  case (Cons a as)
  then obtain b where b: "c = a" "a \<noteq> 0" "h a = Some b" "bucket_chain h (qb_next b) as"
    "length (qb_storage b) = unat (pq_bucket_size q)" by (auto split: option.splits)
  show ?case
  proof (cases as)
    case Nil
    then have w: "a = pq_write q" and nx: "qb_next b = 0" using Cons.prems(3) b(4) by simp_all
    have "u_mulle__pointerqueueenumerator_next \<lparr>qe_queue = Some q, qe_curr = a, qe_index = pq_write_index q\<rparr> h =
        Some (\<lparr>qe_queue = Some q, qe_curr = if pq_write_index q = ucast (pq_bucket_size q) then 0 else a,
               qe_index = pq_write_index q\<rparr>, None)"
      using w b nx by (subst u_mulle__pointerqueueenumerator_next.simps) simp
    from pointerqueue_for_loop_step [OF this]
    show ?thesis using Nil w b Cons.prems pointerqueue_for_bucket [of h a b "pq_write_index q" q idx]
      by (simp add: bucket_storage_Some)
  next
    case (Cons d ds)
    then have "as \<noteq> []" by simp
    then have "last as \<in> set as" by (rule last_in_set)
    moreover have "last as = pq_write q" using Cons.prems(3) \<open>as \<noteq> []\<close> by simp
    ultimately have w: "a \<noteq> pq_write q" using \<open>distinct (a # as)\<close> by auto
    have nx: "qb_next b = d" "d \<noteq> 0" using b(4) Cons by (auto split: option.splits)
    have step: "u_mulle__pointerqueueenumerator_next \<lparr>qe_queue = Some q, qe_curr = a, qe_index = ucast (pq_bucket_size q)\<rparr> h =
        u_mulle__pointerqueueenumerator_next \<lparr>qe_queue = Some q, qe_curr = d, qe_index = 0\<rparr> h"
      using w b nx by (subst u_mulle__pointerqueueenumerator_next.simps) simp
    have "pointerqueue_for_loop \<lparr>qe_queue = Some q, qe_curr = a, qe_index = ucast (pq_bucket_size q)\<rparr> h =
        pointerqueue_for_loop \<lparr>qe_queue = Some q, qe_curr = d, qe_index = 0\<rparr> h"
      by (subst (1 2) pointerqueue_for_loop.simps) (simp only: step)
    also have "\<dots> = Some (concat (map (bucket_storage h) (butlast as)) @
        take (unat (pq_write_index q)) (bucket_storage h (last as)))"
      using Cons.IH [of d 0] Cons.prems b(4) nx Cons by simp
    finally show ?thesis
      using pointerqueue_for_bucket [of h a b "ucast (pq_bucket_size q)" q idx] w b Cons.prems(7) Cons
      by (simp add: unat_ucast_16_64 bucket_storage_Some)
  qed
qed simp

lemma pointerqueue_for_rep:
  assumes rep: "pointerqueue_rep A q h xs"
  shows "mulle__pointerqueue_for (Some q) h = Some xs"
proof -
  obtain rs ss where inv: "pointerqueue_inv A q h rs ss" and xs: "xs = pointerqueue_items q h rs"
    using rep by (auto simp: pointerqueue_rep_def)
  show ?thesis
  proof (cases "rs = []")
    case True
    then have "u_mulle__pointerqueueenumerator_next \<lparr>qe_queue = Some q, qe_curr = pq_read q, qe_index = pq_read_index q\<rparr> h =
        Some (\<lparr>qe_queue = Some q, qe_curr = pq_read q, qe_index = pq_read_index q\<rparr>, None)"
      using inv by (subst u_mulle__pointerqueueenumerator_next.simps) (simp add: pointerqueue_inv_def)
    from pointerqueue_for_loop_step [OF this] show ?thesis using True xs
      by (simp add: mulle__pointerqueue_for_def mulle__pointerqueue_enumerate_def u_mulle__pointerqueue_enumerate_def
          pointerqueue_items_def)
  next
    case False
    with inv xs show ?thesis
      unfolding mulle__pointerqueue_for_def mulle__pointerqueue_enumerate_def u_mulle__pointerqueue_enumerate_def option.case
      by (subst pointerqueue_for_chain [of h "pq_read q" rs]) (auto simp: pointerqueue_inv_def pointerqueue_items_def)
  qed
qed

lemma pointerqueue_rep_count: "pointerqueue_rep A q h xs \<Longrightarrow> pq_count q = of_nat (length xs)"
  by (simp add: pointerqueue_rep_def)

section \<open>The queue interface\<close>

interpretation pointerqueue: fifo_queue
  "\<lambda>(q, h) xs. malloc_ok malloc \<and> pointerqueue_rep A q h xs"
  "\<lambda>x (q, h). u_mulle__pointerqueue_push malloc q x h"
  "\<lambda>(q, h). map_option (\<lambda>(q, h, x). ((q, h), x)) (u_mulle__pointerqueue_pop q h)"
  "0"
  for malloc A
proof (unfold_locales, goal_cases)
  case (1 s xs x s')
  then show ?case by (auto intro: pointerqueue_push_rep split: prod.splits)
next
  case (2 s xs)
  obtain q h where s: "s = (q, h)" by (cases s)
  with 2 have "pointerqueue_rep A q h xs" by simp
  from pointerqueue_pop_rep [OF this] obtain q' h' where
    "u_mulle__pointerqueue_pop q h = Some (q', h', case xs of [] \<Rightarrow> 0 | x # _ \<Rightarrow> x)"
    "pointerqueue_rep A q' h' (tl xs)" by blast
  with 2 s show ?case by auto
qed

section \<open>Properties\<close>

text \<open>
  C18. The queue is a first-in first-out queue. Whatever sequence of pushes and pops a program performs on
  an initialised queue, with whatever bucket size and number of spare buckets, the pops answer what they
  answer on a list, null when it is empty. Afterwards the count is the number of queued pointers (as a
  \<open>size_t\<close>), the loop macro visits exactly these in their order, \<open>_mulle__pointerqueue_done\<close> frees every
  bucket exactly once, and \<open>_mulle__pointerqueue_reset\<close> empties the queue and keeps at most as many buckets
  as the allowance for spare ones.
\<close>

theorem mulle__pointerqueue_fifo_spec:
  assumes "malloc_ok malloc"
    and "queue_run (\<lambda>x (q, h). u_mulle__pointerqueue_push malloc q x h)
      (\<lambda>(q, h). map_option (\<lambda>(q, h, x). ((q, h), x)) (u_mulle__pointerqueue_pop q h))
      (u_mulle__pointerqueue_init bucket_size spare_allowance, Map.empty) ops = Some (outs, q, h)"
  shows "\<exists>ys. fifo_run 0 [] ops = (outs, ys) \<and> u_mulle__pointerqueue_get_count q = of_nat (length ys) \<and>
    mulle__pointerqueue_for (Some q) h = Some ys \<and>
    (\<exists>q'. u_mulle__pointerqueue_done q h = Some (q', Map.empty)) \<and>
    (\<exists>q' h'. u_mulle__pointerqueue_reset q h = Some (q', h') \<and> u_mulle__pointerqueue_get_count q' = 0 \<and>
      mulle__pointerqueue_for (Some q') h' = Some [] \<and> card (dom h') \<le> unat spare_allowance)"
proof -
  from pointerqueue.run_fifo [OF _ assms(2), of "unat spare_allowance" "[]"] assms(1) pointerqueue_init_rep
  obtain ys where ys: "fifo_run 0 [] ops = (outs, ys)" and rep: "pointerqueue_rep (unat spare_allowance) q h ys"
    by auto
  from pointerqueue_reset_rep [OF rep] obtain q' h' where "u_mulle__pointerqueue_reset q h = Some (q', h')"
    "pointerqueue_rep (unat spare_allowance) q' h' []" "card (dom h') \<le> unat spare_allowance" by blast
  moreover from this have "mulle__pointerqueue_for (Some q') h' = Some []" "pq_count q' = 0"
    using pointerqueue_for_rep pointerqueue_rep_count [of _ q' h' "[]"] by fastforce+
  moreover note pointerqueue_for_rep [OF rep] pointerqueue_rep_count [OF rep]
  ultimately show ?thesis
    using ys pointerqueue_done_rep [OF rep] by (auto simp: u_mulle__pointerqueue_get_count_def)
qed

definition first_block :: bucket_malloc where
  "first_block h space =
     (if h 8 = None then Some (8, replicate ((unat space - 8) div 8) 0) else None)"

lemma first_block_ok: "malloc_ok first_block"
  by (simp add: malloc_ok_def first_block_def)

theorem mulle__pointerqueue_fifo_spec_witness:
  "\<exists>q h. queue_run (\<lambda>x (q, h). u_mulle__pointerqueue_push first_block q x h)
      (\<lambda>(q, h). map_option (\<lambda>(q, h, x). ((q, h), x)) (u_mulle__pointerqueue_pop q h))
      (u_mulle__pointerqueue_init 4 1, Map.empty) [Push 5, Push 6, Pop, Pop, Pop] = Some ([5, 6, 0], q, h) \<and>
    (\<exists>q'. u_mulle__pointerqueue_done q h = Some (q', Map.empty))"
proof -
  let ?run = "queue_run (\<lambda>x (q, h). u_mulle__pointerqueue_push first_block q x h)
      (\<lambda>(q, h). map_option (\<lambda>(q, h, x). ((q, h), x)) (u_mulle__pointerqueue_pop q h))
      (u_mulle__pointerqueue_init 4 1, Map.empty) [Push 5, Push 6, Pop, Pop, Pop]"
  have "map_option fst ?run = Some [5, 6, 0]" by code_simp
  then obtain r where r: "?run = Some r" "fst r = [5, 6, 0]" by (cases ?run) (simp_all del: queue_run.simps)
  obtain q h where "snd r = (q, h)" by (rule prod.exhaust)
  with r have "?run = Some ([5, 6, 0], q, h)" by (cases r) simp
  with mulle__pointerqueue_fifo_spec [OF first_block_ok this] show ?thesis by blast
qed

text \<open>
  C19. A push onto a queue that holds \<open>xs\<close> ends the program only when the last bucket is full, no spare
  bucket is left and the allocator has no memory for a new one; it never touches memory outside of the
  buckets. A pop always returns, without an allocation.
\<close>

theorem mulle__pointerqueue_push_spec:
  assumes "malloc_ok malloc" and "pointerqueue_rep A q h xs"
  shows "(case u_mulle__pointerqueue_push malloc q x h of
      None \<Rightarrow> ucast (pq_bucket_size q) \<le> pq_write_index q \<and> pq_spares q = 0 \<and>
        malloc h (8 + 8 * ucast (pq_bucket_size q)) = None
    | Some (q', h') \<Rightarrow> pointerqueue_rep A q' h' (xs @ [x])) \<and>
    (\<exists>q' h'. u_mulle__pointerqueue_pop q h = Some (q', h', case xs of [] \<Rightarrow> 0 | x # _ \<Rightarrow> x) \<and>
      pointerqueue_rep A q' h' (tl xs))"
proof -
  obtain rs ss where inv: "pointerqueue_inv A q h rs ss" using assms(2) by (auto simp: pointerqueue_rep_def)
  then have "ss = [] \<Longrightarrow> pq_spares q = 0" by (simp add: pointerqueue_inv_def)
  with pointerqueue_push_fails [OF inv assms(1), of x] pointerqueue_push_rep [OF assms(2,1), of x]
    pointerqueue_pop_rep [OF assms(2)] show ?thesis by (auto split: option.splits)
qed

theorem mulle__pointerqueue_push_spec_witness:
  "u_mulle__pointerqueue_push (\<lambda>_ _. None) (u_mulle__pointerqueue_init 4 0) 5 Map.empty = None \<and>
   pq_spares (u_mulle__pointerqueue_init 4 0) = 0"
proof -
  have "malloc_ok (\<lambda>_ _. None)" by (simp add: malloc_ok_def)
  moreover have "u_mulle__pointerqueue_push (\<lambda>_ _. None) (u_mulle__pointerqueue_init 4 0) 5 Map.empty = None"
    by code_simp
  ultimately show ?thesis
    using mulle__pointerqueue_push_spec [OF _ pointerqueue_init_rep [of 0 4], of "\<lambda>_ _. None" 5] by simp
qed

end
