(* ===== verification/Multififo.thy ===== *)
theory Multififo
  imports Mulle_Prelude Operation_Sequence
begin

text \<open>
  The bounded queues for many producers and many consumers of \<open>mulle-multififo\<close>. The lock-free one,
  \<open>mulle-pointermultififo.c\<close>, is a step relation: every thread is at some point of the code of a call,
  and a step is one atomic access of one thread (the atomic operations are sequentially consistent).
  The queue with a mutex, \<open>mulle-lockingpointermultififo.c\<close>, runs each operation as a whole.
\<close>

section \<open>The lock-free queue\<close>

record mulle_pointermultififo =
  mf_read :: uintptr_t
  mf_write :: uintptr_t
  mf_size :: uint32_t
  mf_storage :: "pointer list"

definition NOTYET :: pointer where
  "NOTYET = -1"

definition u_mulle_pointermultififo_init :: "uint32_t \<Rightarrow> mulle_pointermultififo" where
  "u_mulle_pointermultififo_init sz =
     \<lparr>mf_read = 0, mf_write = 0, mf_size = sz, mf_storage = replicate (unat sz) 0\<rparr>"

text \<open>
  \<open>i = (unsigned int) a_i % p->size\<close>: the cast binds before the remainder.
\<close>

definition multififo_index :: "mulle_pointermultififo \<Rightarrow> uintptr_t \<Rightarrow> size_t" where
  "multififo_index f a = ucast (ucast a mod mf_size f)"

text \<open>
  \<open>__mulle_atomic_pointer_cas( &p->storage[ i], new, expected)\<close> answers the value it found and stores
  \<open>new\<close> when that is the expected one.
\<close>

definition cas_storage :: "size_t \<Rightarrow> pointer \<Rightarrow> pointer \<Rightarrow> mulle_pointermultififo \<Rightarrow> (pointer \<times> mulle_pointermultififo) option" where
  "cas_storage i new expected f = do {
     actual \<leftarrow> slot (mf_storage f) i;
     if actual = expected then do {
       st \<leftarrow> set_slot (mf_storage f) i new;
       Some (actual, f\<lparr>mf_storage := st\<rparr>) }
     else Some (actual, f) }"

definition cas_read :: "uintptr_t \<Rightarrow> uintptr_t \<Rightarrow> mulle_pointermultififo \<Rightarrow> uintptr_t \<times> mulle_pointermultififo" where
  "cas_read new expected f = (mf_read f, if mf_read f = expected then f\<lparr>mf_read := new\<rparr> else f)"

definition cas_write :: "uintptr_t \<Rightarrow> uintptr_t \<Rightarrow> mulle_pointermultififo \<Rightarrow> uintptr_t \<times> mulle_pointermultififo" where
  "cas_write new expected f = (mf_write f, if mf_write f = expected then f\<lparr>mf_write := new\<rparr> else f)"

subsection \<open>Reading\<close>

text \<open>
  The points of a call of \<open>_mulle_pointermultififo_read_barrier\<close>, each before its next atomic access:
  at the head of the loop, with \<open>a_i\<close> read, with \<open>pointer\<close> read, with the slot taken, with the read
  index not advanced (the slot is given back), with the read index advanced (the slot is cleared), and
  at the return. The counter \<open>loops\<close> only decides how often a thread yields between two attempts.
\<close>

datatype reader =
    Read_begin
  | Read_slot uintptr_t
  | Read_take uintptr_t pointer
  | Read_advance uintptr_t pointer
  | Read_undo uintptr_t pointer
  | Read_clear uintptr_t pointer
  | Read_return pointer

fun u_mulle_pointermultififo_read_barrier ::
    "reader \<Rightarrow> mulle_pointermultififo \<Rightarrow> (reader \<times> mulle_pointermultififo) option" where
  "u_mulle_pointermultififo_read_barrier Read_begin f = Some (Read_slot (mf_read f), f)"
| "u_mulle_pointermultififo_read_barrier (Read_slot a) f = do {
     p \<leftarrow> slot (mf_storage f) (multififo_index f a);
     Some (if p = 0 then Read_return 0 else if p = NOTYET then Read_begin else Read_take a p, f) }"
| "u_mulle_pointermultififo_read_barrier (Read_take a p) f = do {
     (actual, f) \<leftarrow> cas_storage (multififo_index f a) NOTYET p f;
     Some (if actual \<noteq> p then Read_begin else Read_advance a p, f) }"
| "u_mulle_pointermultififo_read_barrier (Read_advance a p) f =
     (let (actual, f) = cas_read (a + 1) a f
      in Some (if actual \<noteq> a then Read_undo a p else Read_clear a p, f))"
| "u_mulle_pointermultififo_read_barrier (Read_undo a p) f = do {
     (actual, f) \<leftarrow> cas_storage (multififo_index f a) p NOTYET f;
     Some (if actual = NOTYET then Read_begin else Read_undo a p, f) }"
| "u_mulle_pointermultififo_read_barrier (Read_clear a p) f = do {
     (actual, f) \<leftarrow> cas_storage (multififo_index f a) 0 NOTYET f;
     Some (if actual = NOTYET then Read_return p else Read_clear a p, f) }"
| "u_mulle_pointermultififo_read_barrier (Read_return p) f = None"

subsection \<open>Writing\<close>

datatype errno = EINVAL | EBUSY

datatype writer =
    Write_begin
  | Write_slot uintptr_t
  | Write_advance uintptr_t
  | Write_undo uintptr_t
  | Write_publish uintptr_t
  | Write_return "errno option"

definition multififo_write_begin :: "pointer \<Rightarrow> writer" where
  "multififo_write_begin p = (if p = 0 \<or> p = NOTYET then Write_return (Some EINVAL) else Write_begin)"

text \<open>\<open>Write_return None\<close> stands for the return value 0, \<open>Write_return (Some e)\<close> for -1 with the \<open>errno\<close> \<open>e\<close>.\<close>

fun u_mulle_pointermultififo_write ::
    "pointer \<Rightarrow> writer \<Rightarrow> mulle_pointermultififo \<Rightarrow> (writer \<times> mulle_pointermultififo) option" where
  "u_mulle_pointermultififo_write p Write_begin f = Some (Write_slot (mf_write f), f)"
| "u_mulle_pointermultififo_write p (Write_slot a) f = do {
     (actual, f) \<leftarrow> cas_storage (multififo_index f a) NOTYET 0 f;
     Some (if actual \<noteq> 0 then if actual = NOTYET then Write_begin else Write_return (Some EBUSY)
           else Write_advance a, f) }"
| "u_mulle_pointermultififo_write p (Write_advance a) f =
     (let (actual, f) = cas_write (a + 1) a f
      in Some (if actual \<noteq> a then Write_undo a else Write_publish a, f))"
| "u_mulle_pointermultififo_write p (Write_undo a) f = do {
     (actual, f) \<leftarrow> cas_storage (multififo_index f a) 0 NOTYET f;
     Some (if actual = NOTYET then Write_begin else Write_undo a, f) }"
| "u_mulle_pointermultififo_write p (Write_publish a) f = do {
     (actual, f) \<leftarrow> cas_storage (multififo_index f a) p NOTYET f;
     Some (if actual = NOTYET then Write_return None else Write_publish a, f) }"
| "u_mulle_pointermultififo_write p (Write_return e) f = None"

subsection \<open>Threads\<close>

text \<open>
  Any number of threads call the two operations in any order. \<open>written\<close> and \<open>delivered\<close> record the
  pointers in the order in which the indexes \<open>write\<close> and \<open>read\<close> were advanced for them.
\<close>

datatype fifo_thread = Idle | Reading reader | Writing pointer writer

record fifo_system =
  fifo :: mulle_pointermultififo
  threads :: "nat \<Rightarrow> fifo_thread"
  written :: "pointer list"
  delivered :: "pointer list"

fun advanced_read :: "reader \<Rightarrow> reader \<Rightarrow> pointer list" where
  "advanced_read (Read_advance a p) (Read_clear b q) = [p]"
| "advanced_read r r' = []"

fun advanced_write :: "pointer \<Rightarrow> writer \<Rightarrow> writer \<Rightarrow> pointer list" where
  "advanced_write p (Write_advance a) (Write_publish b) = [p]"
| "advanced_write p w w' = []"

inductive fifo_step :: "fifo_system \<Rightarrow> fifo_system \<Rightarrow> bool" where
  call_read: "threads s t = Idle \<Longrightarrow> fifo_step s (s\<lparr>threads := (threads s)(t := Reading Read_begin)\<rparr>)"
| call_write: "threads s t = Idle \<Longrightarrow>
    fifo_step s (s\<lparr>threads := (threads s)(t := Writing p (multififo_write_begin p))\<rparr>)"
| reading: "threads s t = Reading r \<Longrightarrow>
    u_mulle_pointermultififo_read_barrier r (fifo s) = Some (r', f) \<Longrightarrow>
    fifo_step s (s\<lparr>fifo := f, threads := (threads s)(t := Reading r'),
      delivered := delivered s @ advanced_read r r'\<rparr>)"
| writing: "threads s t = Writing p w \<Longrightarrow>
    u_mulle_pointermultififo_write p w (fifo s) = Some (w', f) \<Longrightarrow>
    fifo_step s (s\<lparr>fifo := f, threads := (threads s)(t := Writing p w'),
      written := written s @ advanced_write p w w'\<rparr>)"
| return_read: "threads s t = Reading (Read_return p) \<Longrightarrow>
    fifo_step s (s\<lparr>threads := (threads s)(t := Idle)\<rparr>)"
| return_write: "threads s t = Writing p (Write_return e) \<Longrightarrow>
    fifo_step s (s\<lparr>threads := (threads s)(t := Idle)\<rparr>)"

definition fifo_start :: "uint32_t \<Rightarrow> fifo_system" where
  "fifo_start sz =
     \<lparr>fifo = u_mulle_pointermultififo_init sz, threads = (\<lambda>_. Idle), written = [], delivered = []\<rparr>"

inductive fifo_reachable :: "uint32_t \<Rightarrow> fifo_system \<Rightarrow> bool" for sz where
  start: "fifo_reachable sz (fifo_start sz)"
| step: "fifo_reachable sz s \<Longrightarrow> fifo_step s s' \<Longrightarrow> fifo_reachable sz s'"

section \<open>The queue with a mutex\<close>

record mulle_lockingpointermultififo =
  lf_n :: uint32_t
  lf_read :: uint32_t
  lf_write :: uint32_t
  lf_size :: uint32_t
  lf_storage :: "pointer list"

definition u_mulle_lockingpointermultififo_init :: "uint32_t \<Rightarrow> mulle_lockingpointermultififo" where
  "u_mulle_lockingpointermultififo_init sz =
     \<lparr>lf_n = 0, lf_read = 0, lf_write = 0, lf_size = sz, lf_storage = replicate (unat sz) 0\<rparr>"


definition u_mulle_lockingpointermultififo_read_barrier ::
    "mulle_lockingpointermultififo \<Rightarrow> (mulle_lockingpointermultififo \<times> pointer) option" where
  "u_mulle_lockingpointermultififo_read_barrier p =
     (if lf_n p = 0 then Some (p, 0)
      else do {
        let i = lf_read p mod lf_size p;
        pointer \<leftarrow> slot (lf_storage p) (ucast i);
        Some (p\<lparr>lf_n := lf_n p - 1, lf_read := lf_read p + 1\<rparr>, pointer) })"

definition u_mulle_lockingpointermultififo_write ::
    "mulle_lockingpointermultififo \<Rightarrow> pointer \<Rightarrow> (mulle_lockingpointermultififo \<times> errno option) option" where
  "u_mulle_lockingpointermultififo_write p pointer =
     (if pointer = -1 then Some (p, Some EINVAL)
      else if lf_n p = lf_size p then Some (p, Some EBUSY)
      else do {
        let i = lf_write p mod lf_size p;
        st \<leftarrow> set_slot (lf_storage p) (ucast i) pointer;
        Some (p\<lparr>lf_storage := st, lf_n := lf_n p + 1, lf_write := lf_write p + 1\<rparr>, None) })"

section \<open>The lock-free queue as an atomic queue\<close>

text \<open>
  A thread holds a slot from the moment it has put \<open>NOTYET\<close> there until it replaces it: \<open>hold\<close> gives
  the index it works on and what the slot holds in truth.
\<close>

fun hold :: "fifo_thread \<Rightarrow> (uintptr_t \<times> pointer option) option" where
  "hold (Reading (Read_advance a p)) = Some (a, Some p)"
| "hold (Reading (Read_undo a p)) = Some (a, Some p)"
| "hold (Reading (Read_clear a p)) = Some (a, None)"
| "hold (Writing p (Write_advance a)) = Some (a, None)"
| "hold (Writing p (Write_undo a)) = Some (a, None)"
| "hold (Writing p (Write_publish a)) = Some (a, Some p)"
| "hold _ = None"

text \<open>The index a thread has read, and whether it is known not to exceed the counter it came from.\<close>

fun thread_ok :: "nat \<Rightarrow> nat \<Rightarrow> fifo_thread \<Rightarrow> bool" where
  "thread_ok r w (Reading (Read_slot a)) = (unat a \<le> r)"
| "thread_ok r w (Reading (Read_take a p)) = (unat a \<le> r \<and> p \<noteq> 0 \<and> p \<noteq> NOTYET)"
| "thread_ok r w (Reading (Read_advance a p)) = (unat a \<le> r \<and> p \<noteq> 0 \<and> p \<noteq> NOTYET)"
| "thread_ok r w (Reading (Read_undo a p)) = (unat a \<le> r \<and> p \<noteq> 0 \<and> p \<noteq> NOTYET)"
| "thread_ok r w (Reading (Read_clear a p)) = (unat a < r)"
| "thread_ok r w (Writing p (Write_return e)) = True"
| "thread_ok r w (Writing p (Write_slot a)) = (unat a \<le> w \<and> p \<noteq> 0 \<and> p \<noteq> NOTYET)"
| "thread_ok r w (Writing p (Write_advance a)) = (unat a \<le> w \<and> p \<noteq> 0 \<and> p \<noteq> NOTYET)"
| "thread_ok r w (Writing p (Write_undo a)) = (unat a \<le> w \<and> p \<noteq> 0 \<and> p \<noteq> NOTYET)"
| "thread_ok r w (Writing p (Write_publish a)) = (unat a < w \<and> p \<noteq> 0 \<and> p \<noteq> NOTYET)"
| "thread_ok r w (Writing p Write_begin) = (p \<noteq> 0 \<and> p \<noteq> NOTYET)"
| "thread_ok r w _ = True"

text \<open>What the slots hold in truth is what is queued: slot \<open>k mod n\<close> holds the \<open>k\<close>-th pointer.\<close>

definition queued :: "nat \<Rightarrow> nat \<Rightarrow> nat \<Rightarrow> pointer list \<Rightarrow> (nat \<Rightarrow> pointer option) \<Rightarrow> bool" where
  "queued n r w ps c \<longleftrightarrow> w = length ps \<and> r \<le> w \<and> w \<le> r + n \<and>
     (\<forall>i<n. case c i of
        None \<Rightarrow> \<forall>k. r \<le> k \<and> k < w \<longrightarrow> k mod n \<noteq> i
      | Some x \<Rightarrow> \<exists>k. r \<le> k \<and> k < w \<and> k mod n = i \<and> ps ! k = x)"

definition slots_ok :: "mulle_pointermultififo \<Rightarrow> (nat \<Rightarrow> fifo_thread) \<Rightarrow> (nat \<Rightarrow> pointer option) \<Rightarrow> bool" where
  "slots_ok f ts c \<longleftrightarrow>
     (\<forall>i < length (mf_storage f). mf_storage f ! i \<noteq> NOTYET \<longrightarrow>
        c i = (if mf_storage f ! i = 0 then None else Some (mf_storage f ! i))) \<and>
     (\<forall>t a x. hold (ts t) = Some (a, x) \<longrightarrow>
        mf_storage f ! (unat a mod length (mf_storage f)) = NOTYET \<and> c (unat a mod length (mf_storage f)) = x) \<and>
     (\<forall>t u a b x y. hold (ts t) = Some (a, x) \<longrightarrow> hold (ts u) = Some (b, y) \<longrightarrow>
        unat a mod length (mf_storage f) = unat b mod length (mf_storage f) \<longrightarrow> t = u) \<and>
     (\<forall>i < length (mf_storage f). mf_storage f ! i = NOTYET \<longrightarrow>
        (\<exists>t a x. hold (ts t) = Some (a, x) \<and> unat a mod length (mf_storage f) = i))"

definition fifo_ok :: "uint32_t \<Rightarrow> mulle_pointermultififo \<Rightarrow> (nat \<Rightarrow> fifo_thread) \<Rightarrow> pointer list \<Rightarrow> pointer list \<Rightarrow> bool" where
  "fifo_ok sz f ts ws ds \<longleftrightarrow>
     mf_size f = sz \<and> length (mf_storage f) = unat sz \<and>
     unat (mf_read f) = length ds \<and> unat (mf_write f) = length ws \<and>
     ds = take (length ds) ws \<and>
     (\<forall>t. thread_ok (length ds) (length ws) (ts t)) \<and>
     (\<exists>c. queued (unat sz) (length ds) (length ws) ws c \<and> slots_ok f ts c)"

definition fifo_inv :: "uint32_t \<Rightarrow> fifo_system \<Rightarrow> bool" where
  "fifo_inv sz s = fifo_ok sz (fifo s) (threads s) (written s) (delivered s)"

lemma queued_slot:
  "queued n r w ps c \<Longrightarrow> i < n \<Longrightarrow> case c i of
        None \<Rightarrow> \<forall>k. r \<le> k \<and> k < w \<longrightarrow> k mod n \<noteq> i
      | Some x \<Rightarrow> \<exists>k. r \<le> k \<and> k < w \<and> k mod n = i \<and> ps ! k = x"
  unfolding queued_def by blast

lemma queued_bounds: "queued n r w ps c \<Longrightarrow> w = length ps \<and> r \<le> w \<and> w \<le> r + n"
  unfolding queued_def by blast

lemma slots_ok_free:
  "slots_ok f ts c \<Longrightarrow> i < length (mf_storage f) \<Longrightarrow> mf_storage f ! i \<noteq> NOTYET \<Longrightarrow>
     c i = (if mf_storage f ! i = 0 then None else Some (mf_storage f ! i))"
  unfolding slots_ok_def by blast

lemma slots_ok_hold:
  "slots_ok f ts c \<Longrightarrow> hold (ts t) = Some (a, x) \<Longrightarrow>
     mf_storage f ! (unat a mod length (mf_storage f)) = NOTYET \<and> c (unat a mod length (mf_storage f)) = x"
  unfolding slots_ok_def by blast

lemma slots_ok_unique:
  "slots_ok f ts c \<Longrightarrow> hold (ts t) = Some (a, x) \<Longrightarrow> hold (ts u) = Some (b, y) \<Longrightarrow>
     unat a mod length (mf_storage f) = unat b mod length (mf_storage f) \<Longrightarrow> t = u"
  unfolding slots_ok_def by blast

lemma slots_ok_held:
  "slots_ok f ts c \<Longrightarrow> i < length (mf_storage f) \<Longrightarrow> mf_storage f ! i = NOTYET \<Longrightarrow>
     \<exists>t a x. hold (ts t) = Some (a, x) \<and> unat a mod length (mf_storage f) = i"
  unfolding slots_ok_def by blast

lemma multififo_index_unat:
  "unat a < 2 ^ 32 \<Longrightarrow> unat (multififo_index f a) = unat a mod unat (mf_size f)"
  using le_less_trans [OF mod_less_eq_dividend, of "unat a" "2 ^ 32" "unat (mf_size f)"]
  by (simp add: multififo_index_def unsigned_ucast_eq take_bit_eq_mod unat_mod)

lemma mod_eq_window:
  assumes "k mod n = l mod n" and "l \<le> k" and "k < l + (n :: nat)"
  shows "k = l"
proof -
  have "(k - l) mod n = 0" using assms(1,2) by (simp add: mod_eq_dvd_iff_nat)
  then show ?thesis using assms(2,3) by (cases "k = l") (auto simp: mod_less)
qed

lemma queued_write:
  assumes q: "queued n r w ps c" and none: "c (w mod n) = None" and n: "0 < n"
  shows "queued n r (Suc w) (ps @ [p]) (c(w mod n := Some p))"
proof -
  have w: "w = length ps" "r \<le> w" "w \<le> r + n" using q by (auto simp: queued_def)
  have free: "k mod n \<noteq> w mod n" if "r \<le> k" "k < w" for k
  proof -
    have "w mod n < n" using n by simp
    with queued_slot [OF q this] none that show ?thesis by simp
  qed
  have "w \<noteq> r + n" using free [of r] n by auto
  then have "Suc w \<le> r + n" using w by simp
  moreover have "case (c(w mod n := Some p)) i of
        None \<Rightarrow> \<forall>k. r \<le> k \<and> k < Suc w \<longrightarrow> k mod n \<noteq> i
      | Some x \<Rightarrow> \<exists>k. r \<le> k \<and> k < Suc w \<and> k mod n = i \<and> (ps @ [p]) ! k = x" if "i < n" for i
  proof (cases "i = w mod n")
    case True
    then show ?thesis using w by (auto intro!: exI [of _ w])
  next
    case False
    from q that have "case c i of None \<Rightarrow> \<forall>k. r \<le> k \<and> k < w \<longrightarrow> k mod n \<noteq> i
      | Some x \<Rightarrow> \<exists>k. r \<le> k \<and> k < w \<and> k mod n = i \<and> ps ! k = x" by (rule queued_slot)
    with False show ?thesis
      by (cases "c i") (auto simp: less_Suc_eq nth_append w(1))
  qed
  ultimately show ?thesis using w unfolding queued_def by simp
qed

lemma queued_read:
  assumes q: "queued n r w ps c" and some: "c (r mod n) = Some p" and n: "0 < n"
  shows "r < w \<and> ps ! r = p \<and> queued n (Suc r) w ps (c(r mod n := None))"
proof -
  have w: "w = length ps" "r \<le> w" "w \<le> r + n" using q by (auto simp: queued_def)
  have "r mod n < n" using n by simp
  from queued_slot [OF q this] some have "\<exists>k. r \<le> k \<and> k < w \<and> k mod n = r mod n \<and> ps ! k = p" by simp
  then obtain k where k: "r \<le> k" "k < w" "k mod n = r mod n" "ps ! k = p" by blast
  then have [simp]: "k = r" using mod_eq_window [of k n r] w by simp
  have "case (c(r mod n := None)) i of
        None \<Rightarrow> \<forall>k. Suc r \<le> k \<and> k < w \<longrightarrow> k mod n \<noteq> i
      | Some x \<Rightarrow> \<exists>k. Suc r \<le> k \<and> k < w \<and> k mod n = i \<and> ps ! k = x" if "i < n" for i
  proof (cases "i = r mod n")
    case True
    have "k mod n \<noteq> r mod n" if "Suc r \<le> k" "k < w" for k
      using mod_eq_window [of k n r] that w by auto
    then show ?thesis using True by simp
  next
    case False
    from q that have *: "case c i of None \<Rightarrow> \<forall>k. r \<le> k \<and> k < w \<longrightarrow> k mod n \<noteq> i
      | Some x \<Rightarrow> \<exists>k. r \<le> k \<and> k < w \<and> k mod n = i \<and> ps ! k = x" by (rule queued_slot)
    show ?thesis
    proof (cases "c i")
      case None
      then show ?thesis using * False by simp
    next
      case (Some x)
      with * obtain k where "r \<le> k" "k < w" "k mod n = i" "ps ! k = x" by auto
      moreover from this False have "k \<noteq> r" by auto
      ultimately show ?thesis using Some False by (auto intro!: exI [of _ k])
    qed
  qed
  then show ?thesis using k w unfolding queued_def by simp
qed

lemma slots_ok_storage: "mf_storage f = mf_storage g \<Longrightarrow> slots_ok f ts c \<longleftrightarrow> slots_ok g ts c"
  by (simp only: slots_ok_def)

lemma slots_ok_thread:
  assumes "slots_ok f ts c" and "hold th = hold (ts t)"
  shows "slots_ok f (ts(t := th)) c"
proof -
  have "hold ((ts(t := th)) u) = hold (ts u)" for u using assms(2) by simp
  with assms(1) show ?thesis unfolding slots_ok_def by presburger
qed

text \<open>A thread takes a slot, changes what it holds in truth, or gives it back.\<close>

lemma slots_ok_take:
  assumes ok: "slots_ok f ts c" and i: "i = unat a mod length (mf_storage f)" "i < length (mf_storage f)"
    and v: "mf_storage f ! i \<noteq> NOTYET" and th: "hold th = Some (a, c i)" "hold (ts t) = None"
  shows "slots_ok (f\<lparr>mf_storage := (mf_storage f)[i := NOTYET]\<rparr>) (ts(t := th)) c"
proof -
  have *: "unat b mod length (mf_storage f) \<noteq> i" if "hold (ts u) = Some (b, y)" for u b y
    using slots_ok_hold [OF ok that] v by auto
  show ?thesis
    unfolding slots_ok_def
  proof (intro conjI allI impI, goal_cases)
    case (1 j)
    then show ?case using slots_ok_free [OF ok, of j] by (cases "i = j") auto
  next
    case (2 u b y)
    then show ?case using slots_ok_hold [OF ok, of u b y] i th by (cases "u = t") (auto simp: nth_list_update)
  next
    case (3 u b y)
    then show ?case using slots_ok_hold [OF ok, of u b y] i th by (cases "u = t") auto
  next
    case (4 u v b d x y)
    show ?case
    proof (rule ccontr)
      assume "u \<noteq> v"
      then consider "u = t" "v \<noteq> t" | "v = t" "u \<noteq> t" | "u \<noteq> t" "v \<noteq> t" by blast
      then show False
      proof cases
        case 1
        with 4 th have "b = a" "hold (ts v) = Some (d, y)" by simp_all
        with * [of v d y] 4(3) 1 i show False by simp
      next
        case 2
        with 4 th have "d = a" "hold (ts u) = Some (b, x)" by simp_all
        with * [of u b x] 4(3) 2 i show False by simp
      next
        case 3
        with 4 have "hold (ts u) = Some (b, x)" "hold (ts v) = Some (d, y)" by simp_all
        from slots_ok_unique [OF ok this] 4(3) \<open>u \<noteq> v\<close> show False by simp
      qed
    qed
  next
    case (5 j)
    show ?case
    proof (cases "i = j")
      case True
      then show ?thesis using i th by (auto intro!: exI [of _ t])
    next
      case False
      with 5 slots_ok_held [OF ok, of j] obtain u b x where "hold (ts u) = Some (b, x)" "unat b mod length (mf_storage f) = j"
        by auto
      moreover from this th have "u \<noteq> t" by auto
      ultimately show ?thesis by (auto intro!: exI [of _ u])
    qed
  qed
qed

lemma slots_ok_change:
  assumes ok: "slots_ok f ts c" and h: "hold (ts t) = Some (a, x)" and th: "hold th = Some (a, y)"
  shows "slots_ok f (ts(t := th)) (c(unat a mod length (mf_storage f) := y))"
proof -
  let ?i = "unat a mod length (mf_storage f)"
  have st: "mf_storage f ! ?i = NOTYET" using slots_ok_hold [OF ok h] by simp
  have *: "unat b mod length (mf_storage f) \<noteq> ?i" if "hold (ts u) = Some (b, z)" "u \<noteq> t" for u b z
    using slots_ok_unique [OF ok that(1) h] that(2) by auto
  show ?thesis
    unfolding slots_ok_def
  proof (intro conjI allI impI, goal_cases)
    case (1 j)
    then show ?case using slots_ok_free [OF ok, of j] st by auto
  next
    case (2 u b z)
    then show ?case using slots_ok_hold [OF ok, of u b z] th st by (cases "u = t") auto
  next
    case (3 u b z)
    then show ?case using slots_ok_hold [OF ok, of u b z] th * [of u b z] by (cases "u = t") auto
  next
    case (4 u v b d x y)
    show ?case
    proof (rule ccontr)
      assume "u \<noteq> v"
      then consider "u = t" "v \<noteq> t" | "v = t" "u \<noteq> t" | "u \<noteq> t" "v \<noteq> t" by blast
      then show False
      proof cases
        case 1
        with 4 th have "b = a" "hold (ts v) = Some (d, y)" by simp_all
        with * [of v d y] 4(3) 1  show False by simp
      next
        case 2
        with 4 th have "d = a" "hold (ts u) = Some (b, x)" by simp_all
        with * [of u b x] 4(3) 2  show False by simp
      next
        case 3
        with 4 have "hold (ts u) = Some (b, x)" "hold (ts v) = Some (d, y)" by simp_all
        from slots_ok_unique [OF ok this] 4(3) \<open>u \<noteq> v\<close> show False by simp
      qed
    qed
  next
    case (5 j)
    with slots_ok_held [OF ok, of j] obtain u b z where "hold (ts u) = Some (b, z)" "unat b mod length (mf_storage f) = j"
      by auto
    then show ?case using h th by (cases "u = t") (auto intro!: exI [of _ u])
  qed
qed

lemma slots_ok_give:
  assumes ok: "slots_ok f ts c" and h: "hold (ts t) = Some (a, x)" and th: "hold th = None"
    and i: "i = unat a mod length (mf_storage f)" "i < length (mf_storage f)"
    and v: "v \<noteq> NOTYET" "x = (if v = 0 then None else Some v)"
  shows "slots_ok (f\<lparr>mf_storage := (mf_storage f)[i := v]\<rparr>) (ts(t := th)) c"
proof -
  have *: "unat b mod length (mf_storage f) \<noteq> i" if "hold (ts u) = Some (b, z)" "u \<noteq> t" for u b z
    using slots_ok_unique [OF ok that(1) h] that(2) i by auto
  have ci: "c i = x" using slots_ok_hold [OF ok h] i by simp
  show ?thesis
    unfolding slots_ok_def
  proof (intro conjI allI impI, goal_cases)
    case (1 j)
    then show ?case using slots_ok_free [OF ok, of j] ci v i by (cases "i = j") auto
  next
    case (2 u b z)
    then show ?case using slots_ok_hold [OF ok, of u b z] th * [of u b z] by (cases "u = t") auto
  next
    case (3 u b z)
    then show ?case using slots_ok_hold [OF ok, of u b z] th by (cases "u = t") auto
  next
    case (4 u v b d x y)
    with th have "hold (ts u) = Some (b, x)" "hold (ts v) = Some (d, y)" by (auto split: if_splits)
    from slots_ok_unique [OF ok this] 4(3) show ?case by simp
  next
    case (5 j)
    then have "i \<noteq> j" using v by auto
    with 5 slots_ok_held [OF ok, of j] obtain u b z where "hold (ts u) = Some (b, z)" "unat b mod length (mf_storage f) = j"
      by auto
    moreover from this h i \<open>i \<noteq> j\<close> have "u \<noteq> t" by auto
    ultimately show ?case by (auto intro!: exI [of _ u])
  qed
qed

lemma thread_ok_mono: "thread_ok r w th \<Longrightarrow> r \<le> r' \<Longrightarrow> w \<le> w' \<Longrightarrow> thread_ok r' w' th"
  by (induction r w th rule: thread_ok.induct) auto

lemma fifo_inv_update:
  assumes "fifo_inv sz s" and "mf_size f = sz" and "length (mf_storage f) = unat sz"
    and "unat (mf_read f) = length d" and "unat (mf_write f) = length w" and "d = take (length d) w"
    and "length (delivered s) \<le> length d" and "length (written s) \<le> length w"
    and "thread_ok (length d) (length w) th"
    and "queued (unat sz) (length d) (length w) w c" and "slots_ok f ((threads s)(t := th)) c"
  shows "fifo_inv sz (s\<lparr>fifo := f, threads := (threads s)(t := th), written := w, delivered := d\<rparr>)"
proof -
  have "thread_ok (length d) (length w) (threads s u)" for u
    using assms(1,7,8) unfolding fifo_inv_def fifo_ok_def by (blast intro: thread_ok_mono)
  then have "\<forall>u. thread_ok (length d) (length w) (((threads s)(t := th)) u)" using assms(9) by simp
  then have "fifo_ok sz f ((threads s)(t := th)) w d"
    using assms(2-6,10,11) unfolding fifo_ok_def by blast
  then show ?thesis by (simp add: fifo_inv_def)
qed

lemma cas_storage_eq:
  "unat i < length (mf_storage f) \<Longrightarrow> cas_storage i new e f =
     Some (mf_storage f ! unat i,
       if mf_storage f ! unat i = e then f\<lparr>mf_storage := (mf_storage f)[unat i := new]\<rparr> else f)"
  by (simp add: cas_storage_def slot_def set_slot_def)

lemma fifo_index:
  assumes "fifo_inv sz s" and "0 < unat sz" and "unat a < 2 ^ 32"
  shows "unat (multififo_index (fifo s) a) = unat a mod length (mf_storage (fifo s))"
    and "unat (multififo_index (fifo s) a) < length (mf_storage (fifo s))"
  using assms multififo_index_unat [of a "fifo s"] by (auto simp: fifo_inv_def fifo_ok_def)

lemma fifo_read_inv:
  assumes inv: "fifo_inv sz s" and n: "0 < unat sz" and small: "length (written s) < 2 ^ 32"
    and t: "threads s t = Reading r"
    and step: "u_mulle_pointermultififo_read_barrier r (fifo s) = Some (r', f)"
  shows "fifo_inv sz (s\<lparr>fifo := f, threads := (threads s)(t := Reading r'),
      delivered := delivered s @ advanced_read r r'\<rparr>)"
proof -
  let ?r = "length (delivered s)" and ?w = "length (written s)" and ?st = "mf_storage (fifo s)"
  obtain c where q: "queued (unat sz) ?r ?w (written s) c" and ok: "slots_ok (fifo s) (threads s) c"
    and f: "mf_size (fifo s) = sz" "length ?st = unat sz" "unat (mf_read (fifo s)) = ?r" "unat (mf_write (fifo s)) = ?w"
    and d: "delivered s = take ?r (written s)" and th: "thread_ok ?r ?w (Reading r)"
    using inv t unfolding fifo_inv_def fifo_ok_def by metis
  have rw: "?r \<le> ?w" using queued_bounds [OF q] by simp
  have same: "fifo_inv sz (s\<lparr>fifo := g, threads := (threads s)(t := Reading r'), delivered := delivered s @ []\<rparr>)"
    if "mf_size g = sz" "length (mf_storage g) = unat sz" "mf_read g = mf_read (fifo s)" "mf_write g = mf_write (fifo s)"
      "thread_ok ?r ?w (Reading r')" "slots_ok g ((threads s)(t := Reading r')) c" for g
    using fifo_inv_update [OF inv that(1,2), of "delivered s" "written s"] that f d q by simp
  have idx: "unat (multififo_index (fifo s) a) = unat a mod length ?st" "unat (multififo_index (fifo s) a) < length ?st"
    if "unat a \<le> ?r" for a
    using fifo_index [OF inv n, of a] that rw small by simp_all
  note keep = slots_ok_thread [OF ok, of "Reading r'" t, unfolded t]
  show ?thesis
  proof (cases r)
    case Read_begin
    then have "r' = Read_slot (mf_read (fifo s))" "f = fifo s" using step by auto
    then show ?thesis using same [of "fifo s"] keep f Read_begin by simp
  next
    case (Read_slot a)
    then have "f = fifo s" and r': "r' = (let p = ?st ! unat (multififo_index (fifo s) a) in
        if p = 0 then Read_return 0 else if p = NOTYET then Read_begin else Read_take a p)"
      using step idx [of a] th by (auto simp: slot_def Let_def)
    then show ?thesis using same [of "fifo s"] keep f th Read_slot by (auto simp: Let_def split: if_splits)
  next
    case (Read_take a p)
    then have a: "unat a \<le> ?r" "p \<noteq> 0" "p \<noteq> NOTYET" using th by auto
    let ?i = "unat (multififo_index (fifo s) a)"
    have e: "cas_storage (multififo_index (fifo s) a) NOTYET p (fifo s) =
      Some (?st ! ?i, if ?st ! ?i = p then (fifo s)\<lparr>mf_storage := ?st[?i := NOTYET]\<rparr> else fifo s)"
      by (rule cas_storage_eq [OF idx(2) [OF a(1)]])
    show ?thesis
    proof (cases "?st ! ?i = p")
      case True
      then have "r' = Read_advance a p" "f = (fifo s)\<lparr>mf_storage := ?st[?i := NOTYET]\<rparr>"
        using step e Read_take by auto
      moreover have "c ?i = Some p" using slots_ok_free [OF ok idx(2) [OF a(1)]] True a by simp
      ultimately show ?thesis
        using same [of f] slots_ok_take [OF ok idx(1,2) [OF a(1)], of "Reading (Read_advance a p)" t]
          True a f t Read_take by simp
    next
      case False
      then have "r' = Read_begin" "f = fifo s" using step e Read_take by auto
      then show ?thesis using same [of f] keep f Read_take by simp
    qed
  next
    case (Read_advance a p)
    then have a: "unat a \<le> ?r" "p \<noteq> 0" "p \<noteq> NOTYET" using th by auto
    have h: "hold (threads s t) = Some (a, Some p)" using t Read_advance by simp
    show ?thesis
    proof (cases "mf_read (fifo s) = a")
      case False
      then have "r' = Read_undo a p" "f = fifo s" using step Read_advance by (auto simp: cas_read_def)
      then show ?thesis using same [of f] keep f a Read_advance by simp
    next
      case True
      then have r': "r' = Read_clear a p" "f = (fifo s)\<lparr>mf_read := a + 1\<rparr>"
        using step Read_advance by (auto simp: cas_read_def)
      have ua: "unat a = ?r" using True f by simp
      have i: "unat a mod length ?st = ?r mod unat sz" using ua f by simp
      have "c (?r mod unat sz) = Some p" using slots_ok_hold [OF ok h] i by simp
      from queued_read [OF q this n] have rd: "?r < ?w" "written s ! ?r = p"
        "queued (unat sz) (Suc ?r) ?w (written s) (c(?r mod unat sz := None))" by auto
      have up: "unat (a + 1) = Suc ?r" using ua rd(1) small by (subst unat64_add) simp_all
      have dl: "delivered s @ [p] = take (length (delivered s @ [p])) (written s)"
        using d rd(1,2) take_Suc_conv_app_nth [of ?r "written s"] by simp
      have "slots_ok (fifo s) ((threads s)(t := Reading (Read_clear a p))) (c(?r mod unat sz := None))"
        using slots_ok_change [OF ok h, of "Reading (Read_clear a p)" None] i by simp
      then have sl: "slots_ok f ((threads s)(t := Reading r')) (c(?r mod unat sz := None))"
        using slots_ok_storage [of f "fifo s"] by (simp add: r')
      have "fifo_inv sz (s\<lparr>fifo := f, threads := (threads s)(t := Reading r'), written := written s,
          delivered := delivered s @ [p]\<rparr>)"
        by (rule fifo_inv_update [OF inv _ _ _ _ dl _ _ _ _ sl]) (use f rd ua up in \<open>simp_all add: r'\<close>)
      then show ?thesis by (simp add: r' Read_advance)
    qed
  next
    case (Read_undo a p)
    then have a: "unat a \<le> ?r" "p \<noteq> 0" "p \<noteq> NOTYET" using th by auto
    have h: "hold (threads s t) = Some (a, Some p)" using t Read_undo by simp
    let ?i = "unat (multififo_index (fifo s) a)"
    have "?st ! ?i = NOTYET" using slots_ok_hold [OF ok h] idx(1) [OF a(1)] by simp
    then have r': "r' = Read_begin" "f = (fifo s)\<lparr>mf_storage := ?st[?i := p]\<rparr>"
      using step cas_storage_eq [OF idx(2) [OF a(1)]] Read_undo by auto
    have "slots_ok f ((threads s)(t := Reading r')) c"
      unfolding r' by (rule slots_ok_give [OF ok h _ idx [OF a(1)]]) (use a in simp_all)
    then show ?thesis using same [of f] f Read_undo by (simp add: r')
  next
    case (Read_clear a p)
    then have a: "unat a \<le> ?r" using th by auto
    have h: "hold (threads s t) = Some (a, None)" using t Read_clear by simp
    let ?i = "unat (multififo_index (fifo s) a)"
    have "?st ! ?i = NOTYET" using slots_ok_hold [OF ok h] idx(1) [OF a] by simp
    then have r': "r' = Read_return p" "f = (fifo s)\<lparr>mf_storage := ?st[?i := 0]\<rparr>"
      using step cas_storage_eq [OF idx(2) [OF a]] Read_clear by auto
    have "slots_ok f ((threads s)(t := Reading r')) c"
      unfolding r' by (rule slots_ok_give [OF ok h _ idx [OF a]]) (simp_all add: NOTYET_def)
    then show ?thesis using same [of f] f Read_clear by (simp add: r')
  next
    case (Read_return p)
    then show ?thesis using step by simp
  qed
qed

lemma fifo_write_inv:
  assumes inv: "fifo_inv sz s" and n: "0 < unat sz"
    and t: "threads s t = Writing p v"
    and step: "u_mulle_pointermultififo_write p v (fifo s) = Some (v', f)"
    and small: "length (written s @ advanced_write p v v') < 2 ^ 32"
  shows "fifo_inv sz (s\<lparr>fifo := f, threads := (threads s)(t := Writing p v'),
      written := written s @ advanced_write p v v'\<rparr>)"
proof -
  let ?r = "length (delivered s)" and ?w = "length (written s)" and ?st = "mf_storage (fifo s)"
  obtain c where q: "queued (unat sz) ?r ?w (written s) c" and ok: "slots_ok (fifo s) (threads s) c"
    and f: "mf_size (fifo s) = sz" "length ?st = unat sz" "unat (mf_read (fifo s)) = ?r" "unat (mf_write (fifo s)) = ?w"
    and d: "delivered s = take ?r (written s)" and th: "thread_ok ?r ?w (Writing p v)"
    using inv t unfolding fifo_inv_def fifo_ok_def by metis
  have rw: "?r \<le> ?w" using queued_bounds [OF q] by simp
  have same: "fifo_inv sz (s\<lparr>fifo := g, threads := (threads s)(t := Writing p v'), written := written s @ []\<rparr>)"
    if "mf_size g = sz" "length (mf_storage g) = unat sz" "mf_read g = mf_read (fifo s)" "mf_write g = mf_write (fifo s)"
      "thread_ok ?r ?w (Writing p v')" "slots_ok g ((threads s)(t := Writing p v')) c" for g
    using fifo_inv_update [OF inv that(1,2), of "delivered s" "written s"] that f d q by simp
  have idx: "unat (multififo_index (fifo s) a) = unat a mod length ?st" "unat (multififo_index (fifo s) a) < length ?st"
    if "unat a \<le> ?w" for a
    using fifo_index [OF inv n, of a] that small by simp_all
  note keep = slots_ok_thread [OF ok, of "Writing p v'" t, unfolded t]
  show ?thesis
  proof (cases v)
    case Write_begin
    then have "v' = Write_slot (mf_write (fifo s))" "f = fifo s" using step by auto
    then show ?thesis using same [of "fifo s"] keep f th Write_begin by simp
  next
    case (Write_slot a)
    then have a: "unat a \<le> ?w" "p \<noteq> 0" "p \<noteq> NOTYET" using th by auto
    let ?i = "unat (multififo_index (fifo s) a)"
    have e: "cas_storage (multififo_index (fifo s) a) NOTYET 0 (fifo s) =
      Some (?st ! ?i, if ?st ! ?i = 0 then (fifo s)\<lparr>mf_storage := ?st[?i := NOTYET]\<rparr> else fifo s)"
      by (rule cas_storage_eq [OF idx(2) [OF a(1)]])
    show ?thesis
    proof (cases "?st ! ?i = 0")
      case True
      then have "v' = Write_advance a" "f = (fifo s)\<lparr>mf_storage := ?st[?i := NOTYET]\<rparr>"
        using step e Write_slot by auto
      moreover have "(0 :: pointer) \<noteq> NOTYET" by (simp add: NOTYET_def)
      moreover from this have "c ?i = None" using slots_ok_free [OF ok idx(2) [OF a(1)]] True by simp
      ultimately show ?thesis
        using same [of f] slots_ok_take [OF ok idx(1,2) [OF a(1)], of "Writing p (Write_advance a)" t]
          True a f t Write_slot by simp
    next
      case False
      then have "f = fifo s" "v' = (if ?st ! ?i = NOTYET then Write_begin else Write_return (Some EBUSY))"
        using step e Write_slot by auto
      then show ?thesis using same [of f] keep f a Write_slot by (simp split: if_splits)
    qed
  next
    case (Write_advance a)
    then have a: "unat a \<le> ?w" "p \<noteq> 0" "p \<noteq> NOTYET" using th by auto
    have h: "hold (threads s t) = Some (a, None)" using t Write_advance by simp
    show ?thesis
    proof (cases "mf_write (fifo s) = a")
      case False
      then have "v' = Write_undo a" "f = fifo s" using step Write_advance by (auto simp: cas_write_def)
      then show ?thesis using same [of f] keep f a Write_advance by simp
    next
      case True
      then have v': "v' = Write_publish a" "f = (fifo s)\<lparr>mf_write := a + 1\<rparr>"
        using step Write_advance by (auto simp: cas_write_def)
      have ua: "unat a = ?w" using True f by simp
      have i: "unat a mod length ?st = ?w mod unat sz" using ua f by simp
      have "c (?w mod unat sz) = None" using slots_ok_hold [OF ok h] i by simp
      from queued_write [OF q this n]
      have wr: "queued (unat sz) ?r (Suc ?w) (written s @ [p]) (c(?w mod unat sz := Some p))" .
      have up: "unat (a + 1) = Suc ?w" using ua small by (subst unat64_add) (simp_all add: v' Write_advance)
      have dl: "delivered s = take ?r (written s @ [p])" using d rw by simp
      have "slots_ok (fifo s) ((threads s)(t := Writing p (Write_publish a))) (c(?w mod unat sz := Some p))"
        using slots_ok_change [OF ok h, of "Writing p (Write_publish a)" "Some p"] i by simp
      then have sl: "slots_ok f ((threads s)(t := Writing p v')) (c(?w mod unat sz := Some p))"
        using slots_ok_storage [of f "fifo s"] by (simp add: v')
      have "fifo_inv sz (s\<lparr>fifo := f, threads := (threads s)(t := Writing p v'), written := written s @ [p],
          delivered := delivered s\<rparr>)"
        by (rule fifo_inv_update [OF inv _ _ _ _ dl _ _ _ _ sl]) (use f wr ua up a in \<open>simp_all add: v'\<close>)
      then show ?thesis by (simp add: v' Write_advance)
    qed
  next
    case (Write_undo a)
    then have a: "unat a \<le> ?w" "p \<noteq> 0" "p \<noteq> NOTYET" using th by auto
    have h: "hold (threads s t) = Some (a, None)" using t Write_undo by simp
    let ?i = "unat (multififo_index (fifo s) a)"
    have "?st ! ?i = NOTYET" using slots_ok_hold [OF ok h] idx(1) [OF a(1)] by simp
    then have v': "v' = Write_begin" "f = (fifo s)\<lparr>mf_storage := ?st[?i := 0]\<rparr>"
      using step cas_storage_eq [OF idx(2) [OF a(1)]] Write_undo by auto
    have "slots_ok f ((threads s)(t := Writing p v')) c"
      unfolding v' by (rule slots_ok_give [OF ok h _ idx [OF a(1)]]) (simp_all add: NOTYET_def)
    then show ?thesis using same [of f] f a Write_undo by (simp add: v')
  next
    case (Write_publish a)
    then have a: "unat a \<le> ?w" "p \<noteq> 0" "p \<noteq> NOTYET" using th by auto
    have h: "hold (threads s t) = Some (a, Some p)" using t Write_publish by simp
    let ?i = "unat (multififo_index (fifo s) a)"
    have "?st ! ?i = NOTYET" using slots_ok_hold [OF ok h] idx(1) [OF a(1)] by simp
    then have v': "v' = Write_return None" "f = (fifo s)\<lparr>mf_storage := ?st[?i := p]\<rparr>"
      using step cas_storage_eq [OF idx(2) [OF a(1)]] Write_publish by auto
    have "slots_ok f ((threads s)(t := Writing p v')) c"
      unfolding v' by (rule slots_ok_give [OF ok h _ idx [OF a(1)]]) (use a in simp_all)
    then show ?thesis using same [of f] f Write_publish by (simp add: v')
  next
    case (Write_return e)
    then show ?thesis using step by simp
  qed
qed

lemma fifo_call_inv:
  assumes inv: "fifo_inv sz s" and "hold th = None" "hold (threads s t) = None"
    and "\<And>r w. thread_ok r w th"
  shows "fifo_inv sz (s\<lparr>threads := (threads s)(t := th)\<rparr>)"
proof -
  let ?r = "length (delivered s)" and ?w = "length (written s)" and ?st = "mf_storage (fifo s)"
  obtain c where q: "queued (unat sz) ?r ?w (written s) c" and ok: "slots_ok (fifo s) (threads s) c"
    and f: "mf_size (fifo s) = sz" "length ?st = unat sz" "unat (mf_read (fifo s)) = ?r" "unat (mf_write (fifo s)) = ?w"
    and d: "delivered s = take ?r (written s)"
    using inv unfolding fifo_inv_def fifo_ok_def by metis
  have "slots_ok (fifo s) ((threads s)(t := th)) c" using slots_ok_thread [OF ok, of th t] assms(2,3) by simp
  from fifo_inv_update [OF inv f d _ _ assms(4) q this] show ?thesis by simp
qed

lemma fifo_step_inv:
  assumes "fifo_step s s'" and "fifo_inv sz s" and n: "0 < unat sz" and small: "length (written s') < 2 ^ 32"
  shows "fifo_inv sz s'"
  using assms(1)
proof cases
  case (call_read t)
  then show ?thesis using fifo_call_inv [OF assms(2)] by simp
next
  case (call_write t p)
  then show ?thesis using fifo_call_inv [OF assms(2), of "Writing p (multififo_write_begin p)" t]
    by (simp add: multififo_write_begin_def)
next
  case (reading t r r' f)
  then show ?thesis using fifo_read_inv [OF assms(2) n] small by simp
next
  case (writing t p w w' f)
  then show ?thesis using fifo_write_inv [OF assms(2) n] small by simp
next
  case (return_read t p)
  then show ?thesis using fifo_call_inv [OF assms(2)] by simp
next
  case (return_write t p e)
  then show ?thesis using fifo_call_inv [OF assms(2)] by simp
qed

lemma fifo_step_written: "fifo_step s s' \<Longrightarrow> length (written s) \<le> length (written s')"
  by (induction rule: fifo_step.induct) auto

lemma fifo_reachable_inv:
  "fifo_reachable sz s \<Longrightarrow> 0 < unat sz \<Longrightarrow> length (written s) < 2 ^ 32 \<Longrightarrow> fifo_inv sz s"
proof (induction rule: fifo_reachable.induct)
  case start
  have "queued (unat sz) 0 0 [] (\<lambda>_. None)" by (simp add: queued_def)
  moreover have "slots_ok (fifo (fifo_start sz)) (\<lambda>_. Idle) (\<lambda>_. None)"
    by (simp add: slots_ok_def fifo_start_def u_mulle_pointermultififo_init_def NOTYET_def)
  ultimately show ?case
    by (auto simp: fifo_inv_def fifo_ok_def fifo_start_def u_mulle_pointermultififo_init_def)
next
  case (step s s')
  then show ?case using fifo_step_inv fifo_step_written by (metis le_less_trans)
qed

section \<open>The queue with a mutex as a list\<close>



lemma ucast_mod_unat: "unat (ucast (a mod b :: 32 word) :: 64 word) = unat a mod unat b"
proof -
  have "unat (a mod b) < 2 ^ 32" by (rule unat32_less)
  then show ?thesis by (simp add: unsigned_ucast_eq take_bit_eq_mod unat_mod)
qed




text \<open>The calls of the queue as data, with what they answer, and a list that holds at most \<open>sz\<close> pointers.\<close>

datatype locking_operation = Locking_write pointer | Locking_read
datatype locking_answer = Write_answer "errno option" | Read_answer pointer

fun locking_step ::
    "mulle_lockingpointermultififo \<Rightarrow> locking_operation \<Rightarrow>
     (mulle_lockingpointermultififo \<times> locking_answer) option" where
  "locking_step p (Locking_write x) =
     map_option (map_prod id Write_answer) (u_mulle_lockingpointermultififo_write p x)"
| "locking_step p Locking_read =
     map_option (map_prod id Read_answer) (u_mulle_lockingpointermultififo_read_barrier p)"

fun bounded_fifo :: "uint32_t \<Rightarrow> pointer list \<Rightarrow> locking_operation \<Rightarrow> pointer list \<times> locking_answer" where
  "bounded_fifo sz xs (Locking_write x) =
     (if x = -1 then (xs, Write_answer (Some EINVAL))
      else if length xs = unat sz then (xs, Write_answer (Some EBUSY))
      else (xs @ [x], Write_answer None))"
| "bounded_fifo sz xs Locking_read = (tl xs, Read_answer (case xs of [] \<Rightarrow> 0 | x # _ \<Rightarrow> x))"


section \<open>Runs of the lock-free queue\<close>

text \<open>The step of one thread that is inside of a call, to run an interleaving.\<close>

definition fifo_move :: "nat \<Rightarrow> fifo_system \<Rightarrow> fifo_system option" where
  "fifo_move t s =
     (case threads s t of
        Idle \<Rightarrow> None
      | Reading r \<Rightarrow> map_option (\<lambda>(r', f). s\<lparr>fifo := f, threads := (threads s)(t := Reading r'),
          delivered := delivered s @ advanced_read r r'\<rparr>) (u_mulle_pointermultififo_read_barrier r (fifo s))
      | Writing p w \<Rightarrow> map_option (\<lambda>(w', f). s\<lparr>fifo := f, threads := (threads s)(t := Writing p w'),
          written := written s @ advanced_write p w w'\<rparr>) (u_mulle_pointermultififo_write p w (fifo s)))"

lemma fifo_move_step: "fifo_move t s = Some s' \<Longrightarrow> fifo_step s s'"
  by (auto simp: fifo_move_def split: fifo_thread.splits intro: fifo_step.intros)

fun fifo_moves :: "nat list \<Rightarrow> fifo_system \<Rightarrow> fifo_system option" where
  "fifo_moves [] s = Some s"
| "fifo_moves (t # ts) s = Option.bind (fifo_move t s) (fifo_moves ts)"

lemma fifo_moves_reachable: "fifo_reachable sz s \<Longrightarrow> fifo_moves ts s = Some s' \<Longrightarrow> fifo_reachable sz s'"
proof (induction ts arbitrary: s)
  case (Cons t ts)
  then obtain s1 where "fifo_move t s = Some s1" "fifo_moves ts s1 = Some s'" by (auto split: bind_splits)
  with Cons show ?case using fifo_reachable.step [OF Cons.prems(1) fifo_move_step] by blast
qed simp

text \<open>Thread \<open>t\<close> starts to write \<open>p\<close>, or to read.\<close>

definition fifo_begin_write :: "nat \<Rightarrow> pointer \<Rightarrow> fifo_system \<Rightarrow> fifo_system" where
  "fifo_begin_write t p s = s\<lparr>threads := (threads s)(t := Writing p (multififo_write_begin p))\<rparr>"

definition fifo_begin_read :: "nat \<Rightarrow> fifo_system \<Rightarrow> fifo_system" where
  "fifo_begin_read t s = s\<lparr>threads := (threads s)(t := Reading Read_begin)\<rparr>"

lemma fifo_begin_reachable:
  assumes "fifo_reachable sz s" and "threads s t = Idle"
  shows "fifo_reachable sz (fifo_begin_write t p s)" and "fifo_reachable sz (fifo_begin_read t s)"
  using assms by (auto simp: fifo_begin_write_def fifo_begin_read_def intro: fifo_reachable.step fifo_step.intros)

section \<open>Properties\<close>

text \<open>
  C1. However the atomic accesses of any number of writing and reading threads interleave, the pointers
  are delivered in the order in which they were written: none is lost, none is delivered twice, and
  at no time are more than \<open>size\<close> of them under way. When no thread is in the middle of a call, the
  slots hold exactly the pointers that are under way. (The index that a thread has read is cast to
  \<open>unsigned int\<close>, therefore the bound on the number of writes.)
\<close>

theorem mulle_pointermultififo_fifo_spec:
  assumes "fifo_reachable sz s" and "0 < unat sz" and "length (written s) < 2 ^ 32"
  shows "delivered s = take (length (delivered s)) (written s) \<and>
    length (delivered s) \<le> length (written s) \<and> length (written s) \<le> length (delivered s) + unat sz \<and>
    ((\<forall>t. hold (threads s t) = None) \<longrightarrow>
      (\<forall>i < unat sz. if mf_storage (fifo s) ! i = 0
        then \<forall>k. length (delivered s) \<le> k \<and> k < length (written s) \<longrightarrow> k mod unat sz \<noteq> i
        else \<exists>k. length (delivered s) \<le> k \<and> k < length (written s) \<and> k mod unat sz = i \<and>
          written s ! k = mf_storage (fifo s) ! i))"
proof -
  let ?r = "length (delivered s)" and ?w = "length (written s)"
  have "fifo_inv sz s" using fifo_reachable_inv assms by blast
  then obtain c where q: "queued (unat sz) ?r ?w (written s) c" and ok: "slots_ok (fifo s) (threads s) c"
    and len: "length (mf_storage (fifo s)) = unat sz" and d: "delivered s = take ?r (written s)"
    unfolding fifo_inv_def fifo_ok_def by blast
  have "if mf_storage (fifo s) ! i = 0 then \<forall>k. ?r \<le> k \<and> k < ?w \<longrightarrow> k mod unat sz \<noteq> i
      else \<exists>k. ?r \<le> k \<and> k < ?w \<and> k mod unat sz = i \<and> written s ! k = mf_storage (fifo s) ! i"
    if none: "\<forall>t. hold (threads s t) = None" and i: "i < unat sz" for i
  proof -
    have "mf_storage (fifo s) ! i \<noteq> NOTYET" using slots_ok_held [OF ok, of i] none i len by auto
    then have "c i = (if mf_storage (fifo s) ! i = 0 then None else Some (mf_storage (fifo s) ! i))"
      using slots_ok_free [OF ok] i len by simp
    then show ?thesis using queued_slot [OF q i] by (simp split: if_splits)
  qed
  then show ?thesis using d queued_bounds [OF q] by blast
qed

text \<open>
  C25. The loops of the two operations that are meant to end at once do: whenever a thread takes back its
  \<open>NOTYET\<close>, the slot still holds it, so the comparison succeeds at the first attempt. No thread ever
  accesses a slot outside of the storage: every thread inside of a call can do its next access.
\<close>

theorem mulle_pointermultififo_cas_spec:
  assumes "fifo_reachable sz s" and "0 < unat sz" and "length (written s) < 2 ^ 32"
  shows "(case threads s t of
      Idle \<Rightarrow> True
    | Reading r \<Rightarrow> (case u_mulle_pointermultififo_read_barrier r (fifo s) of
        None \<Rightarrow> (\<exists>p. r = Read_return p)
      | Some (r', f) \<Rightarrow> (\<forall>a p. r = Read_undo a p \<longrightarrow> r' = Read_begin) \<and>
          (\<forall>a p. r = Read_clear a p \<longrightarrow> r' = Read_return p))
    | Writing p w \<Rightarrow> (case u_mulle_pointermultififo_write p w (fifo s) of
        None \<Rightarrow> (\<exists>e. w = Write_return e)
      | Some (w', f) \<Rightarrow> (\<forall>a. w = Write_undo a \<longrightarrow> w' = Write_begin) \<and>
          (\<forall>a. w = Write_publish a \<longrightarrow> w' = Write_return None)))"
proof -
  let ?r = "length (delivered s)" and ?w = "length (written s)" and ?st = "mf_storage (fifo s)"
  have inv: "fifo_inv sz s" using fifo_reachable_inv assms by blast
  then obtain c where q: "queued (unat sz) ?r ?w (written s) c" and ok: "slots_ok (fifo s) (threads s) c"
    and th: "thread_ok ?r ?w (threads s t)"
    unfolding fifo_inv_def fifo_ok_def by blast
  have idx: "unat (multififo_index (fifo s) a) = unat a mod length ?st" "unat (multififo_index (fifo s) a) < length ?st"
    if "unat a \<le> ?w" for a
    using fifo_index [OF inv assms(2), of a] that assms(3) by simp_all
  have cas: "cas_storage (multififo_index (fifo s) a) v NOTYET (fifo s) =
      Some (NOTYET, (fifo s)\<lparr>mf_storage := ?st[unat (multififo_index (fifo s) a) := v]\<rparr>)"
    if "hold (threads s t) = Some (a, x)" "unat a \<le> ?w" for a x v
    using slots_ok_hold [OF ok that(1)] cas_storage_eq [OF idx(2) [OF that(2)]] idx(1) [OF that(2)] by simp
  have rw: "?r \<le> ?w" using queued_bounds [OF q] by simp
  show ?thesis
  proof (cases "threads s t")
    case Idle
    then show ?thesis by simp
  next
    case (Reading r)
    then show ?thesis
      using th rw idx cas by (cases r) (auto simp: slot_def cas_storage_eq split: prod.splits)
  next
    case (Writing p w)
    then show ?thesis
      using th idx cas by (cases w) (auto simp: cas_storage_eq split: prod.splits)
  qed
qed

text \<open>Two threads: thread 1 writes 5 while thread 0 has just read the write index, then 0 goes on.\<close>

definition contended_write :: "fifo_system option" where
  "contended_write =
     (let s = fifo_begin_write 1 5 (fifo_begin_write 0 6 (fifo_start 2)) in fifo_moves [0, 1, 1, 1, 1, 0] s)"

lemma contended_write_reachable: "contended_write = Some s \<Longrightarrow> fifo_reachable 2 s"
proof -
  have "fifo_reachable 2 (fifo_begin_write 1 5 (fifo_begin_write 0 6 (fifo_start 2)))"
    by (intro fifo_begin_reachable fifo_reachable.start) (simp_all add: fifo_start_def fifo_begin_write_def)
  then show "contended_write = Some s \<Longrightarrow> fifo_reachable 2 s"
    unfolding contended_write_def Let_def by (rule fifo_moves_reachable)
qed

lemma contended_write_state:
  "map_option (\<lambda>s. (threads s 0, threads s 1, written s, delivered s, mf_storage (fifo s))) contended_write =
     Some (Writing 6 (Write_return (Some EBUSY)), Writing 5 (Write_return None), [5], [], [5, 0])"
  by code_simp

lemma contended_write_run:
  obtains s where "fifo_reachable 2 s" and "threads s 0 = Writing 6 (Write_return (Some EBUSY))"
    and "threads s 1 = Writing 5 (Write_return None)" and "written s = [5]" and "delivered s = []"
proof -
  obtain s where s: "contended_write = Some s" using contended_write_state by (cases contended_write) simp_all
  show thesis using that [OF contended_write_reachable [OF s]] contended_write_state unfolding s by simp
qed

theorem mulle_pointermultififo_fifo_spec_witness:
  "\<exists>s. fifo_reachable 2 s \<and> written s = [5] \<and> delivered s = take (length (delivered s)) (written s)"
proof -
  obtain s where s: "fifo_reachable 2 s" and w: "written s = [5]" by (rule contended_write_run)
  have "delivered s = take (length (delivered s)) (written s)"
    using mulle_pointermultififo_fifo_spec [OF s] w by simp
  with w s show ?thesis by blast
qed

theorem mulle_pointermultififo_cas_spec_witness:
  "\<exists>s. fifo_reachable 2 s \<and> written s = [5] \<and> u_mulle_pointermultififo_write 5 (Write_return None) (fifo s) = None"
proof -
  obtain s where s: "fifo_reachable 2 s" and w: "written s = [5]" "threads s 1 = Writing 5 (Write_return None)"
    by (rule contended_write_run)
  have "u_mulle_pointermultififo_write 5 (Write_return None) (fifo s) = None"
    using mulle_pointermultififo_cas_spec [OF s, of 1] w by simp
  with w s show ?thesis by blast
qed

text \<open>
  A write can be refused with \<open>EBUSY\<close> although the queue is not full and never was: when another
  thread completes a write between the two first accesses of this one, the slot is found occupied.
\<close>

theorem mulle_pointermultififo_spurious_busy:
  "\<exists>s. fifo_reachable 2 s \<and> threads s 0 = Writing 6 (Write_return (Some EBUSY)) \<and>
     length (written s) = 1 \<and> delivered s = []"
  by (rule contended_write_run) auto



text \<open>A queue that is written and read in turns, \<open>k\<close> times.\<close>

definition turns :: "nat \<Rightarrow> locking_operation list" where
  "turns k = concat (replicate k [Locking_write 1, Locking_read])"

definition turn_answers :: "nat \<Rightarrow> locking_answer list" where
  "turn_answers k = concat (replicate k [Write_answer None, Read_answer 1])"

lemma bounded_fifo_turns:
  "snd (run_spec (bounded_fifo 3) [] (turns k @ ops)) = turn_answers k @ snd (run_spec (bounded_fifo 3) [] ops)"
  by (induction k) (auto simp: turns_def turn_answers_def split_beta Let_def)

lemma locking_turns:
  assumes "lf_n p = 0" "lf_write p = lf_read p" "lf_size p = 3" "length (lf_storage p) = 3"
  shows "\<exists>q. lf_n q = 0 \<and> lf_write q = lf_read q \<and> lf_size q = 3 \<and> length (lf_storage q) = 3 \<and>
    lf_read q = lf_read p + of_nat k \<and>
    run_ops locking_step p (turns k @ ops) =
      map_option (\<lambda>(s, outs). (s, turn_answers k @ outs)) (run_ops locking_step q ops)"
  using assms
proof (induction k arbitrary: p)
  case 0
  then show ?case
    by (intro exI [of _ p]) (simp add: turns_def turn_answers_def option.map_ident case_prod_unfold)
next
  case (Suc k)
  let ?i = "unat (lf_read p) mod 3"
  let ?p = "p\<lparr>lf_storage := (lf_storage p)[?i := 1], lf_read := lf_read p + 1, lf_write := lf_read p + 1\<rparr>"
  have i: "unat (ucast (lf_read p mod 3) :: 64 word) = ?i" "?i < 3"
    using ucast_mod_unat [of "lf_read p" 3] by simp_all
  have "u_mulle_lockingpointermultififo_write p 1 =
      Some (p\<lparr>lf_storage := (lf_storage p)[?i := 1], lf_n := 1, lf_write := lf_read p + 1\<rparr>, None)"
    using Suc.prems i by (simp add: u_mulle_lockingpointermultififo_write_def set_slot_def Let_def)
  moreover have "u_mulle_lockingpointermultififo_read_barrier
      (p\<lparr>lf_storage := (lf_storage p)[?i := 1], lf_n := 1, lf_write := lf_read p + 1\<rparr>) = Some (?p, 1)"
    using Suc.prems i by (simp add: u_mulle_lockingpointermultififo_read_barrier_def slot_def Let_def)
  ultimately have run: "run_ops locking_step p (turns (Suc k) @ ops) =
      map_option (\<lambda>(s, outs). (s, Write_answer None # Read_answer 1 # outs))
        (run_ops locking_step ?p (turns k @ ops))"
    by (cases "run_ops locking_step ?p (turns k @ ops)") (auto simp: turns_def)
  have "lf_n ?p = 0" "lf_write ?p = lf_read ?p" "lf_size ?p = 3" "length (lf_storage ?p) = 3"
    using Suc.prems by simp_all
  from Suc.IH [OF this] obtain q where "lf_n q = 0" "lf_write q = lf_read q" "lf_size q = 3" "length (lf_storage q) = 3"
    "lf_read q = lf_read ?p + of_nat k"
    "run_ops locking_step ?p (turns k @ ops) =
      map_option (\<lambda>(s, outs). (s, turn_answers k @ outs)) (run_ops locking_step q ops)" by blast
  then show ?case unfolding run
    by (intro exI [of _ q]) (simp add: option.map_comp comp_def case_prod_unfold turn_answers_def)
qed

text \<open>
  For another size the queue with a mutex loses a pointer when its 32-bit indexes wrap: a queue of
  size 3 that was written and read \<open>2 ^ 32 - 1\<close> times and is empty then stores two pointers in the same
  slot, and answers the second one twice.
\<close>

theorem mulle_lockingpointermultififo_wrap:
  "\<exists>ops outs p. run_ops locking_step (u_mulle_lockingpointermultififo_init 3) ops =
      Some (p, outs @ [Read_answer 6, Read_answer 6]) \<and>
    snd (run_spec (bounded_fifo 3) [] ops) = outs @ [Read_answer 5, Read_answer 6]"
proof -
  let ?ops = "[Locking_write 5, Locking_write 6, Locking_read, Locking_read]"
  let ?outs = "[Write_answer None, Write_answer None]"
  from locking_turns [of "u_mulle_lockingpointermultififo_init 3" "2 ^ 32 - 1" ?ops]
  obtain q where q: "lf_n q = 0" "lf_write q = lf_read q" "lf_size q = 3" "length (lf_storage q) = 3"
    and r: "lf_read q = of_nat (2 ^ 32 - 1)"
    and run: "run_ops locking_step (u_mulle_lockingpointermultififo_init 3) (turns (2 ^ 32 - 1) @ ?ops) =
      map_option (\<lambda>(s, outs). (s, turn_answers (2 ^ 32 - 1) @ outs)) (run_ops locking_step q ?ops)"
    by (auto simp: u_mulle_lockingpointermultififo_init_def)
  have m: "lf_read q = 0xFFFFFFFF" using r by simp
  have "\<exists>s. run_ops locking_step q ?ops = Some (s, ?outs @ [Read_answer 6, Read_answer 6])"
    using q m by (simp add: u_mulle_lockingpointermultififo_write_def u_mulle_lockingpointermultififo_read_barrier_def
        set_slot_def slot_def)
  with run obtain s where "run_ops locking_step (u_mulle_lockingpointermultififo_init 3)
      (turns (2 ^ 32 - 1) @ ?ops) =
    Some (s, (turn_answers (2 ^ 32 - 1) @ ?outs) @ [Read_answer 6, Read_answer 6])" by auto
  moreover have "snd (run_spec (bounded_fifo 3) [] (turns (2 ^ 32 - 1) @ ?ops)) =
      (turn_answers (2 ^ 32 - 1) @ ?outs) @ [Read_answer 5, Read_answer 6]"
    unfolding bounded_fifo_turns by simp
  ultimately show ?thesis by blast
qed

end
