(* ===== verification/Pointerfifo.thy ===== *)
theory Pointerfifo
  imports Mulle_Prelude
begin

text \<open>
  The bounded queue of \<open>mulle-pointerfifo.h\<close> for one writing and one reading thread: a ring of slots, an
  index for each of the two threads and an atomic count of the queued pointers. A step is one access to
  the shared memory by one of the threads; the step relation interleaves them in any order. The queues
  of a fixed size in \<open>mulle--pointerfifo64.h\<close> and the files generated from it have the same code with a
  constant in place of \<open>p->size\<close>.
\<close>

section \<open>The queue\<close>

record mulle_pointerfifo =
  pf_n :: uintptr_t
  pf_write :: uint32_t
  pf_read :: uint32_t
  pf_size :: uint32_t
  pf_storage :: "pointer list"

text \<open>\<open>garbage\<close> is what the allocated storage holds.\<close>

definition u_mulle_pointerfifo_init :: "uint32_t \<Rightarrow> pointer list \<Rightarrow> mulle_pointerfifo" where
  "u_mulle_pointerfifo_init sz garbage =
     \<lparr>pf_n = 0, pf_write = 0, pf_read = 0, pf_size = sz, pf_storage = garbage\<rparr>"

definition u_mulle_pointerfifo_get_count :: "mulle_pointerfifo \<Rightarrow> uint32_t" where
  "u_mulle_pointerfifo_get_count p = ucast (pf_n p)"

text \<open>
  The points of a call before its next access: the test of the count, the read or write of the slot, the
  move of the own index, the change of the count, and the return.
\<close>

datatype consumer =
    Read_begin
  | Read_slot
  | Read_advance pointer
  | Read_decrement pointer
  | Read_return pointer

fun u_mulle_pointerfifo_read :: "consumer \<Rightarrow> mulle_pointerfifo \<Rightarrow> (consumer \<times> mulle_pointerfifo) option" where
  "u_mulle_pointerfifo_read Read_begin p =
     Some (if u_mulle_pointerfifo_get_count p = 0 then Read_return 0 else Read_slot, p)"
| "u_mulle_pointerfifo_read Read_slot p =
     map_option (\<lambda>pointer. (Read_advance pointer, p)) (slot (pf_storage p) (ucast (pf_read p)))"
| "u_mulle_pointerfifo_read (Read_advance pointer) p =
     Some (Read_decrement pointer, p\<lparr>pf_read := (pf_read p + 1) mod pf_size p\<rparr>)"
| "u_mulle_pointerfifo_read (Read_decrement pointer) p =
     Some (Read_return pointer, p\<lparr>pf_n := pf_n p - 1\<rparr>)"
| "u_mulle_pointerfifo_read (Read_return pointer) p = None"

datatype producer =
    Write_begin
  | Write_slot
  | Write_advance
  | Write_increment
  | Write_return int

definition pointerfifo_write_begin :: "pointer \<Rightarrow> producer" where
  "pointerfifo_write_begin pointer = (if pointer = 0 then Write_return (-2) else Write_begin)"

fun u_mulle_pointerfifo_write ::
    "pointer \<Rightarrow> producer \<Rightarrow> mulle_pointerfifo \<Rightarrow> (producer \<times> mulle_pointerfifo) option" where
  "u_mulle_pointerfifo_write pointer Write_begin p =
     Some (if u_mulle_pointerfifo_get_count p = pf_size p then Write_return (-1) else Write_slot, p)"
| "u_mulle_pointerfifo_write pointer Write_slot p =
     map_option (\<lambda>st. (Write_advance, p\<lparr>pf_storage := st\<rparr>)) (set_slot (pf_storage p) (ucast (pf_write p)) pointer)"
| "u_mulle_pointerfifo_write pointer Write_advance p =
     Some (Write_increment, p\<lparr>pf_write := (pf_write p + 1) mod pf_size p\<rparr>)"
| "u_mulle_pointerfifo_write pointer Write_increment p =
     Some (Write_return 0, p\<lparr>pf_n := pf_n p + 1\<rparr>)"
| "u_mulle_pointerfifo_write pointer (Write_return rval) p = None"

section \<open>One reader and one writer\<close>

text \<open>
  \<open>None\<close>: the thread is not in a call. \<open>stored\<close> and \<open>answered\<close> record the pointers that the writer
  has published and that the reader has taken out.
\<close>

record pointerfifo_system =
  ps_fifo :: mulle_pointerfifo
  ps_reader :: "consumer option"
  ps_writer :: "(pointer \<times> producer) option"
  stored :: "pointer list"
  answered :: "pointer list"

inductive pointerfifo_step :: "pointerfifo_system \<Rightarrow> pointerfifo_system \<Rightarrow> bool" where
  call_read: "ps_reader s = None \<Longrightarrow> pointerfifo_step s (s\<lparr>ps_reader := Some Read_begin\<rparr>)"
| reading: "ps_reader s = Some r \<Longrightarrow> u_mulle_pointerfifo_read r (ps_fifo s) = Some (r', f) \<Longrightarrow>
    pointerfifo_step s (s\<lparr>ps_fifo := f, ps_reader := Some r',
      answered := answered s @ (case r of Read_decrement p \<Rightarrow> [p] | _ \<Rightarrow> [])\<rparr>)"
| return_read: "ps_reader s = Some (Read_return p) \<Longrightarrow> pointerfifo_step s (s\<lparr>ps_reader := None\<rparr>)"
| call_write: "ps_writer s = None \<Longrightarrow>
    pointerfifo_step s (s\<lparr>ps_writer := Some (p, pointerfifo_write_begin p)\<rparr>)"
| writing: "ps_writer s = Some (p, w) \<Longrightarrow> u_mulle_pointerfifo_write p w (ps_fifo s) = Some (w', f) \<Longrightarrow>
    pointerfifo_step s (s\<lparr>ps_fifo := f, ps_writer := Some (p, w'),
      stored := stored s @ (if w = Write_increment then [p] else [])\<rparr>)"
| return_write: "ps_writer s = Some (p, Write_return rval) \<Longrightarrow> pointerfifo_step s (s\<lparr>ps_writer := None\<rparr>)"

definition pointerfifo_start :: "uint32_t \<Rightarrow> pointer list \<Rightarrow> pointerfifo_system" where
  "pointerfifo_start sz garbage =
     \<lparr>ps_fifo = u_mulle_pointerfifo_init sz garbage, ps_reader = None, ps_writer = None,
      stored = [], answered = []\<rparr>"

inductive pointerfifo_reachable :: "uint32_t \<Rightarrow> pointer list \<Rightarrow> pointerfifo_system \<Rightarrow> bool" for sz garbage where
  start: "pointerfifo_reachable sz garbage (pointerfifo_start sz garbage)"
| step: "pointerfifo_reachable sz garbage s \<Longrightarrow> pointerfifo_step s s' \<Longrightarrow> pointerfifo_reachable sz garbage s'"

section \<open>Invariant\<close>

text \<open>
  With \<open>d\<close> pointers taken out of the \<open>ss\<close> published so far: where the indexes stand, what the slots
  hold and what each thread relies on at its point of the code.
\<close>

definition fifo_shared :: "uint32_t \<Rightarrow> mulle_pointerfifo \<Rightarrow> pointer list \<Rightarrow> nat \<Rightarrow> bool" where
  "fifo_shared sz f ss d \<longleftrightarrow>
     pf_size f = sz \<and> length (pf_storage f) = unat sz \<and> pf_n f = of_nat (length ss - d) \<and>
     d \<le> length ss \<and> length ss \<le> d + unat sz \<and>
     (\<forall>k. d \<le> k \<and> k < length ss \<longrightarrow> pf_storage f ! (k mod unat sz) = ss ! k) \<and> 0 \<notin> set ss"

fun consumer_ok :: "mulle_pointerfifo \<Rightarrow> pointer list \<Rightarrow> nat \<Rightarrow> consumer option \<Rightarrow> bool" where
  "consumer_ok f ss d (Some Read_slot) =
     (unat (pf_read f) = d mod unat (pf_size f) \<and> d < length ss)"
| "consumer_ok f ss d (Some (Read_advance p)) =
     (unat (pf_read f) = d mod unat (pf_size f) \<and> d < length ss \<and> p = ss ! d)"
| "consumer_ok f ss d (Some (Read_decrement p)) =
     (unat (pf_read f) = Suc d mod unat (pf_size f) \<and> d < length ss \<and> p = ss ! d)"
| "consumer_ok f ss d (Some (Read_return p)) =
     (unat (pf_read f) = d mod unat (pf_size f) \<and> (p \<noteq> 0 \<longrightarrow> 0 < d \<and> p = ss ! (d - 1)))"
| "consumer_ok f ss d _ = (unat (pf_read f) = d mod unat (pf_size f))"

fun producer_ok :: "mulle_pointerfifo \<Rightarrow> pointer list \<Rightarrow> nat \<Rightarrow> (pointer \<times> producer) option \<Rightarrow> bool" where
  "producer_ok f ss d (Some (p, Write_slot)) =
     (unat (pf_write f) = length ss mod unat (pf_size f) \<and> length ss < d + unat (pf_size f) \<and> p \<noteq> 0)"
| "producer_ok f ss d (Some (p, Write_advance)) =
     (unat (pf_write f) = length ss mod unat (pf_size f) \<and> length ss < d + unat (pf_size f) \<and> p \<noteq> 0 \<and>
      pf_storage f ! (length ss mod unat (pf_size f)) = p)"
| "producer_ok f ss d (Some (p, Write_increment)) =
     (unat (pf_write f) = Suc (length ss) mod unat (pf_size f) \<and> length ss < d + unat (pf_size f) \<and> p \<noteq> 0 \<and>
      pf_storage f ! (length ss mod unat (pf_size f)) = p)"
| "producer_ok f ss d (Some (p, Write_begin)) = (unat (pf_write f) = length ss mod unat (pf_size f) \<and> p \<noteq> 0)"
| "producer_ok f ss d _ = (unat (pf_write f) = length ss mod unat (pf_size f))"

definition pointerfifo_inv :: "uint32_t \<Rightarrow> pointerfifo_system \<Rightarrow> bool" where
  "pointerfifo_inv sz s \<longleftrightarrow>
     (\<exists>d. answered s = take d (stored s) \<and> fifo_shared sz (ps_fifo s) (stored s) d \<and>
        consumer_ok (ps_fifo s) (stored s) d (ps_reader s) \<and>
        producer_ok (ps_fifo s) (stored s) d (ps_writer s))"

lemma unat_ucast_of_nat: "x < 2 ^ 32 \<Longrightarrow> unat (ucast (of_nat x :: 64 word) :: 32 word) = x"
  by (simp add: unsigned_ucast_eq unat64_of_nat take_bit_eq_mod)

lemma fifo_shared_count:
  assumes "fifo_shared sz f ss d"
  shows "unat (u_mulle_pointerfifo_get_count f) = length ss - d"
proof -
  have "length ss \<le> d + unat sz" using assms by (simp add: fifo_shared_def)
  then have "length ss - d < 2 ^ 32" using unat32_less [of sz] by linarith
  moreover have "pf_n f = of_nat (length ss - d)" using assms unfolding fifo_shared_def by blast
  ultimately show ?thesis unfolding u_mulle_pointerfifo_get_count_def by (simp only: unat_ucast_of_nat)
qed

lemma ring_advance:
  assumes "unat (i :: 32 word) = k mod unat sz" and "0 < unat sz"
  shows "unat ((i + 1) mod sz) = Suc k mod unat sz"
proof -
  have "unat i < unat sz" using assms by simp
  then have "unat i + 1 < 2 ^ 32" using unat32_less [of sz] by linarith
  then have "unat (i + 1) = unat i + 1" by (simp add: unat_word_ariths)
  then show ?thesis using assms by (simp add: unat_mod mod_Suc_eq)
qed

lemma ring_slot_neq:
  assumes "d \<le> k" and "k < l" and "l < d + n"
  shows "k mod n \<noteq> l mod (n :: nat)"
proof
  assume "k mod n = l mod n"
  then have "n dvd l - k" using assms(2) by (metis less_imp_le mod_eq_dvd_iff_nat)
  then show False using assms by (auto dest: dvd_imp_le)
qed

lemma consumer_ok_other:
  "consumer_ok f ss d r \<Longrightarrow> pf_read g = pf_read f \<Longrightarrow> pf_size g = pf_size f \<Longrightarrow> d \<le> length ss \<Longrightarrow> consumer_ok g (ss @ xs) d r"
  by (induction f ss d r rule: consumer_ok.induct) (auto simp: nth_append)

lemma producer_ok_other:
  "producer_ok f ss d w \<Longrightarrow> pf_write g = pf_write f \<Longrightarrow> pf_size g = pf_size f \<Longrightarrow> pf_storage g = pf_storage f \<Longrightarrow>
     d \<le> e \<Longrightarrow> producer_ok g ss e w"
  by (induction f ss d w rule: producer_ok.induct) auto

lemma pointerfifo_read_inv:
  assumes inv: "pointerfifo_inv sz s" and n: "0 < unat sz"
    and r: "ps_reader s = Some r" and step: "u_mulle_pointerfifo_read r (ps_fifo s) = Some (r', f)"
  shows "pointerfifo_inv sz (s\<lparr>ps_fifo := f, ps_reader := Some r',
      answered := answered s @ (case r of Read_decrement p \<Rightarrow> [p] | _ \<Rightarrow> [])\<rparr>)"
proof -
  let ?f = "ps_fifo s" and ?ss = "stored s"
  obtain d where d: "answered s = take d ?ss" and sh: "fifo_shared sz ?f ?ss d"
    and c: "consumer_ok ?f ?ss d (Some r)" and p: "producer_ok ?f ?ss d (ps_writer s)"
    using inv r by (auto simp: pointerfifo_inv_def)
  have sz: "pf_size ?f = sz" "length (pf_storage ?f) = unat sz" using sh by (simp_all add: fifo_shared_def)
  show ?thesis
  proof (cases r)
    case Read_begin
    have "u_mulle_pointerfifo_get_count ?f = 0 \<longleftrightarrow> length ?ss - d = 0"
      using fifo_shared_count [OF sh] by (metis unat_0 unat_eq_0)
    then have "consumer_ok ?f ?ss d (Some r')" "f = ?f" using step c Read_begin by auto
    then show ?thesis using d sh p Read_begin by (auto simp: pointerfifo_inv_def intro!: exI [of _ d])
  next
    case Read_slot
    then have i: "unat (ucast (pf_read ?f) :: 64 word) = d mod unat sz" "d < length ?ss"
      using c sz by (simp_all add: unat_ucast_32_64)
    moreover have "d mod unat sz < length (pf_storage ?f)" using n sz by simp
    moreover have "pf_storage ?f ! (d mod unat sz) = ?ss ! d" using sh i(2) by (simp add: fifo_shared_def)
    ultimately have "r' = Read_advance (?ss ! d)" "f = ?f" using step Read_slot by (auto simp: slot_def)
    then show ?thesis using d sh p c Read_slot by (auto simp: pointerfifo_inv_def intro!: exI [of _ d])
  next
    case (Read_advance q)
    then have r': "r' = Read_decrement q" "f = ?f\<lparr>pf_read := (pf_read ?f + 1) mod pf_size ?f\<rparr>" using step by auto
    have "unat ((pf_read ?f + 1) mod sz) = Suc d mod unat sz" using c Read_advance sz n by (intro ring_advance) auto
    then have "consumer_ok f ?ss d (Some r')" using c Read_advance sz by (simp add: r')
    moreover have "fifo_shared sz f ?ss d" using sh by (simp add: r' fifo_shared_def)
    moreover have "producer_ok f ?ss d (ps_writer s)" using producer_ok_other [OF p] by (simp add: r')
    ultimately show ?thesis using d Read_advance by (auto simp: pointerfifo_inv_def intro!: exI [of _ d])
  next
    case (Read_decrement q)
    then have r': "r' = Read_return q" "f = ?f\<lparr>pf_n := pf_n ?f - 1\<rparr>" using step by auto
    have lt: "d < length ?ss" "q = ?ss ! d" using c Read_decrement by auto
    have "pf_n ?f = of_nat (length ?ss - Suc d) + 1"
      using sh lt by (simp add: fifo_shared_def)
    then have "fifo_shared sz f ?ss (Suc d)" using sh lt by (simp add: r' fifo_shared_def)
    moreover have "consumer_ok f ?ss (Suc d) (Some r')" using c Read_decrement by (simp add: r')
    moreover have "producer_ok f ?ss (Suc d) (ps_writer s)" using producer_ok_other [OF p] by (simp add: r')
    moreover have "answered s @ [q] = take (Suc d) ?ss" using d lt by (simp add: take_Suc_conv_app_nth)
    ultimately show ?thesis using Read_decrement by (auto simp: pointerfifo_inv_def intro!: exI [of _ "Suc d"])
  next
    case (Read_return q)
    then show ?thesis using step by simp
  qed
qed

lemma pointerfifo_write_inv:
  assumes inv: "pointerfifo_inv sz s" and n: "0 < unat sz"
    and w: "ps_writer s = Some (x, w)" and step: "u_mulle_pointerfifo_write x w (ps_fifo s) = Some (w', f)"
  shows "pointerfifo_inv sz (s\<lparr>ps_fifo := f, ps_writer := Some (x, w'),
      stored := stored s @ (if w = Write_increment then [x] else [])\<rparr>)"
proof -
  let ?f = "ps_fifo s" and ?ss = "stored s"
  obtain d where d: "answered s = take d ?ss" and sh: "fifo_shared sz ?f ?ss d"
    and c: "consumer_ok ?f ?ss d (ps_reader s)" and p: "producer_ok ?f ?ss d (Some (x, w))"
    using inv w by (auto simp: pointerfifo_inv_def)
  have sz: "pf_size ?f = sz" "length (pf_storage ?f) = unat sz" and le: "d \<le> length ?ss" "length ?ss \<le> d + unat sz"
    using sh by (simp_all add: fifo_shared_def)
  have c': "consumer_ok g (?ss @ xs) d (ps_reader s)" if "pf_read g = pf_read ?f" "pf_size g = pf_size ?f" for g xs
    using consumer_ok_other [OF c that le(1)] .
  show ?thesis
  proof (cases w)
    case Write_begin
    have "u_mulle_pointerfifo_get_count ?f = sz \<longleftrightarrow> length ?ss - d = unat sz"
      using fifo_shared_count [OF sh] by (metis unat_eq_iff)
    then have "producer_ok ?f ?ss d (Some (x, w'))" "f = ?f" using step p sz le Write_begin by auto
    then show ?thesis using d sh c Write_begin by (auto simp: pointerfifo_inv_def intro!: exI [of _ d])
  next
    case Write_slot
    let ?i = "length ?ss mod unat sz"
    have i: "unat (ucast (pf_write ?f) :: 64 word) = ?i" "?i < length (pf_storage ?f)"
      using p Write_slot sz n by (simp_all add: unat_ucast_32_64)
    then have w': "w' = Write_advance" "f = ?f\<lparr>pf_storage := (pf_storage ?f)[?i := x]\<rparr>"
      using step Write_slot by (auto simp: set_slot_def)
    have lt: "length ?ss < d + unat sz" using p Write_slot sz by simp
    have "(pf_storage ?f)[?i := x] ! (k mod unat sz) = ?ss ! k" if "d \<le> k" "k < length ?ss" for k
      using ring_slot_neq [OF that lt] sh that by (simp add: fifo_shared_def)
    then have "fifo_shared sz f ?ss d" using sh by (simp add: w' fifo_shared_def)
    moreover have "producer_ok f ?ss d (Some (x, w'))" using p Write_slot sz i by (simp add: w')
    moreover have "consumer_ok f ?ss d (ps_reader s)" using c' [of f "[]"] by (simp add: w')
    ultimately show ?thesis using d Write_slot by (auto simp: pointerfifo_inv_def intro!: exI [of _ d])
  next
    case Write_advance
    then have w': "w' = Write_increment" "f = ?f\<lparr>pf_write := (pf_write ?f + 1) mod pf_size ?f\<rparr>" using step by auto
    have "unat ((pf_write ?f + 1) mod sz) = Suc (length ?ss) mod unat sz" using p Write_advance sz n by (intro ring_advance) auto
    then have "producer_ok f ?ss d (Some (x, w'))" using p Write_advance sz by (simp add: w')
    moreover have "fifo_shared sz f ?ss d" using sh by (simp add: w' fifo_shared_def)
    moreover have "consumer_ok f ?ss d (ps_reader s)" using c' [of f "[]"] by (simp add: w')
    ultimately show ?thesis using d Write_advance by (auto simp: pointerfifo_inv_def intro!: exI [of _ d])
  next
    case Write_increment
    then have w': "w' = Write_return 0" "f = ?f\<lparr>pf_n := pf_n ?f + 1\<rparr>" using step by auto
    have x: "length ?ss < d + unat sz" "x \<noteq> 0" "pf_storage ?f ! (length ?ss mod unat sz) = x"
      using p Write_increment sz by auto
    have "pf_n ?f + 1 = of_nat (Suc (length ?ss) - d)" using sh le by (simp add: fifo_shared_def Suc_diff_le)
    then have "fifo_shared sz f (?ss @ [x]) d"
      using sh x by (auto simp: w' fifo_shared_def nth_append less_Suc_eq)
    moreover have "producer_ok f (?ss @ [x]) d (Some (x, w'))" using p Write_increment by (simp add: w')
    moreover have "consumer_ok f (?ss @ [x]) d (ps_reader s)" using c' [of f "[x]"] by (simp add: w')
    moreover have "answered s = take d (?ss @ [x])" using d le by simp
    ultimately show ?thesis using Write_increment by (auto simp: pointerfifo_inv_def intro!: exI [of _ d])
  next
    case (Write_return rval)
    then show ?thesis using step by simp
  qed
qed

lemma pointerfifo_step_inv:
  assumes "pointerfifo_step s s'" and inv: "pointerfifo_inv sz s" and n: "0 < unat sz"
  shows "pointerfifo_inv sz s'"
  using assms(1)
proof cases
  case call_read
  then show ?thesis using inv by (auto simp: pointerfifo_inv_def)
next
  case (reading r r' f)
  then show ?thesis using pointerfifo_read_inv [OF inv n] by simp
next
  case (return_read p)
  then show ?thesis using inv by (auto simp: pointerfifo_inv_def)
next
  case (call_write p)
  then show ?thesis using inv by (auto simp: pointerfifo_inv_def pointerfifo_write_begin_def)
next
  case (writing p w w' f)
  then show ?thesis using pointerfifo_write_inv [OF inv n] by simp
next
  case (return_write p rval)
  then show ?thesis using inv by (auto simp: pointerfifo_inv_def)
qed

lemma pointerfifo_reachable_inv:
  "pointerfifo_reachable sz garbage s \<Longrightarrow> 0 < unat sz \<Longrightarrow> length garbage = unat sz \<Longrightarrow> pointerfifo_inv sz s"
proof (induction rule: pointerfifo_reachable.induct)
  case start
  then show ?case
    by (auto simp: pointerfifo_inv_def pointerfifo_start_def u_mulle_pointerfifo_init_def fifo_shared_def)
next
  case (step s s')
  then show ?case using pointerfifo_step_inv by blast
qed

section \<open>What the calls are due to answer\<close>

text \<open>
  Along a run of the two threads, the answers that the current calls owe: they are settled by the
  contents of the queue at the moment when a call tests the count, whatever happens up to its return.
\<close>

fun read_due :: "consumer option \<Rightarrow> pointer list \<Rightarrow> nat \<Rightarrow> pointer \<Rightarrow> pointer" where
  "read_due (Some Read_begin) ss d r = (if d = length ss then 0 else ss ! d)"
| "read_due _ ss d r = r"

fun write_due ::
    "uint32_t \<Rightarrow> (pointer \<times> producer) option \<Rightarrow> pointer list \<Rightarrow> nat \<Rightarrow> int \<Rightarrow> int" where
  "write_due sz (Some (p, Write_begin)) ss d v = (if length ss = d + unat sz then -1 else 0)"
| "write_due sz _ ss d v = v"

inductive pointerfifo_owes :: "uint32_t \<Rightarrow> pointer list \<Rightarrow> pointerfifo_system \<Rightarrow> pointer \<Rightarrow> int \<Rightarrow> bool"
  for sz garbage where
  start: "pointerfifo_owes sz garbage (pointerfifo_start sz garbage) 0 0"
| step: "pointerfifo_owes sz garbage s r v \<Longrightarrow> pointerfifo_step s s' \<Longrightarrow>
    pointerfifo_owes sz garbage s' (read_due (ps_reader s) (stored s) (length (answered s)) r)
      (write_due sz (ps_writer s) (stored s) (length (answered s)) v)"

lemma reachable_owes: "pointerfifo_reachable sz garbage s \<Longrightarrow> \<exists>r v. pointerfifo_owes sz garbage s r v"
  by (induction rule: pointerfifo_reachable.induct) (blast intro: pointerfifo_owes.intros)+

lemma owes_reachable: "pointerfifo_owes sz garbage s r v \<Longrightarrow> pointerfifo_reachable sz garbage s"
  by (induction rule: pointerfifo_owes.induct) (blast intro: pointerfifo_reachable.intros)+

fun consumer_owes :: "consumer option \<Rightarrow> pointer list \<Rightarrow> nat \<Rightarrow> pointer \<Rightarrow> bool" where
  "consumer_owes None ss d r \<longleftrightarrow> True"
| "consumer_owes (Some Read_begin) ss d r \<longleftrightarrow> True"
| "consumer_owes (Some (Read_return p)) ss d r \<longleftrightarrow> p = r"
| "consumer_owes (Some _) ss d r \<longleftrightarrow> r = ss ! d"

fun producer_owes :: "(pointer \<times> producer) option \<Rightarrow> pointer list \<Rightarrow> int \<Rightarrow> bool" where
  "producer_owes None ss v \<longleftrightarrow> True"
| "producer_owes (Some (p, Write_begin)) ss v \<longleftrightarrow> p \<noteq> 0"
| "producer_owes (Some (p, Write_return rval)) ss v \<longleftrightarrow>
     rval = (if p = 0 then -2 else v) \<and> (rval = 0 \<longrightarrow> ss \<noteq> [] \<and> last ss = p)"
| "producer_owes (Some (p, _)) ss v \<longleftrightarrow> p \<noteq> 0 \<and> v = 0"

text \<open>What the invariant of the queue says at the points that matter here.\<close>

lemma inv_points:
  assumes inv: "pointerfifo_inv sz s" and n: "0 < unat sz"
  shows "u_mulle_pointerfifo_get_count (ps_fifo s) = 0 \<longleftrightarrow> length (answered s) = length (stored s)"
    and "u_mulle_pointerfifo_get_count (ps_fifo s) = pf_size (ps_fifo s) \<longleftrightarrow>
      length (stored s) = length (answered s) + unat sz"
    and "ps_reader s = Some Read_slot \<Longrightarrow> length (answered s) < length (stored s)"
    and "ps_reader s = Some (Read_advance p) \<Longrightarrow>
      length (answered s) < length (stored s) \<and> p = stored s ! length (answered s)"
    and "ps_reader s = Some (Read_decrement p) \<Longrightarrow>
      length (answered s) < length (stored s) \<and> p = stored s ! length (answered s)"
proof -
  let ?f = "ps_fifo s" and ?ss = "stored s"
  obtain d where d: "answered s = take d ?ss" and sh: "fifo_shared sz ?f ?ss d"
    and c: "consumer_ok ?f ?ss d (ps_reader s)"
    using inv by (auto simp: pointerfifo_inv_def)
  have b: "d \<le> length ?ss" "pf_size ?f = sz" using sh by (simp_all add: fifo_shared_def)
  have len: "length (answered s) = d" using d b(1) by simp
  have "u_mulle_pointerfifo_get_count ?f = 0 \<longleftrightarrow> length ?ss - d = 0"
    using fifo_shared_count [OF sh] by (metis unat_0 unat_eq_0)
  then show "u_mulle_pointerfifo_get_count ?f = 0 \<longleftrightarrow> length (answered s) = length ?ss"
    using b(1) len by auto
  have "u_mulle_pointerfifo_get_count ?f = sz \<longleftrightarrow> length ?ss - d = unat sz"
    using fifo_shared_count [OF sh] by (metis unat_eq_iff)
  then show "u_mulle_pointerfifo_get_count ?f = pf_size ?f \<longleftrightarrow> length ?ss = length (answered s) + unat sz"
    using b len n by auto
  show "ps_reader s = Some Read_slot \<Longrightarrow> length (answered s) < length ?ss"
    "ps_reader s = Some (Read_advance p) \<Longrightarrow> length (answered s) < length ?ss \<and> p = ?ss ! length (answered s)"
    "ps_reader s = Some (Read_decrement p) \<Longrightarrow> length (answered s) < length ?ss \<and> p = ?ss ! length (answered s)"
    using c len by auto
qed

lemma read_owes:
  assumes inv: "pointerfifo_inv sz s" and n: "0 < unat sz"
    and own: "consumer_owes (Some q) (stored s) (length (answered s)) r"
    and q: "ps_reader s = Some q" and step: "u_mulle_pointerfifo_read q (ps_fifo s) = Some (q', f)"
  shows "consumer_owes (Some q') (stored s)
    (length (answered s @ (case q of Read_decrement p \<Rightarrow> [p] | _ \<Rightarrow> [])))
    (read_due (Some q) (stored s) (length (answered s)) r)"
proof (cases q)
  case Read_begin
  with step inv_points(1) [OF inv n] show ?thesis by (auto split: if_splits)
next
  case Read_slot
  with own step show ?thesis by auto
next
  case (Read_advance p)
  with own step show ?thesis by auto
next
  case (Read_decrement p)
  with own step inv_points(5) [OF inv n, of p] q show ?thesis by auto
next
  case (Read_return p)
  with step show ?thesis by simp
qed

lemma write_owes:
  assumes inv: "pointerfifo_inv sz s" and n: "0 < unat sz"
    and own: "producer_owes (Some (x, w)) (stored s) v"
    and step: "u_mulle_pointerfifo_write x w (ps_fifo s) = Some (w', f)"
  shows "producer_owes (Some (x, w')) (stored s @ (if w = Write_increment then [x] else []))
    (write_due sz (Some (x, w)) (stored s) (length (answered s)) v)"
  using own step inv_points(2) [OF inv n] by (cases w) (auto split: if_splits)

lemma consumer_owes_append:
  assumes inv: "pointerfifo_inv sz s" and n: "0 < unat sz"
    and own: "consumer_owes (ps_reader s) (stored s) (length (answered s)) r"
  shows "consumer_owes (ps_reader s) (stored s @ xs) (length (answered s))
    (read_due (ps_reader s) (stored s) (length (answered s)) r)"
proof (cases "ps_reader s")
  case (Some q)
  then show ?thesis using own inv_points(3-5) [OF inv n] by (cases q) (simp_all add: nth_append)
qed simp

lemma producer_owes_due:
  "producer_owes w ss v \<Longrightarrow> producer_owes w ss (write_due sz w ss d v)"
  by (cases "(sz, w, ss, d, v)" rule: write_due.cases) simp_all

lemma step_owes:
  assumes step: "pointerfifo_step s s'" and inv: "pointerfifo_inv sz s" and n: "0 < unat sz"
    and own: "consumer_owes (ps_reader s) (stored s) (length (answered s)) r"
      "producer_owes (ps_writer s) (stored s) v"
  shows "consumer_owes (ps_reader s') (stored s') (length (answered s'))
      (read_due (ps_reader s) (stored s) (length (answered s)) r) \<and>
    producer_owes (ps_writer s') (stored s')
      (write_due sz (ps_writer s) (stored s) (length (answered s)) v)"
  using step
proof cases
  case call_read
  with producer_owes_due [OF own(2)] show ?thesis by simp
next
  case (reading q q' f)
  with read_owes [OF inv n _ reading(2,3)] own(1) producer_owes_due [OF own(2)] show ?thesis by simp
next
  case (return_read p)
  with producer_owes_due [OF own(2)] show ?thesis by simp
next
  case (call_write p)
  with consumer_owes_append [OF inv n own(1), of "[]"] show ?thesis
    by (simp add: pointerfifo_write_begin_def)
next
  case (writing p w w' f)
  with write_owes [OF inv n _ writing(3), of v] own(2) consumer_owes_append [OF inv n own(1)]
  show ?thesis by simp
next
  case (return_write p rval)
  with consumer_owes_append [OF inv n own(1), of "[]"] show ?thesis by simp
qed

lemma owes_inv:
  "pointerfifo_owes sz garbage s r v \<Longrightarrow> 0 < unat sz \<Longrightarrow> length garbage = unat sz \<Longrightarrow>
   consumer_owes (ps_reader s) (stored s) (length (answered s)) r \<and> producer_owes (ps_writer s) (stored s) v"
proof (induction rule: pointerfifo_owes.induct)
  case start
  show ?case by (simp add: pointerfifo_start_def)
next
  case (step s r v s')
  then have "consumer_owes (ps_reader s) (stored s) (length (answered s)) r"
    "producer_owes (ps_writer s) (stored s) v" by simp_all
  with step_owes [OF step.hyps(2)
      pointerfifo_reachable_inv [OF owes_reachable [OF step.hyps(1)] step.prems] step.prems(1)]
  show ?case by blast
qed

section \<open>Properties\<close>

text \<open>
  C14. However the accesses of the reading and the writing thread interleave, the reader takes out the
  pointers in the order in which they were written, and at most \<open>size\<close> of them are queued. A read
  that answers a pointer answers the one it took out. Neither thread ever accesses a slot outside of
  the storage. No bound on the number of operations is needed.
\<close>

theorem mulle_pointerfifo_fifo_spec:
  assumes "pointerfifo_reachable sz garbage s" and "0 < unat sz" and "length garbage = unat sz"
  shows "answered s = take (length (answered s)) (stored s) \<and> 0 \<notin> set (stored s) \<and>
    length (stored s) \<le> length (answered s) + unat sz \<and>
    (\<forall>p. ps_reader s = Some (Read_return p) \<longrightarrow> p = 0 \<or> answered s \<noteq> [] \<and> p = last (answered s)) \<and>
    (\<forall>r. ps_reader s = Some r \<and> (\<forall>p. r \<noteq> Read_return p) \<longrightarrow> u_mulle_pointerfifo_read r (ps_fifo s) \<noteq> None) \<and>
    (\<forall>p w. ps_writer s = Some (p, w) \<and> (\<forall>v. w \<noteq> Write_return v) \<longrightarrow> u_mulle_pointerfifo_write p w (ps_fifo s) \<noteq> None)"
proof -
  let ?f = "ps_fifo s" and ?ss = "stored s"
  obtain d where d: "answered s = take d ?ss" and sh: "fifo_shared sz ?f ?ss d"
    and c: "consumer_ok ?f ?ss d (ps_reader s)" and w: "producer_ok ?f ?ss d (ps_writer s)"
    using pointerfifo_reachable_inv [OF assms] by (auto simp: pointerfifo_inv_def)
  have b: "d \<le> length ?ss" "length ?ss \<le> d + unat sz" "0 \<notin> set ?ss" "pf_size ?f = sz" "length (pf_storage ?f) = unat sz"
    using sh by (simp_all add: fifo_shared_def)
  have len: "length (answered s) = d" using d b(1) by simp
  have "answered s \<noteq> [] \<and> p = last (answered s)" if "ps_reader s = Some (Read_return p)" "p \<noteq> 0" for p
  proof -
    have "0 < d" "p = ?ss ! (d - 1)" using c that by auto
    moreover from this have "take d ?ss \<noteq> []" using b(1) by auto
    ultimately show ?thesis using d b(1) by (simp add: last_conv_nth)
  qed
  moreover have "u_mulle_pointerfifo_read r ?f \<noteq> None" if "ps_reader s = Some r" "\<forall>p. r \<noteq> Read_return p" for r
    using c that b assms(2) by (cases r) (auto simp: slot_def unat_ucast_32_64)
  moreover have "u_mulle_pointerfifo_write p v ?f \<noteq> None" if "ps_writer s = Some (p, v)" "\<forall>x. v \<noteq> Write_return x" for p v
    using w that b assms(2) by (cases v) (auto simp: set_slot_def unat_ucast_32_64)
  ultimately show ?thesis using d b len by auto
qed

text \<open>
  C27. The answers are exact, whatever the other thread does meanwhile. A read returns null when no
  pointer was queued at its test of the count, and otherwise the pointer that was the oldest one then. A
  write returns -2 for the null pointer, -1 when \<open>size\<close> pointers were queued at its test, and otherwise 0,
  and then its pointer is the last one that was stored. Every reachable state has such a history.
\<close>

theorem mulle_pointerfifo_answer_spec:
  assumes "pointerfifo_reachable sz garbage s" and "0 < unat sz" and "length garbage = unat sz"
  shows "(\<exists>r v. pointerfifo_owes sz garbage s r v) \<and>
    (\<forall>r v. pointerfifo_owes sz garbage s r v \<longrightarrow>
      (\<forall>p. ps_reader s = Some (Read_return p) \<longrightarrow> p = r) \<and>
      (\<forall>p rval. ps_writer s = Some (p, Write_return rval) \<longrightarrow>
         rval = (if p = 0 then -2 else v) \<and> (rval = 0 \<longrightarrow> stored s \<noteq> [] \<and> last (stored s) = p)))"
proof -
  have "(\<forall>p. ps_reader s = Some (Read_return p) \<longrightarrow> p = r) \<and>
      (\<forall>p rval. ps_writer s = Some (p, Write_return rval) \<longrightarrow>
         rval = (if p = 0 then -2 else v) \<and> (rval = 0 \<longrightarrow> stored s \<noteq> [] \<and> last (stored s) = p))"
    if "pointerfifo_owes sz garbage s r v" for r v
    using owes_inv [OF that assms(2,3)] by auto
  with reachable_owes [OF assms(1)] show ?thesis by blast
qed

theorem mulle_pointerfifo_fifo_spec_witness:
  "\<exists>s. pointerfifo_reachable 2 [9, 9] s \<and> ps_writer s = Some (5, Write_slot) \<and>
     u_mulle_pointerfifo_write 5 Write_slot (ps_fifo s) \<noteq> None"
proof -
  let ?s = "pointerfifo_start 2 [9, 9]"
  let ?t = "?s\<lparr>ps_writer := Some (5, Write_begin)\<rparr>" and ?u = "?s\<lparr>ps_writer := Some (5, Write_slot)\<rparr>"
  have "pointerfifo_step ?s ?t"
    using pointerfifo_step.call_write [of ?s 5] by (simp add: pointerfifo_start_def pointerfifo_write_begin_def)
  moreover have "pointerfifo_step ?t ?u"
    using pointerfifo_step.writing [of ?t 5 Write_begin Write_slot "ps_fifo ?s"]
    by (simp add: pointerfifo_start_def u_mulle_pointerfifo_init_def u_mulle_pointerfifo_get_count_def)
  ultimately have r: "pointerfifo_reachable 2 [9, 9] ?u"
    by (meson pointerfifo_reachable.intros)
  have "u_mulle_pointerfifo_write 5 Write_slot (ps_fifo ?u) \<noteq> None"
    using mulle_pointerfifo_fifo_spec [OF r] by simp
  with r show ?thesis by (intro exI [of _ ?u]) simp
qed

text \<open>A write of 5 to an empty queue, a read of it and the test of a second read.\<close>

theorem mulle_pointerfifo_answer_spec_witness:
  "\<exists>s. ps_reader s = Some (Read_return 5) \<and> ps_writer s = Some (5, Write_return 0) \<and>
     pointerfifo_owes 2 [9, 9] s 5 0"
proof -
  let ?s = "pointerfifo_start 2 [9, 9]"
  define w where "w c f xs = ?s\<lparr>ps_fifo := f, ps_writer := Some (5, c), stored := xs\<rparr>" for c f xs
  let ?f = "u_mulle_pointerfifo_init 2 [9, 9]"
  let ?f1 = "?f\<lparr>pf_storage := [5, 9]\<rparr>" let ?f2 = "?f1\<lparr>pf_write := 1\<rparr>" let ?f3 = "?f2\<lparr>pf_n := 1\<rparr>"
  define q where "q c f xs = (w (Write_return 0) f [5])\<lparr>ps_reader := Some c, answered := xs\<rparr>" for c f xs
  note defs = w_def q_def pointerfifo_start_def u_mulle_pointerfifo_init_def u_mulle_pointerfifo_get_count_def
    pointerfifo_write_begin_def slot_def set_slot_def
  have steps: "pointerfifo_step ?s (w Write_begin ?f [])"
      "pointerfifo_step (w Write_begin ?f []) (w Write_slot ?f [])"
      "pointerfifo_step (w Write_slot ?f []) (w Write_advance ?f1 [])"
      "pointerfifo_step (w Write_advance ?f1 []) (w Write_increment ?f2 [])"
      "pointerfifo_step (w Write_increment ?f2 []) (w (Write_return 0) ?f3 [5])"
    using pointerfifo_step.call_write [of ?s 5]
      pointerfifo_step.writing [of "w Write_begin ?f []" 5 Write_begin Write_slot ?f]
      pointerfifo_step.writing [of "w Write_slot ?f []" 5 Write_slot Write_advance ?f1]
      pointerfifo_step.writing [of "w Write_advance ?f1 []" 5 Write_advance Write_increment ?f2]
      pointerfifo_step.writing [of "w Write_increment ?f2 []" 5 Write_increment "Write_return 0" ?f3]
    by (simp_all add: defs)
  have reads: "pointerfifo_step (w (Write_return 0) ?f3 [5]) (q Read_begin ?f3 [])"
      "pointerfifo_step (q Read_begin ?f3 []) (q Read_slot ?f3 [])"
      "pointerfifo_step (q Read_slot ?f3 []) (q (Read_advance 5) ?f3 [])"
      "pointerfifo_step (q (Read_advance 5) ?f3 []) (q (Read_decrement 5) (?f3\<lparr>pf_read := 1\<rparr>) [])"
      "pointerfifo_step (q (Read_decrement 5) (?f3\<lparr>pf_read := 1\<rparr>) [])
        (q (Read_return 5) (?f3\<lparr>pf_read := 1, pf_n := 0\<rparr>) [5])"
    using pointerfifo_step.call_read [of "w (Write_return 0) ?f3 [5]"]
      pointerfifo_step.reading [of "q Read_begin ?f3 []" Read_begin Read_slot ?f3]
      pointerfifo_step.reading [of "q Read_slot ?f3 []" Read_slot "Read_advance 5" ?f3]
      pointerfifo_step.reading [of "q (Read_advance 5) ?f3 []" "Read_advance 5" "Read_decrement 5"
        "?f3\<lparr>pf_read := 1\<rparr>"]
      pointerfifo_step.reading [of "q (Read_decrement 5) (?f3\<lparr>pf_read := 1\<rparr>) []" "Read_decrement 5"
        "Read_return 5" "?f3\<lparr>pf_read := 1, pf_n := 0\<rparr>"]
    by (simp_all add: defs)
  let ?t = "q (Read_return 5) (?f3\<lparr>pf_read := 1, pf_n := 0\<rparr>) [5]"
  have r: "pointerfifo_reachable 2 [9, 9] ?t"
    using steps reads by (meson pointerfifo_reachable.intros)
  have t: "ps_reader ?t = Some (Read_return 5)" "ps_writer ?t = Some (5, Write_return 0)"
    by (simp_all add: defs)
  from mulle_pointerfifo_answer_spec [OF r] t have "pointerfifo_owes 2 [9, 9] ?t 5 0" by auto
  with t show ?thesis by blast
qed

end
