(* ===== verification/Linkedlist.thy ===== *)
theory Linkedlist
  imports Mulle_Prelude
begin

text \<open>
  The intrusive singly linked lists of \<open>mulle-linkedlist\<close>: the plain one of \<open>mulle-linkedlist.h\<close> and the
  one that many threads share, \<open>mulle-concurrent-linkedlist.h\<close> and \<open>.c\<close>. Entries belong to the callers;
  the lists only write their \<open>_next\<close> fields, which are the heap of the model.
\<close>

section \<open>Chains of entries\<close>

type_synonym links = "pointer \<Rightarrow> pointer"

fun list_chain :: "links \<Rightarrow> pointer \<Rightarrow> pointer list \<Rightarrow> bool" where
  "list_chain nx p [] = (p = 0)"
| "list_chain nx p (a # as) = (p = a \<and> a \<noteq> 0 \<and> list_chain nx (nx a) as)"

lemma list_chain_upd [simp]: "a \<notin> set as \<Longrightarrow> list_chain (nx(a := x)) p as = list_chain nx p as"
  by (induction as arbitrary: p) auto

lemma list_chain_0 [simp]: "list_chain nx 0 as \<longleftrightarrow> as = []"
  by (cases as) auto

lemma list_chain_not0: "p \<noteq> 0 \<Longrightarrow> list_chain nx p as \<longleftrightarrow> (\<exists>bs. as = p # bs \<and> list_chain nx (nx p) bs)"
  by (cases as) auto

lemma list_chain_unique: "list_chain nx p as \<Longrightarrow> list_chain nx p bs \<Longrightarrow> as = bs"
proof (induction as arbitrary: p bs)
  case Nil
  then show ?case by simp
next
  case (Cons a as)
  then show ?case by (cases bs) auto
qed

lemma list_chain_set: "list_chain nx p as \<Longrightarrow> 0 \<notin> set as"
  by (induction as arbitrary: p) auto

section \<open>The plain list\<close>

text \<open>The field \<open>_head._next\<close> is the first component of the state.\<close>

definition u_mulle_linkedlistentry_chain :: "pointer \<Rightarrow> links \<Rightarrow> pointer \<Rightarrow> pointer \<times> links" where
  "u_mulle_linkedlistentry_chain head nx entry = (entry, nx(entry := head))"

definition u_mulle_linkedlistentry_unchain :: "pointer \<Rightarrow> links \<Rightarrow> pointer \<times> pointer \<times> links" where
  "u_mulle_linkedlistentry_unchain head nx =
     (if head \<noteq> 0 then (head, nx head, nx(head := 0)) else (head, head, nx))"

definition u_mulle_linkedlist_remove_all :: "pointer \<Rightarrow> pointer \<times> pointer" where
  "u_mulle_linkedlist_remove_all head = (head, 0)"

definition u_mulle_linkedlist_remove_one :: "pointer \<Rightarrow> links \<Rightarrow> pointer \<times> pointer \<times> links" where
  "u_mulle_linkedlist_remove_one first nx =
     (let head = first
      in if head \<noteq> 0 then (head, nx head, nx(head := 0)) else (head, first, nx))"

definition u_mulle_linkedlist_add :: "pointer \<Rightarrow> links \<Rightarrow> pointer \<Rightarrow> pointer \<times> links" where
  "u_mulle_linkedlist_add first nx entry = (let n = first in (entry, nx(entry := n)))"

text \<open>
  The walk calls back for each entry with the one before it and stops at the first answer that is not
  0. The callback is a parameter, it may change its own state but not the list. \<open>None\<close>: no end.
\<close>

partial_function (option) linkedlist_walk_loop ::
    "links \<Rightarrow> ('s \<Rightarrow> pointer \<Rightarrow> pointer \<Rightarrow> int \<times> 's) \<Rightarrow> pointer \<Rightarrow> pointer \<Rightarrow> 's \<Rightarrow> (int \<times> 's) option" where
  "linkedlist_walk_loop nx callback entry prev state =
     (if entry = 0 then Some (0, state)
      else let n = nx entry; (rval, state) = callback state entry prev
           in if rval \<noteq> 0 then Some (rval, state)
              else linkedlist_walk_loop nx callback n entry state)"

definition u_mulle_linkedlist_walk ::
    "pointer \<Rightarrow> links \<Rightarrow> ('s \<Rightarrow> pointer \<Rightarrow> pointer \<Rightarrow> int \<times> 's) \<Rightarrow> 's \<Rightarrow> (int \<times> 's) option" where
  "u_mulle_linkedlist_walk first nx callback state = linkedlist_walk_loop nx callback first 0 state"

section \<open>The shared list\<close>

text \<open>
  The local part of \<open>_mulle_concurrent_linkedlist_remove_one\<close>: what it does with the chain it has detached
  between two accesses to the head. \<open>None\<close> is a null pointer dereference. The chain is private to the
  thread (which is proved below), so this part is one step.
\<close>

partial_function (option) chain_tail :: "links \<Rightarrow> pointer \<Rightarrow> pointer option" where
  "chain_tail nx tail =
     (if tail = 0 then None
      else let n = nx tail in if n = 0 then Some tail else chain_tail nx n)"

declare chain_tail.simps [code]

definition remove_one_splice :: "links \<Rightarrow> pointer \<Rightarrow> pointer \<Rightarrow> pointer \<Rightarrow> (links \<times> pointer \<times> pointer) option" where
  "remove_one_splice nx entry prev_chain chain =
     (if chain \<noteq> 0 then do {
        let (nx, entry, chain) =
          (if entry = 0 then (nx(chain := 0), chain, nx chain) else (nx, entry, chain));
        nx \<leftarrow> (if prev_chain \<noteq> 0 then map_option (\<lambda>tail. nx(tail := prev_chain)) (chain_tail nx chain) else Some nx);
        Some (nx, entry, chain) }
      else Some (nx, entry, prev_chain))"

text \<open>
  The points of the code of a call. \<open>remove_all\<close> is called by a user, or by \<open>remove_one\<close> with what
  that has in \<open>entry\<close> and \<open>prev_chain\<close>. \<open>past\<close> are the values the head has had: a relaxed read answers
  one of them, not always the latest. The weak compare-and-swap may fail for no reason.
\<close>

datatype remove_caller = User | Remove_one pointer pointer

datatype list_thread =
    LIdle
  | Add_begin pointer
  | Add_link pointer pointer
  | Add_cas pointer pointer
  | Remove_begin remove_caller
  | Remove_cas remove_caller pointer
  | Remove_done remove_caller pointer
  | One_cas pointer pointer
  | One_return pointer

record list_system =
  ls_head :: pointer
  ls_next :: links
  ls_past :: "pointer list"
  ls_threads :: "nat \<Rightarrow> list_thread"
  ls_free :: "pointer set"

definition set_head :: "pointer \<Rightarrow> list_system \<Rightarrow> list_system" where
  "set_head p s = s\<lparr>ls_head := p, ls_past := p # ls_past s\<rparr>"

definition goto :: "nat \<Rightarrow> list_thread \<Rightarrow> list_system \<Rightarrow> list_system" where
  "goto t th s = s\<lparr>ls_threads := (ls_threads s)(t := th)\<rparr>"

inductive list_step :: "list_system \<Rightarrow> list_system \<Rightarrow> bool" where
  call_add: "ls_threads s t = LIdle \<Longrightarrow> e \<in> ls_free s \<Longrightarrow>
    list_step s (goto t (Add_begin e) (s\<lparr>ls_free := ls_free s - {e}\<rparr>))"
| add_read: "ls_threads s t = Add_begin e \<Longrightarrow> h \<in> set (ls_past s) \<Longrightarrow>
    list_step s (goto t (Add_link e h) s)"
| add_link: "ls_threads s t = Add_link e h \<Longrightarrow>
    list_step s (goto t (Add_cas e h) (s\<lparr>ls_next := (ls_next s)(e := h)\<rparr>))"
| add_done: "ls_threads s t = Add_cas e h \<Longrightarrow> ls_head s = h \<Longrightarrow>
    list_step s (goto t LIdle (set_head e s))"
| add_again: "ls_threads s t = Add_cas e h \<Longrightarrow> ls_head s \<noteq> h \<Longrightarrow>
    list_step s (goto t (Add_begin e) s)"
| call_remove_all: "ls_threads s t = LIdle \<Longrightarrow> list_step s (goto t (Remove_begin User) s)"
| call_remove_one: "ls_threads s t = LIdle \<Longrightarrow> list_step s (goto t (Remove_begin (Remove_one 0 0)) s)"
| remove_read: "ls_threads s t = Remove_begin k \<Longrightarrow> h \<in> set (ls_past s) \<Longrightarrow>
    list_step s (goto t (if h = 0 then Remove_done k 0 else Remove_cas k h) s)"
| remove_done: "ls_threads s t = Remove_cas k h \<Longrightarrow> ls_head s = h \<Longrightarrow>
    list_step s (goto t (Remove_done k h) (set_head 0 s))"
| remove_again: "ls_threads s t = Remove_cas k h \<Longrightarrow> list_step s (goto t (Remove_begin k) s)"
| return_all: "ls_threads s t = Remove_done User h \<Longrightarrow> list_chain (ls_next s) h as \<Longrightarrow>
    list_step s (goto t LIdle (s\<lparr>ls_free := ls_free s \<union> set as\<rparr>))"
| splice: "ls_threads s t = Remove_done (Remove_one e p) h \<Longrightarrow>
    remove_one_splice (ls_next s) e p h = Some (nx, e', c) \<Longrightarrow>
    list_step s (goto t (if c = 0 then One_return e' else One_cas e' c) (s\<lparr>ls_next := nx\<rparr>))"
| put_back: "ls_threads s t = One_cas e c \<Longrightarrow> ls_head s = 0 \<Longrightarrow>
    list_step s (goto t (One_return e) (set_head c s))"
| put_again: "ls_threads s t = One_cas e c \<Longrightarrow>
    list_step s (goto t (Remove_begin (Remove_one e c)) s)"
| return_one: "ls_threads s t = One_return e \<Longrightarrow>
    list_step s (goto t LIdle (s\<lparr>ls_free := ls_free s \<union> ({e} - {0})\<rparr>))"

text \<open>A list is shared by threads that own the entries \<open>E\<close> at first.\<close>

definition list_start :: "links \<Rightarrow> pointer set \<Rightarrow> list_system" where
  "list_start nx E = \<lparr>ls_head = 0, ls_next = nx, ls_past = [0], ls_threads = (\<lambda>_. LIdle), ls_free = E\<rparr>"

inductive list_reachable :: "links \<Rightarrow> pointer set \<Rightarrow> list_system \<Rightarrow> bool" for nx E where
  start: "list_reachable nx E (list_start nx E)"
| step: "list_reachable nx E s \<Longrightarrow> list_step s s' \<Longrightarrow> list_reachable nx E s'"

section \<open>Who owns which entry\<close>

fun caller_holds :: "links \<Rightarrow> remove_caller \<Rightarrow> pointer list \<Rightarrow> bool" where
  "caller_holds nx User os = (os = [])"
| "caller_holds nx (Remove_one e p) os =
     (if e = 0 then p = 0 \<and> os = [] else (\<exists>ps. list_chain nx p ps \<and> os = e # ps))"

fun thread_holds :: "links \<Rightarrow> list_thread \<Rightarrow> pointer list \<Rightarrow> bool" where
  "thread_holds nx LIdle os = (os = [])"
| "thread_holds nx (Add_begin e) os = (e \<noteq> 0 \<and> os = [e])"
| "thread_holds nx (Add_link e h) os = (e \<noteq> 0 \<and> os = [e])"
| "thread_holds nx (Add_cas e h) os = (e \<noteq> 0 \<and> os = [e] \<and> nx e = h)"
| "thread_holds nx (Remove_begin k) os = caller_holds nx k os"
| "thread_holds nx (Remove_cas k h) os = caller_holds nx k os"
| "thread_holds nx (Remove_done k h) os =
     (\<exists>as ks. list_chain nx h as \<and> caller_holds nx k ks \<and> os = as @ ks)"
| "thread_holds nx (One_cas e c) os = (e \<noteq> 0 \<and> (\<exists>cs. list_chain nx c cs \<and> os = e # cs))"
| "thread_holds nx (One_return e) os = (os = (if e = 0 then [] else [e]))"

definition list_inv :: "pointer set \<Rightarrow> list_system \<Rightarrow> pointer list \<Rightarrow> (nat \<Rightarrow> pointer list) \<Rightarrow> bool" where
  "list_inv E s as own \<longleftrightarrow>
     list_chain (ls_next s) (ls_head s) as \<and> (\<forall>t. thread_holds (ls_next s) (ls_threads s t) (own t)) \<and>
     distinct as \<and> (\<forall>t. distinct (own t)) \<and>
     (\<forall>t. set as \<inter> set (own t) = {}) \<and> (\<forall>t u. t \<noteq> u \<longrightarrow> set (own t) \<inter> set (own u) = {}) \<and>
     ls_free s \<inter> set as = {} \<and> (\<forall>t. ls_free s \<inter> set (own t) = {}) \<and> 0 \<notin> ls_free s \<and>
     ls_free s \<union> set as \<union> (\<Union>t. set (own t)) = E"

lemma caller_holds_upd: "a \<notin> set os \<Longrightarrow> caller_holds nx k os \<Longrightarrow> caller_holds (nx(a := x)) k os"
  by (cases k) (auto split: if_splits)

lemma thread_holds_upd: "a \<notin> set os \<Longrightarrow> thread_holds nx th os \<Longrightarrow> thread_holds (nx(a := x)) th os"
proof (cases th)
  case (Remove_done k h)
  moreover assume "a \<notin> set os" "thread_holds nx th os"
  ultimately obtain as ks where "list_chain nx h as" "caller_holds nx k ks" "os = as @ ks" "a \<notin> set as" "a \<notin> set ks"
    by auto
  then have "list_chain (nx(a := x)) h as" "caller_holds (nx(a := x)) k ks" "os = as @ ks"
    using caller_holds_upd by auto
  then show ?thesis using Remove_done by (simp del: fun_upd_apply) blast
qed (auto intro: caller_holds_upd)

lemma list_chain_cong: "(\<And>a. a \<in> set as \<Longrightarrow> nx a = ny a) \<Longrightarrow> list_chain nx p as = list_chain ny p as"
  by (induction as arbitrary: p) auto

lemma list_chain_append:
  "list_chain nx p (as @ [l]) \<Longrightarrow> l \<notin> set as \<Longrightarrow> l \<notin> set bs \<Longrightarrow> list_chain nx q bs \<Longrightarrow>
     list_chain (nx(l := q)) p (as @ l # bs)"
  by (induction as arbitrary: p) auto

lemma chain_tail_list: "list_chain nx p (as @ [l]) \<Longrightarrow> chain_tail nx p = Some l"
proof (induction as arbitrary: p)
  case Nil
  then show ?case by (subst chain_tail.simps) simp
next
  case (Cons a as)
  then have "list_chain nx (nx a) (as @ [l])" "p = a" "a \<noteq> 0" by auto
  moreover have "nx a \<noteq> 0" using calculation(1) by (cases as) auto
  moreover have "chain_tail nx (nx a) = Some l" using calculation(1) by (rule Cons.IH)
  ultimately show ?case by (subst chain_tail.simps) (simp add: Let_def)
qed

lemma caller_holds_cong:
  assumes "\<And>a. a \<in> set os \<Longrightarrow> nx a = ny a" "caller_holds nx k os"
  shows "caller_holds ny k os"
proof (cases k)
  case User
  then show ?thesis using assms(2) by simp
next
  case (Remove_one e p)
  have "list_chain nx p ps \<Longrightarrow> os = e # ps \<Longrightarrow> list_chain ny p ps" for ps
    using assms(1) list_chain_cong[of ps nx ny p] by simp
  then show ?thesis using assms(2) Remove_one by (auto split: if_splits)
qed

lemma thread_holds_cong:
  assumes "\<And>a. a \<in> set os \<Longrightarrow> nx a = ny a" "thread_holds nx th os"
  shows "thread_holds ny th os"
proof (cases th)
  case (Remove_done k h)
  with assms(2) obtain as ks where as: "list_chain nx h as" "caller_holds nx k ks" "os = as @ ks"
    by auto
  then have "list_chain ny h as" "caller_holds ny k ks"
    using assms(1) list_chain_cong[of as nx ny h] caller_holds_cong[of ks nx ny k] by simp_all
  then show ?thesis using Remove_done as(3) by auto
next
  case (One_cas e c)
  have "list_chain nx c cs \<Longrightarrow> os = e # cs \<Longrightarrow> list_chain ny c cs" for cs
    using assms(1) list_chain_cong[of cs nx ny c] by simp
  then show ?thesis using assms(2) One_cas by auto
next
  case (Remove_begin k)
  then show ?thesis using assms(2) caller_holds_cong[OF assms(1)] by simp
next
  case (Remove_cas k h)
  then show ?thesis using assms(2) caller_holds_cong[OF assms(1)] by simp
qed (use assms in auto)

text \<open>
  The splice is total on what the thread holds and leaves it a single chain of the same entries: the
  one it answers and those it will put back. It writes no other link.
\<close>

lemma remove_one_splice_holds:
  assumes as: "list_chain nx h as" and ks: "caller_holds nx (Remove_one e p) ks" and d: "distinct (as @ ks)"
  shows "\<exists>nx' e' c os. remove_one_splice nx e p h = Some (nx', e', c) \<and>
    thread_holds nx' (if c = 0 then One_return e' else One_cas e' c) os \<and>
    set os = set as \<union> set ks \<and> distinct os \<and> (\<forall>a. a \<notin> set as \<union> set ks \<longrightarrow> nx' a = nx a)"
proof (cases as rule: rev_cases)
  case Nil
  with as ks show ?thesis
    by (intro exI[of _ nx] exI[of _ e] exI[of _ p] exI[of _ ks])
       (use d in \<open>auto simp: remove_one_splice_def split: if_splits\<close>)
next
  case (snoc bs l)
  have h0: "h \<noteq> 0" using as snoc by (cases bs) auto
  show ?thesis
  proof (cases "e = 0")
    case True
    then have "p = 0" "ks = []" using ks by auto
    moreover obtain cs where "as = h # cs" "list_chain nx (nx h) cs" using as h0 list_chain_not0 by blast
    ultimately show ?thesis using h0 True d
      by (intro exI[of _ "nx(h := 0)"] exI[of _ h] exI[of _ "nx h"] exI[of _ as])
         (auto simp: remove_one_splice_def)
  next
    case False
    then obtain ps where ps: "list_chain nx p ps" "ks = e # ps" using ks by auto
    show ?thesis
    proof (cases "p = 0")
      case True
      then show ?thesis using ps h0 False d as
        by (intro exI[of _ nx] exI[of _ e] exI[of _ h] exI[of _ "e # as"])
           (auto simp: remove_one_splice_def)
    next
      case p0: False
      have "chain_tail nx h = Some l" using as snoc chain_tail_list by simp
      moreover have "list_chain (nx(l := p)) h (bs @ l # ps)"
        using as snoc ps d by (intro list_chain_append) auto
      ultimately show ?thesis using ps h0 False d snoc p0
        by (intro exI[of _ "nx(l := p)"] exI[of _ e] exI[of _ h] exI[of _ "e # as @ ps"])
           (auto simp: remove_one_splice_def)
    qed
  qed
qed

lemma list_inv_start: "0 \<notin> E \<Longrightarrow> list_inv E (list_start nx E) [] (\<lambda>_. [])"
  by (simp add: list_inv_def list_start_def)

text \<open>
  A step of thread \<open>t\<close> writes only links of entries that it holds, and moves entries between the list,
  the free entries and its own.
\<close>

lemma list_inv_move:
  assumes inv: "list_inv E s as own"
    and s': "\<And>u. u \<noteq> t \<Longrightarrow> ls_threads s' u = ls_threads s u"
    and chain: "list_chain (ls_next s') (ls_head s') as'"
    and holds: "thread_holds (ls_next s') (ls_threads s' t) os"
    and frame: "\<And>a. a \<notin> set (own t) \<Longrightarrow> ls_next s' a = ls_next s a"
    and d: "distinct as'" "distinct os" "set as' \<inter> set os = {}" "ls_free s' \<inter> set as' = {}"
      "ls_free s' \<inter> set os = {}" "0 \<notin> ls_free s'"
    and E: "ls_free s' \<union> set as' \<union> set os = ls_free s \<union> set as \<union> set (own t)"
  shows "\<exists>as own. list_inv E s' as own"
proof -
  let ?own = "own(t := os)"
  have un: "\<forall>u v. u \<noteq> v \<longrightarrow> set (own u) \<inter> set (own v) = {}" and uas: "\<forall>u. set as \<inter> set (own u) = {}"
    and ufr: "\<forall>u. ls_free s \<inter> set (own u) = {}" and dis: "\<forall>u. distinct (own u)"
    and hs: "\<forall>u. thread_holds (ls_next s) (ls_threads s u) (own u)"
    and all: "ls_free s \<union> set as \<union> (\<Union>u. set (own u)) = E"
    using inv unfolding list_inv_def by blast+
  have apart: "set (own u) \<inter> (ls_free s' \<union> set as' \<union> set os) = {}" if "u \<noteq> t" for u
    unfolding E using un uas ufr that by blast
  have hold: "thread_holds (ls_next s') (ls_threads s' u) (?own u)" for u
  proof (cases "u = t")
    case False
    have "ls_next s a = ls_next s' a" if "a \<in> set (own u)" for a
      using frame[of a] un that False by (metis disjoint_iff)
    then show ?thesis using thread_holds_cong[of "own u" "ls_next s" "ls_next s'"] hs False s' by simp
  qed (use holds s' in simp)
  have apart': "set as' \<inter> set (?own u) = {}" "ls_free s' \<inter> set (?own u) = {}" "distinct (?own u)" for u
    using apart[of u] d dis by auto
  have un': "set (?own u) \<inter> set (?own v) = {}" if "u \<noteq> v" for u v
    using apart[of u] apart[of v] un that by auto
  have split_off: "(\<Union>u. f u) = f t \<union> (\<Union>u\<in>- {t}. f u)" for f :: "nat \<Rightarrow> pointer set" by blast
  have "(\<Union>u. set (?own u)) = set os \<union> (\<Union>u\<in>- {t}. set (own u))"
    by (subst split_off) simp
  then have "ls_free s' \<union> set as' \<union> (\<Union>u. set (?own u)) =
      (ls_free s' \<union> set as' \<union> set os) \<union> (\<Union>u\<in>- {t}. set (own u))" by (simp add: Un_assoc)
  also have "\<dots> = ls_free s \<union> set as \<union> (\<Union>u. set (own u))"
    unfolding E split_off[of "\<lambda>u. set (own u)"] by (simp add: Un_assoc)
  finally have "ls_free s' \<union> set as' \<union> (\<Union>u. set (?own u)) = E" unfolding all .
  then have "list_inv E s' as' ?own"
    unfolding list_inv_def by (intro conjI allI impI chain hold d(1,4,6) apart' un')
  then show ?thesis by blast
qed

lemma list_inv_holds: "list_inv E s as own \<Longrightarrow> ls_threads s t = th \<Longrightarrow>
    thread_holds (ls_next s) th (own t) \<and> distinct (own t) \<and> set as \<inter> set (own t) = {} \<and>
    ls_free s \<inter> set (own t) = {} \<and> list_chain (ls_next s) (ls_head s) as \<and> distinct as \<and> ls_free s \<inter> set as = {} \<and>
    0 \<notin> ls_free s"
  unfolding list_inv_def by blast


theorem list_inv_list_step:
  assumes "list_step s s'" and inv: "list_inv E s as own"
  shows "\<exists>as own. list_inv E s' as own"
proof -
  note holds = list_inv_holds[OF inv]
  from assms(1) show ?thesis
  proof cases
    case (call_add t e)
    then show ?thesis using holds[of t] by (intro list_inv_move[OF inv, of t _ as "[e]"]) (auto simp: goto_def)
  next
    case (add_read t e h)
    then show ?thesis using holds[of t] by (intro list_inv_move[OF inv, of t _ as "own t"]) (auto simp: goto_def)
  next
    case (add_link t e h)
    then show ?thesis using holds[of t] by (intro list_inv_move[OF inv, of t _ as "own t"]) (auto simp: goto_def)
  next
    case (add_done t e h)
    then show ?thesis using holds[of t]
      by (intro list_inv_move[OF inv, of t _ "e # as" "[]"]) (auto simp: goto_def set_head_def)
  next
    case (add_again t e h)
    then show ?thesis using holds[of t] by (intro list_inv_move[OF inv, of t _ as "own t"]) (auto simp: goto_def)
  next
    case (call_remove_all t)
    then show ?thesis using holds[of t] by (intro list_inv_move[OF inv, of t _ as "own t"]) (auto simp: goto_def)
  next
    case (call_remove_one t)
    then show ?thesis using holds[of t] by (intro list_inv_move[OF inv, of t _ as "own t"]) (auto simp: goto_def)
  next
    case (remove_read t k h)
    then show ?thesis using holds[of t] by (intro list_inv_move[OF inv, of t _ as "own t"]) (auto simp: goto_def)
  next
    case (remove_done t k h)
    then show ?thesis using holds[of t]
      by (intro list_inv_move[OF inv, of t _ "[]" "as @ own t"]) (auto simp: goto_def set_head_def)
  next
    case (remove_again t k h)
    then show ?thesis using holds[of t] by (intro list_inv_move[OF inv, of t _ as "own t"]) (auto simp: goto_def)
  next
    case (return_all t h bs)
    then have "own t = bs" using holds[of t] list_chain_unique by fastforce
    then show ?thesis using return_all holds[of t] list_chain_set[OF return_all(3)]
      by (intro list_inv_move[OF inv, of t _ as "[]"]) (auto simp: goto_def)
  next
    case (splice t e p h nx e' c)
    then obtain bs ks where b: "list_chain (ls_next s) h bs" "caller_holds (ls_next s) (Remove_one e p) ks"
      "own t = bs @ ks" using holds[of t] by auto
    obtain os where "thread_holds nx (if c = 0 then One_return e' else One_cas e' c) os"
      "set os = set (own t)" "distinct os" "\<forall>a. a \<notin> set (own t) \<longrightarrow> nx a = ls_next s a"
      using remove_one_splice_holds[OF b(1,2)] splice(3) b(3) holds[of t] by auto
    moreover from this(4) have "list_chain nx (ls_head s) as"
      using holds[of t] list_chain_cong[of as "ls_next s" nx] by (metis disjoint_iff)
    ultimately show ?thesis using splice holds[of t] by (intro list_inv_move[OF inv, of t _ as os]) (auto simp: goto_def)
  next
    case (put_back t e c)
    then obtain cs where "list_chain (ls_next s) c cs" "own t = e # cs" using holds[of t] by auto
    then show ?thesis using put_back holds[of t]
      by (intro list_inv_move[OF inv, of t _ cs "[e]"]) (auto simp: goto_def set_head_def)
  next
    case (put_again t e c)
    then show ?thesis using holds[of t] by (intro list_inv_move[OF inv, of t _ as "own t"]) (auto simp: goto_def)
  next
    case (return_one t e)
    then show ?thesis using holds[of t]
      by (intro list_inv_move[OF inv, of t _ as "[]"]) (auto simp: goto_def split: if_splits)
  qed
qed

lemma list_inv_reachable: "list_reachable nx E s \<Longrightarrow> 0 \<notin> E \<Longrightarrow> \<exists>as own. list_inv E s as own"
  by (induction rule: list_reachable.induct) (use list_inv_start list_inv_list_step in blast)+

lemma list_inv_splice:
  assumes "list_inv E s as own" "ls_threads s t = Remove_done (Remove_one e p) h"
  shows "remove_one_splice (ls_next s) e p h \<noteq> None"
proof -
  obtain bs ks where "list_chain (ls_next s) h bs" "caller_holds (ls_next s) (Remove_one e p) ks" "distinct (bs @ ks)"
    using list_inv_holds[OF assms] by auto
  then show ?thesis using remove_one_splice_holds by fastforce
qed

lemma list_inv_idle: "list_inv E s as own \<Longrightarrow> \<forall>t. ls_threads s t = LIdle \<Longrightarrow> ls_free s \<union> set as = E"
  unfolding list_inv_def by auto

text \<open>
  C8. However the threads interleave, whatever old value of the head a read answers and whenever the weak
  compare-and-swap fails, the head is a null terminated chain without a cycle, and every entry is either
  free, in the list or held by exactly one thread: none is lost, none is in two places (no ABA), and a
  thread's own chains are chains. \<open>remove_one\<close> never follows a null pointer, and once every call has
  returned, the free entries and those of the list are again all of them.
\<close>

theorem mulle_concurrent_linkedlist_spec:
  assumes "list_reachable nx E s" "0 \<notin> E"
  shows "\<exists>as own. list_inv E s as own \<and>
    (\<forall>t e p h. ls_threads s t = Remove_done (Remove_one e p) h \<longrightarrow> remove_one_splice (ls_next s) e p h \<noteq> None) \<and>
    ((\<forall>t. ls_threads s t = LIdle) \<longrightarrow> ls_free s \<union> set as = E)"
  using list_inv_reachable[OF assms] list_inv_splice list_inv_idle by metis

lemma list_reachable_add:
  assumes "list_reachable nx E s" "ls_threads s t = LIdle" "e \<in> ls_free s" "h \<in> set (ls_past s)" "ls_head s = h"
  shows "list_reachable nx E (goto t LIdle (set_head e (s\<lparr>ls_free := ls_free s - {e}, ls_next := (ls_next s)(e := h)\<rparr>)))"
proof -
  let ?a = "goto t (Add_begin e) (s\<lparr>ls_free := ls_free s - {e}\<rparr>)"
  let ?b = "goto t (Add_link e h) ?a"
  let ?c = "goto t (Add_cas e h) (?b\<lparr>ls_next := (ls_next s)(e := h)\<rparr>)"
  have "list_step s ?a" using assms(2,3) by (rule call_add)
  moreover have "list_step ?a ?b" by (rule add_read) (use assms in \<open>auto simp: goto_def\<close>)
  moreover have "list_step ?b (goto t (Add_cas e h) (?b\<lparr>ls_next := (ls_next ?b)(e := h)\<rparr>))"
    by (rule add_link) (auto simp: goto_def)
  then have "list_step ?b ?c" by (simp add: goto_def)
  moreover have "list_step ?c (goto t LIdle (set_head e ?c))"
    by (rule add_done) (use assms in \<open>auto simp: goto_def\<close>)
  ultimately have "list_reachable nx E (goto t LIdle (set_head e ?c))"
    using assms(1) list_reachable.step by meson
  then show ?thesis by (simp add: goto_def set_head_def)
qed

text \<open>One thread has added the entries 16 and then 8: 8 is in front of 16.\<close>

lemma mulle_concurrent_linkedlist_spec_witness:
  "\<exists>s as own. list_inv {8, 16, 24} s as own \<and> as = [8, 16] \<and> ls_free s = {24}"
proof -
  let ?s = "list_start (\<lambda>_. 0) {8, 16, 24}"
  let ?a = "goto 0 LIdle (set_head 16 (?s\<lparr>ls_free := {8, 24}, ls_next := (\<lambda>_. 0)(16 := 0)\<rparr>))"
  let ?b = "goto 0 LIdle (set_head 8 (?a\<lparr>ls_free := {24}, ls_next := (ls_next ?a)(8 := 16)\<rparr>))"
  have "list_reachable (\<lambda>_. 0) {8, 16, 24} ?a"
    using list_reachable_add[OF list_reachable.start, of "\<lambda>_. 0" "{8, 16, 24}" 0 16 0]
    by (simp add: list_start_def insert_Diff_if)
  then have "list_reachable (\<lambda>_. 0) {8, 16, 24} ?b"
    using list_reachable_add[of "\<lambda>_. 0" "{8, 16, 24}" ?a 0 8 16]
    by (simp add: list_start_def goto_def set_head_def insert_Diff_if)
  then obtain as own where as: "list_inv {8, 16, 24} ?b as own"
      "(\<forall>t. ls_threads ?b t = LIdle) \<longrightarrow> ls_free ?b \<union> set as = {8, 16, 24}"
    using mulle_concurrent_linkedlist_spec[of "\<lambda>_. 0" "{8, 16, 24}" ?b] by auto
  moreover have "list_chain (ls_next ?b) (ls_head ?b) as" using as(1) unfolding list_inv_def by blast
  moreover have "list_chain (ls_next ?b) (ls_head ?b) [8, 16]" by (simp add: goto_def set_head_def)
  ultimately have "as = [8, 16]" using list_chain_unique by blast
  moreover have "ls_free ?b = {24}" by (simp add: goto_def set_head_def)
  ultimately show ?thesis using as(1) by (intro exI[of _ ?b] exI[of _ as] exI[of _ own]) auto
qed

section \<open>The plain list implements a list of entries\<close>

text \<open>What the walk does with the list of the entries.\<close>

fun walk_list :: "('s \<Rightarrow> pointer \<Rightarrow> pointer \<Rightarrow> int \<times> 's) \<Rightarrow> pointer list \<Rightarrow> pointer \<Rightarrow> 's \<Rightarrow> int \<times> 's" where
  "walk_list callback [] prev st = (0, st)"
| "walk_list callback (a # as) prev st =
     (case callback st a prev of (rval, st') \<Rightarrow> if rval \<noteq> 0 then (rval, st') else walk_list callback as a st')"

lemma linkedlist_walk_loop_list:
  "list_chain nx p as \<Longrightarrow> linkedlist_walk_loop nx callback p prev st = Some (walk_list callback as prev st)"
proof (induction as arbitrary: p prev st)
  case Nil
  then show ?case by (subst linkedlist_walk_loop.simps) simp
next
  case (Cons a as)
  then show ?case by (subst linkedlist_walk_loop.simps) (auto split: prod.splits)
qed

text \<open>
  C28. Adding puts an entry in front, removing takes the front entry off and clears its link, removing all
  leaves the empty list, and the walk visits the entries in order, each with the one before it, up to the
  first answer that is not 0.
\<close>

theorem mulle_linkedlist_spec:
  assumes as: "list_chain nx head as" and e: "e \<noteq> 0" "e \<notin> set as" and d: "distinct as"
  shows "(\<exists>nx'. u_mulle_linkedlist_add head nx e = (e, nx') \<and> list_chain nx' e (e # as)) \<and>
    (\<exists>nx'. u_mulle_linkedlist_remove_one head nx =
       (if as = [] then 0 else hd as, if as = [] then 0 else if tl as = [] then 0 else hd (tl as), nx') \<and>
       list_chain nx' (if tl as = [] then 0 else hd (tl as)) (tl as) \<and> (as \<noteq> [] \<longrightarrow> nx' (hd as) = 0)) \<and>
    u_mulle_linkedlist_remove_all head = (head, 0) \<and> list_chain nx 0 [] \<and>
    u_mulle_linkedlist_walk head nx callback st = Some (walk_list callback as 0 st)"
proof -
  have "\<exists>nx'. u_mulle_linkedlist_remove_one head nx =
       (if as = [] then 0 else hd as, if as = [] then 0 else if tl as = [] then 0 else hd (tl as), nx') \<and>
       list_chain nx' (if tl as = [] then 0 else hd (tl as)) (tl as) \<and> (as \<noteq> [] \<longrightarrow> nx' (hd as) = 0)"
  proof (cases as)
    case (Cons a bs)
    then show ?thesis using as d by (cases bs) (auto simp: u_mulle_linkedlist_remove_one_def)
  qed (use as in \<open>simp add: u_mulle_linkedlist_remove_one_def\<close>)
  then show ?thesis using assms linkedlist_walk_loop_list[OF as]
    by (simp add: u_mulle_linkedlist_add_def u_mulle_linkedlist_remove_all_def u_mulle_linkedlist_walk_def)
qed

lemma mulle_linkedlist_spec_witness:
  "u_mulle_linkedlist_walk 8 ((\<lambda>_. 0)(8 := 16)) (\<lambda>st a prev. (if a = 16 then 3 else 0, st @ [(a, prev)])) [] =
     Some (3, [(8, 0), (16, 8)]) \<and>
   fst (u_mulle_linkedlist_remove_one 8 ((\<lambda>_. 0)(8 := 16))) = 8 \<and>
   fst (snd (u_mulle_linkedlist_remove_one 8 ((\<lambda>_. 0)(8 := 16)))) = 16"
  using mulle_linkedlist_spec[of "(\<lambda>_. 0)(8 := 16)" 8 "[8, 16]" 24 "\<lambda>st a prev. (if a = 16 then 3 else 0, st @ [(a, prev)])" "[]"]
  by auto

end
