(* ===== verification/Qsort.thy ===== *)
theory Qsort
  imports Mulle_Prelude "HOL-Library.Multiset"
begin

text \<open>
  The sorting of arrays in \<open>mulle-qsort.h\<close> and \<open>mulle-qsort.c\<close>: Bentley and McIlroy's quicksort with a
  partition into less, equal and greater elements, a pivot from up to nine elements and insertion sort
  for short or presorted parts. The array is a list of elements, a pointer into it is the index of the
  element it points to, so that \<open>es\<close>, the size of an element, is 1. \<open>None\<close> is an access outside of the
  array or a loop without an end. The comparison function is a parameter that may answer anything.
\<close>

section \<open>The code\<close>

type_synonym 'a mulle_qsort_r_cmp_t = "'a \<Rightarrow> 'a \<Rightarrow> int"

definition compare_at :: "'a mulle_qsort_r_cmp_t \<Rightarrow> 'a list \<Rightarrow> nat \<Rightarrow> nat \<Rightarrow> int option" where
  "compare_at cmp xs i j = (if i < length xs \<and> j < length xs then Some (cmp (xs ! i) (xs ! j)) else None)"

definition mulle_qsort_swapfunc :: "'a list \<Rightarrow> nat \<Rightarrow> nat \<Rightarrow> 'a list option" where
  "mulle_qsort_swapfunc xs a b =
     (if a < length xs \<and> b < length xs then Some (xs[a := xs ! b, b := xs ! a]) else None)"

text \<open>Swapping \<open>n\<close> elements: the bytes of one after the other, with the addresses growing.\<close>

fun mulle_qsort_vecswap :: "'a list \<Rightarrow> nat \<Rightarrow> nat \<Rightarrow> nat \<Rightarrow> 'a list option" where
  "mulle_qsort_vecswap xs a b 0 = Some xs"
| "mulle_qsort_vecswap xs a b (Suc n) = do {
     xs \<leftarrow> mulle_qsort_swapfunc xs a b;
     mulle_qsort_vecswap xs (a + 1) (b + 1) n }"

definition u_mulle_qsort_med3 :: "'a mulle_qsort_r_cmp_t \<Rightarrow> 'a list \<Rightarrow> nat \<Rightarrow> nat \<Rightarrow> nat \<Rightarrow> nat option" where
  "u_mulle_qsort_med3 cmp xs a b c = do {
     ab \<leftarrow> compare_at cmp xs a b;
     bc \<leftarrow> compare_at cmp xs b c;
     if ab < 0 then
       if bc < 0 then Some b
       else map_option (\<lambda>ac. if ac < 0 then c else a) (compare_at cmp xs a c)
     else
       if bc > 0 then Some b
       else map_option (\<lambda>ac. if ac < 0 then a else c) (compare_at cmp xs a c) }"

text \<open>The insertion sort of the elements from \<open>a\<close> on, \<open>n\<close> of them.\<close>

partial_function (option) qsort_insert ::
    "'a mulle_qsort_r_cmp_t \<Rightarrow> nat \<Rightarrow> nat \<Rightarrow> 'a list \<Rightarrow> 'a list option" where
  "qsort_insert cmp a pl xs =
     (if pl > a then do {
        r \<leftarrow> compare_at cmp xs (pl - 1) pl;
        if r > 0 then do {
          xs \<leftarrow> mulle_qsort_swapfunc xs pl (pl - 1);
          qsort_insert cmp a (pl - 1) xs }
        else Some xs }
      else Some xs)"

partial_function (option) qsort_insertion ::
    "'a mulle_qsort_r_cmp_t \<Rightarrow> nat \<Rightarrow> nat \<Rightarrow> nat \<Rightarrow> 'a list \<Rightarrow> 'a list option" where
  "qsort_insertion cmp a n pm xs =
     (if pm < a + n then do {
        xs \<leftarrow> qsort_insert cmp a pm xs;
        qsort_insertion cmp a n (pm + 1) xs }
      else Some xs)"

definition qsort_pivot :: "'a mulle_qsort_r_cmp_t \<Rightarrow> nat \<Rightarrow> nat \<Rightarrow> 'a list \<Rightarrow> nat option" where
  "qsort_pivot cmp a n xs =
     (let pm = a + n div 2
      in if n > 7 then
           let pl = a; pn = a + (n - 1)
           in if n > 40 then
                let d = n div 8
                in do {
                  pl \<leftarrow> u_mulle_qsort_med3 cmp xs pl (pl + d) (pl + 2 * d);
                  pm \<leftarrow> u_mulle_qsort_med3 cmp xs (pm - d) pm (pm + d);
                  pn \<leftarrow> u_mulle_qsort_med3 cmp xs (pn - 2 * d) (pn - d) pn;
                  u_mulle_qsort_med3 cmp xs pl pm pn }
              else u_mulle_qsort_med3 cmp xs pl pm pn
         else Some pm)"

text \<open>
  The partition: the two scans and the loop around them. The pivot stays at \<open>a\<close>; \<open>swapped\<close> is \<open>swap_cnt\<close>.
\<close>

partial_function (option) qsort_scan_up ::
    "'a mulle_qsort_r_cmp_t \<Rightarrow> nat \<Rightarrow> nat \<Rightarrow> 'a list \<Rightarrow> nat \<Rightarrow> nat \<Rightarrow> bool \<Rightarrow> ('a list \<times> nat \<times> nat \<times> bool) option" where
  "qsort_scan_up cmp a pc xs pa pb swapped =
     (if pb \<le> pc then do {
        cmp_result \<leftarrow> compare_at cmp xs pb a;
        if cmp_result \<le> 0 then
          if cmp_result = 0 then do {
            xs \<leftarrow> mulle_qsort_swapfunc xs pa pb;
            qsort_scan_up cmp a pc xs (pa + 1) (pb + 1) True }
          else qsort_scan_up cmp a pc xs pa (pb + 1) swapped
        else Some (xs, pa, pb, swapped) }
      else Some (xs, pa, pb, swapped))"

partial_function (option) qsort_scan_down ::
    "'a mulle_qsort_r_cmp_t \<Rightarrow> nat \<Rightarrow> nat \<Rightarrow> 'a list \<Rightarrow> nat \<Rightarrow> nat \<Rightarrow> bool \<Rightarrow> ('a list \<times> nat \<times> nat \<times> bool) option" where
  "qsort_scan_down cmp a pb xs pc pd swapped =
     (if pb \<le> pc then do {
        cmp_result \<leftarrow> compare_at cmp xs pc a;
        if cmp_result \<ge> 0 then
          if cmp_result = 0 then do {
            xs \<leftarrow> mulle_qsort_swapfunc xs pc pd;
            qsort_scan_down cmp a pb xs (pc - 1) (pd - 1) True }
          else qsort_scan_down cmp a pb xs (pc - 1) pd swapped
        else Some (xs, pc, pd, swapped) }
      else Some (xs, pc, pd, swapped))"

partial_function (option) qsort_partition ::
    "'a mulle_qsort_r_cmp_t \<Rightarrow> nat \<Rightarrow> 'a list \<Rightarrow> nat \<Rightarrow> nat \<Rightarrow> nat \<Rightarrow> nat \<Rightarrow> bool \<Rightarrow>
      ('a list \<times> nat \<times> nat \<times> nat \<times> nat \<times> bool) option" where
  "qsort_partition cmp a xs pa pb pc pd swapped = do {
     (xs, pa, pb, swapped) \<leftarrow> qsort_scan_up cmp a pc xs pa pb swapped;
     (xs, pc, pd, swapped) \<leftarrow> qsort_scan_down cmp a pb xs pc pd swapped;
     if pb > pc then Some (xs, pa, pb, pc, pd, swapped)
     else do {
       xs \<leftarrow> mulle_qsort_swapfunc xs pb pc;
       qsort_partition cmp a xs pa (pb + 1) (pc - 1) pd True } }"

text \<open>
  The jump back to the label \<open>loop\<close> is made with more than one element, where the test at the start of
  the function changes nothing; it is a call here.
\<close>

partial_function (option) u_mulle_qsort_r_inline ::
    "'a mulle_qsort_r_cmp_t \<Rightarrow> nat \<Rightarrow> nat \<Rightarrow> 'a list \<Rightarrow> 'a list option" where
  "u_mulle_qsort_r_inline cmp a n xs =
     (if n < 2 then Some xs
      else if n < 7 then qsort_insertion cmp a n (a + 1) xs
      else do {
        pm \<leftarrow> qsort_pivot cmp a n xs;
        xs \<leftarrow> mulle_qsort_swapfunc xs a pm;
        (xs, pa, pb, pc, pd, swapped) \<leftarrow>
          qsort_partition cmp a xs (a + 1) (a + 1) (a + (n - 1)) (a + (n - 1)) False;
        if \<not> swapped then qsort_insertion cmp a n (a + 1) xs
        else do {
          let pn = a + n;
          let d1 = min (pa - a) (pb - pa);
          xs \<leftarrow> mulle_qsort_vecswap xs a (pb - d1) d1;
          let d1 = min (pd - pc) (pn - (pd + 1));
          xs \<leftarrow> mulle_qsort_vecswap xs pb (pn - d1) d1;
          let d1 = pb - pa;
          let d2 = pd - pc;
          if d1 \<le> d2 then do {
            xs \<leftarrow> (if d1 > 1 then u_mulle_qsort_r_inline cmp a d1 xs else Some xs);
            if d2 > 1 then u_mulle_qsort_r_inline cmp (pn - d2) d2 xs else Some xs }
          else do {
            xs \<leftarrow> (if d2 > 1 then u_mulle_qsort_r_inline cmp (pn - d2) d2 xs else Some xs);
            if d1 > 1 then u_mulle_qsort_r_inline cmp a d1 xs else Some xs } } })"

definition mulle_qsort_r :: "'a list \<Rightarrow> nat \<Rightarrow> 'a mulle_qsort_r_cmp_t \<Rightarrow> 'a list option" where
  "mulle_qsort_r xs n cmp = (if n \<noteq> 0 then u_mulle_qsort_r_inline cmp 0 n xs else Some xs)"

section \<open>Rearranging a part of an array\<close>

definition rearranged :: "nat \<Rightarrow> nat \<Rightarrow> 'a list \<Rightarrow> 'a list \<Rightarrow> bool" where
  "rearranged a n xs ys \<longleftrightarrow> length ys = length xs \<and> mset ys = mset xs \<and> (\<forall>k. k < a \<or> a + n \<le> k \<longrightarrow> ys ! k = xs ! k)"

lemma rearranged_refl [simp]: "rearranged a n xs xs"
  by (simp add: rearranged_def)

lemma rearranged_trans [trans]: "rearranged a n xs ys \<Longrightarrow> rearranged a n ys zs \<Longrightarrow> rearranged a n xs zs"
  by (auto simp: rearranged_def)

lemma rearranged_mono: "rearranged b m xs ys \<Longrightarrow> a \<le> b \<Longrightarrow> b + m \<le> a + n \<Longrightarrow> rearranged a n xs ys"
  by (auto simp: rearranged_def)

lemma rearranged_length: "rearranged a n xs ys \<Longrightarrow> length ys = length xs"
  by (simp add: rearranged_def)

lemma rearranged_nth: "rearranged a n xs ys \<Longrightarrow> k < a \<or> a + n \<le> k \<Longrightarrow> ys ! k = xs ! k"
  by (auto simp: rearranged_def)

lemma list_parts: "xs = take a xs @ take n (drop a xs) @ drop (a + n) xs"
  by (metis append_take_drop_id drop_drop add.commute)

text \<open>What holds for all elements of the part still does.\<close>

lemma rearranged_all:
  assumes r: "rearranged a n xs ys" and n: "a + n \<le> length xs" and P: "\<And>k. a \<le> k \<Longrightarrow> k < a + n \<Longrightarrow> P (xs ! k)"
    and k: "a \<le> k" "k < a + n"
  shows "P (ys ! k)"
proof -
  have len: "length ys = length xs" using r by (rule rearranged_length)
  have "take a ys = take a xs"
    using n len rearranged_nth[OF r] by (intro nth_equalityI) auto
  moreover have "drop (a + n) ys = drop (a + n) xs"
    using n len rearranged_nth[OF r] by (intro nth_equalityI) auto
  moreover have "mset ys = mset xs" using r by (simp add: rearranged_def)
  ultimately have "mset (take n (drop a ys)) = mset (take n (drop a xs))"
    using list_parts[of xs a n] list_parts[of ys a n] by (metis add_left_cancel add_right_cancel mset_append)
  then have "set (take n (drop a ys)) = set (take n (drop a xs))" by (rule mset_eq_setD)
  moreover have "ys ! k \<in> set (take n (drop a ys))"
    using k n len by (auto simp: in_set_conv_nth intro!: exI[of _ "k - a"])
  ultimately obtain i where "i < n" "ys ! k = xs ! (a + i)"
    using n by (auto simp: in_set_conv_nth)
  then show ?thesis using P[of "a + i"] by simp
qed

lemma swapfunc_Some:
  "i < length xs \<Longrightarrow> j < length xs \<Longrightarrow> mulle_qsort_swapfunc xs i j = Some (xs[i := xs ! j, j := xs ! i])"
  by (simp add: mulle_qsort_swapfunc_def)

lemma rearranged_swap:
  "i < length xs \<Longrightarrow> j < length xs \<Longrightarrow> a \<le> i \<Longrightarrow> i < a + n \<Longrightarrow> a \<le> j \<Longrightarrow> j < a + n \<Longrightarrow>
     rearranged a n xs (xs[i := xs ! j, j := xs ! i])"
  by (simp add: rearranged_def mset_swap)

lemma compare_at_Some: "i < length xs \<Longrightarrow> j < length xs \<Longrightarrow> compare_at cmp xs i j = Some (cmp (xs ! i) (xs ! j))"
  by (simp add: compare_at_def)

subsection \<open>Swapping blocks\<close>

lemma vecswap_disjoint:
  "i + n \<le> j \<Longrightarrow> j + n \<le> length xs \<Longrightarrow>
     \<exists>ys. mulle_qsort_vecswap xs i j n = Some ys \<and> rearranged i (j + n - i) xs ys \<and>
       (\<forall>t < n. ys ! (i + t) = xs ! (j + t) \<and> ys ! (j + t) = xs ! (i + t)) \<and>
       (\<forall>k. k < i \<or> i + n \<le> k \<and> k < j \<or> j + n \<le> k \<longrightarrow> ys ! k = xs ! k)"
proof (induction n arbitrary: i j xs)
  case 0
  then show ?case by auto
next
  case (Suc n)
  let ?zs = "xs[i := xs ! j, j := xs ! i]"
  have "i + 1 + n \<le> j + 1" "j + 1 + n \<le> length ?zs" using Suc.prems by simp_all
  from Suc.IH[OF this] obtain ys where ys: "mulle_qsort_vecswap ?zs (i + 1) (j + 1) n = Some ys"
    "rearranged (i + 1) (j + 1 + n - (i + 1)) ?zs ys"
    "\<And>t. t < n \<Longrightarrow> ys ! (i + 1 + t) = ?zs ! (j + 1 + t) \<and> ys ! (j + 1 + t) = ?zs ! (i + 1 + t)"
    "\<And>k. k < i + 1 \<or> i + 1 + n \<le> k \<and> k < j + 1 \<or> j + 1 + n \<le> k \<Longrightarrow> ys ! k = ?zs ! k"
    by blast
  have "rearranged i (j + Suc n - i) xs ?zs" using Suc.prems by (intro rearranged_swap) auto
  also have "rearranged i (j + Suc n - i) ?zs ys" using ys(2) by (rule rearranged_mono) (use Suc.prems in auto)
  finally have "rearranged i (j + Suc n - i) xs ys" .
  moreover have "ys ! (i + t) = xs ! (j + t) \<and> ys ! (j + t) = xs ! (i + t)" if "t < Suc n" for t
  proof (cases t)
    case 0
    then show ?thesis using ys(4)[of i] ys(4)[of j] Suc.prems by simp
  next
    case (Suc t')
    then show ?thesis using ys(3)[of t'] that Suc.prems by simp
  qed
  moreover have "ys ! k = xs ! k" if "k < i \<or> i + Suc n \<le> k \<and> k < j \<or> j + Suc n \<le> k" for k
    using ys(4)[of k] that Suc.prems by auto
  ultimately show ?case using ys(1) Suc.prems by (simp add: swapfunc_Some)
qed

text \<open>Two adjacent blocks change places when the shorter one is swapped with the end of the longer one.\<close>

lemma vecswap_blocks:
  assumes le: "i \<le> m" "m \<le> j" "j \<le> length xs"
    and P: "\<And>k. i \<le> k \<Longrightarrow> k < m \<Longrightarrow> P (xs ! k)" and Q: "\<And>k. m \<le> k \<Longrightarrow> k < j \<Longrightarrow> Q (xs ! k)"
    and n: "n = min (m - i) (j - m)"
  shows "\<exists>ys. mulle_qsort_vecswap xs i (j - n) n = Some ys \<and> rearranged i (j - i) xs ys \<and>
    (\<forall>k. i \<le> k \<and> k < i + (j - m) \<longrightarrow> Q (ys ! k)) \<and> (\<forall>k. i + (j - m) \<le> k \<and> k < j \<longrightarrow> P (ys ! k))"
proof -
  have le': "i + n \<le> j - n" "j - n + n = j" "n \<le> m - i" "n \<le> j - m" using le n by (auto simp: min_def split: if_splits)
  obtain ys where ys: "mulle_qsort_vecswap xs i (j - n) n = Some ys" "rearranged i (j - i) xs ys"
    and ex: "\<And>t. t < n \<Longrightarrow> ys ! (i + t) = xs ! (j - n + t) \<and> ys ! (j - n + t) = xs ! (i + t)"
    and same: "\<And>k. i + n \<le> k \<and> k < j - n \<Longrightarrow> ys ! k = xs ! k"
    using vecswap_disjoint[of i n "j - n" xs] le' le(3) by auto
  have "Q (ys ! k)" if k: "i \<le> k" "k < i + (j - m)" for k
  proof (cases "k < i + n")
    case True
    then obtain t where "k = i + t" "t < n" using k(1) less_eqE by auto
    then show ?thesis using ex Q[of "j - n + t"] le' le by auto
  next
    case False
    then have "m \<le> k" "k < j - n" using k le n by auto
    then show ?thesis using same[of k] False Q[of k] le' le by auto
  qed
  moreover have "P (ys ! k)" if k: "i + (j - m) \<le> k" "k < j" for k
  proof (cases "j - n \<le> k")
    case True
    then obtain t where t: "k = j - n + t" using less_eqE by auto
    then have "t < n" using k le' by linarith
    then show ?thesis using t ex P[of "i + t"] le' le by auto
  next
    case False
    then have "k < m" "i + n \<le> k" using k le n by auto
    then show ?thesis using same[of k] False P[of k] le' le by auto
  qed
  ultimately show ?thesis using ys by blast
qed

section \<open>The insertion sort\<close>

definition in_order :: "'a mulle_qsort_r_cmp_t \<Rightarrow> nat \<Rightarrow> nat \<Rightarrow> 'a list \<Rightarrow> bool" where
  "in_order cmp a b xs \<longleftrightarrow> (\<forall>i j. a \<le> i \<longrightarrow> i < j \<longrightarrow> j < b \<longrightarrow> cmp (xs ! i) (xs ! j) \<le> 0)"

text \<open>Everything but the element at \<open>p\<close>, which may be too far back, is in order.\<close>

definition in_order_but :: "'a mulle_qsort_r_cmp_t \<Rightarrow> nat \<Rightarrow> nat \<Rightarrow> nat \<Rightarrow> 'a list \<Rightarrow> bool" where
  "in_order_but cmp a b p xs \<longleftrightarrow> (\<forall>i j. a \<le> i \<longrightarrow> i < j \<longrightarrow> j < b \<longrightarrow> j \<noteq> p \<longrightarrow> cmp (xs ! i) (xs ! j) \<le> 0)"

lemma in_order_but_swap:
  assumes ok: "compare_ok cmp" and o: "in_order_but cmp a b (Suc q) xs" and q: "a \<le> q" "Suc q < b" "b \<le> length xs"
    and gr: "cmp (xs ! q) (xs ! Suc q) > 0"
  shows "in_order_but cmp a b q (xs[Suc q := xs ! q, q := xs ! Suc q])"
  unfolding in_order_but_def
proof (intro allI impI)
  let ?ys = "xs[Suc q := xs ! q, q := xs ! Suc q]"
  fix i j
  assume ij: "a \<le> i" "i < j" "j < b" "j \<noteq> q"
  have o': "cmp (xs ! i) (xs ! j) \<le> 0" if "a \<le> i" "i < j" "j < b" "j \<noteq> Suc q" for i j
    using o that by (simp add: in_order_but_def)
  have y: "?ys ! k = (if k = Suc q then xs ! q else if k = q then xs ! Suc q else xs ! k)" for k
    using q by (auto simp: nth_list_update)
  consider "j = Suc q" "i = q" | "j = Suc q" "i < q" | "j \<noteq> Suc q" using ij by linarith
  then show "cmp (?ys ! i) (?ys ! j) \<le> 0"
  proof cases
    case 1
    then show ?thesis unfolding y using gr compare_okD(2)[OF ok, of "xs ! q" "xs ! Suc q"] by simp
  next
    case 2
    then show ?thesis unfolding y using o'[of i q] ij q by simp
  next
    case 3
    then show ?thesis unfolding y using o'[of q j] o'[of "Suc q" j] o'[of i j] ij q by auto
  qed
qed

lemma in_order_but_stop:
  assumes ok: "compare_ok cmp" and o: "in_order_but cmp a b p xs"
    and p: "a < p \<Longrightarrow> cmp (xs ! (p - 1)) (xs ! p) \<le> 0"
  shows "in_order cmp a b xs"
  unfolding in_order_def
proof (intro allI impI)
  fix i j
  assume ij: "a \<le> i" "i < j" "j < b"
  have o': "cmp (xs ! i) (xs ! j) \<le> 0" if "a \<le> i" "i < j" "j < b" "j \<noteq> p" for i j
    using o that by (simp add: in_order_but_def)
  show "cmp (xs ! i) (xs ! j) \<le> 0"
  proof (cases "j = p")
    case True
    then have le: "cmp (xs ! (p - 1)) (xs ! p) \<le> 0" using p ij by simp
    show ?thesis
    proof (cases "i = p - 1")
      case False
      then have "cmp (xs ! i) (xs ! (p - 1)) \<le> 0" using o'[of i "p - 1"] ij True by simp
      then show ?thesis using le compare_okD(1)[OF ok] True by blast
    qed (use le True in simp)
  qed (use o' ij in auto)
qed

lemma qsort_insert_spec:
  "a \<le> p \<Longrightarrow> p < b \<Longrightarrow> b \<le> length xs \<Longrightarrow>
     \<exists>ys. qsort_insert cmp a p xs = Some ys \<and> rearranged a (b - a) xs ys \<and>
       (compare_ok cmp \<and> in_order_but cmp a b p xs \<longrightarrow> in_order cmp a b ys)"
proof (induction "p - a" arbitrary: p xs)
  case 0
  then have "qsort_insert cmp a p xs = Some xs" by (subst qsort_insert.simps) simp
  then show ?case using in_order_but_stop[of cmp a b p xs] 0 by auto
next
  case (Suc d)
  then obtain q where pq: "p = Suc q" by (cases p) auto
  then have q: "a \<le> q" "q < b" "q < length xs" "p < length xs" "d = q - a" using Suc by auto
  show ?case
  proof (cases "cmp (xs ! q) (xs ! p) > 0")
    case True
    let ?zs = "xs[p := xs ! q, q := xs ! p]"
    have "b \<le> length ?zs" using Suc.prems by simp
    then obtain ys where ys: "qsort_insert cmp a q ?zs = Some ys" "rearranged a (b - a) ?zs ys"
      "compare_ok cmp \<and> in_order_but cmp a b q ?zs \<longrightarrow> in_order cmp a b ys"
      using Suc.hyps(1)[OF q(5) q(1,2)] by blast
    have "rearranged a (b - a) xs ?zs" using Suc.prems q by (intro rearranged_swap) auto
    then have "rearranged a (b - a) xs ys" using ys(2) by (rule rearranged_trans)
    moreover have "qsort_insert cmp a p xs = Some ys"
      using ys(1) q True pq by (subst qsort_insert.simps) (simp add: compare_at_Some swapfunc_Some)
    ultimately show ?thesis using ys(3) in_order_but_swap[of cmp a b q xs] q(1) Suc.prems(2,3) True pq by blast
  next
    case False
    then have "qsort_insert cmp a p xs = Some xs"
      using q pq by (subst qsort_insert.simps) (simp add: compare_at_Some)
    then show ?thesis using in_order_but_stop[of cmp a b p xs] False pq by auto
  qed
qed

lemma in_order_but_last: "in_order cmp a p xs \<Longrightarrow> in_order_but cmp a (Suc p) p xs"
  by (auto simp: in_order_def in_order_but_def)

lemma qsort_insertion_spec:
  "a \<le> p \<Longrightarrow> p \<le> a + n \<Longrightarrow> a + n \<le> length xs \<Longrightarrow>
     \<exists>ys. qsort_insertion cmp a n p xs = Some ys \<and> rearranged a n xs ys \<and>
       (compare_ok cmp \<and> in_order cmp a p xs \<longrightarrow> in_order cmp a (a + n) ys)"
proof (induction "a + n - p" arbitrary: p xs)
  case 0
  then show ?case by (subst qsort_insertion.simps) auto
next
  case (Suc d)
  obtain zs where zs: "qsort_insert cmp a p xs = Some zs" "rearranged a (Suc p - a) xs zs"
    "compare_ok cmp \<and> in_order_but cmp a (Suc p) p xs \<longrightarrow> in_order cmp a (Suc p) zs"
    using qsort_insert_spec[of a p "Suc p" xs cmp] Suc.prems Suc.hyps(2) by fastforce
  have r: "rearranged a n xs zs" using zs(2) by (rule rearranged_mono) (use Suc in auto)
  have "d = a + n - Suc p" "a \<le> Suc p" "Suc p \<le> a + n" "a + n \<le> length zs"
    using Suc.hyps(2) Suc.prems rearranged_length[OF r] by linarith+
  then obtain ys where ys: "qsort_insertion cmp a n (Suc p) zs = Some ys" "rearranged a n zs ys"
    "compare_ok cmp \<and> in_order cmp a (Suc p) zs \<longrightarrow> in_order cmp a (a + n) ys"
    using Suc.hyps(1)[of "Suc p" zs] by blast
  have "p < a + n" using Suc.hyps(2) by linarith
  then have "qsort_insertion cmp a n p xs = Some ys"
    using zs(1) ys(1) by (subst qsort_insertion.simps) simp
  then show ?case using ys zs(3) in_order_but_last rearranged_trans[OF r ys(2)] by blast
qed

section \<open>The partition\<close>

text \<open>
  Between the marks: from \<open>a\<close> on what is equal to the pivot \<open>v\<close>, from \<open>pa\<close> on what is less, from \<open>pb\<close> to \<open>pc\<close>
  what has not been looked at, up to \<open>pd\<close> what is greater and then again what is equal.
\<close>

definition parted ::
    "'a mulle_qsort_r_cmp_t \<Rightarrow> 'a \<Rightarrow> nat \<Rightarrow> nat \<Rightarrow> 'a list \<Rightarrow> nat \<Rightarrow> nat \<Rightarrow> nat \<Rightarrow> nat \<Rightarrow> bool" where
  "parted cmp v a n xs pa pb pc pd \<longleftrightarrow>
     a < pa \<and> pa \<le> pb \<and> pb \<le> Suc pc \<and> pc \<le> pd \<and> pd < a + n \<and> a + n \<le> length xs \<and> xs ! a = v \<and>
     (\<forall>k. a < k \<longrightarrow> k < pa \<longrightarrow> cmp (xs ! k) v = 0) \<and> (\<forall>k. pa \<le> k \<longrightarrow> k < pb \<longrightarrow> cmp (xs ! k) v < 0) \<and>
     (\<forall>k. pc < k \<longrightarrow> k \<le> pd \<longrightarrow> 0 < cmp (xs ! k) v) \<and> (\<forall>k. pd < k \<longrightarrow> k < a + n \<longrightarrow> cmp (xs ! k) v = 0)"

lemma partedD:
  assumes "parted cmp v a n xs pa pb pc pd"
  shows "a < pa" "pa \<le> pb" "pb \<le> Suc pc" "pc \<le> pd" "pd < a + n" "a + n \<le> length xs" "xs ! a = v"
    and "a < k \<Longrightarrow> k < pa \<Longrightarrow> cmp (xs ! k) v = 0" "pa \<le> k \<Longrightarrow> k < pb \<Longrightarrow> cmp (xs ! k) v < 0"
    and "pc < k \<Longrightarrow> k \<le> pd \<Longrightarrow> 0 < cmp (xs ! k) v" "pd < k \<Longrightarrow> k < a + n \<Longrightarrow> cmp (xs ! k) v = 0"
  using assms unfolding parted_def by blast+

lemma nth_swap:
  "i < length xs \<Longrightarrow> j < length xs \<Longrightarrow>
     xs[i := xs ! j, j := xs ! i] ! k = (if k = i then xs ! j else if k = j then xs ! i else xs ! k)"
  by (auto simp: nth_list_update)

lemma parted_up_less:
  "parted cmp v a n xs pa pb pc pd \<Longrightarrow> pb \<le> pc \<Longrightarrow> cmp (xs ! pb) v < 0 \<Longrightarrow> parted cmp v a n xs pa (Suc pb) pc pd"
  unfolding parted_def by (auto simp: less_Suc_eq)

lemma parted_up_equal:
  assumes p: "parted cmp v a n xs pa pb pc pd" and le: "pb \<le> pc" and eq: "cmp (xs ! pb) v = 0"
  shows "parted cmp v a n (xs[pa := xs ! pb, pb := xs ! pa]) (Suc pa) (Suc pb) pc pd"
proof -
  note d = partedD[OF p]
  have len: "pa < length xs" "pb < length xs" using d(1-6) le by linarith+
  show ?thesis unfolding parted_def nth_swap[OF len]
    using d le eq by (auto simp: less_Suc_eq)
qed

lemma parted_down_greater:
  "parted cmp v a n xs pa pb (Suc pc) pd \<Longrightarrow> pb \<le> Suc pc \<Longrightarrow> 0 < cmp (xs ! Suc pc) v \<Longrightarrow>
     parted cmp v a n xs pa pb pc pd"
  unfolding parted_def by (auto simp: less_eq_Suc_le dest: le_neq_implies_less)

lemma parted_down_equal:
  assumes p: "parted cmp v a n xs pa pb (Suc pc) (Suc pd)" and le: "pb \<le> Suc pc" and eq: "cmp (xs ! Suc pc) v = 0"
  shows "parted cmp v a n (xs[Suc pc := xs ! Suc pd, Suc pd := xs ! Suc pc]) pa pb pc pd"
proof -
  note d = partedD[OF p]
  have len: "Suc pc < length xs" "Suc pd < length xs" using d(1-6) le by linarith+
  have g: "pc < pd \<longrightarrow> 0 < cmp (xs ! Suc pd) v" using d(10)[of "Suc pd"] by simp
  show ?thesis unfolding parted_def nth_swap[OF len]
    using d le eq g by (auto simp: less_Suc_eq le_Suc_eq Suc_le_eq)
qed

lemma parted_exchange:
  assumes p: "parted cmp v a n xs pa pb (Suc pc) pd" and le: "pb \<le> pc" and ne: "0 < cmp (xs ! pb) v" "cmp (xs ! Suc pc) v < 0"
  shows "parted cmp v a n (xs[pb := xs ! Suc pc, Suc pc := xs ! pb]) pa (Suc pb) pc pd"
proof -
  note d = partedD[OF p]
  have len: "pb < length xs" "Suc pc < length xs" using d(1-6) le by linarith+
  show ?thesis unfolding parted_def nth_swap[OF len]
    using d le ne by (auto simp: less_Suc_eq)
qed

lemma qsort_scan_up_spec:
  "parted cmp v a n xs pa pb pc pd \<Longrightarrow>
     \<exists>ys pa' pb' sw. qsort_scan_up cmp a pc xs pa pb swapped = Some (ys, pa', pb', sw) \<and>
       parted cmp v a n ys pa' pb' pc pd \<and> rearranged a n xs ys \<and> pb \<le> pb' \<and>
       (pb' \<le> pc \<longrightarrow> 0 < cmp (ys ! pb') v)"
proof (induction "Suc pc - pb" arbitrary: xs pa pb swapped)
  case 0
  then show ?case by (subst qsort_scan_up.simps) auto
next
  case (Suc d)
  note p = partedD[OF Suc.prems]
  have pb: "pb \<le> pc" "d = Suc pc - Suc pb" using Suc.hyps(2) by linarith+
  have len: "pa < length xs" "pb < length xs" "a < length xs" using p(1-6) pb by linarith+
  consider "0 < cmp (xs ! pb) v" | "cmp (xs ! pb) v < 0" | "cmp (xs ! pb) v = 0" by linarith
  then show ?case
  proof cases
    case 1
    then show ?thesis using pb Suc.prems p(7) len by (subst qsort_scan_up.simps) (simp add: compare_at_Some)
  next
    case 2
    have "qsort_scan_up cmp a pc xs pa pb swapped = qsort_scan_up cmp a pc xs pa (Suc pb) swapped"
      using 2 pb p(7) len by (subst qsort_scan_up.simps) (simp add: compare_at_Some)
    then show ?thesis using Suc.hyps(1)[OF pb(2) parted_up_less[OF Suc.prems pb(1) 2], of swapped]
      by (metis Suc_leD)
  next
    case 3
    let ?zs = "xs[pa := xs ! pb, pb := xs ! pa]"
    have eq: "qsort_scan_up cmp a pc xs pa pb swapped = qsort_scan_up cmp a pc ?zs (Suc pa) (Suc pb) True"
      using 3 pb p(7) len by (subst qsort_scan_up.simps) (simp add: compare_at_Some swapfunc_Some)
    have "rearranged a n xs ?zs" using p(1-6) pb(1) by (intro rearranged_swap) auto
    then show ?thesis
      using Suc.hyps(1)[OF pb(2) parted_up_equal[OF Suc.prems pb(1) 3], of True] rearranged_trans unfolding eq
      by (metis Suc_leD)
  qed
qed

lemma qsort_scan_down_spec:
  "parted cmp v a n xs pa pb pc pd \<Longrightarrow> (pb \<le> pc \<Longrightarrow> 0 < cmp (xs ! pb) v) \<Longrightarrow>
     \<exists>ys pc' pd' sw. qsort_scan_down cmp a pb xs pc pd swapped = Some (ys, pc', pd', sw) \<and>
       parted cmp v a n ys pa pb pc' pd' \<and> rearranged a n xs ys \<and> pc' \<le> pc \<and>
       (pb \<le> pc' \<longrightarrow> 0 < cmp (ys ! pb) v \<and> cmp (ys ! pc') v < 0)"
proof (induction "Suc pc - pb" arbitrary: xs pc pd swapped)
  case 0
  then show ?case by (subst qsort_scan_down.simps) auto
next
  case (Suc d)
  note p = partedD[OF Suc.prems(1)]
  have pb: "pb \<le> pc" using Suc.hyps(2) by linarith
  then have gr: "0 < cmp (xs ! pb) v" using Suc.prems(2) by blast
  obtain c where c: "pc = Suc c" using pb p(1,2) by (cases pc) auto
  then obtain e where e: "pd = Suc e" using p(4) by (cases pd) auto
  have d: "d = Suc c - pb" using Suc.hyps(2) c by linarith
  have len: "pc < length xs" "pd < length xs" "a < length xs" using p(1-6) pb by linarith+
  consider "cmp (xs ! pc) v < 0" | "0 < cmp (xs ! pc) v" | "cmp (xs ! pc) v = 0" by linarith
  then show ?case
  proof cases
    case 1
    then show ?thesis using pb Suc.prems p(7) len gr by (subst qsort_scan_down.simps) (simp add: compare_at_Some)
  next
    case 2
    have "qsort_scan_down cmp a pb xs pc pd swapped = qsort_scan_down cmp a pb xs c pd swapped"
      using 2 pb p(7) len c by (subst qsort_scan_down.simps) (simp add: compare_at_Some)
    moreover have "parted cmp v a n xs pa pb c pd" using Suc.prems(1) pb 2 unfolding c by (rule parted_down_greater)
    ultimately show ?thesis using Suc.hyps(1)[OF d, of xs pd swapped] gr c by (metis le_Suc_eq)
  next
    case 3
    let ?zs = "xs[pc := xs ! pd, pd := xs ! pc]"
    have eq: "qsort_scan_down cmp a pb xs pc pd swapped = qsort_scan_down cmp a pb ?zs c e True"
      using 3 pb p(7) len c e by (subst qsort_scan_down.simps) (simp add: compare_at_Some swapfunc_Some)
    have r: "rearranged a n xs ?zs" using p(1-6) pb(1) by (intro rearranged_swap) auto
    have z: "parted cmp v a n ?zs pa pb c e" using Suc.prems(1) pb 3 unfolding c e by (rule parted_down_equal)
    have "pb \<noteq> pc" using gr 3 by auto
    then have "0 < cmp (?zs ! pb) v" using gr pb p(4) by simp
    then show ?thesis
      using Suc.hyps(1)[OF d z, of True] rearranged_trans[OF r] c unfolding eq by (metis le_Suc_eq)
  qed
qed

lemma qsort_partition_spec:
  "parted cmp v a n xs pa pb pc pd \<Longrightarrow>
     \<exists>ys pa' pb' pc' pd' sw. qsort_partition cmp a xs pa pb pc pd swapped = Some (ys, pa', pb', pc', pd', sw) \<and>
       parted cmp v a n ys pa' pb' pc' pd' \<and> rearranged a n xs ys \<and> pb' = Suc pc'"
proof (induction "Suc pc - pb" arbitrary: xs pa pb pc pd swapped rule: less_induct)
  case less
  obtain xs1 pa1 pb1 sw1 where up: "qsort_scan_up cmp a pc xs pa pb swapped = Some (xs1, pa1, pb1, sw1)"
    "parted cmp v a n xs1 pa1 pb1 pc pd" "rearranged a n xs xs1" "pb \<le> pb1" "pb1 \<le> pc \<longrightarrow> 0 < cmp (xs1 ! pb1) v"
    using qsort_scan_up_spec[OF less.prems, of swapped] by blast
  obtain xs2 pc2 pd2 sw2 where down: "qsort_scan_down cmp a pb1 xs1 pc pd sw1 = Some (xs2, pc2, pd2, sw2)"
    "parted cmp v a n xs2 pa1 pb1 pc2 pd2" "rearranged a n xs1 xs2" "pc2 \<le> pc"
    "pb1 \<le> pc2 \<longrightarrow> 0 < cmp (xs2 ! pb1) v \<and> cmp (xs2 ! pc2) v < 0"
    using qsort_scan_down_spec[OF up(2), of sw1] up(5) by blast
  have r: "rearranged a n xs xs2" using up(3) down(3) by (rule rearranged_trans)
  note p = partedD[OF down(2)]
  show ?case
  proof (cases "pc2 < pb1")
    case True
    then have "pb1 = Suc pc2" using p(3) by simp
    then show ?thesis using up(1) down(1,2) r True by (subst qsort_partition.simps) simp
  next
    case False
    then have "pb1 \<noteq> pc2" using down(5) by auto
    then obtain c where c: "pc2 = Suc c" "pb1 \<le> c" using False by (cases pc2) auto
    let ?zs = "xs2[pb1 := xs2 ! pc2, pc2 := xs2 ! pb1]"
    have len: "pb1 < length xs2" "pc2 < length xs2" using p(1-6) False by linarith+
    have z: "parted cmp v a n ?zs pa1 (Suc pb1) c pd2"
      using down(2) c(2) down(5) False unfolding c(1) by (intro parted_exchange) auto
    have "Suc c - Suc pb1 < Suc pc - pb" using c up(4) down(4) by linarith
    from less.hyps[OF this z, of True] obtain ys pa' pb' pc' pd' sw where
      "qsort_partition cmp a ?zs pa1 (Suc pb1) c pd2 True = Some (ys, pa', pb', pc', pd', sw)"
      "parted cmp v a n ys pa' pb' pc' pd'" "rearranged a n ?zs ys" "pb' = Suc pc'" by blast
    moreover have "rearranged a n xs2 ?zs" using p(1-6) False by (intro rearranged_swap) auto
    ultimately show ?thesis using up(1) down(1) False c(1) len r
      by (subst qsort_partition.simps) (auto simp: swapfunc_Some intro: rearranged_trans)
  qed
qed

section \<open>The recursion\<close>

lemma med3_spec:
  "a < length xs \<Longrightarrow> b < length xs \<Longrightarrow> c < length xs \<Longrightarrow>
     \<exists>m. u_mulle_qsort_med3 cmp xs a b c = Some m \<and> (m = a \<or> m = b \<or> m = c)"
  by (auto simp: u_mulle_qsort_med3_def compare_at_Some)

lemma qsort_pivot_spec:
  assumes n: "7 \<le> n" "a + n \<le> length xs"
  shows "\<exists>m. qsort_pivot cmp a n xs = Some m \<and> a \<le> m \<and> m < a + n"
proof -
  have med: "\<exists>m. u_mulle_qsort_med3 cmp xs i j k = Some m \<and> a \<le> m \<and> m < a + n"
    if "a \<le> i" "i < a + n" "a \<le> j" "j < a + n" "a \<le> k" "k < a + n" for i j k
    using med3_spec[of i xs j k cmp] that n by fastforce
  let ?d = "n div 8"
  have d: "8 * ?d \<le> n" "?d \<le> n div 2" "2 * ?d < n" "n div 2 + ?d < n" "2 * ?d \<le> n - 1" "n div 2 < n"
    using n by linarith+
  show ?thesis
  proof (cases "40 < n")
    case True
    obtain p q r where
      "u_mulle_qsort_med3 cmp xs a (a + ?d) (a + 2 * ?d) = Some p" "a \<le> p" "p < a + n"
      "u_mulle_qsort_med3 cmp xs (a + n div 2 - ?d) (a + n div 2) (a + n div 2 + ?d) = Some q" "a \<le> q" "q < a + n"
      "u_mulle_qsort_med3 cmp xs (a + (n - 1) - 2 * ?d) (a + (n - 1) - ?d) (a + (n - 1)) = Some r" "a \<le> r" "r < a + n"
      using med[of a "a + ?d" "a + 2 * ?d"] med[of "a + n div 2 - ?d" "a + n div 2" "a + n div 2 + ?d"]
        med[of "a + (n - 1) - 2 * ?d" "a + (n - 1) - ?d" "a + (n - 1)"] d n by force
    then show ?thesis using True med[of p q r] by (simp add: qsort_pivot_def Let_def)
  next
    case False
    then show ?thesis using med[of a "a + n div 2" "a + (n - 1)"] d n
      by (cases "7 < n") (auto simp: qsort_pivot_def Let_def)
  qed
qed

text \<open>Three zones: less than the pivot, equal to it, greater.\<close>

definition zones :: "'a mulle_qsort_r_cmp_t \<Rightarrow> 'a \<Rightarrow> nat \<Rightarrow> nat \<Rightarrow> nat \<Rightarrow> nat \<Rightarrow> 'a list \<Rightarrow> bool" where
  "zones cmp v a l m b xs \<longleftrightarrow> a \<le> l \<and> l \<le> m \<and> m \<le> b \<and> b \<le> length xs \<and>
     (\<forall>k. a \<le> k \<longrightarrow> k < l \<longrightarrow> cmp (xs ! k) v < 0) \<and>
     (\<forall>k. l \<le> k \<longrightarrow> k < m \<longrightarrow> cmp (xs ! k) v = 0 \<or> xs ! k = v) \<and>
     (\<forall>k. m \<le> k \<longrightarrow> k < b \<longrightarrow> 0 < cmp (xs ! k) v)"

lemma zones_left:
  assumes z: "zones cmp v a l m b xs" and r: "rearranged a (l - a) xs ys"
  shows "zones cmp v a l m b ys"
proof -
  have le: "a \<le> l" "l \<le> m" "m \<le> b" "b \<le> length xs" using z by (simp_all add: zones_def)
  have "cmp (ys ! k) v < 0" if "a \<le> k" "k < l" for k
    by (rule rearranged_all[OF r, of "\<lambda>x. cmp x v < 0"]) (use z that le in \<open>auto simp: zones_def\<close>)
  moreover have "ys ! k = xs ! k" if "l \<le> k" for k using rearranged_nth[OF r] that le by simp
  ultimately show ?thesis using z rearranged_length[OF r] by (simp add: zones_def)
qed

lemma zones_right:
  assumes z: "zones cmp v a l m b xs" and r: "rearranged m (b - m) xs ys"
  shows "zones cmp v a l m b ys"
proof -
  have le: "a \<le> l" "l \<le> m" "m \<le> b" "b \<le> length xs" using z by (simp_all add: zones_def)
  have "0 < cmp (ys ! k) v" if "m \<le> k" "k < b" for k
    by (rule rearranged_all[OF r, of "\<lambda>x. 0 < cmp x v"]) (use z that le in \<open>auto simp: zones_def\<close>)
  moreover have "ys ! k = xs ! k" if "k < m" for k using rearranged_nth[OF r] that by simp
  ultimately show ?thesis using z rearranged_length[OF r] by (simp add: zones_def)
qed

lemma zones_in_order:
  assumes ok: "compare_ok cmp" and z: "zones cmp v a l m b xs" and l: "in_order cmp a l xs" and r: "in_order cmp m b xs"
  shows "in_order cmp a b xs"
  unfolding in_order_def
proof (intro allI impI)
  fix i j
  assume ij: "a \<le> i" "i < j" "j < b"
  have mid: "cmp (xs ! k) v = 0" if "l \<le> k" "k < m" for k
  proof -
    have "cmp (xs ! k) v = 0 \<or> xs ! k = v" using z that by (simp add: zones_def)
    then show ?thesis using compare_okD(3)[OF ok] by auto
  qed
  have below: "cmp (xs ! k) v \<le> 0" if "a \<le> k" "k < m" for k
    using z that mid[of k] by (cases "k < l") (auto simp: zones_def)
  have above: "cmp v (xs ! k) \<le> 0" if "l \<le> k" "k < b" for k
  proof -
    have "0 \<le> cmp (xs ! k) v" using z that mid[of k] by (cases "k < m") (auto simp: zones_def intro: less_imp_le)
    then show ?thesis by (rule compare_okD(2)[OF ok])
  qed
  consider "j < l" | "m \<le> i" | "l \<le> j" "i < m" by linarith
  then show "cmp (xs ! i) (xs ! j) \<le> 0"
  proof cases
    case 3
    then show ?thesis using below[of i] above[of j] ij compare_okD(1)[OF ok] by blast
  qed (use l r ij in \<open>auto simp: in_order_def\<close>)
qed

lemma in_order_cong: "(\<And>k. a \<le> k \<Longrightarrow> k < b \<Longrightarrow> ys ! k = xs ! k) \<Longrightarrow> in_order cmp a b xs \<Longrightarrow> in_order cmp a b ys"
  by (auto simp: in_order_def)

lemma in_order_rearranged:
  "in_order cmp a b xs \<Longrightarrow> rearranged c n xs ys \<Longrightarrow> b \<le> c \<or> c + n \<le> a \<Longrightarrow> in_order cmp a b ys"
  by (erule in_order_cong[rotated]) (auto simp: rearranged_nth)

lemma parted_start:
  "2 \<le> n \<Longrightarrow> a + n \<le> length xs \<Longrightarrow> parted cmp (xs ! a) a n xs (a + 1) (a + 1) (a + (n - 1)) (a + (n - 1))"
  by (auto simp: parted_def)

text \<open>After the partition, the equal elements are swapped from the two ends into the middle.\<close>

lemma parted_zones:
  assumes p: "parted cmp v a n xs pa pb pc pd" and pb: "pb = Suc pc"
    and d1: "d1 = min (pa - a) (pb - pa)" and d2: "d2 = min (pd - pc) (a + n - (pd + 1))"
  shows "\<exists>ys zs. mulle_qsort_vecswap xs a (pb - d1) d1 = Some ys \<and>
    mulle_qsort_vecswap ys pb (a + n - d2) d2 = Some zs \<and> rearranged a n xs zs \<and>
    zones cmp v a (a + (pb - pa)) (a + n - (pd - pc)) (a + n) zs"
proof -
  note q = partedD[OF p]
  let ?E = "\<lambda>x. cmp x v = 0 \<or> x = v"
  have E: "?E (xs ! k)" if "a \<le> k" "k < pa" for k using q(7) q(8)[of k] that by (cases "k = a") auto
  have le: "a \<le> pa" "pa \<le> pb" "pb \<le> length xs" using q(1-6) by linarith+
  obtain ys where ys: "mulle_qsort_vecswap xs a (pb - d1) d1 = Some ys" "rearranged a (pb - a) xs ys"
    and ys1: "\<And>k. a \<le> k \<Longrightarrow> k < a + (pb - pa) \<Longrightarrow> cmp (ys ! k) v < 0"
    and ys2: "\<And>k. a + (pb - pa) \<le> k \<Longrightarrow> k < pb \<Longrightarrow> ?E (ys ! k)"
    using vecswap_blocks[of a pa pb xs ?E "\<lambda>x. cmp x v < 0" d1, OF le E q(9) d1] by blast
  have len: "length ys = length xs" using ys(2) by (rule rearranged_length)
  have same: "ys ! k = xs ! k" if "pb \<le> k" for k using rearranged_nth[OF ys(2)] that le by simp
  have le': "pb \<le> Suc pd" "Suc pd \<le> a + n" "a + n \<le> length ys" using q(1-6) len by linarith+
  have G: "0 < cmp (ys ! k) v" if "pb \<le> k" "k < Suc pd" for k using q(10)[of k] same[of k] that pb by simp
  have E': "?E (ys ! k)" if "Suc pd \<le> k" "k < a + n" for k using q(11)[of k] same[of k] that pb q(4) by simp
  have d2': "d2 = min (Suc pd - pb) (a + n - Suc pd)" using d2 pb by simp
  obtain zs where zs: "mulle_qsort_vecswap ys pb (a + n - d2) d2 = Some zs" "rearranged pb (a + n - pb) ys zs"
    and zs1: "\<And>k. pb \<le> k \<Longrightarrow> k < pb + (a + n - Suc pd) \<Longrightarrow> ?E (zs ! k)"
    and zs2: "\<And>k. pb + (a + n - Suc pd) \<le> k \<Longrightarrow> k < a + n \<Longrightarrow> 0 < cmp (zs ! k) v"
    using vecswap_blocks[of pb "Suc pd" "a + n" ys "\<lambda>x. 0 < cmp x v" ?E d2, OF le' G E' d2'] by blast
  have same': "zs ! k = ys ! k" if "k < pb" for k using rearranged_nth[OF zs(2)] that by simp
  have m: "pb + (a + n - Suc pd) = a + n - (pd - pc)" using q(1-6) pb by linarith
  have "rearranged a n xs ys" using ys(2) by (rule rearranged_mono) (use q(1-6) pb in auto)
  moreover have "rearranged a n ys zs" using zs(2) by (rule rearranged_mono) (use q(1-6) pb in auto)
  ultimately have r: "rearranged a n xs zs" by (rule rearranged_trans)
  have "?E (zs ! k)" if "a + (pb - pa) \<le> k" "k < a + n - (pd - pc)" for k
    using ys2[of k] zs1[of k] same'[of k] that m by (cases "k < pb") auto
  moreover have "cmp (zs ! k) v < 0" if "a \<le> k" "k < a + (pb - pa)" for k
    using ys1[of k] same'[of k] that le q(1) by simp
  ultimately have "zones cmp v a (a + (pb - pa)) (a + n - (pd - pc)) (a + n) zs"
    unfolding zones_def using zs2 m le le' len rearranged_length[OF r] q(1-6) pb by auto
  then show ?thesis using ys(1) zs(1) r by blast
qed

lemma zones_sorted:
  assumes z: "zones cmp v a l m b ws" and ok: "compare_ok cmp"
  shows "rearranged a (l - a) ws vs \<Longrightarrow> rearranged m (b - m) vs ys \<Longrightarrow>
      in_order cmp a l vs \<Longrightarrow> in_order cmp m b ys \<Longrightarrow> in_order cmp a b ys"
    and "rearranged m (b - m) ws vs \<Longrightarrow> rearranged a (l - a) vs ys \<Longrightarrow>
      in_order cmp m b vs \<Longrightarrow> in_order cmp a l ys \<Longrightarrow> in_order cmp a b ys"
proof -
  have le: "a \<le> l" "l \<le> m" "m \<le> b" using z by (simp_all add: zones_def)
  show "in_order cmp a b ys" if r: "rearranged a (l - a) ws vs" "rearranged m (b - m) vs ys"
    and o: "in_order cmp a l vs" "in_order cmp m b ys"
    using zones_in_order[OF ok zones_right[OF zones_left[OF z r(1)] r(2)] in_order_rearranged[OF o(1) r(2)] o(2)] le
    by blast
  show "in_order cmp a b ys" if r: "rearranged m (b - m) ws vs" "rearranged a (l - a) vs ys"
    and o: "in_order cmp m b vs" "in_order cmp a l ys"
    using zones_in_order[OF ok zones_left[OF zones_right[OF z r(1)] r(2)] o(2) in_order_rearranged[OF o(1) r(2)]] le
    by simp
qed

text \<open>The parts that are sorted by a recursive call, in either order.\<close>

definition sorts :: "'a mulle_qsort_r_cmp_t \<Rightarrow> nat \<Rightarrow> nat \<Rightarrow> 'a list \<Rightarrow> 'a list option \<Rightarrow> bool" where
  "sorts cmp a n xs res \<longleftrightarrow>
     (\<exists>ys. res = Some ys \<and> rearranged a n xs ys \<and> (compare_ok cmp \<longrightarrow> in_order cmp a (a + n) ys))"

lemma sorts_parts:
  assumes z: "zones cmp v a (a + d1) (a + n - d2) (a + n) ws" and d: "d1 + d2 \<le> n"
    and left: "\<And>vs. length vs = length ws \<Longrightarrow> sorts cmp a d1 vs (f vs)"
    and right: "\<And>vs. length vs = length ws \<Longrightarrow> sorts cmp (a + n - d2) d2 vs (g vs)"
  shows "sorts cmp a n ws (if d1 \<le> d2 then f ws \<bind> g else g ws \<bind> f)"
proof -
  let ?m = "a + n - d2"
  have m: "a + n - ?m = d2" "?m + d2 = a + n" "a + d1 - a = d1" "a \<le> ?m" using d by simp_all
  have both: "rearranged a n ws ys" if "rearranged a d1 ws vs \<and> rearranged ?m d2 vs ys \<or>
      rearranged ?m d2 ws vs \<and> rearranged a d1 vs ys" for vs ys
    using that d m rearranged_mono[where a = a and n = n] rearranged_trans by (metis le_add1 le_add2 le_refl add_left_mono order_trans add_le_cancel_left)
  show ?thesis
  proof (cases "d1 \<le> d2")
    case True
    obtain vs where vs: "f ws = Some vs" "rearranged a d1 ws vs" "compare_ok cmp \<longrightarrow> in_order cmp a (a + d1) vs"
      using left[of ws] by (auto simp: sorts_def)
    obtain ys where ys: "g vs = Some ys" "rearranged ?m d2 vs ys" "compare_ok cmp \<longrightarrow> in_order cmp ?m (a + n) ys"
      using right[OF rearranged_length[OF vs(2)]] m by (auto simp: sorts_def)
    show ?thesis
      using True vs ys both[of vs ys] zones_sorted(1)[OF z, of vs ys] m by (auto simp: sorts_def)
  next
    case False
    obtain vs where vs: "g ws = Some vs" "rearranged ?m d2 ws vs" "compare_ok cmp \<longrightarrow> in_order cmp ?m (a + n) vs"
      using right[of ws] m by (auto simp: sorts_def)
    obtain ys where ys: "f vs = Some ys" "rearranged a d1 vs ys" "compare_ok cmp \<longrightarrow> in_order cmp a (a + d1) ys"
      using left[OF rearranged_length[OF vs(2)]] by (auto simp: sorts_def)
    show ?thesis
      using False vs ys both[of ws ys] both[of vs ys] zones_sorted(2)[OF z, of vs ys] m by (auto simp: sorts_def)
  qed
qed

lemma sorts_rearranged: "rearranged a n xs ys \<Longrightarrow> sorts cmp a n ys res \<Longrightarrow> sorts cmp a n xs res"
  by (auto simp: sorts_def intro: rearranged_trans)

lemma sorts_short: "n < 2 \<Longrightarrow> sorts cmp a n xs (Some xs)"
  by (simp add: sorts_def in_order_def)

lemma sorts_insertion:
  "1 \<le> n \<Longrightarrow> a + n \<le> length xs \<Longrightarrow> sorts cmp a n xs (qsort_insertion cmp a n (a + 1) xs)"
  using qsort_insertion_spec[of a "a + 1" n xs cmp] by (auto simp: sorts_def in_order_def)

lemma u_mulle_qsort_r_inline_sorts:
  "a + n \<le> length xs \<Longrightarrow> sorts cmp a n xs (u_mulle_qsort_r_inline cmp a n xs)"
proof (induction n arbitrary: a xs rule: less_induct)
  case (less n)
  consider "n < 2" | "2 \<le> n" "n < 7" | "7 \<le> n" by linarith
  then show ?case
  proof cases
    case 1
    then show ?thesis by (subst u_mulle_qsort_r_inline.simps) (simp add: sorts_short)
  next
    case 2
    then show ?thesis using sorts_insertion[of n a xs cmp] less.prems
      by (subst u_mulle_qsort_r_inline.simps) simp
  next
    case 3
    obtain m where m: "qsort_pivot cmp a n xs = Some m" "a \<le> m" "m < a + n"
      using qsort_pivot_spec[OF 3 less.prems] by blast
    let ?xs = "xs[a := xs ! m, m := xs ! a]"
    have swap: "mulle_qsort_swapfunc xs a m = Some ?xs" "rearranged a n xs ?xs"
      using m 3 less.prems by (auto intro!: swapfunc_Some rearranged_swap)
    obtain zs pa pb pc pd sw where part:
      "qsort_partition cmp a ?xs (a + 1) (a + 1) (a + (n - 1)) (a + (n - 1)) False = Some (zs, pa, pb, pc, pd, sw)"
      "parted cmp (?xs ! a) a n zs pa pb pc pd" "rearranged a n ?xs zs" "pb = Suc pc"
      using qsort_partition_spec[OF parted_start[of n a ?xs cmp], of False] 3 less.prems by auto
    have r: "rearranged a n xs zs" using swap(2) part(3) by (rule rearranged_trans)
    show ?thesis
    proof (cases sw)
      case False
      have "sorts cmp a n zs (qsort_insertion cmp a n (a + 1) zs)"
        using sorts_insertion[of n a zs cmp] 3 less.prems rearranged_length[OF r] by simp
      then show ?thesis using sorts_rearranged[OF r] 3 m(1) swap(1) part(1) False
        by (subst u_mulle_qsort_r_inline.simps) simp
    next
      case True
      note q = partedD[OF part(2)]
      define d1 d2 where d: "d1 = pb - pa" "d2 = pd - pc"
      have dn: "d1 < n" "d2 < n" "d1 + d2 \<le> n" using q(1-6) part(4) d by linarith+
      obtain us ws where swaps:
        "mulle_qsort_vecswap zs a (pb - min (pa - a) (pb - pa)) (min (pa - a) (pb - pa)) = Some us"
        "mulle_qsort_vecswap us pb (a + n - min (pd - pc) (a + n - (pd + 1))) (min (pd - pc) (a + n - (pd + 1))) = Some ws"
        and rw: "rearranged a n zs ws" and z: "zones cmp (?xs ! a) a (a + d1) (a + n - d2) (a + n) ws"
        using parted_zones[OF part(2) part(4) refl refl] unfolding d by blast
      have len: "length ws = length xs" using rearranged_length[OF rw] rearranged_length[OF r] by simp
      let ?sort = "\<lambda>b k vs. if k > 1 then u_mulle_qsort_r_inline cmp b k vs else Some vs"
      have sort: "sorts cmp b k vs (?sort b k vs)" if "k < n" "b + k \<le> length vs" for b k vs
        using less.IH[OF that] sorts_short[of k] by (cases "1 < k") simp_all
      have "sorts cmp a n ws
          (if d1 \<le> d2 then ?sort a d1 ws \<bind> ?sort (a + n - d2) d2 else ?sort (a + n - d2) d2 ws \<bind> ?sort a d1)"
        using sorts_parts[OF z dn(3), of "?sort a d1" "?sort (a + n - d2) d2"] sort dn less.prems len by simp
      moreover have "u_mulle_qsort_r_inline cmp a n xs =
          (if d1 \<le> d2 then ?sort a d1 ws \<bind> ?sort (a + n - d2) d2 else ?sort (a + n - d2) d2 ws \<bind> ?sort a d1)"
        unfolding d using 3 m(1) swap(1) part(1) True swaps
        by (subst u_mulle_qsort_r_inline.simps) (simp add: Let_def split del: if_split)
      ultimately show ?thesis using sorts_rearranged[OF rearranged_trans[OF r rw]] by simp
    qed
  qed
qed

section \<open>Sorting\<close>

lemma rearranged_drop: "rearranged 0 n xs ys \<Longrightarrow> drop n ys = drop n xs"
  using rearranged_nth[of 0 n xs ys] rearranged_length[of 0 n xs ys] by (intro nth_equalityI) auto

text \<open>
  C20. For any comparison function, even one that contradicts itself, sorting ends, stays within the first
  \<open>n\<close> elements and only rearranges them; when the answers are the signs of a total preorder, the
  elements are in this order afterwards.
\<close>

theorem mulle_qsort_r_spec:
  assumes "n \<le> length xs"
  shows "\<exists>ys. mulle_qsort_r xs n cmp = Some ys \<and> mset (take n ys) = mset (take n xs) \<and> drop n ys = drop n xs \<and>
    (compare_ok cmp \<longrightarrow> sorted_wrt (\<lambda>x y. cmp x y \<le> 0) (take n ys))"
proof -
  have "sorts cmp 0 n xs (mulle_qsort_r xs n cmp)"
    using u_mulle_qsort_r_inline_sorts[of 0 n xs cmp] assms sorts_short[of n cmp 0 xs] by (auto simp: mulle_qsort_r_def)
  then obtain ys where ys: "mulle_qsort_r xs n cmp = Some ys" "rearranged 0 n xs ys"
    "compare_ok cmp \<longrightarrow> in_order cmp 0 n ys" by (auto simp: sorts_def)
  have "drop n ys = drop n xs" using ys(2) by (rule rearranged_drop)
  moreover have "mset ys = mset xs" "length ys = length xs" using ys(2) by (simp_all add: rearranged_def)
  ultimately have "mset (take n ys) = mset (take n xs)"
    by (metis add_right_cancel append_take_drop_id mset_append)
  moreover have "sorted_wrt (\<lambda>x y. cmp x y \<le> 0) (take n ys)" if "compare_ok cmp"
    using ys(3) that by (auto simp: sorted_wrt_iff_nth_less in_order_def)
  ultimately show ?thesis using ys(1) \<open>drop n ys = drop n xs\<close> by blast
qed

text \<open>Sorting eight of nine numbers by their distance from 5, where equal distances may come in any order.\<close>

lemma mulle_qsort_r_spec_witness:
  "\<exists>ys. mulle_qsort_r [9, 1, 8, 2, 7, 5, 3, 6, 0 :: int] 8 (\<lambda>x y. \<bar>x - 5\<bar> - \<bar>y - 5\<bar>) = Some ys \<and>
     sorted (map (\<lambda>x. \<bar>x - 5\<bar>) (take 8 ys)) \<and> drop 8 ys = [0]"
proof -
  have "compare_ok (\<lambda>x y. \<bar>x - 5\<bar> - \<bar>y - 5\<bar> :: int)" by (auto simp: compare_ok_def)
  then show ?thesis
    using mulle_qsort_r_spec[of 8 "[9, 1, 8, 2, 7, 5, 3, 6, 0 :: int]" "\<lambda>x y. \<bar>x - 5\<bar> - \<bar>y - 5\<bar>"]
    by (auto simp: sorted_map)
qed

end
