(* ===== verification/Rbtree_Zipper.thy ===== *)
theory Rbtree_Zipper
  imports Mulle_Prelude
begin

text \<open>
  Red-black trees as values, and trees with a hole. The nodes of the C tree have parent pointers and its
  algorithms work upwards from a node, so the proofs look at a tree as the subtree below that node and
  the context around it: a list of steps, the nearest one first, each with the node above, its color and
  the subtree on the other side.
\<close>

section \<open>Trees\<close>

datatype rbt = Leaf | Node rbt (rbt_node: pointer) (rbt_red: bool) rbt

fun inorder :: "rbt \<Rightarrow> pointer list" where
  "inorder Leaf = []"
| "inorder (Node l a c r) = inorder l @ a # inorder r"

fun red_root :: "rbt \<Rightarrow> bool" where
  "red_root Leaf = False"
| "red_root (Node l a c r) = c"

fun paint :: "bool \<Rightarrow> rbt \<Rightarrow> rbt" where
  "paint c Leaf = Leaf"
| "paint c (Node l a d r) = Node l a c r"

text \<open>The number of black nodes on a path, no red node has a red child, all paths have the same number.\<close>

fun bheight :: "rbt \<Rightarrow> nat" where
  "bheight Leaf = 0"
| "bheight (Node l a c r) = bheight l + (if c then 0 else 1)"

fun balanced :: "rbt \<Rightarrow> bool" where
  "balanced Leaf = True"
| "balanced (Node l a c r) =
     ((c \<longrightarrow> \<not> red_root l \<and> \<not> red_root r) \<and> bheight l = bheight r \<and> balanced l \<and> balanced r)"

definition rbt_ok :: "rbt \<Rightarrow> bool" where
  "rbt_ok t \<longleftrightarrow> balanced t \<and> \<not> red_root t"

lemma paint_simps [simp]:
  "inorder (paint c t) = inorder t"
  "paint c (paint d t) = paint c t"
  "red_root (paint c t) \<longleftrightarrow> c \<and> t \<noteq> Leaf"
  "paint c t = Leaf \<longleftrightarrow> t = Leaf"
  by (cases t; simp)+

lemma paint_same: "red_root t = c \<Longrightarrow> paint c t = t"
  by (cases t) auto

lemma balanced_paint_black: "balanced t \<Longrightarrow> balanced (paint False t)"
  by (cases t) auto

lemma bheight_paint_black: "bheight (paint False t) = bheight t + (if red_root t then 1 else 0)"
  by (cases t) auto

lemma bheight_paint_red: "\<not> red_root t \<Longrightarrow> t \<noteq> Leaf \<Longrightarrow> Suc (bheight (paint True t)) = bheight t"
  by (cases t) auto

lemma balanced_paint_red:
  "balanced (Node l a c r) \<Longrightarrow> \<not> red_root l \<Longrightarrow> \<not> red_root r \<Longrightarrow> balanced (paint True (Node l a c r))"
  by simp

section \<open>Contexts\<close>

datatype side = InLeft | InRight

text \<open>\<open>Step d a c s\<close>: the hole is the left or right child of the node \<open>a\<close>, \<open>s\<close> is the other child.\<close>

datatype step = Step side (step_node: pointer) (step_red: bool) rbt

fun plug1 :: "step \<Rightarrow> rbt \<Rightarrow> rbt" where
  "plug1 (Step InLeft a c s) t = Node t a c s"
| "plug1 (Step InRight a c s) t = Node s a c t"

fun plug :: "step list \<Rightarrow> rbt \<Rightarrow> rbt" where
  "plug [] t = t"
| "plug (s # c) t = plug c (plug1 s t)"

lemma plug_append [simp]: "plug (c @ d) t = plug d (plug c t)"
  by (induction c arbitrary: t) auto

lemma plug_Leaf [simp]: "plug c t = Leaf \<longleftrightarrow> c = [] \<and> t = Leaf"
proof (induction c arbitrary: t)
  case (Cons s c)
  have "plug1 s t \<noteq> Leaf" by (induction s t rule: plug1.induct) auto
  then show ?case using Cons by simp
qed simp

text \<open>The nodes before and after the hole, and all nodes of the context.\<close>

fun before :: "step list \<Rightarrow> pointer list" where
  "before [] = []"
| "before (Step InLeft a c s # cs) = before cs"
| "before (Step InRight a c s # cs) = before cs @ inorder s @ [a]"

fun behind :: "step list \<Rightarrow> pointer list" where
  "behind [] = []"
| "behind (Step InLeft a c s # cs) = a # inorder s @ behind cs"
| "behind (Step InRight a c s # cs) = behind cs"

lemma inorder_plug: "inorder (plug c t) = before c @ inorder t @ behind c"
proof (induction c arbitrary: t)
  case (Cons s c)
  have "before (s # c) @ inorder t @ behind (s # c) = before c @ inorder (plug1 s t) @ behind c"
    by (induction s t rule: plug1.induct) auto
  then show ?case using Cons by simp
qed simp

lemma before_append [simp]: "before (c @ d) = before d @ before c"
  by (induction c rule: before.induct) auto

lemma behind_append [simp]: "behind (c @ d) = behind c @ behind d"
  by (induction c rule: behind.induct) auto

fun ctx_nodes :: "step list \<Rightarrow> pointer set" where
  "ctx_nodes [] = {}"
| "ctx_nodes (Step d a c s # cs) = insert a (set (inorder s)) \<union> ctx_nodes cs"

lemma ctx_nodes_set: "ctx_nodes c = set (before c) \<union> set (behind c)"
  by (induction c rule: before.induct) auto

lemma ctx_nodes_append [simp]: "ctx_nodes (c @ d) = ctx_nodes c \<union> ctx_nodes d"
  by (simp add: ctx_nodes_set) blast

text \<open>Every node of a tree can be focused.\<close>

lemma rbt_focus: "a \<in> set (inorder t) \<Longrightarrow> \<exists>c l d r. t = plug c (Node l a d r)"
proof (induction t)
  case (Node l b e r)
  consider "a = b" | "a \<in> set (inorder l)" | "a \<in> set (inorder r)" using Node.prems by auto
  then show ?case
  proof cases
    case 1
    then show ?thesis by (intro exI[of _ "[]"]) auto
  next
    case 2
    then obtain c l' d r' where "l = plug c (Node l' a d r')" using Node.IH(1) by blast
    then show ?thesis by (intro exI[of _ "c @ [Step InLeft b e r]"]) auto
  next
    case 3
    then obtain c l' d r' where "r = plug c (Node l' a d r')" using Node.IH(2) by blast
    then show ?thesis by (intro exI[of _ "c @ [Step InRight b e l]"]) auto
  qed
qed simp

section \<open>Balance around a hole\<close>

definition red_above :: "step list \<Rightarrow> bool" where
  "red_above c = (case c of [] \<Rightarrow> False | s # _ \<Rightarrow> step_red s)"

lemma red_above_simps [simp]: "red_above [] = False" "red_above (Step d a c s # cs) = c"
  by (simp_all add: red_above_def)

text \<open>The context is balanced around a subtree of black height \<open>n\<close>; a red root has no place in it.\<close>

fun ctx_ok :: "step list \<Rightarrow> nat \<Rightarrow> bool" where
  "ctx_ok [] n = True"
| "ctx_ok (Step d a c s # cs) n =
     (balanced s \<and> bheight s = n \<and> (c \<longrightarrow> \<not> red_root s \<and> cs \<noteq> [] \<and> \<not> red_above cs) \<and>
      ctx_ok cs (if c then n else Suc n))"

lemma plug_ok:
  "ctx_ok c (bheight t) \<Longrightarrow> balanced t \<Longrightarrow> (red_root t \<longrightarrow> c \<noteq> [] \<and> \<not> red_above c) \<Longrightarrow> rbt_ok (plug c t)"
proof (induction c arbitrary: t)
  case Nil
  then show ?case by (simp add: rbt_ok_def)
next
  case (Cons s c)
  obtain d a e u where s: "s = Step d a e u" by (cases s)
  have "ctx_ok c (bheight (plug1 s t))" "balanced (plug1 s t)" "red_root (plug1 s t) \<longrightarrow> c \<noteq> [] \<and> \<not> red_above c"
    using Cons.prems s by (cases d; auto split: if_splits)+
  then show ?case using Cons.IH by simp
qed

lemma plug_ok_ctx:
  "balanced (plug c t) \<Longrightarrow> \<not> red_root (plug c t) \<Longrightarrow>
     ctx_ok c (bheight t) \<and> balanced t \<and> (red_root t \<longrightarrow> c \<noteq> [] \<and> \<not> red_above c)"
proof (induction c arbitrary: t)
  case (Cons s c)
  obtain d a e u where s: "s = Step d a e u" by (cases s)
  have "ctx_ok c (bheight (plug1 s t)) \<and> balanced (plug1 s t) \<and> (red_root (plug1 s t) \<longrightarrow> c \<noteq> [] \<and> \<not> red_above c)"
    using Cons.IH[of "plug1 s t"] Cons.prems by simp
  then show ?case unfolding s by (cases d) (auto split: if_splits)
qed simp

text \<open>The height of a balanced tree is logarithmic in its size.\<close>

fun height :: "rbt \<Rightarrow> nat" where
  "height Leaf = 0"
| "height (Node l a c r) = Suc (max (height l) (height r))"

lemma balanced_height: "balanced t \<Longrightarrow> height t \<le> 2 * bheight t + (if red_root t then 1 else 0)"
proof (induction t)
  case (Node l a c r)
  then have "height l \<le> 2 * bheight l + (if red_root l then 1 else 0)"
    "height r \<le> 2 * bheight r + (if red_root r then 1 else 0)" "bheight r = bheight l" by auto
  then show ?case using Node.prems by (auto split: if_splits)
qed simp

lemma balanced_size: "balanced t \<Longrightarrow> 2 ^ bheight t \<le> Suc (length (inorder t))"
proof (induction t)
  case (Node l a c r)
  then have "2 ^ bheight l \<le> Suc (length (inorder l))" "2 ^ bheight l \<le> Suc (length (inorder r))" by auto
  then show ?case by simp
qed simp

lemma rbt_ok_height: "rbt_ok t \<Longrightarrow> 2 ^ (height t div 2) \<le> Suc (length (inorder t))"
proof -
  assume ok: "rbt_ok t"
  then have "height t div 2 \<le> bheight t" using balanced_height[of t] by (auto simp: rbt_ok_def)
  then have "(2::nat) ^ (height t div 2) \<le> 2 ^ bheight t" by simp
  also have "2 ^ bheight t \<le> Suc (length (inorder t))" using ok by (simp add: rbt_ok_def balanced_size)
  finally show ?thesis .
qed

end
