(* ===== verification/Rbtree.thy ===== *)
theory Rbtree
  imports Rbtree_Zipper
begin

text \<open>
  The red-black tree of \<open>mulle--rbtree.h\<close> and \<open>mulle--rbtree.c\<close>: nodes with pointers to the parent and the
  children, and a sentinel node \<open>_nil\<close> in the tree struct that stands for every missing one. The nodes
  are a map from addresses; the sentinel has an address of its own. The pool of nodes answers addresses
  and takes them back, which is the argument of \<open>u_mulle__rbtree_new_node\<close> and the list of freed nodes.
\<close>

section \<open>Nodes and the tree\<close>

record mulle_rbnode =
  rn_parent :: pointer
  rn_left :: pointer
  rn_right :: pointer
  rn_color :: "32 word"
  rn_payload :: pointer

record mulle__rbtree =
  rt_root :: pointer
  rt_nil :: pointer
  rt_nodes :: "pointer \<Rightarrow> mulle_rbnode"
  rt_options :: "32 word"
  rt_freed :: "pointer list"

unbundle bit_operations_syntax

definition mulle_rbtree_option_allow_duplicates :: "32 word" where
  "mulle_rbtree_option_allow_duplicates = 1"

definition mulle_rbtree_option_use_extra :: "32 word" where
  "mulle_rbtree_option_use_extra = 2"

definition mulle_rbtree_option_use_dirty :: "32 word" where
  "mulle_rbtree_option_use_dirty = 4"

definition mulle_rbtree_option_use_marker :: "32 word" where
  "mulle_rbtree_option_use_marker = 8"

definition mulle__rbtree_marker :: "32 word" where
  "mulle__rbtree_marker = 0x40"

definition mulle__rbtree_dirty :: "32 word" where
  "mulle__rbtree_dirty = 0x80"

abbreviation parent_of :: "mulle__rbtree \<Rightarrow> pointer \<Rightarrow> pointer" where
  "parent_of t n \<equiv> rn_parent (rt_nodes t n)"

abbreviation left_of :: "mulle__rbtree \<Rightarrow> pointer \<Rightarrow> pointer" where
  "left_of t n \<equiv> rn_left (rt_nodes t n)"

abbreviation right_of :: "mulle__rbtree \<Rightarrow> pointer \<Rightarrow> pointer" where
  "right_of t n \<equiv> rn_right (rt_nodes t n)"

abbreviation color_of :: "mulle__rbtree \<Rightarrow> pointer \<Rightarrow> 32 word" where
  "color_of t n \<equiv> rn_color (rt_nodes t n)"

abbreviation payload_of :: "mulle__rbtree \<Rightarrow> pointer \<Rightarrow> pointer" where
  "payload_of t n \<equiv> rn_payload (rt_nodes t n)"

text \<open>The assignments to the fields of a node.\<close>

definition set_node :: "pointer \<Rightarrow> (mulle_rbnode \<Rightarrow> mulle_rbnode) \<Rightarrow> mulle__rbtree \<Rightarrow> mulle__rbtree" where
  "set_node n f t = t\<lparr>rt_nodes := (rt_nodes t)(n := f (rt_nodes t n))\<rparr>"

abbreviation set_parent :: "pointer \<Rightarrow> pointer \<Rightarrow> mulle__rbtree \<Rightarrow> mulle__rbtree" where
  "set_parent n p \<equiv> set_node n (\<lambda>x. x\<lparr>rn_parent := p\<rparr>)"

abbreviation set_left :: "pointer \<Rightarrow> pointer \<Rightarrow> mulle__rbtree \<Rightarrow> mulle__rbtree" where
  "set_left n p \<equiv> set_node n (\<lambda>x. x\<lparr>rn_left := p\<rparr>)"

abbreviation set_right :: "pointer \<Rightarrow> pointer \<Rightarrow> mulle__rbtree \<Rightarrow> mulle__rbtree" where
  "set_right n p \<equiv> set_node n (\<lambda>x. x\<lparr>rn_right := p\<rparr>)"

abbreviation set_color :: "pointer \<Rightarrow> 32 word \<Rightarrow> mulle__rbtree \<Rightarrow> mulle__rbtree" where
  "set_color n c \<equiv> set_node n (\<lambda>x. x\<lparr>rn_color := c\<rparr>)"

definition u_mulle_rbnode_is_dirty :: "mulle__rbtree \<Rightarrow> pointer \<Rightarrow> bool" where
  "u_mulle_rbnode_is_dirty t n = (color_of t n AND mulle__rbtree_dirty \<noteq> 0)"

definition u_mulle_rbnode_set_dirty :: "pointer \<Rightarrow> mulle__rbtree \<Rightarrow> mulle__rbtree" where
  "u_mulle_rbnode_set_dirty n t = set_color n (color_of t n OR mulle__rbtree_dirty) t"

definition u_mulle_rbnode_clear_dirty :: "pointer \<Rightarrow> mulle__rbtree \<Rightarrow> mulle__rbtree" where
  "u_mulle_rbnode_clear_dirty n t = set_color n (color_of t n AND NOT mulle__rbtree_dirty) t"

definition u_mulle_rbnode_set_marker :: "pointer \<Rightarrow> mulle__rbtree \<Rightarrow> mulle__rbtree" where
  "u_mulle_rbnode_set_marker n t = set_color n (color_of t n OR mulle__rbtree_marker) t"

definition u_mulle_rbnode_get_color :: "mulle__rbtree \<Rightarrow> pointer \<Rightarrow> 32 word" where
  "u_mulle_rbnode_get_color t n = color_of t n AND 1"

definition u_mulle_rbnode_is_black :: "mulle__rbtree \<Rightarrow> pointer \<Rightarrow> bool" where
  "u_mulle_rbnode_is_black t n = (color_of t n AND 1 = 0)"

definition u_mulle_rbnode_is_red :: "mulle__rbtree \<Rightarrow> pointer \<Rightarrow> bool" where
  "u_mulle_rbnode_is_red t n = (color_of t n AND 1 = 1)"

definition u_mulle_rbnode_set_color :: "pointer \<Rightarrow> 32 word \<Rightarrow> mulle__rbtree \<Rightarrow> mulle__rbtree" where
  "u_mulle_rbnode_set_color n c t = set_color n ((color_of t n AND NOT 1) OR c) t"

definition u_mulle_rbnode_set_red :: "pointer \<Rightarrow> mulle__rbtree \<Rightarrow> mulle__rbtree" where
  "u_mulle_rbnode_set_red n t = set_color n ((color_of t n AND NOT 1) OR 1) t"

definition u_mulle_rbnode_set_black :: "pointer \<Rightarrow> mulle__rbtree \<Rightarrow> mulle__rbtree" where
  "u_mulle_rbnode_set_black n t = set_color n ((color_of t n AND NOT 1) OR 0) t"

definition u_mulle_rbnode_get_grandparent :: "mulle__rbtree \<Rightarrow> pointer \<Rightarrow> pointer" where
  "u_mulle_rbnode_get_grandparent t n = parent_of t (parent_of t n)"

definition u_mulle__rbtree_set_node_marked :: "pointer \<Rightarrow> mulle__rbtree \<Rightarrow> mulle__rbtree" where
  "u_mulle__rbtree_set_node_marked n t =
     (if rt_options t AND mulle_rbtree_option_use_marker \<noteq> 0 then
        if n \<noteq> rt_nil t then u_mulle_rbnode_set_marker n t else t
      else t)"

text \<open>
  The payload is 32 bytes into a node; with the option \<open>use_extra\<close> its address is the value of the node.
\<close>

definition u_mulle__rbtree_get_node_value :: "mulle__rbtree \<Rightarrow> pointer \<Rightarrow> pointer" where
  "u_mulle__rbtree_get_node_value t n =
     (if n = rt_nil t then 0
      else if rt_options t AND mulle_rbtree_option_use_extra \<noteq> 0 then n + 32
      else payload_of t n)"

text \<open>The contents that a new node gets with the option \<open>use_extra\<close> are copied behind it, outside of the model.\<close>

definition u_mulle__rbtree_init_node :: "mulle__rbtree \<Rightarrow> pointer \<Rightarrow> pointer \<Rightarrow> mulle__rbtree" where
  "u_mulle__rbtree_init_node t n v =
     set_node n (\<lambda>x. \<lparr>rn_parent = rt_nil t, rn_left = rt_nil t, rn_right = rt_nil t,
       rn_color = (if rt_options t AND mulle_rbtree_option_use_dirty \<noteq> 0 then 1 OR mulle__rbtree_dirty else 1),
       rn_payload = (if rt_options t AND mulle_rbtree_option_use_extra \<noteq> 0 then rn_payload x else v)\<rparr>) t"

definition u_mulle__rbtree_new_node :: "mulle__rbtree \<Rightarrow> pointer \<Rightarrow> pointer \<Rightarrow> pointer \<times> mulle__rbtree" where
  "u_mulle__rbtree_new_node t node v = (node, u_mulle__rbtree_init_node t node v)"

definition u_mulle__rbtree_free_node :: "pointer \<Rightarrow> mulle__rbtree \<Rightarrow> mulle__rbtree" where
  "u_mulle__rbtree_free_node n t = t\<lparr>rt_freed := n # rt_freed t\<rparr>"

text \<open>\<open>memset\<close> has cleared the sentinel: its color is black.\<close>

definition u_mulle__rbtree_init_with_config :: "pointer \<Rightarrow> (pointer \<Rightarrow> mulle_rbnode) \<Rightarrow> 32 word \<Rightarrow> mulle__rbtree" where
  "u_mulle__rbtree_init_with_config nil memory options =
     \<lparr>rt_root = nil, rt_nil = nil,
      rt_nodes = memory(nil := \<lparr>rn_parent = nil, rn_left = nil, rn_right = nil, rn_color = 0, rn_payload = 0\<rparr>),
      rt_options = options, rt_freed = []\<rparr>"

section \<open>Rotations\<close>

definition mulle_rb_node_set_left :: "pointer \<Rightarrow> pointer \<Rightarrow> mulle__rbtree \<Rightarrow> mulle__rbtree" where
  "mulle_rb_node_set_left p n t = set_left p n (if n \<noteq> rt_nil t then set_parent n p t else t)"

definition mulle_rb_node_set_right :: "pointer \<Rightarrow> pointer \<Rightarrow> mulle__rbtree \<Rightarrow> mulle__rbtree" where
  "mulle_rb_node_set_right p n t = set_right p n (if n \<noteq> rt_nil t then set_parent n p t else t)"

definition mulle_rb_node_reparent :: "pointer \<Rightarrow> pointer \<Rightarrow> mulle__rbtree \<Rightarrow> mulle__rbtree" where
  "mulle_rb_node_reparent p n t =
     (let t = set_parent n (parent_of t p) t;
          t = u_mulle__rbtree_set_node_marked n t
      in if parent_of t p = rt_nil t then t\<lparr>rt_root := n\<rparr>
         else
           let t = (if p = right_of t (parent_of t p) then set_right (parent_of t p) n t
                    else set_left (parent_of t p) n t)
           in u_mulle__rbtree_set_node_marked (parent_of t p) t)"

partial_function (option) u_mulle__rbtree_mark_node_as_dirty :: "pointer \<Rightarrow> mulle__rbtree \<Rightarrow> mulle__rbtree option" where
  "u_mulle__rbtree_mark_node_as_dirty node t =
     (if node \<noteq> rt_nil t then
        let t = u_mulle_rbnode_set_dirty node t
        in u_mulle__rbtree_mark_node_as_dirty (parent_of t node) t
      else Some t)"

definition u_mulle__rbtree_left_rotate_node :: "pointer \<Rightarrow> mulle__rbtree \<Rightarrow> mulle__rbtree option" where
  "u_mulle__rbtree_left_rotate_node p t =
     (let t = u_mulle__rbtree_set_node_marked p t;
          n = right_of t p;
          t = u_mulle__rbtree_set_node_marked n t;
          t = mulle_rb_node_set_right p (left_of t n) t;
          t = u_mulle__rbtree_set_node_marked (left_of t n) t;
          t = mulle_rb_node_reparent p n t;
          t = set_left n p t;
          t = set_parent p n t;
          t = u_mulle__rbtree_set_node_marked (parent_of t p) t
      in if rt_options t AND mulle_rbtree_option_use_dirty \<noteq> 0 then u_mulle__rbtree_mark_node_as_dirty p t
         else Some t)"

definition u_mulle__rbtree_right_rotate_node :: "pointer \<Rightarrow> mulle__rbtree \<Rightarrow> mulle__rbtree option" where
  "u_mulle__rbtree_right_rotate_node p t =
     (let t = u_mulle__rbtree_set_node_marked p t;
          n = left_of t p;
          t = u_mulle__rbtree_set_node_marked n t;
          t = mulle_rb_node_set_left p (right_of t n) t;
          t = u_mulle__rbtree_set_node_marked (right_of t n) t;
          t = mulle_rb_node_reparent p n t;
          t = set_right n p t;
          t = set_parent p n t;
          t = u_mulle__rbtree_set_node_marked (parent_of t p) t
      in if rt_options t AND mulle_rbtree_option_use_dirty \<noteq> 0 then u_mulle__rbtree_mark_node_as_dirty p t
         else Some t)"

section \<open>Restoring the balance\<close>

definition u_mulle__rbtree_set_node_color :: "pointer \<Rightarrow> 32 word \<Rightarrow> mulle__rbtree \<Rightarrow> mulle__rbtree" where
  "u_mulle__rbtree_set_node_color n c t = u_mulle_rbnode_set_color n c t"

definition u_mulle__rbtree_set_node_red :: "pointer \<Rightarrow> mulle__rbtree \<Rightarrow> mulle__rbtree" where
  "u_mulle__rbtree_set_node_red n t = u_mulle_rbnode_set_color n 1 t"

definition u_mulle__rbtree_set_node_black :: "pointer \<Rightarrow> mulle__rbtree \<Rightarrow> mulle__rbtree" where
  "u_mulle__rbtree_set_node_black n t = u_mulle_rbnode_set_color n 0 t"

partial_function (option) u_mulle__rbtree_red_red_fixup :: "pointer \<Rightarrow> mulle__rbtree \<Rightarrow> mulle__rbtree option" where
  "u_mulle__rbtree_red_red_fixup x t =
     (if x \<noteq> rt_root t \<and> u_mulle_rbnode_is_red t (parent_of t x) then
        if parent_of t x = left_of t (parent_of t (parent_of t x)) then
          let y = right_of t (parent_of t (parent_of t x))
          in if u_mulle_rbnode_is_red t y then
               let t = u_mulle__rbtree_set_node_black (parent_of t x) t;
                   t = u_mulle__rbtree_set_node_red (parent_of t (parent_of t x)) t;
                   t = u_mulle__rbtree_set_node_black y t
               in u_mulle__rbtree_red_red_fixup (u_mulle_rbnode_get_grandparent t x) t
             else do {
               (x, t) \<leftarrow> (if x = right_of t (parent_of t x) then
                    let x = parent_of t x in map_option (Pair x) (u_mulle__rbtree_left_rotate_node x t)
                  else Some (x, t));
               let t = u_mulle__rbtree_set_node_black (parent_of t x) t;
               let t = u_mulle__rbtree_set_node_red (parent_of t (parent_of t x)) t;
               let x = u_mulle_rbnode_get_grandparent t x;
               t \<leftarrow> u_mulle__rbtree_right_rotate_node x t;
               u_mulle__rbtree_red_red_fixup x t }
        else
          let y = left_of t (parent_of t (parent_of t x))
          in if u_mulle_rbnode_is_red t y then
               let t = u_mulle__rbtree_set_node_black (parent_of t x) t;
                   t = u_mulle__rbtree_set_node_red (parent_of t (parent_of t x)) t;
                   t = u_mulle__rbtree_set_node_black y t
               in u_mulle__rbtree_red_red_fixup (u_mulle_rbnode_get_grandparent t x) t
             else do {
               (x, t) \<leftarrow> (if x = left_of t (parent_of t x) then
                    let x = parent_of t x in map_option (Pair x) (u_mulle__rbtree_right_rotate_node x t)
                  else Some (x, t));
               let t = u_mulle__rbtree_set_node_black (parent_of t x) t;
               let t = u_mulle__rbtree_set_node_red (parent_of t (parent_of t x)) t;
               let x = u_mulle_rbnode_get_grandparent t x;
               t \<leftarrow> u_mulle__rbtree_left_rotate_node x t;
               u_mulle__rbtree_red_red_fixup x t }
      else Some (u_mulle__rbtree_set_node_black (rt_root t) t))"

partial_function (option) u_mulle__rbtree_black_black_fixup :: "pointer \<Rightarrow> mulle__rbtree \<Rightarrow> mulle__rbtree option" where
  "u_mulle__rbtree_black_black_fixup x t =
     (if x \<noteq> rt_root t \<and> u_mulle_rbnode_is_black t x then
        if x = left_of t (parent_of t x) then do {
          let w = right_of t (parent_of t x);
          (w, t) \<leftarrow> (if u_mulle_rbnode_is_red t w then do {
               let t = u_mulle_rbnode_set_black w t;
               let t = u_mulle_rbnode_set_red (parent_of t x) t;
               t \<leftarrow> u_mulle__rbtree_left_rotate_node (parent_of t x) t;
               Some (right_of t (parent_of t x), t) }
             else Some (w, t));
          (x, t) \<leftarrow> (if u_mulle_rbnode_is_black t (left_of t w) \<and> u_mulle_rbnode_is_black t (right_of t w) then
               let t = u_mulle_rbnode_set_red w t in Some (parent_of t x, t)
             else do {
               (w, t) \<leftarrow> (if u_mulle_rbnode_is_black t (right_of t w) then do {
                    let t = u_mulle_rbnode_set_black (left_of t w) t;
                    let t = u_mulle_rbnode_set_red w t;
                    t \<leftarrow> u_mulle__rbtree_right_rotate_node w t;
                    Some (right_of t (parent_of t x), t) }
                  else Some (w, t));
               let parent_color = u_mulle_rbnode_get_color t (parent_of t x);
               let t = u_mulle_rbnode_set_color w parent_color t;
               let t = u_mulle_rbnode_set_black (parent_of t x) t;
               let t = u_mulle_rbnode_set_black (right_of t w) t;
               t \<leftarrow> u_mulle__rbtree_left_rotate_node (parent_of t x) t;
               Some (rt_root t, t) });
          u_mulle__rbtree_black_black_fixup x t }
        else do {
          let w = left_of t (parent_of t x);
          (w, t) \<leftarrow> (if u_mulle_rbnode_is_red t w then do {
               let t = u_mulle_rbnode_set_black w t;
               let t = u_mulle_rbnode_set_red (parent_of t x) t;
               t \<leftarrow> u_mulle__rbtree_right_rotate_node (parent_of t x) t;
               Some (left_of t (parent_of t x), t) }
             else Some (w, t));
          (x, t) \<leftarrow> (if u_mulle_rbnode_is_black t (right_of t w) \<and> u_mulle_rbnode_is_black t (left_of t w) then
               let t = u_mulle_rbnode_set_red w t in Some (parent_of t x, t)
             else do {
               (w, t) \<leftarrow> (if u_mulle_rbnode_is_black t (left_of t w) then do {
                    let t = u_mulle_rbnode_set_black (right_of t w) t;
                    let t = u_mulle_rbnode_set_red w t;
                    t \<leftarrow> u_mulle__rbtree_left_rotate_node w t;
                    Some (left_of t (parent_of t x), t) }
                  else Some (w, t));
               let parent_color = u_mulle_rbnode_get_color t (parent_of t x);
               let t = u_mulle_rbnode_set_color w parent_color t;
               let t = u_mulle_rbnode_set_black (parent_of t x) t;
               let t = u_mulle_rbnode_set_black (left_of t w) t;
               t \<leftarrow> u_mulle__rbtree_right_rotate_node (parent_of t x) t;
               Some (rt_root t, t) });
          u_mulle__rbtree_black_black_fixup x t }
      else
        let t = u_mulle_rbnode_set_black x t
        in Some (u_mulle__rbtree_set_node_black (rt_root t) t))"

section \<open>Inserting\<close>

definition u_mulle__rbtree_attach_node :: "mulle__rbtree \<Rightarrow> pointer \<Rightarrow> pointer \<Rightarrow> int \<Rightarrow> mulle__rbtree option" where
  "u_mulle__rbtree_attach_node t a_node parent direction = do {
     let t = set_parent a_node parent t;
     t \<leftarrow> (if parent = rt_nil t then
          let t = t\<lparr>rt_root := a_node\<rparr> in Some (u_mulle__rbtree_set_node_black (rt_root t) t)
        else
          let t = (if direction < 0 then set_left parent a_node t else set_right parent a_node t)
          in if u_mulle_rbnode_is_red t parent then u_mulle__rbtree_red_red_fixup a_node t else Some t);
     if rt_options t AND mulle_rbtree_option_use_dirty \<noteq> 0 then u_mulle__rbtree_mark_node_as_dirty a_node t
     else Some t }"

datatype errno = EEXIST

text \<open>The descent: \<open>Inl\<close> a node with an equal value where that is an error, or \<open>Inr\<close> the parent and side.\<close>

partial_function (option) rbtree_insert_loop ::
    "mulle__rbtree \<Rightarrow> (pointer \<Rightarrow> pointer \<Rightarrow> int) \<Rightarrow> pointer \<Rightarrow> pointer \<Rightarrow> (errno + pointer \<times> int) option" where
  "rbtree_insert_loop t a_comp a_value y =
     (let x = y;
          y_value = u_mulle__rbtree_get_node_value t y;
          c = a_comp a_value y_value
      in if c = 0 \<and> rt_options t AND mulle_rbtree_option_allow_duplicates = 0 then Some (Inl EEXIST)
         else
           let y = (if c < 0 then left_of t y else right_of t y)
           in if y \<noteq> rt_nil t then rbtree_insert_loop t a_comp a_value y else Some (Inr (x, c)))"

definition u_mulle__rbtree_insert_node ::
    "mulle__rbtree \<Rightarrow> pointer \<Rightarrow> (pointer \<Rightarrow> pointer \<Rightarrow> int) \<Rightarrow> (errno + mulle__rbtree) option" where
  "u_mulle__rbtree_insert_node t a_node a_comp = do {
     place \<leftarrow> (if rt_root t \<noteq> rt_nil t then
          rbtree_insert_loop t a_comp (u_mulle__rbtree_get_node_value t a_node) (rt_root t)
        else Some (Inr (rt_nil t, 0)));
     case place of
       Inl e \<Rightarrow> Some (Inl e)
     | Inr (x, c) \<Rightarrow> map_option Inr (u_mulle__rbtree_attach_node t a_node x c) }"

text \<open>To the end of a chain of right or left links.\<close>

partial_function (option) rbtree_right_end :: "mulle__rbtree \<Rightarrow> pointer \<Rightarrow> pointer option" where
  "rbtree_right_end t y =
     (let x = y; y = right_of t y in if y \<noteq> rt_nil t then rbtree_right_end t y else Some x)"

partial_function (option) rbtree_left_end :: "mulle__rbtree \<Rightarrow> pointer \<Rightarrow> pointer option" where
  "rbtree_left_end t y =
     (let x = y; y = left_of t y in if y \<noteq> rt_nil t then rbtree_left_end t y else Some x)"

definition u_mulle__rbtree_insert_node_before_node :: "mulle__rbtree \<Rightarrow> pointer \<Rightarrow> pointer \<Rightarrow> mulle__rbtree option" where
  "u_mulle__rbtree_insert_node_before_node t a_node successor =
     (let x = successor; y = left_of t x
      in if y = rt_nil t then u_mulle__rbtree_attach_node t a_node x (-1)
         else do { x \<leftarrow> rbtree_right_end t y; u_mulle__rbtree_attach_node t a_node x 1 })"

definition u_mulle__rbtree_insert_node_after_node :: "mulle__rbtree \<Rightarrow> pointer \<Rightarrow> pointer \<Rightarrow> mulle__rbtree option" where
  "u_mulle__rbtree_insert_node_after_node t a_node predecessor =
     (let x = predecessor; y = right_of t x
      in if y = rt_nil t then u_mulle__rbtree_attach_node t a_node x 1
         else do { x \<leftarrow> rbtree_left_end t y; u_mulle__rbtree_attach_node t a_node x (-1) })"

section \<open>Walking and finding\<close>

partial_function (option) u_mulle__rbtree_find_leftmost_node :: "mulle__rbtree \<Rightarrow> pointer \<Rightarrow> pointer option" where
  "u_mulle__rbtree_find_leftmost_node t p =
     (if left_of t p \<noteq> rt_nil t then u_mulle__rbtree_find_leftmost_node t (left_of t p) else Some p)"

partial_function (option) u_mulle__rbtree_find_rightmost_node :: "mulle__rbtree \<Rightarrow> pointer \<Rightarrow> pointer option" where
  "u_mulle__rbtree_find_rightmost_node t p =
     (if right_of t p \<noteq> rt_nil t then u_mulle__rbtree_find_rightmost_node t (right_of t p) else Some p)"

partial_function (option) rbtree_up_right :: "mulle__rbtree \<Rightarrow> pointer \<Rightarrow> pointer option" where
  "rbtree_up_right t node =
     (let parent = parent_of t node
      in if parent \<noteq> rt_nil t \<and> node = right_of t parent then rbtree_up_right t parent else Some parent)"

partial_function (option) rbtree_up_left :: "mulle__rbtree \<Rightarrow> pointer \<Rightarrow> pointer option" where
  "rbtree_up_left t node =
     (let parent = parent_of t node
      in if parent \<noteq> rt_nil t \<and> node = left_of t parent then rbtree_up_left t parent else Some parent)"

definition u_mulle__rbtree_next_node :: "mulle__rbtree \<Rightarrow> pointer \<Rightarrow> pointer option" where
  "u_mulle__rbtree_next_node t node =
     (if right_of t node \<noteq> rt_nil t then u_mulle__rbtree_find_leftmost_node t (right_of t node)
      else rbtree_up_right t node)"

definition u_mulle__rbtree_previous_node :: "mulle__rbtree \<Rightarrow> pointer \<Rightarrow> pointer option" where
  "u_mulle__rbtree_previous_node t node =
     (if left_of t node \<noteq> rt_nil t then u_mulle__rbtree_find_rightmost_node t (left_of t node)
      else rbtree_up_left t node)"

text \<open>The search; the two variants of the code differ in the value of a node, payload or its address.\<close>

partial_function (option) rbtree_find_loop ::
    "mulle__rbtree \<Rightarrow> (pointer \<Rightarrow> pointer \<Rightarrow> int) \<Rightarrow> pointer \<Rightarrow> pointer \<Rightarrow> pointer option" where
  "rbtree_find_loop t a_comp a_key p =
     (if p \<noteq> rt_nil t then
        let b_key = u_mulle__rbtree_get_node_value t p; r = a_comp a_key b_key
        in if r = 0 then Some p
           else if r < 0 then rbtree_find_loop t a_comp a_key (left_of t p)
           else rbtree_find_loop t a_comp a_key (right_of t p)
      else Some p)"

definition u_mulle__rbtree_find_node :: "mulle__rbtree \<Rightarrow> pointer \<Rightarrow> (pointer \<Rightarrow> pointer \<Rightarrow> int) \<Rightarrow> pointer option" where
  "u_mulle__rbtree_find_node t a_key a_comp = rbtree_find_loop t a_comp a_key (rt_root t)"

partial_function (option) rbtree_find_greater_loop ::
    "mulle__rbtree \<Rightarrow> (pointer \<Rightarrow> pointer \<Rightarrow> int) \<Rightarrow> pointer \<Rightarrow> pointer \<Rightarrow> pointer option" where
  "rbtree_find_greater_loop t a_comp a_key p =
     (if p \<noteq> rt_nil t then
        let b_key = u_mulle__rbtree_get_node_value t p; r = a_comp a_key b_key
        in if r = 0 then Some p
           else if r < 0 then
             if left_of t p = rt_nil t then Some p else rbtree_find_greater_loop t a_comp a_key (left_of t p)
           else
             if right_of t p = rt_nil t then rbtree_up_right t p
             else rbtree_find_greater_loop t a_comp a_key (right_of t p)
      else Some p)"

definition u_mulle__rbtree_find_node_equal_or_greater ::
    "mulle__rbtree \<Rightarrow> pointer \<Rightarrow> (pointer \<Rightarrow> pointer \<Rightarrow> int) \<Rightarrow> pointer option" where
  "u_mulle__rbtree_find_node_equal_or_greater t a_key a_comp = rbtree_find_greater_loop t a_comp a_key (rt_root t)"

partial_function (option) rbtree_walk_loop ::
    "mulle__rbtree \<Rightarrow> ('s \<Rightarrow> pointer \<Rightarrow> bool \<times> 's) \<Rightarrow> pointer \<Rightarrow> 's \<Rightarrow> 's option" where
  "rbtree_walk_loop t callback a_node st =
     (if a_node \<noteq> rt_nil t then
        let (continue, st) = callback st a_node
        in if \<not> continue then Some st
           else do { a_node \<leftarrow> u_mulle__rbtree_next_node t a_node; rbtree_walk_loop t callback a_node st }
      else Some st)"

definition u_mulle__rbtree_walk :: "mulle__rbtree \<Rightarrow> ('s \<Rightarrow> pointer \<Rightarrow> bool \<times> 's) \<Rightarrow> 's \<Rightarrow> 's option" where
  "u_mulle__rbtree_walk t callback st = do {
     a_node \<leftarrow> u_mulle__rbtree_find_leftmost_node t (rt_root t);
     rbtree_walk_loop t callback a_node st }"

partial_function (option) rbtree_walk_reverse_loop ::
    "mulle__rbtree \<Rightarrow> ('s \<Rightarrow> pointer \<Rightarrow> bool \<times> 's) \<Rightarrow> pointer \<Rightarrow> 's \<Rightarrow> 's option" where
  "rbtree_walk_reverse_loop t callback a_node st =
     (if a_node \<noteq> rt_nil t then
        let (continue, st) = callback st a_node
        in if \<not> continue then Some st
           else do { a_node \<leftarrow> u_mulle__rbtree_previous_node t a_node; rbtree_walk_reverse_loop t callback a_node st }
      else Some st)"

definition u_mulle__rbtree_walk_reverse :: "mulle__rbtree \<Rightarrow> ('s \<Rightarrow> pointer \<Rightarrow> bool \<times> 's) \<Rightarrow> 's \<Rightarrow> 's option" where
  "u_mulle__rbtree_walk_reverse t callback st = do {
     a_node \<leftarrow> u_mulle__rbtree_find_rightmost_node t (rt_root t);
     rbtree_walk_reverse_loop t callback a_node st }"

partial_function (option) uu_mulle__rbtree_walk_count :: "mulle__rbtree \<Rightarrow> pointer \<Rightarrow> size_t option" where
  "uu_mulle__rbtree_walk_count t a_node =
     (if a_node = rt_nil t then Some 0
      else do {
        n \<leftarrow> uu_mulle__rbtree_walk_count t (left_of t a_node);
        m \<leftarrow> uu_mulle__rbtree_walk_count t (right_of t a_node);
        Some (n + m + 1) })"

definition u_mulle__rbtree_get_count :: "mulle__rbtree \<Rightarrow> size_t option" where
  "u_mulle__rbtree_get_count t = uu_mulle__rbtree_walk_count t (rt_root t)"

section \<open>Removing\<close>

text \<open>
  The parts of \<open>_mulle__rbtree_remove_node\<close>: the node \<open>y\<close> that is cut out, itself or its successor; the
  successor takes the place of the removed node; the nodes above what has changed become dirty.
\<close>

definition rbtree_cut_out :: "pointer \<Rightarrow> pointer \<Rightarrow> mulle__rbtree \<Rightarrow> mulle__rbtree" where
  "rbtree_cut_out x y t =
     (let t = set_parent x (parent_of t y) t;
          t = u_mulle__rbtree_set_node_marked (parent_of t x) t;
          t = (if parent_of t y = rt_nil t then t\<lparr>rt_root := x\<rparr>
               else if y = left_of t (parent_of t y) then set_left (parent_of t y) x t
               else set_right (parent_of t y) x t)
      in u_mulle__rbtree_set_node_marked (parent_of t y) t)"

definition rbtree_take_place :: "pointer \<Rightarrow> pointer \<Rightarrow> pointer \<Rightarrow> pointer \<Rightarrow> pointer \<Rightarrow> mulle__rbtree \<Rightarrow> mulle__rbtree" where
  "rbtree_take_place x y a_node orig_left orig_right t =
     (let t = set_parent y (parent_of t a_node) t;
          t = set_left y orig_left t;
          t = (if y \<noteq> orig_right then set_right y orig_right t
               else
                 let t = set_parent x y t
                 in u_mulle__rbtree_set_node_marked (parent_of t x) t);
          t = u_mulle__rbtree_set_node_color y (u_mulle_rbnode_get_color t a_node) t;
          t = (if parent_of t y \<noteq> rt_nil t then
                 let t = (if left_of t (parent_of t y) = a_node then set_left (parent_of t y) y t
                          else set_right (parent_of t y) y t)
                 in u_mulle__rbtree_set_node_marked (parent_of t y) t
               else t\<lparr>rt_root := y\<rparr>);
          t = set_parent (right_of t y) y t;
          t = set_parent (left_of t y) y t;
          t = u_mulle__rbtree_set_node_marked (right_of t y) t
      in u_mulle__rbtree_set_node_marked (left_of t y) t)"

definition rbtree_remove_dirty :: "pointer \<Rightarrow> pointer \<Rightarrow> pointer \<Rightarrow> pointer \<Rightarrow> mulle__rbtree \<Rightarrow> mulle__rbtree option" where
  "rbtree_remove_dirty x y a_node y_original_parent t =
     (if rt_options t AND mulle_rbtree_option_use_dirty \<noteq> 0 then do {
        t \<leftarrow> (if parent_of t a_node \<noteq> rt_nil t then u_mulle__rbtree_mark_node_as_dirty (parent_of t a_node) t else Some t);
        t \<leftarrow> (if y \<noteq> a_node \<and> y \<noteq> rt_nil t then u_mulle__rbtree_mark_node_as_dirty y t else Some t);
        t \<leftarrow> (if y \<noteq> a_node \<and> x = rt_nil t \<and> y_original_parent \<noteq> rt_nil t
              then u_mulle__rbtree_mark_node_as_dirty y_original_parent t else Some t);
        if x \<noteq> rt_nil t then u_mulle__rbtree_mark_node_as_dirty x t else Some t }
      else Some t)"

definition u_mulle__rbtree_remove_node :: "mulle__rbtree \<Rightarrow> pointer \<Rightarrow> mulle__rbtree option" where
  "u_mulle__rbtree_remove_node t a_node = do {
     let t = u_mulle__rbtree_set_node_marked a_node t;
     let orig_left = left_of t a_node;
     let orig_right = right_of t a_node;
     let t = u_mulle__rbtree_set_node_marked orig_left t;
     let t = u_mulle__rbtree_set_node_marked orig_right t;
     (y, y_original_parent, t) \<leftarrow>
       (if left_of t a_node = rt_nil t \<or> right_of t a_node = rt_nil t then Some (a_node, rt_nil t, t)
        else do {
          y \<leftarrow> u_mulle__rbtree_next_node t a_node;
          let t = u_mulle__rbtree_set_node_marked y t;
          Some (y, parent_of t y, t) });
     let x = (if left_of t y \<noteq> rt_nil t then left_of t y else right_of t y);
     let t = u_mulle__rbtree_set_node_marked x t;
     let t = rbtree_cut_out x y t;
     let fixup = u_mulle_rbnode_is_black t y;
     let t = (if y \<noteq> a_node then rbtree_take_place x y a_node orig_left orig_right t else t);
     t \<leftarrow> rbtree_remove_dirty x y a_node y_original_parent t;
     let t = u_mulle__rbtree_free_node a_node t;
     if fixup then u_mulle__rbtree_black_black_fixup x t else Some t }"

section \<open>Sides\<close>

fun other :: "side \<Rightarrow> side" where
  "other InLeft = InRight"
| "other InRight = InLeft"

lemma other_other [simp]: "other (other d) = d"
  by (cases d) auto

lemma other_neq [simp]: "other d \<noteq> d" "d \<noteq> other d"
  by (cases d; simp)+

lemma side_cases: "e = d \<or> e = other d"
  by (cases d; cases e) auto

definition child :: "mulle__rbtree \<Rightarrow> side \<Rightarrow> pointer \<Rightarrow> pointer" where
  "child t d n = (case d of InLeft \<Rightarrow> left_of t n | InRight \<Rightarrow> right_of t n)"

lemma child_simps [simp]: "child t InLeft n = left_of t n" "child t InRight n = right_of t n"
  by (simp_all add: child_def)

definition rotate_node :: "side \<Rightarrow> pointer \<Rightarrow> mulle__rbtree \<Rightarrow> mulle__rbtree option" where
  "rotate_node d = (case d of InLeft \<Rightarrow> u_mulle__rbtree_left_rotate_node | InRight \<Rightarrow> u_mulle__rbtree_right_rotate_node)"

section \<open>Reading after writing\<close>

lemma set_node_simps [simp]:
  "rt_root (set_node n f t) = rt_root t" "rt_nil (set_node n f t) = rt_nil t"
  "rt_options (set_node n f t) = rt_options t" "rt_freed (set_node n f t) = rt_freed t"
  "rt_nodes (set_node n f t) m = (if m = n then f (rt_nodes t n) else rt_nodes t m)"
  by (simp_all add: set_node_def)

abbreviation red :: "mulle__rbtree \<Rightarrow> pointer \<Rightarrow> bool" where
  "red \<equiv> u_mulle_rbnode_is_red"

lemma red_bit: "red t n \<longleftrightarrow> bit (color_of t n) 0"
  by (simp add: u_mulle_rbnode_is_red_def and_one_eq bit_0 mod_2_eq_odd)

lemma is_black_iff: "u_mulle_rbnode_is_black t n \<longleftrightarrow> \<not> red t n"
  by (simp add: u_mulle_rbnode_is_black_def red_bit and_one_eq bit_0 mod_2_eq_odd)

lemma bit_color [simp]:
  "bit ((c AND - 2) OR e :: 32 word) 0 \<longleftrightarrow> bit e 0"
  "bit (c OR 0x40 :: 32 word) 0 \<longleftrightarrow> bit c 0" "bit (c OR 0x80 :: 32 word) 0 \<longleftrightarrow> bit c 0"
  by (simp_all add: bit_simps)

text \<open>What the proofs look at: everything but the marker and the dirty flag.\<close>

definition rt_view where
  "rt_view t = (rt_root t, rt_nil t, rt_options t, rt_freed t, parent_of t, left_of t, right_of t, payload_of t, red t)"

lemma rt_viewD:
  assumes "rt_view t' = rt_view t"
  shows "rt_root t' = rt_root t" "rt_nil t' = rt_nil t" "rt_options t' = rt_options t" "rt_freed t' = rt_freed t"
    "parent_of t' n = parent_of t n" "left_of t' n = left_of t n" "right_of t' n = right_of t n"
    "payload_of t' n = payload_of t n" "red t' n = red t n" "child t' d n = child t d n"
  using assms unfolding rt_view_def by (auto dest: fun_cong simp: child_def split: side.split)

lemma marked_simps [simp]:
  "rt_root (u_mulle__rbtree_set_node_marked n t) = rt_root t" "rt_nil (u_mulle__rbtree_set_node_marked n t) = rt_nil t"
  "rt_options (u_mulle__rbtree_set_node_marked n t) = rt_options t"
  "rt_freed (u_mulle__rbtree_set_node_marked n t) = rt_freed t"
  "parent_of (u_mulle__rbtree_set_node_marked n t) m = parent_of t m"
  "left_of (u_mulle__rbtree_set_node_marked n t) m = left_of t m"
  "right_of (u_mulle__rbtree_set_node_marked n t) m = right_of t m"
  "payload_of (u_mulle__rbtree_set_node_marked n t) m = payload_of t m"
  "red (u_mulle__rbtree_set_node_marked n t) m = red t m"
  by (auto simp: u_mulle__rbtree_set_node_marked_def u_mulle_rbnode_set_marker_def red_bit mulle__rbtree_marker_def)

lemma set_dirty_view: "rt_view (u_mulle_rbnode_set_dirty n t) = rt_view t"
  by (auto simp: rt_view_def u_mulle_rbnode_set_dirty_def red_bit mulle__rbtree_dirty_def fun_eq_iff)

lemma red_set_node: "red (set_node n f t) m = (if m = n then bit (rn_color (f (rt_nodes t n))) 0 else red t m)"
  by (simp add: red_bit)

lemma red_root_update [simp]: "red (t\<lparr>rt_root := r\<rparr>) m = red t m"
  by (simp add: red_bit)

lemma set_color_simps [simp]:
  "rt_root (u_mulle_rbnode_set_color n c t) = rt_root t" "rt_nil (u_mulle_rbnode_set_color n c t) = rt_nil t"
  "rt_options (u_mulle_rbnode_set_color n c t) = rt_options t" "rt_freed (u_mulle_rbnode_set_color n c t) = rt_freed t"
  "parent_of (u_mulle_rbnode_set_color n c t) m = parent_of t m"
  "left_of (u_mulle_rbnode_set_color n c t) m = left_of t m"
  "right_of (u_mulle_rbnode_set_color n c t) m = right_of t m"
  "payload_of (u_mulle_rbnode_set_color n c t) m = payload_of t m"
  "child (u_mulle_rbnode_set_color n c t) d m = child t d m"
  "red (u_mulle_rbnode_set_color n c t) m = (if m = n then bit c 0 else red t m)"
  by (auto simp: u_mulle_rbnode_set_color_def red_bit child_def split: side.split)

lemma set_red_black [simp]:
  "u_mulle__rbtree_set_node_red n t = u_mulle_rbnode_set_color n 1 t"
  "u_mulle__rbtree_set_node_black n t = u_mulle_rbnode_set_color n 0 t"
  "u_mulle_rbnode_set_red n t = u_mulle_rbnode_set_color n 1 t"
  "u_mulle_rbnode_set_black n t = u_mulle_rbnode_set_color n 0 t"
  "u_mulle__rbtree_set_node_color n c t = u_mulle_rbnode_set_color n c t"
  by (simp_all add: u_mulle__rbtree_set_node_red_def u_mulle__rbtree_set_node_black_def
      u_mulle__rbtree_set_node_color_def u_mulle_rbnode_set_color_def u_mulle_rbnode_set_red_def
      u_mulle_rbnode_set_black_def)

lemma get_color_bit [simp]: "bit (u_mulle_rbnode_get_color t n) 0 = red t n"
  by (simp add: u_mulle_rbnode_get_color_def red_bit bit_simps)

section \<open>Trees in the nodes\<close>

fun rep :: "mulle__rbtree \<Rightarrow> pointer \<Rightarrow> pointer \<Rightarrow> rbt \<Rightarrow> bool" where
  "rep t g p Leaf = (p = rt_nil t)"
| "rep t g p (Node l a c r) = (p = a \<and> a \<noteq> rt_nil t \<and> parent_of t a = g \<and> red t a = c \<and>
     rep t a (left_of t a) l \<and> rep t a (right_of t a) r)"

fun rep_ctx :: "mulle__rbtree \<Rightarrow> step list \<Rightarrow> pointer \<Rightarrow> pointer \<Rightarrow> bool" where
  "rep_ctx t [] p g = (rt_root t = p \<and> g = rt_nil t)"
| "rep_ctx t (Step d a c s # cs) p g = (g = a \<and> a \<noteq> rt_nil t \<and> red t a = c \<and> child t d a = p \<and>
     rep t a (child t (other d) a) s \<and> rep_ctx t cs a (parent_of t a))"

lemma rep_plug1 [simp]:
  "rep t g p (plug1 (Step d a c s) u) \<longleftrightarrow> p = a \<and> a \<noteq> rt_nil t \<and> parent_of t a = g \<and> red t a = c \<and>
     rep t a (child t d a) u \<and> rep t a (child t (other d) a) s"
  by (cases d) auto

lemma rep_plug: "rep t (rt_nil t) (rt_root t) (plug c s) \<longleftrightarrow> (\<exists>p g. rep_ctx t c p g \<and> rep t g p s)"
proof (induction c arbitrary: s)
  case (Cons st c)
  obtain d a e u where st: "st = Step d a e u" by (cases st)
  show ?case using Cons[of "plug1 st s"] unfolding st by auto
qed simp

lemma rep_nodes: "rep t g p T \<Longrightarrow> rt_nil t \<notin> set (inorder T)"
  by (induction T arbitrary: g p) auto

lemma rep_root: "rep t g p T \<Longrightarrow> p = rt_nil t \<or> p \<in> set (inorder T)"
  by (cases T) auto

lemma rep_Leaf: "rep t g p T \<Longrightarrow> p = rt_nil t \<longleftrightarrow> T = Leaf"
  by (cases T) auto

lemma rep_red: "rep t g p T \<Longrightarrow> \<not> red t (rt_nil t) \<Longrightarrow> red t p = red_root T"
  by (cases T) auto

lemma rep_ctx_nodes: "rep_ctx t c p g \<Longrightarrow> rt_nil t \<notin> ctx_nodes c"
proof (induction c arbitrary: p g)
  case (Cons st c)
  obtain d a e u where st: "st = Step d a e u" by (cases st)
  show ?case using Cons.prems Cons.IH rep_nodes unfolding st by fastforce
qed simp

definition agree :: "mulle__rbtree \<Rightarrow> mulle__rbtree \<Rightarrow> pointer \<Rightarrow> bool" where
  "agree t t' n \<longleftrightarrow> parent_of t' n = parent_of t n \<and> left_of t' n = left_of t n \<and> right_of t' n = right_of t n \<and>
     red t' n = red t n"

lemma agreeD: "agree t t' n \<Longrightarrow> parent_of t' n = parent_of t n \<and> child t' d n = child t d n \<and> red t' n = red t n"
  by (cases d) (auto simp: agree_def)

lemma rep_frame:
  "rep t g p T \<Longrightarrow> rt_nil t' = rt_nil t \<Longrightarrow> (\<And>n. n \<in> set (inorder T) \<Longrightarrow> agree t t' n) \<Longrightarrow> rep t' g p T"
  by (induction T arbitrary: g p) (auto simp: agree_def)

lemma rep_ctx_frame:
  "rep_ctx t c p g \<Longrightarrow> rt_nil t' = rt_nil t \<Longrightarrow> rt_root t' = rt_root t \<Longrightarrow>
     (\<And>n. n \<in> ctx_nodes c \<Longrightarrow> agree t t' n) \<Longrightarrow> rep_ctx t' c p g"
proof (induction c arbitrary: p g)
  case (Cons st c)
  obtain d a e u where st: "st = Step d a e u" by (cases st)
  have a: "agree t t' a" using Cons.prems(4) st by simp
  have "rep t' a (child t (other d) a) u"
    by (rule rep_frame) (use Cons.prems st in auto)
  moreover have "rep_ctx t' c a (parent_of t a)" by (rule Cons.IH) (use Cons.prems st in auto)
  ultimately show ?case using Cons.prems(1,2) agreeD[OF a] unfolding st by simp
qed simp

lemma rep_view:
  assumes "rt_view t' = rt_view t"
  shows "rep t' g p T = rep t g p T" and "rep_ctx t' c p g = rep_ctx t c p g"
proof -
  note v = rt_viewD[OF assms]
  have "agree t t' n" "agree t' t n" for n using v(5-7,9) by (auto simp: agree_def)
  then show "rep t' g p T = rep t g p T" "rep_ctx t' c p g = rep_ctx t c p g"
    using rep_frame[of t g p T t'] rep_frame[of t' g p T t] rep_ctx_frame[of t c p g t'] rep_ctx_frame[of t' c p g t]
      v(1,2) by auto
qed

text \<open>The root of a subtree gets another parent.\<close>

lemma rep_reroot:
  assumes "rep t g p T" "rt_nil t' = rt_nil t" "distinct (inorder T)"
    "\<And>n. n \<in> set (inorder T) \<Longrightarrow> n \<noteq> p \<Longrightarrow> agree t t' n"
    "p \<noteq> rt_nil t \<Longrightarrow> left_of t' p = left_of t p \<and> right_of t' p = right_of t p \<and> red t' p = red t p \<and> parent_of t' p = g'"
  shows "rep t' g' p T"
proof (cases T)
  case (Node l a c r)
  have "rep t' a (left_of t a) l" "rep t' a (right_of t a) r"
    by (rule rep_frame[of t]; use assms Node in auto)+
  then show ?thesis using assms Node by auto
qed (use assms in auto)

text \<open>The hole gets another occupant.\<close>

lemma rep_ctx_relink:
  assumes "rep_ctx t c p g" "p \<noteq> rt_nil t" "p \<notin> ctx_nodes c" "distinct (before c @ behind c)" "rt_nil t' = rt_nil t"
    "rt_root t' = (if c = [] then q else rt_root t)"
    "\<And>n. n \<in> ctx_nodes c \<Longrightarrow> parent_of t' n = parent_of t n \<and> red t' n = red t n"
    "\<And>n d. n \<in> ctx_nodes c \<Longrightarrow> child t' d n = (if n = g \<and> child t d n = p then q else child t d n)"
  shows "rep_ctx t' c q g"
proof (cases c)
  case (Cons st cs)
  obtain d a e u where st: "st = Step d a e u" by (cases st)
  note c = Cons[unfolded st]
  have g: "g = a" "child t d a = p" "rep t a (child t (other d) a) u" "rep_ctx t cs a (parent_of t a)" "a \<noteq> rt_nil t" "red t a = e"
    using assms(1) c by auto
  have "distinct (before cs @ behind cs)" "a \<notin> set (inorder u)" "a \<notin> ctx_nodes cs" "set (inorder u) \<inter> ctx_nodes cs = {}"
    using assms(4) c by (cases d; auto simp: ctx_nodes_set)+
  moreover have "child t (other d) a \<noteq> p" using rep_root[OF g(3)] assms(2,3) c by auto
  moreover have "agree t t' n" if "n \<in> set (inorder u) \<union> ctx_nodes cs" for n
    using assms(7)[of n] assms(8)[of n InLeft] assms(8)[of n InRight] that c g(1) calculation by (auto simp: agree_def)
  ultimately have "rep t' a (child t (other d) a) u" "rep_ctx t' cs a (parent_of t a)"
    using rep_frame[OF g(3) assms(5)] rep_ctx_frame[OF g(4) assms(5)] assms(6) c by auto
  then show ?thesis using c g assms(5) assms(7)[of a] assms(8)[of a d] assms(8)[of a "other d"] \<open>child t (other d) a \<noteq> p\<close> by simp
qed (use assms in auto)

section \<open>Climbing and rotating\<close>

inductive rises :: "mulle__rbtree \<Rightarrow> pointer \<Rightarrow> bool" for t where
  top: "rises t (rt_nil t)"
| up: "rises t (parent_of t n) \<Longrightarrow> rises t n"

lemma rises_ctx: "rep_ctx t c p g \<Longrightarrow> rises t g"
proof (induction c arbitrary: p g)
  case Nil
  then show ?case by (simp add: rises.top)
next
  case (Cons st c)
  then show ?case by (cases st) (auto intro: rises.up)
qed

lemma rises_view: "rises t n \<Longrightarrow> rt_view t' = rt_view t \<Longrightarrow> rises t' n"
  by (induction rule: rises.induct) (metis rises.top rt_viewD(2), metis rises.up rt_viewD(5))

lemma mark_dirty:
  assumes "rises t n" "rt_view u = rt_view t"
  shows "\<exists>t'. u_mulle__rbtree_mark_node_as_dirty n u = Some t' \<and> rt_view t' = rt_view t"
  using assms
proof (induction arbitrary: u rule: rises.induct)
  case top
  then show ?case using rt_viewD(2)[OF top] by (subst u_mulle__rbtree_mark_node_as_dirty.simps) simp
next
  case (up n)
  show ?case
  proof (cases "n = rt_nil u")
    case True
    then show ?thesis using up.prems by (subst u_mulle__rbtree_mark_node_as_dirty.simps) simp
  next
    case False
    let ?v = "u_mulle_rbnode_set_dirty n u"
    have v: "rt_view ?v = rt_view t" using set_dirty_view[of n u] up.prems by simp
    then have "parent_of ?v n = parent_of t n" by (rule rt_viewD)
    then show ?thesis using up.IH[OF v] False
      by (subst u_mulle__rbtree_mark_node_as_dirty.simps) (simp add: Let_def)
  qed
qed

text \<open>What a rotation writes, up to marks: the fields afterwards.\<close>

definition rotated :: "side \<Rightarrow> pointer \<Rightarrow> mulle__rbtree \<Rightarrow> mulle__rbtree \<Rightarrow> bool" where
  "rotated d p t u \<longleftrightarrow>
     (let q = child t (other d) p; b = child t d q; g = parent_of t p in
     rt_nil u = rt_nil t \<and> rt_options u = rt_options t \<and> rt_freed u = rt_freed t \<and>
     rt_root u = (if g = rt_nil t then q else rt_root t) \<and>
     (\<forall>n. payload_of u n = payload_of t n \<and> red u n = red t n) \<and>
     (\<forall>n. parent_of u n = (if n = p then q else if n = q then g else if n = b \<and> b \<noteq> rt_nil t then p else parent_of t n)) \<and>
     (\<forall>n e. child u e n = (if n = p \<and> e = other d then b else if n = q \<and> e = d then p
        else if n = g \<and> g \<noteq> rt_nil t \<and> e = (if p = right_of t g then InRight else InLeft) then q else child t e n)))"

lemma rotatedI:
  assumes "child t (other d) p = q" "child t d q = b" "parent_of t p = g"
    "rt_nil u = rt_nil t" "rt_options u = rt_options t" "rt_freed u = rt_freed t"
    "rt_root u = (if g = rt_nil t then q else rt_root t)"
    "\<And>n. payload_of u n = payload_of t n" "\<And>n. red u n = red t n"
    "\<And>n. parent_of u n = (if n = p then q else if n = q then g else if n = b \<and> b \<noteq> rt_nil t then p else parent_of t n)"
    "\<And>n e. child u e n = (if n = p \<and> e = other d then b else if n = q \<and> e = d then p
        else if n = g \<and> g \<noteq> rt_nil t \<and> e = (if p = right_of t g then InRight else InLeft) then q else child t e n)"
  shows "rotated d p t u"
  using assms by (simp add: rotated_def)

lemma red_set_link [simp]:
  "red (set_parent n p t) m = red t m" "red (set_left n p t) m = red t m" "red (set_right n p t) m = red t m"
  by (simp_all add: red_bit)

lemma set_child_simps [simp]:
  "rt_root (mulle_rb_node_set_right p n t) = rt_root t" "rt_nil (mulle_rb_node_set_right p n t) = rt_nil t"
  "rt_options (mulle_rb_node_set_right p n t) = rt_options t" "rt_freed (mulle_rb_node_set_right p n t) = rt_freed t"
  "parent_of (mulle_rb_node_set_right p n t) m = (if m = n \<and> n \<noteq> rt_nil t then p else parent_of t m)"
  "left_of (mulle_rb_node_set_right p n t) m = left_of t m"
  "right_of (mulle_rb_node_set_right p n t) m = (if m = p then n else right_of t m)"
  "payload_of (mulle_rb_node_set_right p n t) m = payload_of t m"
  "red (mulle_rb_node_set_right p n t) m = red t m"
  "rt_root (mulle_rb_node_set_left p n t) = rt_root t" "rt_nil (mulle_rb_node_set_left p n t) = rt_nil t"
  "rt_options (mulle_rb_node_set_left p n t) = rt_options t" "rt_freed (mulle_rb_node_set_left p n t) = rt_freed t"
  "parent_of (mulle_rb_node_set_left p n t) m = (if m = n \<and> n \<noteq> rt_nil t then p else parent_of t m)"
  "left_of (mulle_rb_node_set_left p n t) m = (if m = p then n else left_of t m)"
  "right_of (mulle_rb_node_set_left p n t) m = right_of t m"
  "payload_of (mulle_rb_node_set_left p n t) m = payload_of t m"
  "red (mulle_rb_node_set_left p n t) m = red t m"
  by (simp_all add: mulle_rb_node_set_right_def mulle_rb_node_set_left_def red_bit)

lemma reparent_unfold:
  assumes "p \<noteq> q" "parent_of t p = g" "g \<noteq> q"
  shows "mulle_rb_node_reparent p q t =
     (let t = u_mulle__rbtree_set_node_marked q (set_parent q g t)
      in if g = rt_nil t then t\<lparr>rt_root := q\<rparr>
         else u_mulle__rbtree_set_node_marked g (if p = right_of t g then set_right g q t else set_left g q t))"
proof -
  have 1: "parent_of (u_mulle__rbtree_set_node_marked q (set_parent q g t)) p = g"
    "right_of (u_mulle__rbtree_set_node_marked q (set_parent q g t)) g = right_of t g" using assms by simp_all
  have 2: "parent_of (set_right g q u) m = parent_of u m" "parent_of (set_left g q u) m = parent_of u m" for u m
    by simp_all
  have 3: "rt_nil (u_mulle__rbtree_set_node_marked q (set_parent q g t)) = rt_nil t" by simp
  show ?thesis
    unfolding mulle_rb_node_reparent_def Let_def assms(2) if_distrib[of "\<lambda>u. parent_of u _"] 1 2 3 if_cancel ..
qed

lemma reparent_simps:
  assumes "p \<noteq> q" "parent_of t p = g" "g \<noteq> q"
  shows "rt_root (mulle_rb_node_reparent p q t) = (if g = rt_nil t then q else rt_root t)"
    "rt_nil (mulle_rb_node_reparent p q t) = rt_nil t"
    "rt_options (mulle_rb_node_reparent p q t) = rt_options t" "rt_freed (mulle_rb_node_reparent p q t) = rt_freed t"
    "parent_of (mulle_rb_node_reparent p q t) m = (if m = q then g else parent_of t m)"
    "left_of (mulle_rb_node_reparent p q t) m =
       (if g \<noteq> rt_nil t \<and> m = g \<and> p \<noteq> right_of t g then q else left_of t m)"
    "right_of (mulle_rb_node_reparent p q t) m =
       (if g \<noteq> rt_nil t \<and> m = g \<and> p = right_of t g then q else right_of t m)"
    "payload_of (mulle_rb_node_reparent p q t) m = payload_of t m"
    "red (mulle_rb_node_reparent p q t) m = red t m"
  unfolding reparent_unfold[OF assms] Let_def using assms(1,3)
  by (cases "g = rt_nil t"; cases "p = right_of t g"; simp)+

definition left_links :: "pointer \<Rightarrow> mulle__rbtree \<Rightarrow> mulle__rbtree" where
  "left_links p t =
     (let t = u_mulle__rbtree_set_node_marked p t;
          n = right_of t p;
          t = u_mulle__rbtree_set_node_marked n t;
          t = mulle_rb_node_set_right p (left_of t n) t;
          t = u_mulle__rbtree_set_node_marked (left_of t n) t;
          t = mulle_rb_node_reparent p n t;
          t = set_left n p t;
          t = set_parent p n t
      in u_mulle__rbtree_set_node_marked (parent_of t p) t)"

definition right_links :: "pointer \<Rightarrow> mulle__rbtree \<Rightarrow> mulle__rbtree" where
  "right_links p t =
     (let t = u_mulle__rbtree_set_node_marked p t;
          n = left_of t p;
          t = u_mulle__rbtree_set_node_marked n t;
          t = mulle_rb_node_set_left p (right_of t n) t;
          t = u_mulle__rbtree_set_node_marked (right_of t n) t;
          t = mulle_rb_node_reparent p n t;
          t = set_right n p t;
          t = set_parent p n t
      in u_mulle__rbtree_set_node_marked (parent_of t p) t)"

lemma left_links_rotated:
  assumes q: "right_of t p = q" and b: "left_of t q = b" and g: "parent_of t p = g"
    and ne: "p \<noteq> q" "g \<noteq> p" "g \<noteq> q" "b \<noteq> p" "b \<noteq> q" "q \<noteq> rt_nil t"
  shows "rotated InLeft p t (left_links p t)"
proof -
  define s where "s = u_mulle__rbtree_set_node_marked b (mulle_rb_node_set_right p b
    (u_mulle__rbtree_set_node_marked q (u_mulle__rbtree_set_node_marked p t)))"
  have s: "rt_root s = rt_root t" "rt_nil s = rt_nil t" "rt_options s = rt_options t" "rt_freed s = rt_freed t"
    "\<And>m. parent_of s m = (if m = b \<and> b \<noteq> rt_nil t then p else parent_of t m)"
    "\<And>m. left_of s m = left_of t m" "\<And>m. right_of s m = (if m = p then b else right_of t m)"
    "\<And>m. payload_of s m = payload_of t m" "\<And>m. red s m = red t m"
    by (simp_all add: s_def)
  have sg: "parent_of s p = g" using s(5) ne(4) g by simp
  define w where "w = mulle_rb_node_reparent p q s"
  note w = reparent_simps[OF ne(1) sg ne(3), folded w_def]
  have l: "left_links p t = u_mulle__rbtree_set_node_marked q (set_parent p q (set_left q p w))"
    using q b ne by (simp add: left_links_def Let_def s_def w_def)
  show ?thesis
  proof (rule rotatedI)
    show "child (left_links p t) e n = (if n = p \<and> e = other InLeft then b else if n = q \<and> e = InLeft then p
        else if n = g \<and> g \<noteq> rt_nil t \<and> e = (if p = right_of t g then InRight else InLeft) then q else child t e n)" for e n
      using ne by (cases e) (simp_all add: l s w q b)
  qed (use ne q b g in \<open>simp_all add: l s w\<close>)
qed

lemma right_links_rotated:
  assumes q: "left_of t p = q" and b: "right_of t q = b" and g: "parent_of t p = g"
    and ne: "p \<noteq> q" "g \<noteq> p" "g \<noteq> q" "b \<noteq> p" "b \<noteq> q" "q \<noteq> rt_nil t"
  shows "rotated InRight p t (right_links p t)"
proof -
  define s where "s = u_mulle__rbtree_set_node_marked b (mulle_rb_node_set_left p b
    (u_mulle__rbtree_set_node_marked q (u_mulle__rbtree_set_node_marked p t)))"
  have s: "rt_root s = rt_root t" "rt_nil s = rt_nil t" "rt_options s = rt_options t" "rt_freed s = rt_freed t"
    "\<And>m. parent_of s m = (if m = b \<and> b \<noteq> rt_nil t then p else parent_of t m)"
    "\<And>m. right_of s m = right_of t m" "\<And>m. left_of s m = (if m = p then b else left_of t m)"
    "\<And>m. payload_of s m = payload_of t m" "\<And>m. red s m = red t m"
    by (simp_all add: s_def)
  have sg: "parent_of s p = g" using s(5) ne(4) g by simp
  define w where "w = mulle_rb_node_reparent p q s"
  note w = reparent_simps[OF ne(1) sg ne(3), folded w_def]
  have l: "right_links p t = u_mulle__rbtree_set_node_marked q (set_parent p q (set_right q p w))"
    using q b ne by (simp add: right_links_def Let_def s_def w_def)
  show ?thesis
  proof (rule rotatedI)
    show "child (right_links p t) e n = (if n = p \<and> e = other InRight then b else if n = q \<and> e = InRight then p
        else if n = g \<and> g \<noteq> rt_nil t \<and> e = (if p = right_of t g then InRight else InLeft) then q else child t e n)" for e n
      using ne by (cases e) (simp_all add: l s w q b)
  qed (use ne q b g in \<open>simp_all add: l s w\<close>)
qed

lemma reparent_options [simp]: "rt_options (mulle_rb_node_reparent p q t) = rt_options t"
  by (simp add: mulle_rb_node_reparent_def Let_def)

lemma rotate_eq:
  "rotate_node InLeft p t = (if rt_options t AND mulle_rbtree_option_use_dirty \<noteq> 0
     then u_mulle__rbtree_mark_node_as_dirty p (left_links p t) else Some (left_links p t))"
  "rotate_node InRight p t = (if rt_options t AND mulle_rbtree_option_use_dirty \<noteq> 0
     then u_mulle__rbtree_mark_node_as_dirty p (right_links p t) else Some (right_links p t))"
  by (simp_all add: rotate_node_def u_mulle__rbtree_left_rotate_node_def u_mulle__rbtree_right_rotate_node_def
      left_links_def right_links_def Let_def)

lemma rotate_links:
  assumes "child t (other d) p = q" "child t d q = b" "parent_of t p = g"
    "p \<noteq> q" "g \<noteq> p" "g \<noteq> q" "b \<noteq> p" "b \<noteq> q" "q \<noteq> rt_nil t"
  shows "\<exists>u. rotated d p t u \<and> rotate_node d p t =
    (if rt_options u AND mulle_rbtree_option_use_dirty \<noteq> 0 then u_mulle__rbtree_mark_node_as_dirty p u else Some u)"
proof (cases d)
  case InLeft
  have "rotated InLeft p t (left_links p t)" by (rule left_links_rotated[of t p q b g]) (use assms InLeft in auto)
  moreover from this have o: "rt_options (left_links p t) = rt_options t" by (simp add: rotated_def Let_def)
  ultimately show ?thesis unfolding InLeft rotate_eq(1) o[symmetric] by (intro exI[of _ "left_links p t"] conjI) (assumption, rule refl)
next
  case InRight
  have "rotated InRight p t (right_links p t)" by (rule right_links_rotated[of t p q b g]) (use assms InRight in auto)
  moreover from this have o: "rt_options (right_links p t) = rt_options t" by (simp add: rotated_def Let_def)
  ultimately show ?thesis unfolding InRight rotate_eq(2) o[symmetric] by (intro exI[of _ "right_links p t"] conjI) (assumption, rule refl)
qed

text \<open>What the operations leave alone.\<close>

definition stable :: "mulle__rbtree \<Rightarrow> mulle__rbtree \<Rightarrow> bool" where
  "stable t t' \<longleftrightarrow> rt_nil t' = rt_nil t \<and> rt_options t' = rt_options t \<and> rt_freed t' = rt_freed t \<and>
     (\<forall>n. payload_of t' n = payload_of t n) \<and> (\<forall>d. child t' d (rt_nil t) = child t d (rt_nil t)) \<and>
     parent_of t' (rt_nil t) = parent_of t (rt_nil t)"

lemma stable_refl [simp]: "stable t t"
  by (simp add: stable_def)

lemma stable_trans [trans]: "stable t u \<Longrightarrow> stable u v \<Longrightarrow> stable t v"
  by (simp add: stable_def)

lemma stable_view:
  assumes "rt_view t' = rt_view t"
  shows "stable t t'"
  using rt_viewD[OF assms] by (simp add: stable_def)

lemma rep_ctx_child:
  assumes "rep_ctx t c p g" "p \<noteq> rt_nil t" "p \<notin> ctx_nodes c" "c \<noteq> []"
  shows "(left_of t g = p) \<noteq> (right_of t g = p)"
proof -
  obtain d a e u cs where c: "c = Step d a e u # cs" using assms(4) by (cases c) (metis step.exhaust)+
  then have "rep t a (child t (other d) a) u" "child t d g = p" "g = a" using assms(1) by auto
  then show ?thesis using rep_root[of t a "child t (other d) a" u] assms(2,3) c by (cases d) auto
qed

lemma rep_ctx_nil: "rep_ctx t c p g \<Longrightarrow> g = rt_nil t \<longleftrightarrow> c = []"
  by (cases c rule: ctx_nodes.cases) auto

lemma rep_ctx_parent: "rep_ctx t c p g \<Longrightarrow> g = rt_nil t \<or> g \<in> ctx_nodes c"
  by (cases c rule: ctx_nodes.cases) auto

text \<open>The nodes of a rotated part of a tree are pairwise different.\<close>

lemma distinct_plug1:
  "distinct (inorder (plug1 (Step d a e s) u)) \<longleftrightarrow>
     a \<notin> set (inorder s) \<and> a \<notin> set (inorder u) \<and> set (inorder s) \<inter> set (inorder u) = {} \<and>
     distinct (inorder s) \<and> distinct (inorder u)"
  by (cases d) auto

lemma set_plug1 [simp]: "set (inorder (plug1 (Step d a e s) u)) = insert a (set (inorder s) \<union> set (inorder u))"
  by (cases d) auto

definition apart :: "step list \<Rightarrow> rbt \<Rightarrow> bool" where
  "apart c T \<longleftrightarrow> distinct (before c @ behind c) \<and> distinct (inorder T) \<and> ctx_nodes c \<inter> set (inorder T) = {}"

lemma apart_distinct: "apart c T \<longleftrightarrow> distinct (inorder (plug c T))"
  by (auto simp: apart_def inorder_plug ctx_nodes_set)

lemma rotate_rep:
  assumes ctx: "rep_ctx t c p g" and r: "rep t g p (plug1 (Step d p cp (plug1 (Step d q cq D) B)) A)"
    and ap: "apart c (plug1 (Step d p cp (plug1 (Step d q cq D) B)) A)"
  shows "\<exists>t'. rotate_node d p t = Some t' \<and> rep_ctx t' c q g \<and>
    rep t' g q (plug1 (Step d q cq D) (plug1 (Step d p cp B) A)) \<and> stable t t' \<and> (\<forall>n. red t' n = red t n)"
proof -
  define b where "b = child t d q"
  have f: "p \<noteq> rt_nil t" "parent_of t p = g" "red t p = cp" "rep t p (child t d p) A" "child t (other d) p = q"
    "q \<noteq> rt_nil t" "parent_of t q = p" "red t q = cq" "rep t q b B" "rep t q (child t (other d) q) D"
    using r by (auto simp: b_def)
  have ne: "p \<noteq> q" "p \<notin> set (inorder A) \<union> set (inorder B) \<union> set (inorder D) \<union> ctx_nodes c"
    "q \<notin> set (inorder A) \<union> set (inorder B) \<union> set (inorder D) \<union> ctx_nodes c"
    and dis: "set (inorder A) \<inter> set (inorder B) = {}" "set (inorder D) \<inter> set (inorder B) = {}"
    "ctx_nodes c \<inter> (set (inorder A) \<union> set (inorder B) \<union> set (inorder D)) = {}"
    "distinct (inorder B)" "distinct (before c @ behind c)"
    using ap by (auto simp: apart_def distinct_plug1)
  have g: "g = rt_nil t \<or> g \<in> ctx_nodes c" using ctx by (rule rep_ctx_parent)
  have b: "b = rt_nil t \<or> b \<in> set (inorder B)" using f(9) by (rule rep_root)
  have nil: "rt_nil t \<notin> ctx_nodes c" "rt_nil t \<notin> set (inorder A)" "rt_nil t \<notin> set (inorder D)" "rt_nil t \<notin> set (inorder B)"
    using rep_ctx_nodes[OF ctx] rep_nodes f by auto
  have gn: "g \<noteq> p" "g \<noteq> q" using g f(1,6) ne(2,3) by auto
  have bn: "b \<noteq> p" "b \<noteq> q" using b f(1,6) ne(2,3) by auto
  obtain u where u: "rotated d p t u" and eq: "rotate_node d p t =
    (if rt_options u AND mulle_rbtree_option_use_dirty \<noteq> 0 then u_mulle__rbtree_mark_node_as_dirty p u else Some u)"
    using rotate_links[OF f(5) b_def[symmetric] f(2) ne(1) gn bn f(6)] by blast
  have n: "rt_nil u = rt_nil t" "rt_root u = (if g = rt_nil t then q else rt_root t)" "\<And>n. red u n = red t n"
    and par: "\<And>n. parent_of u n = (if n = p then q else if n = q then g else if n = b \<and> b \<noteq> rt_nil t then p else parent_of t n)"
    and ch: "\<And>n e. child u e n = (if n = p \<and> e = other d then b else if n = q \<and> e = d then p
        else if n = g \<and> g \<noteq> rt_nil t \<and> e = (if p = right_of t g then InRight else InLeft) then q else child t e n)"
    and st: "stable t u"
    using u nil f(1,6) unfolding rotated_def Let_def stable_def f(2,5) b_def[symmetric] by auto
  have agr: "agree t u n" if "n \<noteq> p" "n \<noteq> q" "n \<noteq> g" "n \<noteq> b" for n
    using that par[of n] ch[of InLeft n] ch[of InRight n] n(3) by (simp add: agree_def)
  have ctx': "rep_ctx u c q g"
  proof (rule rep_ctx_relink[OF ctx f(1)])
    show "child u e m = (if m = g \<and> child t e m = p then q else child t e m)" if "m \<in> ctx_nodes c" for m e
    proof -
      have "m \<noteq> p" "m \<noteq> q" "c \<noteq> []" "p \<notin> ctx_nodes c" using that ne(2,3) by auto
      then have "(left_of t g = p) \<noteq> (right_of t g = p)"
        and "child u e m = (if m = g \<and> g \<noteq> rt_nil t \<and> e = (if p = right_of t g then InRight else InLeft) then q else child t e m)"
        using rep_ctx_child[OF ctx f(1)] ch[of e m] by auto
      then show ?thesis using that nil(1) by (cases e) auto
    qed
    show "parent_of u m = parent_of t m \<and> red u m = red t m" if "m \<in> ctx_nodes c" for m
      using that par[of m] n(3) ne b dis(3) nil by auto
  qed (use n dis ne rep_ctx_nil[OF ctx] in auto)
  have agrAD: "agree t u n" if "n \<in> set (inorder A) \<union> set (inorder D)" for n
  proof (rule agr)
    show "n \<noteq> p" "n \<noteq> q" using that ne(2,3) by auto
    show "n \<noteq> g" using that g nil dis(3) by auto
    show "n \<noteq> b" using that b nil dis(1,2) by auto
  qed
  have agrB: "agree t u n" if "n \<in> set (inorder B)" "n \<noteq> b" for n
  proof (rule agr)
    show "n \<noteq> p" "n \<noteq> q" using that ne(2,3) by auto
    show "n \<noteq> g" using that g nil dis(3) by auto
  qed (use that in simp)
  have chb: "child u e b = child t e b" if "b \<noteq> rt_nil t" for e
    using ch[of e b] bn that g nil(4) b dis(3) by auto
  have "child u d p = child t d p" "child u (other d) q = child t (other d) q"
    using ch[of d p] ch[of "other d" q] ne(1) gn by auto
  then have "rep u p (child u d p) A" "rep u q (child u (other d) q) D"
    using rep_frame[OF f(4) n(1)] rep_frame[OF f(10) n(1)] agrAD by simp_all
  moreover have "rep u p b B"
    by (rule rep_reroot[OF f(9) n(1) dis(4)])
       (use agrB chb[of InLeft] chb[of InRight] par[of b] bn n(3) in auto)
  ultimately have rp: "rep u g q (plug1 (Step d q cq D) (plug1 (Step d p cp B) A))"
    using f n par[of p] par[of q] ch[of d q] ch[of "other d" p] ne(1) by auto
  have "rises u p" by (rule rises.up, rule rises.up) (use par ne(1) rises_ctx[OF ctx'] in auto)
  then obtain v where "u_mulle__rbtree_mark_node_as_dirty p u = Some v" "rt_view v = rt_view u"
    using mark_dirty by blast
  then obtain t' where t': "rotate_node d p t = Some t'" and v: "rt_view t' = rt_view u" using eq by (auto split: if_splits)
  have "rep_ctx t' c q g" "rep t' g q (plug1 (Step d q cq D) (plug1 (Step d p cp B) A))"
    using ctx' rp unfolding rep_view[OF v] by blast+
  moreover have "stable t t'" using st stable_view[OF v] by (rule stable_trans)
  moreover have "red t' m = red t m" for m using rt_viewD(9)[OF v] n(3) by simp
  ultimately show ?thesis using t' by blast
qed

end
