(* ===== verification/Rbtree_Insert.thy ===== *)
theory Rbtree_Insert
  imports Rbtree
begin

text \<open>
  Inserting into the red-black tree: repainting keeps the tree, the loop that repairs a red node below a
  red one ends and restores the balance, and a new node gets the place in the order that was asked for.
\<close>

section \<open>Painting\<close>

lemma agree_color: "n \<noteq> m \<Longrightarrow> agree t (u_mulle_rbnode_set_color m c t) n"
  by (simp add: agree_def)

lemma rep_color [simp]:
  "m \<notin> set (inorder T) \<Longrightarrow> rep (u_mulle_rbnode_set_color m c t) g p T = rep t g p T"
proof -
  assume m: "m \<notin> set (inorder T)"
  then have "agree t (u_mulle_rbnode_set_color m c t) n \<and> agree (u_mulle_rbnode_set_color m c t) t n"
    if "n \<in> set (inorder T)" for n using that by (auto simp: agree_def)
  then show ?thesis using rep_frame[of t g p T "u_mulle_rbnode_set_color m c t"]
      rep_frame[of "u_mulle_rbnode_set_color m c t" g p T t] by auto
qed

lemma rep_ctx_color [simp]:
  "m \<notin> ctx_nodes cs \<Longrightarrow> rep_ctx (u_mulle_rbnode_set_color m c t) cs p g = rep_ctx t cs p g"
proof -
  assume m: "m \<notin> ctx_nodes cs"
  then have "agree t (u_mulle_rbnode_set_color m c t) n \<and> agree (u_mulle_rbnode_set_color m c t) t n"
    if "n \<in> ctx_nodes cs" for n using that by (auto simp: agree_def)
  then show ?thesis using rep_ctx_frame[of t cs p g "u_mulle_rbnode_set_color m c t"]
      rep_ctx_frame[of "u_mulle_rbnode_set_color m c t" cs p g t] by auto
qed

lemma rep_paint:
  assumes "rep t g p T" "distinct (inorder T)"
  shows "rep (u_mulle_rbnode_set_color p c t) g p (paint (bit c 0) T)"
  using assms by (cases T) auto

lemma stable_color [simp]: "stable t (u_mulle_rbnode_set_color n c t)"
  by (simp add: stable_def)

text \<open>A whole tree: \<open>nil\<close> is black and has no children.\<close>

definition rep_tree :: "mulle__rbtree \<Rightarrow> rbt \<Rightarrow> bool" where
  "rep_tree t T \<longleftrightarrow> rep t (rt_nil t) (rt_root t) T \<and> distinct (inorder T) \<and> (\<forall>d. child t d (rt_nil t) = rt_nil t) \<and>
     \<not> red t (rt_nil t)"

lemma rep_tree_black_root:
  assumes "rep_tree t T"
  shows "rep_tree (u_mulle_rbnode_set_color (rt_root t) 0 t) (paint False T)"
proof -
  have "rep t (rt_nil t) (rt_root t) T" "distinct (inorder T)" using assms by (simp_all add: rep_tree_def)
  from rep_paint[OF this, of 0] show ?thesis using assms by (simp add: rep_tree_def)
qed

lemma rep_tree_plug:
  assumes "rep_ctx t c p g" "rep t g p s" "apart c s" "\<forall>d. child t d (rt_nil t) = rt_nil t" "\<not> red t (rt_nil t)"
  shows "rep_tree t (plug c s)"
  using assms rep_plug apart_distinct unfolding rep_tree_def by blast

text \<open>A tree with a focus: the context, the parent and the node in the hole, the subtree there.\<close>

definition nil_ok :: "mulle__rbtree \<Rightarrow> bool" where
  "nil_ok t \<longleftrightarrow> (\<forall>d. child t d (rt_nil t) = rt_nil t) \<and> \<not> red t (rt_nil t)"

definition hole :: "mulle__rbtree \<Rightarrow> step list \<Rightarrow> pointer \<Rightarrow> pointer \<Rightarrow> rbt \<Rightarrow> bool" where
  "hole t c g p T \<longleftrightarrow> rep_ctx t c p g \<and> rep t g p T \<and> apart c T \<and> nil_ok t"

lemma plug1_other: "plug1 (Step (other d) a c t) s = plug1 (Step d a c s) t"
  by (cases d) auto

lemma paint_plug1 [simp]: "paint k (plug1 (Step d a c s) t) = plug1 (Step d a k s) t"
  by (cases d) auto

lemma plug1_props [simp]:
  "red_root (plug1 (Step d a c s) t) = c"
  "bheight (plug1 (Step d a c s) t) = (case d of InLeft \<Rightarrow> bheight t | InRight \<Rightarrow> bheight s) + (if c then 0 else 1)"
  "balanced (plug1 (Step d a c s) t) \<longleftrightarrow>
     (c \<longrightarrow> \<not> red_root s \<and> \<not> red_root t) \<and> bheight s = bheight t \<and> balanced s \<and> balanced t"
  by (cases d; auto)+

lemma apart_up: "apart (Step d a e s # cs) X \<longleftrightarrow> apart cs (plug1 (Step d a e s) X)"
  by (simp add: apart_distinct)

lemma hole_up: "hole t (Step d a e s # cs) g x X \<longleftrightarrow>
    g = a \<and> x = child t d a \<and> hole t cs (parent_of t a) a (plug1 (Step d a e s) X)"
  by (auto simp: hole_def apart_up)

lemma hole_rep_tree: "hole t c g p T \<Longrightarrow> rep_tree t (plug c T)"
  unfolding hole_def nil_ok_def by (intro rep_tree_plug) auto

lemma rep_tree_hole: "rep_tree t (plug c T) \<Longrightarrow> \<exists>g p. hole t c g p T"
  by (auto simp: hole_def nil_ok_def rep_tree_def rep_plug apart_distinct)

lemma nil_ok_color: "nil_ok t \<Longrightarrow> \<not> (n = rt_nil t \<and> bit c 0) \<Longrightarrow> nil_ok (u_mulle_rbnode_set_color n c t)"
  by (auto simp: nil_ok_def)

lemma hole_color:
  assumes h: "hole t c g p T" and k: "\<not> (p = rt_nil t \<and> bit k 0)"
  shows "hole (u_mulle_rbnode_set_color p k t) c g p (paint (bit k 0) T)"
proof -
  have "distinct (inorder T)" "ctx_nodes c \<inter> set (inorder T) = {}" "apart c (paint (bit k 0) T)"
    using h by (auto simp: hole_def apart_def)
  moreover have "p \<notin> ctx_nodes c"
    using rep_root[of t g p T] rep_ctx_nodes[of t c p g] h calculation by (auto simp: hole_def)
  ultimately show ?thesis using h rep_paint[of t g p T k] nil_ok_color[OF _ k] by (simp add: hole_def)
qed

lemma hole_rotate:
  assumes "hole t c g p (plug1 (Step d p cp (plug1 (Step d q cq D) B)) A)"
  shows "\<exists>t'. rotate_node d p t = Some t' \<and> stable t t' \<and> (\<forall>n. red t' n = red t n) \<and>
    hole t' c g q (plug1 (Step d q cq D) (plug1 (Step d p cp B) A))"
proof -
  have "apart c (plug1 (Step d q cq D) (plug1 (Step d p cp B) A))"
    using assms by (cases d) (auto simp: hole_def apart_def)
  moreover obtain t' where "rotate_node d p t = Some t'" "rep_ctx t' c q g"
    "rep t' g q (plug1 (Step d q cq D) (plug1 (Step d p cp B) A))" "stable t t'" "\<forall>n. red t' n = red t n"
    using rotate_rep[of t c p g d cp q cq D B A] assms unfolding hole_def by blast
  moreover from this have "nil_ok t'" using assms by (simp add: hole_def nil_ok_def stable_def)
  ultimately show ?thesis unfolding hole_def by blast
qed

lemma hole_red: "hole t c g p T \<Longrightarrow> red t p = red_root T"
  using rep_red[of t g p T] by (simp add: hole_def nil_ok_def)

lemma hole_not_root:
  assumes "hole t c g p T" "c \<noteq> []"
  shows "p \<noteq> rt_root t"
proof -
  have "rt_root t \<in> ctx_nodes c" if "rep_ctx t c p g" "c \<noteq> []" for c p g
    using that
  proof (induction c arbitrary: p g)
    case (Cons s c)
    then show ?case by (cases s; cases c) auto
  qed simp
  then have "rt_root t \<in> ctx_nodes c" using assms unfolding hole_def by blast
  then show ?thesis using assms rep_root[of t g p T] rep_ctx_nodes[of t c p g] by (auto simp: hole_def apart_def)
qed

lemma hole_root_iff: "hole t c g p T \<Longrightarrow> p = rt_root t \<longleftrightarrow> c = []"
  using hole_not_root[of t c g p T] by (auto simp: hole_def)

section \<open>The red-red repair\<close>

lemma red_red_fixup_stop:
  "x = rt_root t \<or> \<not> red t (parent_of t x) \<Longrightarrow>
     u_mulle__rbtree_red_red_fixup x t = Some (u_mulle_rbnode_set_color (rt_root t) 0 t)"
  by (subst u_mulle__rbtree_red_red_fixup.simps) auto

lemma red_red_fixup_step:
  assumes "x \<noteq> rt_root t" "parent_of t x = p" "red t p" "parent_of t p = g" "child t e g = p" "child t (other e) g = y" "y \<noteq> p"
  shows "u_mulle__rbtree_red_red_fixup x t =
    (if red t y then u_mulle__rbtree_red_red_fixup g
       (u_mulle_rbnode_set_color y 0 (u_mulle_rbnode_set_color g 1 (u_mulle_rbnode_set_color p 0 t)))
     else do {
       (x, t) \<leftarrow> (if x = child t (other e) p then map_option (Pair p) (rotate_node e p t) else Some (x, t));
       let t = u_mulle_rbnode_set_color (parent_of t x) 0 t;
       let t = u_mulle_rbnode_set_color (parent_of t (parent_of t x)) 1 t;
       let x = u_mulle_rbnode_get_grandparent t x;
       t \<leftarrow> rotate_node (other e) x t;
       u_mulle__rbtree_red_red_fixup x t })"
proof -
  show ?thesis
    by (cases e; subst u_mulle__rbtree_red_red_fixup.simps;
        unfold Let_def set_red_black set_color_simps u_mulle_rbnode_get_grandparent_def assms(2,4) child_simps other.simps)
       (use assms in \<open>simp_all add: rotate_node_def\<close>)
qed

text \<open>The result of a repair: the nodes in the same order, balanced, with a black root.\<close>

definition repaired :: "mulle__rbtree \<Rightarrow> pointer list \<Rightarrow> mulle__rbtree option \<Rightarrow> bool" where
  "repaired t ns r \<longleftrightarrow> (\<exists>t' T. r = Some t' \<and> rep_tree t' T \<and> rbt_ok T \<and> inorder T = ns \<and> stable t t')"

text \<open>The tree holds these nodes, in this order.\<close>

definition rb_tree :: "mulle__rbtree \<Rightarrow> pointer list \<Rightarrow> bool" where
  "rb_tree t ns \<longleftrightarrow> (\<exists>T. rep_tree t T \<and> rbt_ok T \<and> inorder T = ns)"

lemma repaired_iff: "repaired t ns r \<longleftrightarrow> (\<exists>t'. r = Some t' \<and> rb_tree t' ns \<and> stable t t')"
  by (auto simp: repaired_def rb_tree_def)

lemma repaired_trans: "stable t u \<Longrightarrow> repaired u ns r \<Longrightarrow> repaired t ns r"
  unfolding repaired_def using stable_trans by blast

lemma red_red_stop:
  assumes h: "hole t c g x X" and b: "ctx_ok c (bheight X)" "balanced X" "red_root X" "\<not> red_above c"
  shows "repaired t (inorder (plug c X)) (u_mulle__rbtree_red_red_fixup x t)"
proof -
  have "x = rt_root t \<or> \<not> red t (parent_of t x)"
  proof (cases c)
    case (Cons st cs)
    obtain d a e s where st: "st = Step d a e s" by (cases st)
    have "rep t a x X" "red t a = e" using h unfolding Cons st by (auto simp: hole_def)
    then show ?thesis using b(3,4) Cons st by (cases X) auto
  qed (use hole_root_iff[OF h] in simp)
  then have e: "u_mulle__rbtree_red_red_fixup x t = Some (u_mulle_rbnode_set_color (rt_root t) 0 t)"
    by (rule red_red_fixup_stop)
  have "balanced (plug c X)" if "c \<noteq> []" using plug_ok[OF b(1,2)] b(4) that by (simp add: rbt_ok_def)
  then have "rbt_ok (paint False (plug c X))"
    using b(2) by (cases "c = []") (simp_all add: rbt_ok_def balanced_paint_black)
  then show ?thesis using rep_tree_black_root[OF hole_rep_tree[OF h]] unfolding repaired_def e
    by (intro exI[of _ "u_mulle_rbnode_set_color (rt_root t) 0 t"] exI[of _ "paint False (plug c X)"]) simp
qed

text \<open>The last two rotations of the repair.\<close>

lemma red_red_end:
  assumes h: "hole t (Step e p True s # Step e g False u # cs) p x X"
    and b: "ctx_ok (Step e p True s # Step e g False u # cs) (bheight X)" "balanced X" "red_root X" "\<not> red_root u"
  shows "repaired t (inorder (plug (Step e p True s # Step e g False u # cs) X)) (do {
       let t = u_mulle_rbnode_set_color (parent_of t x) 0 t;
       let t = u_mulle_rbnode_set_color (parent_of t (parent_of t x)) 1 t;
       let x = u_mulle_rbnode_get_grandparent t x;
       t \<leftarrow> rotate_node (other e) x t;
       u_mulle__rbtree_red_red_fixup x t })"
proof -
  let ?t1 = "u_mulle_rbnode_set_color p 0 t"
  let ?t2 = "u_mulle_rbnode_set_color g 1 ?t1"
  have x: "parent_of t x = p" using h b(3) by (cases X) (auto simp: hole_def)
  have h1: "hole t (Step e g False u # cs) (parent_of t p) p (plug1 (Step e p True s) X)" using h unfolding hole_up[of t e p] by simp
  have p: "parent_of t p = g" using h1 by (auto simp: hole_def)
  have "hole ?t1 (Step e g False u # cs) g p (plug1 (Step e p False s) X)"
    using hole_color[OF h1, of 0] by (simp add: p)
  then have "hole ?t1 cs (parent_of t g) g (plug1 (Step e g False u) (plug1 (Step e p False s) X))"
    unfolding hole_up set_color_simps by blast
  from hole_color[OF this, of 1] have "hole ?t2 cs (parent_of t g) g (plug1 (Step (other e) g True (plug1 (Step (other e) p False X) s)) u)"
    using h1 by (simp add: plug1_other hole_def)
  from hole_rotate[OF this] obtain t3 where t3: "rotate_node (other e) g ?t2 = Some t3" "stable ?t2 t3"
    "hole t3 cs (parent_of t g) p (plug1 (Step (other e) p False X) (plug1 (Step (other e) g True s) u))" by blast
  then have h3: "hole t3 (Step (other e) p False X # cs) p g (plug1 (Step (other e) g True s) u)"
    unfolding hole_up by (auto simp: hole_def)
  have bh: "bheight s = bheight X" "bheight u = bheight X" "balanced s" "balanced u" "\<not> red_root s"
    "ctx_ok cs (Suc (bheight X))" using b(1) by auto
  have "repaired t3 (inorder (plug (Step (other e) p False X # cs) (plug1 (Step (other e) g True s) u)))
      (u_mulle__rbtree_red_red_fixup g t3)"
    by (rule red_red_stop[OF h3]) (use b bh in \<open>simp_all split: side.split\<close>)
  moreover have "inorder (plug (Step (other e) p False X # cs) (plug1 (Step (other e) g True s) u)) =
      inorder (plug (Step e p True s # Step e g False u # cs) X)" by (cases e) (simp_all add: inorder_plug)
  moreover have "stable t t3" using t3(2) by (simp add: stable_def)
  ultimately have "repaired t (inorder (plug (Step e p True s # Step e g False u # cs) X)) (u_mulle__rbtree_red_red_fixup g t3)"
    using repaired_trans by simp
  then show ?thesis using t3(1) by (simp add: Let_def x p u_mulle_rbnode_get_grandparent_def)
qed

text \<open>One rotation turns a red node on the inner side into one on the outer side.\<close>

lemma red_red_turn:
  assumes h: "hole t (Step (other e) p True s # c) p x (plug1 (Step e x True D) B)" and c: "c = Step e g False u # cs"
  shows "\<exists>t'. rotate_node e p t = Some t' \<and> stable t t' \<and>
    hole t' (Step e x True D # c) x p (plug1 (Step e p True B) s)"
proof -
  have "hole t c (parent_of t p) p (plug1 (Step e p True (plug1 (Step e x True D) B)) s)"
    using h unfolding hole_up plug1_other by blast
  from hole_rotate[OF this] obtain t' where t': "rotate_node e p t = Some t'" "stable t t'"
    "hole t' c (parent_of t p) x (plug1 (Step e x True D) (plug1 (Step e p True B) s))" by blast
  from t'(3) have "parent_of t' x = parent_of t p" "child t' e x = p" by (simp_all add: hole_def)
  then have "hole t' (Step e x True D # c) x p (plug1 (Step e p True B) s)"
    unfolding hole_up using t'(3) by simp
  then show ?thesis using t'(1,2) by blast
qed

lemma red_red_fixup_spec:
  assumes "hole t c g x X" "ctx_ok c (bheight X)" "balanced X" "red_root X"
  shows "repaired t (inorder (plug c X)) (u_mulle__rbtree_red_red_fixup x t)"
  using assms
proof (induction "length c" arbitrary: t c g x X rule: less_induct)
  case less
  note h = less.prems(1) and bX = less.prems(2-4)
  show ?case
  proof (cases "red_above c")
    case False
    then show ?thesis using red_red_stop less.prems by blast
  next
    case True
    then obtain d p s c1 where c: "c = Step d p True s # c1" by (cases c rule: ctx_nodes.cases) auto
    then obtain e a u cs where c1: "c1 = Step e a False u # cs" using bX(1) by (cases c1 rule: ctx_nodes.cases) auto
    note c' = c[unfolded c1]
    have g: "g = p" and h1: "hole t c1 (parent_of t p) p (plug1 (Step d p True s) X)" using h unfolding c hole_up by blast+
    have pa: "parent_of t p = a" and h2: "hole t cs (parent_of t a) a (plug1 (Step e a False u) (plug1 (Step d p True s) X))"
      and pe: "child t e a = p" using h1 unfolding c1 hole_up by auto
    have px: "parent_of t x = p" using h bX(3) g by (cases X) (auto simp: hole_def)
    define y where "y = child t (other e) a"
    have ry: "rep t a y u" using h2 by (simp add: hole_def y_def)
    have nn: "p \<noteq> rt_nil t" "p \<notin> set (inorder u)" "red t p" using h2 by (auto simp: hole_def apart_def distinct_plug1)
    have yp: "y \<noteq> p" using rep_root[OF ry] nn by auto
    have yr: "red t y = red_root u" using rep_red[OF ry] h by (simp add: hole_def nil_ok_def)
    have xr: "x \<noteq> rt_root t" using hole_not_root[OF h] c by simp
    note step = red_red_fixup_step[OF xr px nn(3) pa pe y_def[symmetric] yp]
    have bh: "bheight s = bheight X" "bheight u = bheight X" "balanced s" "balanced u" "\<not> red_root s"
      "ctx_ok cs (Suc (bheight X))" using bX(1) c' by auto
    show ?thesis
    proof (cases "red_root u")
      case True
      let ?t1 = "u_mulle_rbnode_set_color p 0 t"
      let ?t2 = "u_mulle_rbnode_set_color a 1 ?t1"
      let ?t3 = "u_mulle_rbnode_set_color y 0 ?t2"
      let ?P = "plug1 (Step d p False s) X"
      have a: "a \<noteq> rt_nil t" "a \<noteq> p" using h2 by (auto simp: hole_def apart_def distinct_plug1)
      have "hole ?t1 c1 a p ?P" using hole_color[OF h1, of 0] pa by simp
      then have "hole ?t1 cs (parent_of t a) a (plug1 (Step e a False u) ?P)"
        unfolding c1 hole_up set_color_simps by blast
      from hole_color[OF this, of 1] have h3: "hole ?t2 cs (parent_of t a) a (plug1 (Step (other e) a True ?P) u)"
        using a by (simp add: plug1_other)
      then have "hole ?t2 (Step (other e) a True ?P # cs) a y u" unfolding hole_up by (simp add: y_def)
      from hole_color[OF this, of 0] have "hole ?t3 (Step (other e) a True ?P # cs) a y (paint False u)" by simp
      then have h4: "hole ?t3 cs (parent_of t a) a (plug1 (Step e a True (paint False u)) ?P)"
        unfolding hole_up plug1_other set_color_simps by blast
      have "repaired ?t3 (inorder (plug cs (plug1 (Step e a True (paint False u)) ?P))) (u_mulle__rbtree_red_red_fixup a ?t3)"
        by (rule less.hyps[OF _ h4])
           (use c' bh bX True in \<open>simp_all add: bheight_paint_black balanced_paint_black split: side.split\<close>)
      moreover have "inorder (plug cs (plug1 (Step e a True (paint False u)) ?P)) = inorder (plug c X)"
        unfolding c' by (cases d; cases e; simp add: inorder_plug)
      moreover have "stable t ?t3" by (simp add: stable_def)
      ultimately show ?thesis using repaired_trans step yr True by simp
    next
      case black: False
      have xd: "x = child t d p" using h unfolding c hole_up by blast
      show ?thesis
      proof (cases "d = e")
        case True
        have "rep t p (child t (other e) p) s" using h1 True by (simp add: hole_def)
        moreover have "x \<noteq> rt_nil t" "x \<notin> set (inorder s)" using h bX(3) c by (cases X; auto simp: hole_def apart_def)+
        ultimately have "x \<noteq> child t (other e) p" using rep_root by blast
        then show ?thesis using red_red_end[of t e p s a u cs x X] h g less.prems c' True black step yr by (simp add: Let_def)
      next
        case False
        then have d: "d = other e" using side_cases by blast
        obtain D B where X: "X = plug1 (Step e x True D) B"
        proof -
          obtain l r where "X = Node l x True r" using h bX(3) by (cases X) (auto simp: hole_def)
          then have "X = plug1 (Step InLeft x True r) l" "X = plug1 (Step InRight x True l) r" by simp_all
          then show ?thesis using that by (cases e) auto
        qed
        obtain t' where t': "rotate_node e p t = Some t'" "stable t t'"
          "hole t' (Step e x True D # c1) x p (plug1 (Step e p True B) s)"
          using red_red_turn[of t e p s c1 x D B a u cs] h c c1 d X g by blast
        have "repaired t' (inorder (plug (Step e x True D # c1) (plug1 (Step e p True B) s))) (do {
           let t = u_mulle_rbnode_set_color (parent_of t' p) 0 t';
           let t = u_mulle_rbnode_set_color (parent_of t (parent_of t p)) 1 t;
           let x = u_mulle_rbnode_get_grandparent t p;
           t \<leftarrow> rotate_node (other e) x t;
           u_mulle__rbtree_red_red_fixup x t })"
          unfolding c1 by (rule red_red_end) (use t'(3) c1 bX bh X black in \<open>simp_all split: side.split_asm\<close>)
        moreover have "inorder (plug (Step e x True D # c1) (plug1 (Step e p True B) s)) = inorder (plug c X)"
          unfolding c X d by (cases e) (simp_all add: inorder_plug)
        ultimately have "repaired t (inorder (plug c X)) (do {
           let t = u_mulle_rbnode_set_color (parent_of t' p) 0 t';
           let t = u_mulle_rbnode_set_color (parent_of t (parent_of t p)) 1 t;
           let x = u_mulle_rbnode_get_grandparent t p;
           t \<leftarrow> rotate_node (other e) x t;
           u_mulle__rbtree_red_red_fixup x t })" using repaired_trans[OF t'(2)] by simp
        then show ?thesis using step black yr t'(1) xd d by (simp add: Let_def)
      qed
    qed
  qed
qed

section \<open>Attaching a node\<close>

lemma red_links [simp]:
  "red (set_left n p t) m = red t m" "red (set_right n p t) m = red t m" "red (set_parent n p t) m = red t m"
  by (simp_all add: red_bit)

lemma child_set_parent [simp]: "child (set_parent a g t) d n = child t d n"
  by (simp add: child_def split: side.split)

definition set_child :: "side \<Rightarrow> pointer \<Rightarrow> pointer \<Rightarrow> mulle__rbtree \<Rightarrow> mulle__rbtree" where
  "set_child d n p t = (case d of InLeft \<Rightarrow> set_left n p t | InRight \<Rightarrow> set_right n p t)"

lemma set_child_props [simp]:
  "rt_root (set_child d n p t) = rt_root t" "rt_nil (set_child d n p t) = rt_nil t"
  "rt_options (set_child d n p t) = rt_options t" "rt_freed (set_child d n p t) = rt_freed t"
  "parent_of (set_child d n p t) m = parent_of t m" "payload_of (set_child d n p t) m = payload_of t m"
  "red (set_child d n p t) m = red t m"
  "child (set_child d n p t) e m = (if m = n \<and> e = d then p else child t e m)"
  by (cases d; cases e; simp add: set_child_def)+

text \<open>A node that is not in the tree: red and without children.\<close>

definition fresh_node :: "mulle__rbtree \<Rightarrow> pointer \<Rightarrow> pointer list \<Rightarrow> bool" where
  "fresh_node t a ns \<longleftrightarrow> a \<noteq> rt_nil t \<and> a \<notin> set ns \<and> left_of t a = rt_nil t \<and> right_of t a = rt_nil t \<and> red t a"

lemma hole_attach:
  assumes h: "hole t (Step d g e s # cs) g (rt_nil t) Leaf" and f: "fresh_node t a (inorder (plug (Step d g e s # cs) Leaf))"
  shows "hole (set_child d g a (set_parent a g t)) (Step d g e s # cs) g a (Node Leaf a True Leaf)"
proof -
  let ?t = "set_child d g a (set_parent a g t)"
  have a: "a \<noteq> rt_nil t" "a \<noteq> g" "a \<notin> set (inorder s)" "a \<notin> ctx_nodes cs" "child t InLeft a = rt_nil t"
    "child t InRight a = rt_nil t" "red t a"
    using f by (auto simp: fresh_node_def inorder_plug ctx_nodes_set split: side.split_asm; cases d; auto)+
  have r: "rep_ctx t cs g (parent_of t g)" "rep t g (child t (other d) g) s" "g \<noteq> rt_nil t" "red t g = e"
    using h by (auto simp: hole_def)
  have ap: "apart (Step d g e s # cs) Leaf" "nil_ok t" using h by (auto simp: hole_def)
  then have ap': "g \<notin> set (inorder s)" "g \<notin> ctx_nodes cs" by (cases d; auto simp: apart_def ctx_nodes_set)+
  have agr: "agree t ?t n" if "n \<noteq> a" "n \<noteq> g" for n
    using that by (cases d) (simp_all add: agree_def set_child_def)
  have agrc: "agree t ?t n" if "n \<in> set (inorder s) \<union> ctx_nodes cs" for n
  proof (rule agr)
    show "n \<noteq> a" "n \<noteq> g" using that a(3,4) ap' by auto
  qed
  have "rep_ctx ?t cs g (parent_of t g)" by (rule rep_ctx_frame[OF r(1)]) (use agrc in auto)
  moreover have "rep ?t g (child t (other d) g) s" by (rule rep_frame[OF r(2)]) (use agrc in auto)
  moreover have "rep ?t g a (Node Leaf a True Leaf)" using a by (cases d) (simp_all add: set_child_def)
  moreover have "apart (Step d g e s # cs) (Node Leaf a True Leaf)" using ap(1) a by (auto simp: apart_def)
  moreover have "nil_ok ?t" using ap(2) a r(3) by (auto simp: nil_ok_def)
  ultimately show ?thesis using r a by (simp add: hole_def)
qed

lemma rises_node:
  assumes "rep_tree t T" "n \<in> set (inorder T)"
  shows "rises t n"
proof -
  obtain c l k r where T: "T = plug c (Node l n k r)" using rbt_focus[OF assms(2)] by blast
  obtain g p where h: "hole t c g p (Node l n k r)" using rep_tree_hole assms(1) unfolding T by blast
  then have "rises t (parent_of t n)" using rises_ctx[of t c p g] by (auto simp: hole_def)
  then show ?thesis by (rule rises.up)
qed

lemma rep_tree_view: "rt_view t' = rt_view t \<Longrightarrow> rep_tree t' T = rep_tree t T"
  using rt_viewD[of t' t] rep_view(1)[of t' t] unfolding rep_tree_def child_def by (simp split: side.split)

lemma rb_tree_view: "rt_view t' = rt_view t \<Longrightarrow> rb_tree t' ns = rb_tree t ns"
  using rep_tree_view[of t' t] unfolding rb_tree_def by blast

text \<open>The last step of an operation marks the nodes above a node.\<close>

lemma repaired_dirty:
  assumes "repaired t ns r" "n \<in> set ns"
  shows "repaired t ns (do { t \<leftarrow> r; if b t then u_mulle__rbtree_mark_node_as_dirty n t else Some t })"
proof -
  obtain t' T where r: "r = Some t'" "rep_tree t' T" "rbt_ok T" "inorder T = ns" "stable t t'"
    using assms(1) by (auto simp: repaired_def)
  have "rises t' n" using rises_node r(2,4) assms(2) by blast
  then obtain u where u: "u_mulle__rbtree_mark_node_as_dirty n t' = Some u" "rt_view u = rt_view t'"
    using mark_dirty by blast
  have "stable t u" using stable_trans[OF r(5) stable_view[OF u(2)]] .
  then show ?thesis using r u rep_tree_view[OF u(2)] assms(1) by (auto simp: repaired_def)
qed

lemma u_mulle__rbtree_attach_node_spec:
  assumes h: "hole t c g (rt_nil t) Leaf" and ok: "rbt_ok (plug c Leaf)"
    and f: "fresh_node t a (inorder (plug c Leaf))"
    and d: "c \<noteq> [] \<Longrightarrow> \<exists>e s cs. c = Step (if dir < 0 then InLeft else InRight) g e s # cs"
  shows "repaired t (before c @ a # behind c) (u_mulle__rbtree_attach_node t a g dir)"
proof (cases c)
  case Nil
  have n: "g = rt_nil t" "nil_ok t" using h Nil by (auto simp: hole_def)
  let ?t = "(set_parent a g t)\<lparr>rt_root := a\<rparr>"
  have "rep_tree (u_mulle_rbnode_set_color a 0 ?t) (Node Leaf a False Leaf)"
    using f n by (auto simp: rep_tree_def fresh_node_def nil_ok_def child_def split: side.splits)
  moreover have "stable t (u_mulle_rbnode_set_color a 0 ?t)" using f by (auto simp: stable_def fresh_node_def child_def split: side.split)
  ultimately have "repaired t [a] (Some (u_mulle_rbnode_set_color a 0 ?t))" by (force simp: repaired_def rbt_ok_def)
  from repaired_dirty[OF this, of a "\<lambda>t. rt_options t AND mulle_rbtree_option_use_dirty \<noteq> 0"] show ?thesis using Nil n
    by (simp add: u_mulle__rbtree_attach_node_def Let_def)
next
  case (Cons st0 cs0)
  then obtain e s cs where c: "c = Step (if dir < 0 then InLeft else InRight) g e s # cs" using d by blast
  let ?d = "if dir < 0 then InLeft else InRight"
  define u where "u = set_child ?d g a (set_parent a g t)"
  have hu: "hole u c g a (Node Leaf a True Leaf)" using hole_attach h f unfolding u_def c by blast
  have ne: "a \<noteq> g" "g \<noteq> rt_nil t" "a \<noteq> rt_nil t" using f h unfolding c by (auto simp: fresh_node_def inorder_plug hole_def)
  have st: "stable t u" using ne by (simp add: stable_def u_def)
  have b: "ctx_ok c (bheight (Node Leaf a True Leaf))" using plug_ok_ctx[of c Leaf] ok by (simp add: rbt_ok_def)
  have ns: "inorder (plug c (Node Leaf a True Leaf)) = before c @ a # behind c" by (simp add: inorder_plug)
  have "repaired u (before c @ a # behind c) (if red u g then u_mulle__rbtree_red_red_fixup a u else Some u)"
  proof (cases "red u g")
    case True
    then show ?thesis using red_red_fixup_spec[OF hu b] ns by simp
  next
    case False
    then have "\<not> red_above c" using hu c by (simp add: hole_def)
    then have "rbt_ok (plug c (Node Leaf a True Leaf))" using plug_ok[OF b] c by simp
    then show ?thesis using False hole_rep_tree[OF hu] ns by (auto simp: repaired_def)
  qed
  then have "repaired t (before c @ a # behind c) (if red u g then u_mulle__rbtree_red_red_fixup a u else Some u)"
    using st repaired_trans by blast
  from repaired_dirty[OF this, of a "\<lambda>t. rt_options t AND mulle_rbtree_option_use_dirty \<noteq> 0"] show ?thesis
    using ne by (simp add: u_mulle__rbtree_attach_node_def Let_def u_def set_child_def split: if_split_asm)
qed

section \<open>Inserting in order\<close>

text \<open>
  What the comparison with a key says about the nodes of a tree: first those that are smaller than the key,
  then the equal ones, then the greater ones. The argument of a descent is this rank of every node.
\<close>

definition located :: "(pointer \<Rightarrow> int) \<Rightarrow> pointer list \<Rightarrow> bool" where
  "located K ns \<longleftrightarrow> sorted_wrt (\<lambda>m n. sgn (K n) \<le> sgn (K m)) ns"

definition rb_sorted :: "mulle__rbtree \<Rightarrow> (pointer \<Rightarrow> pointer \<Rightarrow> int) \<Rightarrow> pointer list \<Rightarrow> bool" where
  "rb_sorted t cmp ns \<longleftrightarrow> sorted_wrt (\<lambda>m n. cmp (u_mulle__rbtree_get_node_value t m) (u_mulle__rbtree_get_node_value t n) \<le> 0) ns"

abbreviation key_rank :: "mulle__rbtree \<Rightarrow> (pointer \<Rightarrow> pointer \<Rightarrow> int) \<Rightarrow> pointer \<Rightarrow> pointer \<Rightarrow> int" where
  "key_rank t cmp key n \<equiv> cmp key (u_mulle__rbtree_get_node_value t n)"

lemma sorted_located:
  assumes "rb_sorted t cmp ns" "compare_ok cmp"
  shows "located (key_rank t cmp key) ns"
  unfolding located_def
proof (rule sorted_wrt_mono_rel[OF _ assms(1)[unfolded rb_sorted_def]])
  fix m n
  let ?m = "u_mulle__rbtree_get_node_value t m" and ?n = "u_mulle__rbtree_get_node_value t n"
  assume le: "cmp ?m ?n \<le> 0"
  have "cmp key ?m \<le> 0 \<longrightarrow> cmp key ?n \<le> 0" using compare_okD(1)[OF assms(2)] le by blast
  moreover have "0 \<le> cmp key ?n \<longrightarrow> 0 \<le> cmp key ?m"
    using compare_okD(1)[OF assms(2) le] compare_okD(2)[OF assms(2)] assms(2)[unfolded compare_ok_def] by blast
  ultimately show "sgn (key_rank t cmp key n) \<le> sgn (key_rank t cmp key m)"
    by (auto simp: sgn_if)
qed

lemma located_append [simp]:
  "located K (ms @ ns) \<longleftrightarrow> located K ms \<and> located K ns \<and> (\<forall>m\<in>set ms. \<forall>n\<in>set ns. sgn (K n) \<le> sgn (K m))"
  by (auto simp: located_def sorted_wrt_append)

lemma located_Cons [simp]: "located K (m # ns) \<longleftrightarrow> (\<forall>n\<in>set ns. sgn (K n) \<le> sgn (K m)) \<and> located K ns"
  by (simp add: located_def)

lemma hole_children:
  assumes "hole t c g p (Node l a k r)"
  shows "p = a" "a \<noteq> rt_nil t" "hole t (Step InLeft a k r # c) a (left_of t a) l"
    "hole t (Step InRight a k l # c) a (right_of t a) r"
  using assms unfolding hole_up by (auto simp: hole_def)

lemma hole_Leaf: "hole t c g p T \<Longrightarrow> p = rt_nil t \<longleftrightarrow> T = Leaf"
  using rep_Leaf[of t g p T] by (simp add: hole_def)

text \<open>The descent ends at a free place between the nodes not greater and the nodes greater than the key.\<close>

lemma insert_loop_spec:
  assumes "hole t c g p T" "T \<noteq> Leaf" "located (key_rank t cmp key) (inorder T)"
  shows "(if rt_options t AND mulle_rbtree_option_allow_duplicates = 0 \<and> (\<exists>n\<in>set (inorder T). key_rank t cmp key n = 0)
     then rbtree_insert_loop t cmp key p = Some (Inl EEXIST)
     else \<exists>x dir c' c''. rbtree_insert_loop t cmp key p = Some (Inr (x, dir)) \<and> hole t c' x (rt_nil t) Leaf \<and>
       c' = c'' @ c \<and> plug c'' Leaf = T \<and> (\<exists>e s cs. c' = Step (if dir < 0 then InLeft else InRight) x e s # cs) \<and>
       (\<forall>n\<in>set (before c''). 0 \<le> key_rank t cmp key n) \<and> (\<forall>n\<in>set (behind c''). key_rank t cmp key n < 0))"
  using assms
proof (induction T arbitrary: c g p)
  case (Node l a k r)
  note ch = hole_children[OF Node.prems(1)]
  let ?K = "key_rank t cmp key"
  let ?dup = "rt_options t AND mulle_rbtree_option_allow_duplicates = 0"
  have unf: "rbtree_insert_loop t cmp key p = (if ?K a = 0 \<and> ?dup then Some (Inl EEXIST)
     else let y = if ?K a < 0 then left_of t a else right_of t a
          in if y \<noteq> rt_nil t then rbtree_insert_loop t cmp key y else Some (Inr (a, ?K a)))"
    unfolding ch(1) by (subst rbtree_insert_loop.simps) (simp only: Let_def)
  have loc: "located ?K (inorder l)" "located ?K (inorder r)"
    "\<And>n. n \<in> set (inorder l) \<Longrightarrow> sgn (?K a) \<le> sgn (?K n)" "\<And>n. n \<in> set (inorder r) \<Longrightarrow> sgn (?K n) \<le> sgn (?K a)"
    using Node.prems(3) by auto
  have s: "?K a < 0 \<Longrightarrow> n \<in> set (inorder r) \<Longrightarrow> ?K n < 0" "0 \<le> ?K a \<Longrightarrow> n \<in> set (inorder l) \<Longrightarrow> 0 \<le> ?K n"
    "0 < ?K a \<Longrightarrow> n \<in> set (inorder l) \<Longrightarrow> 0 < ?K n" for n
    using loc(3,4)[of n] by (auto simp: sgn_if split: if_splits)
  consider "?K a = 0" "?dup" | "?K a < 0" | "0 \<le> ?K a" "\<not> (?K a = 0 \<and> ?dup)" by linarith
  then show ?case
  proof cases
    case 1
    then show ?thesis unfolding unf by simp
  next
    case 2
    note h = ch(3)
    have eq: "rbtree_insert_loop t cmp key p =
       (if left_of t a \<noteq> rt_nil t then rbtree_insert_loop t cmp key (left_of t a) else Some (Inr (a, ?K a)))"
      unfolding unf using 2 by (simp add: Let_def)
    have e: "(\<exists>n\<in>set (inorder (Node l a k r)). ?K n = 0) \<longleftrightarrow> (\<exists>n\<in>set (inorder l). ?K n = 0)"
      using 2 s(1) by fastforce
    show ?thesis
    proof (cases "l = Leaf")
      case True
      have "hole t (Step InLeft a k r # c) a (rt_nil t) Leaf" using h hole_Leaf[OF h] True by simp
      then show ?thesis unfolding e eq using 2 s(1) True hole_Leaf[OF h] 
        by (simp, intro exI[of _ a] exI[of _ "?K a"] exI[of _ "Step InLeft a k r # c"] exI[of _ "[Step InLeft a k r]"]) auto
    next
      case False
      note IH = Node.IH(1)[OF h False loc(1)]
      show ?thesis
      proof (cases "?dup \<and> (\<exists>n\<in>set (inorder l). ?K n = 0)")
        case True
        then show ?thesis unfolding e eq using IH hole_Leaf[OF h] False by simp
      next
        case no: False
        then obtain x dir c' c'' where IH': "rbtree_insert_loop t cmp key (left_of t a) = Some (Inr (x, dir))"
          "hole t c' x (rt_nil t) Leaf" "c' = c'' @ Step InLeft a k r # c" "plug c'' Leaf = l"
          "\<exists>e s cs. c' = Step (if dir < 0 then InLeft else InRight) x e s # cs"
          "\<forall>n\<in>set (before c''). 0 \<le> ?K n" "\<forall>n\<in>set (behind c''). ?K n < 0" using IH[unfolded if_not_P[OF no]] by blast
        show ?thesis unfolding e if_not_P[OF no] eq using IH' hole_Leaf[OF h] False s(1) 2
          by (intro exI[of _ x] exI[of _ dir] exI[of _ c'] exI[of _ "c'' @ [Step InLeft a k r]"]) auto
      qed
    qed
  next
    case 3
    note h = ch(4)
    have eq: "rbtree_insert_loop t cmp key p =
       (if right_of t a \<noteq> rt_nil t then rbtree_insert_loop t cmp key (right_of t a) else Some (Inr (a, ?K a)))"
      unfolding unf if_not_P[OF 3(2)] Let_def using 3(1) by simp
    have e: "?dup \<and> (\<exists>n\<in>set (inorder (Node l a k r)). ?K n = 0) \<longleftrightarrow> ?dup \<and> (\<exists>n\<in>set (inorder r). ?K n = 0)"
      using 3 s(3) by fastforce
    show ?thesis
    proof (cases "r = Leaf")
      case True
      have "hole t (Step InRight a k l # c) a (rt_nil t) Leaf" using h hole_Leaf[OF h] True by simp
      then show ?thesis unfolding e eq using 3 s(2) True hole_Leaf[OF h] 
        by (simp, intro exI[of _ a] exI[of _ "?K a"] exI[of _ "Step InRight a k l # c"] exI[of _ "[Step InRight a k l]"]) auto
    next
      case False
      note IH = Node.IH(2)[OF h False loc(2)]
      show ?thesis
      proof (cases "?dup \<and> (\<exists>n\<in>set (inorder r). ?K n = 0)")
        case True
        then show ?thesis unfolding e eq using IH hole_Leaf[OF h] False by simp
      next
        case no: False
        then obtain x dir c' c'' where IH': "rbtree_insert_loop t cmp key (right_of t a) = Some (Inr (x, dir))"
          "hole t c' x (rt_nil t) Leaf" "c' = c'' @ Step InRight a k l # c" "plug c'' Leaf = r"
          "\<exists>e s cs. c' = Step (if dir < 0 then InLeft else InRight) x e s # cs"
          "\<forall>n\<in>set (before c''). 0 \<le> ?K n" "\<forall>n\<in>set (behind c''). ?K n < 0" using IH[unfolded if_not_P[OF no]] by blast
        show ?thesis unfolding e if_not_P[OF no] eq using IH' hole_Leaf[OF h] False s(2) 3
          by (intro exI[of _ x] exI[of _ dir] exI[of _ c'] exI[of _ "c'' @ [Step InRight a k l]"]) auto
      qed
    qed
  qed
qed simp
lemma rep_tree_empty: "rep_tree t T \<Longrightarrow> rt_root t = rt_nil t \<longleftrightarrow> T = Leaf"
  using rep_Leaf[of t "rt_nil t" "rt_root t" T] by (simp add: rep_tree_def)

text \<open>The place of a key in the order.\<close>

definition below :: "(pointer \<Rightarrow> int) \<Rightarrow> pointer list \<Rightarrow> pointer list" where
  "below K ns = filter (\<lambda>n. 0 \<le> K n) ns"

definition above :: "(pointer \<Rightarrow> int) \<Rightarrow> pointer list \<Rightarrow> pointer list" where
  "above K ns = filter (\<lambda>n. K n < 0) ns"

lemma below_above:
  assumes "\<forall>n\<in>set ms. 0 \<le> K n" "\<forall>n\<in>set ns. K n < 0"
  shows "below K (ms @ ns) = ms" "above K (ms @ ns) = ns"
  unfolding below_def above_def using assms
  by (simp_all add: filter_id_conv filter_empty_conv) (auto simp: linorder_not_le linorder_not_less)

lemma insert_node_spec:
  assumes r: "rep_tree t T" and ok: "rbt_ok T" and f: "fresh_node t a (inorder T)"
    and s: "located (key_rank t cmp (u_mulle__rbtree_get_node_value t a)) (inorder T)"
  shows "if rt_options t AND mulle_rbtree_option_allow_duplicates = 0 \<and>
       (\<exists>n\<in>set (inorder T). key_rank t cmp (u_mulle__rbtree_get_node_value t a) n = 0)
     then u_mulle__rbtree_insert_node t a cmp = Some (Inl EEXIST)
     else \<exists>res. u_mulle__rbtree_insert_node t a cmp = map_option Inr res \<and>
       repaired t (below (key_rank t cmp (u_mulle__rbtree_get_node_value t a)) (inorder T) @ a #
         above (key_rank t cmp (u_mulle__rbtree_get_node_value t a)) (inorder T)) res"
proof (cases "T = Leaf")
  case True
  then have e: "rt_root t = rt_nil t" and "rep_tree t (plug [] Leaf)" using rep_tree_empty r by auto
  then have h: "hole t [] (rt_nil t) (rt_nil t) Leaf" using rep_tree_hole[of t "[]" Leaf] by (auto simp: hole_def)
  have "repaired t [a] (u_mulle__rbtree_attach_node t a (rt_nil t) 0)"
    using u_mulle__rbtree_attach_node_spec[OF h, of a 0] ok f True by simp
  then show ?thesis using e True by (auto simp: u_mulle__rbtree_insert_node_def below_def above_def)
next
  case False
  let ?v = "u_mulle__rbtree_get_node_value t a"
  let ?K = "key_rank t cmp ?v"
  obtain g p where h: "hole t [] g p T" using rep_tree_hole[of t "[]" T] r by auto
  then have p: "rt_root t = p" "p \<noteq> rt_nil t" using hole_Leaf[OF h] False by (auto simp: hole_def)
  have unf: "u_mulle__rbtree_insert_node t a cmp = do { place \<leftarrow> rbtree_insert_loop t cmp ?v p;
      case place of Inl e \<Rightarrow> Some (Inl e) | Inr (x, c) \<Rightarrow> map_option Inr (u_mulle__rbtree_attach_node t a x c) }"
    using p by (simp add: u_mulle__rbtree_insert_node_def)
  note L = insert_loop_spec[OF h False, of cmp ?v, OF s]
  show ?thesis
  proof (cases "rt_options t AND mulle_rbtree_option_allow_duplicates = 0 \<and> (\<exists>n\<in>set (inorder T). ?K n = 0)")
    case True
    then show ?thesis using L unf by simp
  next
    case no: False
    then obtain x dir c where L': "rbtree_insert_loop t cmp ?v p = Some (Inr (x, dir))" "hole t c x (rt_nil t) Leaf"
      "plug c Leaf = T" "\<exists>e s cs. c = Step (if dir < 0 then InLeft else InRight) x e s # cs"
      "\<forall>n\<in>set (before c). 0 \<le> ?K n" "\<forall>n\<in>set (behind c). ?K n < 0"
      using L[unfolded if_not_P[OF no]] by auto
    have "repaired t (before c @ a # behind c) (u_mulle__rbtree_attach_node t a x dir)"
      by (rule u_mulle__rbtree_attach_node_spec[OF L'(2)]) (use L' ok f in simp_all)
    moreover have "inorder T = before c @ behind c" using L'(3) inorder_plug[of c Leaf] by simp
    ultimately show ?thesis using below_above[OF L'(5,6)] no unf L'(1) by auto
  qed
qed

end
