(* ===== verification/Rbtree_Walk.thy ===== *)
theory Rbtree_Walk
  imports Rbtree_Insert
begin

text \<open>
  Finding and walking in the red-black tree: the two searches find what a search in the list of the nodes
  in order would, the step to the next or the previous node is the step in that list, and a new node can
  be put before or behind a given one.
\<close>

section \<open>Steps\<close>

definition hd_or :: "pointer \<Rightarrow> pointer list \<Rightarrow> pointer" where
  "hd_or d xs = (case xs of [] \<Rightarrow> d | x # _ \<Rightarrow> x)"

definition last_or :: "pointer \<Rightarrow> pointer list \<Rightarrow> pointer" where
  "last_or d xs = hd_or d (rev xs)"

lemma hd_or_simps [simp]:
  "hd_or d [] = d" "hd_or d (x # xs) = x" "last_or d [] = d" "last_or d (xs @ [x]) = x" "last_or d [x] = x"
  "xs \<noteq> [] \<Longrightarrow> hd_or d (xs @ ys) = hd_or d xs" "ys \<noteq> [] \<Longrightarrow> last_or d (xs @ ys) = last_or d ys"
  "last_or d (xs @ y # ys) = last_or y ys"
  by (auto simp: hd_or_def last_or_def split: list.split)

lemma last_or_default: "xs \<noteq> [] \<Longrightarrow> last_or d xs = last_or e xs"
  by (cases xs rule: rev_cases) auto

lemma inorder_empty [simp]: "inorder T = [] \<longleftrightarrow> T = Leaf"
  by (cases T) auto

lemma rep_child: "rep t g p T \<Longrightarrow> p \<noteq> rt_nil t \<Longrightarrow> \<exists>l k r. T = Node l p k r \<and> rep t p (left_of t p) l \<and> rep t p (right_of t p) r"
  by (cases T) auto

lemma find_leftmost_node_spec:
  "rep t g p T \<Longrightarrow> T \<noteq> Leaf \<Longrightarrow> u_mulle__rbtree_find_leftmost_node t p = Some (hd_or (rt_nil t) (inorder T))"
proof (induction T arbitrary: g p)
  case (Node l a k r)
  then show ?case using rep_Leaf[of t a "left_of t a" l]
    by (subst u_mulle__rbtree_find_leftmost_node.simps) (cases "l = Leaf"; auto)
qed simp

lemma find_rightmost_node_spec:
  "rep t g p T \<Longrightarrow> T \<noteq> Leaf \<Longrightarrow> u_mulle__rbtree_find_rightmost_node t p = Some (last_or (rt_nil t) (inorder T))"
proof (induction T arbitrary: g p)
  case (Node l a k r)
  then show ?case using rep_Leaf[of t a "right_of t a" r] last_or_default[of "inorder r" a "rt_nil t"]
    by (subst u_mulle__rbtree_find_rightmost_node.simps) (cases "r = Leaf"; auto)
qed simp

lemma up_right_spec:
  assumes "hole t c g p T" "T \<noteq> Leaf"
  shows "rbtree_up_right t p = Some (hd_or (rt_nil t) (behind c))"
  using assms
proof (induction c arbitrary: g p T)
  case Nil
  then have "parent_of t p = rt_nil t" by (cases T) (auto simp: hole_def)
  then show ?case by (subst rbtree_up_right.simps) simp
next
  case (Cons st cs)
  obtain d a e s where st: "st = Step d a e s" by (cases st)
  have h: "g = a" "p = child t d a" "hole t cs (parent_of t a) a (plug1 (Step d a e s) T)"
    using Cons.prems(1) unfolding st hole_up by blast+
  have pa: "parent_of t p = a" "p \<noteq> rt_nil t" "p \<notin> set (inorder s)" "a \<noteq> rt_nil t"
    using Cons.prems h(1) unfolding st by (cases T; auto simp: hole_def apart_def)+
  have rs: "rep t a (child t (other d) a) s" using Cons.prems(1) unfolding st by (simp add: hole_def)
  show ?case
  proof (cases d)
    case InLeft
    have "p \<noteq> right_of t a" using rep_root[OF rs] pa InLeft by auto
    then show ?thesis using pa st InLeft by (subst rbtree_up_right.simps) simp
  next
    case InRight
    then have "rbtree_up_right t p = rbtree_up_right t a" using pa h(2) by (subst rbtree_up_right.simps) simp
    then show ?thesis using Cons.IH[OF h(3)] st InRight by simp
  qed
qed

lemma up_left_spec:
  assumes "hole t c g p T" "T \<noteq> Leaf"
  shows "rbtree_up_left t p = Some (last_or (rt_nil t) (before c))"
  using assms
proof (induction c arbitrary: g p T)
  case Nil
  then have "parent_of t p = rt_nil t" by (cases T) (auto simp: hole_def)
  then show ?case by (subst rbtree_up_left.simps) simp
next
  case (Cons st cs)
  obtain d a e s where st: "st = Step d a e s" by (cases st)
  have h: "g = a" "p = child t d a" "hole t cs (parent_of t a) a (plug1 (Step d a e s) T)"
    using Cons.prems(1) unfolding st hole_up by blast+
  have pa: "parent_of t p = a" "p \<noteq> rt_nil t" "p \<notin> set (inorder s)" "a \<noteq> rt_nil t"
    using Cons.prems h(1) unfolding st by (cases T; auto simp: hole_def apart_def)+
  have rs: "rep t a (child t (other d) a) s" using Cons.prems(1) unfolding st by (simp add: hole_def)
  show ?case
  proof (cases d)
    case InRight
    have "p \<noteq> left_of t a" using rep_root[OF rs] pa InRight by auto
    then show ?thesis using pa st InRight by (subst rbtree_up_left.simps) simp
  next
    case InLeft
    then have "rbtree_up_left t p = rbtree_up_left t a" using pa h(2) by (subst rbtree_up_left.simps) simp
    then show ?thesis using Cons.IH[OF h(3)] st InLeft by simp
  qed
qed

lemma next_node_hole:
  assumes "hole t c g p (Node l p k r)"
  shows "u_mulle__rbtree_next_node t p = Some (hd_or (rt_nil t) (inorder r @ behind c))"
proof -
  have "rep t p (right_of t p) r" using assms by (simp add: hole_def)
  then show ?thesis using rep_Leaf find_leftmost_node_spec up_right_spec[OF assms]
    by (cases "r = Leaf") (fastforce simp: u_mulle__rbtree_next_node_def)+
qed

lemma previous_node_hole:
  assumes "hole t c g p (Node l p k r)"
  shows "u_mulle__rbtree_previous_node t p = Some (last_or (rt_nil t) (before c @ inorder l))"
proof -
  have "rep t p (left_of t p) l" using assms by (simp add: hole_def)
  then show ?thesis using rep_Leaf find_rightmost_node_spec up_left_spec[OF assms]
    by (cases "l = Leaf") (fastforce simp: u_mulle__rbtree_previous_node_def)+
qed

text \<open>The focus on a node of the list.\<close>

lemma rep_tree_focus:
  assumes "rep_tree t T" "inorder T = xs @ a # ys"
  obtains c g l k r where "T = plug c (Node l a k r)" "hole t c g a (Node l a k r)"
    "xs = before c @ inorder l" "ys = inorder r @ behind c"
proof -
  have "a \<in> set (inorder T)" using assms(2) by simp
  then obtain c l k r where T: "T = plug c (Node l a k r)" using rbt_focus by blast
  then obtain g p where h: "hole t c g p (Node l a k r)" using rep_tree_hole assms(1) by blast
  have d: "distinct (xs @ a # ys)" using assms by (simp add: rep_tree_def)
  have e: "xs @ a # ys = (before c @ inorder l) @ a # (inorder r @ behind c)"
    using assms(2) unfolding T inorder_plug by simp
  from d have "a \<notin> set xs" "a \<notin> set ys" by simp_all
  from append_Cons_eq_iff[OF this] e have "xs = before c @ inorder l" "ys = inorder r @ behind c" by blast+
  then show ?thesis using that T h hole_children(1)[OF h] by blast
qed

theorem u_mulle__rbtree_next_node_spec:
  assumes "rb_tree t (xs @ a # ys)"
  shows "u_mulle__rbtree_next_node t a = Some (hd_or (rt_nil t) ys)"
    and "u_mulle__rbtree_previous_node t a = Some (last_or (rt_nil t) xs)"
proof -
  obtain T where T: "rep_tree t T" "inorder T = xs @ a # ys" using assms by (auto simp: rb_tree_def)
  from T(1,2) obtain c g l k r where f: "T = plug c (Node l a k r)" "hole t c g a (Node l a k r)"
    "xs = before c @ inorder l" "ys = inorder r @ behind c" by (rule rep_tree_focus)
  show "u_mulle__rbtree_next_node t a = Some (hd_or (rt_nil t) ys)"
    and "u_mulle__rbtree_previous_node t a = Some (last_or (rt_nil t) xs)"
    using next_node_hole[OF f(2)] previous_node_hole[OF f(2)] f(3,4) by simp_all
qed

section \<open>Searching\<close>

lemma find_loop_spec:
  assumes "hole t c g p T" "located (key_rank t cmp key) (inorder T)"
  shows "\<exists>q. rbtree_find_loop t cmp key p = Some q \<and>
    (if \<exists>n\<in>set (inorder T). key_rank t cmp key n = 0 then q \<in> set (inorder T) \<and> key_rank t cmp key q = 0 else q = rt_nil t)"
  using assms
proof (induction T arbitrary: c g p)
  case Leaf
  then show ?case by (subst rbtree_find_loop.simps) (simp add: hole_def)
next
  case (Node l a k r)
  let ?K = "key_rank t cmp key"
  note ch = hole_children[OF Node.prems(1)]
  have unf: "rbtree_find_loop t cmp key p = (if ?K a = 0 then Some a else if ?K a < 0 then
      rbtree_find_loop t cmp key (left_of t a) else rbtree_find_loop t cmp key (right_of t a))"
    using ch(1,2) by (subst rbtree_find_loop.simps) (simp add: Let_def)
  have loc: "located ?K (inorder l)" "located ?K (inorder r)"
    and s: "?K a < 0 \<Longrightarrow> n \<in> set (inorder r) \<Longrightarrow> ?K n < 0" "0 < ?K a \<Longrightarrow> n \<in> set (inorder l) \<Longrightarrow> 0 < ?K n" for n
    using Node.prems(2) by (auto simp: sgn_if split: if_splits)
  consider "?K a = 0" | "?K a < 0" | "0 < ?K a" by linarith
  then show ?case
  proof cases
    case 1
    then show ?thesis unfolding unf by auto
  next
    case 2
    then have "(\<exists>n\<in>set (inorder (Node l a k r)). ?K n = 0) \<longleftrightarrow> (\<exists>n\<in>set (inorder l). ?K n = 0)" using s(1) by fastforce
    then show ?thesis unfolding unf using Node.IH(1)[OF ch(3) loc(1)] 2 by (auto split: if_split_asm)
  next
    case 3
    then have "(\<exists>n\<in>set (inorder (Node l a k r)). ?K n = 0) \<longleftrightarrow> (\<exists>n\<in>set (inorder r). ?K n = 0)" using s(2) by fastforce
    then show ?thesis unfolding unf using Node.IH(2)[OF ch(4) loc(2)] 3 by (auto split: if_split_asm)
  qed
qed

text \<open>The greater nodes all lie in the part of the tree that the search has not left behind.\<close>

lemma find_greater_loop_spec:
  assumes "hole t c g p T" "T \<noteq> Leaf" "located (key_rank t cmp key) (inorder T)"
    "\<forall>n\<in>set (before c). 0 < key_rank t cmp key n" "\<forall>n\<in>set (behind c). key_rank t cmp key n < 0"
  shows "\<exists>q. rbtree_find_greater_loop t cmp key p = Some q \<and>
    (if \<exists>n\<in>set (inorder T). key_rank t cmp key n = 0 then q \<in> set (inorder T) \<and> key_rank t cmp key q = 0
     else q = hd_or (rt_nil t) (above (key_rank t cmp key) (inorder T @ behind c)))"
  using assms
proof (induction T arbitrary: c g p)
  case (Node l a k r)
  let ?K = "key_rank t cmp key"
  note ch = hole_children[OF Node.prems(1)]
  have unf: "rbtree_find_greater_loop t cmp key p = (if ?K a = 0 then Some a
     else if ?K a < 0 then if left_of t a = rt_nil t then Some a else rbtree_find_greater_loop t cmp key (left_of t a)
     else if right_of t a = rt_nil t then rbtree_up_right t a else rbtree_find_greater_loop t cmp key (right_of t a))"
    using ch(1,2) by (subst rbtree_find_greater_loop.simps) (simp add: Let_def)
  have loc: "located ?K (inorder l)" "located ?K (inorder r)"
    and s: "?K a < 0 \<Longrightarrow> n \<in> set (inorder r) \<Longrightarrow> ?K n < 0" "0 < ?K a \<Longrightarrow> n \<in> set (inorder l) \<Longrightarrow> 0 < ?K n" for n
    using Node.prems(3) by (auto simp: sgn_if split: if_splits)
  have ab: "above ?K (behind c) = behind c" using Node.prems(5) by (simp add: above_def filter_id_conv)
  consider "?K a = 0" | "?K a < 0" | "0 < ?K a" by linarith
  then show ?case
  proof cases
    case 1
    then show ?thesis unfolding unf by auto
  next
    case 2
    have e: "(\<exists>n\<in>set (inorder (Node l a k r)). ?K n = 0) \<longleftrightarrow> (\<exists>n\<in>set (inorder l). ?K n = 0)" using 2 s(1) by fastforce
    have r: "above ?K (inorder (Node l a k r) @ behind c) = above ?K (inorder l) @ a # inorder r @ behind c"
      using 2 s(1) ab by (auto simp: above_def filter_id_conv)
    show ?thesis
    proof (cases "l = Leaf")
      case True
      then show ?thesis unfolding unf e r using 2 hole_Leaf[OF ch(3)] by (auto simp: above_def)
    next
      case False
      have "\<exists>q. rbtree_find_greater_loop t cmp key (left_of t a) = Some q \<and>
        (if \<exists>n\<in>set (inorder l). ?K n = 0 then q \<in> set (inorder l) \<and> ?K q = 0
         else q = hd_or (rt_nil t) (above ?K (inorder l @ behind (Step InLeft a k r # c))))"
        by (rule Node.IH(1)[OF ch(3) False loc(1)]) (use Node.prems(4,5) 2 s(1) in auto)
      moreover have "above ?K (inorder l @ behind (Step InLeft a k r # c)) = above ?K (inorder l) @ a # inorder r @ behind c"
        using 2 s(1) ab by (auto simp: above_def filter_id_conv)
      ultimately show ?thesis unfolding unf e r using 2 hole_Leaf[OF ch(3)] False by (auto split: if_split_asm)
    qed
  next
    case 3
    have e: "(\<exists>n\<in>set (inorder (Node l a k r)). ?K n = 0) \<longleftrightarrow> (\<exists>n\<in>set (inorder r). ?K n = 0)" using 3 s(2) by fastforce
    have r: "above ?K (inorder (Node l a k r) @ behind c) = above ?K (inorder r) @ behind c"
      using 3 s(2) ab by (fastforce simp: above_def filter_empty_conv)
    show ?thesis
    proof (cases "r = Leaf")
      case True
      then show ?thesis unfolding unf e r
        using 3 hole_Leaf[OF ch(4)] up_right_spec[OF Node.prems(1)] ch(1) by (auto simp: above_def)
    next
      case False
      have "\<exists>q. rbtree_find_greater_loop t cmp key (right_of t a) = Some q \<and>
        (if \<exists>n\<in>set (inorder r). ?K n = 0 then q \<in> set (inorder r) \<and> ?K q = 0
         else q = hd_or (rt_nil t) (above ?K (inorder r @ behind (Step InRight a k l # c))))"
        by (rule Node.IH(2)[OF ch(4) False loc(2)]) (use Node.prems(4,5) 3 s(2) in auto)
      moreover have "above ?K (inorder r @ behind (Step InRight a k l # c)) = above ?K (inorder r) @ behind c"
        using ab by (simp add: above_def)
      ultimately show ?thesis unfolding unf e r using 3 hole_Leaf[OF ch(4)] False by (auto split: if_split_asm)
    qed
  qed
qed simp

lemma rb_treeE:
  assumes "rb_tree t ns"
  obtains T p where "inorder T = ns" "rbt_ok T" "rt_root t = p" "hole t [] (rt_nil t) p T"
proof -
  obtain T where T: "rep_tree t T" "rbt_ok T" "inorder T = ns" using assms by (auto simp: rb_tree_def)
  then obtain g p where "hole t [] g p T" using rep_tree_hole[of t "[]" T] by auto
  then have "rt_root t = p" "hole t [] (rt_nil t) p T" by (auto simp: hole_def)
  then show ?thesis using that T(2,3) by blast
qed

theorem u_mulle__rbtree_find_node_spec:
  assumes "rb_tree t ns" "rb_sorted t cmp ns" "compare_ok cmp"
  shows "\<exists>q. u_mulle__rbtree_find_node t key cmp = Some q \<and>
      (if \<exists>n\<in>set ns. key_rank t cmp key n = 0 then q \<in> set ns \<and> key_rank t cmp key q = 0 else q = rt_nil t)"
    and "\<exists>q. u_mulle__rbtree_find_node_equal_or_greater t key cmp = Some q \<and>
      (if \<exists>n\<in>set ns. key_rank t cmp key n = 0 then q \<in> set ns \<and> key_rank t cmp key q = 0
       else q = hd_or (rt_nil t) (filter (\<lambda>n. key_rank t cmp key n < 0) ns))"
proof -
  obtain T p where T: "inorder T = ns" "rt_root t = p" "hole t [] (rt_nil t) p T" using rb_treeE[OF assms(1)] by metis
  have l: "located (key_rank t cmp key) (inorder T)" using sorted_located assms(2,3) T(1) by blast
  show "\<exists>q. u_mulle__rbtree_find_node t key cmp = Some q \<and>
      (if \<exists>n\<in>set ns. key_rank t cmp key n = 0 then q \<in> set ns \<and> key_rank t cmp key q = 0 else q = rt_nil t)"
    using find_loop_spec[OF T(3), of cmp key, OF l] unfolding u_mulle__rbtree_find_node_def T(1,2) .
  show "\<exists>q. u_mulle__rbtree_find_node_equal_or_greater t key cmp = Some q \<and>
      (if \<exists>n\<in>set ns. key_rank t cmp key n = 0 then q \<in> set ns \<and> key_rank t cmp key q = 0
       else q = hd_or (rt_nil t) (filter (\<lambda>n. key_rank t cmp key n < 0) ns))"
  proof (cases "T = Leaf")
    case True
    then have "p = rt_nil t" using hole_Leaf[OF T(3)] by simp
    then have "rbtree_find_greater_loop t cmp key p = Some (rt_nil t)"
      by (subst rbtree_find_greater_loop.simps) simp
    then show ?thesis using True T(1,2) by (auto simp: u_mulle__rbtree_find_node_equal_or_greater_def)
  next
    case False
    then show ?thesis using find_greater_loop_spec[OF T(3) False, of cmp key, OF l]
      unfolding u_mulle__rbtree_find_node_equal_or_greater_def above_def T(1,2) behind.simps append_Nil2 before.simps
      by (simp del: if_split)
  qed
qed

section \<open>Walking\<close>

text \<open>The callback is called with one node after the other until it says stop.\<close>

fun walk_list :: "('s \<Rightarrow> pointer \<Rightarrow> bool \<times> 's) \<Rightarrow> 's \<Rightarrow> pointer list \<Rightarrow> 's" where
  "walk_list callback st [] = st"
| "walk_list callback st (n # ns) =
     (let (continue, st) = callback st n in if continue then walk_list callback st ns else st)"

lemma rb_tree_nodes: "rb_tree t ns \<Longrightarrow> distinct ns \<and> rt_nil t \<notin> set ns"
  using rep_nodes by (fastforce simp: rb_tree_def rep_tree_def)

lemma walk_loop_spec:
  assumes "rb_tree t (xs @ ys)"
  shows "rbtree_walk_loop t callback (hd_or (rt_nil t) ys) st = Some (walk_list callback st ys)"
  using assms
proof (induction ys arbitrary: xs st)
  case Nil
  then show ?case by (subst rbtree_walk_loop.simps) simp
next
  case (Cons a ys)
  have "a \<noteq> rt_nil t" using rb_tree_nodes[OF Cons.prems] by auto
  moreover have "u_mulle__rbtree_next_node t a = Some (hd_or (rt_nil t) ys)"
    using u_mulle__rbtree_next_node_spec(1) Cons.prems by blast
  moreover have "rbtree_walk_loop t callback (hd_or (rt_nil t) ys) st' = Some (walk_list callback st' ys)" for st'
    using Cons.IH[of "xs @ [a]"] Cons.prems by simp
  ultimately show ?case by (subst rbtree_walk_loop.simps) (auto split: prod.split)
qed

lemma walk_reverse_loop_spec:
  assumes "rb_tree t (xs @ ys)"
  shows "rbtree_walk_reverse_loop t callback (last_or (rt_nil t) xs) st = Some (walk_list callback st (rev xs))"
  using assms
proof (induction xs arbitrary: ys st rule: rev_induct)
  case Nil
  then show ?case by (subst rbtree_walk_reverse_loop.simps) simp
next
  case (snoc a xs)
  have "a \<noteq> rt_nil t" using rb_tree_nodes[OF snoc.prems] by auto
  moreover have "u_mulle__rbtree_previous_node t a = Some (last_or (rt_nil t) xs)"
    using u_mulle__rbtree_next_node_spec(2) snoc.prems by simp
  moreover have "rbtree_walk_reverse_loop t callback (last_or (rt_nil t) xs) st' = Some (walk_list callback st' (rev xs))" for st'
    using snoc.IH[of "a # ys"] snoc.prems by simp
  ultimately show ?case by (subst rbtree_walk_reverse_loop.simps) (auto split: prod.split)
qed

text \<open>The root of an empty tree is \<open>nil\<close>, which has no children.\<close>

lemma walk_ends:
  assumes "rb_tree t ns"
  shows "u_mulle__rbtree_find_leftmost_node t (rt_root t) = Some (hd_or (rt_nil t) ns)"
    and "u_mulle__rbtree_find_rightmost_node t (rt_root t) = Some (last_or (rt_nil t) ns)"
proof -
  obtain T p where T: "inorder T = ns" "rt_root t = p" "hole t [] (rt_nil t) p T" using rb_treeE[OF assms] by metis
  then have r: "rep t (rt_nil t) p T" "nil_ok t" by (auto simp: hole_def)
  then have "left_of t (rt_nil t) = rt_nil t" "right_of t (rt_nil t) = rt_nil t"
    by (metis child_simps nil_ok_def)+
  then have e: "u_mulle__rbtree_find_leftmost_node t (rt_nil t) = Some (rt_nil t)"
    "u_mulle__rbtree_find_rightmost_node t (rt_nil t) = Some (rt_nil t)"
    by (subst u_mulle__rbtree_find_leftmost_node.simps u_mulle__rbtree_find_rightmost_node.simps; simp)+
  show "u_mulle__rbtree_find_leftmost_node t (rt_root t) = Some (hd_or (rt_nil t) ns)"
    "u_mulle__rbtree_find_rightmost_node t (rt_root t) = Some (last_or (rt_nil t) ns)"
    using find_leftmost_node_spec[OF r(1)] find_rightmost_node_spec[OF r(1)] e T hole_Leaf[OF T(3)]
    by (cases "T = Leaf"; auto)+
qed

lemma walk_count_spec: "rep t g p T \<Longrightarrow> uu_mulle__rbtree_walk_count t p = Some (of_nat (length (inorder T)))"
proof (induction T arbitrary: g p)
  case Leaf
  then show ?case by (subst uu_mulle__rbtree_walk_count.simps) simp
next
  case (Node l a k r)
  have "uu_mulle__rbtree_walk_count t (left_of t a) = Some (of_nat (length (inorder l)))"
    "uu_mulle__rbtree_walk_count t (right_of t a) = Some (of_nat (length (inorder r)))"
    using Node by auto
  then show ?case using Node.prems by (subst uu_mulle__rbtree_walk_count.simps) (simp add: ac_simps)
qed

theorem u_mulle__rbtree_walk_spec:
  assumes "rb_tree t ns"
  shows "u_mulle__rbtree_walk t callback st = Some (walk_list callback st ns)"
    and "u_mulle__rbtree_walk_reverse t callback st = Some (walk_list callback st (rev ns))"
    and "u_mulle__rbtree_get_count t = Some (of_nat (length ns))"
proof -
  show "u_mulle__rbtree_walk t callback st = Some (walk_list callback st ns)"
    using walk_ends[OF assms] walk_loop_spec[of t "[]" ns] assms by (simp add: u_mulle__rbtree_walk_def)
  show "u_mulle__rbtree_walk_reverse t callback st = Some (walk_list callback st (rev ns))"
    using walk_ends[OF assms] walk_reverse_loop_spec[of t ns "[]"] assms by (simp add: u_mulle__rbtree_walk_reverse_def)
  show "u_mulle__rbtree_get_count t = Some (of_nat (length ns))"
    using rb_treeE[OF assms] walk_count_spec unfolding u_mulle__rbtree_get_count_def hole_def by metis
qed

section \<open>A node before or behind another\<close>

lemma right_end_spec:
  assumes "hole t c g p T" "T \<noteq> Leaf"
  shows "\<exists>x c'. rbtree_right_end t p = Some x \<and> hole t (c' @ c) x (rt_nil t) Leaf \<and> plug c' Leaf = T \<and> behind c' = [] \<and>
    (\<exists>e s cs. c' @ c = Step InRight x e s # cs)"
  using assms
proof (induction T arbitrary: c g p)
  case (Node l a k r)
  note ch = hole_children[OF Node.prems(1)]
  show ?case
  proof (cases "r = Leaf")
    case True
    then have "right_of t a = rt_nil t" "rbtree_right_end t p = Some a" using hole_Leaf[OF ch(4)] ch(1)
      by (simp, subst rbtree_right_end.simps, simp)
    then show ?thesis using ch(4) True by (intro exI[of _ a] exI[of _ "[Step InRight a k l]"]) simp
  next
    case False
    then obtain x c' where IH: "rbtree_right_end t (right_of t a) = Some x" "hole t (c' @ Step InRight a k l # c) x (rt_nil t) Leaf"
      "plug c' Leaf = r" "behind c' = []" "\<exists>e s cs. c' @ Step InRight a k l # c = Step InRight x e s # cs"
      using Node.IH(2)[OF ch(4)] by blast
    have "rbtree_right_end t p = Some x" using hole_Leaf[OF ch(4)] False IH(1) ch(1)
      by (subst rbtree_right_end.simps) simp
    then show ?thesis using IH by (intro exI[of _ x] exI[of _ "c' @ [Step InRight a k l]"]) simp
  qed
qed simp

lemma left_end_spec:
  assumes "hole t c g p T" "T \<noteq> Leaf"
  shows "\<exists>x c'. rbtree_left_end t p = Some x \<and> hole t (c' @ c) x (rt_nil t) Leaf \<and> plug c' Leaf = T \<and> before c' = [] \<and>
    (\<exists>e s cs. c' @ c = Step InLeft x e s # cs)"
  using assms
proof (induction T arbitrary: c g p)
  case (Node l a k r)
  note ch = hole_children[OF Node.prems(1)]
  show ?case
  proof (cases "l = Leaf")
    case True
    then have "left_of t a = rt_nil t" "rbtree_left_end t p = Some a" using hole_Leaf[OF ch(3)] ch(1)
      by (simp, subst rbtree_left_end.simps, simp)
    then show ?thesis using ch(3) True by (intro exI[of _ a] exI[of _ "[Step InLeft a k r]"]) simp
  next
    case False
    then obtain x c' where IH: "rbtree_left_end t (left_of t a) = Some x" "hole t (c' @ Step InLeft a k r # c) x (rt_nil t) Leaf"
      "plug c' Leaf = l" "before c' = []" "\<exists>e s cs. c' @ Step InLeft a k r # c = Step InLeft x e s # cs"
      using Node.IH(1)[OF ch(3)] by blast
    have "rbtree_left_end t p = Some x" using hole_Leaf[OF ch(3)] False IH(1) ch(1)
      by (subst rbtree_left_end.simps) simp
    then show ?thesis using IH by (intro exI[of _ x] exI[of _ "c' @ [Step InLeft a k r]"]) simp
  qed
qed simp

theorem u_mulle__rbtree_insert_node_before_node_spec:
  assumes "rb_tree t (xs @ b # ys)" "fresh_node t a (xs @ b # ys)"
  shows "repaired t (xs @ a # b # ys) (u_mulle__rbtree_insert_node_before_node t a b)"
    and "repaired t (xs @ b # a # ys) (u_mulle__rbtree_insert_node_after_node t a b)"
proof -
  obtain T where T: "rep_tree t T" "rbt_ok T" "inorder T = xs @ b # ys" using assms by (auto simp: rb_tree_def)
  from T(1,3) obtain c g l k r where f: "T = plug c (Node l b k r)" "hole t c g b (Node l b k r)"
    "xs = before c @ inorder l" "ys = inorder r @ behind c" by (rule rep_tree_focus)
  note ch = hole_children[OF f(2)]
  show "repaired t (xs @ a # b # ys) (u_mulle__rbtree_insert_node_before_node t a b)"
  proof (cases "l = Leaf")
    case True
    then have h: "hole t (Step InLeft b k r # c) b (rt_nil t) Leaf" and e: "left_of t b = rt_nil t" using ch(3) hole_Leaf[OF ch(3)] by auto
    have "repaired t (before (Step InLeft b k r # c) @ a # behind (Step InLeft b k r # c)) (u_mulle__rbtree_attach_node t a b (-1))"
      by (rule u_mulle__rbtree_attach_node_spec[OF h]) (use T f True assms(2) in auto)
    then show ?thesis using e f True by (simp add: u_mulle__rbtree_insert_node_before_node_def)
  next
    case False
    then obtain x c' where e: "rbtree_right_end t (left_of t b) = Some x"
      and h: "hole t (c' @ Step InLeft b k r # c) x (rt_nil t) Leaf" and p: "plug c' Leaf = l" "behind c' = []"
      and s: "\<exists>e s cs. c' @ Step InLeft b k r # c = Step InRight x e s # cs"
      using right_end_spec[OF ch(3)] by blast
    have "repaired t (before (c' @ Step InLeft b k r # c) @ a # behind (c' @ Step InLeft b k r # c)) (u_mulle__rbtree_attach_node t a x 1)"
      by (rule u_mulle__rbtree_attach_node_spec[OF h]) (use T f p s assms(2) in auto)
    moreover have "left_of t b \<noteq> rt_nil t" using hole_Leaf[OF ch(3)] False by simp
    moreover have "inorder l = before c'" using p inorder_plug[of c' Leaf] by simp
    ultimately show ?thesis using e f p by (simp add: u_mulle__rbtree_insert_node_before_node_def)
  qed
  show "repaired t (xs @ b # a # ys) (u_mulle__rbtree_insert_node_after_node t a b)"
  proof (cases "r = Leaf")
    case True
    then have h: "hole t (Step InRight b k l # c) b (rt_nil t) Leaf" and e: "right_of t b = rt_nil t" using ch(4) hole_Leaf[OF ch(4)] by auto
    have "repaired t (before (Step InRight b k l # c) @ a # behind (Step InRight b k l # c)) (u_mulle__rbtree_attach_node t a b 1)"
      by (rule u_mulle__rbtree_attach_node_spec[OF h]) (use T f True assms(2) in auto)
    then show ?thesis using e f True by (simp add: u_mulle__rbtree_insert_node_after_node_def)
  next
    case False
    then obtain x c' where e: "rbtree_left_end t (right_of t b) = Some x"
      and h: "hole t (c' @ Step InRight b k l # c) x (rt_nil t) Leaf" and p: "plug c' Leaf = r" "before c' = []"
      and s: "\<exists>e s cs. c' @ Step InRight b k l # c = Step InLeft x e s # cs"
      using left_end_spec[OF ch(4)] by blast
    have "repaired t (before (c' @ Step InRight b k l # c) @ a # behind (c' @ Step InRight b k l # c)) (u_mulle__rbtree_attach_node t a x (-1))"
      by (rule u_mulle__rbtree_attach_node_spec[OF h]) (use T f p s assms(2) in auto)
    moreover have "right_of t b \<noteq> rt_nil t" using hole_Leaf[OF ch(4)] False by simp
    moreover have "inorder r = behind c'" using p inorder_plug[of c' Leaf] by simp
    ultimately show ?thesis using e f p by (simp add: u_mulle__rbtree_insert_node_after_node_def)
  qed
qed

end
