(* ===== verification/Rbtree_Remove.thy ===== *)
theory Rbtree_Remove
  imports Rbtree_Walk
begin

text \<open>
  Removing from the red-black tree: the loop that restores the number of black nodes on the paths ends and
  repairs the tree, and the removal takes exactly the node out and frees it once.
\<close>

section \<open>The black-black repair\<close>

text \<open>The parts of one round, for a node \<open>x\<close> on the side \<open>d\<close> of its parent; \<open>w\<close> is the sibling.\<close>

definition bb_sibling :: "side \<Rightarrow> pointer \<Rightarrow> mulle__rbtree \<Rightarrow> (pointer \<times> mulle__rbtree) option" where
  "bb_sibling d x t =
     (let w = child t (other d) (parent_of t x)
      in if red t w then do {
           let t = u_mulle_rbnode_set_color w 0 t;
           let t = u_mulle_rbnode_set_color (parent_of t x) 1 t;
           t \<leftarrow> rotate_node d (parent_of t x) t;
           Some (child t (other d) (parent_of t x), t) }
         else Some (w, t))"

definition bb_far :: "side \<Rightarrow> pointer \<Rightarrow> pointer \<Rightarrow> mulle__rbtree \<Rightarrow> (pointer \<times> mulle__rbtree) option" where
  "bb_far d x w t =
     (if \<not> red t (child t (other d) w) then do {
        let t = u_mulle_rbnode_set_color (child t d w) 0 t;
        let t = u_mulle_rbnode_set_color w 1 t;
        t \<leftarrow> rotate_node (other d) w t;
        Some (child t (other d) (parent_of t x), t) }
      else Some (w, t))"

definition bb_finish :: "side \<Rightarrow> pointer \<Rightarrow> pointer \<Rightarrow> mulle__rbtree \<Rightarrow> mulle__rbtree option" where
  "bb_finish d x w t =
     (let parent_color = u_mulle_rbnode_get_color t (parent_of t x);
          t = u_mulle_rbnode_set_color w parent_color t;
          t = u_mulle_rbnode_set_color (parent_of t x) 0 t;
          t = u_mulle_rbnode_set_color (child t (other d) w) 0 t
      in rotate_node d (parent_of t x) t)"

lemma black_black_stop:
  "x = rt_root t \<or> red t x \<Longrightarrow> u_mulle__rbtree_black_black_fixup x t =
     Some (u_mulle_rbnode_set_color (rt_root t) 0 (u_mulle_rbnode_set_color x 0 t))"
  by (subst u_mulle__rbtree_black_black_fixup.simps) (auto simp: is_black_iff)

lemma black_black_step:
  assumes "x \<noteq> rt_root t" "\<not> red t x" "parent_of t x = g" "child t d g = x" "child t (other d) g \<noteq> x"
  shows "u_mulle__rbtree_black_black_fixup x t = do {
    (w, t) \<leftarrow> bb_sibling d x t;
    if \<not> red t (child t d w) \<and> \<not> red t (child t (other d) w)
    then u_mulle__rbtree_black_black_fixup (parent_of t x) (u_mulle_rbnode_set_color w 1 t)
    else do {
      (w, t) \<leftarrow> bb_far d x w t;
      t \<leftarrow> bb_finish d x w t;
      u_mulle__rbtree_black_black_fixup (rt_root t) t } }"
proof (cases d)
  case InLeft
  have c: "x = left_of t (parent_of t x)" using assms InLeft by simp
  show ?thesis unfolding InLeft bb_sibling_def bb_far_def bb_finish_def rotate_node_def side.case child_simps other.simps Let_def
    by (subst u_mulle__rbtree_black_black_fixup.simps, simp only: if_P[OF c] assms(1,2) if_True simp_thms
        is_black_iff not_False_eq_True Let_def set_red_black set_color_simps)
       (simp add: Option.bind_assoc split: Option.bind_split prod.split)
next
  case InRight
  have c: "x \<noteq> left_of t (parent_of t x)" using assms InRight by auto
  show ?thesis unfolding InRight bb_sibling_def bb_far_def bb_finish_def rotate_node_def side.case child_simps other.simps Let_def
    by (subst u_mulle__rbtree_black_black_fixup.simps, simp only: if_not_P[OF c] assms(1,2) if_True simp_thms
        is_black_iff not_False_eq_True Let_def set_red_black set_color_simps)
       (simp add: Option.bind_assoc split: Option.bind_split prod.split)
qed

text \<open>
  The state of the loop: the paths through the hole have one black node too few. A sentinel in the hole has
  the parent as well.
\<close>

definition deficit :: "mulle__rbtree \<Rightarrow> side \<Rightarrow> pointer \<Rightarrow> bool \<Rightarrow> rbt \<Rightarrow> step list \<Rightarrow> pointer \<Rightarrow> rbt \<Rightarrow> bool" where
  "deficit t d g e s cs x X \<longleftrightarrow> hole t (Step d g e s # cs) g x X \<and> parent_of t x = g \<and>
     ctx_ok (Step d g e s # cs) (Suc (bheight X)) \<and> balanced X \<and> \<not> red_root X"

lemma balanced_nonleaf: "bheight s = Suc n \<Longrightarrow> \<exists>l a k r. s = Node l a k r"
  by (cases s) auto

lemma node_plug1: "\<exists>D B. Node l a k r = plug1 (Step d a k D) B"
proof -
  have "Node l a k r = plug1 (Step InLeft a k r) l" "Node l a k r = plug1 (Step InRight a k l) r" by simp_all
  then show ?thesis by (cases d) blast+
qed

text \<open>The sibling of the hole.\<close>

lemma hole_sibling:
  "hole t (Step d g e s # cs) g x X \<Longrightarrow> hole t (Step (other d) g e X # cs) g (child t (other d) g) s"
  unfolding hole_up plug1_other by simp

lemma deficit_sibling:
  assumes "deficit t d g e s cs x X"
  shows "\<exists>w k D B. s = plug1 (Step d w k D) B \<and> child t (other d) g = w \<and> w \<noteq> rt_nil t \<and> w \<noteq> x \<and>
    hole t (Step (other d) g e X # cs) g w s"
proof -
  have h: "hole t (Step d g e s # cs) g x X" and b: "bheight s = Suc (bheight X)" using assms by (auto simp: deficit_def)
  obtain l a k r where s: "s = Node l a k r" using balanced_nonleaf[OF b] by blast
  have hs: "hole t (Step (other d) g e X # cs) g (child t (other d) g) s" using hole_sibling[OF h] .
  then have c: "child t (other d) g = a" "a \<noteq> rt_nil t" using s by (auto simp: hole_def)
  have "a \<notin> set (inorder X)" using h s by (auto simp: hole_def apart_def)
  then have "a \<noteq> x" using h c rep_root[of t g x X] by (auto simp: hole_def)
  then show ?thesis using s c hs node_plug1[of l a k r d] by metis
qed

lemma stable_parent:
  assumes "stable t t'" "rep t' g x X" "parent_of t x = g"
  shows "parent_of t' x = g"
  using assms by (cases X) (auto simp: stable_def)

lemma bb_sibling_spec:
  assumes "deficit t d g e s cs x X"
  shows "\<exists>w t' e' s' cs'. bb_sibling d x t = Some (w, t') \<and> stable t t' \<and> deficit t' d g e' s' cs' x X \<and> \<not> red_root s' \<and>
    w = child t' (other d) g \<and> (e' \<or> cs' = cs) \<and>
    inorder (plug (Step d g e' s' # cs') X) = inorder (plug (Step d g e s # cs) X)"
proof -
  obtain w k D B where s: "s = plug1 (Step d w k D) B" and w: "child t (other d) g = w" "w \<noteq> rt_nil t" "w \<noteq> x"
    and hw: "hole t (Step (other d) g e X # cs) g w s" using deficit_sibling[OF assms] by blast
  have x: "parent_of t x = g" and c: "ctx_ok (Step d g e s # cs) (Suc (bheight X))" "balanced X" "\<not> red_root X"
    using assms by (auto simp: deficit_def)
  show ?thesis
  proof (cases k)
    case False
    then have "bb_sibling d x t = Some (w, t)" using hole_red[OF hw] s w x by (simp add: bb_sibling_def)
    then show ?thesis using assms w s False
      by (intro exI[of _ w] exI[of _ t] exI[of _ e] exI[of _ s] exI[of _ cs]) simp
  next
    case k: True
    let ?t1 = "u_mulle_rbnode_set_color w 0 t"
    let ?t2 = "u_mulle_rbnode_set_color g 1 ?t1"
    have e: "\<not> e" using c(1) s k by simp
    have "hole ?t1 (Step (other d) g e X # cs) g w (plug1 (Step d w False D) B)" using hole_color[OF hw, of 0] s by simp
    then have "hole ?t1 cs (parent_of t g) g (plug1 (Step d g e (plug1 (Step d w False D) B)) X)"
      unfolding hole_up plug1_other set_color_simps by blast
    moreover have g: "g \<noteq> rt_nil t" using hw by (simp add: hole_def)
    ultimately have "hole ?t2 cs (parent_of t g) g (plug1 (Step d g True (plug1 (Step d w False D) B)) X)"
      using hole_color[of ?t1 cs "parent_of t g" g _ 1] by fastforce
    from hole_rotate[OF this] obtain t' where t': "rotate_node d g ?t2 = Some t'" "stable ?t2 t'"
      "hole t' cs (parent_of t g) w (plug1 (Step d w False D) (plug1 (Step d g True B) X))" by blast
    have st: "stable t t'" using t'(2) by (simp add: stable_def)
    have ch: "child t' d w = g" "parent_of t' w = parent_of t g" "parent_of t' g = w" "rep t' g (child t' d g) X"
      using t'(3) by (auto simp: hole_def)
    then have h2: "hole t' (Step d g True B # Step d w False D # cs) g (child t' d g) X"
      unfolding hole_up using t'(3) by simp
    have "x = child t' d g"
    proof (cases X)
      case Leaf
      then show ?thesis using ch(4) assms st by (simp add: deficit_def hole_def stable_def)
    next
      case (Node l a m r)
      then show ?thesis using ch(4) assms by (simp add: deficit_def hole_def)
    qed
    moreover have "parent_of t' x = g" using stable_parent[OF st _ x] ch(4) calculation by simp
    ultimately have "deficit t' d g True B (Step d w False D # cs) x X"
      using h2 c e s k unfolding deficit_def by (cases d) auto
    moreover have "bb_sibling d x t = Some (child t' (other d) g, t')"
      using hole_red[OF hw] s k w x t'(1) \<open>parent_of t' x = g\<close> by (simp add: bb_sibling_def Let_def)
    moreover have "inorder (plug (Step d g True B # Step d w False D # cs) X) = inorder (plug (Step d g e s # cs) X)"
      unfolding s by (cases d) (simp_all add: inorder_plug)
    moreover have "\<not> red_root B" using c(1) s k by simp
    ultimately show ?thesis using st by blast
  qed
qed
lemma bb_far_spec:
  assumes def: "deficit t d g e s cs x X" and s: "s = plug1 (Step d w False D) B" "child t (other d) g = w"
    and r: "red_root D \<or> red_root B"
  shows "\<exists>w' D' B' t'. bb_far d x w t = Some (w', t') \<and> stable t t' \<and> red_root D' \<and> child t' (other d) g = w' \<and>
    deficit t' d g e (plug1 (Step d w' False D') B') cs x X \<and>
    inorder (plug (Step d g e (plug1 (Step d w' False D') B') # cs) X) = inorder (plug (Step d g e s # cs) X)"
proof -
  have x: "parent_of t x = g" and c: "ctx_ok (Step d g e s # cs) (Suc (bheight X))" "balanced X" "\<not> red_root X"
    and h: "hole t (Step d g e s # cs) g x X" using def by (auto simp: deficit_def)
  have hw: "hole t (Step (other d) g e X # cs) g w s" using hole_sibling[OF h] s(2) by simp
  have hD: "hole t (Step (other d) w False B # Step (other d) g e X # cs) w (child t (other d) w) D"
    unfolding hole_up[of t "other d" w] plug1_other using hw s(1) by (auto simp: hole_def)
  show ?thesis
  proof (cases "red_root D")
    case True
    then have "bb_far d x w t = Some (w, t)" using hole_red[OF hD] by (simp add: bb_far_def)
    then show ?thesis using assms True by (intro exI[of _ w] exI[of _ D] exI[of _ B] exI[of _ t]) simp
  next
    case False
    then have rB: "red_root B" using r by blast
    define z where "z = child t d w"
    have hB: "hole t (Step d w False D # Step (other d) g e X # cs) w z B"
      unfolding hole_up[of t d w] z_def using hw s(1) by (auto simp: hole_def)
    obtain P Q where B: "B = plug1 (Step (other d) z True P) Q"
    proof -
      obtain l a r where "B = Node l a True r" using rB by (cases B) auto
      moreover from this have "a = z" using hB by (simp add: hole_def)
      ultimately show ?thesis using that node_plug1[of l a True r "other d"] by blast
    qed
    have zn: "z \<noteq> rt_nil t" "w \<noteq> rt_nil t" using hB B by (auto simp: hole_def)
    let ?t1 = "u_mulle_rbnode_set_color z 0 t"
    let ?t2 = "u_mulle_rbnode_set_color w 1 ?t1"
    have "hole ?t1 (Step d w False D # Step (other d) g e X # cs) w z (plug1 (Step (other d) z False P) Q)"
      using hole_color[OF hB, of 0] B by simp
    then have "hole ?t1 (Step (other d) g e X # cs) (parent_of t w) w (plug1 (Step d w False D) (plug1 (Step (other d) z False P) Q))"
      unfolding hole_up[of _ d w] set_color_simps by blast
    moreover have "parent_of t w = g" using hw s(1) by (simp add: hole_def)
    ultimately have "hole ?t2 (Step (other d) g e X # cs) g w (plug1 (Step (other d) w True (plug1 (Step (other d) z False P) Q)) D)"
      using hole_color[of ?t1 _ g w _ 1] zn by (fastforce simp: plug1_other)
    from hole_rotate[OF this] obtain t' where t': "rotate_node (other d) w ?t2 = Some t'" "stable ?t2 t'"
      "hole t' (Step (other d) g e X # cs) g z (plug1 (Step (other d) z False P) (plug1 (Step (other d) w True Q) D))" by blast
    have st: "stable t t'" using t'(2) by (simp add: stable_def)
    let ?s = "plug1 (Step d z False (plug1 (Step (other d) w True Q) D)) P"
    have hX: "hole t' (Step d g e ?s # cs) g (child t' d g) X" and ch: "child t' (other d) g = z"
      using t'(3) unfolding hole_up plug1_other by auto
    have "x = child t' d g"
      using hX h st by (cases X) (auto simp: hole_def stable_def)
    moreover have "parent_of t' x = g" using stable_parent[of t t' g x X] st x hX calculation by (auto simp: hole_def)
    ultimately have "deficit t' d g e ?s cs x X"
      using hX c s False rB B unfolding deficit_def by (cases d) auto
    moreover have "bb_far d x w t = Some (z, t')"
      using hole_red[OF hD] False t'(1) ch \<open>parent_of t' x = g\<close> by (simp add: bb_far_def z_def)
    moreover have "inorder (plug (Step d g e ?s # cs) X) = inorder (plug (Step d g e s # cs) X)"
      unfolding s B by (cases d) (simp_all add: inorder_plug)
    ultimately show ?thesis using st ch
      by (intro exI[of _ z] exI[of _ "plug1 (Step (other d) w True Q) D"] exI[of _ P] exI[of _ t']) simp
  qed
qed

lemma bb_finish_spec:
  assumes def: "deficit t d g e (plug1 (Step d w False D) B) cs x X" and w: "child t (other d) g = w" and r: "red_root D"
  shows "repaired t (inorder (plug (Step d g e (plug1 (Step d w False D) B) # cs) X)) (bb_finish d x w t)"
proof -
  let ?s = "plug1 (Step d w False D) B"
  have x: "parent_of t x = g" and c: "ctx_ok (Step d g e ?s # cs) (Suc (bheight X))" "balanced X" "\<not> red_root X"
    and h: "hole t (Step d g e ?s # cs) g x X" using def by (auto simp: deficit_def)
  have hw: "hole t (Step (other d) g e X # cs) g w ?s" using hole_sibling[OF h] w by simp
  define v where "v = child t (other d) w"
  let ?k = "u_mulle_rbnode_get_color t g"
  let ?t1 = "u_mulle_rbnode_set_color w ?k t"
  let ?t2 = "u_mulle_rbnode_set_color g 0 ?t1"
  let ?t3 = "u_mulle_rbnode_set_color v 0 ?t2"
  have ne: "w \<noteq> rt_nil t" "g \<noteq> rt_nil t" "red t g = e" using hw by (auto simp: hole_def)
  have "hole ?t1 (Step (other d) g e X # cs) g w (plug1 (Step d w e D) B)" using hole_color[OF hw, of ?k] ne by simp
  then have "hole ?t1 cs (parent_of t g) g (plug1 (Step (other d) g e X) (plug1 (Step d w e D) B))"
    unfolding hole_up set_color_simps by blast
  from hole_color[OF this, of 0] have "hole ?t2 cs (parent_of t g) g (plug1 (Step (other d) g False X) (plug1 (Step (other d) w e B) D))"
    by (simp add: plug1_other)
  then have "hole ?t2 (Step (other d) w e B # Step (other d) g False X # cs) w v D"
    unfolding hole_up v_def using h by (auto simp: hole_def) 
  from hole_color[OF this, of 0] have "hole ?t3 (Step (other d) w e B # Step (other d) g False X # cs) w v (paint False D)" by simp
  then have "hole ?t3 cs (parent_of t g) g (plug1 (Step d g False (plug1 (Step d w e (paint False D)) B)) X)"
    unfolding hole_up set_color_simps plug1_other by blast
  from hole_rotate[OF this] obtain t' where t': "rotate_node d g ?t3 = Some t'" "stable ?t3 t'"
    "hole t' cs (parent_of t g) w (plug1 (Step d w e (paint False D)) (plug1 (Step d g False B) X))" by blast
  let ?T = "plug1 (Step d w e (paint False D)) (plug1 (Step d g False B) X)"
  have "rbt_ok (plug cs ?T)"
    by (rule plug_ok) (use c r in \<open>cases d; auto simp: bheight_paint_black balanced_paint_black\<close>)+
  moreover have "inorder (plug cs ?T) = inorder (plug (Step d g e ?s # cs) X)" by (cases d) (simp_all add: inorder_plug)
  moreover have "bb_finish d x w t = Some t'" using t'(1) by (simp add: bb_finish_def Let_def x v_def)
  moreover have "stable t t'" using t'(2) by (simp add: stable_def)
  ultimately show ?thesis using hole_rep_tree[OF t'(3)] unfolding repaired_def by blast
qed

lemma black_black_stop_spec:
  assumes h: "hole t c g x X" and c: "ctx_ok c (Suc (bheight X))" "balanced (paint False X)" "c = [] \<or> red_root X"
  shows "repaired t (inorder (plug c X)) (u_mulle__rbtree_black_black_fixup x t)"
proof -
  have "x = rt_root t \<or> red t x" using c(3) hole_root_iff[OF h] hole_red[OF h] by blast
  note e = black_black_stop[OF this]
  let ?t1 = "u_mulle_rbnode_set_color x 0 t"
  have "hole ?t1 c g x (paint False X)" using hole_color[OF h, of 0] by simp
  from rep_tree_black_root[OF hole_rep_tree[OF this]]
  have "rep_tree (u_mulle_rbnode_set_color (rt_root t) 0 ?t1) (paint False (plug c (paint False X)))" by simp
  moreover have "rbt_ok (plug c (paint False X))"
    using c by (intro plug_ok) (auto simp: bheight_paint_black)
  then have "rbt_ok (paint False (plug c (paint False X)))" by (simp add: rbt_ok_def paint_same)
  moreover have "stable t (u_mulle_rbnode_set_color (rt_root t) 0 ?t1)" by (simp add: stable_def)
  moreover have "inorder (paint False (plug c (paint False X))) = inorder (plug c X)" by (simp add: inorder_plug)
  ultimately show ?thesis unfolding repaired_def e by blast
qed

lemma repaired_black_root:
  assumes "repaired t ns (Some u)"
  shows "repaired t ns (u_mulle__rbtree_black_black_fixup (rt_root u) u)"
proof -
  obtain T where T: "rep_tree u T" "rbt_ok T" "inorder T = ns" "stable t u" using assms by (auto simp: repaired_def)
  then obtain g p where h: "hole u [] g p T" using rep_tree_hole[of u "[]" T] by auto
  then have "rt_root u = p" by (simp add: hole_def)
  moreover have "balanced (paint False T)" using T(2) by (simp add: rbt_ok_def balanced_paint_black)
  ultimately show ?thesis using black_black_stop_spec[OF h] T(3,4) repaired_trans by simp
qed

lemma black_black_fixup_spec:
  assumes "hole t c g x X" "parent_of t x = g" "ctx_ok c (Suc (bheight X))" "balanced (paint False X)"
  shows "repaired t (inorder (plug c X)) (u_mulle__rbtree_black_black_fixup x t)"
  using assms
proof (induction "length c" arbitrary: t c g x X rule: less_induct)
  case less
  note h = less.prems(1) and x = less.prems(2)
  show ?case
  proof (cases "c = [] \<or> red_root X")
    case True
    then show ?thesis using black_black_stop_spec less.prems by blast
  next
    case False
    then obtain d e s cs where c: "c = Step d g e s # cs"
      using h unfolding hole_def by (cases c rule: ctx_nodes.cases) auto
    have "deficit t d g e s cs x X" using less.prems False unfolding deficit_def c by (simp add: paint_same)
    note def = this and sib = deficit_sibling[OF this]
    have "child t d g = x" "child t (other d) g \<noteq> x" using h sib unfolding c hole_def by auto
    moreover have "x \<noteq> rt_root t" "\<not> red t x" using hole_root_iff[OF h] hole_red[OF h] False by auto
    ultimately have step: "u_mulle__rbtree_black_black_fixup x t = do {
        (w, t) \<leftarrow> bb_sibling d x t;
        if \<not> red t (child t d w) \<and> \<not> red t (child t (other d) w)
        then u_mulle__rbtree_black_black_fixup (parent_of t x) (u_mulle_rbnode_set_color w 1 t)
        else do {
          (w, t) \<leftarrow> bb_far d x w t;
          t \<leftarrow> bb_finish d x w t;
          u_mulle__rbtree_black_black_fixup (rt_root t) t } }" using black_black_step x by blast
    obtain w t1 e1 s1 cs1 where 1: "bb_sibling d x t = Some (w, t1)" "stable t t1" "deficit t1 d g e1 s1 cs1 x X"
      "\<not> red_root s1" "w = child t1 (other d) g" "e1 \<or> cs1 = cs"
      "inorder (plug (Step d g e1 s1 # cs1) X) = inorder (plug c X)" using bb_sibling_spec[OF def] c by blast
    obtain k D B where s1: "s1 = plug1 (Step d w k D) B" "w \<noteq> rt_nil t1" and hw: "hole t1 (Step (other d) g e1 X # cs1) g w s1"
      using deficit_sibling[OF 1(3)] 1(5) by blast
    have k: "\<not> k" using 1(4) s1 by simp
    have x1: "parent_of t1 x = g" using 1(3) by (simp add: deficit_def)
    have "rep t1 w (child t1 d w) B" "rep t1 w (child t1 (other d) w) D" "nil_ok t1" using hw s1 by (auto simp: hole_def)
    then have rd: "red t1 (child t1 d w) = red_root B" "red t1 (child t1 (other d) w) = red_root D"
      using rep_red by (auto simp: nil_ok_def)
    have b1: "ctx_ok (Step d g e1 s1 # cs1) (Suc (bheight X))" "balanced X" "\<not> red_root X" using 1(3) by (auto simp: deficit_def)
    show ?thesis
    proof (cases "\<not> red_root B \<and> \<not> red_root D")
      case True
      let ?t2 = "u_mulle_rbnode_set_color w 1 t1"
      let ?G = "plug1 (Step d g e1 (plug1 (Step d w True D) B)) X"
      have "hole ?t2 (Step (other d) g e1 X # cs1) g w (plug1 (Step d w True D) B)"
        using hole_color[OF hw, of 1] s1 by simp
      then have h2: "hole ?t2 cs1 (parent_of t1 g) g ?G" unfolding hole_up plug1_other set_color_simps by blast
      have bG: "ctx_ok cs1 (Suc (bheight ?G))" "balanced (paint False ?G)"
        using b1 s1 True k by (cases d; auto split: if_split_asm)+
      have "repaired ?t2 (inorder (plug cs1 ?G)) (u_mulle__rbtree_black_black_fixup g ?t2)"
      proof (cases e1)
        case True
        then show ?thesis using black_black_stop_spec[OF h2 bG] by simp
      next
        case False
        then have "length cs1 < length c" using 1(6) c by simp
        then show ?thesis using less.hyps[OF _ h2 _ bG] by simp
      qed
      moreover have "inorder (plug cs1 ?G) = inorder (plug (Step d g e1 s1 # cs1) X)"
        unfolding s1 by (cases d) (simp_all add: inorder_plug)
      moreover have "stable t ?t2" using 1(2) by (simp add: stable_def)
      ultimately have "repaired t (inorder (plug c X)) (u_mulle__rbtree_black_black_fixup g ?t2)"
        using repaired_trans 1(7) by simp
      then show ?thesis unfolding step 1(1) using rd True x1 by simp
    next
      case False
      then have rDB: "red_root D \<or> red_root B" by blast
      have s1': "s1 = plug1 (Step d w False D) B" using s1(1) k by simp
      obtain w' D' B' t2 where 2: "bb_far d x w t1 = Some (w', t2)" "stable t1 t2" "red_root D'"
        "child t2 (other d) g = w'" "deficit t2 d g e1 (plug1 (Step d w' False D') B') cs1 x X"
        "inorder (plug (Step d g e1 (plug1 (Step d w' False D') B') # cs1) X) = inorder (plug (Step d g e1 s1 # cs1) X)"
        using bb_far_spec[OF 1(3) s1' 1(5)[symmetric] rDB] by blast
      from bb_finish_spec[OF 2(5,4,3)] 2(6) 1(7) have r: "repaired t2 (inorder (plug c X)) (bb_finish d x w' t2)" by simp
      then obtain t3 where t3: "bb_finish d x w' t2 = Some t3" by (auto simp: repaired_def)
      have "repaired t (inorder (plug c X)) (u_mulle__rbtree_black_black_fixup (rt_root t3) t3)"
        by (rule repaired_trans[OF stable_trans[OF 1(2) 2(2)]], rule repaired_black_root) (use r t3 in simp)
      then show ?thesis unfolding step 1(1) using rd False 2(1) t3 by auto
    qed
  qed
qed

section \<open>Cutting a node out\<close>

lemma marked_view: "rt_view (u_mulle__rbtree_set_node_marked n t) = rt_view t"
  by (simp add: rt_view_def fun_eq_iff)

lemma hole_view:
  assumes "rt_view t' = rt_view t"
  shows "hole t' c g p T = hole t c g p T"
  unfolding hole_def nil_ok_def rep_view[OF assms] rt_viewD[OF assms] ..

lemma all_side: "(\<forall>d. P d) \<longleftrightarrow> P InLeft \<and> P InRight"
  by (metis side.exhaust)

lemma nil_ok_iff: "nil_ok t \<longleftrightarrow> left_of t (rt_nil t) = rt_nil t \<and> right_of t (rt_nil t) = rt_nil t \<and> \<not> red t (rt_nil t)"
  by (simp add: nil_ok_def all_side)

lemma child_marked [simp]: "child (u_mulle__rbtree_set_node_marked n t) d m = child t d m"
  by (cases d) auto

lemma cut_out_simps:
  assumes "x \<noteq> y" "parent_of t y = g"
  shows "rt_root (rbtree_cut_out x y t) = (if g = rt_nil t then x else rt_root t)"
    "rt_nil (rbtree_cut_out x y t) = rt_nil t" "rt_options (rbtree_cut_out x y t) = rt_options t"
    "rt_freed (rbtree_cut_out x y t) = rt_freed t"
    "parent_of (rbtree_cut_out x y t) m = (if m = x then g else parent_of t m)"
    "left_of (rbtree_cut_out x y t) m = (if g \<noteq> rt_nil t \<and> m = g \<and> y = left_of t g then x else left_of t m)"
    "right_of (rbtree_cut_out x y t) m = (if g \<noteq> rt_nil t \<and> m = g \<and> y \<noteq> left_of t g then x else right_of t m)"
    "payload_of (rbtree_cut_out x y t) m = payload_of t m" "red (rbtree_cut_out x y t) m = red t m"
proof -
  have u: "rbtree_cut_out x y t = u_mulle__rbtree_set_node_marked g
    (let t = u_mulle__rbtree_set_node_marked g (set_parent x g t)
     in if g = rt_nil t then t\<lparr>rt_root := x\<rparr> else if y = left_of t g then set_left g x t else set_right g x t)"
    using assms by (auto simp: rbtree_cut_out_def Let_def)
  show "rt_root (rbtree_cut_out x y t) = (if g = rt_nil t then x else rt_root t)"
    "rt_nil (rbtree_cut_out x y t) = rt_nil t" "rt_options (rbtree_cut_out x y t) = rt_options t"
    "rt_freed (rbtree_cut_out x y t) = rt_freed t"
    "parent_of (rbtree_cut_out x y t) m = (if m = x then g else parent_of t m)"
    "left_of (rbtree_cut_out x y t) m = (if g \<noteq> rt_nil t \<and> m = g \<and> y = left_of t g then x else left_of t m)"
    "right_of (rbtree_cut_out x y t) m = (if g \<noteq> rt_nil t \<and> m = g \<and> y \<noteq> left_of t g then x else right_of t m)"
    "payload_of (rbtree_cut_out x y t) m = payload_of t m" "red (rbtree_cut_out x y t) m = red t m"
    unfolding u by (simp_all add: Let_def)
qed

lemma cut_out_hole:
  assumes h: "hole t c g y (Node l y k r)" and X: "l = Leaf \<and> X = r \<and> x = right_of t y \<or> r = Leaf \<and> X = l \<and> x = left_of t y"
  shows "hole (rbtree_cut_out x y t) c g x X" and "x \<noteq> y" and "parent_of t y = g"
proof -
  let ?t = "rbtree_cut_out x y t"
  have ctx: "rep_ctx t c y g" and rX: "rep t y x X" and ap: "apart c (Node l y k r)" and n: "nil_ok t" "y \<noteq> rt_nil t"
    using h X by (auto simp: hole_def)
  show pg: "parent_of t y = g" using h by (simp add: hole_def)
  have dis: "y \<notin> ctx_nodes c" "y \<notin> set (inorder X)" "distinct (inorder X)" "ctx_nodes c \<inter> set (inorder X) = {}"
    "distinct (before c @ behind c)" using ap X by (auto simp: apart_def)
  show xy: "x \<noteq> y" using rep_root[OF rX] n dis by auto
  note f = cut_out_simps[OF xy pg]
  have g: "g = rt_nil t \<or> g \<in> ctx_nodes c" using ctx by (rule rep_ctx_parent)
  have nil: "rt_nil t \<notin> ctx_nodes c" "rt_nil t \<notin> set (inorder X)" using rep_ctx_nodes[OF ctx] rep_nodes[OF rX] by auto
  have xc: "x \<notin> ctx_nodes c" using rep_root[OF rX] nil dis by auto
  have "rep_ctx ?t c x g"
  proof (rule rep_ctx_relink[OF ctx n(2) dis(1) dis(5)])
    show "child ?t e m = (if m = g \<and> child t e m = y then x else child t e m)" if "m \<in> ctx_nodes c" for m e
    proof (cases "m = g")
      case True
      then have gc: "(left_of t g = y) \<noteq> (right_of t g = y)" "g \<noteq> rt_nil t"
        using rep_ctx_child[OF ctx n(2) dis(1)] that nil(1) by (cases "c = []", simp, simp, auto)
      then show ?thesis using True f by (cases e) auto
    next
      case False
      then show ?thesis using f by (cases e) auto
    qed
    show "parent_of ?t m = parent_of t m \<and> red ?t m = red t m" if "m \<in> ctx_nodes c" for m using that f xc by auto
  qed (use f rep_ctx_nil[OF ctx] in auto)
  moreover have "rep ?t g x X"
  proof (rule rep_reroot[OF rX _ dis(3)])
    show "agree t ?t m" if "m \<in> set (inorder X)" "m \<noteq> x" for m
    proof -
      have "m \<noteq> g" using that g nil dis by auto
      then show ?thesis using that f by (simp add: agree_def)
    qed
    show "left_of ?t x = left_of t x \<and> right_of ?t x = right_of t x \<and> red ?t x = red t x \<and> parent_of ?t x = g" if "x \<noteq> rt_nil t"
    proof -
      have "x \<noteq> g" using that rep_root[OF rX] g dis nil by auto
      then show ?thesis using f by simp
    qed
  qed (use f in simp)
  moreover have "apart c X" using ap X by (auto simp: apart_def)
  moreover have "nil_ok ?t" using n(1) f unfolding nil_ok_iff by auto
  ultimately show "hole ?t c g x X" by (simp add: hole_def)
qed

text \<open>A node takes the place of another: its parent, its color and its children.\<close>

lemma take_place_simps:
  assumes ne: "x \<noteq> y" "y \<noteq> a" "g \<noteq> y" "ol \<noteq> y" "ol \<noteq> rt_nil t" "g \<noteq> rt_nil t \<Longrightarrow> (left_of t g = a) \<noteq> (right_of t g = a)"
    and a: "parent_of t a = g" "left_of t a = ol" "right_of t a = q" "q \<noteq> y"
    and r: "y \<noteq> r \<Longrightarrow> r = q" "y = r \<Longrightarrow> right_of t y = q \<and> x = q"
    and u: "u = rbtree_take_place x y a ol r t"
  shows "rt_root u = (if g = rt_nil t then y else rt_root t)" "rt_nil u = rt_nil t" "rt_options u = rt_options t"
    "rt_freed u = rt_freed t" "parent_of u m = (if m = y then g else if m = ol \<or> m = q then y else parent_of t m)"
    "left_of u m = (if m = y then ol else if m = g \<and> g \<noteq> rt_nil t \<and> left_of t g = a then y else left_of t m)"
    "right_of u m = (if m = y then q else if m = g \<and> g \<noteq> rt_nil t \<and> right_of t g = a then y else right_of t m)"
    "payload_of u m = payload_of t m" "red u m = (if m = y then red t a else red t m)"
proof -
  define s1 where "s1 = set_left y ol (set_parent y g t)"
  define s2 where "s2 = (if y \<noteq> r then set_right y r s1 else u_mulle__rbtree_set_node_marked y (set_parent x y s1))"
  define s3 where "s3 = u_mulle_rbnode_set_color y (u_mulle_rbnode_get_color s2 a) s2"
  define s4 where "s4 = (if g \<noteq> rt_nil t then u_mulle__rbtree_set_node_marked g
    (if left_of t g = a then set_left g y s3 else set_right g y s3) else s3\<lparr>rt_root := y\<rparr>)"
  define s5 where "s5 = set_parent ol y (set_parent q y s4)"
  have 1: "rt_root s1 = rt_root t" "rt_nil s1 = rt_nil t" "rt_options s1 = rt_options t" "rt_freed s1 = rt_freed t"
    "parent_of s1 m = (if m = y then g else parent_of t m)" "left_of s1 m = (if m = y then ol else left_of t m)"
    "right_of s1 m = right_of t m" "payload_of s1 m = payload_of t m" "red s1 m = red t m" for m
    by (simp_all add: s1_def)
  define b where "b \<longleftrightarrow> y = r"
  have q: "right_of t y = q" "x = q" if b using r(2) that by (simp_all add: b_def)
  have s2: "s2 = u_mulle__rbtree_set_node_marked y (set_parent q y s1)" if b
    using that q(2)[OF that] by (simp add: s2_def b_def)
  have s2': "s2 = set_right y q s1" if "\<not> b" using that r(1) by (simp add: s2_def b_def)
  have 2: "rt_root s2 = rt_root t" "rt_nil s2 = rt_nil t" "rt_options s2 = rt_options t" "rt_freed s2 = rt_freed t"
    "parent_of s2 m = (if m = y then g else if b \<and> m = q then y else parent_of t m)"
    "left_of s2 m = (if m = y then ol else left_of t m)" "right_of s2 m = (if m = y then q else right_of t m)"
    "payload_of s2 m = payload_of t m" "red s2 m = red t m" for m
    using a(4) by (cases b; simp add: s2 s2' 1 q(1))+
  have 3: "rt_root s3 = rt_root t" "rt_nil s3 = rt_nil t" "rt_options s3 = rt_options t" "rt_freed s3 = rt_freed t"
    "parent_of s3 m = parent_of s2 m" "left_of s3 m = left_of s2 m" "right_of s3 m = right_of s2 m"
    "payload_of s3 m = payload_of t m" "red s3 m = (if m = y then red t a else red t m)" for m
    using ne(2) by (simp_all add: s3_def 2)
  have 4: "rt_root s4 = (if g = rt_nil t then y else rt_root t)" "rt_nil s4 = rt_nil t" "rt_options s4 = rt_options t"
    "rt_freed s4 = rt_freed t" "parent_of s4 m = parent_of s2 m"
    "left_of s4 m = (if m = y then ol else if m = g \<and> g \<noteq> rt_nil t \<and> left_of t g = a then y else left_of t m)"
    "right_of s4 m = (if m = y then q else if m = g \<and> g \<noteq> rt_nil t \<and> right_of t g = a then y else right_of t m)"
    "payload_of s4 m = payload_of t m" "red s4 m = (if m = y then red t a else red t m)" for m
    using ne(3,6) by (auto simp: s4_def 3 2(6,7))
  have 5: "u = u_mulle__rbtree_set_node_marked ol (u_mulle__rbtree_set_node_marked q s5)"
  proof -
    have p: "parent_of s3 y = g" "left_of s3 g = left_of t g" "parent_of s4 y = g" "right_of s4 y = q" "left_of s4 y = ol"
      using ne(3) by (simp_all add: 3 2 4)
    have "u = (let t = s4; t = set_parent (right_of t y) y t; t = set_parent (left_of t y) y t;
        t = u_mulle__rbtree_set_node_marked (right_of t y) t in u_mulle__rbtree_set_node_marked (left_of t y) t)"
    proof -
      have e1: "set_left y ol (set_parent y (parent_of t a) t) = s1" by (simp add: s1_def a)
      have e2: "(if y \<noteq> r then set_right y r s1 else let t = set_parent x y s1
          in u_mulle__rbtree_set_node_marked (parent_of t x) t) = s2" by (simp add: s2_def Let_def)
      have e3: "u_mulle__rbtree_set_node_color y (u_mulle_rbnode_get_color s2 a) s2 = s3" by (simp add: s3_def)
      have e4: "(if parent_of s3 y \<noteq> rt_nil s3 then let t = (if left_of s3 (parent_of s3 y) = a
           then set_left (parent_of s3 y) y s3 else set_right (parent_of s3 y) y s3)
          in u_mulle__rbtree_set_node_marked (parent_of t y) t else s3\<lparr>rt_root := y\<rparr>) = s4"
        using ne(3) by (simp add: s4_def Let_def p 3(2))
      show ?thesis unfolding u rbtree_take_place_def
        by (simp only: e1 Let_def[of "set_left y ol (set_parent y (parent_of t a) t)"]
            Let_def[of "set_parent y (parent_of t a) t"] Let_def[of s1] e2 Let_def[of s2] e3 Let_def[of s3] e4)
    qed
    also have "\<dots> = u_mulle__rbtree_set_node_marked ol (u_mulle__rbtree_set_node_marked q s5)"
      using ne(4) a(4) by (simp add: Let_def s5_def p)
    finally show ?thesis .
  qed
  show "rt_root u = (if g = rt_nil t then y else rt_root t)" "rt_nil u = rt_nil t" "rt_options u = rt_options t"
    "rt_freed u = rt_freed t" "parent_of u m = (if m = y then g else if m = ol \<or> m = q then y else parent_of t m)"
    "left_of u m = (if m = y then ol else if m = g \<and> g \<noteq> rt_nil t \<and> left_of t g = a then y else left_of t m)"
    "right_of u m = (if m = y then q else if m = g \<and> g \<noteq> rt_nil t \<and> right_of t g = a then y else right_of t m)"
    "payload_of u m = payload_of t m" "red u m = (if m = y then red t a else red t m)"
    using ne(4) a(4) by (simp_all add: 5 s5_def 4 2)
qed

lemma hole_plug:
  "hole t c g p (plug c' X) \<Longrightarrow> \<exists>g' p'. hole t (c' @ c) g' p' X"
proof (induction c' arbitrary: X)
  case (Cons st c')
  obtain d a e s where st: "st = Step d a e s" by (cases st)
  obtain g' p' where "hole t (c' @ c) g' p' (plug1 st X)" using Cons.IH[of "plug1 st X"] Cons.prems by auto
  then have "p' = a" "parent_of t a = g'" and h: "hole t (c' @ c) g' p' (plug1 st X)" unfolding st by (auto simp: hole_def)
  then have "hole t (st # c' @ c) a (child t d a) X" unfolding st hole_up by simp
  then show ?case by auto
qed auto

lemma hole_unplug: "hole t (c' @ c) g p X \<Longrightarrow> \<exists>g' p'. hole t c g' p' (plug c' X)"
proof (induction c' arbitrary: g p X)
  case (Cons st c')
  obtain d a e s where st: "st = Step d a e s" by (cases st)
  have "hole t (c' @ c) (parent_of t a) a (plug1 st X)" using Cons.prems unfolding st append_Cons hole_up by blast
  then show ?case using Cons.IH by simp
qed auto

lemma ctx_rename:
  "ctx_ok (c' @ Step d a k s # c) n = ctx_ok (c' @ Step d b k s # c) n"
  "red_above (c' @ Step d a k s # c) = red_above (c' @ Step d b k s # c)"
  by (induction c' arbitrary: n rule: ctx_nodes.induct) (auto simp: red_above_def split: list.split)

text \<open>A node \<open>y\<close> that is not in the tree replaces \<open>a\<close>.\<close>

lemma replace_hole:
  assumes h: "hole t c g a (Node l a k R)" and y: "y \<noteq> rt_nil t" "y \<notin> set (inorder (plug c (Node l a k R)))" and l: "l \<noteq> Leaf"
    and f: "rt_root u = (if g = rt_nil t then y else rt_root t)" "rt_nil u = rt_nil t"
    "\<And>m. parent_of u m = (if m = y then g else if m = left_of t a \<or> m = right_of t a then y else parent_of t m)"
    "\<And>m. left_of u m = (if m = y then left_of t a else if m = g \<and> g \<noteq> rt_nil t \<and> left_of t g = a then y else left_of t m)"
    "\<And>m. right_of u m = (if m = y then right_of t a else if m = g \<and> g \<noteq> rt_nil t \<and> right_of t g = a then y else right_of t m)"
    "\<And>m. red u m = (if m = y then red t a else red t m)"
  shows "hole u c g y (Node l y k R)"
proof -
  let ?l = "left_of t a" and ?q = "right_of t a"
  have ctx: "rep_ctx t c a g" and rl: "rep t a ?l l" and rR: "rep t a ?q R" and a: "a \<noteq> rt_nil t" "red t a = k" and n: "nil_ok t"
    using h by (auto simp: hole_def)
  have ap: "a \<notin> ctx_nodes c" "set (inorder l) \<inter> set (inorder R) = {}" "ctx_nodes c \<inter> (set (inorder l) \<union> set (inorder R)) = {}"
    "distinct (inorder l)" "distinct (inorder R)" "distinct (before c @ behind c)" "a \<notin> set (inorder l)" "a \<notin> set (inorder R)"
    using h by (auto simp: hole_def apart_def)
  have yn: "y \<notin> ctx_nodes c" "y \<notin> set (inorder l)" "y \<notin> set (inorder R)" "y \<noteq> a"
    using y(2) by (auto simp: inorder_plug ctx_nodes_set)
  have g: "g = rt_nil t \<or> g \<in> ctx_nodes c" using ctx by (rule rep_ctx_parent)
  have nil: "rt_nil t \<notin> ctx_nodes c" "rt_nil t \<notin> set (inorder l)" "rt_nil t \<notin> set (inorder R)"
    using rep_ctx_nodes[OF ctx] rep_nodes[OF rl] rep_nodes[OF rR] by auto
  have lq: "?l \<in> set (inorder l)" "?q = rt_nil t \<or> ?q \<in> set (inorder R)"
    using rep_root[OF rl] rep_Leaf[OF rl] l rep_root[OF rR] by auto
  have uc: "rep_ctx u c y g"
  proof (rule rep_ctx_relink[OF ctx a(1) ap(1) ap(6) f(2)])
    show "rt_root u = (if c = [] then y else rt_root t)" using f(1) rep_ctx_nil[OF ctx] by simp
    show "parent_of u m = parent_of t m \<and> red u m = red t m" if "m \<in> ctx_nodes c" for m
    proof -
      have "m \<noteq> y" "m \<noteq> ?l" "m \<noteq> ?q" using that yn ap lq nil by auto
      then show ?thesis using f(3,6) by simp
    qed
    show "child u e m = (if m = g \<and> child t e m = a then y else child t e m)" if "m \<in> ctx_nodes c" for m e
    proof -
      have "m \<noteq> y" "m \<noteq> rt_nil t" using that yn nil by auto
      then show ?thesis using f(4,5) by (cases e) auto
    qed
  qed
  have sub: "rep u y p T" if r: "rep t a p T" and T: "T = l \<or> T = R" and p: "p = ?l \<or> p = ?q"
    and o: "\<And>m. m \<in> set (inorder T) \<Longrightarrow> m \<noteq> p \<Longrightarrow> m \<noteq> ?l \<and> m \<noteq> ?q" for p T
  proof (rule rep_reroot[OF r f(2)])
    show "distinct (inorder T)" using T ap by auto
    have ne: "m \<noteq> y \<and> (m = g \<longrightarrow> g = rt_nil t)" if "m \<in> set (inorder T)" for m
      using that T yn ap g by auto
    show "agree t u m" if m: "m \<in> set (inorder T)" "m \<noteq> p" for m
      using ne[OF m(1)] o[OF m] f(3-6) by (auto simp: agree_def)
    show "left_of u p = left_of t p \<and> right_of u p = right_of t p \<and> red u p = red t p \<and> parent_of u p = y" if "p \<noteq> rt_nil t"
      using ne[of p] rep_root[OF r] p that f(3-6) by auto
  qed
  have "rep u y ?l l" by (rule sub[OF rl]) (use lq ap nil in auto)
  moreover have "rep u y ?q R" by (rule sub[OF rR]) (use lq ap nil in auto)
  moreover have "rep u g y (Node l y k R)"
    using calculation a y f yn by auto
  moreover note uc
  moreover have "apart c (Node l y k R)" using h yn by (auto simp: hole_def apart_def)
  moreover have "nil_ok u" using n f y(1) by (auto simp: nil_ok_iff)
  ultimately show ?thesis by (simp add: hole_def)
qed

section \<open>Removing a node\<close>

definition kept :: "mulle__rbtree \<Rightarrow> mulle__rbtree \<Rightarrow> bool" where
  "kept t u \<longleftrightarrow> rt_nil u = rt_nil t \<and> rt_options u = rt_options t \<and> rt_freed u = rt_freed t \<and>
     (\<forall>n. payload_of u n = payload_of t n)"

text \<open>The tree holds the nodes \<open>ns\<close>, the node \<open>a\<close> has been given back.\<close>

definition removed :: "mulle__rbtree \<Rightarrow> pointer \<Rightarrow> pointer list \<Rightarrow> mulle__rbtree option \<Rightarrow> bool" where
  "removed t a ns r \<longleftrightarrow> (\<exists>t'. r = Some t' \<and> rb_tree t' ns \<and> rt_nil t' = rt_nil t \<and> rt_options t' = rt_options t \<and>
     rt_freed t' = a # rt_freed t \<and> (\<forall>n. payload_of t' n = payload_of t n))"

lemma mark_dirty_if:
  "rises t n \<Longrightarrow> rt_view u = rt_view t \<Longrightarrow>
     \<exists>t'. (if b then u_mulle__rbtree_mark_node_as_dirty n u else Some u) = Some t' \<and> rt_view t' = rt_view t"
  using mark_dirty by (cases b) auto

lemma remove_dirty_view:
  assumes "rises t (parent_of t a)" "y \<noteq> a \<Longrightarrow> rises t y" "y \<noteq> a \<Longrightarrow> rises t yp" "rises t x"
  shows "\<exists>t'. rbtree_remove_dirty x y a yp t = Some t' \<and> rt_view t' = rt_view t"
proof (cases "rt_options t AND mulle_rbtree_option_use_dirty \<noteq> 0")
  case True
  obtain t1 where 1: "(if parent_of t a \<noteq> rt_nil t then u_mulle__rbtree_mark_node_as_dirty (parent_of t a) t else Some t) = Some t1"
    "rt_view t1 = rt_view t" using mark_dirty_if[OF assms(1) refl] by blast
  have "\<exists>t2. (if y \<noteq> a \<and> y \<noteq> rt_nil t then u_mulle__rbtree_mark_node_as_dirty y t1 else Some t1) = Some t2 \<and> rt_view t2 = rt_view t"
    using mark_dirty_if[OF assms(2) 1(2)] 1(2) by (cases "y = a") auto
  then obtain t2 where 2: "(if y \<noteq> a \<and> y \<noteq> rt_nil t then u_mulle__rbtree_mark_node_as_dirty y t1 else Some t1) = Some t2"
    "rt_view t2 = rt_view t" by blast
  have "\<exists>t3. (if y \<noteq> a \<and> x = rt_nil t \<and> yp \<noteq> rt_nil t then u_mulle__rbtree_mark_node_as_dirty yp t2 else Some t2) = Some t3 \<and>
      rt_view t3 = rt_view t"
    using mark_dirty_if[OF assms(3) 2(2)] 2(2) by (cases "y = a") auto
  then obtain t3 where 3: "(if y \<noteq> a \<and> x = rt_nil t \<and> yp \<noteq> rt_nil t then u_mulle__rbtree_mark_node_as_dirty yp t2 else Some t2) = Some t3"
    "rt_view t3 = rt_view t" by blast
  obtain t4 where 4: "(if x \<noteq> rt_nil t then u_mulle__rbtree_mark_node_as_dirty x t3 else Some t3) = Some t4"
    "rt_view t4 = rt_view t" using mark_dirty_if[OF assms(4) 3(2)] by blast
  have "rbtree_remove_dirty x y a yp t = Some t4"
    unfolding rbtree_remove_dirty_def using True 1 2 3 4 rt_viewD(2)[OF 1(2)] rt_viewD(2)[OF 2(2)] rt_viewD(2)[OF 3(2)]
    by (simp split del: if_split)
  then show ?thesis using 4(2) by blast
qed (simp add: rbtree_remove_dirty_def)

lemma free_simps [simp]:
  "rt_root (u_mulle__rbtree_free_node n t) = rt_root t" "rt_nil (u_mulle__rbtree_free_node n t) = rt_nil t"
  "rt_options (u_mulle__rbtree_free_node n t) = rt_options t" "rt_freed (u_mulle__rbtree_free_node n t) = n # rt_freed t"
  "rt_nodes (u_mulle__rbtree_free_node n t) = rt_nodes t" "red (u_mulle__rbtree_free_node n t) m = red t m"
  by (simp_all add: u_mulle__rbtree_free_node_def red_bit)

lemma hole_free: "hole t c g p T \<Longrightarrow> hole (u_mulle__rbtree_free_node n t) c g p T"
  unfolding hole_def nil_ok_iff
  using rep_frame[of t g p T "u_mulle__rbtree_free_node n t"] rep_ctx_frame[of t c p g "u_mulle__rbtree_free_node n t"]
  by (simp add: agree_def)

lemma remove_finish:
  assumes h: "hole u c g x X" "parent_of u x = g" and k: "kept t u"
    and r: "rises u (parent_of u a)" "y \<noteq> a \<Longrightarrow> rises u y" "y \<noteq> a \<Longrightarrow> rises u yp"
    and c: "fixup \<Longrightarrow> ctx_ok c (Suc (bheight X)) \<and> balanced X" "\<not> fixup \<Longrightarrow> rbt_ok (plug c X)"
  shows "removed t a (before c @ inorder X @ behind c) (do {
     t \<leftarrow> rbtree_remove_dirty x y a yp u;
     let t = u_mulle__rbtree_free_node a t;
     if fixup then u_mulle__rbtree_black_black_fixup x t else Some t })"
proof -
  have "rises u g" using h(1) rises_ctx by (auto simp: hole_def)
  then have "rises u x" using h(2) rises.up by metis
  then obtain v where v: "rbtree_remove_dirty x y a yp u = Some v" "rt_view v = rt_view u"
    using remove_dirty_view[OF r] by blast
  let ?w = "u_mulle__rbtree_free_node a v"
  have hw: "hole ?w c g x X" using hole_free hole_view[OF v(2)] h(1) by blast
  have pw: "parent_of ?w x = g" using h(2) rt_viewD(5)[OF v(2)] by simp
  have kw: "rt_nil ?w = rt_nil t" "rt_options ?w = rt_options t" "rt_freed ?w = a # rt_freed t" "payload_of ?w n = payload_of t n" for n
    using k rt_viewD[OF v(2)] by (simp_all add: kept_def)
  have ns: "inorder (plug c X) = before c @ inorder X @ behind c" by (rule inorder_plug)
  have "\<exists>t'. (if fixup then u_mulle__rbtree_black_black_fixup x ?w else Some ?w) = Some t' \<and>
    rb_tree t' (inorder (plug c X)) \<and> stable ?w t'"
  proof (cases fixup)
    case True
    then have "repaired ?w (inorder (plug c X)) (u_mulle__rbtree_black_black_fixup x ?w)"
      using black_black_fixup_spec[OF hw pw] c(1) balanced_paint_black by blast
    then show ?thesis using True by (simp add: repaired_iff)
  next
    case False
    then show ?thesis using hole_rep_tree[OF hw] c(2) by (auto simp: rb_tree_def)
  qed
  then show ?thesis using v(1) kw ns by (auto simp: removed_def stable_def Let_def)
qed
lemma set_plug: "set (inorder (plug c t)) = ctx_nodes c \<union> set (inorder t)"
  by (auto simp: inorder_plug ctx_nodes_set)

text \<open>The node itself is cut out when a child is missing.\<close>

lemma remove_single:
  assumes h: "hole t c g a (Node l a k r)" and ok: "rbt_ok (plug c (Node l a k r))" and s: "kept t0 t"
    and X: "l = Leaf \<and> X = r \<and> x = right_of t a \<or> r = Leaf \<and> X = l \<and> x = left_of t a" and fx: "fixup \<longleftrightarrow> \<not> k"
  shows "removed t0 a (before c @ inorder X @ behind c) (do {
     t \<leftarrow> rbtree_remove_dirty x a a (rt_nil t) (rbtree_cut_out x a t);
     let t = u_mulle__rbtree_free_node a t;
     if fixup then u_mulle__rbtree_black_black_fixup x t else Some t })"
proof -
  let ?u = "rbtree_cut_out x a t"
  note cut = cut_out_hole[OF h X]
  note f = cut_out_simps[OF cut(2,3)]
  have b: "ctx_ok c (bheight (Node l a k r))" "balanced (Node l a k r)" "k \<longrightarrow> c \<noteq> [] \<and> \<not> red_above c"
    using plug_ok_ctx[of c "Node l a k r"] ok by (auto simp: rbt_ok_def)
  have "rises ?u (parent_of ?u a)" using cut(1,2) f(5)[of a] cut(3) rises_ctx by (fastforce simp: hole_def)
  moreover have "kept t0 ?u" using s f by (simp add: kept_def)
  moreover have "rbt_ok (plug c X)" if k using plug_ok[of c X] b X that by auto
  moreover have "ctx_ok c (Suc (bheight X)) \<and> balanced X" if "\<not> k" using b X that by auto
  moreover have "parent_of ?u x = g" using f(5)[of x] by simp
  ultimately show ?thesis using remove_finish[OF cut(1), of t0 a a "rt_nil t" fixup] fx by simp
qed

text \<open>Otherwise its successor, the leftmost node of the right subtree, takes its place.\<close>

lemma leftmost_focus:
  "T \<noteq> Leaf \<Longrightarrow> \<exists>c y k r. T = plug c (Node Leaf y k r) \<and> before c = []"
proof (induction T)
  case (Node l a k r)
  show ?case
  proof (cases "l = Leaf")
    case True
    then show ?thesis by (intro exI[of _ "[]"]) auto
  next
    case False
    then obtain c y m s where "l = plug c (Node Leaf y m s)" "before c = []" using Node.IH(1) by blast
    then show ?thesis by (intro exI[of _ "c @ [Step InLeft a k r]"]) auto
  qed
qed simp

lemma remove_double:
  assumes h: "hole t c g a (Node l a k (plug c' (Node Leaf y m s)))" and ok: "rbt_ok (plug c (Node l a k (plug c' (Node Leaf y m s))))"
    and c': "before c' = []" and l: "l \<noteq> Leaf" and kp: "kept t0 t" and fx: "fixup \<longleftrightarrow> \<not> m"
    and x: "x = right_of t y" and t1: "t1 = rbtree_cut_out x y t"
  shows "removed t0 a (before c @ inorder l @ inorder (plug c' (Node Leaf y m s)) @ behind c) (do {
     t \<leftarrow> rbtree_remove_dirty x y a (parent_of t y) (rbtree_take_place x y a (left_of t a) (right_of t a) t1);
     let t = u_mulle__rbtree_free_node a t;
     if fixup then u_mulle__rbtree_black_black_fixup x t else Some t })"
proof -
  let ?Y = "Node Leaf y m s"
  let ?c = "c' @ Step InRight a k l # c"
  define u where "u = rbtree_take_place x y a (left_of t a) (right_of t a) t1"
  note ch = hole_children[OF h]
  obtain gy where hy: "hole t ?c gy y ?Y"
  proof -
    obtain g' p' where "hole t ?c g' p' ?Y" using hole_plug[OF ch(4)] by blast
    then show ?thesis using that by (auto simp: hole_def)
  qed
  have X: "Leaf = Leaf \<and> s = s \<and> x = right_of t y \<or> s = Leaf \<and> s = Leaf \<and> x = left_of t y" by (simp add: x)
  have h1: "hole t1 ?c gy x s" and xy: "x \<noteq> y" and py: "parent_of t y = gy"
    using cut_out_hole[OF hy, of s x] unfolding t1 using x by auto
  note f1 = cut_out_simps[OF xy py, folded t1]
  have b: "ctx_ok ?c (bheight ?Y)" "balanced ?Y" "m \<longrightarrow> \<not> red_above ?c"
    using plug_ok_ctx[of ?c ?Y] ok by (auto simp: rbt_ok_def)
  obtain g1 where ha: "hole t1 c g1 a (Node l a k (plug c' s))"
  proof -
    obtain g1 p1 where "hole t1 (Step InRight a k l # c) g1 p1 (plug c' s)" using hole_unplug[OF h1] by blast
    then have "hole t1 c (parent_of t1 a) a (Node l a k (plug c' s))" unfolding hole_up by simp
    then show ?thesis using that by blast
  qed
  have all: "distinct (inorder (plug c (Node l a k (plug c' ?Y))))" using h by (auto simp: hole_def apart_distinct)
  have ya: "y \<noteq> a" "y \<notin> set (inorder (plug c (Node l a k (plug c' s))))" and ne: "a \<notin> set (inorder l)" "a \<notin> set (inorder (plug c' ?Y))"
    using all by (auto simp: inorder_plug)
  have nl: "y \<noteq> rt_nil t" "a \<noteq> rt_nil t" "nil_ok t1" "rt_nil t1 = rt_nil t" using hy h h1 f1 by (auto simp: hole_def)
  have gy: "gy = (if c' = [] then a else step_node (hd c'))" "gy \<noteq> rt_nil t"
    using hy by (cases c' rule: ctx_nodes.cases; auto simp: hole_def)+
  have rta: "rep t a (left_of t a) l" "rep t a (right_of t a) (plug c' ?Y)" using h by (auto simp: hole_def)
  have ol: "left_of t a \<in> set (inorder l)" using rep_root[OF rta(1)] rep_Leaf[OF rta(1)] l by auto
  have oy: "left_of t a \<noteq> y" using ol ya(2) by (auto simp: inorder_plug)
  have la: "left_of t1 a = left_of t a"
  proof -
    have "a \<noteq> gy \<or> y \<noteq> left_of t gy" using oy by auto
    then show ?thesis using f1(6)[of a] by auto
  qed
  define q where "q = right_of t1 a"
  have rq: "rep t1 a q (plug c' s)" using ha by (simp add: hole_def q_def)
  have q: "q \<noteq> y" using rep_root[OF rq] ya(2) nl by (auto simp: inorder_plug)
  have gin: "gy \<in> set (inorder (plug c' ?Y))" if "c' \<noteq> []"
    unfolding gy(1) using that by (cases c' rule: ctx_nodes.cases) (auto simp: set_plug)
  have qy: "y \<noteq> right_of t a \<longrightarrow> right_of t a = q" "y = right_of t a \<longrightarrow> right_of t1 y = q \<and> x = q"
  proof -
    have "y = right_of t a \<longleftrightarrow> c' = []"
    proof
      assume y: "y = right_of t a"
      show "c' = []"
      proof (rule ccontr)
        assume n: "c' \<noteq> []"
        then have "gy \<in> set (inorder (plug c' ?Y))" by (rule gin)
        moreover have "parent_of t y = a"
          using rta(2) y nl(1) by (cases "plug c' ?Y") auto
        ultimately show False using py ne(2) by simp
      qed
    next
      assume "c' = []"
      then show "y = right_of t a" using rta(2) by simp
    qed
    moreover have "right_of t1 a = (if c' = [] then x else right_of t a)"
    proof (cases "c' = []")
      case True
      then have "gy = a" "y \<noteq> left_of t a" using gy(1) oy by auto
      then show ?thesis using f1(7)[of a] nl(2) True by simp
    next
      case False
      then have "gy \<noteq> a" using gin ne(2) by metis
      then show ?thesis using f1(7)[of a] False by simp
    qed
    ultimately show "y \<noteq> right_of t a \<longrightarrow> right_of t a = q" "y = right_of t a \<longrightarrow> right_of t1 y = q \<and> x = q"
      using f1(7)[of y] by (auto simp: q_def x)
  qed
  have g1: "parent_of t1 a = g1" "g1 = rt_nil t1 \<or> g1 \<in> ctx_nodes c" "rep_ctx t1 c a g1" "a \<notin> ctx_nodes c"
    using ha rep_ctx_parent by (auto simp: hole_def apart_def)
  have tp: "x \<noteq> y" "y \<noteq> a" "g1 \<noteq> y" "left_of t a \<noteq> y" "left_of t a \<noteq> rt_nil t1"
    "g1 \<noteq> rt_nil t1 \<Longrightarrow> (left_of t1 g1 = a) \<noteq> (right_of t1 g1 = a)"
    using xy ya g1(2) nl oy ol rep_nodes[OF rta(1)] rep_ctx_child[OF g1(3) _ g1(4)] rep_ctx_nil[OF g1(3)]
    by (auto simp: set_plug)
  note f = take_place_simps[OF tp g1(1) la q_def[symmetric] q qy[rule_format] u_def]
  have hu: "hole u c g1 y (Node l y k (plug c' s))"
    by (rule replace_hole[OF ha _ ya(2) l]) (use f nl g1 in \<open>simp_all add: la q_def\<close>)
  let ?d = "c' @ Step InRight y k l # c"
  obtain g' p' where hs: "hole u ?d g' p' s" using hole_plug[OF hole_children(4)[OF hu]] by blast
  have rs: "rep t1 gy x s" "rep u g' p' s" using h1 hs by (auto simp: hole_def)
  have px: "p' = x" "parent_of u x = g'"
  proof -
    show p: "p' = x" using rs f(2) by (cases s) auto
    show "parent_of u x = g'"
    proof (cases s)
      case (Node sl z sk sr)
      then show ?thesis using rs by simp
    next
      case Leaf
      then have xn: "x = rt_nil t1" using rs(1) by simp
      have qn: "q = rt_nil t1 \<longleftrightarrow> c' = []" using rep_Leaf[OF rq] Leaf by simp
      have e: "parent_of u x = (if c' = [] then y else gy)" using f(5)[of x] f1(5)[of x] xn qn nl tp(5) by auto
      have "g' = (if c' = [] then y else step_node (hd c'))"
        using hs by (cases c' rule: ctx_nodes.cases) (auto simp: hole_def)
      then show ?thesis using e gy(1) by simp
    qed
  qed
  have "a \<noteq> left_of t a" "a \<noteq> q" using ol ne rep_root[OF rq] nl by (auto simp: set_plug)
  then have pa: "parent_of u a = g1" using f(5)[of a] ya(1) g1(1) by simp
  have r1: "rises u g1" using hu rises_ctx by (auto simp: hole_def)
  have ra: "rises u a" using r1 pa rises.up by metis
  have ry: "rises u y" using r1 f(5)[of y] rises.up by metis
  have rg: "rises u gy"
  proof (cases "c' = []")
    case False
    then have "gy \<in> set (inorder (plug ?d s))" using gy(1) by (cases c' rule: ctx_nodes.cases) (auto simp: set_plug)
    then show ?thesis using rises_node hole_rep_tree[OF hs] by blast
  qed (use ra gy in simp)
  have ku: "kept t0 u" using kp f f1 by (simp add: kept_def)
  have bs: "ctx_ok ?d (bheight ?Y)" "balanced s" "m \<longrightarrow> \<not> red_root s" "bheight ?Y = bheight s + (if m then 0 else 1)"
    using b ctx_rename(1)[of c' InRight a k l c _ y] by auto
  have ns: "before ?d @ inorder s @ behind ?d = before c @ inorder l @ inorder (plug c' ?Y) @ behind c"
    using c' by (simp add: inorder_plug)
  have R: "removed t0 a (before ?d @ inorder s @ behind ?d) (do {
     t \<leftarrow> rbtree_remove_dirty x y a gy u;
     let t = u_mulle__rbtree_free_node a t;
     if fixup then u_mulle__rbtree_black_black_fixup x t else Some t })"
  proof (rule remove_finish[OF _ px(2) ku])
    show "hole u ?d g' x s" using hs px(1) by simp
    show "rises u (parent_of u a)" using r1 pa by simp
    show "ctx_ok ?d (Suc (bheight s)) \<and> balanced s" if fixup using bs fx that by simp
    show "rbt_ok (plug ?d s)" if "\<not> fixup" using plug_ok[of ?d s] bs fx that by simp
  qed (use ry rg in simp_all)
  show ?thesis using R unfolding ns u_def py .
qed

text \<open>The removal with its three marks at the start.\<close>

definition rbtree_mark_three :: "pointer \<Rightarrow> mulle__rbtree \<Rightarrow> mulle__rbtree" where
  "rbtree_mark_three a t = u_mulle__rbtree_set_node_marked (right_of t a) (u_mulle__rbtree_set_node_marked (left_of t a)
     (u_mulle__rbtree_set_node_marked a t))"

lemma mark_three_simps [simp]:
  "rt_nil (rbtree_mark_three a t) = rt_nil t" "left_of (rbtree_mark_three a t) n = left_of t n"
  "right_of (rbtree_mark_three a t) n = right_of t n" "parent_of (rbtree_mark_three a t) n = parent_of t n"
  by (simp_all add: rbtree_mark_three_def)

lemma remove_node_single:
  assumes "left_of t a = rt_nil t \<or> right_of t a = rt_nil t" "x = (if left_of t a \<noteq> rt_nil t then left_of t a else right_of t a)"
    "w = u_mulle__rbtree_set_node_marked x (rbtree_mark_three a t)"
  shows "u_mulle__rbtree_remove_node t a = do {
     t \<leftarrow> rbtree_remove_dirty x a a (rt_nil t) (rbtree_cut_out x a w);
     let t = u_mulle__rbtree_free_node a t;
     if \<not> red (rbtree_cut_out x a w) a then u_mulle__rbtree_black_black_fixup x t else Some t }"
proof -
  have e: "u_mulle__rbtree_set_node_marked (right_of (u_mulle__rbtree_set_node_marked a t) a)
     (u_mulle__rbtree_set_node_marked (left_of (u_mulle__rbtree_set_node_marked a t) a) (u_mulle__rbtree_set_node_marked a t))
     = rbtree_mark_three a t" by (simp add: rbtree_mark_three_def)
  show ?thesis
    unfolding u_mulle__rbtree_remove_node_def Let_def e assms(3) mark_three_simps if_P[OF assms(1)] Option.bind.simps prod.case
      assms(2)[symmetric] is_black_iff by simp
qed

lemma remove_node_double:
  assumes "\<not> (left_of t a = rt_nil t \<or> right_of t a = rt_nil t)" "u_mulle__rbtree_next_node (rbtree_mark_three a t) a = Some y"
    "left_of t y = rt_nil t" "y \<noteq> a" "x = right_of t y"
    "w = u_mulle__rbtree_set_node_marked x (u_mulle__rbtree_set_node_marked y (rbtree_mark_three a t))"
  shows "u_mulle__rbtree_remove_node t a = do {
     t \<leftarrow> rbtree_remove_dirty x y a (parent_of t y) (rbtree_take_place x y a (left_of t a) (right_of t a) (rbtree_cut_out x y w));
     let t = u_mulle__rbtree_free_node a t;
     if \<not> red (rbtree_cut_out x y w) y then u_mulle__rbtree_black_black_fixup x t else Some t }"
proof -
  have e: "u_mulle__rbtree_set_node_marked (right_of (u_mulle__rbtree_set_node_marked a t) a)
     (u_mulle__rbtree_set_node_marked (left_of (u_mulle__rbtree_set_node_marked a t) a) (u_mulle__rbtree_set_node_marked a t))
     = rbtree_mark_three a t" by (simp add: rbtree_mark_three_def)
  show ?thesis
    unfolding u_mulle__rbtree_remove_node_def Let_def e assms(6) mark_three_simps if_not_P[OF assms(1)] assms(2) Option.bind.simps
      prod.case is_black_iff by (simp add: assms(3-5) cong: if_cong)
qed

theorem remove_node_holes:
  assumes t: "rb_tree t (xs @ a # ys)"
  shows "removed t a (xs @ ys) (u_mulle__rbtree_remove_node t a)"
proof -
  let ?v = "rbtree_mark_three a t"
  have v: "rt_view ?v = rt_view t" by (simp add: rbtree_mark_three_def marked_view)
  obtain T where T: "rep_tree t T" "rbt_ok T" "inorder T = xs @ a # ys" using t by (auto simp: rb_tree_def)
  from T(1,3) obtain c g l k r where F: "T = plug c (Node l a k r)" "hole t c g a (Node l a k r)"
    "xs = before c @ inorder l" "ys = inorder r @ behind c" by (rule rep_tree_focus)
  have ok: "rbt_ok (plug c (Node l a k r))" using T(2) F(1) by simp
  have ra: "rep t a (left_of t a) l" "rep t a (right_of t a) r" using F(2) by (auto simp: hole_def)
  have lf: "l = Leaf \<longleftrightarrow> left_of t a = rt_nil t" "r = Leaf \<longleftrightarrow> right_of t a = rt_nil t"
    using rep_Leaf[OF ra(1)] rep_Leaf[OF ra(2)] by simp_all
  show ?thesis
  proof (cases "l = Leaf \<or> r = Leaf")
    case True
    define x where "x = (if left_of t a \<noteq> rt_nil t then left_of t a else right_of t a)"
    define w where "w = u_mulle__rbtree_set_node_marked x ?v"
    have w: "rt_view w = rt_view t" using marked_view v by (simp add: w_def)
    note wv = rt_viewD[OF w]
    have h: "hole w c g a (Node l a k r)" using F(2) hole_view[OF w] by simp
    define X where "X = (if l = Leaf then r else l)"
    have X: "l = Leaf \<and> X = r \<and> x = right_of w a \<or> r = Leaf \<and> X = l \<and> x = left_of w a"
      using True lf wv by (auto simp: X_def x_def)
    note cut = cut_out_simps[OF cut_out_hole(2,3)[OF h X]]
    have kp: "kept t w" using wv by (simp add: kept_def)
    have "red (rbtree_cut_out x a w) a = k" using cut(9) h by (simp add: hole_def)
    then have "removed t a (before c @ inorder X @ behind c) (u_mulle__rbtree_remove_node t a)"
      unfolding remove_node_single[OF True[unfolded lf] x_def w_def]
      using remove_single[OF h ok kp X refl] wv(2) by simp
    then show ?thesis using True F(3,4) by (auto simp: X_def)
  next
    case False
    then obtain c' y m s where r: "r = plug c' (Node Leaf y m s)" "before c' = []" using leftmost_focus[of r] by blast
    have hv: "hole ?v c g a (Node l a k r)" using F(2) hole_view[OF v] by simp
    have nx: "u_mulle__rbtree_next_node ?v a = Some y"
      using next_node_hole[OF hv] r by (simp add: inorder_plug)
    obtain g' p' where "hole t (c' @ Step InRight a k l # c) g' p' (Node Leaf y m s)"
      using hole_plug hole_children(4)[OF F(2)] unfolding r(1) by blast
    then have y: "left_of t y = rt_nil t" "red t y = m" by (auto simp: hole_def)
    have ya: "y \<noteq> a" using F(2) unfolding r(1) by (auto simp: hole_def apart_def set_plug)
    define x where "x = right_of t y"
    define w where "w = u_mulle__rbtree_set_node_marked x (u_mulle__rbtree_set_node_marked y ?v)"
    have w: "rt_view w = rt_view t" using marked_view v by (simp add: w_def)
    note wv = rt_viewD[OF w]
    have h: "hole w c g a (Node l a k (plug c' (Node Leaf y m s)))" using F(2) hole_view[OF w] r by simp
    have kp: "kept t w" using wv by (simp add: kept_def)
    have xw: "x = right_of w y" using wv by (simp add: x_def)
    have "red (rbtree_cut_out x y w) y = m"
    proof -
      obtain g' p' where hy: "hole w (c' @ Step InRight a k l # c) g' p' (Node Leaf y m s)"
        using hole_plug hole_children(4)[OF h] by blast
      then have "p' = y" by (simp add: hole_def)
      note cut = cut_out_hole(2,3)[OF hy[unfolded this], of s x]
      show ?thesis using cut_out_simps(9)[OF cut] xw y(2) wv by simp
    qed
    then have "removed t a (before c @ inorder l @ inorder (plug c' (Node Leaf y m s)) @ behind c) (u_mulle__rbtree_remove_node t a)"
      unfolding remove_node_double[OF False[unfolded lf] nx y(1) ya x_def w_def]
      using remove_double[OF h _ r(2) _ kp refl xw refl] ok False wv r(1) by simp
    then show ?thesis using F(3,4) r(1) by simp
  qed
qed

end
