(* ===== verification/Rbtree_Spec.thy ===== *)
theory Rbtree_Spec
  imports Rbtree_Remove
begin

text \<open>
  What the red-black tree promises: a sorted sequence of nodes with insertion, removal, search and walks.
  The tree \<open>t\<close> holds the nodes \<open>ns\<close> in order when \<open>rb_tree t ns\<close>, which includes the balance.
\<close>

section \<open>The operations on a sorted tree\<close>

lemma node_value_stable:
  "stable t u \<Longrightarrow> u_mulle__rbtree_get_node_value u n = u_mulle__rbtree_get_node_value t n"
  by (simp add: u_mulle__rbtree_get_node_value_def stable_def)

lemma rb_sorted_stable: "stable t u \<Longrightarrow> rb_sorted u cmp ns = rb_sorted t cmp ns"
  by (simp add: rb_sorted_def node_value_stable)

lemma rb_sorted_place:
  assumes s: "rb_sorted t cmp ns" and c: "compare_ok cmp" and K: "K = key_rank t cmp (u_mulle__rbtree_get_node_value t a)"
  shows "rb_sorted t cmp (below K ns @ a # above K ns)"
proof -
  let ?v = "u_mulle__rbtree_get_node_value t"
  have s': "sorted_wrt (\<lambda>m n. cmp (?v m) (?v n) \<le> 0) (below K ns)" "sorted_wrt (\<lambda>m n. cmp (?v m) (?v n) \<le> 0) (above K ns)"
    using s by (simp_all add: rb_sorted_def below_def above_def sorted_wrt_filter)
  have lo: "cmp (?v m) (?v a) \<le> 0" if "m \<in> set (below K ns)" for m
    using that compare_okD(2)[OF c] by (auto simp: below_def K)
  have hi': "cmp (?v a) (?v n) \<le> 0" if "n \<in> set (above K ns)" for n
    using that by (auto simp: above_def K)
  have "cmp (?v m) (?v n) \<le> 0" if "m \<in> set (below K ns)" "n \<in> set (above K ns)" for m n
    using compare_okD(1)[OF c lo[OF that(1)] hi'[OF that(2)]] .
  then show ?thesis using s' lo hi' by (simp add: rb_sorted_def sorted_wrt_append)
qed

lemma init_rb_tree: "rb_tree (u_mulle__rbtree_init_with_config nil memory options) []"
proof -
  have "rep_tree (u_mulle__rbtree_init_with_config nil memory options) Leaf"
    by (simp add: rep_tree_def all_side red_bit u_mulle__rbtree_init_with_config_def)
  then show ?thesis unfolding rb_tree_def by (intro exI[of _ Leaf]) (simp add: rbt_ok_def)
qed

text \<open>
  C10. Inserting a node into a sorted red-black tree returns \<open>EEXIST\<close> exactly when an equal value is in the
  tree and duplicates are not allowed (its description in the header says -1). Otherwise the node comes behind all nodes that are not greater and
  before the greater ones; the tree is sorted and balanced again and all other nodes are still in it.
\<close>

theorem u_mulle__rbtree_insert_node_spec:
  assumes "rb_tree t ns" "rb_sorted t cmp ns" "compare_ok cmp" "fresh_node t a ns"
  shows "if rt_options t AND mulle_rbtree_option_allow_duplicates = 0 \<and>
       (\<exists>n\<in>set ns. cmp (u_mulle__rbtree_get_node_value t a) (u_mulle__rbtree_get_node_value t n) = 0)
     then u_mulle__rbtree_insert_node t a cmp = Some (Inl EEXIST)
     else \<exists>t' lo' hi'. u_mulle__rbtree_insert_node t a cmp = Some (Inr t') \<and> ns = lo' @ hi' \<and> rb_tree t' (lo' @ a # hi') \<and>
       rb_sorted t' cmp (lo' @ a # hi') \<and> stable t t' \<and>
       (\<forall>n\<in>set lo'. cmp (u_mulle__rbtree_get_node_value t n) (u_mulle__rbtree_get_node_value t a) \<le> 0) \<and>
       (\<forall>n\<in>set hi'. cmp (u_mulle__rbtree_get_node_value t a) (u_mulle__rbtree_get_node_value t n) < 0)"
proof -
  let ?v = "u_mulle__rbtree_get_node_value t"
  let ?K = "key_rank t cmp (?v a)"
  obtain T where T: "rep_tree t T" "rbt_ok T" "inorder T = ns" using assms(1) by (auto simp: rb_tree_def)
  have loc: "located ?K ns" using sorted_located assms(2,3) by blast
  then have split: "ns = below ?K ns @ above ?K ns" unfolding below_def above_def located_def
  proof (induction ns)
    case (Cons m ns)
    then have "filter (\<lambda>n. 0 \<le> ?K n) ns = []" if "?K m < 0" using that
      by (auto simp: filter_empty_conv sgn_if split: if_splits)
    then show ?case using Cons by (cases "?K m < 0") auto
  qed simp
  note I = insert_node_spec[OF T(1,2), of a cmp, unfolded T(3), OF assms(4) loc]
  show ?thesis
  proof (cases "rt_options t AND mulle_rbtree_option_allow_duplicates = 0 \<and> (\<exists>n\<in>set ns. ?K n = 0)")
    case True
    then show ?thesis using I by simp
  next
    case no: False
    then obtain res where "u_mulle__rbtree_insert_node t a cmp = map_option Inr res"
      "repaired t (below ?K ns @ a # above ?K ns) res" using I[unfolded if_not_P[OF no]] by blast
    then obtain t' where t': "u_mulle__rbtree_insert_node t a cmp = Some (Inr t')"
      "rb_tree t' (below ?K ns @ a # above ?K ns)" "stable t t'" by (auto simp: repaired_iff)
    have "rb_sorted t' cmp (below ?K ns @ a # above ?K ns)"
      using rb_sorted_place[OF assms(2,3) refl] rb_sorted_stable[OF t'(3)] by blast
    moreover have "\<forall>n\<in>set (below ?K ns). cmp (?v n) (?v a) \<le> 0" "\<forall>n\<in>set (above ?K ns). cmp (?v a) (?v n) < 0"
      using compare_okD(2)[OF assms(3)] by (auto simp: below_def above_def)
    ultimately show ?thesis unfolding if_not_P[OF no] using t' split by blast
  qed
qed

text \<open>The witnesses use the comparison of the node values as unsigned numbers.\<close>

definition uint_compare :: "pointer \<Rightarrow> pointer \<Rightarrow> int" where
  "uint_compare x y = uint x - uint y"

lemma uint_compare_ok: "compare_ok uint_compare"
  by (simp add: compare_ok_def uint_compare_def)

text \<open>A tree of one node, and a new node.\<close>

definition rb_example :: mulle__rbtree where
  "rb_example = \<lparr>rt_root = 16, rt_nil = 8,
     rt_nodes = (\<lambda>n. if n = 16 then \<lparr>rn_parent = 8, rn_left = 8, rn_right = 8, rn_color = 0, rn_payload = 7\<rparr>
       else if n = 32 then \<lparr>rn_parent = 8, rn_left = 8, rn_right = 8, rn_color = 1, rn_payload = 5\<rparr>
       else \<lparr>rn_parent = 8, rn_left = 8, rn_right = 8, rn_color = 0, rn_payload = 0\<rparr>),
     rt_options = mulle_rbtree_option_use_dirty, rt_freed = []\<rparr>"

lemma rb_example: "rb_tree rb_example [16]" "rb_sorted rb_example uint_compare [16]" "fresh_node rb_example 32 [16]"
proof -
  have "rep_tree rb_example (Node Leaf 16 False Leaf)"
    by (simp add: rep_tree_def all_side rb_example_def red_bit)
  then show "rb_tree rb_example [16]" unfolding rb_tree_def
    by (intro exI[of _ "Node Leaf 16 False Leaf"]) (simp add: rbt_ok_def)
  show "rb_sorted rb_example uint_compare [16]" by (simp add: rb_sorted_def)
  show "fresh_node rb_example 32 [16]" by (simp add: fresh_node_def rb_example_def red_bit)
qed

lemma rb_example_nil [simp]: "rt_nil rb_example = 8"
  by (simp add: rb_example_def)

lemma rb_example_value: "u_mulle__rbtree_get_node_value rb_example 16 = 7" "u_mulle__rbtree_get_node_value rb_example 32 = 5"
  by (simp_all add: u_mulle__rbtree_get_node_value_def rb_example_def mulle_rbtree_option_use_dirty_def
      mulle_rbtree_option_use_extra_def)

lemma u_mulle__rbtree_insert_node_spec_witness:
  "\<exists>t'. u_mulle__rbtree_insert_node rb_example 32 uint_compare = Some (Inr t') \<and> rb_tree t' [32, 16]"
proof -
  have "uint_compare (u_mulle__rbtree_get_node_value rb_example 32) (u_mulle__rbtree_get_node_value rb_example 16) = - 2"
    by (simp add: uint_compare_def rb_example_value)
  then have no: "\<not> (rt_options rb_example AND mulle_rbtree_option_allow_duplicates = 0 \<and>
      (\<exists>n\<in>set [16]. uint_compare (u_mulle__rbtree_get_node_value rb_example 32) (u_mulle__rbtree_get_node_value rb_example n) = 0))"
    and gt: "\<not> uint_compare (u_mulle__rbtree_get_node_value rb_example 16) (u_mulle__rbtree_get_node_value rb_example 32) \<le> 0"
    by (simp_all add: uint_compare_def rb_example_value)
  from u_mulle__rbtree_insert_node_spec[OF rb_example(1,2) uint_compare_ok rb_example(3), unfolded if_not_P[OF no]]
  obtain t' lo' hi' where t': "u_mulle__rbtree_insert_node rb_example 32 uint_compare = Some (Inr t')" "[16] = lo' @ hi'"
    "rb_tree t' (lo' @ 32 # hi')"
    "\<forall>n\<in>set lo'. uint_compare (u_mulle__rbtree_get_node_value rb_example n) (u_mulle__rbtree_get_node_value rb_example 32) \<le> 0"
    by blast
  then have "lo' = []" using gt by (cases lo') auto
  then show ?thesis using t' by simp
qed

text \<open>
  C9. Removing a node of a red-black tree leaves exactly the other nodes in it, in the same order and
  balanced, and gives back this node and no other; the removal ends for every tree.
\<close>

theorem u_mulle__rbtree_remove_node_spec:
  assumes "rb_tree t (xs @ a # ys)"
  shows "\<exists>t'. u_mulle__rbtree_remove_node t a = Some t' \<and> rb_tree t' (xs @ ys) \<and> rt_freed t' = a # rt_freed t \<and>
    rt_nil t' = rt_nil t \<and> rt_options t' = rt_options t \<and> (\<forall>n. payload_of t' n = payload_of t n) \<and>
    (rb_sorted t cmp (xs @ a # ys) \<longrightarrow> rb_sorted t' cmp (xs @ ys))"
proof -
  obtain t' where t': "u_mulle__rbtree_remove_node t a = Some t'" "rb_tree t' (xs @ ys)" "rt_freed t' = a # rt_freed t"
    "rt_nil t' = rt_nil t" "rt_options t' = rt_options t" "\<forall>n. payload_of t' n = payload_of t n"
    using remove_node_holes[OF assms] by (auto simp: removed_def)
  then have "u_mulle__rbtree_get_node_value t' n = u_mulle__rbtree_get_node_value t n" for n
    by (simp add: u_mulle__rbtree_get_node_value_def)
  then have "rb_sorted t cmp (xs @ a # ys) \<longrightarrow> rb_sorted t' cmp (xs @ ys)"
    by (simp add: rb_sorted_def sorted_wrt_append)
  then show ?thesis using t' by blast
qed

lemma u_mulle__rbtree_remove_node_spec_witness:
  "\<exists>t'. u_mulle__rbtree_remove_node rb_example 16 = Some t' \<and> rb_tree t' [] \<and> rt_freed t' = [16]"
  using u_mulle__rbtree_remove_node_spec[of rb_example "[]" 16 "[]"] rb_example(1) by (auto simp: rb_example_def)

text \<open>
  C21. Searching a sorted red-black tree for a key ends with a node whose value is equal to it if there is
  one; otherwise \<open>_mulle__rbtree_find_node\<close> answers \<open>nil\<close>, although its description in the header says that it
  finds the next greater node, and \<open>_mulle__rbtree_find_node_equal_or_greater\<close> answers the first greater one.
\<close>

theorem rbtree_find_spec:
  assumes "rb_tree t ns" "rb_sorted t cmp ns" "compare_ok cmp"
  shows "\<exists>p q. u_mulle__rbtree_find_node t key cmp = Some p \<and> u_mulle__rbtree_find_node_equal_or_greater t key cmp = Some q \<and>
    (if \<exists>n\<in>set ns. cmp key (u_mulle__rbtree_get_node_value t n) = 0
     then p \<in> set ns \<and> cmp key (u_mulle__rbtree_get_node_value t p) = 0 \<and>
       q \<in> set ns \<and> cmp key (u_mulle__rbtree_get_node_value t q) = 0
     else p = rt_nil t \<and> q = hd_or (rt_nil t) (filter (\<lambda>n. cmp key (u_mulle__rbtree_get_node_value t n) < 0) ns))"
  using u_mulle__rbtree_find_node_spec(1)[OF assms, of key] u_mulle__rbtree_find_node_spec(2)[OF assms, of key]
  by (auto split: if_split_asm)

lemma rbtree_find_spec_witness:
  "u_mulle__rbtree_find_node rb_example 7 uint_compare = Some 16 \<and>
   u_mulle__rbtree_find_node_equal_or_greater rb_example 6 uint_compare = Some 16"
  using rbtree_find_spec[OF rb_example(1,2) uint_compare_ok, of 7] rbtree_find_spec[OF rb_example(1,2) uint_compare_ok, of 6]
  by (auto simp: uint_compare_def rb_example_value)

text \<open>
  C22. Walking a red-black tree calls the callback with its nodes in order, or backwards, until it says stop,
  and then ends; a step goes to the neighbour in this order, and counting counts the nodes.
\<close>

theorem rbtree_walk_spec:
  assumes "rb_tree t (xs @ a # ys)"
  shows "u_mulle__rbtree_walk t callback st = Some (walk_list callback st (xs @ a # ys)) \<and>
    u_mulle__rbtree_walk_reverse t callback st = Some (walk_list callback st (rev ys @ a # rev xs)) \<and>
    u_mulle__rbtree_get_count t = Some (of_nat (length xs + length ys + 1)) \<and>
    u_mulle__rbtree_next_node t a = Some (hd_or (rt_nil t) ys) \<and>
    u_mulle__rbtree_previous_node t a = Some (last_or (rt_nil t) xs)"
  using u_mulle__rbtree_walk_spec(1)[OF assms, of callback st] u_mulle__rbtree_walk_spec(2)[OF assms, of callback st]
    u_mulle__rbtree_walk_spec(3)[OF assms] u_mulle__rbtree_next_node_spec[OF assms] by simp

lemma rbtree_walk_spec_witness:
  "u_mulle__rbtree_walk rb_example (\<lambda>st n. (True, st @ [n])) [] = Some [16] \<and> u_mulle__rbtree_next_node rb_example 16 = Some 8"
  using rbtree_walk_spec[of rb_example "[]" 16 "[]" "\<lambda>st n. (True, st @ [n])" "[]"] rb_example(1) rb_example_nil by simp

text \<open>
  C23. A node can be put directly before or behind a node of a red-black tree, whatever its value is: it
  gets this place in the order and the tree stays balanced.
\<close>

theorem rbtree_insert_at_spec:
  assumes "rb_tree t (xs @ b # ys)" "fresh_node t a (xs @ b # ys)"
  shows "\<exists>u v. u_mulle__rbtree_insert_node_before_node t a b = Some u \<and> rb_tree u (xs @ a # b # ys) \<and> stable t u \<and>
    u_mulle__rbtree_insert_node_after_node t a b = Some v \<and> rb_tree v (xs @ b # a # ys) \<and> stable t v"
  using u_mulle__rbtree_insert_node_before_node_spec[OF assms] unfolding repaired_iff by blast

lemma rbtree_insert_at_spec_witness:
  "\<exists>u. u_mulle__rbtree_insert_node_after_node rb_example 32 16 = Some u \<and> rb_tree u [16, 32]"
  using rbtree_insert_at_spec[of rb_example "[]" 16 "[]" 32] rb_example by auto

end
