(* ===== verification/Utf_Character.thy ===== *)
theory Utf_Character
  imports Mulle_Prelude
begin

text \<open>
  The character level of \<open>mulle-utf\<close>: the code unit types of \<open>mulle-utf-type.h\<close>, the surrogate and
  noncharacter predicates of \<open>mulle-utf-noncharacter.c\<close> and \<open>.h\<close> and the coding of a surrogate pair.
  \<open>mulle_utf32_t\<close> is a signed 32 bit integer in the source: its comparisons are the signed ones
  (\<open><s\<close>, \<open>\<le>s\<close>) and its right shift is arithmetic. \<open>mulle_utf32_is_valid\<close> is the specification of
  what the validators accept.
\<close>

section \<open>Code units\<close>

type_synonym mulle_utf8_t = "8 word"
type_synonym mulle_utf16_t = "16 word"
type_synonym mulle_utf32_t = "32 word"

definition mulle_utf32_max :: mulle_utf32_t where
  "mulle_utf32_max = 0x10FFFF"

section \<open>Noncharacters and surrogates\<close>

definition mulle_utf16_is_noncharacter :: "mulle_utf16_t \<Rightarrow> bool" where
  "mulle_utf16_is_noncharacter c =
     (if 0xFDD0 \<le> c \<and> c \<le> 0xFDEF then True
      else if 0xFFFE \<le> c then True
      else False)"

definition mulle_utf32_is_noncharacter :: "mulle_utf32_t \<Rightarrow> bool" where
  "mulle_utf32_is_noncharacter c =
     (if 0xFDD0 \<le>s c \<and> c \<le>s 0xFFFF then mulle_utf16_is_noncharacter (ucast c)
      else if c <s 0x10000 \<or> 0x10FFFF <s c then False
      else c AND 0xFFFF = 0xFFFE \<or> c AND 0xFFFF = 0xFFFF)"

definition mulle_utf_is_noncharacterplane :: "size_t \<Rightarrow> bool" where
  "mulle_utf_is_noncharacterplane plane = True"

definition mulle_utf32_get_bomcharacter :: mulle_utf32_t where
  "mulle_utf32_get_bomcharacter = 0xFEFF"

definition mulle_utf16_get_bomcharacter :: mulle_utf16_t where
  "mulle_utf16_get_bomcharacter = 0xFEFF"

definition mulle_utf32_is_bomcharacter :: "mulle_utf32_t \<Rightarrow> bool" where
  "mulle_utf32_is_bomcharacter c = (c = mulle_utf32_get_bomcharacter)"

definition mulle_utf16_is_bomcharacter :: "mulle_utf16_t \<Rightarrow> bool" where
  "mulle_utf16_is_bomcharacter c = (c = mulle_utf16_get_bomcharacter)"

definition mulle_utf32_is_surrogatecharacter :: "mulle_utf32_t \<Rightarrow> bool" where
  "mulle_utf32_is_surrogatecharacter c = (0xD800 \<le>s c \<and> c <s 0xE000)"

definition mulle_utf32_is_highsurrogatecharacter :: "mulle_utf32_t \<Rightarrow> bool" where
  "mulle_utf32_is_highsurrogatecharacter c = (0xD800 \<le>s c \<and> c <s 0xDC00)"

definition mulle_utf32_is_lowsurrogatecharacter :: "mulle_utf32_t \<Rightarrow> bool" where
  "mulle_utf32_is_lowsurrogatecharacter c = (0xDC00 \<le>s c \<and> c <s 0xE000)"

definition mulle_utf32_is_invalidcharacter :: "mulle_utf32_t \<Rightarrow> bool" where
  "mulle_utf32_is_invalidcharacter c =
     (if mulle_utf32_is_surrogatecharacter c then True else mulle_utf32_is_noncharacter c)"

section \<open>Surrogate pairs\<close>

text \<open>The pair \<open>(hi, lo)\<close> stands for the two output arguments.\<close>

definition mulle_utf32_encode_surrogatepair :: "mulle_utf32_t \<Rightarrow> mulle_utf16_t \<times> mulle_utf16_t" where
  "mulle_utf32_encode_surrogatepair x =
     (let y = x - 0x10000;
          top16 = ucast (signed_drop_bit 10 y);
          bottom = ucast (y AND 0x3FF)
      in (0xD800 + top16, 0xDC00 + bottom))"

text \<open>\<open>hi - 0xD800\<close> is computed in \<open>int\<close>, after the promotion of \<open>hi\<close>.\<close>

definition mulle_utf16_decode_surrogatepair :: "mulle_utf16_t \<Rightarrow> mulle_utf16_t \<Rightarrow> mulle_utf32_t" where
  "mulle_utf16_decode_surrogatepair hi lo =
     (let top32 = ucast hi - 0xD800;
          bottom = ucast lo - 0xDC00
      in 0x10000 + push_bit 10 top32 + bottom)"

text \<open>\<open>mulle-utf32.c\<close> has the encoder once more, writing both units to \<open>dst\<close>.\<close>

definition u_mulle_utf32_convert_to_utf16_as_surrogatepair :: "mulle_utf32_t \<Rightarrow> mulle_utf16_t list" where
  "u_mulle_utf32_convert_to_utf16_as_surrogatepair x =
     (let y = x - 0x10000;
          top16 = ucast (signed_drop_bit 10 y);
          bottom = ucast (y AND 0x3FF);
          hi = 0xD800 + top16;
          lo = 0xDC00 + bottom
      in [hi, lo])"

section \<open>What a valid character is\<close>

text \<open>
  A Unicode scalar value that is not a noncharacter. Stated on naturals, independently of the
  predicates above.
\<close>

definition mulle_utf32_is_valid :: "mulle_utf32_t \<Rightarrow> bool" where
  "mulle_utf32_is_valid c =
     (let n = unat c in
      n \<le> 0x10FFFF \<and> \<not> (0xD800 \<le> n \<and> n \<le> 0xDFFF) \<and>
      \<not> (0xFDD0 \<le> n \<and> n \<le> 0xFDEF) \<and> n mod 0x10000 < 0xFFFE)"

section \<open>Signed comparison and masks as naturals\<close>

lemma sint_unat:
  "sint (c :: 'a::len word) =
     (if unat c < 2 ^ (LENGTH('a) - 1) then int (unat c) else int (unat c) - 2 ^ LENGTH('a))"
proof -
  define n where "n = unat c"
  define m where "m = (2 :: int) ^ (LENGTH('a) - 1)"
  have m: "2 ^ LENGTH('a) = 2 * m" "0 < m" "2 ^ (LENGTH('a) - 1) = m"
    by (simp_all add: m_def flip: power_Suc)
  have "uint c < 2 * m" using uint_bounded [of c] m(1) by simp
  then have n: "int n < 2 * m" by (simp add: n_def)
  have "sint c = (int n + m) mod (2 * m) - m"
    unfolding sint_uint signed_take_bit_eq_take_bit_shift n_def m_def
    by (simp add: take_bit_eq_mod flip: power_Suc)
  moreover have "(int n + m) mod (2 * m) = (if int n < m then int n + m else int n - m)"
  proof (cases "int n < m")
    case True
    then show ?thesis using m by (simp add: mod_pos_pos_trivial)
  next
    case False
    then have "(int n - m) mod (2 * m) = int n - m" using n by (intro mod_pos_pos_trivial) simp_all
    then show ?thesis using False mod_add_self2 [of "int n - m" "2 * m"] by (simp add: add.commute)
  qed
  moreover have "unat c < 2 ^ (LENGTH('a) - 1) \<longleftrightarrow> int n < m"
    unfolding n_def m_def by (simp flip: of_nat_less_iff [where 'a = int])
  ultimately show ?thesis
    unfolding n_def [symmetric] m by simp
qed

lemma sint32: "sint (c :: 32 word) = (if unat c < 2 ^ 31 then int (unat c) else int (unat c) - 2 ^ 32)"
  by (simp add: sint_unat)

lemma sless32 [word_unat]:
  "(a :: 32 word) <s b \<longleftrightarrow>
     (if unat b < 2 ^ 31 then unat a < unat b \<or> 2 ^ 31 \<le> unat a
      else 2 ^ 31 \<le> unat a \<and> unat a < unat b)"
  using unat32_less [of a] unat32_less [of b] by (auto simp: word_sless_alt sint32 simp del: int_nat_eq of_nat_unat)

lemma sle32 [word_unat]:
  "(a :: 32 word) \<le>s b \<longleftrightarrow>
     (if unat b < 2 ^ 31 then unat a \<le> unat b \<or> 2 ^ 31 \<le> unat a
      else 2 ^ 31 \<le> unat a \<and> unat a \<le> unat b)"
  using unat32_less [of a] unat32_less [of b] by (auto simp: word_sle_eq sint32 simp del: of_nat_unat)

lemma unat_and_mask: "unat ((a :: 'a::len word) AND mask n) = unat a mod 2 ^ n"
  unfolding take_bit_eq_mask [symmetric] unsigned_take_bit_eq by (rule take_bit_eq_mod)

lemma mask_numeral:
  "(0x3F :: 'a::len word) = mask 6" "(0x1F :: 'a::len word) = mask 5" "(0xF :: 'a::len word) = mask 4"
  "(0x7 :: 'a::len word) = mask 3" "(0x3 :: 'a::len word) = mask 2" "(0x3FF :: 'a::len word) = mask 10"
  "(0xFFFF :: 'a::len word) = mask 16"
  by (simp_all add: mask_eq_exp_minus_1)

lemma unat_ucast_16: "unat (ucast (c :: 32 word) :: 16 word) = unat c mod 0x10000"
  by (simp add: unsigned_ucast_eq take_bit_eq_mod)

lemma unat_ucast_up: "unat (ucast (c :: 16 word) :: 32 word) = unat c"
  using unat16_less [of c] by (simp add: unsigned_ucast_eq take_bit_eq_mod)

lemma unat_ucast_8: "unat (ucast (c :: 8 word) :: 32 word) = unat c"
  using unat8_less [of c] by (simp add: unsigned_ucast_eq take_bit_eq_mod)

lemma unat_ucast_8_16: "unat (ucast (c :: 8 word) :: 16 word) = unat c"
  using unat8_less [of c] by (simp add: unsigned_ucast_eq take_bit_eq_mod)

section \<open>The predicates as intervals\<close>

lemma mulle_utf32_is_surrogatecharacter_unat [word_unat]:
  "mulle_utf32_is_surrogatecharacter c \<longleftrightarrow> 0xD800 \<le> unat c \<and> unat c < 0xE000"
  by (auto simp: mulle_utf32_is_surrogatecharacter_def word_unat)

lemma mulle_utf32_is_highsurrogatecharacter_unat [word_unat]:
  "mulle_utf32_is_highsurrogatecharacter c \<longleftrightarrow> 0xD800 \<le> unat c \<and> unat c < 0xDC00"
  by (auto simp: mulle_utf32_is_highsurrogatecharacter_def word_unat)

lemma mulle_utf32_is_lowsurrogatecharacter_unat [word_unat]:
  "mulle_utf32_is_lowsurrogatecharacter c \<longleftrightarrow> 0xDC00 \<le> unat c \<and> unat c < 0xE000"
  by (auto simp: mulle_utf32_is_lowsurrogatecharacter_def word_unat)

lemma mulle_utf16_is_noncharacter_unat [word_unat]:
  "mulle_utf16_is_noncharacter c \<longleftrightarrow> (0xFDD0 \<le> unat c \<and> unat c \<le> 0xFDEF) \<or> 0xFFFE \<le> unat c"
  by (auto simp: mulle_utf16_is_noncharacter_def word_unat)

lemma mulle_utf32_is_noncharacter_unat [word_unat]:
  "mulle_utf32_is_noncharacter c \<longleftrightarrow>
     (0xFDD0 \<le> unat c \<and> unat c \<le> 0xFDEF) \<or> (unat c \<le> 0x10FFFF \<and> 0xFFFE \<le> unat c mod 0x10000)"
proof -
  have "c AND 0xFFFF = 0xFFFE \<or> c AND 0xFFFF = 0xFFFF \<longleftrightarrow> 0xFFFE \<le> unat c mod 0x10000"
  proof -
    have "unat (c AND 0xFFFF) = unat c mod 0x10000"
      using unat_and_mask [of c 16] by (simp add: mask_numeral)
    then have "c AND 0xFFFF = 0xFFFE \<longleftrightarrow> unat c mod 0x10000 = 0xFFFE"
      "c AND 0xFFFF = 0xFFFF \<longleftrightarrow> unat c mod 0x10000 = 0xFFFF"
      by (simp_all add: unat_eq_iff)
    moreover have "unat c mod 0x10000 < 0x10000" by simp
    ultimately show ?thesis by linarith
  qed
  moreover have "unat c mod 0x10000 = unat c" if "unat c < 0x10000"
    using that by simp
  ultimately show ?thesis
    by (auto simp: mulle_utf32_is_noncharacter_def sless32 sle32 mulle_utf16_is_noncharacter_unat unat_ucast_16)
qed

lemma mulle_utf32_is_valid_iff:
  "mulle_utf32_is_valid c \<longleftrightarrow>
     \<not> (c <s 0 \<or> mulle_utf32_max <s c) \<and> \<not> mulle_utf32_is_invalidcharacter c"
  by (auto simp: mulle_utf32_is_valid_def mulle_utf32_is_invalidcharacter_def mulle_utf32_max_def word_unat
      Let_def not_le)

lemma mulle_utf32_is_valid_bounds:
  assumes "mulle_utf32_is_valid c"
  shows "unat c \<le> 0x10FFFF" and "\<not> mulle_utf32_is_surrogatecharacter c"
    and "\<not> mulle_utf32_is_invalidcharacter c"
  using assms mulle_utf32_is_valid_iff [of c]
  by (auto simp: mulle_utf32_is_valid_def Let_def mulle_utf32_is_surrogatecharacter_unat)

section \<open>Surrogate pairs are a bijection\<close>

lemma signed_drop_bit_unat:
  "unat (x :: 32 word) < 2 ^ 31 \<Longrightarrow> unat (signed_drop_bit n x) = unat x div 2 ^ n"
proof -
  assume "unat x < 2 ^ 31"
  then have "\<not> bit x 31"
    by (simp add: bit_iff_odd word_arith_nat_div unat_eq_iff flip: unat_eq_0)
  then have "signed_drop_bit n x = drop_bit n x"
    by (auto simp: bit_eq_iff bit_simps dest: bit_imp_le_length)
  then show ?thesis
    by (simp only: unat_drop_bit_eq drop_bit_eq_div [where 'a = nat])
qed

lemma surrogatepair_unat:
  assumes "0x10000 \<le> unat x" and "unat x \<le> 0x10FFFF"
  shows "\<exists>hi lo. u_mulle_utf32_convert_to_utf16_as_surrogatepair x = [hi, lo] \<and>
    unat hi = 0xD800 + (unat x - 0x10000) div 0x400 \<and> unat lo = 0xDC00 + (unat x - 0x10000) mod 0x400"
proof -
  define y where "y = x - 0x10000"
  have y: "unat y = unat x - 0x10000"
    using assms by (simp add: y_def unat_sub word_le_nat_alt)
  have div: "(unat x - 0x10000) div 0x400 < 0x400"
    using assms by (simp add: div_less_iff_less_mult)
  have mod: "(unat x - 0x10000) mod 0x400 < 0x400" by simp
  have "unat (signed_drop_bit 10 y) = (unat x - 0x10000) div 0x400"
    using assms y by (simp add: signed_drop_bit_unat)
  moreover have "unat (y AND 0x3FF) = (unat x - 0x10000) mod 0x400"
    using y unat_and_mask [of y 10] by (simp add: mask_numeral)
  ultimately show ?thesis
    using div mod
    by (simp add: u_mulle_utf32_convert_to_utf16_as_surrogatepair_def y_def [symmetric] Let_def
        unat_word_ariths unat_ucast_16)
qed

lemma decode_surrogatepair_unat:
  assumes "0xD800 \<le> unat hi" "unat hi < 0xDC00" "0xDC00 \<le> unat lo" "unat lo < 0xE000"
  shows "unat (mulle_utf16_decode_surrogatepair hi lo) =
    0x10000 + (unat hi - 0xD800) * 0x400 + (unat lo - 0xDC00)"
proof -
  define a where "a = (ucast hi - 0xD800 :: 32 word)"
  define b where "b = (ucast lo - 0xDC00 :: 32 word)"
  have "unat a = unat hi - 0xD800" "unat b = unat lo - 0xDC00"
    using assms by (simp_all add: a_def b_def unat_sub word_le_nat_alt unat_ucast_up)
  moreover have "mulle_utf16_decode_surrogatepair hi lo = 0x10000 + a * 0x400 + b"
    by (simp add: mulle_utf16_decode_surrogatepair_def a_def b_def Let_def push_bit_eq_mult)
  ultimately show ?thesis
    using assms by (simp add: unat_word_ariths)
qed

lemma decode_encode_surrogatepair:
  assumes "0x10000 \<le> unat x" and "unat x \<le> 0x10FFFF"
  obtains hi lo where "u_mulle_utf32_convert_to_utf16_as_surrogatepair x = [hi, lo]"
    and "0xD800 \<le> unat hi" "unat hi < 0xDC00" "0xDC00 \<le> unat lo" "unat lo < 0xE000"
    and "mulle_utf16_decode_surrogatepair hi lo = x"
proof -
  obtain hi lo where p: "u_mulle_utf32_convert_to_utf16_as_surrogatepair x = [hi, lo]"
    and hi: "unat hi = 0xD800 + (unat x - 0x10000) div 0x400"
    and lo: "unat lo = 0xDC00 + (unat x - 0x10000) mod 0x400"
    using surrogatepair_unat [OF assms] by blast
  have "(unat x - 0x10000) div 0x400 < 0x400"
    using assms by (simp add: div_less_iff_less_mult)
  then have b: "0xD800 \<le> unat hi" "unat hi < 0xDC00" "0xDC00 \<le> unat lo" "unat lo < 0xE000"
    using hi lo by simp_all
  have "unat (mulle_utf16_decode_surrogatepair hi lo) = unat x"
    using decode_surrogatepair_unat [OF b] hi lo assms
      div_mult_mod_eq [of "unat x - 0x10000" "0x400"] by simp
  with p b that show thesis by (simp add: unat_eq_iff)
qed

lemma encode_decode_surrogatepair:
  assumes "0xD800 \<le> unat hi" "unat hi < 0xDC00" "0xDC00 \<le> unat lo" "unat lo < 0xE000"
  shows "u_mulle_utf32_convert_to_utf16_as_surrogatepair (mulle_utf16_decode_surrogatepair hi lo) = [hi, lo]"
    and "0x10000 \<le> unat (mulle_utf16_decode_surrogatepair hi lo)"
    and "unat (mulle_utf16_decode_surrogatepair hi lo) \<le> 0x10FFFF"
proof -
  have u: "unat (mulle_utf16_decode_surrogatepair hi lo) =
    0x10000 + (unat hi - 0xD800) * 0x400 + (unat lo - 0xDC00)"
    by (rule decode_surrogatepair_unat [OF assms])
  with assms show lo: "0x10000 \<le> unat (mulle_utf16_decode_surrogatepair hi lo)"
    and hi: "unat (mulle_utf16_decode_surrogatepair hi lo) \<le> 0x10FFFF" by simp_all
  have y: "unat (mulle_utf16_decode_surrogatepair hi lo) - 0x10000 =
    (unat lo - 0xDC00) + (unat hi - 0xD800) * 0x400"
    using u by simp
  have "unat lo - 0xDC00 < 0x400" using assms by simp
  then have "(unat (mulle_utf16_decode_surrogatepair hi lo) - 0x10000) div 0x400 = unat hi - 0xD800"
    "(unat (mulle_utf16_decode_surrogatepair hi lo) - 0x10000) mod 0x400 = unat lo - 0xDC00"
    unfolding y by simp_all
  with surrogatepair_unat [OF lo hi] assms
  show "u_mulle_utf32_convert_to_utf16_as_surrogatepair (mulle_utf16_decode_surrogatepair hi lo) = [hi, lo]"
    by (auto simp: unat_eq_iff)
qed

end
