(* ===== verification/Utf_Text.thy ===== *)
theory Utf_Text
  imports Utf_Character
begin

text \<open>
  What the conversion routines of \<open>mulle-utf8.c\<close>, \<open>mulle-utf16.c\<close> and \<open>mulle-utf32.c\<close> have in common.
  A pair of \<open>src\<close> and \<open>len\<close> is the list of the code units from \<open>src\<close> up to the sentinel; a length of
  -1 asks for the zero terminated length. The routines that fill a temporary array and hand it to the
  callback \<open>addbytes\<close> are modelled by the sequence of the blocks they pass.

  Two contracts are stated as locales: \<open>text_converter\<close> for a conversion that consumes the encoding of
  one character after the other, and \<open>block_converter\<close> for the block-wise variant of a conversion.
\<close>

section \<open>Length arguments\<close>

text \<open>The search for the terminating zero; it has no result when the memory ends before.\<close>

fun unit_strlen :: "'a::len word list \<Rightarrow> size_t option" where
  "unit_strlen [] = None"
| "unit_strlen (u # us) = (if u = 0 then Some 0 else map_option (\<lambda>n. n + 1) (unit_strlen us))"

definition mulle_utf8_strlen :: "mulle_utf8_t list option \<Rightarrow> size_t option" where
  "mulle_utf8_strlen s = (case s of None \<Rightarrow> Some 0 | Some us \<Rightarrow> unit_strlen us)"

definition mulle_utf16_strlen :: "mulle_utf16_t list option \<Rightarrow> size_t option" where
  "mulle_utf16_strlen s = (case s of None \<Rightarrow> Some 0 | Some us \<Rightarrow> unit_strlen us)"

definition mulle_utf32_strlen :: "mulle_utf32_t list option \<Rightarrow> size_t option" where
  "mulle_utf32_strlen s = (case s of None \<Rightarrow> Some 0 | Some us \<Rightarrow> unit_strlen us)"

text \<open>The units between \<open>src\<close> and \<open>sentinel = &src[ len]\<close>.\<close>

definition text_window :: "'a list \<Rightarrow> size_t \<Rightarrow> 'a list option" where
  "text_window src len = (if unat len \<le> length src then Some (take (unat len) src) else None)"

lemma unit_strlen_window:
  "unit_strlen us = Some n \<Longrightarrow> length us < 2 ^ 64 \<Longrightarrow>
     text_window us n = Some (takeWhile (\<lambda>u. u \<noteq> 0) us)"
proof (induction us arbitrary: n)
  case (Cons u us)
  show ?case
  proof (cases "u = 0")
    case True
    with Cons.prems show ?thesis by (simp add: text_window_def)
  next
    case False
    then obtain m where m: "unit_strlen us = Some m" and n: "n = m + 1" using Cons.prems by auto
    from Cons.IH [OF m] Cons.prems have w: "text_window us m = Some (takeWhile (\<lambda>u. u \<noteq> 0) us)" by simp
    then have "unat m \<le> length us" by (simp add: text_window_def split: if_splits)
    then have "unat n = Suc (unat m)"
      using Cons.prems n unat64_add [of m 1] by simp
    with w False show ?thesis by (auto simp: text_window_def split: if_splits)
  qed
qed simp

lemma text_window_Some:
  "unat len = length us \<Longrightarrow> text_window us len = Some us"
  by (simp add: text_window_def)

lemma text_window_length:
  "text_window us len = Some w \<Longrightarrow> length w = unat len"
  by (auto simp: text_window_def split: if_splits)

section \<open>Converters that work character by character\<close>

text \<open>
  \<open>encode\<close> gives the code units of a character in the source encoding and \<open>emit\<close> those of the target
  encoding; \<open>convert\<close> is the loop over the source text.
\<close>

lemma append_fun: "(@) [] = (\<lambda>x. x)" "(@) (xs @ ys) = (\<lambda>zs. xs @ ys @ zs)" "(@) [x] = (#) x"
  by (simp_all add: fun_eq_iff)

locale text_converter =
  fixes encode :: "mulle_utf32_t \<Rightarrow> 'u list" and emit :: "mulle_utf32_t \<Rightarrow> 'v list"
    and convert :: "'u list \<Rightarrow> 'v list option" and good :: "mulle_utf32_t \<Rightarrow> bool"
  assumes convert_Nil: "convert [] = Some []"
    and convert_step: "good c \<Longrightarrow> convert (encode c @ us) = map_option ((@) (emit c)) (convert us)"
begin

lemma convert_append:
  "list_all good cs \<Longrightarrow>
     convert (concat (map encode cs) @ us) = map_option ((@) (concat (map emit cs))) (convert us)"
  by (induction cs) (simp_all add: convert_step option.map_comp comp_def option.map_ident append_fun)

lemma convert_text:
  "list_all good cs \<Longrightarrow> convert (concat (map encode cs)) = Some (concat (map emit cs))"
  using convert_append [of cs "[]"] by (simp add: convert_Nil)

end

section \<open>Blocks for the callback\<close>

text \<open>
  The temporary array is a list of the units written so far. A write behind its end is undefined.
\<close>

definition tmp_put :: "nat \<Rightarrow> 'v list \<Rightarrow> 'v list \<Rightarrow> 'v list option" where
  "tmp_put cap tmp vs = (if length tmp + length vs \<le> cap then Some (tmp @ vs) else None)"

definition tmp_flush :: "'v list \<Rightarrow> 'v list list" where
  "tmp_flush tmp = (if tmp \<noteq> [] then [tmp] else [])"

lemma concat_tmp_flush [simp]: "concat (tmp_flush tmp) = tmp"
  by (simp add: tmp_flush_def)

lemma set_tmp_flush: "b \<in> set (tmp_flush tmp) \<Longrightarrow> b = tmp \<and> tmp \<noteq> []"
  by (simp add: tmp_flush_def split: if_splits)

text \<open>What the block-wise variant of a conversion promises.\<close>

definition blocks_of :: "nat \<Rightarrow> 'v list \<Rightarrow> 'v list list \<Rightarrow> bool" where
  "blocks_of cap vs bs \<longleftrightarrow> concat bs = vs \<and> (\<forall>b\<in>set bs. b \<noteq> [] \<and> length b \<le> cap)"

lemma blocks_of_flush: "length tmp \<le> cap \<Longrightarrow> blocks_of cap tmp (tmp_flush tmp)"
  by (auto simp: blocks_of_def dest: set_tmp_flush)

lemma blocks_of_append:
  "blocks_of cap vs as \<Longrightarrow> blocks_of cap ws bs \<Longrightarrow> blocks_of cap (vs @ ws) (as @ bs)"
  by (auto simp: blocks_of_def)

text \<open>The flush in front of a character, when less than the longest encoding is left in the array.\<close>

definition tmp_preflush :: "nat \<Rightarrow> 'v list \<Rightarrow> 'v list list \<times> 'v list" where
  "tmp_preflush limit tmp = (if limit \<le> length tmp then ([tmp], []) else ([], tmp))"

text \<open>The flush behind a character, when the array is full.\<close>

definition tmp_postflush :: "nat \<Rightarrow> 'v list \<Rightarrow> 'v list list \<times> 'v list" where
  "tmp_postflush cap tmp = (if length tmp = cap then ([tmp], []) else ([], tmp))"

text \<open>
  One iteration of the block-wise loop \<open>blocks\<close> consumes what one iteration of \<open>convert\<close> consumes and
  leaves the array with room for another one.
\<close>

locale block_converter =
  fixes convert :: "'u list \<Rightarrow> 'v list option" and blocks :: "'u list \<Rightarrow> 'v list \<Rightarrow> 'v list list option"
    and cap :: nat and room :: "'v list \<Rightarrow> bool"
  assumes room_cap: "room tmp \<Longrightarrow> length tmp \<le> cap"
    and room_Nil: "room []"
    and converter_Nil: "convert [] = Some []"
    and blocks_Nil: "blocks [] tmp = Some (tmp_flush tmp)"
    and blocks_step: "us \<noteq> [] \<Longrightarrow> room tmp \<Longrightarrow>
      \<exists>pre new vs us'. length us' < length us \<and> room new \<and>
        convert us = map_option ((@) vs) (convert us') \<and>
        blocks us tmp = map_option ((@) pre) (blocks us' new) \<and>
        concat pre @ new = tmp @ vs \<and> blocks_of cap (concat pre) pre"
begin

lemma blocks_loop:
  "room tmp \<Longrightarrow> \<exists>vs bs. convert us = Some vs \<and> blocks us tmp = Some bs \<and> blocks_of cap (tmp @ vs) bs"
proof (induction us arbitrary: tmp rule: length_induct)
  case (1 us)
  show ?case
  proof (cases "us = []")
    case True
    with 1 show ?thesis
      using blocks_of_flush [OF room_cap] by (simp add: converter_Nil blocks_Nil)
  next
    case False
    from blocks_step [OF this 1(2)] obtain pre new vs us' where
      less: "length us' < length us" and room: "room new"
      and conv: "convert us = map_option ((@) vs) (convert us')"
      and bl: "blocks us tmp = map_option ((@) pre) (blocks us' new)"
      and eq: "concat pre @ new = tmp @ vs" and pre: "blocks_of cap (concat pre) pre" by blast
    from 1(1) less room obtain ws bs where
      "convert us' = Some ws" "blocks us' new = Some bs" "blocks_of cap (new @ ws) bs" by blast
    with conv bl pre show ?thesis
      using blocks_of_append [of cap "concat pre" pre "new @ ws" bs] eq by (simp flip: append_assoc)
  qed
qed

lemma blocks_text: "\<exists>vs bs. convert us = Some vs \<and> blocks us [] = Some bs \<and> blocks_of cap vs bs"
  using blocks_loop [OF room_Nil] by simp

end

text \<open>The two flushing disciplines give the room one iteration needs.\<close>

lemma preflush_step:
  assumes "length tmp \<le> limit + k" and "length vs \<le> k" and "limit + k \<le> cap" and "0 < limit"
  shows "\<exists>pre old. tmp_preflush limit tmp = (pre, old) \<and> concat pre @ old = tmp \<and>
    blocks_of cap (concat pre) pre \<and> tmp_put cap old vs = Some (old @ vs) \<and> length (old @ vs) \<le> limit + k"
  using assms by (auto simp: tmp_preflush_def tmp_put_def blocks_of_def)

lemma postflush_step:
  assumes "length tmp < cap"
  shows "\<exists>pre new. tmp_put cap tmp [v] = Some (tmp @ [v]) \<and> tmp_postflush cap (tmp @ [v]) = (pre, new) \<and>
    concat pre @ new = tmp @ [v] \<and> blocks_of cap (concat pre) pre \<and> length new < cap"
  using assms by (auto simp: tmp_postflush_def tmp_put_def blocks_of_def)

end
