(* ===== verification/Fnv1a.thy ===== *)
theory Fnv1a
  imports Mulle_Prelude
begin

text \<open>
  The FNV-1a hash of \<open>mulle-fnv1a.h\<close> and \<open>mulle-fnv1a.c\<close> over a buffer of bytes, in 32 and 64 bits.
\<close>

definition MULLE_FNV1A_32_INIT :: uint32_t where "MULLE_FNV1A_32_INIT = 0x811c9dc5"
definition MULLE_FNV1A_64_INIT :: uint64_t where "MULLE_FNV1A_64_INIT = 0xcbf29ce484222325"
definition MULLE_FNV1A_32_PRIME :: uint32_t where "MULLE_FNV1A_32_PRIME = 0x01000193"
definition MULLE_FNV1A_64_PRIME :: uint64_t where "MULLE_FNV1A_64_PRIME = 0x0100000001b3"

definition u_mulle_fnv1a_step_32 :: "uint32_t \<Rightarrow> uint8_t \<Rightarrow> uint32_t" where
  "u_mulle_fnv1a_step_32 hash val = (hash XOR ucast val) * MULLE_FNV1A_32_PRIME"

definition u_mulle_fnv1a_step_64 :: "uint64_t \<Rightarrow> uint8_t \<Rightarrow> uint64_t" where
  "u_mulle_fnv1a_step_64 hash val = (hash XOR ucast val) * MULLE_FNV1A_64_PRIME"

fun u_mulle_fnv1a_chained_32 :: "uint8_t list \<Rightarrow> uint32_t \<Rightarrow> uint32_t" where
  "u_mulle_fnv1a_chained_32 [] hash = hash"
| "u_mulle_fnv1a_chained_32 (s # buf) hash =
     u_mulle_fnv1a_chained_32 buf ((hash XOR ucast s) * MULLE_FNV1A_32_PRIME)"

fun u_mulle_fnv1a_chained_64 :: "uint8_t list \<Rightarrow> uint64_t \<Rightarrow> uint64_t" where
  "u_mulle_fnv1a_chained_64 [] hash = hash"
| "u_mulle_fnv1a_chained_64 (s # buf) hash =
     u_mulle_fnv1a_chained_64 buf ((hash XOR ucast s) * MULLE_FNV1A_64_PRIME)"

definition u_mulle_fnv1a_32 :: "uint8_t list \<Rightarrow> uint32_t" where
  "u_mulle_fnv1a_32 buf = u_mulle_fnv1a_chained_32 buf MULLE_FNV1A_32_INIT"

definition u_mulle_fnv1a_64 :: "uint8_t list \<Rightarrow> uint64_t" where
  "u_mulle_fnv1a_64 buf = u_mulle_fnv1a_chained_64 buf MULLE_FNV1A_64_INIT"

text \<open>Hashing in pieces gives the hash of the whole, and a step is the hash of one byte.\<close>

lemma fnv1a_chained_append:
  "u_mulle_fnv1a_chained_32 (as @ bs) h = u_mulle_fnv1a_chained_32 bs (u_mulle_fnv1a_chained_32 as h)"
  "u_mulle_fnv1a_chained_64 (as @ bs) g = u_mulle_fnv1a_chained_64 bs (u_mulle_fnv1a_chained_64 as g)"
  by (induction as arbitrary: h g) simp_all

lemma fnv1a_chained_fold:
  "u_mulle_fnv1a_chained_32 buf h = fold (\<lambda>c h. u_mulle_fnv1a_step_32 h c) buf h"
  "u_mulle_fnv1a_chained_64 buf g = fold (\<lambda>c h. u_mulle_fnv1a_step_64 h c) buf g"
  by (induction buf arbitrary: h g)
    (simp_all add: u_mulle_fnv1a_step_32_def u_mulle_fnv1a_step_64_def)

end
