(* ===== verification/Char5.thy ===== *)
theory Char5
  imports Utf_Text Fnv1a
begin

text \<open>
  The five bit characters of \<open>mulle-char5.c\<close> and \<open>mulle-char5.h\<close>: the lookup table, the packing of
  strings of up to 6 and 12 characters into a 32 and a 64 bit word and the operations on packed
  strings. \<open>char\<close> is signed, as on x86-64; an \<open>int\<close> argument is a 32 bit word.
\<close>

section \<open>Characters\<close>

definition mulle_char5_lookup_table :: "int list" where
  "mulle_char5_lookup_table =
   [ 0, -1, -1, -1,  -1, -1, -1, -1,
    -1, -1, -1, -1,  -1, -1, -1, -1,
    -1, -1, -1, -1,  -1, -1, -1, -1,
    -1, -1, -1, -1,  -1, -1, -1, -1,
    -1, -1, -1, -1,  -1, -1, -1, -1,
    -1, -1, -1, -1,  -1, -1,  1, -1,
    -1, -1, -1, -1,  -1, -1, -1, -1,
    -1, -1, -1, -1,  -1, -1, -1, -1,
    -1,  2, -1,  3,   4,  5, -1, -1,
    -1,  6, -1, -1,  -1, -1,  7,  8,
     9, -1, -1, 10,  11, -1, -1, -1,
    -1, -1, -1, -1,  -1, -1, -1, 12,
    -1, 13, 14, 15,  16, 17, 18, 19,
    20, 21, -1, -1,  22, 23, 24, 25,
    26, -1, 27, 28,  29, 30, -1, -1,
    -1, 31, -1, -1,  -1, -1, -1, -1]"

text \<open>The switch over the characters that have a code.\<close>

definition char5_cases :: "(char \<times> int) list" where
  "char5_cases =
   [(CHR 0x00, 0), (CHR ''.'', 1), (CHR ''A'', 2), (CHR ''C'', 3),
    (CHR ''D'', 4), (CHR ''E'', 5), (CHR ''I'', 6), (CHR ''N'', 7),
    (CHR ''O'', 8), (CHR ''P'', 9), (CHR ''S'', 10), (CHR ''T'', 11),
    (CHR ''_'', 12), (CHR ''a'', 13), (CHR ''b'', 14), (CHR ''c'', 15),
    (CHR ''d'', 16), (CHR ''e'', 17), (CHR ''f'', 18), (CHR ''g'', 19),
    (CHR ''h'', 20), (CHR ''i'', 21), (CHR ''l'', 22), (CHR ''m'', 23),
    (CHR ''n'', 24), (CHR ''o'', 25), (CHR ''p'', 26), (CHR ''r'', 27),
    (CHR ''s'', 28), (CHR ''t'', 29), (CHR ''u'', 30), (CHR ''y'', 31)]"

definition mulle_char5_encode_character :: "32 word \<Rightarrow> int" where
  "mulle_char5_encode_character c =
     (case find (\<lambda>p. of_char (fst p) = c) char5_cases of None \<Rightarrow> -1 | Some p \<Rightarrow> snd p)"

definition mulle_char5_lookup_character :: "32 word \<Rightarrow> int" where
  "mulle_char5_lookup_character c =
     (if (scast c :: size_t) < 128 then mulle_char5_lookup_table ! unat c else -1)"

definition mulle_utf8_is_char5character :: "mulle_utf8_t \<Rightarrow> bool" where
  "mulle_utf8_is_char5character c = (0 \<le> mulle_char5_lookup_character (scast c))"

definition mulle_utf16_is_char5character :: "mulle_utf16_t \<Rightarrow> bool" where
  "mulle_utf16_is_char5character c = (0 \<le> mulle_char5_lookup_character (ucast c))"

definition mulle_utf32_is_char5character :: "mulle_utf32_t \<Rightarrow> bool" where
  "mulle_utf32_is_char5character c = (0 \<le> mulle_char5_lookup_character c)"

definition mulle_char5_maxlength32 :: size_t where "mulle_char5_maxlength32 = 6"
definition mulle_char5_maxlength64 :: size_t where "mulle_char5_maxlength64 = 12"

definition mulle_char5_get_maxlength :: size_t where
  "mulle_char5_get_maxlength = mulle_char5_maxlength64"

definition mulle_char5_get_charset :: "mulle_utf8_t list" where
  "mulle_char5_get_charset =
     map of_char (CHR 0x00 # ''.ACDEINOPST_abcdefghilmnoprstuy'' @ [CHR 0x00])"

text \<open>The index is a value of 5 bits, so the table is read within its bounds.\<close>

definition mulle_char5_decode_character :: "nat \<Rightarrow> mulle_utf8_t" where
  "mulle_char5_decode_character c = mulle_char5_get_charset ! c"

section \<open>Packing\<close>

fun char5string_loop :: "mulle_utf8_t list \<Rightarrow> bool" where
  "char5string_loop [] = True"
| "char5string_loop (c # cs) =
     (let char5 = mulle_char5_lookup_character (scast c)
      in if char5 = 0 then False else if char5 = -1 then False else char5string_loop cs)"

definition mulle_char5_is_char5string32 :: "mulle_utf8_t list option \<Rightarrow> size_t \<Rightarrow> bool option" where
  "mulle_char5_is_char5string32 src len = (case src of None \<Rightarrow> Some False | Some s \<Rightarrow> do {
     len \<leftarrow> (if len = -1 then mulle_utf8_strlen src else Some len);
     if len > mulle_char5_maxlength32 then Some False
     else map_option char5string_loop (text_window s len) })"

definition mulle_char5_is_char5string64 :: "mulle_utf8_t list option \<Rightarrow> size_t \<Rightarrow> bool option" where
  "mulle_char5_is_char5string64 src len = (case src of None \<Rightarrow> Some False | Some s \<Rightarrow> do {
     len \<leftarrow> (if len = -1 then mulle_utf8_strlen src else Some len);
     if len > mulle_char5_maxlength64 then Some False
     else map_option char5string_loop (text_window s len) })"

text \<open>The loop runs from the last character to the first one.\<close>

definition char5_shift_in :: "int \<Rightarrow> 'a::len word \<Rightarrow> 'a word" where
  "char5_shift_in char5 val = push_bit 5 val OR word_of_int char5"

definition mulle_char5_encode32 :: "mulle_utf8_t list \<Rightarrow> size_t \<Rightarrow> uint32_t option" where
  "mulle_char5_encode32 src len = do {
     len \<leftarrow> (if len = -1 then mulle_utf8_strlen (Some src) else Some len);
     w \<leftarrow> text_window src len;
     Some (foldr (\<lambda>c. char5_shift_in (mulle_char5_lookup_character (scast c))) w 0) }"

definition mulle_char5_encode64 :: "mulle_utf8_t list \<Rightarrow> size_t \<Rightarrow> uint64_t option" where
  "mulle_char5_encode64 src len = do {
     len \<leftarrow> (if len = -1 then mulle_utf8_strlen (Some src) else Some len);
     w \<leftarrow> text_window src len;
     Some (foldr (\<lambda>c. char5_shift_in (mulle_char5_lookup_character (scast c))) w 0) }"

definition mulle_char5_encode32_utf16 :: "mulle_utf16_t list \<Rightarrow> size_t \<Rightarrow> uint32_t option" where
  "mulle_char5_encode32_utf16 src len = do {
     len \<leftarrow> (if len = -1 then mulle_utf16_strlen (Some src) else Some len);
     w \<leftarrow> text_window src len;
     Some (foldr (\<lambda>c. char5_shift_in (mulle_char5_lookup_character (ucast c))) w 0) }"

definition mulle_char5_encode64_utf16 :: "mulle_utf16_t list \<Rightarrow> size_t \<Rightarrow> uint64_t option" where
  "mulle_char5_encode64_utf16 src len = do {
     len \<leftarrow> (if len = -1 then mulle_utf16_strlen (Some src) else Some len);
     w \<leftarrow> text_window src len;
     Some (foldr (\<lambda>c. char5_shift_in (mulle_char5_lookup_character (ucast c))) w 0) }"

definition mulle_char5_encode32_utf32 :: "mulle_utf32_t list \<Rightarrow> size_t \<Rightarrow> uint32_t option" where
  "mulle_char5_encode32_utf32 src len = do {
     len \<leftarrow> (if len = -1 then mulle_utf32_strlen (Some src) else Some len);
     w \<leftarrow> text_window src len;
     Some (foldr (\<lambda>c. char5_shift_in (mulle_char5_lookup_character c)) w 0) }"

definition mulle_char5_encode64_utf32 :: "mulle_utf32_t list \<Rightarrow> size_t \<Rightarrow> uint64_t option" where
  "mulle_char5_encode64_utf32 src len = do {
     len \<leftarrow> (if len = -1 then mulle_utf32_strlen (Some src) else Some len);
     w \<leftarrow> text_window src len;
     Some (foldr (\<lambda>c. char5_shift_in (mulle_char5_lookup_character c)) w 0) }"

section \<open>Unpacking\<close>

text \<open>The characters written to \<open>dst\<close>; their number is what the function returns.\<close>

primrec char5_decode_loop :: "nat \<Rightarrow> 'a::len word \<Rightarrow> mulle_utf8_t list" where
  "char5_decode_loop 0 val = []"
| "char5_decode_loop (Suc n) val =
     (if val = 0 then []
      else mulle_char5_decode_character (unat (val AND 0x1F)) # char5_decode_loop n (drop_bit 5 val))"

definition mulle_char5_decode32 :: "uint32_t \<Rightarrow> size_t \<Rightarrow> mulle_utf8_t list" where
  "mulle_char5_decode32 val len = char5_decode_loop (unat len) val"

definition mulle_char5_decode64 :: "uint64_t \<Rightarrow> size_t \<Rightarrow> mulle_utf8_t list" where
  "mulle_char5_decode64 val len = char5_decode_loop (unat len) val"

primrec char5_get_loop :: "nat \<Rightarrow> 'a::len word \<Rightarrow> nat" where
  "char5_get_loop 0 val = unat (val AND 0x1F)"
| "char5_get_loop (Suc n) val = char5_get_loop n (drop_bit 5 val)"

definition mulle_char5_get64 :: "uint64_t \<Rightarrow> size_t \<Rightarrow> mulle_utf8_t" where
  "mulle_char5_get64 val index = mulle_char5_decode_character (char5_get_loop (unat index) val)"

definition mulle_char5_get32 :: "uint32_t \<Rightarrow> size_t \<Rightarrow> mulle_utf8_t" where
  "mulle_char5_get32 val index = mulle_char5_decode_character (char5_get_loop (unat index) val)"

definition mulle_char5_next64 :: "uint64_t \<Rightarrow> mulle_utf8_t \<times> uint64_t" where
  "mulle_char5_next64 val = (mulle_char5_decode_character (unat (val AND 0x1F)), drop_bit 5 val)"

definition mulle_char5_next32 :: "uint32_t \<Rightarrow> mulle_utf8_t \<times> uint32_t" where
  "mulle_char5_next32 val = (mulle_char5_decode_character (unat (val AND 0x1F)), drop_bit 5 val)"

section \<open>Length and substrings\<close>

lemma unat_drop5: "unat (drop_bit 5 (val :: 'a::len word)) = unat val div 32"
  by (simp add: unat_drop_bit_eq drop_bit_eq_div [where 'a = nat])

function char5_strlen_loop :: "'a::len word \<Rightarrow> size_t \<Rightarrow> size_t" where
  "char5_strlen_loop val len = (if val = 0 then len else char5_strlen_loop (drop_bit 5 val) (len + 1))"
  by pat_completeness auto
termination
  by (relation "measure (\<lambda>(val, _). unat val)") (auto simp: unat_drop5 unat_gt_0)

declare char5_strlen_loop.simps [simp del]

definition mulle_char5_strlen64 :: "uint64_t \<Rightarrow> size_t" where
  "mulle_char5_strlen64 val = char5_strlen_loop val 0"

definition mulle_char5_strlen32 :: "uint32_t \<Rightarrow> size_t" where
  "mulle_char5_strlen32 val = char5_strlen_loop val 0"

definition mulle_char5_fstrlen64 :: "uint64_t \<Rightarrow> size_t" where
  "mulle_char5_fstrlen64 val =
     (let msk = NOT 0x3FFFFFFF; len = 0;
          (len, val) = (if val AND msk \<noteq> 0 then (6, drop_bit 30 val) else (len, val));
          msk = drop_bit 15 msk;
          (len, val) = (if val AND msk \<noteq> 0 then (len + 3, drop_bit 15 val) else (len, val));
          msk = drop_bit 10 msk;
          (len, val) = (if val AND msk \<noteq> 0 then (len + 2, drop_bit 10 val) else (len, val))
      in len + (if val > 0x1F then 2 else if val \<noteq> 0 then 1 else 0))"

definition mulle_char5_fstrlen32 :: "uint32_t \<Rightarrow> size_t" where
  "mulle_char5_fstrlen32 val =
     (let msk = NOT 0x7FFF; len = 0;
          (len, val) = (if val AND msk \<noteq> 0 then (3, drop_bit 15 val) else (len, val));
          msk = drop_bit 10 msk;
          (len, val) = (if val AND msk \<noteq> 0 then (len + 2, drop_bit 10 val) else (len, val))
      in len + (if val > 0x1F then 2 else if val \<noteq> 0 then 1 else 0))"

text \<open>A shift by the width of the type or more is undefined.\<close>

definition mulle_char5_substring64 :: "uint64_t \<Rightarrow> size_t \<Rightarrow> size_t \<Rightarrow> uint64_t option" where
  "mulle_char5_substring64 val location len =
     (if location * 5 < 64 \<and> len * 5 < 64
      then Some (drop_bit (unat (location * 5)) val AND NOT (push_bit (unat (len * 5)) (NOT 0)))
      else None)"

definition mulle_char5_substring32 :: "uint32_t \<Rightarrow> size_t \<Rightarrow> size_t \<Rightarrow> uint32_t option" where
  "mulle_char5_substring32 val location len =
     (if location * 5 < 32 \<and> len * 5 < 32
      then Some (drop_bit (unat (location * 5)) val AND NOT (push_bit (unat (len * 5)) (NOT 0)))
      else None)"

section \<open>Hash of a packed string\<close>

function char5_fnv1a_32_loop :: "uint32_t \<Rightarrow> uint32_t \<Rightarrow> uint32_t" where
  "char5_fnv1a_32_loop val hash =
     (if val = 0 then hash
      else char5_fnv1a_32_loop (drop_bit 5 val)
             ((hash XOR scast (mulle_char5_decode_character (unat (val AND 0x1F)))) * 0x01000193))"
  by pat_completeness auto
termination
  by (relation "measure (\<lambda>(val, _). unat val)") (auto simp: unat_drop5 unat_gt_0)

function char5_fnv1a_64_loop :: "uint64_t \<Rightarrow> uint64_t \<Rightarrow> uint64_t" where
  "char5_fnv1a_64_loop val hash =
     (if val = 0 then hash
      else char5_fnv1a_64_loop (drop_bit 5 val)
             ((hash XOR scast (mulle_char5_decode_character (unat (val AND 0x1F)))) * 0x0100000001b3))"
  by pat_completeness auto
termination
  by (relation "measure (\<lambda>(val, _). unat val)") (auto simp: unat_drop5 unat_gt_0)

declare char5_fnv1a_32_loop.simps [simp del] char5_fnv1a_64_loop.simps [simp del]

definition u_mulle_char5_fnv1a_32 :: "uint32_t \<Rightarrow> uint32_t" where
  "u_mulle_char5_fnv1a_32 val = char5_fnv1a_32_loop val 0x811c9dc5"

definition u_mulle_char5_fnv1a_64 :: "uint64_t \<Rightarrow> uint64_t" where
  "u_mulle_char5_fnv1a_64 val = char5_fnv1a_64_loop val 0xcbf29ce484222325"

section \<open>The code table\<close>

lemma charset_eval:
  "mulle_char5_get_charset =
   [0, 0x2E, 0x41, 0x43, 0x44, 0x45, 0x49, 0x4E, 0x4F, 0x50, 0x53, 0x54, 0x5F, 0x61, 0x62, 0x63,
    0x64, 0x65, 0x66, 0x67, 0x68, 0x69, 0x6C, 0x6D, 0x6E, 0x6F, 0x70, 0x72, 0x73, 0x74, 0x75, 0x79, 0]"
  by (simp add: mulle_char5_get_charset_def)

lemma scast_nonneg:
  "unat (c :: 'a::len word) < 2 ^ (LENGTH('a) - 1) \<Longrightarrow> (scast c :: 'b::len word) = of_nat (unat c)"
  by (simp add: scast_eq sint_unat)

lemma uint_word_of_neg:
  assumes "0 < n" and "n < 2 ^ LENGTH('b)"
  shows "uint (word_of_int (- n) :: 'b::len word) = 2 ^ LENGTH('b) - n"
proof -
  have "(- n) mod 2 ^ LENGTH('b) = 2 ^ LENGTH('b) - n"
    using assms by (simp add: zmod_zminus1_eq_if)
  then show ?thesis by (simp only: uint_word_of_int)
qed

lemma scast_byte:
  "unat (c :: 8 word) < 128 \<Longrightarrow> unat (scast c :: 32 word) = unat c"
  "128 \<le> unat (c :: 8 word) \<Longrightarrow> 128 \<le> unat (scast c :: 32 word)"
proof -
  show "unat c < 128 \<Longrightarrow> unat (scast c :: 32 word) = unat c"
    by (simp add: scast_nonneg unat_of_nat del: of_nat_unat)
  assume c: "128 \<le> unat c"
  define n where "n = 2 ^ 8 - int (unat c)"
  have n: "0 < n" "n \<le> 128" using c unat8_less [of c] by (simp_all add: n_def del: of_nat_unat)
  have "(scast c :: 32 word) = word_of_int (- n)"
    using c by (simp add: scast_eq sint_unat n_def)
  then have "uint (scast c :: 32 word) = 2 ^ 32 - n"
    using uint_word_of_neg [of n, where 'b = 32] n by simp
  with n show "128 \<le> unat (scast c :: 32 word)"
    by (simp add: unat_eq_nat_uint)
qed

lemma scast_int:
  "(scast (c :: 32 word) :: 64 word) < 128 \<longleftrightarrow> unat c < 128"
proof (cases "unat c < 2 ^ 31")
  case True
  then show ?thesis
    using unat64_of_nat [of "unat c"] unat32_less [of c]
    by (simp add: scast_nonneg word_less_nat_alt del: of_nat_unat)
next
  case False
  define n where "n = 2 ^ 32 - int (unat c)"
  have n: "0 < n" "n \<le> 2 ^ 31"
    using False unat32_less [of c] by (simp_all add: n_def del: of_nat_unat)
  have "(scast c :: 64 word) = word_of_int (- n)"
    using False by (simp add: scast_eq sint32 n_def)
  then have "uint (scast c :: 64 word) = 2 ^ 64 - n"
    using uint_word_of_neg [of n, where 'b = 64] n by simp
  with n False show ?thesis by (simp add: word_less_def)
qed

lemma lookup_unat:
  "mulle_char5_lookup_character c = (if unat c < 128 then mulle_char5_lookup_table ! unat c else -1)"
  by (simp add: mulle_char5_lookup_character_def scast_int)

lemma lookup_table_codes:
  assumes "n < 128"
  shows "mulle_char5_lookup_table ! n = -1 \<or> mulle_char5_lookup_table ! n = 0 \<and> n = 0 \<or>
    0 < mulle_char5_lookup_table ! n \<and> mulle_char5_lookup_table ! n < 32 \<and> 0 < n \<and>
    mulle_char5_decode_character (nat (mulle_char5_lookup_table ! n)) = of_nat n"
proof -
  have "list_all (\<lambda>(n, k). k = -1 \<or> k = 0 \<and> n = 0 \<or> 0 < k \<and> k < 32 \<and> 0 < n \<and>
      mulle_char5_get_charset ! nat k = of_nat n) (zip [0..<128] mulle_char5_lookup_table)"
    unfolding charset_eval mulle_char5_lookup_table_def by code_simp
  then show ?thesis
    using assms
    by (auto simp: list_all_length mulle_char5_decode_character_def mulle_char5_lookup_table_def)
qed

text \<open>A character that has a code and is not zero.\<close>

definition is_char5 :: "mulle_utf8_t \<Rightarrow> bool" where
  "is_char5 c = (0 < mulle_char5_lookup_character (scast c))"

lemma is_char5_code:
  assumes "is_char5 c"
  shows "unat c < 128" and "c \<noteq> 0" and "mulle_char5_lookup_character (scast c) < 32"
    and "mulle_char5_decode_character (nat (mulle_char5_lookup_character (scast c))) = c"
proof -
  show c: "unat c < 128"
    using assms scast_byte(2) [of c] by (fastforce simp: is_char5_def lookup_unat split: if_splits)
  have "unat (scast c :: 32 word) = unat c" by (rule scast_byte(1) [OF c])
  with assms c lookup_table_codes [OF c]
  show "c \<noteq> 0" and "mulle_char5_lookup_character (scast c) < 32"
    and "mulle_char5_decode_character (nat (mulle_char5_lookup_character (scast c))) = c"
    by (auto simp: is_char5_def lookup_unat)
qed

lemma not_is_char5:
  "\<not> is_char5 c \<Longrightarrow> mulle_char5_lookup_character (scast c) = 0 \<or> mulle_char5_lookup_character (scast c) = -1"
  using lookup_table_codes [of "unat (scast c :: 32 word)"] by (auto simp: is_char5_def lookup_unat)

lemma char5string_loop_iff: "char5string_loop w \<longleftrightarrow> list_all is_char5 w"
proof (induction w)
  case (Cons c w)
  then show ?case using not_is_char5 [of c] by (auto simp: Let_def is_char5_def)
qed simp

lemma char5_cases_eval:
  "map (\<lambda>p. (of_char (fst p) :: 32 word, snd p)) char5_cases =
   [(0, 0), (0x2E, 1), (0x41, 2), (0x43, 3), (0x44, 4), (0x45, 5), (0x49, 6), (0x4E, 7),
    (0x4F, 8), (0x50, 9), (0x53, 10), (0x54, 11), (0x5F, 12), (0x61, 13), (0x62, 14), (0x63, 15),
    (0x64, 16), (0x65, 17), (0x66, 18), (0x67, 19), (0x68, 20), (0x69, 21), (0x6C, 22), (0x6D, 23),
    (0x6E, 24), (0x6F, 25), (0x70, 26), (0x72, 27), (0x73, 28), (0x74, 29), (0x75, 30), (0x79, 31)]"
  by (simp add: char5_cases_def)

lemma find_map_pair:
  "(case find (\<lambda>p. f (fst p) = c) ps of None \<Rightarrow> d | Some p \<Rightarrow> snd p) =
   (case map_of (map (\<lambda>p. (f (fst p), snd p)) ps) c of None \<Rightarrow> d | Some k \<Rightarrow> k)"
  by (induction ps) auto

lemma lookup_encode_character: "mulle_char5_lookup_character c = mulle_char5_encode_character c"
proof -
  define ps where "ps = map (\<lambda>p. (of_char (fst p) :: 32 word, snd p)) char5_cases"
  have codes: "list_all (\<lambda>(d, k). mulle_char5_lookup_character d = k \<and> 0 \<le> k) ps"
    unfolding ps_def char5_cases_eval by (simp add: lookup_unat mulle_char5_lookup_table_def)
  have all_codes: "list_all (\<lambda>(n, k). k = -1 \<or> (of_nat n, k) \<in> set ps) (zip [0..<128] mulle_char5_lookup_table)"
    unfolding ps_def char5_cases_eval mulle_char5_lookup_table_def by code_simp
  have enc: "mulle_char5_encode_character c = (case map_of ps c of None \<Rightarrow> -1 | Some k \<Rightarrow> k)"
    by (simp add: mulle_char5_encode_character_def find_map_pair ps_def)
  show ?thesis
  proof (cases "map_of ps c")
    case None
    have "mulle_char5_lookup_character c = -1"
    proof (cases "unat c < 128")
      case True
      with all_codes have "mulle_char5_lookup_table ! unat c = -1 \<or> (c, mulle_char5_lookup_table ! unat c) \<in> set ps"
        by (auto simp: list_all_length mulle_char5_lookup_table_def dest!: spec [of _ "unat c"])
      with None True show ?thesis by (force simp: lookup_unat map_of_eq_None_iff)
    qed (simp add: lookup_unat)
    with None show ?thesis by (simp add: enc)
  next
    case (Some k)
    then have "(c, k) \<in> set ps" by (rule map_of_SomeD)
    with codes Some show ?thesis by (auto simp: enc list_all_iff)
  qed
qed

section \<open>Packed strings as numbers in base 32\<close>

lemma unat_push5:
  "32 * unat val < 2 ^ LENGTH('a) \<Longrightarrow> unat (push_bit 5 (val :: 'a::len word)) = 32 * unat val"
  unfolding unsigned_push_bit_eq
  by (simp add: push_bit_eq_mult [where 'a = nat] take_bit_nat_eq_self mult.commute)

lemma unat_or_disjoint:
  assumes "unat (a :: 'a::len word) = q * 2 ^ k" and "unat b < 2 ^ k"
  shows "unat (a OR b) = unat a + unat b"
proof -
  have "unat a = push_bit k q" using assms by (simp add: push_bit_eq_mult)
  moreover have "unat b = take_bit k (unat b)"
    using assms(2) by (simp add: take_bit_nat_eq_self)
  ultimately have "unat a AND unat b = push_bit k q AND take_bit k (unat b)" by simp
  also have "\<dots> = 0"
    by (rule bit_eqI) (auto simp: bit_and_iff bit_push_bit_iff bit_take_bit_iff)
  finally show ?thesis
    by (simp only: unsigned_or_eq disjunctive_add_eq_or)
qed

lemma char5_shift_in_unat:
  assumes "32 * unat val + 31 < 2 ^ LENGTH('a)" and "0 \<le> k" and "k < 32"
  shows "unat (char5_shift_in k (val :: 'a::len word)) = 32 * unat val + nat k"
proof -
  have "31 < (2 :: nat) ^ LENGTH('a)" using assms(1) by linarith
  then have "int 31 < int (2 ^ LENGTH('a))" by (simp only: of_nat_less_iff)
  then have "k < 2 ^ LENGTH('a)" using assms(3) by simp
  then have "k mod 2 ^ LENGTH('a) = k" using assms(2) by (rule mod_pos_pos_trivial [rotated])
  then have k: "unat (word_of_int k :: 'a word) = nat k"
    by (simp only: unat_eq_nat_uint uint_word_of_int)
  then have "unat (push_bit 5 val OR word_of_int k) = unat (push_bit 5 val) + unat (word_of_int k :: 'a word)"
    using assms by (intro unat_or_disjoint [where k = 5 and q = "unat val"]) (simp_all add: unat_push5)
  with k assms show ?thesis by (simp add: char5_shift_in_def unat_push5)
qed

lemma char5_shift_in_parts:
  assumes "32 * unat val + 31 < 2 ^ LENGTH('a)" and "0 < k" and "k < 32"
  defines "v \<equiv> char5_shift_in k (val :: 'a::len word)"
  shows "v \<noteq> 0" and "drop_bit 5 v = val" and "unat (v AND 0x1F) = nat k"
proof -
  have u: "unat v = 32 * unat val + nat k"
    unfolding v_def using assms by (intro char5_shift_in_unat) simp_all
  with assms(2) show "v \<noteq> 0" by auto
  show "drop_bit 5 v = val"
    using u assms(2,3) by (intro unat_eq_iff [THEN iffD2]) (simp add: unat_drop5)
  show "unat (v AND 0x1F) = nat k"
    using u assms(2,3) unat_and_mask [of v 5] by (simp add: mask_numeral)
qed

text \<open>The value the packing loop computes, with the code of a character as parameter.\<close>

definition char5_pack :: "mulle_utf8_t list \<Rightarrow> 'a::len word" where
  "char5_pack w = foldr (\<lambda>c. char5_shift_in (mulle_char5_lookup_character (scast c))) w 0"

lemma char5_pack_bound:
  "list_all is_char5 w \<Longrightarrow> 5 * length w \<le> LENGTH('a) \<Longrightarrow> unat (char5_pack w :: 'a::len word) < 32 ^ length w"
proof (induction w)
  case (Cons c w)
  let ?v = "char5_pack w :: 'a word"
  have v: "unat ?v < 32 ^ length w" using Cons by simp
  then have "32 * unat ?v + 31 < 32 ^ length (c # w)" by simp
  also have "\<dots> = 2 ^ (5 * length (c # w))" by (simp only: power_mult) simp
  also have "\<dots> \<le> 2 ^ LENGTH('a)" using Cons.prems by (intro power_increasing) simp_all
  finally have "32 * unat ?v + 31 < 2 ^ LENGTH('a)" .
  then have "unat (char5_pack (c # w) :: 'a word) = 32 * unat ?v + nat (mulle_char5_lookup_character (scast c))"
    using Cons.prems is_char5_code(3) [of c]
    by (simp add: char5_pack_def char5_shift_in_unat is_char5_def)
  moreover have "nat (mulle_char5_lookup_character (scast c)) < 32"
    using Cons.prems is_char5_code(3) [of c] by simp
  ultimately show ?case using v by simp
qed (simp add: char5_pack_def)

lemma char5_pack_Cons:
  assumes "list_all is_char5 (c # w)" and "5 * length (c # w) \<le> LENGTH('a)"
  defines "v \<equiv> char5_pack (c # w) :: 'a::len word"
  shows "v \<noteq> 0" and "drop_bit 5 v = char5_pack w"
    and "mulle_char5_decode_character (unat (v AND 0x1F)) = c"
proof -
  let ?v = "char5_pack w :: 'a word"
  have "unat ?v < 32 ^ length w" using assms by (intro char5_pack_bound) simp_all
  then have "32 * unat ?v + 31 < 32 ^ length (c # w)" by simp
  also have "\<dots> = 2 ^ (5 * length (c # w))" by (simp only: power_mult) simp
  also have "\<dots> \<le> 2 ^ LENGTH('a)" using assms by (intro power_increasing) simp_all
  finally have b: "32 * unat ?v + 31 < 2 ^ LENGTH('a)" .
  have c: "is_char5 c" using assms by simp
  then have k: "0 < mulle_char5_lookup_character (scast c)" by (simp add: is_char5_def)
  note parts = char5_shift_in_parts [OF b k is_char5_code(3) [OF c]]
  have v: "v = char5_shift_in (mulle_char5_lookup_character (scast c)) ?v"
    by (simp add: v_def char5_pack_def)
  show "v \<noteq> 0" and "drop_bit 5 v = char5_pack w"
    and "mulle_char5_decode_character (unat (v AND 0x1F)) = c"
    unfolding v using parts is_char5_code(4) [OF c] by simp_all
qed

section \<open>The operations on a packed string\<close>

lemma char5_pack_Nil [simp]: "char5_pack [] = 0"
  by (simp add: char5_pack_def)

lemma char5_decode_loop_pack:
  "list_all is_char5 w \<Longrightarrow> 5 * length w \<le> LENGTH('a) \<Longrightarrow>
     char5_decode_loop n (char5_pack w :: 'a::len word) = take n w"
proof (induction w arbitrary: n)
  case Nil
  then show ?case by (cases n) simp_all
next
  case (Cons c w)
  then show ?case
    using char5_pack_Cons [of c w, where 'a = 'a] by (cases n) simp_all
qed

lemma char5_strlen_loop_pack:
  "list_all is_char5 w \<Longrightarrow> 5 * length w \<le> LENGTH('a) \<Longrightarrow>
     char5_strlen_loop (char5_pack w :: 'a::len word) n = n + of_nat (length w)"
proof (induction w arbitrary: n)
  case Nil
  then show ?case by (simp add: char5_strlen_loop.simps)
next
  case (Cons c w)
  then show ?case
    using char5_pack_Cons [of c w, where 'a = 'a]
    by (subst char5_strlen_loop.simps) (simp add: algebra_simps)
qed

lemma char5_get_loop_pack:
  "list_all is_char5 w \<Longrightarrow> 5 * length w \<le> LENGTH('a) \<Longrightarrow> i < length w \<Longrightarrow>
     mulle_char5_decode_character (char5_get_loop i (char5_pack w :: 'a::len word)) = w ! i"
proof (induction w arbitrary: i)
  case (Cons c w)
  then show ?case
    using char5_pack_Cons [of c w, where 'a = 'a] by (cases i) simp_all
qed simp

lemma char5_drop_pack:
  "list_all is_char5 w \<Longrightarrow> 5 * length w \<le> LENGTH('a) \<Longrightarrow>
     drop_bit (5 * i) (char5_pack w :: 'a::len word) = char5_pack (drop i w)"
proof (induction w arbitrary: i)
  case (Cons c w)
  show ?case
  proof (cases i)
    case (Suc j)
    have "drop_bit (5 * i) (char5_pack (c # w) :: 'a word) = drop_bit (5 * j) (drop_bit 5 (char5_pack (c # w)))"
      using Suc by (simp add: drop_bit_drop_bit add.commute)
    with Cons Suc char5_pack_Cons [of c w, where 'a = 'a] show ?thesis by simp
  qed simp
qed simp

lemma char5_take_pack:
  "list_all is_char5 w \<Longrightarrow> 5 * length w \<le> LENGTH('a) \<Longrightarrow>
     take_bit (5 * i) (char5_pack w :: 'a::len word) = char5_pack (take i w)"
proof (induction w arbitrary: i)
  case (Cons c w)
  show ?case
  proof (cases i)
    case (Suc j)
    let ?v = "char5_pack w :: 'a word" let ?u = "char5_pack (take j w) :: 'a word"
    let ?k = "nat (mulle_char5_lookup_character (scast c))"
    have k: "0 < mulle_char5_lookup_character (scast c)" "mulle_char5_lookup_character (scast c) < 32"
      using Cons.prems is_char5_code(3) by (auto simp: is_char5_def)
    have fits: "32 * unat (char5_pack x :: 'a word) + 31 < 2 ^ LENGTH('a)"
      if "list_all is_char5 x" "length x \<le> length w" for x
    proof -
      have "32 * unat (char5_pack x :: 'a word) + 31 < 32 * 32 ^ length x"
        using char5_pack_bound [of x, where 'a = 'a] that Cons.prems by simp
      also have "\<dots> = 2 ^ (5 * Suc (length x))" by (simp only: power_mult) simp
      also have "\<dots> \<le> 2 ^ LENGTH('a)" using that Cons.prems by (intro power_increasing) simp_all
      finally show ?thesis .
    qed
    have tk: "list_all is_char5 (take j w)" using Cons.prems by (auto simp: list_all_iff dest: in_set_takeD)
    have 1: "unat (char5_pack (c # w) :: 'a word) = 32 * unat ?v + ?k"
      using fits [of w] Cons.prems k by (simp add: char5_pack_def char5_shift_in_unat)
    have 2: "unat (char5_pack (c # take j w) :: 'a word) = 32 * unat ?u + ?k"
      using fits [OF tk] k by (simp add: char5_pack_def char5_shift_in_unat)
    have 3: "unat ?u = unat ?v mod 32 ^ j"
    proof -
      have "take_bit (5 * j) ?v = ?u" using Cons by simp
      then have "unat ?u = unat (take_bit (5 * j) ?v)" by simp
      then show ?thesis
        by (simp only: unsigned_take_bit_eq take_bit_eq_mod [where 'a = nat] power_mult) simp
    qed
    have "unat (take_bit (5 * i) (char5_pack (c # w) :: 'a word)) = (32 * unat ?v + ?k) mod (32 * 32 ^ j)"
      using Suc by (simp only: 1 unsigned_take_bit_eq take_bit_eq_mod [where 'a = nat] power_mult) simp
    also have "\<dots> = 32 * (unat ?v mod 32 ^ j) + ?k"
      using k by (simp add: mod_mult2_eq)
    finally show ?thesis using 2 3 Suc by (simp add: unat_eq_iff)
  qed simp
qed simp

section \<open>The two ways to compute the length\<close>

fun digits32 :: "nat \<Rightarrow> nat" where
  "digits32 n = (if n = 0 then 0 else Suc (digits32 (n div 32)))"

declare digits32.simps [simp del]

lemma digits32_0 [simp]: "digits32 0 = 0"
  by (simp add: digits32.simps)

lemma char5_strlen_loop_digits: "char5_strlen_loop val n = n + of_nat (digits32 (unat val))"
proof (induction val n rule: char5_strlen_loop.induct)
  case (1 val n)
  show ?case
  proof (cases "val = 0")
    case False
    then have "digits32 (unat val) = Suc (digits32 (unat (drop_bit 5 val)))"
      by (subst digits32.simps) (simp add: unat_drop5 unat_eq_0)
    with 1 False show ?thesis by (subst char5_strlen_loop.simps) (simp add: algebra_simps)
  qed (simp add: char5_strlen_loop.simps)
qed

lemma digits32_drop: "32 ^ k \<le> n \<Longrightarrow> digits32 n = k + digits32 (n div 32 ^ k)"
proof (induction k arbitrary: n)
  case (Suc k)
  have pos: "n \<noteq> 0" using Suc.prems by (metis le_zero_eq power_not_zero zero_neq_numeral)
  have "32 ^ k \<le> n div 32" using Suc.prems by (simp add: less_eq_div_iff_mult_less_eq mult.commute)
  from Suc.IH [OF this] pos show ?case
    by (subst digits32.simps) (simp add: div_mult2_eq)
qed simp

lemma digits32_small: "0 < n \<Longrightarrow> n < 32 \<Longrightarrow> digits32 n = 1"
  by (subst digits32.simps) simp

lemma digits32_two: "32 \<le> n \<Longrightarrow> digits32 n = 2 + digits32 (n div 1024)"
proof -
  assume n: "32 \<le> n"
  then have "n div 32 \<noteq> 0" by simp
  with n show ?thesis
    by (subst digits32.simps, subst digits32.simps) (simp add: div_mult2_eq [symmetric] flip: div_mult2_eq)
qed

lemma high_bits_iff:
  assumes "unat (v :: 'a::len word) < 2 ^ (LENGTH('a) - j)" and "j \<le> m"
  shows "v AND drop_bit j (NOT (mask m)) \<noteq> 0 \<longleftrightarrow> 2 ^ (m - j) \<le> unat v"
proof -
  have bound: "n < LENGTH('a) - j" if "bit v n" for n
  proof -
    have "bit (take_bit (LENGTH('a) - j) (unat v)) n"
      using that assms(1) by (simp add: take_bit_nat_eq_self bit_unsigned_iff)
    then show ?thesis by (simp add: bit_take_bit_iff)
  qed
  have "v AND drop_bit j (NOT (mask m)) = 0 \<longleftrightarrow> take_bit (m - j) v = v"
  proof
    assume 0: "v AND drop_bit j (NOT (mask m)) = 0"
    show "take_bit (m - j) v = v"
    proof (rule bit_word_eqI)
      fix n assume "n < LENGTH('a)"
      have "\<not> bit (v AND drop_bit j (NOT (mask m))) n" using 0 by simp
      then show "bit (take_bit (m - j) v) n = bit v n"
        using bound [of n] by (auto simp: bit_simps)
    qed
  next
    assume eq: "take_bit (m - j) v = v"
    show "v AND drop_bit j (NOT (mask m)) = 0"
    proof (rule bit_word_eqI)
      fix n
      have "bit v n \<Longrightarrow> n < m - j" using eq by (metis bit_take_bit_iff)
      then show "bit (v AND drop_bit j (NOT (mask m))) n = bit 0 n" by (auto simp: bit_simps)
    qed
  qed
  also have "\<dots> \<longleftrightarrow> unat v mod 2 ^ (m - j) = unat v"
    by (simp only: unat_eq_iff unsigned_take_bit_eq take_bit_eq_mod [where 'a = nat])
  also have "\<dots> \<longleftrightarrow> unat v < 2 ^ (m - j)"
    by (metis mod_less mod_less_divisor zero_less_numeral zero_less_power)
  finally show ?thesis by (simp add: not_less)
qed

text \<open>
  One halving of \<open>mulle_char5_fstrlen64\<close> and \<open>mulle_char5_fstrlen32\<close>: when a bit above \<open>m - j\<close> is set,
  \<open>k\<close> characters are counted and shifted out.
\<close>

definition fstrlen_step :: "nat \<Rightarrow> nat \<Rightarrow> nat \<Rightarrow> size_t \<times> 'a::len word \<Rightarrow> size_t \<times> 'a word" where
  "fstrlen_step m k j p =
     (if snd p AND drop_bit j (NOT (mask m)) \<noteq> 0 then (fst p + of_nat k, drop_bit (5 * k) (snd p)) else p)"

lemma fstrlen_step:
  fixes p :: "size_t \<times> 'a::len word" and m k j b :: nat
  defines "q \<equiv> fstrlen_step m k j p"
  assumes p: "unat (snd p) < 2 ^ (LENGTH('a) - j)" "unat (fst p) + k \<le> 20" "j \<le> m"
    and b: "unat (snd p) < 2 ^ (5 * k + b)" "m - j \<le> b"
    and dg: "2 ^ (m - j) \<le> unat (snd p) \<Longrightarrow> digits32 (unat (snd p)) = k + digits32 (unat (snd p) div 2 ^ (5 * k))"
  shows "unat (fst q) + digits32 (unat (snd q)) = unat (fst p) + digits32 (unat (snd p))"
    and "unat (fst q) \<le> unat (fst p) + k" and "unat (snd q) < 2 ^ b"
proof -
  have "unat (fst q) + digits32 (unat (snd q)) = unat (fst p) + digits32 (unat (snd p)) \<and>
    unat (fst q) \<le> unat (fst p) + k \<and> unat (snd q) < 2 ^ b"
  proof (cases "2 ^ (m - j) \<le> unat (snd p)")
    case True
    then have "q = (fst p + of_nat k, drop_bit (5 * k) (snd p))"
      using high_bits_iff [OF p(1,3)] by (simp add: q_def fstrlen_step_def)
    moreover have "unat (fst p + of_nat k) = unat (fst p) + k"
      using p by (subst unat64_add) (simp_all add: unat64_of_nat)
    moreover have "unat (drop_bit (5 * k) (snd p)) = unat (snd p) div 2 ^ (5 * k)"
      by (simp only: unat_drop_bit_eq drop_bit_eq_div [where 'a = nat])
    moreover have "unat (snd p) div 2 ^ (5 * k) < 2 ^ b"
      using b(1) by (simp add: div_less_iff_less_mult power_add mult.commute)
    ultimately show ?thesis using dg [OF True] by simp
  next
    case False
    then have "q = p" using high_bits_iff [OF p(1,3)] by (simp add: q_def fstrlen_step_def)
    moreover have "(2 :: nat) ^ (m - j) \<le> 2 ^ b" using b(2) by (intro power_increasing) simp_all
    then have "unat (snd p) < 2 ^ b" using False by (meson less_le_trans not_le)
    ultimately show ?thesis by simp
  qed
  then show "unat (fst q) + digits32 (unat (snd q)) = unat (fst p) + digits32 (unat (snd p))"
    and "unat (fst q) \<le> unat (fst p) + k" and "unat (snd q) < 2 ^ b" by blast+
qed

lemma digits32_shift: "2 ^ (5 * k) \<le> n \<Longrightarrow> digits32 n = k + digits32 (n div 2 ^ (5 * k))"
  using digits32_drop [of k n] by (simp add: power_mult)

lemma fstrlen_end:
  fixes p :: "size_t \<times> 'a::len word"
  assumes "unat (fst p) \<le> 20" and "unat (snd p) < 2 ^ 9" and "unat (0x1F :: 'a word) = 31"
  shows "unat (fst p + (if snd p > 0x1F then 2 else if snd p \<noteq> 0 then 1 else 0)) =
    unat (fst p) + digits32 (unat (snd p))"
proof -
  have "unat (if snd p > 0x1F then 2 else if snd p \<noteq> 0 then 1 else 0 :: size_t) = digits32 (unat (snd p))"
    using assms digits32_two [of "unat (snd p)"] digits32_small [of "unat (snd p)"]
    by (auto simp: word_less_nat_alt unat_eq_0 unat_gt_0 not_less)
  moreover have "unat (if snd p > 0x1F then 2 else if snd p \<noteq> 0 then 1 else 0 :: size_t) \<le> 2" by simp
  ultimately show ?thesis using assms(1) by (subst unat64_add) simp_all
qed

lemma fstrlen64_digits: "unat (mulle_char5_fstrlen64 val) = digits32 (unat val)"
proof -
  define p where "p = (0 :: size_t, val)"
  define p1 where "p1 = fstrlen_step 30 6 0 p"
  define p2 where "p2 = fstrlen_step 30 3 15 p1"
  define p3 where "p3 = fstrlen_step 30 2 25 p2"
  have 1: "unat (fst p1) + digits32 (unat (snd p1)) = digits32 (unat val)" "unat (fst p1) \<le> 6" "unat (snd p1) < 2 ^ 34"
    using fstrlen_step [of p 0 6 30 34] digits32_shift [of 6] unat64_less [of val]
    by (simp_all add: p1_def p_def)
  have 2: "unat (fst p2) + digits32 (unat (snd p2)) = digits32 (unat val)" "unat (fst p2) \<le> 9" "unat (snd p2) < 2 ^ 19"
    using fstrlen_step [of p1 15 3 30 19] digits32_shift [of 3] 1 by (simp_all add: p2_def)
  have 3: "unat (fst p3) + digits32 (unat (snd p3)) = digits32 (unat val)" "unat (fst p3) \<le> 11" "unat (snd p3) < 2 ^ 9"
    using fstrlen_step [of p2 25 2 30 9] digits32_two 2 by (simp_all add: p3_def)
  have "mulle_char5_fstrlen64 val = fst p3 + (if snd p3 > 0x1F then 2 else if snd p3 \<noteq> 0 then 1 else 0)"
    unfolding p_def p1_def p2_def p3_def fstrlen_step_def mulle_char5_fstrlen64_def
    by (simp add: Let_def mask_eq_exp_minus_1 drop_bit_drop_bit)
  with fstrlen_end [of p3] 3 show ?thesis by simp
qed

lemma fstrlen32_digits: "unat (mulle_char5_fstrlen32 val) = digits32 (unat val)"
proof -
  define p where "p = (0 :: size_t, val)"
  define p1 where "p1 = fstrlen_step 15 3 0 p"
  define p2 where "p2 = fstrlen_step 15 2 10 p1"
  have 1: "unat (fst p1) + digits32 (unat (snd p1)) = digits32 (unat val)" "unat (fst p1) \<le> 3" "unat (snd p1) < 2 ^ 17"
    using fstrlen_step [of p 0 3 15 17] digits32_shift [of 3] unat32_less [of val]
    by (simp_all add: p1_def p_def)
  have 2: "unat (fst p2) + digits32 (unat (snd p2)) = digits32 (unat val)" "unat (fst p2) \<le> 5" "unat (snd p2) < 2 ^ 9"
    using fstrlen_step [of p1 10 2 15 9] digits32_two 1 by (simp_all add: p2_def)
  have "mulle_char5_fstrlen32 val = fst p2 + (if snd p2 > 0x1F then 2 else if snd p2 \<noteq> 0 then 1 else 0)"
    unfolding p_def p1_def p2_def fstrlen_step_def mulle_char5_fstrlen32_def
    by (simp add: Let_def mask_eq_exp_minus_1)
  with fstrlen_end [of p2] 2 show ?thesis by simp
qed

lemma strlen_digits:
  "mulle_char5_strlen64 v = of_nat (digits32 (unat v))" "mulle_char5_strlen32 u = of_nat (digits32 (unat u))"
  by (simp_all add: mulle_char5_strlen64_def mulle_char5_strlen32_def char5_strlen_loop_digits)

lemma char5_fnv1a_pack:
  "list_all is_char5 w \<Longrightarrow> 5 * length w \<le> 32 \<Longrightarrow>
     char5_fnv1a_32_loop (char5_pack w) h = u_mulle_fnv1a_chained_32 w h"
  "list_all is_char5 w \<Longrightarrow> 5 * length w \<le> 64 \<Longrightarrow>
     char5_fnv1a_64_loop (char5_pack w) g = u_mulle_fnv1a_chained_64 w g"
proof (induction w arbitrary: h g)
  case Nil
  {
    case 1
    then show ?case by (simp add: char5_fnv1a_32_loop.simps)
  next
    case 2
    then show ?case by (simp add: char5_fnv1a_64_loop.simps)
  }
next
  case (Cons c w)
  have ext: "scast c = (ucast c :: 32 word)" "scast c = (ucast c :: 64 word)" if "is_char5 c"
    using is_char5_code(1) [OF that] by (simp_all add: scast_nonneg)
  {
    case 1
    then show ?case
      using char5_pack_Cons [of c w, where 'a = 32] Cons.IH(1) ext
      by (subst char5_fnv1a_32_loop.simps) (simp add: MULLE_FNV1A_32_PRIME_def)
  next
    case 2
    then show ?case
      using char5_pack_Cons [of c w, where 'a = 64] Cons.IH(2) ext
      by (subst char5_fnv1a_64_loop.simps) (simp add: MULLE_FNV1A_64_PRIME_def)
  }
qed

section \<open>Properties\<close>

lemma lookup_ucast:
  assumes "is_char5 c"
  shows "mulle_char5_lookup_character (ucast (ucast c :: 16 word)) = mulle_char5_lookup_character (scast c)"
    and "mulle_char5_lookup_character (ucast c) = mulle_char5_lookup_character (scast c)"
proof -
  have "scast c = (ucast c :: 32 word)"
    using is_char5_code(1) [OF assms] by (simp add: scast_nonneg)
  moreover have "ucast (ucast c :: 16 word) = (ucast c :: 32 word)"
    by (simp add: unat_eq_iff unat_ucast_8 unat_ucast_up unat_ucast_8_16)
  ultimately show "mulle_char5_lookup_character (ucast (ucast c :: 16 word)) = mulle_char5_lookup_character (scast c)"
    and "mulle_char5_lookup_character (ucast c) = mulle_char5_lookup_character (scast c)" by simp_all
qed

lemma char5_pack_wide:
  assumes "list_all is_char5 w"
  shows "foldr (\<lambda>c. char5_shift_in (mulle_char5_lookup_character (ucast c))) (map (ucast :: 8 word \<Rightarrow> 16 word) w) 0 = char5_pack w"
    and "foldr (\<lambda>c. char5_shift_in (mulle_char5_lookup_character c)) (map ucast w) 0 = char5_pack w"
  using assms unfolding char5_pack_def foldr_map by (induction w) (simp_all add: lookup_ucast)

text \<open>What both widths share: cutting out a range of a packed string.\<close>

lemma char5_substring_pack:
  assumes "list_all is_char5 w" and "5 * length w \<le> LENGTH('a)" and "i + n \<le> length w"
  shows "drop_bit (5 * i) (char5_pack w) AND NOT (push_bit (5 * n) (NOT 0)) =
    (char5_pack (take n (drop i w)) :: 'a::len word)"
proof -
  have "list_all is_char5 (drop i w)" using assms(1) by (auto simp: list_all_iff dest: in_set_dropD)
  then have "take_bit (5 * n) (char5_pack (drop i w) :: 'a word) = char5_pack (take n (drop i w))"
    using assms(2) by (intro char5_take_pack) simp_all
  moreover have "NOT (push_bit (5 * n) (NOT 0)) = (mask (5 * n) :: 'a word)"
    by (simp add: mask_eq_exp_minus_1 push_bit_eq_mult not_eq_complement)
  ultimately show ?thesis
    using char5_drop_pack [OF assms(1,2), of i] by (simp add: take_bit_eq_mask)
qed

lemma unat_times5: "unat (n :: size_t) \<le> 12 \<Longrightarrow> unat (n * 5) = 5 * unat n"
  by (simp add: unat_word_ariths)

text \<open>What the checks of a string establish.\<close>

lemma char5string_accepted:
  "mulle_char5_is_char5string64 (Some src) len = Some True \<Longrightarrow>
     \<exists>n w. (if len = -1 then mulle_utf8_strlen (Some src) else Some len) = Some n \<and> n \<noteq> -1 \<and>
       text_window src n = Some w \<and> list_all is_char5 w \<and> unat n = length w \<and> length w \<le> 12"
  "mulle_char5_is_char5string32 (Some src) len = Some True \<Longrightarrow>
     \<exists>n w. (if len = -1 then mulle_utf8_strlen (Some src) else Some len) = Some n \<and> n \<noteq> -1 \<and>
       text_window src n = Some w \<and> list_all is_char5 w \<and> unat n = length w \<and> length w \<le> 6"
proof -
  have *: "n \<noteq> -1 \<and> unat n = length w \<and> length w \<le> k" if "n \<le> l" "text_window src n = Some w" "unat l = k" "k \<le> 12"
    for n l :: size_t and w k
    using that text_window_length [OF that(2)] by (auto simp: word_le_nat_alt unat64_minus_one)
  show "\<exists>n w. (if len = -1 then mulle_utf8_strlen (Some src) else Some len) = Some n \<and> n \<noteq> -1 \<and>
       text_window src n = Some w \<and> list_all is_char5 w \<and> unat n = length w \<and> length w \<le> 12"
    if acc: "mulle_char5_is_char5string64 (Some src) len = Some True"
  proof -
    obtain n where n: "(if len = -1 then mulle_utf8_strlen (Some src) else Some len) = Some n"
      and le: "n \<le> mulle_char5_maxlength64" and loop: "map_option char5string_loop (text_window src n) = Some True"
      using acc by (auto simp: mulle_char5_is_char5string64_def not_less split: if_splits bind_splits)
    then obtain w where w: "text_window src n = Some w" "list_all is_char5 w" by (auto simp: char5string_loop_iff)
    with n * [OF le w(1)] show ?thesis by (auto simp: mulle_char5_maxlength64_def)
  qed
  show "\<exists>n w. (if len = -1 then mulle_utf8_strlen (Some src) else Some len) = Some n \<and> n \<noteq> -1 \<and>
       text_window src n = Some w \<and> list_all is_char5 w \<and> unat n = length w \<and> length w \<le> 6"
    if acc: "mulle_char5_is_char5string32 (Some src) len = Some True"
  proof -
    obtain n where n: "(if len = -1 then mulle_utf8_strlen (Some src) else Some len) = Some n"
      and le: "n \<le> mulle_char5_maxlength32" and loop: "map_option char5string_loop (text_window src n) = Some True"
      using acc by (auto simp: mulle_char5_is_char5string32_def not_less split: if_splits bind_splits)
    then obtain w where w: "text_window src n = Some w" "list_all is_char5 w" by (auto simp: char5string_loop_iff)
    with n * [OF le w(1)] show ?thesis by (auto simp: mulle_char5_maxlength32_def)
  qed
qed

lemma window_map:
  "text_window src n = Some w \<Longrightarrow> text_window (map f src) n = Some (map f w)"
  by (auto simp: text_window_def take_map split: if_splits)

lemma fstrlen_strlen:
  "mulle_char5_fstrlen64 v = mulle_char5_strlen64 v" "mulle_char5_fstrlen32 u = mulle_char5_strlen32 u"
  unfolding strlen_digits fstrlen64_digits [symmetric] fstrlen32_digits [symmetric] by simp_all

text \<open>Taking \<open>n\<close> characters out of a packed string, one after the other.\<close>

fun char5_iterate :: "('v \<Rightarrow> mulle_utf8_t \<times> 'v) \<Rightarrow> nat \<Rightarrow> 'v \<Rightarrow> mulle_utf8_t list \<times> 'v" where
  "char5_iterate next_char 0 v = ([], v)"
| "char5_iterate next_char (Suc n) v =
     (let (c, v) = next_char v; (cs, v) = char5_iterate next_char n v in (c # cs, v))"

lemma char5_iterate_pack:
  assumes "list_all is_char5 w" "5 * length w \<le> LENGTH('a)"
    and step: "\<And>v :: 'a::len word. next_char v = (mulle_char5_decode_character (unat (v AND 0x1F)), drop_bit 5 v)"
  shows "char5_iterate next_char (length w) (char5_pack w :: 'a word) = (w, 0)"
  using assms(1,2)
proof (induction w)
  case (Cons c w)
  moreover have "mulle_char5_decode_character (unat (char5_pack (c # w) AND 0x1F :: 'a word)) = c"
    using char5_get_loop_pack [of "c # w" 0, where 'a = 'a] Cons.prems by simp
  ultimately show ?case
    using char5_pack_Cons(2) [of c w, where 'a = 'a] by (simp add: step)
qed simp

lemma char5_substrings:
  assumes good: "list_all is_char5 w" and le: "unat loc + unat k \<le> length w"
  shows "length w \<le> 12 \<Longrightarrow> 12 \<le> m \<Longrightarrow> \<exists>s. mulle_char5_substring64 (char5_pack w) loc k = Some s \<and>
      mulle_char5_decode64 s m = take (unat k) (drop (unat loc) w)"
    and "length w \<le> 6 \<Longrightarrow> 6 \<le> m \<Longrightarrow> \<exists>s. mulle_char5_substring32 (char5_pack w) loc k = Some s \<and>
      mulle_char5_decode32 s m = take (unat k) (drop (unat loc) w)"
proof -
  let ?u = "take (unat k) (drop (unat loc) w)"
  have sub: "list_all is_char5 ?u" using good by (auto simp: list_all_iff dest: in_set_takeD in_set_dropD)
  show "\<exists>s. mulle_char5_substring64 (char5_pack w) loc k = Some s \<and> mulle_char5_decode64 s m = ?u"
    if "length w \<le> 12" "12 \<le> m"
  proof -
    have "mulle_char5_substring64 (char5_pack w) loc k = Some (char5_pack ?u)"
      using that le char5_substring_pack [OF good _ le, where 'a = 64]
      by (simp add: mulle_char5_substring64_def unat_times5 word_less_nat_alt)
    with that sub le show ?thesis
      by (simp add: mulle_char5_decode64_def char5_decode_loop_pack word_le_nat_alt)
  qed
  show "\<exists>s. mulle_char5_substring32 (char5_pack w) loc k = Some s \<and> mulle_char5_decode32 s m = ?u"
    if "length w \<le> 6" "6 \<le> m"
  proof -
    have "mulle_char5_substring32 (char5_pack w) loc k = Some (char5_pack ?u)"
      using that le char5_substring_pack [OF good _ le, where 'a = 32]
      by (simp add: mulle_char5_substring32_def unat_times5 word_less_nat_alt)
    with that sub le show ?thesis
      by (simp add: mulle_char5_decode32_def char5_decode_loop_pack word_le_nat_alt)
  qed
qed

text \<open>
  C34. A string that \<open>mulle_char5_is_char5string64\<close> accepts packs into a 64 bit word from which
  decoding, indexed access, taking one character after the other and taking a substring give back the
  characters of the string, and both computations of the length its length. The encoders for UTF-16 and
  UTF-32 text give the same word. The same holds for \<open>mulle_char5_is_char5string32\<close> and words of 32 bits.
\<close>

theorem mulle_char5_roundtrip_spec:
  shows "(mulle_char5_is_char5string64 (Some src) len = Some True \<longrightarrow>
    (\<exists>n w v. (if len = -1 then mulle_utf8_strlen (Some src) else Some len) = Some n \<and>
      text_window src n = Some w \<and> mulle_char5_encode64 src len = Some v \<and>
      mulle_char5_encode64_utf16 (map ucast src) n = Some v \<and>
      mulle_char5_encode64_utf32 (map ucast src) n = Some v \<and>
      (\<forall>m. mulle_char5_decode64 v m = take (unat m) w) \<and>
      mulle_char5_strlen64 v = n \<and> mulle_char5_fstrlen64 v = n \<and>
      (\<forall>i. unat i < length w \<longrightarrow> mulle_char5_get64 v i = w ! unat i) \<and>
      char5_iterate mulle_char5_next64 (length w) v = (w, 0) \<and>
      (\<forall>loc k m. unat loc + unat k \<le> length w \<and> 12 \<le> m \<longrightarrow>
         (\<exists>s. mulle_char5_substring64 v loc k = Some s \<and>
              mulle_char5_decode64 s m = take (unat k) (drop (unat loc) w))))) \<and>
   (mulle_char5_is_char5string32 (Some src) len = Some True \<longrightarrow>
    (\<exists>n w v. (if len = -1 then mulle_utf8_strlen (Some src) else Some len) = Some n \<and>
      text_window src n = Some w \<and> mulle_char5_encode32 src len = Some v \<and>
      mulle_char5_encode32_utf16 (map ucast src) n = Some v \<and>
      mulle_char5_encode32_utf32 (map ucast src) n = Some v \<and>
      (\<forall>m. mulle_char5_decode32 v m = take (unat m) w) \<and>
      mulle_char5_strlen32 v = n \<and> mulle_char5_fstrlen32 v = n \<and>
      (\<forall>i. unat i < length w \<longrightarrow> mulle_char5_get32 v i = w ! unat i) \<and>
      char5_iterate mulle_char5_next32 (length w) v = (w, 0) \<and>
      (\<forall>loc k m. unat loc + unat k \<le> length w \<and> 6 \<le> m \<longrightarrow>
         (\<exists>s. mulle_char5_substring32 v loc k = Some s \<and>
              mulle_char5_decode32 s m = take (unat k) (drop (unat loc) w)))))"
    (is "(_ \<longrightarrow> ?wide) \<and> (_ \<longrightarrow> ?narrow)")
proof (intro conjI impI)
  assume "mulle_char5_is_char5string64 (Some src) len = Some True"
  from char5string_accepted(1) [OF this] obtain n w where
    n: "(if len = -1 then mulle_utf8_strlen (Some src) else Some len) = Some n" "n \<noteq> -1"
    and w: "text_window src n = Some w" "list_all is_char5 w" "unat n = length w" "length w \<le> 12" by blast
  let ?v = "char5_pack w :: 64 word"
  have fit: "5 * length w \<le> LENGTH(64)" using w(4) by simp
  have "mulle_char5_encode64 src len = Some ?v"
    using n w by (simp add: mulle_char5_encode64_def char5_pack_def split: if_splits)
  moreover have "mulle_char5_encode64_utf16 (map ucast src) n = Some ?v"
    "mulle_char5_encode64_utf32 (map ucast src) n = Some ?v"
    using n(2) char5_pack_wide [OF w(2)]
    by (simp_all add: mulle_char5_encode64_utf16_def mulle_char5_encode64_utf32_def window_map [OF w(1)])
  moreover have "mulle_char5_strlen64 ?v = n"
    unfolding mulle_char5_strlen64_def char5_strlen_loop_pack [OF w(2) fit] unat_eq_of_nat [OF w(3)] by simp
  moreover have "char5_iterate mulle_char5_next64 (length w) ?v = (w, 0)"
    by (rule char5_iterate_pack [OF w(2) fit]) (simp add: mulle_char5_next64_def)
  moreover note char5_substrings(1) [OF w(2) _ w(4)]
  ultimately show ?wide
    using n(1) w fit
    by (intro exI [of _ n] exI [of _ w] exI [of _ ?v])
      (simp add: mulle_char5_decode64_def mulle_char5_get64_def char5_decode_loop_pack char5_get_loop_pack
        fstrlen_strlen)
next
  assume "mulle_char5_is_char5string32 (Some src) len = Some True"
  from char5string_accepted(2) [OF this] obtain n w where
    n: "(if len = -1 then mulle_utf8_strlen (Some src) else Some len) = Some n" "n \<noteq> -1"
    and w: "text_window src n = Some w" "list_all is_char5 w" "unat n = length w" "length w \<le> 6" by blast
  let ?v = "char5_pack w :: 32 word"
  have fit: "5 * length w \<le> LENGTH(32)" using w(4) by simp
  have "mulle_char5_encode32 src len = Some ?v"
    using n w by (simp add: mulle_char5_encode32_def char5_pack_def split: if_splits)
  moreover have "mulle_char5_encode32_utf16 (map ucast src) n = Some ?v"
    "mulle_char5_encode32_utf32 (map ucast src) n = Some ?v"
    using n(2) char5_pack_wide [OF w(2)]
    by (simp_all add: mulle_char5_encode32_utf16_def mulle_char5_encode32_utf32_def window_map [OF w(1)])
  moreover have "mulle_char5_strlen32 ?v = n"
    unfolding mulle_char5_strlen32_def char5_strlen_loop_pack [OF w(2) fit] unat_eq_of_nat [OF w(3)] by simp
  moreover have "char5_iterate mulle_char5_next32 (length w) ?v = (w, 0)"
    by (rule char5_iterate_pack [OF w(2) fit]) (simp add: mulle_char5_next32_def)
  moreover note char5_substrings(2) [OF w(2) _ w(4)]
  ultimately show ?narrow
    using n(1) w fit
    by (intro exI [of _ n] exI [of _ w] exI [of _ ?v])
      (simp add: mulle_char5_decode32_def mulle_char5_get32_def char5_decode_loop_pack char5_get_loop_pack
        fstrlen_strlen)
qed

theorem mulle_char5_roundtrip_spec_witness:
  "\<exists>v u. mulle_char5_encode64 [0x61, 0x62, 0x63, 0] 3 = Some v \<and>
     char5_iterate mulle_char5_next64 3 v = ([0x61, 0x62, 0x63], 0) \<and>
     mulle_char5_encode32 [0x61, 0x62, 0x63, 0] 3 = Some u \<and>
     char5_iterate mulle_char5_next32 3 u = ([0x61, 0x62, 0x63], 0)"
proof -
  let ?s = "[0x61, 0x62, 0x63, 0] :: mulle_utf8_t list"
  have acc: "mulle_char5_is_char5string64 (Some ?s) 3 = Some True"
      "mulle_char5_is_char5string32 (Some ?s) 3 = Some True"
    by (simp_all add: mulle_char5_is_char5string64_def mulle_char5_maxlength64_def
        mulle_char5_is_char5string32_def mulle_char5_maxlength32_def text_window_def
        char5string_loop_iff is_char5_def lookup_unat scast_byte mulle_char5_lookup_table_def)
  have win: "text_window ?s 3 = Some [0x61, 0x62, 0x63]" by (simp add: text_window_def)
  from mulle_char5_roundtrip_spec [of ?s 3] acc win obtain v u where
    "mulle_char5_encode64 ?s 3 = Some v" "char5_iterate mulle_char5_next64 (length [0x61, 0x62, 0x63 :: mulle_utf8_t]) v =
      ([0x61, 0x62, 0x63], 0)"
    "mulle_char5_encode32 ?s 3 = Some u" "char5_iterate mulle_char5_next32 (length [0x61, 0x62, 0x63 :: mulle_utf8_t]) u =
      ([0x61, 0x62, 0x63], 0)" by auto
  then show ?thesis by (intro exI [of _ v] exI [of _ u]) (simp add: numeral_3_eq_3)
qed

text \<open>
  The halving computation of the length agrees with the loop on every word, the lookup table
  with the switch on every character, and the hash of a packed string is the FNV-1a hash of the
  string it packs.
\<close>

theorem mulle_char5_equivalences:
  "mulle_char5_fstrlen64 v = mulle_char5_strlen64 v \<and>
   mulle_char5_fstrlen32 u = mulle_char5_strlen32 u \<and>
   mulle_char5_lookup_character c = mulle_char5_encode_character c \<and>
   (mulle_char5_is_char5string64 (Some w) (of_nat (length w)) = Some True \<and> length w \<le> 12 \<longrightarrow>
     map_option u_mulle_char5_fnv1a_64 (mulle_char5_encode64 w (of_nat (length w))) = Some (u_mulle_fnv1a_64 w)) \<and>
   (mulle_char5_is_char5string32 (Some w) (of_nat (length w)) = Some True \<and> length w \<le> 6 \<longrightarrow>
     map_option u_mulle_char5_fnv1a_32 (mulle_char5_encode32 w (of_nat (length w))) = Some (u_mulle_fnv1a_32 w))"
proof (intro conjI impI; (elim conjE)?)
  show "mulle_char5_fstrlen64 v = mulle_char5_strlen64 v" "mulle_char5_fstrlen32 u = mulle_char5_strlen32 u"
    by (rule fstrlen_strlen)+
  show "mulle_char5_lookup_character c = mulle_char5_encode_character c"
    by (rule lookup_encode_character)
  have n1: "of_nat (length w) \<noteq> (-1 :: size_t)" "text_window w (of_nat (length w)) = Some w"
    if "length w \<le> 12" for w :: "mulle_utf8_t list"
    using that unat64_of_nat [of "length w"] by (auto simp: unat64_minus_one text_window_Some dest: arg_cong [where f = unat])
  show "map_option u_mulle_char5_fnv1a_64 (mulle_char5_encode64 w (of_nat (length w))) = Some (u_mulle_fnv1a_64 w)"
    if w: "mulle_char5_is_char5string64 (Some w) (of_nat (length w)) = Some True" "length w \<le> 12"
    using w n1 [of w] char5_fnv1a_pack(2) [of w]
    by (simp add: mulle_char5_is_char5string64_def mulle_char5_encode64_def u_mulle_char5_fnv1a_64_def
        u_mulle_fnv1a_64_def MULLE_FNV1A_64_INIT_def char5string_loop_iff flip: char5_pack_def split: if_splits)
  show "map_option u_mulle_char5_fnv1a_32 (mulle_char5_encode32 w (of_nat (length w))) = Some (u_mulle_fnv1a_32 w)"
    if w: "mulle_char5_is_char5string32 (Some w) (of_nat (length w)) = Some True" "length w \<le> 6"
    using w n1 [of w] char5_fnv1a_pack(1) [of w]
    by (simp add: mulle_char5_is_char5string32_def mulle_char5_encode32_def u_mulle_char5_fnv1a_32_def
        u_mulle_fnv1a_32_def MULLE_FNV1A_32_INIT_def char5string_loop_iff flip: char5_pack_def split: if_splits)
qed

theorem mulle_char5_equivalences_witness:
  "map_option u_mulle_char5_fnv1a_64 (mulle_char5_encode64 [0x61, 0x62] 2) = Some (u_mulle_fnv1a_64 [0x61, 0x62]) \<and>
   map_option u_mulle_char5_fnv1a_32 (mulle_char5_encode32 [0x61, 0x62] 2) = Some (u_mulle_fnv1a_32 [0x61, 0x62])"
proof -
  have "mulle_char5_is_char5string64 (Some [0x61, 0x62]) 2 = Some True"
    "mulle_char5_is_char5string32 (Some [0x61, 0x62]) 2 = Some True"
    by (simp_all add: mulle_char5_is_char5string64_def mulle_char5_maxlength64_def
        mulle_char5_is_char5string32_def mulle_char5_maxlength32_def text_window_def
        char5string_loop_iff is_char5_def lookup_unat scast_byte mulle_char5_lookup_table_def)
  with mulle_char5_equivalences [of _ _ _ "[0x61, 0x62]"] show ?thesis by simp
qed

end
