(* ===== verification/Utf32.thy ===== *)
theory Utf32
  imports Char5
begin

text \<open>
  UTF-32 text: \<open>mulle-utf32.c\<close> and \<open>mulle-utf32.h\<close>. The encoders of one character into UTF-8 and UTF-16,
  the conversions of a text, directly and in blocks, the lengths of the converted text, the
  validation and the scan that collects \<open>struct mulle_utf_information\<close>.

  A conversion that writes to \<open>dst\<close> is the list of the units it writes; the end of \<open>dst\<close> it returns is
  the length of that list. Pointers into the text are offsets, and a null text is \<open>None\<close>.
\<close>

section \<open>One character\<close>

definition mulle_utf32_is_asciicharacter :: "mulle_utf32_t \<Rightarrow> bool" where
  "mulle_utf32_is_asciicharacter c = (c < 0x80)"

definition mulle_utf32_get_unicodeplane :: "mulle_utf32_t \<Rightarrow> 32 word" where
  "mulle_utf32_get_unicodeplane c = drop_bit 16 c"

definition u_mulle_utf32_as_utf8_not_ascii :: "mulle_utf32_t \<Rightarrow> mulle_utf8_t list" where
  "u_mulle_utf32_as_utf8_not_ascii x =
     (if x <s 0x800
      then [0xC0 OR ucast (signed_drop_bit 6 x),
            ucast (0x80 OR (x AND 0x3F))]
      else if x <s 0x10000
      then [0xE0 OR ucast (signed_drop_bit 12 x),
            ucast (0x80 OR (signed_drop_bit 6 x AND 0x3F)),
            ucast (0x80 OR (x AND 0x3F))]
      else [0xF0 OR ucast (signed_drop_bit 18 x),
            ucast (0x80 OR (signed_drop_bit 12 x AND 0x3F)),
            ucast (0x80 OR (signed_drop_bit 6 x AND 0x3F)),
            ucast (0x80 OR (x AND 0x3F))])"

definition mulle_utf32_as_utf8 :: "mulle_utf32_t \<Rightarrow> mulle_utf8_t list" where
  "mulle_utf32_as_utf8 x = (if x <s 0x80 then [ucast x] else u_mulle_utf32_as_utf8_not_ascii x)"

definition mulle_utf32_as_utf16 :: "mulle_utf32_t \<Rightarrow> mulle_utf16_t list" where
  "mulle_utf32_as_utf16 x =
     (if x <s 0x10000 then [ucast x] else u_mulle_utf32_convert_to_utf16_as_surrogatepair x)"

section \<open>Conversions\<close>

fun u_mulle_utf32_convert_to_utf8 :: "mulle_utf32_t list \<Rightarrow> mulle_utf8_t list" where
  "u_mulle_utf32_convert_to_utf8 [] = []"
| "u_mulle_utf32_convert_to_utf8 (x # src) =
     (if x <s 0x800
      then if x <s 0x80
           then ucast x # u_mulle_utf32_convert_to_utf8 src
           else (0xC0 OR ucast (signed_drop_bit 6 x)) #
                ucast (0x80 OR (x AND 0x3F)) # u_mulle_utf32_convert_to_utf8 src
      else if x <s 0x10000
           then (0xE0 OR ucast (signed_drop_bit 12 x)) #
                ucast (0x80 OR (signed_drop_bit 6 x AND 0x3F)) #
                ucast (0x80 OR (x AND 0x3F)) # u_mulle_utf32_convert_to_utf8 src
           else (0xF0 OR ucast (signed_drop_bit 18 x)) #
                ucast (0x80 OR (signed_drop_bit 12 x AND 0x3F)) #
                ucast (0x80 OR (signed_drop_bit 6 x AND 0x3F)) #
                ucast (0x80 OR (x AND 0x3F)) # u_mulle_utf32_convert_to_utf8 src)"

fun u_mulle_utf32_convert_to_utf16 :: "mulle_utf32_t list \<Rightarrow> mulle_utf16_t list" where
  "u_mulle_utf32_convert_to_utf16 [] = []"
| "u_mulle_utf32_convert_to_utf16 (x # src) =
     (if x <s 0x10000
      then ucast x # u_mulle_utf32_convert_to_utf16 src
      else u_mulle_utf32_convert_to_utf16_as_surrogatepair x @ u_mulle_utf32_convert_to_utf16 src)"

text \<open>The loops over an array \<open>tmp\<close> of 128 bytes and of 64 UTF-16 units, with the blocks passed to \<open>addbytes\<close>.\<close>

fun utf32_blocks_to_utf8 :: "mulle_utf32_t list \<Rightarrow> mulle_utf8_t list \<Rightarrow> mulle_utf8_t list list option" where
  "utf32_blocks_to_utf8 [] tmp = Some (tmp_flush tmp)"
| "utf32_blocks_to_utf8 (x # src) tmp =
     (let (bs, s) = tmp_preflush (128 - 4) tmp in map_option ((@) bs)
       (if x <s 0x800
        then if x <s 0x80
             then do { s \<leftarrow> tmp_put 128 s [ucast x]; utf32_blocks_to_utf8 src s }
             else do { s \<leftarrow> tmp_put 128 s [0xC0 OR ucast (signed_drop_bit 6 x),
                                        ucast (0x80 OR (x AND 0x3F))];
                       utf32_blocks_to_utf8 src s }
        else if x <s 0x10000
             then do { s \<leftarrow> tmp_put 128 s [0xE0 OR ucast (signed_drop_bit 12 x),
                                        ucast (0x80 OR (signed_drop_bit 6 x AND 0x3F)),
                                        ucast (0x80 OR (x AND 0x3F))];
                       utf32_blocks_to_utf8 src s }
             else do { s \<leftarrow> tmp_put 128 s [0xF0 OR ucast (signed_drop_bit 18 x),
                                        ucast (0x80 OR (signed_drop_bit 12 x AND 0x3F)),
                                        ucast (0x80 OR (signed_drop_bit 6 x AND 0x3F)),
                                        ucast (0x80 OR (x AND 0x3F))];
                       utf32_blocks_to_utf8 src s }))"

definition mulle_utf32_bufferconvert_to_utf8 :: "mulle_utf32_t list \<Rightarrow> size_t \<Rightarrow> mulle_utf8_t list list option" where
  "mulle_utf32_bufferconvert_to_utf8 src len = do {
     len \<leftarrow> (if len = -1 then mulle_utf32_strlen (Some src) else Some len);
     w \<leftarrow> text_window src len;
     utf32_blocks_to_utf8 w [] }"

fun utf32_blocks_to_utf16 :: "mulle_utf32_t list \<Rightarrow> mulle_utf16_t list \<Rightarrow> mulle_utf16_t list list option" where
  "utf32_blocks_to_utf16 [] tmp = Some (tmp_flush tmp)"
| "utf32_blocks_to_utf16 (x # src) tmp =
     (let (bs, s) = tmp_preflush (64 - 2) tmp in map_option ((@) bs)
       (if x <s 0x10000
        then do { s \<leftarrow> tmp_put 64 s [ucast x]; utf32_blocks_to_utf16 src s }
        else do { s \<leftarrow> tmp_put 64 s (u_mulle_utf32_convert_to_utf16_as_surrogatepair x);
                  utf32_blocks_to_utf16 src s }))"

definition mulle_utf32_bufferconvert_to_utf16 :: "mulle_utf32_t list \<Rightarrow> size_t \<Rightarrow> mulle_utf16_t list list option" where
  "mulle_utf32_bufferconvert_to_utf16 src len = do {
     len \<leftarrow> (if len = -1 then mulle_utf32_strlen (Some src) else Some len);
     w \<leftarrow> text_window src len;
     utf32_blocks_to_utf16 w [] }"

section \<open>Lengths\<close>

fun utf32_utf8length_loop :: "mulle_utf32_t list \<Rightarrow> size_t \<Rightarrow> size_t" where
  "utf32_utf8length_loop [] sz = sz"
| "utf32_utf8length_loop (x # src) sz =
     (if x < 0x800
      then if x < 0x80 then utf32_utf8length_loop src sz
           else utf32_utf8length_loop src (sz + 1)
      else if x < 0x10000 then utf32_utf8length_loop src (sz + 2)
      else utf32_utf8length_loop src (sz + 3))"

definition mulle_utf32_utf8length :: "mulle_utf32_t list option \<Rightarrow> size_t \<Rightarrow> size_t option" where
  "mulle_utf32_utf8length src len = (case src of None \<Rightarrow> Some 0 | Some s \<Rightarrow> do {
     len \<leftarrow> (if len = -1 then mulle_utf32_strlen src else Some len);
     if len = 0 then Some 0
     else do {
       w \<leftarrow> text_window s len;
       Some (utf32_utf8length_loop w len) } })"

fun utf32_utf16length_loop :: "mulle_utf32_t list \<Rightarrow> size_t \<Rightarrow> size_t" where
  "utf32_utf16length_loop [] len = len"
| "utf32_utf16length_loop (x # src) len =
     (if x \<ge> 0x10000 then utf32_utf16length_loop src (len + 1) else utf32_utf16length_loop src len)"

definition mulle_utf32_utf16length :: "mulle_utf32_t list option \<Rightarrow> size_t \<Rightarrow> size_t option" where
  "mulle_utf32_utf16length src len = (case src of None \<Rightarrow> Some 0 | Some s \<Rightarrow> do {
     len \<leftarrow> (if len = -1 then mulle_utf32_strlen src else Some len);
     if len = 0 then Some 0
     else do {
       w \<leftarrow> text_window s len;
       Some (utf32_utf16length_loop w len) } })"

section \<open>Validation and information\<close>

text \<open>The result is null (\<open>None\<close>) or the offset of the first offending character.\<close>

fun utf32_validate_loop :: "mulle_utf32_t list \<Rightarrow> size_t \<Rightarrow> size_t option" where
  "utf32_validate_loop [] i = None"
| "utf32_validate_loop (c # src) i =
     (if c = 0 then None
      else if c <s 0 \<or> mulle_utf32_max <s c then Some i
      else if mulle_utf32_is_invalidcharacter c then Some i
      else if mulle_utf32_is_surrogatecharacter c then Some i
      else utf32_validate_loop src (i + 1))"

definition mulle_utf32_validate :: "mulle_utf32_t list option \<Rightarrow> size_t \<Rightarrow> size_t option option" where
  "mulle_utf32_validate src len = (case src of None \<Rightarrow> Some None | Some s \<Rightarrow> do {
     len \<leftarrow> (if len = -1 then mulle_utf32_strlen src else Some len);
     w \<leftarrow> text_window s len;
     Some (utf32_validate_loop w 0) })"

text \<open>
  \<open>utf_start\<close> and \<open>utf_invalid\<close> are offsets into the text; \<open>None\<close> is the null pointer.
\<close>

record mulle_utf_information =
  utf8len :: size_t
  utf16len :: size_t
  utf32len :: size_t
  utf_start :: "size_t option"
  utf_invalid :: "size_t option"
  has_bom :: bool
  is_ascii :: bool
  is_char5_text :: bool
  is_utf15 :: bool
  has_terminating_zero :: bool

definition utf_information_init :: mulle_utf_information where
  "utf_information_init =
     \<lparr> utf8len = 0, utf16len = 0, utf32len = 0, utf_start = Some 0, utf_invalid = None,
       has_bom = False, is_ascii = True, is_char5_text = True, is_utf15 = True,
       has_terminating_zero = False \<rparr>"

text \<open>\<open>memset( info, 0, sizeof( *info))\<close> and \<open>info->invalid = src\<close>\<close>

definition utf_information_fail :: "size_t option \<Rightarrow> mulle_utf_information" where
  "utf_information_fail at =
     \<lparr> utf8len = 0, utf16len = 0, utf32len = 0, utf_start = None, utf_invalid = at,
       has_bom = False, is_ascii = False, is_char5_text = False, is_utf15 = False,
       has_terminating_zero = False \<rparr>"

definition mulle_utf_information_is_valid :: "mulle_utf_information \<Rightarrow> bool" where
  "mulle_utf_information_is_valid info = (utf_invalid info = None)"

text \<open>
  The scan; \<open>i\<close> is \<open>src - start\<close>. \<open>Inl\<close> is the jump to \<open>fail\<close> with the offset of the character.
\<close>

fun utf32_information_loop ::
  "mulle_utf32_t list \<Rightarrow> size_t \<Rightarrow> mulle_utf_information \<Rightarrow> size_t + (size_t \<times> mulle_utf_information)" where
  "utf32_information_loop [] i info = Inr (i, info)"
| "utf32_information_loop (c # src) i info =
     (if mulle_utf32_is_asciicharacter c
      then if c = 0 then Inr (i, info\<lparr>has_terminating_zero := True\<rparr>)
           else utf32_information_loop src (i + 1)
                  (if is_char5_text info \<and> \<not> mulle_utf32_is_char5character c
                   then info\<lparr>is_char5_text := False\<rparr> else info)
      else
        let info = info\<lparr>is_ascii := False, utf8len := utf8len info + 1\<rparr>;
            info = (if 0x800 \<le>s c then info\<lparr>utf8len := utf8len info + 1\<rparr> else info)
        in if c <s 0 \<or> mulle_utf32_max <s c then Inl i
           else if mulle_utf32_is_invalidcharacter c then Inl i
           else
             let info = (if 0x8000 \<le>s c then info\<lparr>is_utf15 := False\<rparr> else info);
                 info = (if 0x10000 \<le>s c
                         then info\<lparr>utf8len := utf8len info + 1, utf16len := utf16len info + 1\<rparr>
                         else info)
             in utf32_information_loop src (i + 1) info)"

text \<open>The pair is the returned 0 (\<open>True\<close>) or -1 (\<open>False\<close>) and the struct.\<close>

definition mulle_utf32_information ::
  "mulle_utf32_t list option \<Rightarrow> size_t \<Rightarrow> (bool \<times> mulle_utf_information) option" where
  "mulle_utf32_information src len =
     (if len = 0 then Some (True, utf_information_init\<lparr>utf_start := map_option (\<lambda>_. 0) src\<rparr>)
      else case src of None \<Rightarrow> Some (False, utf_information_fail None) | Some s \<Rightarrow> do {
        len \<leftarrow> (if len = -1 then mulle_utf32_strlen src else Some len);
        c \<leftarrow> slot s 0;
        let bom = mulle_utf32_is_bomcharacter c;
        let start = (if bom then 1 else 0);
        let len = (if bom then len - 1 else len);
        w \<leftarrow> text_window (drop (unat start) s) len;
        Some (case utf32_information_loop w 0 (utf_information_init\<lparr>has_bom := bom, utf_start := Some start\<rparr>) of
            Inl i \<Rightarrow> (False, utf_information_fail (Some (start + i)))
          | Inr (i, info) \<Rightarrow>
              (True, info\<lparr>utf8len := utf8len info + i, utf16len := utf16len info + i,
                          utf32len := utf32len info + i,
                          is_char5_text := (is_char5_text info \<and> is_ascii info)\<rparr>)) })"

text \<open>The small string kinds a text fits into.\<close>

datatype mulle_utf_charinfo = mulle_utf_is_not_char5_or_char7 | mulle_utf_is_char5 | mulle_utf_is_char7

definition mulle_char7_get_maxlength :: size_t where
  "mulle_char7_get_maxlength = 8"

definition u_mulle_utf32_charinfo :: "mulle_utf32_t list \<Rightarrow> mulle_utf_charinfo" where
  "u_mulle_utf32_charinfo src =
     (let len = of_nat (length src) :: size_t in
      if len > mulle_char5_get_maxlength then mulle_utf_is_not_char5_or_char7
      else if len \<le> mulle_char7_get_maxlength
      then if list_all mulle_utf32_is_asciicharacter src then mulle_utf_is_char7
           else mulle_utf_is_not_char5_or_char7
      else if list_all mulle_utf32_is_char5character src then mulle_utf_is_char5
      else mulle_utf_is_not_char5_or_char7)"

section \<open>The bytes of a character\<close>

text \<open>The UTF-8 form of RFC 3629, on naturals.\<close>

definition utf8_bytes :: "nat \<Rightarrow> nat list" where
  "utf8_bytes n =
     (if n < 0x80 then [n]
      else if n < 0x800 then [0xC0 + n div 0x40, 0x80 + n mod 0x40]
      else if n < 0x10000 then [0xE0 + n div 0x1000, 0x80 + n div 0x40 mod 0x40, 0x80 + n mod 0x40]
      else [0xF0 + n div 0x40000, 0x80 + n div 0x1000 mod 0x40, 0x80 + n div 0x40 mod 0x40, 0x80 + n mod 0x40])"

lemma unat_ucast_8_of_32: "unat (ucast (c :: 32 word) :: 8 word) = unat c mod 0x100"
  by (simp add: unsigned_ucast_eq take_bit_eq_mod)

lemma continuation_byte: "unat (ucast (0x80 OR (x AND 0x3F) :: 32 word) :: 8 word) = 0x80 + unat x mod 0x40"
proof -
  have u: "unat (x AND 0x3F) = unat x mod 0x40"
    using unat_and_mask [of x 6] by (simp add: mask_numeral)
  moreover have "unat x mod 0x40 < 0x40" by simp
  ultimately have "unat (0x80 OR (x AND 0x3F)) = unat (0x80 :: 32 word) + unat (x AND 0x3F)"
    by (intro unat_or_disjoint [where k = 7 and q = 1]) simp_all
  with u show ?thesis by (simp add: unat_ucast_8_of_32)
qed

lemma lead_byte:
  assumes "unat (m :: 8 word) = q * 2 ^ k" and "unat x < 2 ^ 31" and "unat x div 2 ^ n < 2 ^ k" and "k \<le> 8"
  shows "unat (m OR ucast (signed_drop_bit n (x :: 32 word))) = unat m + unat x div 2 ^ n"
proof -
  have "(2 :: nat) ^ k \<le> 2 ^ 8" using assms(4) by (intro power_increasing) simp_all
  then have "unat (ucast (signed_drop_bit n x) :: 8 word) = unat x div 2 ^ n"
    using assms by (simp add: unat_ucast_8_of_32 signed_drop_bit_unat)
  with assms show ?thesis using unat_or_disjoint [OF assms(1), of "ucast (signed_drop_bit n x)"] by simp
qed

lemma map_unat_eq_iff: "map unat (us :: 'a::len word list) = map unat vs \<longleftrightarrow> us = vs"
  by (rule inj_map_eq_map) (rule injI, simp add: unat_eq_iff)

lemma as_utf8_bytes:
  assumes "unat x \<le> 0x10FFFF"
  shows "map unat (mulle_utf32_as_utf8 x) = utf8_bytes (unat x)"
proof -
  have c: "unat (ucast (0x80 OR (signed_drop_bit n x AND 0x3F) :: 32 word) :: 8 word) = 0x80 + unat x div 2 ^ n mod 0x40" for n
    using assms by (simp add: continuation_byte signed_drop_bit_unat)
  have x: "unat x < 2 ^ 31" using assms by simp
  consider "unat x < 0x80" | "0x80 \<le> unat x" "unat x < 0x800" | "0x800 \<le> unat x" "unat x < 0x10000"
    | "0x10000 \<le> unat x" by linarith
  then show ?thesis
  proof cases
    case 1
    then show ?thesis by (simp add: mulle_utf32_as_utf8_def utf8_bytes_def sless32 unat_ucast_8_of_32)
  next
    case 2
    then have "unat (0xC0 OR ucast (signed_drop_bit 6 x) :: 8 word) = 0xC0 + unat x div 0x40"
      using lead_byte [of "0xC0" 6 5 x 6] x by (simp add: div_less_iff_less_mult)
    with 2 continuation_byte [of x] show ?thesis
      by (simp add: mulle_utf32_as_utf8_def u_mulle_utf32_as_utf8_not_ascii_def utf8_bytes_def sless32)
  next
    case 3
    then have "unat (0xE0 OR ucast (signed_drop_bit 12 x) :: 8 word) = 0xE0 + unat x div 0x1000"
      using lead_byte [of "0xE0" 14 4 x 12] x by (simp add: div_less_iff_less_mult)
    with 3 continuation_byte [of x] c [of 6] show ?thesis
      by (simp add: mulle_utf32_as_utf8_def u_mulle_utf32_as_utf8_not_ascii_def utf8_bytes_def sless32)
  next
    case 4
    then have "unat (0xF0 OR ucast (signed_drop_bit 18 x) :: 8 word) = 0xF0 + unat x div 0x40000"
      using lead_byte [of "0xF0" 30 3 x 18] x assms by (simp add: div_less_iff_less_mult)
    with 4 assms continuation_byte [of x] c [of 6] c [of 12] show ?thesis
      by (simp add: mulle_utf32_as_utf8_def u_mulle_utf32_as_utf8_not_ascii_def utf8_bytes_def sless32)
  qed
qed

lemma utf32_convert_to_utf8_eq:
  "u_mulle_utf32_convert_to_utf8 cs = concat (map mulle_utf32_as_utf8 cs)"
proof (induction cs)
  case (Cons x cs)
  have "x <s 0x80 \<Longrightarrow> x <s 0x800" by (auto simp: sless32)
  with Cons show ?case
    by (simp add: mulle_utf32_as_utf8_def u_mulle_utf32_as_utf8_not_ascii_def)
qed simp

lemma utf32_convert_to_utf16_eq:
  "u_mulle_utf32_convert_to_utf16 cs = concat (map mulle_utf32_as_utf16 cs)"
  by (induction cs) (simp_all add: mulle_utf32_as_utf16_def)

lemma as_utf8_length: "length (mulle_utf32_as_utf8 x) \<le> 4" "mulle_utf32_as_utf8 x \<noteq> []"
  by (simp_all add: mulle_utf32_as_utf8_def u_mulle_utf32_as_utf8_not_ascii_def)

lemma as_utf16_length: "length (mulle_utf32_as_utf16 x) \<le> 2" "mulle_utf32_as_utf16 x \<noteq> []"
  by (simp_all add: mulle_utf32_as_utf16_def u_mulle_utf32_convert_to_utf16_as_surrogatepair_def Let_def)

section \<open>Blocks\<close>

lemma utf32_blocks_to_utf8_Cons:
  "utf32_blocks_to_utf8 (x # src) tmp =
     (let (bs, s) = tmp_preflush 124 tmp
      in map_option ((@) bs) (do { s \<leftarrow> tmp_put 128 s (mulle_utf32_as_utf8 x); utf32_blocks_to_utf8 src s }))"
proof -
  have "x <s 0x80 \<Longrightarrow> x <s 0x800" by (auto simp: sless32)
  then show ?thesis
    by (simp add: mulle_utf32_as_utf8_def u_mulle_utf32_as_utf8_not_ascii_def Let_def)
qed

lemma utf32_blocks_to_utf16_Cons:
  "utf32_blocks_to_utf16 (x # src) tmp =
     (let (bs, s) = tmp_preflush 62 tmp
      in map_option ((@) bs) (do { s \<leftarrow> tmp_put 64 s (mulle_utf32_as_utf16 x); utf32_blocks_to_utf16 src s }))"
  by (simp add: mulle_utf32_as_utf16_def Let_def)

interpretation utf32_utf8: block_converter
  "\<lambda>us. Some (u_mulle_utf32_convert_to_utf8 us)" utf32_blocks_to_utf8 128 "\<lambda>tmp. length tmp \<le> 128"
proof (unfold_locales, goal_cases)
  case (5 us tmp)
  then obtain x src where us: "us = x # src" by (cases us) auto
  obtain pre old where "tmp_preflush 124 tmp = (pre, old)" "concat pre @ old = tmp"
    "blocks_of 128 (concat pre) pre" "tmp_put 128 old (mulle_utf32_as_utf8 x) = Some (old @ mulle_utf32_as_utf8 x)"
    "length (old @ mulle_utf32_as_utf8 x) \<le> 128"
    using preflush_step [of tmp 124 4 "mulle_utf32_as_utf8 x" 128] 5(2) as_utf8_length(1) [of x] by auto
  then show ?case
    using us unfolding us utf32_blocks_to_utf8_Cons
    by (intro exI [of _ pre] exI [of _ "old @ mulle_utf32_as_utf8 x"] exI [of _ "mulle_utf32_as_utf8 x"] exI [of _ src])
      (auto simp: utf32_convert_to_utf8_eq simp flip: append_assoc)
qed simp_all

interpretation utf32_utf16: block_converter
  "\<lambda>us. Some (u_mulle_utf32_convert_to_utf16 us)" utf32_blocks_to_utf16 64 "\<lambda>tmp. length tmp \<le> 64"
proof (unfold_locales, goal_cases)
  case (5 us tmp)
  then obtain x src where us: "us = x # src" by (cases us) auto
  obtain pre old where "tmp_preflush 62 tmp = (pre, old)" "concat pre @ old = tmp"
    "blocks_of 64 (concat pre) pre" "tmp_put 64 old (mulle_utf32_as_utf16 x) = Some (old @ mulle_utf32_as_utf16 x)"
    "length (old @ mulle_utf32_as_utf16 x) \<le> 64"
    using preflush_step [of tmp 62 2 "mulle_utf32_as_utf16 x" 64] 5(2) as_utf16_length(1) [of x] by auto
  then show ?case
    using us unfolding us utf32_blocks_to_utf16_Cons
    by (intro exI [of _ pre] exI [of _ "old @ mulle_utf32_as_utf16 x"] exI [of _ "mulle_utf32_as_utf16 x"] exI [of _ src])
      (auto simp: utf32_convert_to_utf16_eq simp flip: append_assoc)
qed simp_all

section \<open>Lengths and validation\<close>

lemma as_utf8_length_eq:
  "unat x \<le> 0x10FFFF \<Longrightarrow>
     length (mulle_utf32_as_utf8 x) =
       1 + (if 0x80 \<le> unat x then 1 else 0) + (if 0x800 \<le> unat x then 1 else 0) + (if 0x10000 \<le> unat x then 1 else 0)"
  by (simp add: mulle_utf32_as_utf8_def u_mulle_utf32_as_utf8_not_ascii_def sless32)

lemma as_utf16_length_eq:
  "unat x \<le> 0x10FFFF \<Longrightarrow> length (mulle_utf32_as_utf16 x) = 1 + (if 0x10000 \<le> unat x then 1 else 0)"
  by (simp add: mulle_utf32_as_utf16_def u_mulle_utf32_convert_to_utf16_as_surrogatepair_def Let_def sless32)

lemma utf32_utf8length_loop_eq:
  "list_all (\<lambda>c. unat c \<le> 0x10FFFF) cs \<Longrightarrow>
     utf32_utf8length_loop cs sz + of_nat (length cs) = sz + of_nat (length (concat (map mulle_utf32_as_utf8 cs)))"
proof (induction cs arbitrary: sz)
  case (Cons x cs)
  have "utf32_utf8length_loop (x # cs) sz = utf32_utf8length_loop cs (sz + of_nat (length (mulle_utf32_as_utf8 x) - 1))"
    using Cons.prems by (simp add: as_utf8_length_eq word_less_nat_alt)
  moreover have "sz + of_nat (length (mulle_utf32_as_utf8 x) - 1) + 1 = sz + of_nat (length (mulle_utf32_as_utf8 x))"
    using as_utf8_length(2) [of x] by (simp add: of_nat_diff Suc_le_eq)
  ultimately show ?case
    using Cons.IH [of "sz + of_nat (length (mulle_utf32_as_utf8 x) - 1)"] Cons.prems by (simp add: ac_simps)
qed simp

lemma utf32_utf16length_loop_eq:
  "list_all (\<lambda>c. unat c \<le> 0x10FFFF) cs \<Longrightarrow>
     utf32_utf16length_loop cs sz + of_nat (length cs) = sz + of_nat (length (concat (map mulle_utf32_as_utf16 cs)))"
proof (induction cs arbitrary: sz)
  case (Cons x cs)
  have "utf32_utf16length_loop (x # cs) sz = utf32_utf16length_loop cs (sz + of_nat (length (mulle_utf32_as_utf16 x) - 1))"
    using Cons.prems by (simp add: as_utf16_length_eq word_le_nat_alt)
  moreover have "sz + of_nat (length (mulle_utf32_as_utf16 x) - 1) + 1 = sz + of_nat (length (mulle_utf32_as_utf16 x))"
    using as_utf16_length(2) [of x] by (simp add: of_nat_diff Suc_le_eq)
  ultimately show ?case
    using Cons.IH [of "sz + of_nat (length (mulle_utf32_as_utf16 x) - 1)"] Cons.prems by (simp add: ac_simps)
qed simp

text \<open>What a text is up to its terminating zero.\<close>

definition text_prefix :: "'a::len word list \<Rightarrow> 'a word list" where
  "text_prefix us = takeWhile (\<lambda>u. u \<noteq> 0) us"

lemma text_prefix_simps [simp]:
  "text_prefix [] = []" "text_prefix (u # us) = (if u = 0 then [] else u # text_prefix us)"
  by (simp_all add: text_prefix_def)

lemma utf32_validate_loop_None:
  "utf32_validate_loop cs i = None \<longleftrightarrow> list_all mulle_utf32_is_valid (text_prefix cs)"
  by (induction cs arbitrary: i)
    (auto simp: mulle_utf32_is_valid_iff mulle_utf32_is_invalidcharacter_def)

lemma utf32_validate_loop_Some:
  "utf32_validate_loop cs i = Some j \<Longrightarrow>
     \<exists>n. j = i + of_nat n \<and> n < length (text_prefix cs) \<and> \<not> mulle_utf32_is_valid (cs ! n) \<and>
         list_all mulle_utf32_is_valid (take n cs)"
proof (induction cs arbitrary: i)
  case (Cons c cs)
  show ?case
  proof (cases "c \<noteq> 0 \<and> mulle_utf32_is_valid c")
    case True
    then have "utf32_validate_loop cs (i + 1) = Some j"
      using Cons.prems
      by (auto simp: mulle_utf32_is_valid_iff mulle_utf32_is_invalidcharacter_def split: if_splits)
    from Cons.IH [OF this] obtain n where "j = i + 1 + of_nat n" "n < length (text_prefix cs)"
      "\<not> mulle_utf32_is_valid (cs ! n)" "list_all mulle_utf32_is_valid (take n cs)" by blast
    with True show ?thesis by (intro exI [of _ "Suc n"]) (simp add: ac_simps)
  next
    case False
    with Cons.prems show ?thesis
      by (intro exI [of _ 0]) (auto simp: mulle_utf32_is_valid_iff mulle_utf32_is_invalidcharacter_def split: if_splits)
  qed
qed simp

section \<open>What the information about a text is\<close>

text \<open>The struct that describes the characters \<open>cs\<close>, whatever their encoding.\<close>

definition utf_information_of :: "mulle_utf32_t list \<Rightarrow> bool \<Rightarrow> size_t \<Rightarrow> bool \<Rightarrow> mulle_utf_information" where
  "utf_information_of cs bom start zero =
     \<lparr> utf8len = of_nat (length (concat (map mulle_utf32_as_utf8 cs))),
       utf16len = of_nat (length (concat (map mulle_utf32_as_utf16 cs))),
       utf32len = of_nat (length cs), utf_start = Some start, utf_invalid = None,
       has_bom = bom, is_ascii = list_all (\<lambda>c. unat c < 0x80) cs,
       is_char5_text = list_all mulle_utf32_is_char5character cs,
       is_utf15 = list_all (\<lambda>c. unat c < 0x8000) cs, has_terminating_zero = zero \<rparr>"

text \<open>A text ends at its sentinel or at a zero.\<close>

definition text_end :: "'a::len word list \<Rightarrow> bool" where
  "text_end tail = (tail = [] \<or> hd tail = 0)"

text \<open>A character the validators accept inside of a text.\<close>

definition text_character :: "mulle_utf32_t \<Rightarrow> bool" where
  "text_character c = (mulle_utf32_is_valid c \<and> c \<noteq> 0)"

lemma is_char5character_ascii: "mulle_utf32_is_char5character c \<Longrightarrow> unat c < 0x80"
  by (simp add: mulle_utf32_is_char5character_def lookup_unat split: if_splits)

lemma text_character_tests:
  assumes "text_character c"
  shows "mulle_utf32_is_asciicharacter c \<longleftrightarrow> unat c < 0x80" "c \<noteq> 0" "\<not> c <s 0" "\<not> mulle_utf32_max <s c"
    "\<not> mulle_utf32_is_invalidcharacter c" "\<not> mulle_utf32_is_surrogatecharacter c" "unat c \<le> 0x10FFFF"
    "k < 2 ^ 31 \<Longrightarrow> word_of_nat k \<le>s c \<longleftrightarrow> k \<le> unat c"
  using assms mulle_utf32_is_valid_iff [of c] mulle_utf32_is_valid_bounds [of c]
  by (auto simp: text_character_def mulle_utf32_is_asciicharacter_def word_less_nat_alt sle32 unat_of_nat)

lemma utf32_information_step:
  assumes c: "text_character c"
  shows "utf32_information_loop (c # us) i info = utf32_information_loop us (i + 1)
    (info\<lparr>utf8len := utf8len info + (of_nat (length (mulle_utf32_as_utf8 c)) - 1),
          utf16len := utf16len info + (of_nat (length (mulle_utf32_as_utf16 c)) - 1),
          is_ascii := (is_ascii info \<and> unat c < 0x80),
          is_char5_text := (is_char5_text info \<and> (unat c < 0x80 \<longrightarrow> mulle_utf32_is_char5character c)),
          is_utf15 := (is_utf15 info \<and> unat c < 0x8000)\<rparr>)"
proof -
  note tests = text_character_tests [OF c] as_utf8_length_eq as_utf16_length_eq
  note bounds = text_character_tests(8) [OF c, where k = "0x800"]
    text_character_tests(8) [OF c, where k = "0x8000"] text_character_tests(8) [OF c, where k = "0x10000"]
  consider "unat c < 0x80" | "0x80 \<le> unat c" "unat c < 0x800" | "0x800 \<le> unat c" "unat c < 0x8000"
    | "0x8000 \<le> unat c" "unat c < 0x10000" | "0x10000 \<le> unat c" by linarith
  then show ?thesis
  proof cases
    case 1
    then show ?thesis by (cases info; cases "is_char5_text info") (simp_all add: tests)
  next
    case 2
    then show ?thesis using bounds by (cases info) (simp add: tests)
  next
    case 3
    then show ?thesis using bounds by (cases info) (simp add: tests add.commute)
  next
    case 4
    then show ?thesis using bounds by (cases info) (simp add: tests add.commute)
  next
    case 5
    then show ?thesis using bounds by (cases info) (simp add: tests add.commute)
  qed
qed

lemma utf32_information_loop_text:
  assumes "list_all text_character cs" and "text_end tail"
  shows "utf32_information_loop (cs @ tail) i info = Inr (i + of_nat (length cs),
    info\<lparr>utf8len := utf8len info + (of_nat (length (concat (map mulle_utf32_as_utf8 cs))) - of_nat (length cs)),
         utf16len := utf16len info + (of_nat (length (concat (map mulle_utf32_as_utf16 cs))) - of_nat (length cs)),
         is_ascii := (is_ascii info \<and> list_all (\<lambda>c. unat c < 0x80) cs),
         is_char5_text := (is_char5_text info \<and> list_all (\<lambda>c. unat c < 0x80 \<longrightarrow> mulle_utf32_is_char5character c) cs),
         is_utf15 := (is_utf15 info \<and> list_all (\<lambda>c. unat c < 0x8000) cs),
         has_terminating_zero := (has_terminating_zero info \<or> tail \<noteq> [])\<rparr>)"
  using assms
proof (induction cs arbitrary: i info)
  case Nil
  then show ?case
    by (cases tail; cases info) (auto simp: text_end_def mulle_utf32_is_asciicharacter_def)
next
  case (Cons c cs)
  then show ?case
    by (simp add: utf32_information_step algebra_simps del: utf32_information_loop.simps)
qed

lemma utf32_information_loop_fail:
  "utf32_information_loop us i info = Inl j \<longleftrightarrow> utf32_validate_loop us i = Some j"
  by (induction us i info rule: utf32_information_loop.induct)
    (auto simp: Let_def mulle_utf32_is_asciicharacter_def sless32 mulle_utf32_max_def word_less_nat_alt
       mulle_utf32_is_invalidcharacter_def mulle_utf32_is_surrogatecharacter_unat mulle_utf32_is_noncharacter_unat)

lemma char5_text_iff:
  "list_all (\<lambda>c. unat c < 0x80 \<longrightarrow> mulle_utf32_is_char5character c) cs \<and> list_all (\<lambda>c. unat c < 0x80) cs
     \<longleftrightarrow> list_all mulle_utf32_is_char5character cs"
  using is_char5character_ascii by (auto simp: list_all_iff)

lemma bom_text_character: "text_character 0xFEFF"
  by (simp add: text_character_def mulle_utf32_is_valid_def)

lemma utf32_information_text:
  assumes cs: "list_all text_character cs" and tail: "text_end tail"
    and bom: "\<not> bom \<longrightarrow> cs = [] \<or> hd cs \<noteq> 0xFEFF"
    and src: "src = (if bom then [0xFEFF] else []) @ cs @ tail" "src \<noteq> []" "length src < 2 ^ 64 - 1"
  shows "mulle_utf32_information (Some src) (of_nat (length src)) =
    Some (True, utf_information_of cs bom (if bom then 1 else 0) (tail \<noteq> []))"
proof -
  let ?len = "of_nat (length src) :: size_t"
  have len: "unat ?len = length src" using src(3) by (simp add: unat64_of_nat)
  then have l0: "?len \<noteq> 0" "?len \<noteq> -1"
    using src(2,3) by (simp_all add: of_nat64_neq_minus_one of_nat64_neq_0 del: of_nat_eq_0_iff)
  have first: "slot src 0 = Some (hd src)"
    using src(2) by (simp add: slot_def hd_conv_nth)
  have b: "mulle_utf32_is_bomcharacter (hd src) = bom"
    using src(1,2) bom tail
    by (cases cs; cases tail) (auto simp: mulle_utf32_is_bomcharacter_def mulle_utf32_get_bomcharacter_def text_end_def)
  have w: "text_window (drop (unat (if bom then 1 else 0 :: size_t)) src) (if bom then ?len - 1 else ?len) = Some (cs @ tail)"
  proof (rule trans [OF _ text_window_Some])
    have "length src = (if bom then 1 else 0) + length (cs @ tail)" using src(1) by simp
    then show "unat (if bom then ?len - 1 else ?len) = length (cs @ tail)"
      using len unat64_sub [of 1 ?len] by (cases bom) (simp_all del: of_nat_Suc)
  qed (simp add: src(1))
  show ?thesis
    using l0 first b w
    by (simp add: mulle_utf32_information_def Let_def utf_information_init_def utf_information_of_def
        utf32_information_loop_text [OF cs tail] char5_text_iff)
qed

end
