(* ===== verification/Utf8.thy ===== *)
theory Utf8
  imports Utf32 Range
begin

text \<open>
  UTF-8 text: \<open>mulle-utf8.c\<close> and \<open>mulle-utf8.h\<close>. Classification of bytes, decoding of one character,
  iteration in both directions, the conversions to UTF-16, UTF-32 and ISO Latin 1 and from
  Latin 1, MacRoman and NeXTSTEP text, the block-wise conversions, validation, the information scan,
  the lengths and the lookup of a range of characters.

  \<open>None\<close> stands for a read behind the end of the memory the text is in.
\<close>

section \<open>Classification of bytes\<close>

definition mulle_utf8_is_asciicharacter :: "mulle_utf8_t \<Rightarrow> bool" where
  "mulle_utf8_is_asciicharacter c = (c < 0x80)"

datatype mulle_utf8_startcharactertype =
  mulle_utf8_ascii_start_character | mulle_utf8_multiple_start_character | mulle_utf8_invalid_start_character

definition mulle_utf8_is_invalidstartcharacter :: "mulle_utf8_t \<Rightarrow> bool" where
  "mulle_utf8_is_invalidstartcharacter c = (0x80 \<le> c \<and> c < 0xC2 \<or> 0xF5 \<le> c)"

definition mulle_utf8_get_startcharactertype :: "mulle_utf8_t \<Rightarrow> mulle_utf8_startcharactertype" where
  "mulle_utf8_get_startcharactertype c =
     (if mulle_utf8_is_asciicharacter c then mulle_utf8_ascii_start_character
      else if mulle_utf8_is_invalidstartcharacter c then mulle_utf8_invalid_start_character
      else mulle_utf8_multiple_start_character)"

definition mulle_utf8_is_validcontinuationcharacter :: "mulle_utf8_t \<Rightarrow> bool" where
  "mulle_utf8_is_validcontinuationcharacter c = (0x80 \<le> c \<and> c < 0xC0)"

definition mulle_utf8_get_extracharacterslength :: "mulle_utf8_t \<Rightarrow> size_t" where
  "mulle_utf8_get_extracharacterslength c = (if c < 0xE0 then 1 else if c < 0xF0 then 2 else 3)"

definition mulle_utf8_has_leading_bomcharacter :: "mulle_utf8_t list \<Rightarrow> bool" where
  "mulle_utf8_has_leading_bomcharacter src =
     (if length src < 3 then False else src ! 0 = 0xEF \<and> src ! 1 = 0xBB \<and> src ! 2 = 0xBF)"

section \<open>Decoding one character\<close>

definition mulle_utf8_extracharactersvalue :: "mulle_utf8_t list \<Rightarrow> size_t \<Rightarrow> mulle_utf32_t option" where
  "mulle_utf8_extracharactersvalue src extra_len = do {
     c \<leftarrow> slot src 0;
     if extra_len = 1 then do {
       let x = push_bit 6 (ucast (c AND 0x1F));
       c \<leftarrow> slot src 1;
       if \<not> mulle_utf8_is_validcontinuationcharacter c then Some (-2)
       else Some (x OR ucast (c AND 0x3F)) }
     else if extra_len = 2 then do {
       let x = push_bit 12 (ucast (c AND 0x0F));
       c \<leftarrow> slot src 1;
       if \<not> mulle_utf8_is_validcontinuationcharacter c then Some (-2)
       else do {
         let x = x OR push_bit 6 (ucast (c AND 0x3F));
         c \<leftarrow> slot src 2;
         if \<not> mulle_utf8_is_validcontinuationcharacter c then Some (-2)
         else Some (x OR ucast (c AND 0x3F)) } }
     else if extra_len = 3 then do {
       let x = push_bit 18 (ucast (c AND 0x7));
       c \<leftarrow> slot src 1;
       if \<not> mulle_utf8_is_validcontinuationcharacter c then Some (-2)
       else do {
         let x = x OR push_bit 12 (ucast (c AND 0x3F));
         c \<leftarrow> slot src 2;
         if \<not> mulle_utf8_is_validcontinuationcharacter c then Some (-2)
         else do {
           let x = x OR push_bit 6 (ucast (c AND 0x3F));
           c \<leftarrow> slot src 3;
           if \<not> mulle_utf8_is_validcontinuationcharacter c then Some (-2)
           else Some (x OR ucast (c AND 0x3F)) } } }
     else Some (ucast c) }"

text \<open>
  The pointer \<open>*s_p\<close> is an offset into the text. The result is the character and the new offset.
\<close>

definition u_mulle_utf8_next_utf32character :: "mulle_utf8_t list \<Rightarrow> nat \<Rightarrow> (mulle_utf32_t \<times> nat) option" where
  "u_mulle_utf8_next_utf32character txt i =
     (case drop i txt of [] \<Rightarrow> None
      | c # s \<Rightarrow>
          if mulle_utf8_is_asciicharacter c then Some (scast c, i + 1)
          else do {
            let len = mulle_utf8_get_extracharacterslength c;
            val \<leftarrow> mulle_utf8_extracharactersvalue (c # s) len;
            Some (val, i + 1 + unat len) })"

definition mulle_utf8_next_utf32character :: "mulle_utf8_t list \<Rightarrow> nat \<Rightarrow> (mulle_utf32_t \<times> nat) option" where
  "mulle_utf8_next_utf32character txt i =
     (case drop i txt of [] \<Rightarrow> None
      | c # s \<Rightarrow>
          if mulle_utf8_is_asciicharacter c then Some (scast c, i + 1)
          else u_mulle_utf8_next_utf32character txt i)"

text \<open>The search for the start of the previous character: its offset and the number of bytes behind it.\<close>

primrec utf8_previous_start :: "mulle_utf8_t list \<Rightarrow> nat \<Rightarrow> size_t \<Rightarrow> (nat \<times> size_t) option" where
  "utf8_previous_start txt 0 extra_len = None"
| "utf8_previous_start txt (Suc i) extra_len =
     (if length txt \<le> i then None
      else if mulle_utf8_get_startcharactertype (txt ! i) \<noteq> mulle_utf8_invalid_start_character
      then Some (i, extra_len)
      else utf8_previous_start txt i (extra_len + 1))"

definition u_mulle_utf8_previous_utf32character :: "mulle_utf8_t list \<Rightarrow> nat \<Rightarrow> (mulle_utf32_t \<times> nat) option" where
  "u_mulle_utf8_previous_utf32character txt i = do {
     (j, extra_len) \<leftarrow> utf8_previous_start txt i 0;
     val \<leftarrow> mulle_utf8_extracharactersvalue (drop j txt) extra_len;
     Some (val, j) }"

text \<open>The rover over a text of known length: the bytes from \<open>characters\<close> on, and \<open>length\<close>.\<close>

record mulle_utf8data =
  utf8data_characters :: "mulle_utf8_t list"
  utf8data_length :: size_t

definition uu_mulle_utf8data_next_utf32character ::
  "mulle_utf8data \<Rightarrow> mulle_utf8_t \<Rightarrow> (mulle_utf32_t \<times> mulle_utf8data) option" where
  "uu_mulle_utf8data_next_utf32character rover c =
     (let len = mulle_utf8_get_extracharacterslength c in
      if utf8data_length rover \<le> len then Some (-2, rover)
      else do {
        val \<leftarrow> mulle_utf8_extracharactersvalue (utf8data_characters rover) len;
        let len = len + 1;
        Some (val, rover\<lparr>utf8data_characters := drop (unat len) (utf8data_characters rover),
                         utf8data_length := utf8data_length rover - len\<rparr>) })"

definition u_mulle_utf8data_next_utf32character ::
  "mulle_utf8data \<Rightarrow> (mulle_utf32_t \<times> mulle_utf8data) option" where
  "u_mulle_utf8data_next_utf32character rover =
     (if utf8data_length rover = 0 then Some (-1, rover)
      else do {
        c \<leftarrow> slot (utf8data_characters rover) 0;
        if mulle_utf8_is_asciicharacter c
        then Some (ucast c, rover\<lparr>utf8data_characters := drop 1 (utf8data_characters rover),
                                 utf8data_length := utf8data_length rover - 1\<rparr>)
        else uu_mulle_utf8data_next_utf32character rover c })"

text \<open>The slower decoder: outer \<open>None\<close> is a read behind the text, inner \<open>None\<close> the answer 0.\<close>

definition mulle_utf8_are_valid_extracharacters :: "mulle_utf8_t list \<Rightarrow> size_t \<Rightarrow> mulle_utf32_t option option" where
  "mulle_utf8_are_valid_extracharacters src len = do {
     c \<leftarrow> slot src 0;
     r \<leftarrow>
       (if len = 1 then do {
          let x = push_bit 6 (ucast (c AND 0x1F));
          c \<leftarrow> slot src 1;
          if \<not> mulle_utf8_is_validcontinuationcharacter c then Some None
          else do {
            let x = x OR ucast (c AND 0x3F);
            if x <s 0x80 then Some None else Some (Some x) } }
        else if len = 2 then do {
          let x = push_bit 12 (ucast (c AND 0x0F));
          c \<leftarrow> slot src 1;
          if \<not> mulle_utf8_is_validcontinuationcharacter c then Some None
          else do {
            let x = x OR push_bit 6 (ucast (c AND 0x3F));
            c \<leftarrow> slot src 2;
            if \<not> mulle_utf8_is_validcontinuationcharacter c then Some None
            else do {
              let x = x OR ucast (c AND 0x3F);
              if x <s 0x800 then Some None else Some (Some x) } } }
        else do {
          let x = push_bit 18 (ucast (c AND 0x7));
          c \<leftarrow> slot src 1;
          if \<not> mulle_utf8_is_validcontinuationcharacter c then Some None
          else do {
            let x = x OR push_bit 12 (ucast (c AND 0x3F));
            c \<leftarrow> slot src 2;
            if \<not> mulle_utf8_is_validcontinuationcharacter c then Some None
            else do {
              let x = x OR push_bit 6 (ucast (c AND 0x3F));
              c \<leftarrow> slot src 3;
              if \<not> mulle_utf8_is_validcontinuationcharacter c then Some None
              else do {
                let x = x OR ucast (c AND 0x3F);
                if x <s 0x10000 \<or> 0x0010FFFF <s x then Some None else Some (Some x) } } } });
     case r of None \<Rightarrow> Some None
     | Some x \<Rightarrow> if mulle_utf32_is_invalidcharacter x then Some None else Some (Some x) }"

section \<open>Latin 1\<close>

fun u_mulle_iso1_convert_to_utf8 :: "uint8_t list \<Rightarrow> mulle_utf8_t list" where
  "u_mulle_iso1_convert_to_utf8 [] = []"
| "u_mulle_iso1_convert_to_utf8 (c # src) =
     (if c < 0x80 then c # u_mulle_iso1_convert_to_utf8 src
      else (0xC0 OR drop_bit 6 c) # (0x80 OR (c AND 0x3F)) # u_mulle_iso1_convert_to_utf8 src)"

text \<open>
  \<open>unknown\<close> is an \<open>int\<close>: negative to give up (the result \<open>None\<close> is the null pointer), zero to skip, and
  otherwise the byte to write. The inner loop skips continuation bytes.
\<close>

fun utf8_skip_continuation :: "mulle_utf8_t list \<Rightarrow> mulle_utf8_t list" where
  "utf8_skip_continuation [] = []"
| "utf8_skip_continuation (c # src) = (if c AND 0xC0 = 0x80 then utf8_skip_continuation src else c # src)"

lemma utf8_skip_continuation_length: "length (utf8_skip_continuation src) \<le> length src"
  by (induction src) auto

function (sequential) u_mulle_utf8_convert_to_iso1 :: "mulle_utf8_t list \<Rightarrow> int \<Rightarrow> uint8_t list option" where
  "u_mulle_utf8_convert_to_iso1 [] unknown = Some []"
| "u_mulle_utf8_convert_to_iso1 (c # src) unknown =
     (if c < 0x80 then map_option ((#) c) (u_mulle_utf8_convert_to_iso1 src unknown)
      else if c AND 0xFC = 0xC0 \<and> src \<noteq> [] \<and> hd src AND 0xC0 = 0x80
      then map_option ((#) (push_bit 6 (c AND 0x3) OR (hd src AND 0x3F)))
             (u_mulle_utf8_convert_to_iso1 (tl src) unknown)
      else
        let src = (if c AND 0xFC = 0xC0 then src else utf8_skip_continuation src)
        in if unknown < 0 then None
           else if unknown = 0 then u_mulle_utf8_convert_to_iso1 src unknown
           else map_option ((#) (word_of_int unknown)) (u_mulle_utf8_convert_to_iso1 src unknown))"
  by pat_completeness auto
termination
  using utf8_skip_continuation_length
  by (relation "measure (\<lambda>(src, _). length src)") (auto simp: less_Suc_eq_le split: if_splits)

section \<open>Conversion to UTF-16 and UTF-32\<close>

function (sequential) u_mulle_utf8_convert_to_utf16 :: "mulle_utf8_t list \<Rightarrow> mulle_utf16_t list option" where
  "u_mulle_utf8_convert_to_utf16 [] = Some []"
| "u_mulle_utf8_convert_to_utf16 (c # src) =
     (if mulle_utf8_is_asciicharacter c
      then map_option ((#) (ucast c)) (u_mulle_utf8_convert_to_utf16 src)
      else let extra_len = mulle_utf8_get_extracharacterslength c in
        if unat extra_len > length src then Some []
        else do {
          x \<leftarrow> mulle_utf8_extracharactersvalue (c # src) extra_len;
          if x < 0x10000
          then map_option ((#) (ucast x)) (u_mulle_utf8_convert_to_utf16 (drop (unat extra_len) src))
          else map_option ((@) (u_mulle_utf32_convert_to_utf16_as_surrogatepair x))
                 (u_mulle_utf8_convert_to_utf16 (drop (unat extra_len) src)) })"
  by pat_completeness auto
termination
  by (relation "measure length") auto

function (sequential) u_mulle_utf8_convert_to_utf32 :: "mulle_utf8_t list \<Rightarrow> mulle_utf32_t list option" where
  "u_mulle_utf8_convert_to_utf32 [] = Some []"
| "u_mulle_utf8_convert_to_utf32 (c # src) =
     (if mulle_utf8_is_asciicharacter c
      then map_option ((#) (ucast c)) (u_mulle_utf8_convert_to_utf32 src)
      else let extra_len = mulle_utf8_get_extracharacterslength c in
        if unat extra_len > length src then Some []
        else do {
          x \<leftarrow> mulle_utf8_extracharactersvalue (c # src) extra_len;
          map_option ((#) x) (u_mulle_utf8_convert_to_utf32 (drop (unat extra_len) src)) })"
  by pat_completeness auto
termination
  by (relation "measure length") auto

text \<open>The same loops with an array \<open>tmp\<close> of 64 UTF-16 or 32 UTF-32 units.\<close>

function (sequential) utf8_blocks_to_utf16 ::
  "mulle_utf8_t list \<Rightarrow> mulle_utf16_t list \<Rightarrow> mulle_utf16_t list list option" where
  "utf8_blocks_to_utf16 [] tmp = Some (tmp_flush tmp)"
| "utf8_blocks_to_utf16 (c # src) tmp =
     (let (bs, s) = tmp_preflush (64 - 2) tmp in map_option ((@) bs)
       (if mulle_utf8_is_asciicharacter c
        then do { s \<leftarrow> tmp_put 64 s [ucast c]; utf8_blocks_to_utf16 src s }
        else let extra_len = mulle_utf8_get_extracharacterslength c in
          if unat extra_len > length src then Some (tmp_flush s)
          else do {
            x \<leftarrow> mulle_utf8_extracharactersvalue (c # src) extra_len;
            if x < 0x10000
            then do { s \<leftarrow> tmp_put 64 s [ucast x]; utf8_blocks_to_utf16 (drop (unat extra_len) src) s }
            else do { s \<leftarrow> tmp_put 64 s (u_mulle_utf32_convert_to_utf16_as_surrogatepair x);
                      utf8_blocks_to_utf16 (drop (unat extra_len) src) s } }))"
  by pat_completeness auto
termination
  by (relation "measure (\<lambda>(src, _). length src)") auto

definition mulle_utf8_bufferconvert_to_utf16 :: "mulle_utf8_t list \<Rightarrow> size_t \<Rightarrow> mulle_utf16_t list list option" where
  "mulle_utf8_bufferconvert_to_utf16 src len = do {
     len \<leftarrow> (if len = -1 then mulle_utf8_strlen (Some src) else Some len);
     w \<leftarrow> text_window src len;
     utf8_blocks_to_utf16 w [] }"

function (sequential) utf8_blocks_to_utf32 ::
  "mulle_utf8_t list \<Rightarrow> mulle_utf32_t list \<Rightarrow> mulle_utf32_t list list option" where
  "utf8_blocks_to_utf32 [] tmp = Some (tmp_flush tmp)"
| "utf8_blocks_to_utf32 (c # src) s =
     (if mulle_utf8_is_asciicharacter c
      then do {
        s \<leftarrow> tmp_put 32 s [ucast c];
        let (bs, s) = tmp_postflush 32 s;
        map_option ((@) bs) (utf8_blocks_to_utf32 src s) }
      else let extra_len = mulle_utf8_get_extracharacterslength c in
        if unat extra_len > length src then Some (tmp_flush s)
        else do {
          x \<leftarrow> mulle_utf8_extracharactersvalue (c # src) extra_len;
          s \<leftarrow> tmp_put 32 s [x];
          let (bs, s) = tmp_postflush 32 s;
          map_option ((@) bs) (utf8_blocks_to_utf32 (drop (unat extra_len) src) s) })"
  by pat_completeness auto
termination
  by (relation "measure (\<lambda>(src, _). length src)") auto

definition mulle_utf8_bufferconvert_to_utf32 :: "mulle_utf8_t list \<Rightarrow> size_t \<Rightarrow> mulle_utf32_t list list option" where
  "mulle_utf8_bufferconvert_to_utf32 src len = do {
     len \<leftarrow> (if len = -1 then mulle_utf8_strlen (Some src) else Some len);
     w \<leftarrow> text_window src len;
     utf8_blocks_to_utf32 w [] }"

section \<open>Validation and information\<close>

function (sequential) utf8_validate_loop :: "mulle_utf8_t list \<Rightarrow> size_t \<Rightarrow> size_t option option" where
  "utf8_validate_loop [] i = Some None"
| "utf8_validate_loop (c # src) i =
     (if c = 0 then Some None
      else if mulle_utf8_is_asciicharacter c then utf8_validate_loop src (i + 1)
      else if mulle_utf8_is_invalidstartcharacter c then Some (Some i)
      else let extra_len = mulle_utf8_get_extracharacterslength c in
        if unat extra_len \<ge> length (c # src) then Some (Some i)
        else do {
          r \<leftarrow> mulle_utf8_are_valid_extracharacters (c # src) extra_len;
          case r of None \<Rightarrow> Some (Some i)
          | Some _ \<Rightarrow> utf8_validate_loop (drop (unat extra_len) src) (i + extra_len + 1) })"
  by pat_completeness auto
termination
  by (relation "measure (\<lambda>(src, _). length src)") auto

definition mulle_utf8_validate :: "mulle_utf8_t list option \<Rightarrow> size_t \<Rightarrow> size_t option option" where
  "mulle_utf8_validate src len = (case src of None \<Rightarrow> Some None | Some s \<Rightarrow> do {
     len \<leftarrow> (if len = -1 then mulle_utf8_strlen src else Some len);
     w \<leftarrow> text_window s len;
     if mulle_utf8_has_leading_bomcharacter w
     then utf8_validate_loop (drop 3 w) 3
     else utf8_validate_loop w 0 })"

text \<open>The scan keeps \<open>dst_len\<close> beside the struct; \<open>Inl\<close> is the jump to \<open>fail\<close>.\<close>

function (sequential) utf8_information_loop ::
  "mulle_utf8_t list \<Rightarrow> size_t \<Rightarrow> size_t \<Rightarrow> mulle_utf_information
     \<Rightarrow> (size_t + (size_t \<times> size_t \<times> mulle_utf_information)) option" where
  "utf8_information_loop [] i dst_len info = Some (Inr (i, dst_len, info))"
| "utf8_information_loop (c # src) i dst_len info =
     (if mulle_utf8_is_asciicharacter c
      then if c = 0 then Some (Inr (i, dst_len, info\<lparr>has_terminating_zero := True\<rparr>))
           else utf8_information_loop src (i + 1) dst_len
                  (if is_char5_text info \<and> \<not> mulle_utf8_is_char5character c
                   then info\<lparr>is_char5_text := False\<rparr> else info)
      else
        let info = info\<lparr>is_ascii := False\<rparr> in
        if mulle_utf8_is_invalidstartcharacter c then Some (Inl i)
        else let extra_len = mulle_utf8_get_extracharacterslength c; dst_len = dst_len - extra_len in
          if unat extra_len \<ge> length (c # src) then Some (Inl i)
          else do {
            r \<leftarrow> mulle_utf8_are_valid_extracharacters (c # src) extra_len;
            case r of None \<Rightarrow> Some (Inl i)
            | Some x \<Rightarrow>
                let info = (if 0x8000 \<le>s x then info\<lparr>is_utf15 := False\<rparr> else info);
                    info = (if 0x10000 \<le>s x then info\<lparr>utf16len := utf16len info + 1\<rparr> else info)
                in utf8_information_loop (drop (unat extra_len) src) (i + extra_len + 1) dst_len info })"
  by pat_completeness auto
termination
  by (relation "measure (\<lambda>(src, _). length src)") auto

definition mulle_utf8_information ::
  "mulle_utf8_t list option \<Rightarrow> size_t \<Rightarrow> (bool \<times> mulle_utf_information) option" where
  "mulle_utf8_information src len =
     (if len = 0 then Some (True, utf_information_init\<lparr>utf_start := map_option (\<lambda>_. 0) src\<rparr>)
      else case src of None \<Rightarrow> Some (False, utf_information_fail None) | Some s \<Rightarrow> do {
        len \<leftarrow> (if len = -1 then mulle_utf8_strlen src else Some len);
        w \<leftarrow> text_window s len;
        let bom = mulle_utf8_has_leading_bomcharacter w;
        let start = (if bom then 3 else 0);
        let len = (if bom then len - 3 else len);
        r \<leftarrow> utf8_information_loop (drop (unat start) w) 0 len
               (utf_information_init\<lparr>has_bom := bom, utf_start := Some start\<rparr>);
        Some (case r of
            Inl i \<Rightarrow> (False, utf_information_fail (Some (start + i)))
          | Inr (i, dst_len, info) \<Rightarrow>
              let info = info\<lparr>utf8len := i\<rparr>;
                  info = info\<lparr>utf32len := dst_len - (len - utf8len info)\<rparr>;
                  info = info\<lparr>utf16len := utf16len info + utf32len info\<rparr>
              in (True, info\<lparr>is_char5_text := (is_char5_text info \<and> is_ascii info)\<rparr>)) })"

definition mulle_utf8_is_ascii :: "mulle_utf8_t list option \<Rightarrow> size_t \<Rightarrow> bool option" where
  "mulle_utf8_is_ascii src len = (case src of None \<Rightarrow> Some False | Some s \<Rightarrow> do {
     len \<leftarrow> (if len = -1 then mulle_utf8_strlen src else Some len);
     w \<leftarrow> text_window s len;
     Some (list_all mulle_utf8_is_asciicharacter w) })"

section \<open>Lengths\<close>

function (sequential) utf8_utf16length_loop :: "mulle_utf8_t list \<Rightarrow> size_t \<Rightarrow> size_t" where
  "utf8_utf16length_loop [] dst_len = dst_len"
| "utf8_utf16length_loop (c # src) dst_len =
     (if mulle_utf8_is_asciicharacter c then utf8_utf16length_loop src dst_len
      else let extra_len = mulle_utf8_get_extracharacterslength c;
               dst_len = dst_len - (if extra_len = 3 then 2 else extra_len)
        in if unat extra_len > length (c # src) then -1
           else utf8_utf16length_loop (drop (unat extra_len) src) dst_len)"
  by pat_completeness auto
termination
  by (relation "measure (\<lambda>(src, _). length src)") auto

definition mulle_utf8_utf16length :: "mulle_utf8_t list option \<Rightarrow> size_t \<Rightarrow> size_t option" where
  "mulle_utf8_utf16length src len = (case src of None \<Rightarrow> Some 0 | Some s \<Rightarrow> do {
     len \<leftarrow> (if len = -1 then mulle_utf8_strlen src else Some len);
     w \<leftarrow> text_window s len;
     Some (utf8_utf16length_loop w len) })"

function (sequential) utf8_utf32length_loop :: "mulle_utf8_t list \<Rightarrow> size_t \<Rightarrow> size_t" where
  "utf8_utf32length_loop [] dst_len = dst_len"
| "utf8_utf32length_loop (c # src) dst_len =
     (if mulle_utf8_is_asciicharacter c then utf8_utf32length_loop src dst_len
      else let extra_len = mulle_utf8_get_extracharacterslength c;
               dst_len = dst_len - extra_len
        in if unat extra_len > length (c # src) then -1
           else utf8_utf32length_loop (drop (unat extra_len) src) dst_len)"
  by pat_completeness auto
termination
  by (relation "measure (\<lambda>(src, _). length src)") auto

definition mulle_utf8_utf32length :: "mulle_utf8_t list option \<Rightarrow> size_t \<Rightarrow> size_t option" where
  "mulle_utf8_utf32length src len = (case src of None \<Rightarrow> Some 0 | Some s \<Rightarrow> do {
     len \<leftarrow> (if len = -1 then mulle_utf8_strlen src else Some len);
     w \<leftarrow> text_window s len;
     Some (utf8_utf32length_loop w len) })"

section \<open>Ranges of characters\<close>

definition mulle_utf8data_make :: "mulle_utf8_t list option \<Rightarrow> size_t \<Rightarrow> mulle_utf8data option" where
  "mulle_utf8data_make s len = do {
     n \<leftarrow> (if len = -1 then (case s of None \<Rightarrow> None | Some us \<Rightarrow> unit_strlen us) else Some len);
     if n = 0 then Some \<lparr>utf8data_characters = [0], utf8data_length = 0\<rparr>
     else map_option (\<lambda>us. \<lparr>utf8data_characters = us, utf8data_length = n\<rparr>) s }"

text \<open>
  \<open>s\<close> and \<open>rval\<close> are the texts from the two pointers up to the sentinel; the returned pointer is given
  by its distance from the start of the data. \<open>None\<close> is the final \<open>mulle_utf8data_make( NULL, 0)\<close>.
\<close>

fun utf8_range_loop :: "mulle_utf8_t list \<Rightarrow> uintptr_t \<Rightarrow> mulle_utf8_t list \<Rightarrow> uintptr_t \<Rightarrow> uintptr_t
    \<Rightarrow> (mulle_utf8_t list \<times> size_t) option" where
  "utf8_range_loop [] i rval loc end_i =
     (if i = end_i then Some (rval, of_nat (length rval)) else None)"
| "utf8_range_loop (c # s) i rval loc end_i =
     (let rval = (if i = loc then c # s else rval) in
      if c AND 0xC0 = 0x80 then utf8_range_loop s i rval loc end_i
      else if i = end_i then Some (rval, of_nat (length rval - length (c # s)))
      else utf8_range_loop s (i + 1) rval loc end_i)"

definition mulle_utf8data_range_of_utf32_range :: "mulle_utf8data \<Rightarrow> mulle_range \<Rightarrow> mulle_utf8data option" where
  "mulle_utf8data_range_of_utf32_range data rng =
     (let rng = mulle_range_validate_against_length rng (utf8data_length data) in
      if range_length rng = 0 then mulle_utf8data_make None 0
      else do {
        w \<leftarrow> text_window (utf8data_characters data) (utf8data_length data);
        case utf8_range_loop w 0 w (location rng) (location rng + range_length rng) of
          Some (rval, n) \<Rightarrow> Some \<lparr>utf8data_characters = rval, utf8data_length = n\<rparr>
        | None \<Rightarrow> mulle_utf8data_make None 0 })"

section \<open>Eight bit encodings with a table\<close>

text \<open>A byte from 0x80 on is looked up; a missing entry would be a read behind the table.\<close>

fun u_mulle_table_convert_to_utf8 :: "uint8_t list \<Rightarrow> uint16_t list \<Rightarrow> mulle_utf8_t list option" where
  "u_mulle_table_convert_to_utf8 [] table = Some []"
| "u_mulle_table_convert_to_utf8 (c # src) table =
     (if c < 0x80 then map_option ((#) c) (u_mulle_table_convert_to_utf8 src table)
      else do {
        utf16 \<leftarrow> slot table (ucast (c - 0x80));
        map_option ((@) (u_mulle_utf32_as_utf8_not_ascii (ucast utf16))) (u_mulle_table_convert_to_utf8 src table) })"

definition macroman_0x80_0xFF :: "uint16_t list" where
  "macroman_0x80_0xFF =
   [0x00C4, 0x00C5, 0x00C7, 0x00C9,  0x00D1, 0x00D6, 0x00DC, 0x00E1,
    0x00E0, 0x00E2, 0x00E4, 0x00E3,  0x00E5, 0x00E7, 0x00E9, 0x00E8,
    0x00EA, 0x00EB, 0x00ED, 0x00EC,  0x00EE, 0x00EF, 0x00F1, 0x00F3,
    0x00F2, 0x00F4, 0x00F6, 0x00F5,  0x00FA, 0x00F9, 0x00FB, 0x00FC,
    0x2020, 0x00B0, 0x00A2, 0x00A3,  0x00A7, 0x2022, 0x00B6, 0x00DF,
    0x00AE, 0x00A9, 0x2122, 0x00B4,  0x00A8, 0x2260, 0x00C6, 0x00D8,
    0x221E, 0x00B1, 0x2264, 0x2265,  0x00A5, 0x00B5, 0x2202, 0x2211,
    0x220F, 0x03C0, 0x222B, 0x00AA,  0x00BA, 0x03A9, 0x00E6, 0x00F8,
    0x00BF, 0x00A1, 0x00AC, 0x221A,  0x0192, 0x2248, 0x2206, 0x00AB,
    0x00BB, 0x2026, 0x00A0, 0x00C0,  0x00C3, 0x00D5, 0x0152, 0x0153,
    0x2013, 0x2014, 0x201C, 0x201D,  0x2018, 0x2019, 0x00F7, 0x25CA,
    0x00FF, 0x0178, 0x2044, 0x20AC,  0x2039, 0x203A, 0xFB01, 0xFB02,
    0x2021, 0x00B7, 0x201A, 0x201E,  0x2030, 0x00C2, 0x00CA, 0x00C1,
    0x00CB, 0x00C8, 0x00CD, 0x00CE,  0x00CF, 0x00CC, 0x00D3, 0x00D4,
    0xF8FF, 0x00D2, 0x00DA, 0x00DB,  0x00D9, 0x0131, 0x02C6, 0x02DC,
    0x00AF, 0x02D8, 0x02D9, 0x02DA,  0x00B8, 0x02DD, 0x02DB, 0x02C7]"

definition nextstep_0x80_0xFD :: "uint16_t list" where
  "nextstep_0x80_0xFD =
   [160,  192,  193,  194,    195,   196,   197,   199,
    200,  201,  202,  203,    204,   205,   206,   207,
    208,  209,  210,  211,    212,   213,   214,   217,
    218,  219,  220,  221,    222,   181,   215,   247,
    169,  161,  162,  163,   8260,   165,   402,   167,
    164, 8217, 8220,  171,   8249,  8250, 64257, 64258,
    174, 8211, 8224, 8225,    183,   166,   182,  8729,
   8218, 8222, 8221,  187,   8943,  8240,   172,   191,
    185, 768, 180, 770,   771, 175, 728, 729,
    168, 178, 176, 184,   179, 733, 731, 711,
    821, 177, 188, 189,   190, 224, 225, 226,
    227, 228, 229, 231,   232, 233, 234, 235,
    236, 198, 237, 170,   238, 239, 240, 241,
    321, 216, 338, 186,   242, 243, 244, 245,
    246, 230, 249, 250,   251, 305, 252, 253,
    322, 248, 339, 223,   254, 255, 0xFFFD, 0xFFFD]"

definition u_mulle_macroman_convert_to_utf8 :: "uint8_t list \<Rightarrow> mulle_utf8_t list option" where
  "u_mulle_macroman_convert_to_utf8 src = u_mulle_table_convert_to_utf8 src macroman_0x80_0xFF"

definition u_mulle_nextstep_convert_to_utf8 :: "uint8_t list \<Rightarrow> mulle_utf8_t list option" where
  "u_mulle_nextstep_convert_to_utf8 src = u_mulle_table_convert_to_utf8 src nextstep_0x80_0xFD"

section \<open>The arithmetic of decoding\<close>

lemma byte_class_unat [word_unat]:
  "mulle_utf8_is_asciicharacter c \<longleftrightarrow> unat c < 0x80"
  "mulle_utf8_is_invalidstartcharacter c \<longleftrightarrow> 0x80 \<le> unat c \<and> unat c < 0xC2 \<or> 0xF5 \<le> unat c"
  "mulle_utf8_is_validcontinuationcharacter c \<longleftrightarrow> 0x80 \<le> unat c \<and> unat c < 0xC0"
  "unat (mulle_utf8_get_extracharacterslength c) =
     (if unat c < 0xE0 then 1 else if unat c < 0xF0 then 2 else 3)"
  by (simp_all add: mulle_utf8_is_asciicharacter_def mulle_utf8_is_invalidstartcharacter_def
      mulle_utf8_is_validcontinuationcharacter_def mulle_utf8_get_extracharacterslength_def
      word_less_nat_alt word_le_nat_alt)

lemma extracharacterslength_cases:
  "mulle_utf8_get_extracharacterslength c = 1 \<longleftrightarrow> unat c < 0xE0"
  "mulle_utf8_get_extracharacterslength c = 2 \<longleftrightarrow> 0xE0 \<le> unat c \<and> unat c < 0xF0"
  "mulle_utf8_get_extracharacterslength c = 3 \<longleftrightarrow> 0xF0 \<le> unat c"
  by (auto simp: mulle_utf8_get_extracharacterslength_def word_less_nat_alt)

lemma payload:
  "unat (ucast ((c :: 8 word) AND mask m) :: 32 word) = unat c mod 2 ^ m"
  by (simp add: unat_ucast_8 unat_and_mask)

lemma shifted_payload:
  assumes "m + k \<le> 32"
  shows "unat (push_bit k (ucast ((c :: 8 word) AND mask m)) :: 32 word) = unat c mod 2 ^ m * 2 ^ k"
proof -
  have "unat c mod 2 ^ m * 2 ^ k < 2 ^ m * 2 ^ k" by simp
  also have "\<dots> = (2 :: nat) ^ (m + k)" by (simp add: power_add)
  also have "\<dots> \<le> 2 ^ 32" using assms by (intro power_increasing) simp_all
  finally have "unat c mod 2 ^ m * 2 ^ k < 2 ^ 32" .
  then show ?thesis
    unfolding unsigned_push_bit_eq payload
    by (simp add: push_bit_eq_mult [where 'a = nat] take_bit_nat_eq_self)
qed

lemma decode2:
  "unat (push_bit 6 (ucast (c AND 0x1F)) OR ucast ((d :: 8 word) AND 0x3F) :: 32 word) =
     unat (c :: 8 word) mod 32 * 64 + unat d mod 64"
proof -
  have "unat (push_bit 6 (ucast (c AND 0x1F)) :: 32 word) = unat c mod 32 * 64"
    using shifted_payload [of 5 6 c] by (simp add: mask_numeral)
  moreover have "unat (ucast (d AND 0x3F) :: 32 word) = unat d mod 64"
    using payload [of d 6] by (simp add: mask_numeral)
  ultimately show ?thesis
    using unat_or_disjoint [of "push_bit 6 (ucast (c AND 0x1F)) :: 32 word" "unat c mod 32" 6] by simp
qed

lemma decode_more:
  assumes "unat (x :: 32 word) = q * 2 ^ (k + 6)" and "k + 6 \<le> 26"
  shows "unat (x OR push_bit k (ucast ((d :: 8 word) AND 0x3F))) = unat x + unat d mod 64 * 2 ^ k"
proof -
  have p: "unat (push_bit k (ucast (d AND 0x3F)) :: 32 word) = unat d mod 64 * 2 ^ k"
    using shifted_payload [of 6 k d] assms(2) by (simp add: mask_numeral)
  have "unat d mod 64 * 2 ^ k < 64 * 2 ^ k" by simp
  then have "unat (push_bit k (ucast (d AND 0x3F)) :: 32 word) < 2 ^ (k + 6)"
    unfolding p by (simp add: power_add mult.commute)
  with unat_or_disjoint [OF assms(1)] p show ?thesis by simp
qed

lemma decode3:
  "unat (push_bit 12 (ucast (c AND 0x0F)) OR push_bit 6 (ucast (d AND 0x3F)) OR ucast (e AND 0x3F) :: 32 word) =
     (unat (c :: 8 word) mod 16 * 64 + unat (d :: 8 word) mod 64) * 64 + unat (e :: 8 word) mod 64"
proof -
  let ?x = "push_bit 12 (ucast (c AND 0x0F)) :: 32 word"
  have x: "unat ?x = unat c mod 16 * 2 ^ (6 + 6)"
    using shifted_payload [of 4 12 c] by (simp add: mask_numeral)
  have y: "unat (?x OR push_bit 6 (ucast (d AND 0x3F))) = (unat c mod 16 * 64 + unat d mod 64) * 2 ^ (0 + 6)"
    using decode_more [OF x, of d] x by simp
  from decode_more [OF y, of e] y show ?thesis by (simp add: or.assoc)
qed

lemma decode4:
  "unat (push_bit 18 (ucast (c AND 0x7)) OR push_bit 12 (ucast (d AND 0x3F)) OR
         push_bit 6 (ucast (e AND 0x3F)) OR ucast (f AND 0x3F) :: 32 word) =
     ((unat (c :: 8 word) mod 8 * 64 + unat (d :: 8 word) mod 64) * 64 + unat (e :: 8 word) mod 64) * 64
       + unat (f :: 8 word) mod 64"
proof -
  let ?x = "push_bit 18 (ucast (c AND 0x7)) :: 32 word"
  have x: "unat ?x = unat c mod 8 * 2 ^ (12 + 6)"
    using shifted_payload [of 3 18 c] by (simp add: mask_numeral)
  have y: "unat (?x OR push_bit 12 (ucast (d AND 0x3F))) = (unat c mod 8 * 64 + unat d mod 64) * 2 ^ (6 + 6)"
    using decode_more [OF x, of d] x by simp
  have z: "unat (?x OR push_bit 12 (ucast (d AND 0x3F)) OR push_bit 6 (ucast (e AND 0x3F))) =
      ((unat c mod 8 * 64 + unat d mod 64) * 64 + unat e mod 64) * 2 ^ (0 + 6)"
    using decode_more [OF y, of e] y by (simp add: or.assoc)
  from decode_more [OF z, of f] z show ?thesis by (simp add: or.assoc)
qed

section \<open>Decoding undoes encoding\<close>

lemma slot_numeral [simp]:
  "slot (a # xs) 0 = Some a" "slot (a # b # xs) 1 = Some b" "slot (a # b # c # xs) 2 = Some c"
  "slot (a # b # c # d # xs) 3 = Some d"
  by (simp_all add: slot_def)

lemma digits64:
  assumes "b < (64 :: nat)"
  shows "(a * 64 + b) div 64 = a" and "(a * 64 + b) mod 64 = b"
  using assms by simp_all

lemma map_unat_two: "map unat us = [m, n] \<Longrightarrow> \<exists>c d. us = [c, d] \<and> unat c = m \<and> unat d = n"
  by (auto simp: map_eq_Cons_conv)

lemma map_unat_three: "map unat us = [m, n, k] \<Longrightarrow> \<exists>c d e. us = [c, d, e] \<and> unat c = m \<and> unat d = n \<and> unat e = k"
  by (auto simp: map_eq_Cons_conv)

lemma map_unat_four:
  "map unat us = [m, n, k, l] \<Longrightarrow> \<exists>c d e f. us = [c, d, e, f] \<and> unat c = m \<and> unat d = n \<and> unat e = k \<and> unat f = l"
  by (auto simp: map_eq_Cons_conv)

text \<open>The lead byte, the continuation bytes and what both decoders read from them.\<close>

definition utf8_sequence :: "mulle_utf32_t \<Rightarrow> mulle_utf8_t \<Rightarrow> mulle_utf8_t list \<Rightarrow> bool" where
  "utf8_sequence x c cs \<longleftrightarrow> 0xC2 \<le> unat c \<and> unat c \<le> 0xF4 \<and>
     unat (mulle_utf8_get_extracharacterslength c) = length cs \<and>
     list_all mulle_utf8_is_validcontinuationcharacter cs \<and>
     (\<forall>us. mulle_utf8_extracharactersvalue (c # cs @ us) (mulle_utf8_get_extracharacterslength c) = Some x) \<and>
     (\<forall>us. mulle_utf8_are_valid_extracharacters (c # cs @ us) (mulle_utf8_get_extracharacterslength c) =
        Some (if mulle_utf32_is_invalidcharacter x then None else Some x))"

lemma as_utf8_sequence:
  assumes lo: "0x80 \<le> unat x" and hi: "unat x \<le> 0x10FFFF"
  shows "\<exists>c cs. mulle_utf32_as_utf8 x = c # cs \<and> utf8_sequence x c cs"
proof -
  note bytes = as_utf8_bytes [OF hi, unfolded utf8_bytes_def]
  consider (two) "unat x < 0x800" | (three) "0x800 \<le> unat x" "unat x < 0x10000" | (four) "0x10000 \<le> unat x"
    by linarith
  then show ?thesis
  proof cases
    case two
    then obtain c d where cd: "mulle_utf32_as_utf8 x = [c, d]" "unat c = 0xC0 + unat x div 64" "unat d = 0x80 + unat x mod 64"
      using bytes lo map_unat_two by fastforce
    have q: "2 \<le> unat x div 64" "unat x div 64 < 32" using lo two by simp_all
    then have len: "mulle_utf8_get_extracharacterslength c = 1" using cd by (simp add: extracharacterslength_cases)
    have v: "push_bit 6 (ucast (c AND 0x1F)) OR ucast (d AND 0x3F) = x"
      using cd q by (simp add: unat_eq_iff decode2 mod_add_self1 mod_add_eq [symmetric])
    have "utf8_sequence x c [d]"
      using cd q lo two len v by (simp add: utf8_sequence_def byte_class_unat mulle_utf8_extracharactersvalue_def
          mulle_utf8_are_valid_extracharacters_def sless32)
    with cd show ?thesis by blast
  next
    case three
    then obtain c d e where cd: "mulle_utf32_as_utf8 x = [c, d, e]" "unat c = 0xE0 + unat x div 4096"
        "unat d = 0x80 + unat x div 64 mod 64" "unat e = 0x80 + unat x mod 64"
      using bytes lo map_unat_three by fastforce
    have q: "unat x div 4096 < 16" using three by simp
    then have len: "mulle_utf8_get_extracharacterslength c = 2" using cd by (simp add: extracharacterslength_cases)
    have "unat x div 4096 = unat x div 64 div 64" by (simp add: div_mult2_eq [symmetric])
    then have v: "push_bit 12 (ucast (c AND 0x0F)) OR push_bit 6 (ucast (d AND 0x3F)) OR ucast (e AND 0x3F) = x"
      using cd q by (simp add: unat_eq_iff decode3 mod_add_self1 mod_add_eq [symmetric])
    have "utf8_sequence x c [d, e]"
      using cd q three len v by (simp add: utf8_sequence_def byte_class_unat mulle_utf8_extracharactersvalue_def
          mulle_utf8_are_valid_extracharacters_def sless32 or.assoc)
    with cd show ?thesis by blast
  next
    case four
    then obtain c d e f where cd: "mulle_utf32_as_utf8 x = [c, d, e, f]" "unat c = 0xF0 + unat x div 262144"
        "unat d = 0x80 + unat x div 4096 mod 64" "unat e = 0x80 + unat x div 64 mod 64" "unat f = 0x80 + unat x mod 64"
      using bytes lo map_unat_four by fastforce
    have q: "unat x div 262144 \<le> 4" using hi by simp
    then have len: "mulle_utf8_get_extracharacterslength c = 3" using cd by (simp add: extracharacterslength_cases)
    have "unat x div 4096 = unat x div 64 div 64" "unat x div 262144 = unat x div 64 div 64 div 64"
      by (simp_all add: div_mult2_eq [symmetric])
    then have v: "push_bit 18 (ucast (c AND 0x7)) OR push_bit 12 (ucast (d AND 0x3F)) OR
         push_bit 6 (ucast (e AND 0x3F)) OR ucast (f AND 0x3F) = x"
      using cd q by (simp add: unat_eq_iff decode4 mod_add_self1 mod_add_eq [symmetric])
    have "utf8_sequence x c [d, e, f]"
      using cd q four hi len v by (simp add: utf8_sequence_def byte_class_unat mulle_utf8_extracharactersvalue_def
          mulle_utf8_are_valid_extracharacters_def sless32 or.assoc)
    with cd show ?thesis by blast
  qed
qed

section \<open>Only encodings are accepted\<close>

lemma base_digit: "m * q \<le> (n :: nat) \<Longrightarrow> n < m * Suc q \<Longrightarrow> n = m * q + n mod m"
  using div_nat_eqI [of m q n] mult_div_mod_eq [of m n] by (simp add: mult.commute)

lemma continuation_digit: "mulle_utf8_is_validcontinuationcharacter c \<Longrightarrow> unat c = 0x80 + unat c mod 64"
  using base_digit [of 64 2 "unat c"] by (simp add: byte_class_unat)

lemma lead_digit:
  "0xC0 \<le> unat (c :: 8 word) \<Longrightarrow> unat c < 0xE0 \<Longrightarrow> unat c = 0xC0 + unat c mod 32"
  "0xE0 \<le> unat c \<Longrightarrow> unat c < 0xF0 \<Longrightarrow> unat c = 0xE0 + unat c mod 16"
  "0xF0 \<le> unat c \<Longrightarrow> unat c < 0xF8 \<Longrightarrow> unat c = 0xF0 + unat c mod 8"
  using base_digit [of 32 6 "unat c"] base_digit [of 16 14 "unat c"] base_digit [of 8 30 "unat c"] by simp_all

lemma utf8_bytes_digits:
  "b < 64 \<Longrightarrow> 0x80 \<le> a * 64 + b \<Longrightarrow> a * 64 + b < 0x800 \<Longrightarrow> utf8_bytes (a * 64 + b) = [0xC0 + a, 0x80 + b]"
  "b < 64 \<Longrightarrow> d < 64 \<Longrightarrow> 0x800 \<le> (a * 64 + b) * 64 + d \<Longrightarrow> (a * 64 + b) * 64 + d < 0x10000 \<Longrightarrow>
     utf8_bytes ((a * 64 + b) * 64 + d) = [0xE0 + a, 0x80 + b, 0x80 + d]"
  "b < 64 \<Longrightarrow> d < 64 \<Longrightarrow> e < 64 \<Longrightarrow> 0x10000 \<le> ((a * 64 + b) * 64 + d) * 64 + e \<Longrightarrow>
     utf8_bytes (((a * 64 + b) * 64 + d) * 64 + e) = [0xF0 + a, 0x80 + b, 0x80 + d, 0x80 + e]"
proof -
  have dv: "n div 0x1000 = n div 64 div 64" "n div 0x40000 = n div 64 div 64 div 64" for n :: nat
    by (simp_all add: div_mult2_eq [symmetric])
  show "b < 64 \<Longrightarrow> 0x80 \<le> a * 64 + b \<Longrightarrow> a * 64 + b < 0x800 \<Longrightarrow> utf8_bytes (a * 64 + b) = [0xC0 + a, 0x80 + b]"
    by (simp add: utf8_bytes_def)
  show "utf8_bytes ((a * 64 + b) * 64 + d) = [0xE0 + a, 0x80 + b, 0x80 + d]"
    if "b < 64" "d < 64" "0x800 \<le> (a * 64 + b) * 64 + d" "(a * 64 + b) * 64 + d < 0x10000"
    using that(3,4) digits64 [OF that(2), of "a * 64 + b"] digits64 [OF that(1), of a]
    unfolding utf8_bytes_def dv by simp
  show "utf8_bytes (((a * 64 + b) * 64 + d) * 64 + e) = [0xF0 + a, 0x80 + b, 0x80 + d, 0x80 + e]"
    if "b < 64" "d < 64" "e < 64" "0x10000 \<le> ((a * 64 + b) * 64 + d) * 64 + e"
    using that(4) digits64 [OF that(3), of "(a * 64 + b) * 64 + d"] digits64 [OF that(2), of "a * 64 + b"]
      digits64 [OF that(1), of a]
    unfolding utf8_bytes_def dv by simp
qed

lemma are_valid_extracharacters_sound:
  assumes c: "0xC2 \<le> unat c" "unat c \<le> 0xF4"
    and v: "mulle_utf8_are_valid_extracharacters (c # src) (mulle_utf8_get_extracharacterslength c) = Some (Some x)"
    and len: "unat (mulle_utf8_get_extracharacterslength c) \<le> length src"
  shows "mulle_utf32_as_utf8 x = c # take (unat (mulle_utf8_get_extracharacterslength c)) src"
    and "mulle_utf32_is_valid x" and "0x80 \<le> unat x"
proof -
  have "mulle_utf32_as_utf8 x = c # take (unat (mulle_utf8_get_extracharacterslength c)) src \<and>
    mulle_utf32_is_valid x \<and> 0x80 \<le> unat x"
  proof -
    consider (two) "unat c < 0xE0" | (three) "0xE0 \<le> unat c" "unat c < 0xF0" | (four) "0xF0 \<le> unat c" by linarith
    then show ?thesis
    proof cases
      case two
      then obtain d s where src: "src = d # s" using len by (cases src) (auto simp: byte_class_unat)
      have e: "mulle_utf8_get_extracharacterslength c = 1" using two by (simp add: extracharacterslength_cases)
      have x: "x = push_bit 6 (ucast (c AND 0x1F)) OR ucast (d AND 0x3F)" "\<not> x <s 0x80"
          "mulle_utf8_is_validcontinuationcharacter d" "\<not> mulle_utf32_is_invalidcharacter x"
        using v by (auto simp: mulle_utf8_are_valid_extracharacters_def e src Let_def split: if_splits)
      have ux: "unat x = unat c mod 32 * 64 + unat d mod 64" unfolding x(1) by (rule decode2)
      have b: "unat c mod 32 < 32" "unat d mod 64 < 64" by simp_all
      have r: "0x80 \<le> unat x" "unat x < 0x800" using x(2) ux b by (auto simp: sless32)
      have "map unat (mulle_utf32_as_utf8 x) = [0xC0 + unat c mod 32, 0x80 + unat d mod 64]"
        using r ux utf8_bytes_digits(1) [OF b(2)] as_utf8_bytes [of x] by simp
      then have "map unat (mulle_utf32_as_utf8 x) = map unat [c, d]"
        using lead_digit(1) [of c] continuation_digit [OF x(3)] c two by simp
      then have "mulle_utf32_as_utf8 x = [c, d]" by (simp only: map_unat_eq_iff)
      then show ?thesis using r x(2,4) by (simp add: e src mulle_utf32_is_valid_iff sless32 mulle_utf32_max_def)
    next
      case three
      then obtain d e s where src: "src = d # e # s"
        using len by (cases src; cases "tl src") (auto simp: byte_class_unat)
      have el: "mulle_utf8_get_extracharacterslength c = 2" using three by (simp add: extracharacterslength_cases)
      have x: "x = push_bit 12 (ucast (c AND 0x0F)) OR push_bit 6 (ucast (d AND 0x3F)) OR ucast (e AND 0x3F)" "\<not> x <s 0x800"
          "mulle_utf8_is_validcontinuationcharacter d" "mulle_utf8_is_validcontinuationcharacter e"
          "\<not> mulle_utf32_is_invalidcharacter x"
        using v by (auto simp: mulle_utf8_are_valid_extracharacters_def el src Let_def or.assoc split: if_splits)
      have ux: "unat x = (unat c mod 16 * 64 + unat d mod 64) * 64 + unat e mod 64" unfolding x(1) by (rule decode3)
      have b: "unat c mod 16 < 16" "unat d mod 64 < 64" "unat e mod 64 < 64" by simp_all
      have r: "0x800 \<le> unat x" "unat x < 0x10000" using x(2) ux b by (auto simp: sless32)
      have "map unat (mulle_utf32_as_utf8 x) = [0xE0 + unat c mod 16, 0x80 + unat d mod 64, 0x80 + unat e mod 64]"
        using r utf8_bytes_digits(2) [OF b(2,3), of "unat c mod 16"] as_utf8_bytes [of x] unfolding ux by simp
      then have "map unat (mulle_utf32_as_utf8 x) = map unat [c, d, e]"
        using lead_digit(2) [of c] continuation_digit [OF x(3)] continuation_digit [OF x(4)] three by simp
      then have "mulle_utf32_as_utf8 x = [c, d, e]" by (simp only: map_unat_eq_iff)
      then show ?thesis using r x(2,5) by (simp add: el src mulle_utf32_is_valid_iff sless32 mulle_utf32_max_def)
    next
      case four
      then obtain d e f s where src: "src = d # e # f # s"
        using len by (cases src; cases "tl src"; cases "tl (tl src)") (auto simp: byte_class_unat)
      have el: "mulle_utf8_get_extracharacterslength c = 3" using four by (simp add: extracharacterslength_cases)
      have x: "x = push_bit 18 (ucast (c AND 0x7)) OR push_bit 12 (ucast (d AND 0x3F)) OR
            push_bit 6 (ucast (e AND 0x3F)) OR ucast (f AND 0x3F)" "\<not> x <s 0x10000" "\<not> 0x0010FFFF <s x"
          "mulle_utf8_is_validcontinuationcharacter d" "mulle_utf8_is_validcontinuationcharacter e"
          "mulle_utf8_is_validcontinuationcharacter f" "\<not> mulle_utf32_is_invalidcharacter x"
        using v by (auto simp: mulle_utf8_are_valid_extracharacters_def el src Let_def or.assoc split: if_splits)
      have ux: "unat x = ((unat c mod 8 * 64 + unat d mod 64) * 64 + unat e mod 64) * 64 + unat f mod 64"
        unfolding x(1) by (rule decode4)
      have b: "unat d mod 64 < 64" "unat e mod 64 < 64" "unat f mod 64 < 64" by simp_all
      have r: "0x10000 \<le> unat x" "unat x \<le> 0x10FFFF" using x(2,3) by (auto simp: sless32 split: if_splits)
      have "map unat (mulle_utf32_as_utf8 x) =
          [0xF0 + unat c mod 8, 0x80 + unat d mod 64, 0x80 + unat e mod 64, 0x80 + unat f mod 64]"
        using r utf8_bytes_digits(3) [OF b, of "unat c mod 8"] as_utf8_bytes [of x] unfolding ux by simp
      then have "map unat (mulle_utf32_as_utf8 x) = map unat [c, d, e, f]"
        using lead_digit(3) [of c] continuation_digit [OF x(4)] continuation_digit [OF x(5)]
          continuation_digit [OF x(6)] four c by simp
      then have "mulle_utf32_as_utf8 x = [c, d, e, f]" by (simp only: map_unat_eq_iff)
      then show ?thesis using r x(7) by (simp add: el src mulle_utf32_is_valid_iff sless32 mulle_utf32_max_def)
    qed
  qed
  then show "mulle_utf32_as_utf8 x = c # take (unat (mulle_utf8_get_extracharacterslength c)) src"
    and "mulle_utf32_is_valid x" and "0x80 \<le> unat x" by blast+
qed

section \<open>Texts\<close>

abbreviation utf8_text :: "mulle_utf32_t list \<Rightarrow> mulle_utf8_t list" where
  "utf8_text cs \<equiv> concat (map mulle_utf32_as_utf8 cs)"

lemma as_utf8_ascii:
  assumes "unat x < 0x80"
  shows "mulle_utf32_as_utf8 x = [ucast x]" and "unat (ucast x :: 8 word) = unat x"
    and "ucast (ucast x :: 8 word) = x" and "scast (ucast x :: 8 word) = x"
proof -
  show u: "unat (ucast x :: 8 word) = unat x"
    using assms by (simp add: unat_ucast_8_of_32)
  show "mulle_utf32_as_utf8 x = [ucast x]"
    using assms by (simp add: mulle_utf32_as_utf8_def sless32)
  show "ucast (ucast x :: 8 word) = x" by (simp only: unat_eq_iff unat_ucast_8 u)
  show "scast (ucast x :: 8 word) = x"
    using assms u by (simp only: unat_eq_iff scast_byte(1))
qed

text \<open>What a loop over UTF-8 text sees at the start of an encoded character.\<close>

lemma as_utf8_first:
  assumes "unat x \<le> 0x10FFFF"
  obtains (ascii) "unat x < 0x80" "mulle_utf32_as_utf8 x = [ucast x]" "unat (ucast x :: 8 word) = unat x"
  | (multi) c cs where "0x80 \<le> unat x" "mulle_utf32_as_utf8 x = c # cs" "utf8_sequence x c cs"
  using as_utf8_ascii [of x] as_utf8_sequence [OF _ assms] by (cases "unat x < 0x80") auto

lemma utf8_sequence_bytes:
  assumes "utf8_sequence x c cs"
  shows "\<not> mulle_utf8_is_asciicharacter c" "\<not> mulle_utf8_is_invalidstartcharacter c" "c \<noteq> 0"
    "unat (mulle_utf8_get_extracharacterslength c) = length cs"
    "of_nat (length cs) = mulle_utf8_get_extracharacterslength c"
    "mulle_utf8_extracharactersvalue (c # cs @ us) (mulle_utf8_get_extracharacterslength c) = Some x"
    "mulle_utf8_are_valid_extracharacters (c # cs @ us) (mulle_utf8_get_extracharacterslength c) =
        Some (if mulle_utf32_is_invalidcharacter x then None else Some x)"
  using assms unat_eq_of_nat [of "mulle_utf8_get_extracharacterslength c" "length cs"]
  by (auto simp: utf8_sequence_def byte_class_unat)

interpretation utf8_to_utf32: text_converter
  mulle_utf32_as_utf8 "\<lambda>x. [x]" u_mulle_utf8_convert_to_utf32 "\<lambda>x. unat x \<le> 0x10FFFF"
proof (unfold_locales, goal_cases)
  case (2 x us)
  then show ?case
  proof (cases rule: as_utf8_first)
    case ascii
    then show ?thesis using as_utf8_ascii(3) [of x] by (simp add: byte_class_unat append_fun)
  next
    case (multi c cs)
    note s = utf8_sequence_bytes [OF multi(3)]
    from multi(2) s(1,4) s(6) [of us] show ?thesis
      by (simp add: Let_def append_fun)
  qed
qed simp

interpretation utf8_to_utf16: text_converter
  mulle_utf32_as_utf8 mulle_utf32_as_utf16 u_mulle_utf8_convert_to_utf16 "\<lambda>x. unat x \<le> 0x10FFFF"
proof (unfold_locales, goal_cases)
  case (2 x us)
  then have as16: "mulle_utf32_as_utf16 x = (if x < 0x10000 then [ucast x] else u_mulle_utf32_convert_to_utf16_as_surrogatepair x)"
    by (simp add: mulle_utf32_as_utf16_def sless32 word_less_nat_alt)
  from 2 show ?case
  proof (cases rule: as_utf8_first)
    case ascii
    then have "ucast (ucast x :: 8 word) = (ucast x :: 16 word)"
      by (simp add: unat_eq_iff unat_ucast_8_16 unat_ucast_16)
    with ascii as16 show ?thesis by (simp add: byte_class_unat word_less_nat_alt append_fun)
  next
    case (multi c cs)
    note s = utf8_sequence_bytes [OF multi(3)]
    from multi(2) as16 s(1,4) s(6) [of us] show ?thesis
      by (simp add: Let_def append_fun)
  qed
qed simp

lemma utf8_validate_loop_text:
  assumes "list_all text_character cs"
  shows "utf8_validate_loop (utf8_text cs @ us) i = utf8_validate_loop us (i + of_nat (length (utf8_text cs)))"
  using assms
proof (induction cs arbitrary: i)
  case (Cons x cs)
  then have x: "text_character x" "unat x \<le> 0x10FFFF"
    using text_character_tests(7) by simp_all
  from x(2) show ?case
  proof (cases rule: as_utf8_first)
    case ascii
    then have "ucast x \<noteq> (0 :: 8 word)" using x(1) by (auto simp: text_character_def unat_eq_iff)
    with ascii Cons show ?thesis by (simp add: byte_class_unat add.assoc)
  next
    case (multi c ds)
    note s = utf8_sequence_bytes [OF multi(3)]
    have "utf8_validate_loop (mulle_utf32_as_utf8 x @ utf8_text cs @ us) i =
      utf8_validate_loop (utf8_text cs @ us) (i + mulle_utf8_get_extracharacterslength c + 1)"
      using multi(2) s(1-4) s(7) [of "utf8_text cs @ us"] text_character_tests(5) [OF x(1)] by (simp add: Let_def)
    with Cons multi(2) show ?thesis by (simp add: s(5) ac_simps)
  qed
qed simp

text \<open>No character is encoded at the start of the text.\<close>

definition utf8_malformed :: "mulle_utf8_t list \<Rightarrow> bool" where
  "utf8_malformed us \<longleftrightarrow> us \<noteq> [] \<and> hd us \<noteq> 0 \<and> (\<forall>x rest. text_character x \<longrightarrow> us \<noteq> mulle_utf32_as_utf8 x @ rest)"

lemma are_valid_extracharacters_total:
  assumes "unat (mulle_utf8_get_extracharacterslength c) \<le> length src"
  shows "\<exists>r. mulle_utf8_are_valid_extracharacters (c # src) (mulle_utf8_get_extracharacterslength c) = Some r"
proof -
  consider (two) "unat c < 0xE0" | (three) "0xE0 \<le> unat c" "unat c < 0xF0" | (four) "0xF0 \<le> unat c" by linarith
  then show ?thesis
  proof cases
    case two
    then obtain d s where "src = d # s" using assms by (cases src) (auto simp: byte_class_unat)
    with two show ?thesis
      by (auto simp: mulle_utf8_are_valid_extracharacters_def extracharacterslength_cases Let_def split: option.split)
  next
    case three
    then obtain d e s where "src = d # e # s"
      using assms by (cases src; cases "tl src") (auto simp: byte_class_unat)
    with three show ?thesis
      by (auto simp: mulle_utf8_are_valid_extracharacters_def extracharacterslength_cases(2) [THEN iffD2] Let_def
          split: option.split)
  next
    case four
    then obtain d e f s where "src = d # e # f # s"
      using assms by (cases src; cases "tl src"; cases "tl (tl src)") (auto simp: byte_class_unat)
    with four show ?thesis
      by (auto simp: mulle_utf8_are_valid_extracharacters_def extracharacterslength_cases(3) [THEN iffD2] Let_def
          split: option.split)
  qed
qed

lemma utf8_malformedI:
  assumes "c \<noteq> 0" and "\<not> mulle_utf8_is_asciicharacter c"
    and "mulle_utf8_is_invalidstartcharacter c \<or> length src < unat (mulle_utf8_get_extracharacterslength c) \<or>
      mulle_utf8_are_valid_extracharacters (c # src) (mulle_utf8_get_extracharacterslength c) = Some None"
  shows "utf8_malformed (c # src)"
proof -
  have False if x: "text_character x" and eq: "c # src = mulle_utf32_as_utf8 x @ rest" for x rest
  proof -
    have "unat x \<le> 0x10FFFF" using text_character_tests(7) [OF x] .
    then show False
    proof (cases rule: as_utf8_first)
      case ascii
      with eq assms(2) show False by (simp add: byte_class_unat)
    next
      case (multi d cs)
      note s = utf8_sequence_bytes [OF multi(3)]
      have "c = d" "src = cs @ rest" using eq multi(2) by simp_all
      with assms(3) s(2,4) s(7) [of rest] text_character_tests(5) [OF x] show False by auto
    qed
  qed
  then show ?thesis using assms(1) by (auto simp: utf8_malformed_def)
qed

lemma ascii_character:
  assumes "c \<noteq> 0" and "mulle_utf8_is_asciicharacter c"
  shows "text_character (ucast c)" and "mulle_utf32_as_utf8 (ucast c) = [c]"
proof -
  have u: "unat (ucast c :: 32 word) = unat c" "unat c < 0x80" using assms by (simp_all add: unat_ucast_8 byte_class_unat)
  then show "text_character (ucast c)"
    using assms(1) by (auto simp: text_character_def mulle_utf32_is_valid_def unat_eq_iff)
  have "ucast (ucast c :: 32 word) = c" using u by (simp add: unat_eq_iff unat_ucast_8_of_32)
  then show "mulle_utf32_as_utf8 (ucast c) = [c]" using as_utf8_ascii(1) [of "ucast c"] u by simp
qed

lemma utf8_validate_loop_cases:
  "\<exists>cs rest. list_all text_character cs \<and> us = utf8_text cs @ rest \<and>
     (text_end rest \<and> utf8_validate_loop us i = Some None \<or>
      utf8_malformed rest \<and> utf8_validate_loop us i = Some (Some (i + of_nat (length (utf8_text cs)))))"
proof (induction us i rule: utf8_validate_loop.induct)
  case (1 i)
  then show ?case by (intro exI [of _ "[]"]) (simp add: text_end_def)
next
  case (2 c src i)
  let ?el = "mulle_utf8_get_extracharacterslength c"
  let ?ok = "\<lambda>us i. \<exists>cs rest. list_all text_character cs \<and> us = utf8_text cs @ rest \<and>
     (text_end rest \<and> utf8_validate_loop us i = Some None \<or>
      utf8_malformed rest \<and> utf8_validate_loop us i = Some (Some (i + of_nat (length (utf8_text cs)))))"
  have step: "?ok us j" if "text_character x" "us = mulle_utf32_as_utf8 x @ vs"
    "?ok vs (j + of_nat (length (mulle_utf32_as_utf8 x)))" for x us vs j
  proof -
    from that(3) obtain cs rest where *: "list_all text_character cs" "vs = utf8_text cs @ rest"
      "text_end rest \<and> utf8_validate_loop vs (j + of_nat (length (mulle_utf32_as_utf8 x))) = Some None \<or>
       utf8_malformed rest \<and> utf8_validate_loop vs (j + of_nat (length (mulle_utf32_as_utf8 x))) =
         Some (Some (j + of_nat (length (mulle_utf32_as_utf8 x)) + of_nat (length (utf8_text cs))))" by blast
    have "utf8_validate_loop us j = utf8_validate_loop vs (j + of_nat (length (mulle_utf32_as_utf8 x)))"
      using utf8_validate_loop_text [of "[x]" vs j] that(1,2) by simp
    with * that(1,2) show ?thesis
      by (intro exI [of _ "x # cs"] exI [of _ rest]) (auto simp: add.assoc)
  qed
  have bad: "?ok (c # src) i" if "utf8_malformed (c # src)" "utf8_validate_loop (c # src) i = Some (Some i)"
    using that by (intro exI [of _ "[]"] exI [of _ "c # src"]) (simp del: utf8_validate_loop.simps)
  consider (zero) "c = 0" | (ascii) "c \<noteq> 0" "mulle_utf8_is_asciicharacter c"
    | (start) "c \<noteq> 0" "\<not> mulle_utf8_is_asciicharacter c" "mulle_utf8_is_invalidstartcharacter c"
    | (short) "c \<noteq> 0" "\<not> mulle_utf8_is_asciicharacter c" "\<not> mulle_utf8_is_invalidstartcharacter c" "length src < unat ?el"
    | (multi) "c \<noteq> 0" "\<not> mulle_utf8_is_asciicharacter c" "\<not> mulle_utf8_is_invalidstartcharacter c" "unat ?el \<le> length src"
    by linarith
  then show ?case
  proof cases
    case zero
    then show ?thesis by (intro exI [of _ "[]"] exI [of _ "c # src"]) (simp add: text_end_def)
  next
    case ascii
    then show ?thesis using step [of "ucast c" "c # src" src i] 2(1) [OF ascii] ascii_character [OF ascii] by simp
  next
    case start
    then show ?thesis using bad utf8_malformedI [of c src] by simp
  next
    case short
    then show ?thesis using bad utf8_malformedI [of c src] by (simp add: Let_def)
  next
    case multi
    obtain r where r: "mulle_utf8_are_valid_extracharacters (c # src) ?el = Some r"
      using are_valid_extracharacters_total [OF multi(4)] by blast
    show ?thesis
    proof (cases r)
      case None
      with multi r bad utf8_malformedI [of c src] show ?thesis by (simp add: Let_def)
    next
      case (Some x)
      have lim: "0xC2 \<le> unat c" "unat c \<le> 0xF4" using multi(2,3) by (auto simp: byte_class_unat)
      have x: "mulle_utf32_as_utf8 x = c # take (unat ?el) src" "mulle_utf32_is_valid x" "0x80 \<le> unat x"
        using are_valid_extracharacters_sound [OF lim _ multi(4)] r Some by auto
      then have tc: "text_character x" by (auto simp: text_character_def)
      have "of_nat (length (mulle_utf32_as_utf8 x)) = ?el + 1"
        using x(1) multi(4) unat_eq_of_nat [of ?el "unat ?el"] by (simp add: min_absorb2)
      then have len: "i + ?el + 1 = i + of_nat (length (mulle_utf32_as_utf8 x))" by (simp add: add.assoc)
      have "?ok (drop (unat ?el) src) (i + ?el + 1)"
        using 2(2) [OF multi(1-3) refl, of r x] multi(4) r Some by simp
      then have "?ok (drop (unat ?el) src) (i + of_nat (length (mulle_utf32_as_utf8 x)))" unfolding len .
      from step [OF tc _ this, of "c # src"] show ?thesis unfolding x(1) by simp
    qed
  qed
qed

section \<open>Blocks\<close>

lemma extracharactersvalue_total:
  assumes "unat (mulle_utf8_get_extracharacterslength c) \<le> length src"
  shows "\<exists>x. mulle_utf8_extracharactersvalue (c # src) (mulle_utf8_get_extracharacterslength c) = Some x"
proof -
  consider (two) "unat c < 0xE0" | (three) "0xE0 \<le> unat c" "unat c < 0xF0" | (four) "0xF0 \<le> unat c" by linarith
  then show ?thesis
  proof cases
    case two
    then obtain d s where "src = d # s" using assms by (cases src) (auto simp: byte_class_unat)
    with two show ?thesis by (simp add: mulle_utf8_extracharactersvalue_def extracharacterslength_cases Let_def)
  next
    case three
    then obtain d e s where "src = d # e # s"
      using assms by (cases src; cases "tl src") (auto simp: byte_class_unat)
    with three show ?thesis
      by (simp add: mulle_utf8_extracharactersvalue_def extracharacterslength_cases(2) [THEN iffD2] Let_def)
  next
    case four
    then obtain d e f s where "src = d # e # f # s"
      using assms by (cases src; cases "tl src"; cases "tl (tl src)") (auto simp: byte_class_unat)
    with four show ?thesis
      by (simp add: mulle_utf8_extracharactersvalue_def extracharacterslength_cases(3) [THEN iffD2] Let_def)
  qed
qed

text \<open>One iteration over arbitrary bytes, malformed ones included: the units written and the rest.\<close>

definition utf8_iteration :: "mulle_utf8_t \<Rightarrow> mulle_utf8_t list \<Rightarrow> (mulle_utf32_t \<times> mulle_utf8_t list) option" where
  "utf8_iteration c src =
     (if mulle_utf8_is_asciicharacter c then Some (ucast c, src)
      else if length src < unat (mulle_utf8_get_extracharacterslength c) then None
      else map_option (\<lambda>x. (x, drop (unat (mulle_utf8_get_extracharacterslength c)) src))
             (mulle_utf8_extracharactersvalue (c # src) (mulle_utf8_get_extracharacterslength c)))"

definition utf8_unit16 :: "mulle_utf32_t \<Rightarrow> mulle_utf16_t list" where
  "utf8_unit16 x = (if x < 0x10000 then [ucast x] else u_mulle_utf32_convert_to_utf16_as_surrogatepair x)"

lemma utf8_iteration_rest: "utf8_iteration c src = Some (x, rest) \<Longrightarrow> length rest < length (c # src)"
  by (auto simp: utf8_iteration_def split: if_splits)

lemma utf8_convert_iteration:
  "u_mulle_utf8_convert_to_utf16 (c # src) = (case utf8_iteration c src of None \<Rightarrow> Some []
     | Some (x, rest) \<Rightarrow> map_option ((@) (utf8_unit16 x)) (u_mulle_utf8_convert_to_utf16 rest))"
  "u_mulle_utf8_convert_to_utf32 (c # src) = (case utf8_iteration c src of None \<Rightarrow> Some []
     | Some (x, rest) \<Rightarrow> map_option ((#) x) (u_mulle_utf8_convert_to_utf32 rest))"
proof -
  have a: "(ucast c :: 32 word) < 0x10000" "ucast (ucast c :: 32 word) = (ucast c :: 16 word)"
    using unat8_less [of c] by (simp_all add: word_less_nat_alt unat_ucast_8 unat_eq_iff unat_ucast_16 unat_ucast_8_16)
  show "u_mulle_utf8_convert_to_utf16 (c # src) = (case utf8_iteration c src of None \<Rightarrow> Some []
     | Some (x, rest) \<Rightarrow> map_option ((@) (utf8_unit16 x)) (u_mulle_utf8_convert_to_utf16 rest))"
    using extracharactersvalue_total [of c src] a
    by (auto simp: utf8_iteration_def utf8_unit16_def Let_def not_less [where 'a = nat] append_fun)
  show "u_mulle_utf8_convert_to_utf32 (c # src) = (case utf8_iteration c src of None \<Rightarrow> Some []
     | Some (x, rest) \<Rightarrow> map_option ((#) x) (u_mulle_utf8_convert_to_utf32 rest))"
    using extracharactersvalue_total [of c src]
    by (auto simp: utf8_iteration_def Let_def not_less)
qed

lemma utf8_blocks_iteration:
  "utf8_blocks_to_utf16 (c # src) tmp = (let (bs, s) = tmp_preflush 62 tmp in map_option ((@) bs)
     (case utf8_iteration c src of None \<Rightarrow> Some (tmp_flush s)
      | Some (x, rest) \<Rightarrow> do { s \<leftarrow> tmp_put 64 s (utf8_unit16 x); utf8_blocks_to_utf16 rest s }))"
  "utf8_blocks_to_utf32 (c # src) s =
     (case utf8_iteration c src of None \<Rightarrow> Some (tmp_flush s)
      | Some (x, rest) \<Rightarrow> do {
          s \<leftarrow> tmp_put 32 s [x];
          let (bs, s) = tmp_postflush 32 s;
          map_option ((@) bs) (utf8_blocks_to_utf32 rest s) })"
proof -
  have a: "(ucast c :: 32 word) < 0x10000" "ucast (ucast c :: 32 word) = (ucast c :: 16 word)"
    using unat8_less [of c] by (simp_all add: word_less_nat_alt unat_ucast_8 unat_eq_iff unat_ucast_16 unat_ucast_8_16)
  show "utf8_blocks_to_utf16 (c # src) tmp = (let (bs, s) = tmp_preflush 62 tmp in map_option ((@) bs)
     (case utf8_iteration c src of None \<Rightarrow> Some (tmp_flush s)
      | Some (x, rest) \<Rightarrow> do { s \<leftarrow> tmp_put 64 s (utf8_unit16 x); utf8_blocks_to_utf16 rest s }))"
    using extracharactersvalue_total [of c src] a
    by (cases "tmp_preflush 62 tmp") (auto simp: utf8_iteration_def utf8_unit16_def Let_def not_less [where 'a = nat])
  show "utf8_blocks_to_utf32 (c # src) s =
     (case utf8_iteration c src of None \<Rightarrow> Some (tmp_flush s)
      | Some (x, rest) \<Rightarrow> do {
          s \<leftarrow> tmp_put 32 s [x];
          let (bs, s) = tmp_postflush 32 s;
          map_option ((@) bs) (utf8_blocks_to_utf32 rest s) })"
    using extracharactersvalue_total [of c src]
    by (auto simp: utf8_iteration_def Let_def not_less)
qed

interpretation utf8_utf16: block_converter
  u_mulle_utf8_convert_to_utf16 utf8_blocks_to_utf16 64 "\<lambda>tmp. length tmp \<le> 64"
proof (unfold_locales, goal_cases)
  case (5 us tmp)
  then obtain c src where us: "us = c # src" by (cases us) auto
  show ?case
  proof (cases "utf8_iteration c src")
    case None
    obtain pre old where "tmp_preflush 62 tmp = (pre, old)" "concat pre @ old = tmp" "blocks_of 64 (concat pre) pre"
      "length old \<le> 64"
      using preflush_step [of tmp 62 2 "[]" 64] 5(2) by auto
    with None show ?thesis unfolding us utf8_blocks_iteration utf8_convert_iteration
      by (intro exI [of _ pre] exI [of _ old] exI [of _ "[]"]) simp
  next
    case (Some p)
    then obtain x rest where p: "utf8_iteration c src = Some (x, rest)" by (cases p) simp
    have "length (utf8_unit16 x) \<le> 2"
      by (simp add: utf8_unit16_def u_mulle_utf32_convert_to_utf16_as_surrogatepair_def Let_def)
    then obtain pre old where "tmp_preflush 62 tmp = (pre, old)" "concat pre @ old = tmp"
      "blocks_of 64 (concat pre) pre" "tmp_put 64 old (utf8_unit16 x) = Some (old @ utf8_unit16 x)"
      "length (old @ utf8_unit16 x) \<le> 64"
      using preflush_step [of tmp 62 2 "utf8_unit16 x" 64] 5(2) by auto
    with p utf8_iteration_rest [OF p] show ?thesis unfolding us utf8_blocks_iteration utf8_convert_iteration
      by (intro exI [of _ pre] exI [of _ "old @ utf8_unit16 x"] exI [of _ "utf8_unit16 x"] exI [of _ rest])
        (auto simp flip: append_assoc)
  qed
qed simp_all

interpretation utf8_utf32: block_converter
  u_mulle_utf8_convert_to_utf32 utf8_blocks_to_utf32 32 "\<lambda>tmp. length tmp < 32"
proof (unfold_locales, goal_cases)
  case (5 us tmp)
  then obtain c src where us: "us = c # src" by (cases us) auto
  show ?case
  proof (cases "utf8_iteration c src")
    case None
    with 5(2) show ?thesis unfolding us utf8_blocks_iteration utf8_convert_iteration
      by (intro exI [of _ "[]"] exI [of _ tmp] exI [of _ "[]"]) (simp add: blocks_of_def)
  next
    case (Some p)
    then obtain x rest where p: "utf8_iteration c src = Some (x, rest)" by (cases p) simp
    from postflush_step [OF 5(2), of x] obtain pre new where "tmp_put 32 tmp [x] = Some (tmp @ [x])"
      "tmp_postflush 32 (tmp @ [x]) = (pre, new)" "concat pre @ new = tmp @ [x]" "blocks_of 32 (concat pre) pre"
      "length new < 32" by blast
    with p utf8_iteration_rest [OF p] show ?thesis unfolding us utf8_blocks_iteration utf8_convert_iteration
      by (intro exI [of _ pre] exI [of _ new] exI [of _ "[x]"] exI [of _ rest]) (simp add: append_fun)
  qed
qed simp_all

section \<open>Lengths\<close>

lemma utf8_length_step:
  assumes "unat x \<le> 0x10FFFF"
  shows "utf8_utf32length_loop (mulle_utf32_as_utf8 x @ us) n =
      utf8_utf32length_loop us (n - (of_nat (length (mulle_utf32_as_utf8 x)) - 1))"
    and "utf8_utf16length_loop (mulle_utf32_as_utf8 x @ us) n =
      utf8_utf16length_loop us (n - (of_nat (length (mulle_utf32_as_utf8 x)) - of_nat (length (mulle_utf32_as_utf16 x))))"
proof -
  have l16: "length (mulle_utf32_as_utf16 x) = (if length (mulle_utf32_as_utf8 x) = 4 then 2 else 1)"
    using assms by (simp add: as_utf8_length_eq as_utf16_length_eq)
  have "utf8_utf32length_loop (mulle_utf32_as_utf8 x @ us) n =
      utf8_utf32length_loop us (n - (of_nat (length (mulle_utf32_as_utf8 x)) - 1)) \<and>
    utf8_utf16length_loop (mulle_utf32_as_utf8 x @ us) n =
      utf8_utf16length_loop us (n - (of_nat (length (mulle_utf32_as_utf8 x)) - of_nat (length (mulle_utf32_as_utf16 x))))"
    using assms
  proof (cases rule: as_utf8_first)
    case ascii
    then show ?thesis by (simp add: byte_class_unat l16)
  next
    case (multi c cs)
    note s = utf8_sequence_bytes [OF multi(3)]
    have three: "mulle_utf8_get_extracharacterslength c = 3 \<longleftrightarrow> length cs = 3"
      using s(4) by (auto simp: unat_eq_iff)
    have "length cs \<le> 3" using as_utf8_length(1) [of x] multi(2) by simp
    with multi(2) s(1,4) three l16 show ?thesis
      by (auto simp: Let_def s(5) simp flip: s(5))
  qed
  then show "utf8_utf32length_loop (mulle_utf32_as_utf8 x @ us) n =
      utf8_utf32length_loop us (n - (of_nat (length (mulle_utf32_as_utf8 x)) - 1))"
    and "utf8_utf16length_loop (mulle_utf32_as_utf8 x @ us) n =
      utf8_utf16length_loop us (n - (of_nat (length (mulle_utf32_as_utf8 x)) - of_nat (length (mulle_utf32_as_utf16 x))))"
    by blast+
qed

lemma utf8_length_text:
  "list_all (\<lambda>x. unat x \<le> 0x10FFFF) cs \<Longrightarrow>
     utf8_utf32length_loop (utf8_text cs) n = n - of_nat (length (utf8_text cs)) + of_nat (length cs) \<and>
     utf8_utf16length_loop (utf8_text cs) n =
       n - of_nat (length (utf8_text cs)) + of_nat (length (concat (map mulle_utf32_as_utf16 cs)))"
  by (induction cs arbitrary: n) (simp_all add: utf8_length_step algebra_simps)

section \<open>Information\<close>

lemma utf8_char5_ascii:
  "unat x < 0x80 \<Longrightarrow> mulle_utf8_is_char5character (ucast x) \<longleftrightarrow> mulle_utf32_is_char5character x"
  by (simp add: mulle_utf8_is_char5character_def mulle_utf32_is_char5character_def as_utf8_ascii(4))

lemma utf8_information_step:
  assumes x: "text_character x"
  shows "utf8_information_loop (mulle_utf32_as_utf8 x @ us) i n info =
    utf8_information_loop us (i + of_nat (length (mulle_utf32_as_utf8 x)))
      (n - (of_nat (length (mulle_utf32_as_utf8 x)) - 1))
      (info\<lparr>utf16len := utf16len info + (of_nat (length (mulle_utf32_as_utf16 x)) - 1),
            is_ascii := (is_ascii info \<and> unat x < 0x80),
            is_char5_text := (is_char5_text info \<and> (unat x < 0x80 \<longrightarrow> mulle_utf32_is_char5character x)),
            is_utf15 := (is_utf15 info \<and> unat x < 0x8000)\<rparr>)"
proof -
  note t = text_character_tests [OF x]
  from t(7) show ?thesis
  proof (cases rule: as_utf8_first)
    case ascii
    then have "ucast x \<noteq> (0 :: 8 word)" using x by (auto simp: text_character_def unat_eq_iff)
    with ascii show ?thesis
      by (cases info; cases "is_char5_text info")
        (simp_all add: byte_class_unat utf8_char5_ascii as_utf16_length_eq)
  next
    case (multi c cs)
    note s = utf8_sequence_bytes [OF multi(3)]
    have b: "0x8000 \<le>s x \<longleftrightarrow> 0x8000 \<le> unat x" "0x10000 \<le>s x \<longleftrightarrow> 0x10000 \<le> unat x"
      using t(8) [where k = "0x8000"] t(8) [where k = "0x10000"] by simp_all
    have "utf8_information_loop (mulle_utf32_as_utf8 x @ us) i n info =
      utf8_information_loop us (i + mulle_utf8_get_extracharacterslength c + 1) (n - mulle_utf8_get_extracharacterslength c)
        (let info = info\<lparr>is_ascii := False\<rparr>;
             info = (if 0x8000 \<le> unat x then info\<lparr>is_utf15 := False\<rparr> else info)
         in if 0x10000 \<le> unat x then info\<lparr>utf16len := utf16len info + 1\<rparr> else info)"
      using multi(2) s(1-4) s(7) [of us] t(5) b by (simp add: Let_def)
    then show ?thesis
      using multi(1,2) t(7) by (cases info) (simp add: s(5) as_utf16_length_eq add.assoc Let_def ac_simps)
  qed
qed

lemma utf8_information_loop_text:
  assumes "list_all text_character cs" and "text_end tail"
  shows "utf8_information_loop (utf8_text cs @ tail) i n info = Some (Inr (i + of_nat (length (utf8_text cs)),
    n - (of_nat (length (utf8_text cs)) - of_nat (length cs)),
    info\<lparr>utf16len := utf16len info + (of_nat (length (concat (map mulle_utf32_as_utf16 cs))) - of_nat (length cs)),
         is_ascii := (is_ascii info \<and> list_all (\<lambda>c. unat c < 0x80) cs),
         is_char5_text := (is_char5_text info \<and> list_all (\<lambda>c. unat c < 0x80 \<longrightarrow> mulle_utf32_is_char5character c) cs),
         is_utf15 := (is_utf15 info \<and> list_all (\<lambda>c. unat c < 0x8000) cs),
         has_terminating_zero := (has_terminating_zero info \<or> tail \<noteq> [])\<rparr>))"
  using assms
proof (induction cs arbitrary: i n info)
  case Nil
  then show ?case
    by (cases tail; cases info) (auto simp: text_end_def byte_class_unat)
next
  case (Cons c cs)
  then show ?case
    by (simp add: utf8_information_step algebra_simps del: utf8_information_loop.simps)
qed

lemma utf8_information_loop_fail:
  assumes m: "utf8_malformed us"
  shows "utf8_information_loop us i n info = Some (Inl i)"
proof -
  obtain c src where us: "us = c # src" and c0: "c \<noteq> 0"
    using m by (cases us) (auto simp: utf8_malformed_def)
  have ascii: "\<not> mulle_utf8_is_asciicharacter c"
    using m us ascii_character [OF c0] by (auto simp: utf8_malformed_def)
  show ?thesis
  proof (cases "mulle_utf8_is_invalidstartcharacter c \<or> length src < unat (mulle_utf8_get_extracharacterslength c)")
    case True
    then show ?thesis using us ascii by (auto simp: Let_def)
  next
    case False
    then have start: "\<not> mulle_utf8_is_invalidstartcharacter c"
      and len: "unat (mulle_utf8_get_extracharacterslength c) \<le> length src" by simp_all
    obtain r where r: "mulle_utf8_are_valid_extracharacters (c # src) (mulle_utf8_get_extracharacterslength c) = Some r"
      using are_valid_extracharacters_total [OF len] by blast
    have lim: "0xC2 \<le> unat c" "unat c \<le> 0xF4" using ascii start by (auto simp: byte_class_unat)
    have "r = None"
    proof (rule ccontr)
      assume "r \<noteq> None"
      then obtain x where x: "mulle_utf32_as_utf8 x = c # take (unat (mulle_utf8_get_extracharacterslength c)) src"
        "mulle_utf32_is_valid x" "0x80 \<le> unat x"
        using are_valid_extracharacters_sound [OF lim _ len] r by auto
      then have "text_character x" by (auto simp: text_character_def)
      moreover have "us = mulle_utf32_as_utf8 x @ drop (unat (mulle_utf8_get_extracharacterslength c)) src"
        using us x(1) by simp
      ultimately show False using m by (auto simp: utf8_malformed_def)
    qed
    with r us ascii start len show ?thesis by (simp add: Let_def)
  qed
qed

lemma utf8_information_loop_append:
  assumes "list_all text_character cs"
  shows "\<exists>m info'. utf8_information_loop (utf8_text cs @ us) i n info =
    utf8_information_loop us (i + of_nat (length (utf8_text cs))) m info'"
  using assms
proof (induction cs arbitrary: i n info)
  case (Cons c cs)
  then show ?case
    by (simp add: utf8_information_step flip: add.assoc del: utf8_information_loop.simps)
qed auto

section \<open>Iteration\<close>

lemma as_utf8_next:
  assumes "unat x \<le> 0x10FFFF"
  shows "u_mulle_utf8_next_utf32character (us @ mulle_utf32_as_utf8 x @ vs) (length us) =
    Some (x, length us + length (mulle_utf32_as_utf8 x))"
  using assms
proof (cases rule: as_utf8_first)
  case ascii
  then show ?thesis
    using as_utf8_ascii(4) [of x] by (simp add: u_mulle_utf8_next_utf32character_def byte_class_unat)
next
  case (multi c cs)
  note s = utf8_sequence_bytes [OF multi(3)]
  from multi(2) s(1,4) s(6) [of vs] show ?thesis
    by (simp add: u_mulle_utf8_next_utf32character_def)
qed

lemma utf8_previous_start_skip:
  "list_all mulle_utf8_is_validcontinuationcharacter ds \<Longrightarrow>
     utf8_previous_start (us @ ds @ vs) (length us + length ds) k =
     utf8_previous_start (us @ ds @ vs) (length us) (k + of_nat (length ds))"
proof (induction ds arbitrary: k vs rule: rev_induct)
  case (snoc d ds)
  have "mulle_utf8_get_startcharactertype d = mulle_utf8_invalid_start_character"
    using snoc.prems by (simp add: mulle_utf8_get_startcharactertype_def byte_class_unat)
  moreover have "(us @ ds @ d # vs) ! (length us + length ds) = d"
    using nth_append_length [of "us @ ds" d vs] by simp
  ultimately have "utf8_previous_start (us @ (ds @ [d]) @ vs) (length us + length (ds @ [d])) k =
    utf8_previous_start (us @ ds @ (d # vs)) (length us + length ds) (k + 1)"
    by simp
  with snoc show ?case by (simp add: ac_simps)
qed simp

lemma as_utf8_previous:
  assumes "unat x \<le> 0x10FFFF"
  shows "u_mulle_utf8_previous_utf32character (us @ mulle_utf32_as_utf8 x @ vs)
      (length us + length (mulle_utf32_as_utf8 x)) = Some (x, length us)"
  using assms
proof (cases rule: as_utf8_first)
  case ascii
  then show ?thesis
    using as_utf8_ascii(3) [of x]
    by (simp add: u_mulle_utf8_previous_utf32character_def mulle_utf8_get_startcharactertype_def byte_class_unat
        nth_append mulle_utf8_extracharactersvalue_def)
next
  case (multi c cs)
  note s = utf8_sequence_bytes [OF multi(3)]
  have cont: "list_all mulle_utf8_is_validcontinuationcharacter cs" using multi(3) by (simp add: utf8_sequence_def)
  have "utf8_previous_start (us @ c # cs @ vs) (length us + Suc (length cs)) 0 =
    utf8_previous_start (us @ c # cs @ vs) (Suc (length us)) (of_nat (length cs))"
    using utf8_previous_start_skip [OF cont, of "us @ [c]" vs 0] by simp
  also have "\<dots> = Some (length us, of_nat (length cs))"
    using s(1,2) by (simp add: mulle_utf8_get_startcharactertype_def nth_append)
  finally show ?thesis
    using multi(2) s(5) s(6) [of vs] by (simp add: u_mulle_utf8_previous_utf32character_def)
qed

section \<open>Latin 1\<close>

lemma unat_high_bits: "unat ((c :: 'a::len word) AND NOT (mask k)) = unat c div 2 ^ k * 2 ^ k"
proof -
  have "c AND NOT (mask k) = push_bit k (drop_bit k c)"
    by (rule bit_word_eqI) (auto simp: bit_simps)
  moreover have "unat c div 2 ^ k * 2 ^ k < 2 ^ LENGTH('a)"
    using div_times_less_eq_dividend [of "unat c" "2 ^ k"] unsigned_less [of c, where 'a = nat] by linarith
  ultimately show ?thesis
    by (simp only: unsigned_push_bit_eq unat_drop_bit_eq drop_bit_eq_div [where 'a = nat]
        push_bit_eq_mult [where 'a = nat] take_bit_nat_eq_self)
qed

lemma div_times_iff:
  assumes "0 < (m :: nat)"
  shows "n div m * m = q * m \<longleftrightarrow> m * q \<le> n \<and> n < m * Suc q"
proof -
  have "n div m = q \<longleftrightarrow> m * q \<le> n \<and> n < m * Suc q"
  proof
    assume q: "n div m = q"
    have "n < m + n div m * m" using div_mult_mod_eq [of n m] mod_less_divisor [OF assms, of n] by linarith
    then show "m * q \<le> n \<and> n < m * Suc q"
      using q times_div_less_eq_dividend [of m n] by (auto simp: mult.commute)
  qed (use div_nat_eqI [of m q n] in blast)
  with assms show ?thesis by simp
qed

lemma byte_mask_unat:
  "(c :: 8 word) AND 0xFC = 0xC0 \<longleftrightarrow> 0xC0 \<le> unat c \<and> unat c < 0xC4"
  "c AND 0xC0 = 0x80 \<longleftrightarrow> 0x80 \<le> unat c \<and> unat c < 0xC0"
proof -
  have "(0xFC :: 8 word) = NOT (mask 2)" "(0xC0 :: 8 word) = NOT (mask 6)"
    by (simp_all add: mask_eq_exp_minus_1)
  then have "unat (c AND 0xFC) = unat c div 4 * 4" "unat (c AND 0xC0) = unat c div 64 * 64"
    using unat_high_bits [of c 2] unat_high_bits [of c 6] by simp_all
  moreover have "n div 4 * 4 = 0xC0 \<longleftrightarrow> 0xC0 \<le> n \<and> n < 0xC4" "n div 64 * 64 = 0x80 \<longleftrightarrow> 0x80 \<le> n \<and> n < 0xC0" for n :: nat
    using div_times_iff [of 4 n 48] div_times_iff [of 64 n 2] by simp_all
  ultimately show "c AND 0xFC = 0xC0 \<longleftrightarrow> 0xC0 \<le> unat c \<and> unat c < 0xC4"
    and "c AND 0xC0 = 0x80 \<longleftrightarrow> 0x80 \<le> unat c \<and> unat c < 0xC0"
    by (simp_all add: unat_eq_iff)
qed

lemma iso1_bytes:
  assumes "0x80 \<le> unat (c :: 8 word)"
  shows "unat (0xC0 OR drop_bit 6 c) = 0xC0 + unat c div 64" and "unat (0x80 OR (c AND 0x3F)) = 0x80 + unat c mod 64"
proof -
  have d: "unat (drop_bit 6 c) = unat c div 64"
    by (simp only: unat_drop_bit_eq drop_bit_eq_div [where 'a = nat]) simp
  have "unat c div 64 < 4" using unat8_less [of c] by simp
  then show "unat (0xC0 OR drop_bit 6 c) = 0xC0 + unat c div 64"
    using unat_or_disjoint [of "0xC0 :: 8 word" 3 6 "drop_bit 6 c"] d by simp
  have "unat (c AND 0x3F) = unat c mod 64" "unat c mod 64 < 64"
    using unat_and_mask [of c 6] by (simp_all add: mask_numeral)
  then show "unat (0x80 OR (c AND 0x3F)) = 0x80 + unat c mod 64"
    using unat_or_disjoint [of "0x80 :: 8 word" 2 6 "c AND 0x3F"] by simp
qed

lemma iso1_convert_to_utf8_text: "u_mulle_iso1_convert_to_utf8 src = utf8_text (map ucast src)"
proof (induction src)
  case (Cons c src)
  show ?case
  proof (cases "c < 0x80")
    case True
    then have "unat (ucast c :: 32 word) < 0x80" by (simp add: unat_ucast_8 word_less_nat_alt)
    moreover have "ucast (ucast c :: 32 word) = c" using unat8_less [of c] by (simp add: unat_eq_iff unat_ucast_8_of_32 unat_ucast_8)
    ultimately show ?thesis using True Cons as_utf8_ascii(1) [of "ucast c"] by simp
  next
    case False
    then have c: "0x80 \<le> unat c" by (simp add: word_less_nat_alt)
    have "map unat (mulle_utf32_as_utf8 (ucast c)) = map unat [0xC0 OR drop_bit 6 c, 0x80 OR (c AND 0x3F)]"
      using as_utf8_bytes [of "ucast c"] unat8_less [of c] c iso1_bytes [OF c]
      by (simp add: unat_ucast_8 utf8_bytes_def)
    then have "mulle_utf32_as_utf8 (ucast c) = [0xC0 OR drop_bit 6 c, 0x80 OR (c AND 0x3F)]"
      by (simp only: map_unat_eq_iff)
    with False Cons show ?thesis by simp
  qed
qed simp

lemma utf8_convert_to_iso1_text: "u_mulle_utf8_convert_to_iso1 (u_mulle_iso1_convert_to_utf8 src) unknown = Some src"
proof (induction src)
  case (Cons c src)
  show ?case
  proof (cases "c < 0x80")
    case True
    with Cons show ?thesis by simp
  next
    case False
    then have c: "0x80 \<le> unat c" by (simp add: word_less_nat_alt)
    let ?a = "0xC0 OR drop_bit 6 c" and ?b = "0x80 OR (c AND 0x3F)"
    have q: "unat c div 64 < 4" "unat c mod 64 < 64" using unat8_less [of c] by simp_all
    have ab: "\<not> ?a < 0x80" "?a AND 0xFC = 0xC0" "?b AND 0xC0 = 0x80"
      using iso1_bytes [OF c] q by (simp_all add: word_less_nat_alt byte_mask_unat)
    have "unat (push_bit 6 (?a AND 0x3)) = unat c div 64 * 64"
      using iso1_bytes(1) [OF c] q unat_and_mask [of ?a 2] mod_mult_self2 [of "unat c div 64" 4 48]
      unfolding unsigned_push_bit_eq by (simp add: mask_numeral push_bit_eq_mult [where 'a = nat] take_bit_nat_eq_self add.commute)
    moreover have "unat (?b AND 0x3F) = unat c mod 64"
      using iso1_bytes(2) [OF c] q unat_and_mask [of ?b 6] mod_mult_self2 [of "unat c mod 64" 64 2] by (simp add: mask_numeral add.commute)
    ultimately have "push_bit 6 (?a AND 0x3) OR (?b AND 0x3F) = c"
      using unat_or_disjoint [of "push_bit 6 (?a AND 0x3)" "unat c div 64" 6 "?b AND 0x3F"] q by (simp add: unat_eq_iff)
    with ab False Cons show ?thesis by simp
  qed
qed simp

section \<open>Table encodings\<close>

text \<open>The character a byte of a table encoding stands for.\<close>

definition table_character :: "uint16_t list \<Rightarrow> uint8_t \<Rightarrow> mulle_utf32_t" where
  "table_character table c = (if c < 0x80 then ucast c else ucast (table ! (unat c - 0x80)))"

lemma table_convert_text:
  assumes "length table = 128" and "list_all (\<lambda>u. 0x80 \<le> u) table"
  shows "u_mulle_table_convert_to_utf8 src table = Some (utf8_text (map (table_character table) src))"
proof (induction src)
  case (Cons c src)
  show ?case
  proof (cases "c < 0x80")
    case True
    then have "unat (ucast c :: 32 word) < 0x80" by (simp add: unat_ucast_8 word_less_nat_alt)
    moreover have "ucast (ucast c :: 32 word) = c" using unat8_less [of c] by (simp add: unat_eq_iff unat_ucast_8_of_32 unat_ucast_8)
    ultimately show ?thesis using True Cons as_utf8_ascii(1) [of "ucast c"] by (simp add: table_character_def)
  next
    case False
    then have c: "0x80 \<le> unat c" by (simp add: word_less_nat_alt)
    have i: "unat (ucast (c - 0x80) :: 64 word) = unat c - 0x80"
      using c unat8_less [of c] by (simp add: unsigned_ucast_eq take_bit_eq_mod unat_sub word_le_nat_alt)
    have "unat c - 0x80 < 128" using unat8_less [of c] by simp
    with assms have "slot table (ucast (c - 0x80)) = Some (table ! (unat c - 0x80))" "0x80 \<le> table ! (unat c - 0x80)"
      by (simp_all add: slot_def i list_all_length)
    moreover from this(2) have "\<not> (ucast (table ! (unat c - 0x80)) :: 32 word) <s 0x80"
      using unat16_less [of "table ! (unat c - 0x80)"] by (simp add: sless32 unat_ucast_up word_le_nat_alt)
    ultimately show ?thesis using False Cons by (simp add: table_character_def mulle_utf32_as_utf8_def)
  qed
qed simp

lemma table_facts:
  "length macroman_0x80_0xFF = 128" "list_all (\<lambda>u. 0x80 \<le> u) macroman_0x80_0xFF"
  "length nextstep_0x80_0xFD = 128" "list_all (\<lambda>u. 0x80 \<le> u) nextstep_0x80_0xFD"
  "list_all (\<lambda>u. mulle_utf32_is_valid (ucast u)) macroman_0x80_0xFF"
  "list_all (\<lambda>u. mulle_utf32_is_valid (ucast u)) nextstep_0x80_0xFD"
  by (simp_all add: macroman_0x80_0xFF_def nextstep_0x80_0xFD_def mulle_utf32_is_valid_def)

section \<open>Ranges of characters\<close>

lemma range_loop_skip:
  "list_all mulle_utf8_is_validcontinuationcharacter ds \<Longrightarrow>
     \<exists>r. utf8_range_loop (ds @ s) i rval loc e = utf8_range_loop s i r loc e \<and> (i \<noteq> loc \<longrightarrow> r = rval)"
proof (induction ds arbitrary: rval)
  case (Cons d ds)
  then have "d AND 0xC0 = 0x80" by (simp add: byte_mask_unat byte_class_unat)
  then have "utf8_range_loop ((d # ds) @ s) i rval loc e =
      utf8_range_loop (ds @ s) i (if i = loc then d # ds @ s else rval) loc e" by simp
  moreover obtain r where "utf8_range_loop (ds @ s) i (if i = loc then d # ds @ s else rval) loc e =
      utf8_range_loop s i r loc e" "i \<noteq> loc \<longrightarrow> r = (if i = loc then d # ds @ s else rval)"
    using Cons.IH [of "if i = loc then d # ds @ s else rval"] Cons.prems by auto
  ultimately show ?case by auto
qed auto

lemma range_loop_step:
  assumes "unat x \<le> 0x10FFFF" and "i \<noteq> e"
  shows "\<exists>r. utf8_range_loop (mulle_utf32_as_utf8 x @ s) i rval loc e = utf8_range_loop s (i + 1) r loc e \<and>
    (i + 1 \<noteq> loc \<longrightarrow> r = (if i = loc then mulle_utf32_as_utf8 x @ s else rval))"
proof -
  have "\<exists>c cs. mulle_utf32_as_utf8 x = c # cs \<and> \<not> c AND 0xC0 = 0x80 \<and>
    list_all mulle_utf8_is_validcontinuationcharacter cs"
    using assms(1)
  proof (cases rule: as_utf8_first)
    case (multi c cs)
    then show ?thesis by (auto simp: utf8_sequence_def byte_mask_unat)
  qed (simp add: byte_mask_unat)
  then obtain c cs where c: "mulle_utf32_as_utf8 x = c # cs" "\<not> c AND 0xC0 = 0x80"
    and cs: "list_all mulle_utf8_is_validcontinuationcharacter cs" by blast
  from range_loop_skip [OF cs, of s "i + 1" "if i = loc then c # cs @ s else rval" loc e] c assms(2)
  show ?thesis by auto
qed

lemma range_loop_end:
  assumes "x = mulle_utf32_as_utf8 z" and "unat z \<le> 0x10FFFF" and "i \<noteq> loc"
  shows "utf8_range_loop (x @ s) i rval loc i = Some (rval, of_nat (length rval - length (x @ s)))"
  using assms(2)
proof (cases rule: as_utf8_first)
  case ascii
  with assms show ?thesis by (auto simp: byte_mask_unat)
next
  case (multi c cs)
  with assms show ?thesis by (auto simp: byte_mask_unat utf8_sequence_def)
qed

lemma unat_Suc_less: "unat (i :: 64 word) < unat (e :: 64 word) \<Longrightarrow> unat (i + 1) = Suc (unat i)"
  using unat64_less [of e] by (subst unat64_add) simp_all

lemma range_loop_behind:
  assumes "list_all (\<lambda>x. unat x \<le> 0x10FFFF) cs" and "unat loc < unat i" and "unat i \<le> unat e"
  shows "utf8_range_loop (utf8_text cs) i rval loc e =
    (if unat e - unat i \<le> length cs
     then Some (rval, of_nat (length rval - length (utf8_text (drop (unat e - unat i) cs)))) else None)"
  using assms
proof (induction cs arbitrary: i)
  case Nil
  then show ?case by (auto simp: unat_eq_iff)
next
  case (Cons x cs)
  have il: "i \<noteq> loc" using Cons.prems by auto
  show ?case
  proof (cases "i = e")
    case True
    then show ?thesis using range_loop_end [OF refl _ il, of x] Cons.prems by simp
  next
    case False
    then have less: "unat i < unat e" using Cons.prems by (simp add: unat_eq_iff)
    then have "i + 1 \<noteq> loc" using Cons.prems unat_Suc_less [OF less] by (auto simp: unat_eq_iff)
    then obtain r where "utf8_range_loop (mulle_utf32_as_utf8 x @ utf8_text cs) i rval loc e =
        utf8_range_loop (utf8_text cs) (i + 1) r loc e" "r = rval"
      using range_loop_step [of x i e "utf8_text cs" rval loc] Cons.prems False il by auto
    then show ?thesis
      using Cons.IH [of "i + 1"] Cons.prems less unat_Suc_less [OF less]
      by (simp add: Suc_diff_Suc [OF less, symmetric] del: Suc_diff_diff)
  qed
qed

lemma range_loop_text:
  assumes "list_all (\<lambda>x. unat x \<le> 0x10FFFF) cs" and "unat i \<le> unat loc" and "unat loc < unat e"
  shows "utf8_range_loop (utf8_text cs) i rval loc e =
    (if unat e - unat i \<le> length cs
     then Some (utf8_text (drop (unat loc - unat i) cs),
                of_nat (length (utf8_text (take (unat e - unat loc) (drop (unat loc - unat i) cs))))) else None)"
  using assms
proof (induction cs arbitrary: i rval)
  case Nil
  then show ?case by (auto simp: unat_eq_iff)
next
  case (Cons x cs)
  have ne: "i \<noteq> e" using Cons.prems by auto
  have less: "unat i < unat e" using Cons.prems by simp
  note suc = unat_Suc_less [OF less]
  obtain r where r: "utf8_range_loop (mulle_utf32_as_utf8 x @ utf8_text cs) i rval loc e =
      utf8_range_loop (utf8_text cs) (i + 1) r loc e"
      "i + 1 \<noteq> loc \<longrightarrow> r = (if i = loc then mulle_utf32_as_utf8 x @ utf8_text cs else rval)"
    using range_loop_step [of x i e "utf8_text cs" rval loc] Cons.prems ne by auto
  show ?case
  proof (cases "i = loc")
    case True
    then have "i + 1 \<noteq> loc" using suc by (auto simp: unat_eq_iff)
    with r True have r': "utf8_range_loop (mulle_utf32_as_utf8 x @ utf8_text cs) i rval loc e =
      utf8_range_loop (utf8_text cs) (i + 1) (utf8_text (x # cs)) loc e" by simp
    have d: "unat e - unat i = Suc (unat e - Suc (unat i))" using less by simp
    have "length (utf8_text (x # cs)) - length (utf8_text (drop (unat e - Suc (unat i)) cs)) =
      length (mulle_utf32_as_utf8 x) + length (utf8_text (take (unat e - Suc (unat i)) cs))"
      if "unat e - Suc (unat i) \<le> length cs"
    proof -
      have "utf8_text cs = utf8_text (take (unat e - Suc (unat i)) cs) @ utf8_text (drop (unat e - Suc (unat i)) cs)"
        by (simp flip: concat_append map_append)
      then have "length (utf8_text cs) = length (utf8_text (take (unat e - Suc (unat i)) cs)) +
          length (utf8_text (drop (unat e - Suc (unat i)) cs))" by (metis length_append)
      then show ?thesis by simp
    qed
    then show ?thesis
      using r' range_loop_behind [of cs loc "i + 1" e "utf8_text (x # cs)"] Cons.prems suc less True d by simp
  next
    case False
    then have l: "unat i < unat loc" using Cons.prems by (simp add: unat_eq_iff)
    then have d: "unat loc - unat i = Suc (unat loc - Suc (unat i))" "unat e - unat i = Suc (unat e - Suc (unat i))"
      using less by simp_all
    show ?thesis using r(1) Cons.IH [of "i + 1" r] Cons.prems suc l d by simp
  qed
qed

section \<open>Properties\<close>

text \<open>The part of a text behind a byte order mark, and its offset.\<close>

definition utf8_body :: "mulle_utf8_t list \<Rightarrow> mulle_utf8_t list" where
  "utf8_body s = (if mulle_utf8_has_leading_bomcharacter s then drop 3 s else s)"

definition utf8_body_offset :: "mulle_utf8_t list \<Rightarrow> size_t" where
  "utf8_body_offset s = (if mulle_utf8_has_leading_bomcharacter s then 3 else 0)"

lemma utf8_window_all:
  assumes "length s < 2 ^ 64 - 1"
  shows "(if of_nat (length s) = (-1 :: size_t) then mulle_utf8_strlen (Some s) else Some (of_nat (length s))) =
      Some (of_nat (length s))"
    and "text_window s (of_nat (length s)) = Some s"
  using assms of_nat64_neq_minus_one [OF assms] by (simp_all add: text_window_Some unat64_of_nat)

lemma utf8_validate_body:
  assumes "length s < 2 ^ 64 - 1"
  shows "mulle_utf8_validate (Some s) (of_nat (length s)) = utf8_validate_loop (utf8_body s) (utf8_body_offset s)"
  using utf8_window_all [OF assms] by (simp add: mulle_utf8_validate_def utf8_body_def utf8_body_offset_def)

lemma text_end_validate: "text_end tail \<Longrightarrow> utf8_validate_loop tail i = Some None"
  by (cases tail) (auto simp: text_end_def)

text \<open>
  C29. \<open>mulle_utf8_validate\<close> returns null exactly for the texts that are, up to the end or a terminating
  zero, the UTF-8 encoding of Unicode scalar values without noncharacters. Otherwise it returns the
  offset behind the longest such encoding, where no valid character starts. It never reads behind the
  text.
\<close>

theorem mulle_utf8_validate_spec:
  assumes len: "length s < 2 ^ 64 - 1"
  defines "result \<equiv> mulle_utf8_validate (Some s) (of_nat (length s))"
  shows "(result = Some None \<longleftrightarrow>
      (\<exists>cs tail. list_all text_character cs \<and> text_end tail \<and> utf8_body s = utf8_text cs @ tail)) \<and>
    (\<exists>r. result = Some r) \<and>
    (\<forall>i. result = Some (Some i) \<longrightarrow>
      (\<exists>cs rest. list_all text_character cs \<and> utf8_body s = utf8_text cs @ rest \<and> utf8_malformed rest \<and>
         i = utf8_body_offset s + of_nat (length (utf8_text cs))))"
proof -
  have res: "result = utf8_validate_loop (utf8_body s) (utf8_body_offset s)"
    unfolding result_def by (rule utf8_validate_body [OF len])
  obtain cs rest where r: "list_all text_character cs" "utf8_body s = utf8_text cs @ rest"
    "text_end rest \<and> result = Some None \<or>
     utf8_malformed rest \<and> result = Some (Some (utf8_body_offset s + of_nat (length (utf8_text cs))))"
    using utf8_validate_loop_cases [of "utf8_body s" "utf8_body_offset s"] unfolding res by blast
  have "result = Some None" if "list_all text_character ds" "text_end tail" "utf8_body s = utf8_text ds @ tail" for ds tail
    using utf8_validate_loop_text [OF that(1)] text_end_validate [OF that(2)] that(3) res by simp
  with r show ?thesis by (auto simp: exI)
qed

theorem mulle_utf8_validate_spec_witness:
  "\<exists>r. mulle_utf8_validate (Some [0xC3, 0xA4]) (of_nat (length [0xC3 :: mulle_utf8_t, 0xA4])) = Some r"
  using mulle_utf8_validate_spec [of "[0xC3, 0xA4]"] by simp

text \<open>
  C35. On the texts that \<open>mulle_utf8_validate\<close> accepts, \<open>mulle_utf8_information\<close> succeeds and reports the
  number of characters, the lengths in all three encodings, whether the text is ASCII, char5 or UTF-15,
  the byte order mark and the terminating zero. On other texts it fails and reports the same offset as
  the validation.
\<close>

theorem mulle_utf8_information_spec:
  assumes len: "length s < 2 ^ 64 - 1" and "s \<noteq> []"
  defines "info \<equiv> mulle_utf8_information (Some s) (of_nat (length s))"
  shows "(\<forall>cs tail. list_all text_character cs \<and> text_end tail \<and> utf8_body s = utf8_text cs @ tail \<longrightarrow>
      info = Some (True, utf_information_of cs (mulle_utf8_has_leading_bomcharacter s) (utf8_body_offset s) (tail \<noteq> []))) \<and>
    (\<forall>i. mulle_utf8_validate (Some s) (of_nat (length s)) = Some (Some i) \<longrightarrow>
      info = Some (False, utf_information_fail (Some i)))"
proof -
  let ?n = "of_nat (length s) :: size_t" and ?bom = "mulle_utf8_has_leading_bomcharacter s" and ?st = "utf8_body_offset s"
  let ?init = "utf_information_init\<lparr>has_bom := ?bom, utf_start := Some ?st\<rparr>"
  have n0: "?n \<noteq> 0" using assms(2) len by (intro of_nat64_neq_0) simp_all
  have b: "drop (unat ?st) s = utf8_body s" "(if ?bom then ?n - 3 else ?n) = ?n - ?st"
    by (simp_all add: utf8_body_def utf8_body_offset_def)
  have info: "info = map_option (\<lambda>r. case r of
            Inl i \<Rightarrow> (False, utf_information_fail (Some (?st + i)))
          | Inr (i, dst_len, info) \<Rightarrow>
              let info = info\<lparr>utf8len := i\<rparr>;
                  info = info\<lparr>utf32len := dst_len - (?n - ?st - utf8len info)\<rparr>;
                  info = info\<lparr>utf16len := utf16len info + utf32len info\<rparr>
              in (True, info\<lparr>is_char5_text := (is_char5_text info \<and> is_ascii info)\<rparr>))
     (utf8_information_loop (utf8_body s) 0 (?n - ?st) ?init)"
  proof (cases ?bom)
    case True
    then have st: "?st = 3" by (simp add: utf8_body_offset_def)
    show ?thesis
      using n0 utf8_window_all [OF len] b True unfolding st
      by (simp add: info_def mulle_utf8_information_def Let_def map_conv_bind_option comp_def)
  next
    case False
    then have st: "?st = 0" by (simp add: utf8_body_offset_def)
    show ?thesis
      using n0 utf8_window_all [OF len] b False unfolding st diff_zero
      by (simp add: info_def mulle_utf8_information_def Let_def map_conv_bind_option comp_def)
  qed
  have "info = Some (True, utf_information_of cs ?bom ?st (tail \<noteq> []))"
    if "list_all text_character cs" "text_end tail" "utf8_body s = utf8_text cs @ tail" for cs tail
    unfolding info that(3)
    by (simp add: utf8_information_loop_text [OF that(1,2)] utf_information_init_def utf_information_of_def
        char5_text_iff Let_def)
  moreover have "info = Some (False, utf_information_fail (Some i))"
    if i: "mulle_utf8_validate (Some s) ?n = Some (Some i)" for i
  proof -
    obtain cs rest where cs: "list_all text_character cs" "utf8_body s = utf8_text cs @ rest" "utf8_malformed rest"
      "i = ?st + of_nat (length (utf8_text cs))"
      using utf8_validate_loop_cases [of "utf8_body s" ?st] i utf8_validate_body [OF len] by force
    obtain m j where "utf8_information_loop (utf8_body s) 0 (?n - ?st) ?init =
        utf8_information_loop rest (0 + of_nat (length (utf8_text cs))) m j"
      using utf8_information_loop_append [OF cs(1)] cs(2) by metis
    then show ?thesis unfolding info using utf8_information_loop_fail [OF cs(3)] cs(4) by simp
  qed
  ultimately show ?thesis by blast
qed

theorem mulle_utf8_information_spec_witness:
  "mulle_utf8_information (Some [0x61, 0xC3, 0xA4]) 3 = Some (True, utf_information_of [0x61, 0xE4] False 0 False)"
proof -
  let ?s = "[0x61, 0xC3, 0xA4] :: mulle_utf8_t list"
  have "list_all text_character [0x61, 0xE4]" by (simp add: text_character_def mulle_utf32_is_valid_def)
  moreover have "map unat (mulle_utf32_as_utf8 0x61) = map unat [0x61 :: mulle_utf8_t]"
    "map unat (mulle_utf32_as_utf8 0xE4) = map unat [0xC3 :: mulle_utf8_t, 0xA4]"
    by (simp_all add: as_utf8_bytes utf8_bytes_def)
  then have "utf8_text [0x61, 0xE4] = ?s" by (simp only: map_unat_eq_iff) simp
  moreover have "mulle_utf8_has_leading_bomcharacter ?s = False" by (simp add: mulle_utf8_has_leading_bomcharacter_def)
  ultimately show ?thesis
    using mulle_utf8_information_spec [of ?s, THEN conjunct1, rule_format, of "[0x61, 0xE4]" "[]"]
    by (simp add: utf8_body_def utf8_body_offset_def text_end_def)
qed

text \<open>
  Iteration: at the start of a character in a UTF-8 text the next character is decoded and the
  pointer advances behind it; from there the previous character is the same one and the pointer is back
  at its start.
\<close>

theorem mulle_utf8_iteration_spec:
  assumes "list_all text_character cs" and "k < length cs"
  defines "txt \<equiv> utf8_text cs" and "pos \<equiv> \<lambda>k. length (utf8_text (take k cs))"
  shows "u_mulle_utf8_next_utf32character txt (pos k) = Some (cs ! k, pos (Suc k)) \<and>
    mulle_utf8_next_utf32character txt (pos k) = Some (cs ! k, pos (Suc k)) \<and>
    u_mulle_utf8_previous_utf32character txt (pos (Suc k)) = Some (cs ! k, pos k)"
proof (intro conjI)
  let ?us = "utf8_text (take k cs)" and ?x = "cs ! k" and ?vs = "utf8_text (drop (Suc k) cs)"
  have "cs = take k cs @ cs ! k # drop (Suc k) cs" using assms(2) by (rule id_take_nth_drop)
  then have "utf8_text cs = utf8_text (take k cs @ cs ! k # drop (Suc k) cs)" by (rule arg_cong)
  then have t: "txt = ?us @ mulle_utf32_as_utf8 ?x @ ?vs" by (simp add: txt_def)
  have p: "pos (Suc k) = length ?us + length (mulle_utf32_as_utf8 ?x)" "pos k = length ?us"
    using assms(2) by (simp_all add: pos_def take_Suc_conv_app_nth)
  have x: "unat ?x \<le> 0x10FFFF"
    using assms(1,2) text_character_tests(7) by (simp add: list_all_length)
  show n: "u_mulle_utf8_next_utf32character txt (pos k) = Some (?x, pos (Suc k))"
    unfolding t p by (rule as_utf8_next [OF x])
  then show "mulle_utf8_next_utf32character txt (pos k) = Some (?x, pos (Suc k))"
    by (auto simp: mulle_utf8_next_utf32character_def u_mulle_utf8_next_utf32character_def split: list.splits if_splits)
  show "u_mulle_utf8_previous_utf32character txt (pos (Suc k)) = Some (?x, pos k)"
    unfolding t p by (rule as_utf8_previous [OF x])
qed

theorem mulle_utf8_iteration_spec_witness:
  "u_mulle_utf8_next_utf32character (utf8_text [0x61, 0x20AC]) (length (mulle_utf32_as_utf8 0x61)) =
     Some (0x20AC, length (utf8_text [0x61, 0x20AC]))"
  using mulle_utf8_iteration_spec [of "[0x61, 0x20AC]" 1]
  by (simp add: text_character_def mulle_utf32_is_valid_def)

text \<open>
  The bytes of a range of characters: for a range inside of the text the result starts at the first
  byte of the first character and has the length of the encoding of these characters; for a range that
  exceeds the text the result is empty.
\<close>

theorem mulle_utf8data_range_of_utf32_range_spec:
  fixes mem :: "mulle_utf8_t list"
  assumes cs: "list_all text_character cs" and len: "length (utf8_text cs) < 2 ^ 64 - 1"
    and n: "range_length rng \<noteq> 0" "range_length rng \<noteq> -1"
  defines "res \<equiv> mulle_utf8data_range_of_utf32_range
      \<lparr>utf8data_characters = utf8_text cs @ mem, utf8data_length = of_nat (length (utf8_text cs))\<rparr> rng"
    and "loc \<equiv> unat (location rng)" and "cnt \<equiv> unat (range_length rng)"
  shows "res = (if loc + cnt \<le> length cs
    then Some \<lparr>utf8data_characters = utf8_text (drop loc cs),
               utf8data_length = of_nat (length (utf8_text (take cnt (drop loc cs))))\<rparr>
    else Some \<lparr>utf8data_characters = [0], utf8data_length = 0\<rparr>)"
proof -
  let ?n = "of_nat (length (utf8_text cs)) :: size_t"
  have un: "unat ?n = length (utf8_text cs)" using len by (simp add: unat64_of_nat)
  have chars: "length cs \<le> length (utf8_text cs)"
  proof (induction cs)
    case (Cons x xs)
    have "Suc 0 \<le> length (mulle_utf32_as_utf8 x)" using as_utf8_length(2) [of x] by (simp add: Suc_le_eq)
    with Cons show ?case unfolding list.map concat.simps length_append list.size by linarith
  qed simp
  have good: "list_all (\<lambda>x. unat x \<le> 0x10FFFF) cs"
    using cs text_character_tests(7) by (auto simp: list_all_iff)
  have empty: "mulle_utf8data_make None 0 = Some \<lparr>utf8data_characters = [0], utf8data_length = 0\<rparr>"
    by (simp add: mulle_utf8data_make_def)
  have w: "text_window (utf8_text cs @ mem) ?n = Some (utf8_text cs)"
    using un by (simp add: text_window_def)
  show ?thesis
  proof (cases "location rng + range_length rng > ?n \<or> location rng + range_length rng < location rng")
    case True
    have "\<not> loc + cnt \<le> length cs"
    proof
      assume le: "loc + cnt \<le> length cs"
      then have "unat (location rng + range_length rng) = loc + cnt"
        using chars len by (subst unat64_add) (simp_all add: loc_def cnt_def)
      with True le chars un show False by (auto simp: word_less_nat_alt loc_def)
    qed
    with True n empty show ?thesis
      by (simp add: res_def mulle_utf8data_range_of_utf32_range_def mulle_range_validate_against_length_def
          mulle_range_make_invalid_def mulle_range_make_def Let_def)
  next
    case False
    have add: "unat (location rng + range_length rng) = loc + cnt"
    proof (cases "loc + cnt < 2 ^ 64")
      case True
      then show ?thesis by (subst unat64_add) (simp_all add: loc_def cnt_def)
    next
      case wrap: False
      then have "unat (location rng + range_length rng) = loc + cnt - 2 ^ 64"
        by (subst unat64_add_wrap) (simp_all add: loc_def cnt_def)
      moreover have "loc \<le> unat (location rng + range_length rng)"
        using False by (simp add: word_less_nat_alt loc_def not_less)
      moreover have "cnt < 2 ^ 64" unfolding cnt_def by (rule unat64_less)
      ultimately show ?thesis using wrap by linarith
    qed
    have "0 < cnt" unfolding cnt_def unat_gt_0 by (rule n(1))
    then have "utf8_range_loop (utf8_text cs) 0 (utf8_text cs) (location rng) (location rng + range_length rng) =
        (if loc + cnt \<le> length cs
         then Some (utf8_text (drop loc cs), of_nat (length (utf8_text (take cnt (drop loc cs))))) else None)"
      using range_loop_text [OF good, of 0 "location rng" "location rng + range_length rng" "utf8_text cs",
          unfolded add loc_def [symmetric]] by simp
    with False n w empty show ?thesis
      by (simp add: res_def mulle_utf8data_range_of_utf32_range_def mulle_range_validate_against_length_def Let_def)
  qed
qed

theorem mulle_utf8data_range_of_utf32_range_spec_witness:
  "mulle_utf8data_range_of_utf32_range \<lparr>utf8data_characters = utf8_text [0x61, 0x62], utf8data_length = 2\<rparr>
     \<lparr>location = 1, range_length = 1\<rparr> = Some \<lparr>utf8data_characters = [0x62], utf8data_length = 1\<rparr>"
proof -
  have t: "mulle_utf32_as_utf8 0x61 = [0x61]" "mulle_utf32_as_utf8 0x62 = [0x62]"
    by (simp_all add: as_utf8_ascii)
  have "list_all text_character [0x61, 0x62]" by (simp add: text_character_def mulle_utf32_is_valid_def)
  from mulle_utf8data_range_of_utf32_range_spec [OF this, of "\<lparr>location = 1, range_length = 1\<rparr>" "[]"] t
  show ?thesis by simp
qed

text \<open>
  Eight bit text: the conversion of Latin 1 to UTF-8 and back is the identity for every value of
  \<open>unknown\<close>; Latin 1, MacRoman and NeXTSTEP text convert to the UTF-8 encoding of the characters the
  bytes stand for, and the characters of the tables are valid ones.
\<close>

theorem mulle_eight_bit_text_spec:
  "u_mulle_utf8_convert_to_iso1 (u_mulle_iso1_convert_to_utf8 src) unknown = Some src \<and>
    u_mulle_utf8_convert_to_utf32 (u_mulle_iso1_convert_to_utf8 src) = Some (map ucast src) \<and>
    u_mulle_macroman_convert_to_utf8 src = Some (utf8_text (map (table_character macroman_0x80_0xFF) src)) \<and>
    u_mulle_nextstep_convert_to_utf8 src = Some (utf8_text (map (table_character nextstep_0x80_0xFD) src)) \<and>
    list_all (\<lambda>u. mulle_utf32_is_valid (ucast u)) (macroman_0x80_0xFF @ nextstep_0x80_0xFD)"
proof (intro conjI)
  show "u_mulle_utf8_convert_to_iso1 (u_mulle_iso1_convert_to_utf8 src) unknown = Some src"
    by (rule utf8_convert_to_iso1_text)
  have "list_all (\<lambda>x. unat x \<le> 0x10FFFF) (map ucast src :: 32 word list)"
  proof -
    have "unat c \<le> 0x10FFFF" for c :: "8 word" using unat8_less [of c] by simp
    then show ?thesis by (simp add: list_all_iff unat_ucast_8)
  qed
  then show "u_mulle_utf8_convert_to_utf32 (u_mulle_iso1_convert_to_utf8 src) = Some (map ucast src)"
    unfolding iso1_convert_to_utf8_text by (subst utf8_to_utf32.convert_text) (simp_all add: concat_map_singleton comp_def)
  show "u_mulle_macroman_convert_to_utf8 src = Some (utf8_text (map (table_character macroman_0x80_0xFF) src))"
    "u_mulle_nextstep_convert_to_utf8 src = Some (utf8_text (map (table_character nextstep_0x80_0xFD) src))"
    by (simp_all add: u_mulle_macroman_convert_to_utf8_def u_mulle_nextstep_convert_to_utf8_def table_convert_text table_facts)
  show "list_all (\<lambda>u. mulle_utf32_is_valid (ucast u)) (macroman_0x80_0xFF @ nextstep_0x80_0xFD)"
    by (simp add: table_facts)
qed

text \<open>
  The length functions do not notice a sequence that lacks its last byte: a lone two-byte lead counts as
  no character at all, although the sequence extends past the buffer.
\<close>

theorem mulle_utf8_length_accepts_truncated:
  "mulle_utf8_utf16length (Some [0xC3]) 1 = Some 0 \<and> mulle_utf8_utf32length (Some [0xC3]) 1 = Some 0 \<and>
   mulle_utf8_validate (Some [0xC3]) 1 = Some (Some 0)"
  by (simp add: mulle_utf8_utf16length_def mulle_utf8_utf32length_def mulle_utf8_validate_def text_window_def
      mulle_utf8_is_asciicharacter_def mulle_utf8_get_extracharacterslength_def
      mulle_utf8_has_leading_bomcharacter_def mulle_utf8_is_invalidstartcharacter_def Let_def)

end
