(* ===== verification/Utf16.thy ===== *)
theory Utf16
  imports Utf8
begin

text \<open>
  UTF-16 text: \<open>mulle-utf16.c\<close> and \<open>mulle-utf16.h\<close>. Validation of surrogate pairs, the conversions to
  UTF-8 and UTF-32, directly and in blocks, the lengths, iteration and the information scan. The theory
  ends with the properties that relate all three encodings.
\<close>

section \<open>Units\<close>

definition mulle_utf16_is_asciicharacter :: "mulle_utf16_t \<Rightarrow> bool" where
  "mulle_utf16_is_asciicharacter c = (c < 0x80)"

definition mulle_utf16_is_valid_surrogatepair :: "mulle_utf16_t \<Rightarrow> mulle_utf16_t \<Rightarrow> bool" where
  "mulle_utf16_is_valid_surrogatepair hs ls =
     (if (ls = 0xDFFE \<or> ls = 0xDFFF) \<and>
         (hs AND 0xFF = 0x3F \<or> hs AND 0xFF = 0x7F \<or> hs AND 0xFF = 0xBF \<or> hs AND 0xFF = 0xFF)
      then False else True)"

definition mulle_utf16_is_invalid_char :: "mulle_utf16_t \<Rightarrow> bool" where
  "mulle_utf16_is_invalid_char c = (0xFFFE \<le> c \<or> 0xFDD0 \<le> c \<and> c \<le> 0xFDEF)"

section \<open>Conversions\<close>

fun u_mulle_utf16_convert_to_utf32 :: "mulle_utf16_t list \<Rightarrow> mulle_utf32_t list" where
  "u_mulle_utf16_convert_to_utf32 [] = []"
| "u_mulle_utf16_convert_to_utf32 (u # src) =
     (let x = ucast u in
      if mulle_utf32_is_highsurrogatecharacter x
      then case src of [] \<Rightarrow> []
           | v # src \<Rightarrow> mulle_utf16_decode_surrogatepair (ucast x) v # u_mulle_utf16_convert_to_utf32 src
      else x # u_mulle_utf16_convert_to_utf32 src)"

text \<open>
  The bytes written for a character that is no surrogate; \<open>recheck\<close> is entered a second time with the
  decoded pair, which is a character from 0x10000 on or, for an unpaired high surrogate, whatever the
  decoding of the following unit gives.
\<close>

definition utf16_put_utf8 :: "mulle_utf32_t \<Rightarrow> mulle_utf8_t list" where
  "utf16_put_utf8 x =
     (if x <s 0x80 then [ucast x]
      else if x <s 0x800
      then [0xC0 OR ucast (signed_drop_bit 6 x),
            ucast (0x80 OR (x AND 0x3F))]
      else if x <s 0x10000
      then [0xE0 OR ucast (signed_drop_bit 12 x),
            ucast (0x80 OR (signed_drop_bit 6 x AND 0x3F)),
            ucast (0x80 OR (x AND 0x3F))]
      else [0xF0 OR ucast (signed_drop_bit 18 x),
            ucast (0x80 OR (signed_drop_bit 12 x AND 0x3F)),
            ucast (0x80 OR (signed_drop_bit 6 x AND 0x3F)),
            ucast (0x80 OR (x AND 0x3F))])"

text \<open>
  \<open>utf16_recheck\<close> is the code from the label on: it decodes pairs as long as the value is a high
  surrogate and gives the value to write and the remaining units, or \<open>None\<close> for the \<open>break\<close>.
\<close>

fun utf16_recheck :: "mulle_utf32_t \<Rightarrow> mulle_utf16_t list \<Rightarrow> (mulle_utf32_t \<times> mulle_utf16_t list) option" where
  "utf16_recheck x src =
     (if \<not> x <s 0x800 \<and> x <s 0x10000 \<and> mulle_utf32_is_highsurrogatecharacter x
      then case src of [] \<Rightarrow> None
           | v # src \<Rightarrow> utf16_recheck (mulle_utf16_decode_surrogatepair (ucast x) v) src
      else Some (x, src))"

lemma utf16_recheck_length: "utf16_recheck x src = Some (y, rest) \<Longrightarrow> length rest \<le> length src"
proof (induction x src rule: utf16_recheck.induct)
  case (1 x src)
  then show ?case by (subst (asm) utf16_recheck.simps) (auto split: if_splits list.splits)
qed

declare utf16_recheck.simps [simp del]

function (sequential) u_mulle_utf16_convert_to_utf8 :: "mulle_utf16_t list \<Rightarrow> mulle_utf8_t list" where
  "u_mulle_utf16_convert_to_utf8 [] = []"
| "u_mulle_utf16_convert_to_utf8 (u # src) =
     (case utf16_recheck (ucast u) src of None \<Rightarrow> []
      | Some (x, src) \<Rightarrow> utf16_put_utf8 x @ u_mulle_utf16_convert_to_utf8 src)"
  by pat_completeness auto
termination
  by (relation "measure length") (auto dest: utf16_recheck_length)

function (sequential) utf16_blocks_to_utf8 ::
  "mulle_utf16_t list \<Rightarrow> mulle_utf8_t list \<Rightarrow> mulle_utf8_t list list option" where
  "utf16_blocks_to_utf8 [] tmp = Some (tmp_flush tmp)"
| "utf16_blocks_to_utf8 (u # src) tmp =
     (let (bs, s) = tmp_preflush (128 - 4) tmp in map_option ((@) bs)
       (case utf16_recheck (ucast u) src of None \<Rightarrow> Some (tmp_flush s)
        | Some (x, src) \<Rightarrow> do { s \<leftarrow> tmp_put 128 s (utf16_put_utf8 x); utf16_blocks_to_utf8 src s }))"
  by pat_completeness auto
termination
  by (relation "measure (\<lambda>(src, _). length src)") (auto dest: utf16_recheck_length)

definition mulle_utf16_bufferconvert_to_utf8 :: "mulle_utf16_t list \<Rightarrow> size_t \<Rightarrow> mulle_utf8_t list list option" where
  "mulle_utf16_bufferconvert_to_utf8 src len = do {
     len \<leftarrow> (if len = -1 then mulle_utf16_strlen (Some src) else Some len);
     w \<leftarrow> text_window src len;
     utf16_blocks_to_utf8 w [] }"

fun utf16_blocks_to_utf32 ::
  "mulle_utf16_t list \<Rightarrow> mulle_utf32_t list \<Rightarrow> mulle_utf32_t list list option" where
  "utf16_blocks_to_utf32 [] tmp = Some (tmp_flush tmp)"
| "utf16_blocks_to_utf32 (u # src) s =
     (let x = ucast u in
      if mulle_utf32_is_highsurrogatecharacter x
      then case src of [] \<Rightarrow> Some (tmp_flush s)
           | v # src \<Rightarrow> do {
               s \<leftarrow> tmp_put 32 s [mulle_utf16_decode_surrogatepair (ucast x) v];
               let (bs, s) = tmp_postflush 32 s;
               map_option ((@) bs) (utf16_blocks_to_utf32 src s) }
      else do {
        s \<leftarrow> tmp_put 32 s [x];
        let (bs, s) = tmp_postflush 32 s;
        map_option ((@) bs) (utf16_blocks_to_utf32 src s) })"

definition mulle_utf16_bufferconvert_to_utf32 :: "mulle_utf16_t list \<Rightarrow> size_t \<Rightarrow> mulle_utf32_t list list option" where
  "mulle_utf16_bufferconvert_to_utf32 src len = do {
     len \<leftarrow> (if len = -1 then mulle_utf16_strlen (Some src) else Some len);
     w \<leftarrow> text_window src len;
     utf16_blocks_to_utf32 w [] }"

section \<open>Validation and lengths\<close>

fun utf16_validate_loop :: "mulle_utf16_t list \<Rightarrow> size_t \<Rightarrow> size_t option" where
  "utf16_validate_loop [] i = None"
| "utf16_validate_loop (c # src) i =
     (if c = 0 then None
      else if mulle_utf16_is_invalid_char c then Some i
      else if \<not> mulle_utf32_is_surrogatecharacter (ucast c) then utf16_validate_loop src (i + 1)
      else if mulle_utf32_is_lowsurrogatecharacter (ucast c) then Some i
      else case src of [] \<Rightarrow> Some i
           | d # src \<Rightarrow>
               if \<not> mulle_utf32_is_lowsurrogatecharacter (ucast d) then Some (i + 1)
               else if \<not> mulle_utf16_is_valid_surrogatepair c d then Some i
               else if mulle_utf32_max <s mulle_utf16_decode_surrogatepair c d then Some i
               else utf16_validate_loop src (i + 2))"

definition mulle_utf16_validate :: "mulle_utf16_t list option \<Rightarrow> size_t \<Rightarrow> size_t option option" where
  "mulle_utf16_validate src len = (case src of None \<Rightarrow> Some None | Some s \<Rightarrow> do {
     len \<leftarrow> (if len = -1 then mulle_utf16_strlen src else Some len);
     w \<leftarrow> text_window s len;
     Some (utf16_validate_loop w 0) })"

fun utf16_utf8length_loop :: "mulle_utf16_t list \<Rightarrow> size_t \<Rightarrow> size_t" where
  "utf16_utf8length_loop [] sz = sz"
| "utf16_utf8length_loop (c # src) sz =
     (if c < 0x80 then utf16_utf8length_loop src sz
      else if c < 0x0800 then utf16_utf8length_loop src (sz + 1)
      else if \<not> mulle_utf32_is_surrogatecharacter (ucast c) then utf16_utf8length_loop src (sz + 2)
      else case src of [] \<Rightarrow> -1 | _ # src \<Rightarrow> utf16_utf8length_loop src (sz + (-1 + 3)))"

definition mulle_utf16_utf8length :: "mulle_utf16_t list option \<Rightarrow> size_t \<Rightarrow> size_t option" where
  "mulle_utf16_utf8length src len = do {
     len \<leftarrow> (if len = -1 then mulle_utf16_strlen src else Some len);
     if len = 0 then Some 0
     else do {
       s \<leftarrow> src;
       w \<leftarrow> text_window s len;
       Some (utf16_utf8length_loop w len) } }"

fun utf16_utf32length_loop :: "mulle_utf16_t list \<Rightarrow> size_t \<Rightarrow> size_t" where
  "utf16_utf32length_loop [] len = len"
| "utf16_utf32length_loop (c # src) len =
     (if \<not> mulle_utf32_is_highsurrogatecharacter (ucast c) then utf16_utf32length_loop src len
      else case src of [] \<Rightarrow> -1 | _ # src \<Rightarrow> utf16_utf32length_loop src (len - 1))"

definition mulle_utf16_utf32length :: "mulle_utf16_t list option \<Rightarrow> size_t \<Rightarrow> size_t option" where
  "mulle_utf16_utf32length src len = do {
     len \<leftarrow> (if len = -1 then mulle_utf16_strlen src else Some len);
     if len = 0 then Some 0
     else do {
       s \<leftarrow> src;
       w \<leftarrow> text_window s len;
       Some (utf16_utf32length_loop w len) } }"

section \<open>Iteration\<close>

definition u_mulle_utf16_next_utf32character :: "mulle_utf16_t list \<Rightarrow> nat \<Rightarrow> (mulle_utf32_t \<times> nat) option" where
  "u_mulle_utf16_next_utf32character us i = do {
     u \<leftarrow> (if i < length us then Some (us ! i) else None);
     if mulle_utf32_is_surrogatecharacter (ucast u)
     then do {
       v \<leftarrow> (if i + 1 < length us then Some (us ! (i + 1)) else None);
       Some (mulle_utf16_decode_surrogatepair u v, i + 2) }
     else Some (ucast u, i + 1) }"

definition u_mulle_utf16_previous_utf32character :: "mulle_utf16_t list \<Rightarrow> nat \<Rightarrow> (mulle_utf32_t \<times> nat) option" where
  "u_mulle_utf16_previous_utf32character us i = do {
     v \<leftarrow> (if 1 \<le> i \<and> i \<le> length us then Some (us ! (i - 1)) else None);
     if mulle_utf32_is_surrogatecharacter (ucast v)
     then do {
       u \<leftarrow> (if 2 \<le> i then Some (us ! (i - 2)) else None);
       Some (mulle_utf16_decode_surrogatepair u v, i - 2) }
     else Some (ucast v, i - 1) }"

section \<open>Information\<close>

fun utf16_information_loop ::
  "mulle_utf16_t list \<Rightarrow> size_t \<Rightarrow> mulle_utf_information \<Rightarrow> size_t + (size_t \<times> mulle_utf_information)" where
  "utf16_information_loop [] i info = Inr (i, info)"
| "utf16_information_loop (c # src) i info =
     (if c = 0 then Inr (i, info\<lparr>has_terminating_zero := True\<rparr>)
      else if mulle_utf16_is_asciicharacter c
      then utf16_information_loop src (i + 1)
             (if is_char5_text info \<and> \<not> mulle_utf16_is_char5character c
              then info\<lparr>is_char5_text := False\<rparr> else info)
      else
        let info = info\<lparr>is_ascii := False, utf8len := utf8len info + 1\<rparr>;
            info = (if 0x800 \<le> c then info\<lparr>utf8len := utf8len info + 1\<rparr> else info);
            info = (if 0x8000 \<le> c then info\<lparr>is_utf15 := False\<rparr> else info)
        in if 0xD800 \<le> c \<and> c < 0xE000
           then if \<not> mulle_utf32_is_highsurrogatecharacter (ucast c) then Inl i
                else let info = info\<lparr>utf32len := utf32len info - 1\<rparr> in
                  case src of [] \<Rightarrow> Inl (i + 1)
                  | d # src \<Rightarrow>
                      if \<not> mulle_utf32_is_lowsurrogatecharacter (ucast d) then Inl (i + 1)
                      else if mulle_utf16_is_invalid_char d then Inl (i + 1)
                      else utf16_information_loop src (i + 2) info
           else if mulle_utf16_is_invalid_char c then Inl i
           else utf16_information_loop src (i + 1) info)"

definition mulle_utf16_information ::
  "mulle_utf16_t list option \<Rightarrow> size_t \<Rightarrow> (bool \<times> mulle_utf_information) option" where
  "mulle_utf16_information src len =
     (if len = 0 then Some (True, utf_information_init\<lparr>utf_start := map_option (\<lambda>_. 0) src\<rparr>)
      else case src of None \<Rightarrow> Some (False, utf_information_fail None) | Some s \<Rightarrow> do {
        len \<leftarrow> (if len = -1 then mulle_utf16_strlen src else Some len);
        c \<leftarrow> slot s 0;
        let bom = mulle_utf32_is_bomcharacter (ucast c);
        let start = (if bom then 1 else 0);
        let len = (if bom then len - 1 else len);
        w \<leftarrow> text_window (drop (unat start) s) len;
        Some (case utf16_information_loop w 0 (utf_information_init\<lparr>has_bom := bom, utf_start := Some start\<rparr>) of
            Inl i \<Rightarrow> (False, utf_information_fail (Some (start + i)))
          | Inr (i, info) \<Rightarrow>
              (True, info\<lparr>utf8len := utf8len info + i, utf16len := utf16len info + i,
                          utf32len := utf32len info + i,
                          is_char5_text := (is_char5_text info \<and> is_ascii info)\<rparr>)) })"

definition mulle_utf16_contains_character_larger_or_equal ::
  "mulle_utf16_t list option \<Rightarrow> size_t \<Rightarrow> mulle_utf16_t \<Rightarrow> bool option" where
  "mulle_utf16_contains_character_larger_or_equal s len d = do {
     len \<leftarrow> (if len = -1 then mulle_utf16_strlen s else Some len);
     w \<leftarrow> (case s of None \<Rightarrow> if len = 0 then Some [] else None | Some us \<Rightarrow> text_window us len);
     Some (list_ex (\<lambda>c. d \<le> c) w) }"

definition mulle_utf16_is_ascii :: "mulle_utf16_t list option \<Rightarrow> size_t \<Rightarrow> bool option" where
  "mulle_utf16_is_ascii src len = map_option Not (mulle_utf16_contains_character_larger_or_equal src len 0x80)"

definition mulle_utf16_is_utf15 :: "mulle_utf16_t list option \<Rightarrow> size_t \<Rightarrow> bool option" where
  "mulle_utf16_is_utf15 src len = map_option Not (mulle_utf16_contains_character_larger_or_equal src len 0x8000)"

definition u_mulle_utf16_charinfo :: "mulle_utf16_t list \<Rightarrow> mulle_utf_charinfo" where
  "u_mulle_utf16_charinfo src =
     (let len = of_nat (length src) :: size_t in
      if len > mulle_char5_get_maxlength then mulle_utf_is_not_char5_or_char7
      else if len \<le> mulle_char7_get_maxlength
      then if list_all mulle_utf16_is_asciicharacter src then mulle_utf_is_char7
           else mulle_utf_is_not_char5_or_char7
      else if list_all mulle_utf16_is_char5character src then mulle_utf_is_char5
      else mulle_utf_is_not_char5_or_char7)"

section \<open>The units of a character\<close>

text \<open>A Unicode scalar value: a code point that is no surrogate.\<close>

definition utf_scalar :: "mulle_utf32_t \<Rightarrow> bool" where
  "utf_scalar x = (unat x \<le> 0x10FFFF \<and> \<not> (0xD800 \<le> unat x \<and> unat x < 0xE000))"

lemma text_character_scalar: "text_character x \<Longrightarrow> utf_scalar x"
  using text_character_tests(6,7) [of x] by (simp add: utf_scalar_def mulle_utf32_is_surrogatecharacter_unat)

abbreviation utf16_text :: "mulle_utf32_t list \<Rightarrow> mulle_utf16_t list" where
  "utf16_text cs \<equiv> concat (map mulle_utf32_as_utf16 cs)"

lemma as_utf16_first:
  assumes "utf_scalar x"
  obtains (bmp) "unat x < 0x10000" "mulle_utf32_as_utf16 x = [ucast x]" "unat (ucast x :: 16 word) = unat x"
      "ucast (ucast x :: 16 word) = x" "\<not> (0xD800 \<le> unat x \<and> unat x < 0xE000)"
  | (pair) h l where "0x10000 \<le> unat x" "mulle_utf32_as_utf16 x = [h, l]"
      "0xD800 \<le> unat h" "unat h < 0xDC00" "0xDC00 \<le> unat l" "unat l < 0xE000"
      "mulle_utf16_decode_surrogatepair h l = x"
proof (cases "unat x < 0x10000")
  case True
  then have "unat (ucast x :: 16 word) = unat x" by (simp add: unat_ucast_16)
  then show thesis
    using bmp True assms by (simp add: mulle_utf32_as_utf16_def sless32 unat_eq_iff unat_ucast_up utf_scalar_def)
next
  case False
  then have b: "0x10000 \<le> unat x" "unat x \<le> 0x10FFFF" using assms by (simp_all add: utf_scalar_def)
  obtain h l where "u_mulle_utf32_convert_to_utf16_as_surrogatepair x = [h, l]"
    "0xD800 \<le> unat h" "unat h < 0xDC00" "0xDC00 \<le> unat l" "unat l < 0xE000" "mulle_utf16_decode_surrogatepair h l = x"
    by (rule decode_encode_surrogatepair [OF b])
  then show thesis using pair b by (simp add: mulle_utf32_as_utf16_def sless32)
qed

lemma ucast_ucast_16 [simp]: "ucast (ucast (u :: 16 word) :: 32 word) = u"
  using unat16_less [of u] by (simp add: unat_eq_iff unat_ucast_16 unat_ucast_up)

lemma utf16_put_utf8_eq: "utf16_put_utf8 x = mulle_utf32_as_utf8 x"
  by (simp add: utf16_put_utf8_def mulle_utf32_as_utf8_def u_mulle_utf32_as_utf8_not_ascii_def)

lemmas surrogate_unat = mulle_utf32_is_surrogatecharacter_unat mulle_utf32_is_highsurrogatecharacter_unat
  mulle_utf32_is_lowsurrogatecharacter_unat unat_ucast_up

lemma utf16_recheck_scalar:
  assumes "utf_scalar x" and "mulle_utf32_as_utf16 x = u # us"
  shows "utf16_recheck (ucast u) (us @ rest) = Some (x, rest)"
  using assms(1)
proof (cases rule: as_utf16_first)
  case bmp
  then have "\<not> mulle_utf32_is_highsurrogatecharacter x" by (auto simp: surrogate_unat)
  with bmp assms(2) show ?thesis by (subst utf16_recheck.simps) simp
next
  case (pair h l)
  then have "utf16_recheck (ucast u) (us @ rest) = utf16_recheck x rest"
    using assms(2) by (subst utf16_recheck.simps) (simp add: surrogate_unat sless32)
  moreover have "utf16_recheck x rest = Some (x, rest)"
    using pair(1) by (subst utf16_recheck.simps) (simp add: surrogate_unat)
  ultimately show ?thesis by simp
qed

interpretation utf16_to_utf32: text_converter
  mulle_utf32_as_utf16 "\<lambda>x. [x]" "\<lambda>us. Some (u_mulle_utf16_convert_to_utf32 us)" utf_scalar
proof (unfold_locales, goal_cases)
  case (2 x us)
  then show ?case
  proof (cases rule: as_utf16_first)
    case bmp
    then have "\<not> mulle_utf32_is_highsurrogatecharacter x" by (auto simp: surrogate_unat)
    with bmp show ?thesis by (simp add: Let_def)
  next
    case (pair h l)
    then show ?thesis by (simp add: surrogate_unat Let_def)
  qed
qed simp

interpretation utf16_to_utf8: text_converter
  mulle_utf32_as_utf16 mulle_utf32_as_utf8 "\<lambda>us. Some (u_mulle_utf16_convert_to_utf8 us)" utf_scalar
proof (unfold_locales, goal_cases)
  case (2 x us)
  obtain u vs where u: "mulle_utf32_as_utf16 x = u # vs" using as_utf16_length(2) [of x] by (cases "mulle_utf32_as_utf16 x") auto
  show ?case using utf16_recheck_scalar [OF 2 u, of us] u by (simp add: utf16_put_utf8_eq)
qed simp

section \<open>Blocks\<close>

interpretation utf16_utf8: block_converter
  "\<lambda>us. Some (u_mulle_utf16_convert_to_utf8 us)" utf16_blocks_to_utf8 128 "\<lambda>tmp. length tmp \<le> 128"
proof (unfold_locales, goal_cases)
  case (5 us tmp)
  then obtain u src where us: "us = u # src" by (cases us) auto
  show ?case
  proof (cases "utf16_recheck (ucast u) src")
    case None
    obtain pre old where "tmp_preflush 124 tmp = (pre, old)" "concat pre @ old = tmp" "blocks_of 128 (concat pre) pre"
      "length old \<le> 128"
      using preflush_step [of tmp 124 4 "[]" 128] 5(2) by auto
    with None us show ?thesis by (intro exI [of _ pre] exI [of _ old] exI [of _ "[]"]) simp
  next
    case (Some p)
    then obtain x rest where p: "utf16_recheck (ucast u) src = Some (x, rest)" by (cases p) simp
    obtain pre old where "tmp_preflush 124 tmp = (pre, old)" "concat pre @ old = tmp"
      "blocks_of 128 (concat pre) pre" "tmp_put 128 old (mulle_utf32_as_utf8 x) = Some (old @ mulle_utf32_as_utf8 x)"
      "length (old @ mulle_utf32_as_utf8 x) \<le> 128"
      using preflush_step [of tmp 124 4 "mulle_utf32_as_utf8 x" 128] 5(2) as_utf8_length(1) [of x] by auto
    with p utf16_recheck_length [OF p] us show ?thesis
      by (intro exI [of _ pre] exI [of _ "old @ mulle_utf32_as_utf8 x"] exI [of _ "mulle_utf32_as_utf8 x"] exI [of _ rest])
        (auto simp: utf16_put_utf8_eq simp flip: append_assoc)
  qed
qed simp_all

definition utf16_iteration :: "mulle_utf16_t \<Rightarrow> mulle_utf16_t list \<Rightarrow> (mulle_utf32_t \<times> mulle_utf16_t list) option" where
  "utf16_iteration u src =
     (if mulle_utf32_is_highsurrogatecharacter (ucast u)
      then case src of [] \<Rightarrow> None | v # src \<Rightarrow> Some (mulle_utf16_decode_surrogatepair u v, src)
      else Some (ucast u, src))"

lemma utf16_utf32_iteration:
  "u_mulle_utf16_convert_to_utf32 (u # src) = (case utf16_iteration u src of None \<Rightarrow> []
     | Some (x, rest) \<Rightarrow> x # u_mulle_utf16_convert_to_utf32 rest)"
  "utf16_blocks_to_utf32 (u # src) s =
     (case utf16_iteration u src of None \<Rightarrow> Some (tmp_flush s)
      | Some (x, rest) \<Rightarrow> do {
          s \<leftarrow> tmp_put 32 s [x];
          let (bs, s) = tmp_postflush 32 s;
          map_option ((@) bs) (utf16_blocks_to_utf32 rest s) })"
  "utf16_iteration u src = Some (x, rest) \<Longrightarrow> length rest < length (u # src)"
  by (auto simp: utf16_iteration_def Let_def split: list.splits if_splits)

interpretation utf16_utf32: block_converter
  "\<lambda>us. Some (u_mulle_utf16_convert_to_utf32 us)" utf16_blocks_to_utf32 32 "\<lambda>tmp. length tmp < 32"
proof (unfold_locales, goal_cases)
  case (5 us tmp)
  then obtain u src where us: "us = u # src" by (cases us) auto
  show ?case
  proof (cases "utf16_iteration u src")
    case None
    with 5(2) show ?thesis unfolding us utf16_utf32_iteration
      by (intro exI [of _ "[]"] exI [of _ tmp] exI [of _ "[]"]) (simp add: blocks_of_def)
  next
    case (Some p)
    then obtain x rest where p: "utf16_iteration u src = Some (x, rest)" by (cases p) simp
    from postflush_step [OF 5(2), of x] obtain pre new where "tmp_put 32 tmp [x] = Some (tmp @ [x])"
      "tmp_postflush 32 (tmp @ [x]) = (pre, new)" "concat pre @ new = tmp @ [x]" "blocks_of 32 (concat pre) pre"
      "length new < 32" by blast
    with p utf16_utf32_iteration(3) [OF p] show ?thesis unfolding us utf16_utf32_iteration(1,2)
      by (intro exI [of _ pre] exI [of _ new] exI [of _ "[x]"] exI [of _ rest]) simp
  qed
qed simp_all

section \<open>Validation\<close>

lemma noncharacter_pair:
  assumes "0xD800 \<le> unat h" "unat h < 0xDC00" "0xDC00 \<le> unat l" "unat l < 0xE000"
  shows "mulle_utf16_is_valid_surrogatepair h l \<longleftrightarrow> mulle_utf32_is_valid (mulle_utf16_decode_surrogatepair h l)"
proof -
  define a where "a = unat h - 0xD800" define b where "b = unat l - 0xDC00"
  have ab: "a < 1024" "b < 1024" "unat h = 0xD800 + a" "unat l = 0xDC00 + b"
    using assms by (simp_all add: a_def b_def)
  have v: "unat (mulle_utf16_decode_surrogatepair h l) = 0x10000 + a * 0x400 + b"
    using decode_surrogatepair_unat [OF assms] by (simp add: a_def b_def)
  define q where "q = a div 64" define r where "r = a mod 64"
  have qr: "a = q * 64 + r" "r < 64" by (simp_all add: q_def r_def)
  have m: "unat (mulle_utf16_decode_surrogatepair h l) mod 0x10000 = r * 0x400 + b"
  proof -
    have "unat (mulle_utf16_decode_surrogatepair h l) = r * 0x400 + b + (q + 1) * 0x10000"
      unfolding v qr(1) by simp
    then have "unat (mulle_utf16_decode_surrogatepair h l) mod 0x10000 = (r * 0x400 + b) mod 0x10000"
      by (metis mod_mult_self1)
    then show ?thesis using qr(2) ab(2) by simp
  qed
  have "q mod 4 = 0 \<or> q mod 4 = 1 \<or> q mod 4 = 2 \<or> q mod 4 = 3" by arith
  have hb: "unat (h AND 0xFF) = unat h mod 0x100"
    using unat_and_mask [of h 8] by (simp add: mask_eq_exp_minus_1)
  have "unat h mod 0x100 = (q mod 4) * 64 + r"
  proof -
    obtain s t where st: "q div 4 = s" "q mod 4 = t" "q = s * 4 + t"
      using div_mult_mod_eq [of q 4] by metis
    then have "unat h = q mod 4 * 64 + r + (216 + q div 4) * 0x100"
      unfolding ab(3) qr(1) st(1,2) st(3) by simp
    then have "unat h mod 0x100 = (q mod 4 * 64 + r) mod 0x100" by (metis mod_mult_self1)
    moreover have "q mod 4 * 64 + r < 0x100" using qr(2) mod_less_divisor [of 4 q] by simp
    ultimately show ?thesis by simp
  qed
  then have "h AND 0xFF = 0x3F \<or> h AND 0xFF = 0x7F \<or> h AND 0xFF = 0xBF \<or> h AND 0xFF = 0xFF \<longleftrightarrow> r = 63"
    using qr(2) hb \<open>q mod 4 = 0 \<or> q mod 4 = 1 \<or> q mod 4 = 2 \<or> q mod 4 = 3\<close> by (auto simp: unat_eq_iff)
  moreover have "l = 0xDFFE \<or> l = 0xDFFF \<longleftrightarrow> 1022 \<le> b"
    using ab by (auto simp: unat_eq_iff)
  moreover have "r * 0x400 + b < 0xFFFE \<longleftrightarrow> \<not> (r = 63 \<and> 1022 \<le> b)"
    using qr(2) ab(2) by auto
  ultimately show ?thesis
    using m v ab by (auto simp: mulle_utf16_is_valid_surrogatepair_def mulle_utf32_is_valid_def Let_def)
qed

text \<open>No character is encoded at the start of the text.\<close>

definition utf16_malformed :: "mulle_utf16_t list \<Rightarrow> bool" where
  "utf16_malformed us \<longleftrightarrow> us \<noteq> [] \<and> hd us \<noteq> 0 \<and> (\<forall>x rest. text_character x \<longrightarrow> us \<noteq> mulle_utf32_as_utf16 x @ rest)"

text \<open>
  Which unit of a malformed text an error is reported for: the second one where a high surrogate is
  followed by a unit that is not a low one, the first one otherwise.
\<close>

fun utf16_error_unit :: "mulle_utf16_t list \<Rightarrow> nat" where
  "utf16_error_unit (c # d # _) =
     (if 0xD800 \<le> unat c \<and> unat c < 0xDC00 \<and> \<not> (0xDC00 \<le> unat d \<and> unat d < 0xE000) then 1 else 0)"
| "utf16_error_unit _ = 0"

lemma error_unit_first: "\<not> (0xD800 \<le> unat c \<and> unat c < 0xDC00) \<Longrightarrow> utf16_error_unit (c # src) = 0"
  by (cases src) auto

lemma invalid_char_unat: "mulle_utf16_is_invalid_char c \<longleftrightarrow> 0xFFFE \<le> unat c \<or> 0xFDD0 \<le> unat c \<and> unat c \<le> 0xFDEF"
  by (simp add: mulle_utf16_is_invalid_char_def word_le_nat_alt)

lemma utf16_validate_loop_text:
  "list_all text_character cs \<Longrightarrow>
     utf16_validate_loop (utf16_text cs @ us) i = utf16_validate_loop us (i + of_nat (length (utf16_text cs)))"
proof (induction cs arbitrary: i)
  case (Cons x cs)
  then have x: "text_character x" "utf_scalar x" and v: "mulle_utf32_is_valid x" and x0: "x \<noteq> 0"
    using text_character_scalar by (simp_all add: text_character_def)
  from x(2) show ?case
  proof (cases rule: as_utf16_first)
    case bmp
    then have "\<not> mulle_utf16_is_invalid_char (ucast x)" "ucast x \<noteq> (0 :: 16 word)"
      using v x0 by (auto simp: invalid_char_unat mulle_utf32_is_valid_def Let_def unat_eq_iff)
    moreover have "\<not> mulle_utf32_is_surrogatecharacter x" using bmp(5) by (simp add: surrogate_unat)
    ultimately show ?thesis using bmp Cons by (simp add: add.assoc)
  next
    case (pair h l)
    then have "h \<noteq> 0" "\<not> mulle_utf16_is_invalid_char h" by (auto simp: invalid_char_unat)
    moreover have "mulle_utf16_is_valid_surrogatepair h l" using noncharacter_pair [of h l] pair v by simp
    moreover have "\<not> mulle_utf32_max <s x" using text_character_tests(4) [OF x(1)] .
    ultimately have "utf16_validate_loop (h # l # utf16_text cs @ us) i = utf16_validate_loop (utf16_text cs @ us) (i + 2)"
      using pair by (simp add: surrogate_unat)
    with pair(2) Cons show ?thesis by (simp add: ac_simps)
  qed
qed simp

lemma utf16_malformedI:
  assumes "c \<noteq> 0"
    and "\<And>x. text_character x \<Longrightarrow> mulle_utf32_as_utf16 x = [c] \<Longrightarrow> False"
    and "\<And>x d rest. text_character x \<Longrightarrow> mulle_utf32_as_utf16 x = [c, d] \<Longrightarrow> src = d # rest \<Longrightarrow> False"
  shows "utf16_malformed (c # src)"
proof -
  have False if "text_character x" "c # src = mulle_utf32_as_utf16 x @ rest" for x rest
    using text_character_scalar [OF that(1)]
  proof (cases rule: as_utf16_first)
    case bmp
    with that assms(2) [OF that(1)] show False by simp
  next
    case (pair h l)
    with that assms(3) [OF that(1), of l rest] show False by simp
  qed
  then show ?thesis using assms(1) by (auto simp: utf16_malformed_def)
qed

lemma utf16_validate_loop_cases:
  "\<exists>cs rest. list_all text_character cs \<and> us = utf16_text cs @ rest \<and>
     (text_end rest \<and> utf16_validate_loop us i = None \<or>
      utf16_malformed rest \<and> utf16_validate_loop us i = Some (i + of_nat (length (utf16_text cs) + utf16_error_unit rest)))"
proof (induction us i rule: utf16_validate_loop.induct)
  case (1 i)
  then show ?case by (intro exI [of _ "[]"]) (simp add: text_end_def)
next
  case (2 c src i)
  let ?ok = "\<lambda>us i. \<exists>cs rest. list_all text_character cs \<and> us = utf16_text cs @ rest \<and>
     (text_end rest \<and> utf16_validate_loop us i = None \<or>
      utf16_malformed rest \<and> utf16_validate_loop us i = Some (i + of_nat (length (utf16_text cs) + utf16_error_unit rest)))"
  have step: "?ok (mulle_utf32_as_utf16 x @ vs) j" if x: "text_character x"
    and vs: "?ok vs (j + of_nat (length (mulle_utf32_as_utf16 x)))" for x vs j
  proof -
    from vs obtain cs rest where *: "list_all text_character cs" "vs = utf16_text cs @ rest"
      "text_end rest \<and> utf16_validate_loop vs (j + of_nat (length (mulle_utf32_as_utf16 x))) = None \<or>
       utf16_malformed rest \<and> utf16_validate_loop vs (j + of_nat (length (mulle_utf32_as_utf16 x))) =
         Some (j + of_nat (length (mulle_utf32_as_utf16 x)) + of_nat (length (utf16_text cs) + utf16_error_unit rest))" by blast
    have "utf16_validate_loop (mulle_utf32_as_utf16 x @ vs) j = utf16_validate_loop vs (j + of_nat (length (mulle_utf32_as_utf16 x)))"
      using utf16_validate_loop_text [of "[x]" vs j] x by simp
    with * x show ?thesis
      by (intro exI [of _ "x # cs"] exI [of _ rest]) (auto simp: add.assoc)
  qed
  have bad: "?ok (c # src) i" if "utf16_malformed (c # src)" "utf16_validate_loop (c # src) i = Some (i + of_nat (utf16_error_unit (c # src)))"
    using that by (intro exI [of _ "[]"] exI [of _ "c # src"]) (auto simp del: utf16_validate_loop.simps utf16_error_unit.simps)
  show ?case
  proof (cases "c = 0")
    case True
    then show ?thesis by (intro exI [of _ "[]"] exI [of _ "c # src"]) (simp add: text_end_def)
  next
    case c0: False
    consider (inv) "mulle_utf16_is_invalid_char c"
      | (bmp) "\<not> mulle_utf16_is_invalid_char c" "\<not> (0xD800 \<le> unat c \<and> unat c < 0xE000)"
      | (low) "\<not> mulle_utf16_is_invalid_char c" "0xDC00 \<le> unat c" "unat c < 0xE000"
      | (high) "\<not> mulle_utf16_is_invalid_char c" "0xD800 \<le> unat c" "unat c < 0xDC00" by linarith
    then show ?thesis
    proof cases
      case bmp
      have u: "unat (ucast c :: 32 word) = unat c" by (rule unat_ucast_up)
      have "mulle_utf32_is_valid (ucast c)"
        using bmp unat16_less [of c] by (auto simp: mulle_utf32_is_valid_def Let_def u invalid_char_unat)
      then have x: "text_character (ucast c)" using c0 u by (auto simp: text_character_def unat_eq_iff)
      have as: "mulle_utf32_as_utf16 (ucast c) = [c]"
        using unat16_less [of c] by (simp add: mulle_utf32_as_utf16_def sless32 u)
      have "?ok src (i + 1)" using 2(1) [OF c0] bmp by (simp add: surrogate_unat)
      then show ?thesis using step [OF x, of src i] unfolding as by simp
    next
      case inv
      have "utf16_malformed (c # src)"
      proof (rule utf16_malformedI [OF c0])
        fix x assume x: "text_character x"
        { assume "mulle_utf32_as_utf16 x = [c]"
          with text_character_scalar [OF x] have "unat x = unat c" "unat x < 0x10000" by (auto elim!: as_utf16_first)
          with x inv show False
            by (auto simp: text_character_def mulle_utf32_is_valid_def Let_def invalid_char_unat) }
        { fix d rest assume "mulle_utf32_as_utf16 x = [c, d]"
          with text_character_scalar [OF x] inv show False by (auto elim!: as_utf16_first simp: invalid_char_unat) }
      qed
      moreover have "utf16_error_unit (c # src) = 0"
        using inv by (intro error_unit_first) (auto simp: invalid_char_unat)
      ultimately show ?thesis using bad c0 inv by simp
    next
      case low
      have "utf16_malformed (c # src)"
        by (rule utf16_malformedI [OF c0]; drule text_character_scalar; erule as_utf16_first) (use low in auto)
      then show ?thesis using bad c0 low error_unit_first [of c src] by (simp add: surrogate_unat)
    next
      case high
      have single: False if "text_character x" "mulle_utf32_as_utf16 x = [c]" for x
        using text_character_scalar [OF that(1)] that(2) high by (auto elim!: as_utf16_first)
      show ?thesis
      proof (cases src)
        case Nil
        have "utf16_malformed (c # src)" by (rule utf16_malformedI [OF c0 single]) (use Nil in auto)
        then show ?thesis using bad c0 high Nil by (simp add: surrogate_unat)
      next
        case (Cons d rest)
        have pairs: "text_character x \<Longrightarrow> mulle_utf32_as_utf16 x = [c, e] \<Longrightarrow>
            0xDC00 \<le> unat e \<and> unat e < 0xE000 \<and> x = mulle_utf16_decode_surrogatepair c e" for x e
          using text_character_scalar [of x] by (auto elim!: as_utf16_first)
        consider (nolow) "\<not> (0xDC00 \<le> unat d \<and> unat d < 0xE000)"
          | (nonchar) "0xDC00 \<le> unat d" "unat d < 0xE000" "\<not> mulle_utf16_is_valid_surrogatepair c d"
          | (pair) "0xDC00 \<le> unat d" "unat d < 0xE000" "mulle_utf16_is_valid_surrogatepair c d" by blast
        then show ?thesis
        proof cases
          case nolow
          have "utf16_malformed (c # src)"
            by (rule utf16_malformedI [OF c0 single]) (use nolow Cons pairs in auto)
          then show ?thesis using bad c0 high Cons nolow by (simp add: surrogate_unat)
        next
          case nonchar
          then have "\<not> mulle_utf32_is_valid (mulle_utf16_decode_surrogatepair c d)"
            using noncharacter_pair high by blast
          then have "utf16_malformed (c # src)"
            by (intro utf16_malformedI [OF c0 single]) (use nonchar Cons pairs in \<open>auto simp: text_character_def\<close>)
          then show ?thesis using bad c0 high Cons nonchar by (simp add: surrogate_unat)
        next
          case pair
          let ?x = "mulle_utf16_decode_surrogatepair c d"
          note e = encode_decode_surrogatepair [OF high(2,3) pair(1,2)]
          have v: "mulle_utf32_is_valid ?x" using noncharacter_pair [OF high(2,3) pair(1,2)] pair by blast
          then have x: "text_character ?x" using e(2) by (auto simp: text_character_def)
          have as: "mulle_utf32_as_utf16 ?x = [c, d]" using e by (simp add: mulle_utf32_as_utf16_def sless32)
          have "?ok rest (i + 2)"
            using 2(2) [OF c0 _ _ _ Cons] high pair text_character_tests(4) [OF x] by (simp add: surrogate_unat)
          then show ?thesis using step [OF x, of rest i] unfolding as Cons by simp
        qed
      qed
    qed
  qed
qed

section \<open>Lengths, iteration and information\<close>

lemma utf16_length_step:
  assumes "utf_scalar x"
  shows "utf16_utf32length_loop (mulle_utf32_as_utf16 x @ us) n =
      utf16_utf32length_loop us (n - (of_nat (length (mulle_utf32_as_utf16 x)) - 1))"
    and "utf16_utf8length_loop (mulle_utf32_as_utf16 x @ us) n =
      utf16_utf8length_loop us (n + (of_nat (length (mulle_utf32_as_utf8 x)) - of_nat (length (mulle_utf32_as_utf16 x))))"
proof -
  have x: "unat x \<le> 0x10FFFF" using assms by (simp add: utf_scalar_def)
  have "utf16_utf32length_loop (mulle_utf32_as_utf16 x @ us) n =
      utf16_utf32length_loop us (n - (of_nat (length (mulle_utf32_as_utf16 x)) - 1)) \<and>
    utf16_utf8length_loop (mulle_utf32_as_utf16 x @ us) n =
      utf16_utf8length_loop us (n + (of_nat (length (mulle_utf32_as_utf8 x)) - of_nat (length (mulle_utf32_as_utf16 x))))"
    using assms
  proof (cases rule: as_utf16_first)
    case bmp
    then have "\<not> mulle_utf32_is_surrogatecharacter x" "\<not> mulle_utf32_is_highsurrogatecharacter x"
      by (auto simp: surrogate_unat)
    with bmp x show ?thesis by (simp add: as_utf8_length_eq word_less_nat_alt)
  next
    case (pair h l)
    with x show ?thesis by (simp add: surrogate_unat as_utf8_length_eq word_less_nat_alt)
  qed
  then show "utf16_utf32length_loop (mulle_utf32_as_utf16 x @ us) n =
      utf16_utf32length_loop us (n - (of_nat (length (mulle_utf32_as_utf16 x)) - 1))"
    and "utf16_utf8length_loop (mulle_utf32_as_utf16 x @ us) n =
      utf16_utf8length_loop us (n + (of_nat (length (mulle_utf32_as_utf8 x)) - of_nat (length (mulle_utf32_as_utf16 x))))"
    by blast+
qed

lemma utf16_length_text:
  "list_all utf_scalar cs \<Longrightarrow>
     utf16_utf32length_loop (utf16_text cs) n = n - of_nat (length (utf16_text cs)) + of_nat (length cs) \<and>
     utf16_utf8length_loop (utf16_text cs) n = n - of_nat (length (utf16_text cs)) + of_nat (length (utf8_text cs))"
  by (induction cs arbitrary: n) (simp_all add: utf16_length_step algebra_simps)

lemma as_utf16_next:
  assumes "utf_scalar x"
  shows "u_mulle_utf16_next_utf32character (us @ mulle_utf32_as_utf16 x @ vs) (length us) =
    Some (x, length us + length (mulle_utf32_as_utf16 x))"
  using assms
proof (cases rule: as_utf16_first)
  case bmp
  then have "\<not> mulle_utf32_is_surrogatecharacter x" by (simp add: surrogate_unat)
  with bmp show ?thesis by (simp add: u_mulle_utf16_next_utf32character_def)
next
  case (pair h l)
  then show ?thesis by (simp add: u_mulle_utf16_next_utf32character_def surrogate_unat nth_append)
qed

lemma as_utf16_previous:
  assumes "utf_scalar x"
  shows "u_mulle_utf16_previous_utf32character (us @ mulle_utf32_as_utf16 x @ vs)
    (length us + length (mulle_utf32_as_utf16 x)) = Some (x, length us)"
  using assms
proof (cases rule: as_utf16_first)
  case bmp
  then have "\<not> mulle_utf32_is_surrogatecharacter x" by (simp add: surrogate_unat)
  with bmp show ?thesis by (simp add: u_mulle_utf16_previous_utf32character_def)
next
  case (pair h l)
  then show ?thesis by (simp add: u_mulle_utf16_previous_utf32character_def surrogate_unat nth_append)
qed

lemma utf16_information_step:
  assumes x: "text_character x"
  shows "utf16_information_loop (mulle_utf32_as_utf16 x @ us) i info =
    utf16_information_loop us (i + of_nat (length (mulle_utf32_as_utf16 x)))
      (info\<lparr>utf8len := utf8len info + (of_nat (length (mulle_utf32_as_utf8 x)) - of_nat (length (mulle_utf32_as_utf16 x))),
            utf32len := utf32len info - (of_nat (length (mulle_utf32_as_utf16 x)) - 1),
            is_ascii := (is_ascii info \<and> unat x < 0x80),
            is_char5_text := (is_char5_text info \<and> (unat x < 0x80 \<longrightarrow> mulle_utf32_is_char5character x)),
            is_utf15 := (is_utf15 info \<and> unat x < 0x8000)\<rparr>)"
proof -
  have v: "mulle_utf32_is_valid x" and x0: "x \<noteq> 0" and le: "unat x \<le> 0x10FFFF"
    using x text_character_tests(7) [OF x] by (simp_all add: text_character_def)
  from text_character_scalar [OF x] show ?thesis
  proof (cases rule: as_utf16_first)
    case bmp
    let ?c = "ucast x :: 16 word"
    have c: "?c \<noteq> 0" "\<not> mulle_utf16_is_invalid_char ?c"
      using bmp v x0 by (auto simp: invalid_char_unat mulle_utf32_is_valid_def Let_def unat_eq_iff)
    have c5: "mulle_utf16_is_char5character ?c = mulle_utf32_is_char5character x"
      using bmp(4) by (simp add: mulle_utf16_is_char5character_def mulle_utf32_is_char5character_def)
    have b: "mulle_utf16_is_asciicharacter ?c \<longleftrightarrow> unat x < 0x80" "0x800 \<le> ?c \<longleftrightarrow> 0x800 \<le> unat x"
      "0x8000 \<le> ?c \<longleftrightarrow> 0x8000 \<le> unat x" "\<not> (0xD800 \<le> ?c \<and> ?c < 0xE000)"
      using bmp by (auto simp: mulle_utf16_is_asciicharacter_def word_less_nat_alt word_le_nat_alt)
    consider "unat x < 0x80" | "0x80 \<le> unat x" "unat x < 0x800" | "0x800 \<le> unat x" "unat x < 0x8000"
      | "0x8000 \<le> unat x" by linarith
    then show ?thesis
    proof cases
      case 1
      with bmp c c5 b le show ?thesis
        by (cases info; cases "is_char5_text info") (simp_all add: as_utf8_length_eq)
    next
      case 2
      with bmp c b le show ?thesis by (cases info) (auto simp: as_utf8_length_eq Let_def)
    next
      case 3
      with bmp c b le show ?thesis by (cases info) (auto simp: as_utf8_length_eq Let_def add.commute)
    next
      case 4
      with bmp c b le show ?thesis by (cases info) (auto simp: as_utf8_length_eq Let_def add.commute)
    qed
  next
    case (pair h l)
    then have "h \<noteq> 0" "\<not> mulle_utf16_is_asciicharacter h" "0x800 \<le> h" "0x8000 \<le> h" "0xD800 \<le> h \<and> h < 0xE000"
      "\<not> mulle_utf16_is_invalid_char l"
      by (auto simp: mulle_utf16_is_asciicharacter_def word_less_nat_alt word_le_nat_alt invalid_char_unat)
    with pair le show ?thesis by (cases info) (simp add: as_utf8_length_eq Let_def add.commute surrogate_unat)
  qed
qed

lemma utf16_information_loop_text:
  assumes "list_all text_character cs" and "text_end tail"
  shows "utf16_information_loop (utf16_text cs @ tail) i info = Inr (i + of_nat (length (utf16_text cs)),
    info\<lparr>utf8len := utf8len info + (of_nat (length (utf8_text cs)) - of_nat (length (utf16_text cs))),
         utf32len := utf32len info - (of_nat (length (utf16_text cs)) - of_nat (length cs)),
         is_ascii := (is_ascii info \<and> list_all (\<lambda>c. unat c < 0x80) cs),
         is_char5_text := (is_char5_text info \<and> list_all (\<lambda>c. unat c < 0x80 \<longrightarrow> mulle_utf32_is_char5character c) cs),
         is_utf15 := (is_utf15 info \<and> list_all (\<lambda>c. unat c < 0x8000) cs),
         has_terminating_zero := (has_terminating_zero info \<or> tail \<noteq> [])\<rparr>)"
  using assms
proof (induction cs arbitrary: i info)
  case Nil
  then show ?case by (cases tail; cases info) (auto simp: text_end_def)
next
  case (Cons c cs)
  then show ?case by (simp add: utf16_information_step algebra_simps del: utf16_information_loop.simps)
qed

section \<open>Properties\<close>

text \<open>
  C30. \<open>mulle_utf16_validate\<close> returns null exactly for the texts that are, up to the end or a terminating
  zero, the UTF-16 encoding of Unicode scalar values without noncharacters. Otherwise it returns the
  offset behind the longest such encoding, where no valid character starts, but one more where a high
  surrogate stands there and the unit behind it is not a low one.
\<close>

theorem mulle_utf16_validate_spec:
  assumes len: "length s < 2 ^ 64 - 1"
  defines "result \<equiv> mulle_utf16_validate (Some s) (of_nat (length s))"
  shows "(result = Some None \<longleftrightarrow>
      (\<exists>cs tail. list_all text_character cs \<and> text_end tail \<and> s = utf16_text cs @ tail)) \<and>
    (\<exists>r. result = Some r) \<and>
    (\<forall>i. result = Some (Some i) \<longrightarrow>
      (\<exists>cs rest. list_all text_character cs \<and> s = utf16_text cs @ rest \<and> utf16_malformed rest \<and>
         i = of_nat (length (utf16_text cs) + utf16_error_unit rest)))"
proof -
  have res: "result = Some (utf16_validate_loop s 0)"
    unfolding result_def mulle_utf16_validate_def using len of_nat64_neq_minus_one [OF len]
    by (simp add: text_window_Some unat64_of_nat)
  obtain cs rest where r: "list_all text_character cs" "s = utf16_text cs @ rest"
    "text_end rest \<and> result = Some None \<or>
     utf16_malformed rest \<and> result = Some (Some (of_nat (length (utf16_text cs) + utf16_error_unit rest)))"
    using utf16_validate_loop_cases [of s 0] unfolding res by auto
  have "result = Some None" if "list_all text_character ds" "text_end tail" "s = utf16_text ds @ tail" for ds tail
    using utf16_validate_loop_text [OF that(1), of tail 0] that(2,3) res
    by (cases tail) (auto simp: text_end_def)
  with r show ?thesis by (auto simp: exI)
qed

text \<open>A low surrogate alone, and a high one before a letter.\<close>

theorem mulle_utf16_validate_spec_witness:
  "mulle_utf16_validate (Some [0x41, 0xDC00]) 2 = Some (Some 1) \<and>
   (\<exists>r. mulle_utf16_validate (Some [0xD800, 0x41]) (of_nat (length [0xD800 :: mulle_utf16_t, 0x41])) = Some r)"
  using mulle_utf16_validate_spec [of "[0xD800, 0x41]"]
  by (simp add: mulle_utf16_validate_def text_window_Some mulle_utf16_is_invalid_char_def
      mulle_utf32_is_surrogatecharacter_def mulle_utf32_is_lowsurrogatecharacter_def)

text \<open>
  C31. The six direct conversions between UTF-8, UTF-16 and UTF-32 are mutually inverse on the texts of
  Unicode scalar values: whatever way a text takes through the encodings, its characters stay the same.
\<close>

theorem mulle_utf_conversion_roundtrip:
  assumes cs: "list_all utf_scalar cs"
  defines "t8 \<equiv> u_mulle_utf32_convert_to_utf8 cs" and "t16 \<equiv> u_mulle_utf32_convert_to_utf16 cs"
  shows "u_mulle_utf8_convert_to_utf32 t8 = Some cs \<and>
    u_mulle_utf16_convert_to_utf32 t16 = cs \<and>
    u_mulle_utf8_convert_to_utf16 t8 = Some t16 \<and>
    u_mulle_utf16_convert_to_utf8 t16 = t8"
proof (intro conjI)
  have le: "list_all (\<lambda>x. unat x \<le> 0x10FFFF) cs" using cs by (simp add: list_all_iff utf_scalar_def)
  show "u_mulle_utf8_convert_to_utf32 t8 = Some cs"
    using utf8_to_utf32.convert_text [OF le] by (simp add: t8_def utf32_convert_to_utf8_eq)
  show "u_mulle_utf16_convert_to_utf32 t16 = cs"
    using utf16_to_utf32.convert_text [OF cs] by (simp add: t16_def utf32_convert_to_utf16_eq)
  show "u_mulle_utf8_convert_to_utf16 t8 = Some t16"
    using utf8_to_utf16.convert_text [OF le] by (simp add: t8_def t16_def utf32_convert_to_utf8_eq utf32_convert_to_utf16_eq)
  show "u_mulle_utf16_convert_to_utf8 t16 = t8"
    using utf16_to_utf8.convert_text [OF cs] by (simp add: t8_def t16_def utf32_convert_to_utf8_eq utf32_convert_to_utf16_eq)
qed

theorem mulle_utf_conversion_roundtrip_witness:
  "u_mulle_utf8_convert_to_utf32 (u_mulle_utf32_convert_to_utf8 [0x61, 0x20AC, 0x1F600]) = Some [0x61, 0x20AC, 0x1F600]"
  using mulle_utf_conversion_roundtrip [of "[0x61, 0x20AC, 0x1F600]"] by (simp add: utf_scalar_def)

text \<open>
  C32. The six conversions through a temporary array pass to the callback the blocks of exactly the units
  the direct conversion writes, for every text, malformed ones included. No block is empty and none is
  longer than the array, so that the array is never written behind its end.
\<close>

theorem mulle_utf_bufferconvert_spec:
  assumes "length s8 < 2 ^ 64 - 1" and "length s16 < 2 ^ 64 - 1" and "length s32 < 2 ^ 64 - 1"
  shows "(\<exists>vs bs. u_mulle_utf8_convert_to_utf16 s8 = Some vs \<and>
      mulle_utf8_bufferconvert_to_utf16 s8 (of_nat (length s8)) = Some bs \<and> blocks_of 64 vs bs) \<and>
    (\<exists>vs bs. u_mulle_utf8_convert_to_utf32 s8 = Some vs \<and>
      mulle_utf8_bufferconvert_to_utf32 s8 (of_nat (length s8)) = Some bs \<and> blocks_of 32 vs bs) \<and>
    (\<exists>bs. mulle_utf16_bufferconvert_to_utf8 s16 (of_nat (length s16)) = Some bs \<and>
      blocks_of 128 (u_mulle_utf16_convert_to_utf8 s16) bs) \<and>
    (\<exists>bs. mulle_utf16_bufferconvert_to_utf32 s16 (of_nat (length s16)) = Some bs \<and>
      blocks_of 32 (u_mulle_utf16_convert_to_utf32 s16) bs) \<and>
    (\<exists>bs. mulle_utf32_bufferconvert_to_utf8 s32 (of_nat (length s32)) = Some bs \<and>
      blocks_of 128 (u_mulle_utf32_convert_to_utf8 s32) bs) \<and>
    (\<exists>bs. mulle_utf32_bufferconvert_to_utf16 s32 (of_nat (length s32)) = Some bs \<and>
      blocks_of 64 (u_mulle_utf32_convert_to_utf16 s32) bs)"
  using utf8_utf16.blocks_text [of s8] utf8_utf32.blocks_text [of s8] utf16_utf8.blocks_text [of s16]
    utf16_utf32.blocks_text [of s16] utf32_utf8.blocks_text [of s32] utf32_utf16.blocks_text [of s32]
    assms [THEN of_nat64_neq_minus_one] assms
  by (intro conjI; simp add: mulle_utf8_bufferconvert_to_utf16_def mulle_utf8_bufferconvert_to_utf32_def
      mulle_utf16_bufferconvert_to_utf8_def mulle_utf16_bufferconvert_to_utf32_def
      mulle_utf32_bufferconvert_to_utf8_def mulle_utf32_bufferconvert_to_utf16_def text_window_Some unat64_of_nat)

theorem mulle_utf_bufferconvert_spec_witness:
  "\<exists>bs. mulle_utf32_bufferconvert_to_utf8 [0x20AC] 1 = Some bs \<and> blocks_of 128 (u_mulle_utf32_convert_to_utf8 [0x20AC]) bs"
  using mulle_utf_bufferconvert_spec [of "[]" "[]" "[0x20AC]"] by simp

text \<open>
  C33. The six length functions give the number of units that the conversion of a text of Unicode scalar
  values writes.
\<close>

theorem mulle_utf_length_spec:
  assumes cs: "list_all utf_scalar cs" and small: "length cs < 2 ^ 61"
  defines "t8 \<equiv> u_mulle_utf32_convert_to_utf8 cs" and "t16 \<equiv> u_mulle_utf32_convert_to_utf16 cs"
  shows "mulle_utf32_utf8length (Some cs) (of_nat (length cs)) = Some (of_nat (length t8)) \<and>
    mulle_utf32_utf16length (Some cs) (of_nat (length cs)) = Some (of_nat (length t16)) \<and>
    mulle_utf8_utf32length (Some t8) (of_nat (length t8)) = Some (of_nat (length cs)) \<and>
    mulle_utf8_utf16length (Some t8) (of_nat (length t8)) = Some (of_nat (length t16)) \<and>
    mulle_utf16_utf32length (Some t16) (of_nat (length t16)) = Some (of_nat (length cs)) \<and>
    mulle_utf16_utf8length (Some t16) (of_nat (length t16)) = Some (of_nat (length t8))"
proof (intro conjI)
  have le: "list_all (\<lambda>x. unat x \<le> 0x10FFFF) cs" using cs by (simp add: list_all_iff utf_scalar_def)
  have t: "t8 = utf8_text cs" "t16 = utf16_text cs"
    by (simp_all add: t8_def t16_def utf32_convert_to_utf8_eq utf32_convert_to_utf16_eq)
  have b8: "length (utf8_text cs) \<le> 4 * length cs"
    by (induction cs) (use as_utf8_length(1) in \<open>simp_all add: add_mono\<close>)
  have b16: "length (utf16_text cs) \<le> 2 * length cs"
  proof (induction cs)
    case (Cons c cs)
    then show ?case using as_utf16_length(1) [of c] by simp
  qed simp
  have l: "length cs < 2 ^ 64 - 1" "length t8 < 2 ^ 64 - 1" "length t16 < 2 ^ 64 - 1"
    using small b8 b16 by (simp_all add: t)
  note w = l [THEN of_nat64_neq_minus_one]
  have nz: "of_nat (length xs) = (0 :: size_t) \<longleftrightarrow> xs = []" if "length xs < 2 ^ 64 - 1" for xs :: "'z list"
    using that of_nat64_neq_0 [of "length xs"] by auto
  have e8: "t8 = [] \<longleftrightarrow> cs = []" "t16 = [] \<longleftrightarrow> cs = []" unfolding t by (cases cs; simp add: as_utf8_length(2) as_utf16_length(2))+
  show "mulle_utf32_utf8length (Some cs) (of_nat (length cs)) = Some (of_nat (length t8))"
    using utf32_utf8length_loop_eq [OF le, of "of_nat (length cs)"] l w nz [OF l(1)] e8
    by (auto simp: mulle_utf32_utf8length_def text_window_Some unat64_of_nat t)
  show "mulle_utf32_utf16length (Some cs) (of_nat (length cs)) = Some (of_nat (length t16))"
    using utf32_utf16length_loop_eq [OF le, of "of_nat (length cs)"] l w nz [OF l(1)] e8
    by (auto simp: mulle_utf32_utf16length_def text_window_Some unat64_of_nat t)
  show "mulle_utf8_utf32length (Some t8) (of_nat (length t8)) = Some (of_nat (length cs))"
    and "mulle_utf8_utf16length (Some t8) (of_nat (length t8)) = Some (of_nat (length t16))"
    using utf8_length_text [OF le, of "of_nat (length t8)"] l w
    by (simp_all add: mulle_utf8_utf32length_def mulle_utf8_utf16length_def text_window_Some unat64_of_nat t)
  show "mulle_utf16_utf32length (Some t16) (of_nat (length t16)) = Some (of_nat (length cs))"
    and "mulle_utf16_utf8length (Some t16) (of_nat (length t16)) = Some (of_nat (length t8))"
    using utf16_length_text [OF cs, of "of_nat (length t16)"] l w nz [OF l(3)] e8
    by (auto simp: mulle_utf16_utf32length_def mulle_utf16_utf8length_def text_window_Some unat64_of_nat t)
qed

theorem mulle_utf_length_spec_witness:
  "mulle_utf32_utf8length (Some [0x20AC]) 1 = Some (of_nat (length (u_mulle_utf32_convert_to_utf8 [0x20AC])))"
  using mulle_utf_length_spec [of "[0x20AC]"] by (simp add: utf_scalar_def)

lemma utf16_information_text:
  assumes cs: "list_all text_character cs" and tail: "text_end tail"
    and bom: "\<not> bom \<longrightarrow> cs = [] \<or> hd cs \<noteq> 0xFEFF"
    and src: "src = (if bom then [0xFEFF] else []) @ utf16_text cs @ tail" "src \<noteq> []" "length src < 2 ^ 64 - 1"
  shows "mulle_utf16_information (Some src) (of_nat (length src)) =
    Some (True, utf_information_of cs bom (if bom then 1 else 0) (tail \<noteq> []))"
proof -
  let ?len = "of_nat (length src) :: size_t"
  have len: "unat ?len = length src" using src(3) by (simp add: unat64_of_nat)
  then have l0: "?len \<noteq> 0" "?len \<noteq> -1"
    using src(2,3) by (simp_all add: of_nat64_neq_minus_one of_nat64_neq_0 del: of_nat_eq_0_iff)
  have first: "slot src 0 = Some (hd src)"
    using src(2) by (simp add: slot_def hd_conv_nth)
  have h: "hd (mulle_utf32_as_utf16 c @ us) \<noteq> 0xFEFF" if "text_character c" "c \<noteq> 0xFEFF" for c us
    using text_character_scalar [OF that(1)]
  proof (cases rule: as_utf16_first)
    case bmp
    then show ?thesis using that(2) by (auto simp: unat_eq_iff)
  next
    case (pair h l)
    then show ?thesis by (auto simp: unat_eq_iff)
  qed
  have "hd src = 0xFEFF \<longleftrightarrow> bom"
    using src(1,2) bom tail cs h [of "hd cs"] by (cases cs; cases tail) (auto simp: text_end_def)
  then have b: "mulle_utf32_is_bomcharacter (ucast (hd src)) = bom"
    by (simp add: mulle_utf32_is_bomcharacter_def mulle_utf32_get_bomcharacter_def word_unat_eq_iff unat_ucast_up)
  have w: "text_window (drop (unat (if bom then 1 else 0 :: size_t)) src) (if bom then ?len - 1 else ?len) = Some (utf16_text cs @ tail)"
  proof (rule trans [OF _ text_window_Some])
    have "length src = (if bom then 1 else 0) + length (utf16_text cs @ tail)" using src(1) by simp
    then show "unat (if bom then ?len - 1 else ?len) = length (utf16_text cs @ tail)"
      using len unat64_sub [of 1 ?len] by (cases bom) (simp_all del: of_nat_Suc)
  qed (simp add: src(1))
  show ?thesis
    using l0 first b w
    by (simp add: mulle_utf16_information_def Let_def utf_information_init_def utf_information_of_def
        utf16_information_loop_text [OF cs tail] char5_text_iff)
qed

text \<open>
  The UTF-16 and the UTF-32 analyser classify every well-formed text, with or without a byte order
  mark and up to a terminating zero: all three encoded lengths, the ASCII, 5-bit and 15-bit flags and
  the start behind the mark are those of the decoded characters. Where the UTF-32 analyser rejects a
  text without a mark, it reports the offset of the first invalid character, the one that
  \<open>mulle_utf32_validate\<close> returns.
\<close>

theorem mulle_utf_information_spec:
  assumes cs: "list_all text_character cs" and bom: "\<not> bom \<longrightarrow> cs = [] \<or> hd cs \<noteq> 0xFEFF"
    and tail: "text_end tail16" "text_end tail32"
  defines "s16 \<equiv> (if bom then [0xFEFF] else []) @ utf16_text cs @ tail16"
    and "s32 \<equiv> (if bom then [0xFEFF] else []) @ cs @ tail32"
  assumes len: "s16 \<noteq> []" "length s16 < 2 ^ 64 - 1" "s32 \<noteq> []" "length s32 < 2 ^ 64 - 1"
    and bad: "u \<noteq> []" "hd u \<noteq> 0xFEFF" "length u < 2 ^ 64 - 1"
  shows "mulle_utf16_information (Some s16) (of_nat (length s16)) =
      Some (True, utf_information_of cs bom (if bom then 1 else 0) (tail16 \<noteq> [])) \<and>
    mulle_utf32_information (Some s32) (of_nat (length s32)) =
      Some (True, utf_information_of cs bom (if bom then 1 else 0) (tail32 \<noteq> [])) \<and>
    (mulle_utf32_information (Some u) (of_nat (length u)) = Some (False, utf_information_fail (Some i)) \<longleftrightarrow>
      mulle_utf32_validate (Some u) (of_nat (length u)) = Some (Some i))"
proof (intro conjI)
  show "mulle_utf16_information (Some s16) (of_nat (length s16)) =
      Some (True, utf_information_of cs bom (if bom then 1 else 0) (tail16 \<noteq> []))"
    by (rule utf16_information_text [OF cs tail(1) bom s16_def [THEN meta_eq_to_obj_eq] len(1,2)])
  show "mulle_utf32_information (Some s32) (of_nat (length s32)) =
      Some (True, utf_information_of cs bom (if bom then 1 else 0) (tail32 \<noteq> []))"
    by (rule utf32_information_text [OF cs tail(2) bom s32_def [THEN meta_eq_to_obj_eq] len(3,4)])
  have l: "of_nat (length u) \<noteq> (0 :: size_t)" "of_nat (length u) \<noteq> (-1 :: size_t)"
    using bad(1,3) by (simp_all add: of_nat64_neq_minus_one of_nat64_neq_0 del: of_nat_eq_0_iff)
  have "slot u 0 = Some (hd u)" using bad(1) by (simp add: slot_def hd_conv_nth)
  moreover have "\<not> mulle_utf32_is_bomcharacter (hd u)"
    using bad(2) by (simp add: mulle_utf32_is_bomcharacter_def mulle_utf32_get_bomcharacter_def)
  ultimately show "mulle_utf32_information (Some u) (of_nat (length u)) = Some (False, utf_information_fail (Some i)) \<longleftrightarrow>
      mulle_utf32_validate (Some u) (of_nat (length u)) = Some (Some i)"
    using l bad(3) utf32_information_loop_fail [of u 0 "utf_information_init\<lparr>has_bom := False, utf_start := Some 0\<rparr>" i]
    by (auto simp: mulle_utf32_information_def mulle_utf32_validate_def text_window_Some unat64_of_nat Let_def
        utf_information_fail_def split: sum.splits)
qed

theorem mulle_utf_information_spec_witness:
  "mulle_utf16_information (Some [0xFEFF, 0xD83D, 0xDE00]) 3 = Some (True, utf_information_of [0x1F600] True 1 False)"
proof -
  have "mulle_utf32_as_utf16 0x1F600 = [0xD83D, 0xDE00]" by code_simp
  then show ?thesis
    using mulle_utf_information_spec [of "[0x1F600]" True "[]" "[]" "[0]"]
    by (simp add: text_character_def mulle_utf32_is_valid_def text_end_def)
qed

text \<open>
  The UTF-16 analyser does not test a surrogate pair for a supplementary noncharacter, which
  \<open>mulle_utf16_validate\<close> rejects: the two disagree on U+1FFFE.
\<close>

theorem mulle_utf16_information_accepts_noncharacter_pair:
  "map_option fst (mulle_utf16_information (Some [0xD83F, 0xDFFE]) 2) = Some True \<and>
   mulle_utf16_validate (Some [0xD83F, 0xDFFE]) 2 = Some (Some 0)"
  by code_simp

end
