(* ===== verification/Spec2Isabelle.thy ===== *)
theory Spec2Isabelle
  imports Container_Math Range Rangeset Probing Pointerset Pointermap_Spec Pointerqueue Multififo Pointerfifo Linkedlist Qsort Rbtree_Spec Char5 Utf16
begin

text \<open>
  Verification library for mulle-core, the C library that amalgamates containers, text encodings, data
  types and concurrency primitives. All paths below are under \<open>src/src\<close>.

  The parts and the theories that model them:

  \<^item> \<open>Mulle_Prelude\<close>: the machine types (\<open>size_t\<close>, \<open>uintptr_t\<close> and pointers are 64-bit words), arrays
    with checked access, lemmas on words and lists.
  \<^item> \<open>Container_Math\<close>: \<open>mulle-container/mulle-container-math.h\<close> and the overflow-checked sizes of
    \<open>mulle-allocator/mulle-allocator.h\<close>, which every container calls before it allocates.
  \<^item> \<open>Range\<close> and \<open>Rangeset\<close>: \<open>mulle-data/mulle-range.c\<close>, \<open>.h\<close> and \<open>mulle-container/mulle--rangeset.c\<close>,
    \<open>.h\<close>. A range set is a growing array of ranges, searched with the binary searches of \<open>Range\<close>.
  \<^item> \<open>Probing\<close> and \<open>Pointerset\<close>: \<open>mulle-container/mulle--pointerset-generic.c\<close> and the files around it.
    \<open>Probing\<close> is the theory of linear probing alone, with a locale over home slots, \<open>Pointerset\<close> the
    operations of the hash set with the callbacks of its keys as a record of functions.
  \<^item> \<open>Pointermap\<close>, \<open>Pointermap_Keys\<close>, \<open>Pointermap_Write\<close>, \<open>Pointermap_Copy\<close>, \<open>Pointermap_Spec\<close>:
    \<open>mulle-container/mulle--pointermap-generic.c\<close>, the files around it and \<open>mulle--map.c\<close>. \<open>Pointermap\<close> is
    the code, \<open>Pointermap_Keys\<close> relates its loops to those of the set of the keys and says which function a
    map stands for, and the other theories take the operations and their sequences.
  \<^item> \<open>Operation_Sequence\<close>: running a list of operations on a code state beside an abstract one, a locale
    that carries a representation from the single operations to their sequences.
  \<^item> \<open>Queue_Interface\<close>: the contract of a first-in first-out queue, a locale that the queues interpret.
  \<^item> \<open>Pointerqueue\<close>: \<open>mulle-container/mulle--pointerqueue.c\<close>, buckets in an explicit heap.
  \<^item> \<open>Multififo\<close> and \<open>Pointerfifo\<close>: \<open>mulle-multififo\<close> and \<open>mulle-fifo/mulle-pointerfifo.h\<close>, queues that
    threads share.
  \<^item> \<open>Linkedlist\<close>: \<open>mulle-linkedlist\<close>, the plain list and the one that threads share.
  \<^item> \<open>Qsort\<close>: \<open>mulle-data/mulle-qsort.h\<close>, sorting an array with a given comparison function.
  \<^item> \<open>Rbtree_Zipper\<close>, \<open>Rbtree\<close>, \<open>Rbtree_Insert\<close>, \<open>Rbtree_Walk\<close>, \<open>Rbtree_Remove\<close>, \<open>Rbtree_Spec\<close>:
    \<open>mulle-rbtree/mulle--rbtree.c\<close>, \<open>.h\<close>, the red-black tree of nodes with parent pointers in an explicit
    heap. \<open>Rbtree_Zipper\<close> is the abstract tree with a path to one place in it, \<open>Rbtree\<close> holds the code and
    the relation of a heap to a tree, and the other theories take one operation each.
  \<^item> \<open>Utf_Character\<close>, \<open>Utf_Text\<close>, \<open>Utf32\<close>, \<open>Utf8\<close>, \<open>Utf16\<close>: characters and texts of \<open>mulle-utf\<close>. \<open>Utf_Text\<close>
    holds the two contracts of a conversion as locales, which the conversions of the three encodings
    interpret. \<open>Char5\<close> is \<open>mulle-utf/mulle-char5.c\<close>, and it uses \<open>Fnv1a\<close>, \<open>mulle-data/mulle-fnv1a.c\<close>.

  How the code corresponds to the definitions. A function has the name of the C function; a leading
  underscore is written \<open>u_\<close>, two are \<open>uu_\<close>. A struct is a record, its fields with a short prefix. A
  function that changes a struct takes it and returns it changed. Integers are words of their width, so
  that \<open>+\<close> wraps as in C. An array is a list, read and written by \<open>slot\<close> and \<open>set_slot\<close>, which have no
  result outside of it. \<open>None\<close> stands for an access outside of an array, for the end of the program in the
  allocator, or for a loop without an end (a loop that is not structurally recursive is a
  \<open>partial_function\<close>); a result \<open>Some\<close> says that none of them happens. The asserts of the code are compiled
  out in a release build and are not part of the model. Callbacks, hash functions and memory allocation
  are parameters, with the behaviour the code relies on as a hypothesis (\<open>keycallback_ok\<close>, \<open>malloc_ok\<close>).

  Threads. The shared queues and the shared list are step relations. A call is a datatype of the points
  of its code, each before its next access to shared memory, and the step of a thread is one function of
  this point and the shared state, so that one step is one atomic access. Any number of threads are
  interleaved in any order. Atomic operations are sequentially consistent, as \<open>mulle-thread\<close> documents
  its default ones; a relaxed read of the shared list answers any value the head has ever had. A weak
  compare-and-swap may fail without a reason. The theorems hold in all reachable states.

  What the lemmas show:

  \<^item> \<open>Rangeset\<close>: the ranges stay sorted, disjoint and valid; inserting and removing are union and
    difference of sets of locations; searches and queries are decided against that set.
  \<^item> \<open>Pointerset\<close>: every key is found from its home slot without a gap; this invariant survives
    insertion, growing, shrinking and the gap closing of a removal; lookups end; retain and release
    calls balance the stored keys; intersection and union are those of sets.
  \<^item> \<open>Pointermap_Spec\<close>: any sequence of operations answers like a function from keys to values; with
    callbacks, writing, removing, copying and resetting change this function as they should, and the
    retain and release calls balance the keys and values the map holds.
  \<^item> \<open>Pointerqueue\<close>: refinement of a list through the contract of \<open>Queue_Interface\<close>.
  \<^item> \<open>Multififo\<close>, \<open>Pointerfifo\<close>: what is delivered is a prefix of what was written, in order; the loops
    that are meant to end at once do; what an answer means for the state of the queue. The queue with a
    mutex answers every sequence of calls, refused ones included, like a bounded list.
  \<^item> \<open>Linkedlist\<close>: no entry is lost or in two places, the list never becomes cyclic.
  \<^item> \<open>Qsort\<close>: sorting ends, stays in the array and only rearranges it for any comparison function, and
    sorts for a total preorder.
  \<^item> \<open>Rbtree_Spec\<close>: insertion and removal keep the tree sorted, balanced and its pointers consistent, and
    are insertion into and removal from the list of the nodes in order; searches and walks are decided
    against this list; every loop ends.
  \<^item> text: validators accept exactly the encodings of valid characters, conversions are inverse to each
    other, lengths agree with conversions, block-wise conversion agrees with the direct one, iteration
    visits the characters.

  Bounds and why they are enough. An array of ranges of 16 bytes has less than \<open>2 ^ 58\<close> elements and a
  table of pointers less than \<open>2 ^ 59\<close> slots, because the code doubles sizes and the checked
  multiplication aborts near \<open>2 ^ 60\<close> and \<open>2 ^ 61\<close>; no machine has that much memory. Texts are shorter than
  \<open>2 ^ 64 - 1\<close> units, since -1 marks a length that is to be found, and have less than \<open>2 ^ 61\<close> characters,
  so that no length overflows. The indexes of the lock-free queue are cast to 32 bits, so it is shown for
  less than \<open>2 ^ 32\<close> writes; the queue with a mutex for sizes that divide \<open>2 ^ 32\<close>, and a theorem shows
  what goes wrong for another size.

  Not modelled, and why. Vendored code (\<open>xxhash.h\<close>, \<open>http_parser.c\<close>, the number conversion and the
  matcher of \<open>mulle-regex\<close>), generated tables (\<open>mulle-unicode\<close>, \<open>mulle-url\<close>, \<open>mulle-slug\<close>), calls of the
  operating system (\<open>mulle-spawn\<close>, \<open>mulle-socket\<close>, \<open>mulle-mmap\<close>, \<open>mulle-time\<close>, \<open>mulle-dlfcn\<close>), macros without
  code of their own (\<open>mulle-c11\<close>, \<open>mulle-vararg\<close>), printing (\<open>mulle-sprintf\<close>, \<open>mulle-fprintf\<close>,
  \<open>mulle-container-debug\<close>). Not modelled yet: the sorted association array, arrays, struct queue and
  range map of \<open>mulle-container\<close>, \<open>mulle-buffer\<close>, the values around the red-black tree (\<open>mulle-rbtree.c\<close>)
  and its walk over dirty nodes, \<open>mulle-storage\<close> and the lock-free tables of \<open>mulle-concurrent\<close> on the
  memory reclamation of \<open>mulle-aba\<close>.
\<close>

end
